(* ===== verification/Prelude.thy ===== *)
theory Prelude
  imports Main "HOL-Library.Monad_Syntax"
begin

text \<open>
  Shared vocabulary of the development: the ICU error codes, the C constants the
  components use, checked access to C arrays, the allocator, and the array loops
  (shifting cells up and down, scanning for a cell) that every vector class of
  \<open>icu55/source/common\<close> repeats.

  A C array is the list of its allocated cells. A read or a write outside the array is
  undefined behaviour in the code, so \<open>rd\<close> and \<open>wr\<close> return \<open>None\<close> there and every
  operation that touches an array is an option computation: a theorem that gives
  \<open>Some\<close> is also the proof that the operation stays inside its arrays.
\<close>

named_theorems icu_defs \<open>unfolding of the small accessors of the model\<close>

section \<open>Error codes\<close>

text \<open>\<open>UErrorCode\<close> of \<open>unicode/utypes.h\<close>, restricted to the codes the modelled functions set.\<close>

datatype UErrorCode =
    U_STRING_NOT_TERMINATED_WARNING
  | U_ZERO_ERROR
  | U_ILLEGAL_ARGUMENT_ERROR
  | U_INTERNAL_PROGRAM_ERROR
  | U_MEMORY_ALLOCATION_ERROR
  | U_INDEX_OUTOFBOUNDS_ERROR
  | U_INVALID_CHAR_FOUND
  | U_ILLEGAL_CHAR_FOUND
  | U_BUFFER_OVERFLOW_ERROR
  | U_NO_WRITE_PERMISSION

text \<open>The numbers the enumeration gives them; \<open>U_FAILURE(x)\<close> is \<open>x > U_ZERO_ERROR\<close>.\<close>

fun code_value :: "UErrorCode \<Rightarrow> int" where
  "code_value U_STRING_NOT_TERMINATED_WARNING = -124"
| "code_value U_ZERO_ERROR = 0"
| "code_value U_ILLEGAL_ARGUMENT_ERROR = 1"
| "code_value U_INTERNAL_PROGRAM_ERROR = 5"
| "code_value U_MEMORY_ALLOCATION_ERROR = 7"
| "code_value U_INDEX_OUTOFBOUNDS_ERROR = 8"
| "code_value U_INVALID_CHAR_FOUND = 10"
| "code_value U_ILLEGAL_CHAR_FOUND = 12"
| "code_value U_BUFFER_OVERFLOW_ERROR = 15"
| "code_value U_NO_WRITE_PERMISSION = 30"

definition U_FAILURE :: "UErrorCode \<Rightarrow> bool" where
  "U_FAILURE x \<longleftrightarrow> code_value x > code_value U_ZERO_ERROR"

lemma U_FAILURE_simps [simp]:
  "\<not> U_FAILURE U_ZERO_ERROR"
  "\<not> U_FAILURE U_STRING_NOT_TERMINATED_WARNING"
  "U_FAILURE U_ILLEGAL_ARGUMENT_ERROR"
  "U_FAILURE U_INTERNAL_PROGRAM_ERROR"
  "U_FAILURE U_MEMORY_ALLOCATION_ERROR"
  "U_FAILURE U_INDEX_OUTOFBOUNDS_ERROR"
  "U_FAILURE U_INVALID_CHAR_FOUND"
  "U_FAILURE U_ILLEGAL_CHAR_FOUND"
  "U_FAILURE U_BUFFER_OVERFLOW_ERROR"
  "U_FAILURE U_NO_WRITE_PERMISSION"
  by (simp_all add: U_FAILURE_def)

abbreviation INT32_MAX :: int where
  "INT32_MAX \<equiv> 2147483647"

text \<open>A sum, difference or product of \<open>int32_t\<close>: none when it leaves the type, as a signed overflow has no
  defined value.\<close>

definition chk :: "int \<Rightarrow> int option" where
  "chk x = (if - 2147483648 \<le> x \<and> x \<le> INT32_MAX then Some x else None)"

lemma chk_in [simp]: "- 2147483648 \<le> x \<Longrightarrow> x \<le> INT32_MAX \<Longrightarrow> chk x = Some x"
  by (simp add: chk_def)

lemma chk_eq_Some_iff: "chk x = Some y \<longleftrightarrow> y = x \<and> - 2147483648 \<le> x \<and> x \<le> INT32_MAX"
  by (auto simp: chk_def)

section \<open>Arrays and the allocator\<close>

definition rd :: "'a list \<Rightarrow> nat \<Rightarrow> 'a option" where
  "rd xs i = (if i < length xs then Some (xs ! i) else None)"

definition wr :: "'a list \<Rightarrow> nat \<Rightarrow> 'a \<Rightarrow> 'a list option" where
  "wr xs i v = (if i < length xs then Some (xs[i := v]) else None)"

lemma rd_in [simp]: "i < length xs \<Longrightarrow> rd xs i = Some (xs ! i)"
  by (simp add: rd_def)

lemma rd_out [simp]: "\<not> i < length xs \<Longrightarrow> rd xs i = None"
  by (simp add: rd_def)

lemma rd_eq_Some_iff: "rd xs i = Some v \<longleftrightarrow> i < length xs \<and> xs ! i = v"
  by (auto simp: rd_def)

lemma rd_drop: "rd xs i = (case drop i xs of [] \<Rightarrow> None | x # _ \<Rightarrow> Some x)"
  by (cases "i < length xs") (auto simp: rd_def Cons_nth_drop_Suc [symmetric])

lemma wr_in [simp]: "i < length xs \<Longrightarrow> wr xs i v = Some (xs[i := v])"
  by (simp add: wr_def)

lemma wr_out [simp]: "\<not> i < length xs \<Longrightarrow> wr xs i v = None"
  by (simp add: wr_def)

text \<open>
  The allocator behind \<open>uprv_malloc\<close> and \<open>uprv_realloc\<close> is the platform's: \<open>can_alloc n\<close>
  says whether a request for \<open>n\<close> bytes succeeds and \<open>junk i\<close> is what a fresh, not yet
  written cell number \<open>i\<close> holds. Every operation that allocates takes it as an argument,
  so a theorem about all of them covers each pattern of failures.
\<close>

record 'a heap =
  can_alloc :: "int \<Rightarrow> bool"
  junk :: "nat \<Rightarrow> 'a"

text \<open>
  \<open>uprv_malloc(0)\<close> and \<open>uprv_realloc(p, 0)\<close> hand out a static block and always succeed;
  any other request goes to the platform's allocator.
\<close>

definition uprv_malloc :: "'a heap \<Rightarrow> int \<Rightarrow> bool" where
  "uprv_malloc h s = (if s > 0 then can_alloc h s else True)"

definition uprv_realloc :: "'a heap \<Rightarrow> int \<Rightarrow> bool" where
  "uprv_realloc h s = (if s = 0 then True else can_alloc h s)"

lemma malloc_ok [simp]:
  "can_alloc h = (\<lambda>_. True) \<Longrightarrow> uprv_malloc h s"
  "can_alloc h = (\<lambda>_. True) \<Longrightarrow> uprv_realloc h s"
  by (simp_all add: uprv_malloc_def uprv_realloc_def)

text \<open>The cells of a block after it was resized to \<open>n\<close> cells.\<close>

definition realloc :: "'a heap \<Rightarrow> 'a list \<Rightarrow> nat \<Rightarrow> 'a list" where
  "realloc h xs n = take n xs @ map (junk h) [length xs..<n]"

lemma length_realloc [simp]: "length (realloc h xs n) = n"
  by (cases "n \<le> length xs") (simp_all add: realloc_def)

lemma take_realloc [simp]: "k \<le> length xs \<Longrightarrow> k \<le> n \<Longrightarrow> take k (realloc h xs n) = take k xs"
  by (simp add: realloc_def min_def)

section \<open>Array loops\<close>

text \<open>\<open>for (i=count; i>index; --i) elements[i] = elements[i-1];\<close>\<close>

fun shift_up :: "'a list \<Rightarrow> nat \<Rightarrow> nat \<Rightarrow> 'a list option" where
  "shift_up xs i index =
     (if i > index
      then do { x \<leftarrow> rd xs (i - 1); ys \<leftarrow> wr xs i x; shift_up ys (i - 1) index }
      else Some xs)"

text \<open>\<open>for (i=index; i<count-1; ++i) elements[i] = elements[i+1];\<close>\<close>

function shift_down :: "'a list \<Rightarrow> nat \<Rightarrow> nat \<Rightarrow> 'a list option" where
  "shift_down xs i hi =
     (if i < hi
      then do { x \<leftarrow> rd xs (i + 1); ys \<leftarrow> wr xs i x; shift_down ys (i + 1) hi }
      else Some xs)"
  by pat_completeness auto
termination
  by (relation "measure (\<lambda>(xs, i, hi). hi - i)") auto

text \<open>\<open>for (i=start; i<count; ++i) if (p(elements[i])) return i; return -1;\<close>\<close>

function scan_from :: "('a \<Rightarrow> bool) \<Rightarrow> 'a list \<Rightarrow> nat \<Rightarrow> nat \<Rightarrow> int option" where
  "scan_from p xs i count =
     (if i < count
      then do { x \<leftarrow> rd xs i; if p x then Some (int i) else scan_from p xs (i + 1) count }
      else Some (-1))"
  by pat_completeness auto
termination
  by (relation "measure (\<lambda>(p, xs, i, count). count - i)") auto

text \<open>\<open>for (i=start; i<count; ++i) if (a[i] != b[i]) return FALSE; return TRUE;\<close>\<close>

function same_from :: "('a \<Rightarrow> 'a \<Rightarrow> bool) \<Rightarrow> 'a list \<Rightarrow> 'a list \<Rightarrow> nat \<Rightarrow> nat \<Rightarrow> bool option" where
  "same_from eq xs ys i count =
     (if i < count
      then do { x \<leftarrow> rd xs i; y \<leftarrow> rd ys i;
                if eq x y then same_from eq xs ys (i + 1) count else Some False }
      else Some True)"
  by pat_completeness auto
termination
  by (relation "measure (\<lambda>(eq, xs, ys, i, count). count - i)") auto

text \<open>\<open>for (i=start; i<count; ++i) if (!ok(elements[i])) return FALSE; return TRUE;\<close>\<close>

function each_from :: "('a \<Rightarrow> bool option) \<Rightarrow> 'a list \<Rightarrow> nat \<Rightarrow> nat \<Rightarrow> bool option" where
  "each_from ok es i n =
     (if i < n
      then do { e \<leftarrow> rd es i; b \<leftarrow> ok e; if b then each_from ok es (i + 1) n else Some False }
      else Some True)"
  by pat_completeness auto
termination
  by (relation "measure (\<lambda>(ok, es, i, n). n - i)") auto

declare each_from.simps [simp del] shift_up.simps [simp del] shift_down.simps [simp del]
  scan_from.simps [simp del] same_from.simps [simp del]

text \<open>Where the loop guard fails.\<close>

lemma loops_stop [simp]:
  "\<not> index < i \<Longrightarrow> shift_up xs i index = Some xs"
  "\<not> i < hi \<Longrightarrow> shift_down xs i hi = Some xs"
  "\<not> i < n \<Longrightarrow> scan_from p xs i n = Some (-1)"
  "\<not> i < n \<Longrightarrow> same_from eq xs ys i n = Some True"
  "\<not> i < n \<Longrightarrow> each_from ok xs i n = Some True"
  by (simp_all add: shift_up.simps [of xs i index] shift_down.simps [of xs i hi]
      scan_from.simps [of p xs i n] same_from.simps [of eq xs ys i n] each_from.simps [of ok xs i n])

lemma shift_up_insert:
  assumes "index \<le> i" "i < length xs"
  shows "\<exists>ys. shift_up xs i index = Some ys \<and> length ys = length xs \<and>
    (\<forall>k < length xs. ys ! k = (if index < k \<and> k \<le> i then xs ! (k - 1) else xs ! k))"
  using assms
proof (induction xs i index rule: shift_up.induct)
  case (1 xs i index)
  show ?case
  proof (cases "i > index")
    case False
    with "1.prems" show ?thesis by (intro exI [of _ xs]) auto
  next
    case True
    let ?zs = "xs[i := xs ! (i - 1)]"
    from True "1.prems" have "\<exists>ys. shift_up ?zs (i - 1) index = Some ys \<and> length ys = length ?zs \<and>
      (\<forall>k < length ?zs. ys ! k = (if index < k \<and> k \<le> i - 1 then ?zs ! (k - 1) else ?zs ! k))"
      by (intro "1.IH" [of "xs ! (i - 1)" ?zs]) auto
    then obtain ys where ys: "shift_up ?zs (i - 1) index = Some ys" "length ys = length xs"
      and nth: "\<And>k. k < length xs \<Longrightarrow>
        ys ! k = (if index < k \<and> k \<le> i - 1 then ?zs ! (k - 1) else ?zs ! k)"
      by auto
    have "ys ! k = (if index < k \<and> k \<le> i then xs ! (k - 1) else xs ! k)" if "k < length xs" for k
      using nth [OF that] True "1.prems" that by (auto simp: nth_list_update)
    with ys True "1.prems" show ?thesis
      by (auto simp: shift_up.simps [of xs i index])
  qed
qed

lemma shift_down_delete:
  assumes "i \<le> hi" "hi < length xs"
  shows "\<exists>ys. shift_down xs i hi = Some ys \<and> length ys = length xs \<and>
    (\<forall>k < length xs. ys ! k = (if i \<le> k \<and> k < hi then xs ! (k + 1) else xs ! k))"
  using assms
proof (induction xs i hi rule: shift_down.induct)
  case (1 xs i hi)
  show ?case
  proof (cases "i < hi")
    case False
    with "1.prems" show ?thesis by (intro exI [of _ xs]) auto
  next
    case True
    let ?zs = "xs[i := xs ! (i + 1)]"
    from True "1.prems" have "\<exists>ys. shift_down ?zs (i + 1) hi = Some ys \<and> length ys = length ?zs \<and>
      (\<forall>k < length ?zs. ys ! k = (if i + 1 \<le> k \<and> k < hi then ?zs ! (k + 1) else ?zs ! k))"
      by (intro "1.IH" [of "xs ! (i + 1)" ?zs]) auto
    then obtain ys where ys: "shift_down ?zs (i + 1) hi = Some ys" "length ys = length xs"
      and nth: "\<And>k. k < length xs \<Longrightarrow>
        ys ! k = (if i + 1 \<le> k \<and> k < hi then ?zs ! (k + 1) else ?zs ! k)"
      by auto
    have "ys ! k = (if i \<le> k \<and> k < hi then xs ! (k + 1) else xs ! k)" if "k < length xs" for k
      using nth [OF that] True "1.prems" that by (auto simp: nth_list_update)
    with ys True "1.prems" show ?thesis
      by (auto simp: shift_down.simps [of xs i hi])
  qed
qed

text \<open>The two shifts as list operations on the used prefix.\<close>

lemma shift_up_take:
  assumes "index \<le> n" "n < length xs"
  obtains ys where "shift_up xs n index = Some ys" "length ys = length xs"
    "take (n + 1) (ys[index := e]) = take index xs @ e # drop index (take n xs)"
proof -
  obtain ys where ys: "shift_up xs n index = Some ys" "length ys = length xs"
    and nth: "\<forall>k < length xs. ys ! k = (if index < k \<and> k \<le> n then xs ! (k - 1) else xs ! k)"
    using shift_up_insert [OF assms] by auto
  have "take (n + 1) (ys[index := e]) = take index xs @ e # drop index (take n xs)"
    by (rule nth_equalityI)
      (use assms ys nth in \<open>auto simp: nth_append nth_list_update nth_Cons' min_def split: if_splits\<close>)
  with ys show thesis by (rule that)
qed

lemma shift_down_take:
  assumes "index < n" "n \<le> length xs"
  obtains ys where "shift_down xs index (n - 1) = Some ys" "length ys = length xs"
    "take (n - 1) ys = take index xs @ drop (index + 1) (take n xs)"
proof -
  obtain ys where ys: "shift_down xs index (n - 1) = Some ys" "length ys = length xs"
    and nth: "\<forall>k < length xs. ys ! k = (if index \<le> k \<and> k < n - 1 then xs ! (k + 1) else xs ! k)"
    using shift_down_delete [of index "n - 1" xs] assms by fastforce
  have "take (n - 1) ys = take index xs @ drop (index + 1) (take n xs)"
    by (rule nth_equalityI) (use assms ys nth in \<open>auto simp: nth_append min_def split: if_splits\<close>)
  with ys show thesis by (rule that)
qed

text \<open>The result of a scan over the first \<open>n\<close> cells, as a list function.\<close>

fun first_index :: "('a \<Rightarrow> bool) \<Rightarrow> 'a list \<Rightarrow> nat option" where
  "first_index p [] = None"
| "first_index p (x # xs) = (if p x then Some 0 else map_option Suc (first_index p xs))"

definition index_or_minus1 :: "nat option \<Rightarrow> int" where
  "index_or_minus1 r = (case r of None \<Rightarrow> -1 | Some i \<Rightarrow> int i)"

lemma first_index_None: "first_index p xs = None \<longleftrightarrow> (\<forall>x \<in> set xs. \<not> p x)"
  by (induction xs) auto

lemma first_index_Some:
  "first_index p xs = Some i \<Longrightarrow> i < length xs \<and> p (xs ! i) \<and> (\<forall>k < i. \<not> p (xs ! k))"
proof (induction xs arbitrary: i)
  case (Cons x xs)
  then show ?case by (auto simp: nth_Cons' split: if_splits)
qed simp

lemma first_index_eq_None: "first_index ((=) key) xs = None \<longleftrightarrow> key \<notin> set xs"
  by (auto simp: first_index_None)

lemma remove1_first_index:
  "first_index ((=) e) xs = Some i \<Longrightarrow> take i xs @ drop (Suc i) xs = remove1 e xs"
  by (induction xs arbitrary: i) (auto split: if_splits)

lemma scan_from_first_index:
  assumes "i \<le> n" "n \<le> length xs"
  shows "scan_from p xs i n =
    Some (index_or_minus1 (map_option ((+) i) (first_index p (drop i (take n xs)))))"
  using assms
proof (induction p xs i n rule: scan_from.induct)
  case (1 p xs i n)
  show ?case
  proof (cases "i < n")
    case False
    with "1.prems" show ?thesis by (simp add: index_or_minus1_def)
  next
    case True
    then have "drop i (take n xs) = xs ! i # drop (i + 1) (take n xs)"
      using "1.prems" by (simp add: Cons_nth_drop_Suc [symmetric])
    with True "1.prems" show ?thesis
      using "1.IH" [of "xs ! i"]
      by (auto simp: scan_from.simps [of p xs i n] index_or_minus1_def option.map_comp comp_def
          split: option.splits)
  qed
qed

lemma scan_from_0:
  "n \<le> length xs \<Longrightarrow> scan_from p xs 0 n = Some (index_or_minus1 (first_index p (take n xs)))"
  by (cases "first_index p (take n xs)") (simp_all add: scan_from_first_index)

lemma index_or_minus1_neg [simp]: "index_or_minus1 r < 0 \<longleftrightarrow> r = None"
  by (simp add: index_or_minus1_def split: option.splits)

lemma index_or_minus1_nonneg [simp]: "0 \<le> index_or_minus1 r \<longleftrightarrow> r \<noteq> None"
  by (simp add: index_or_minus1_def split: option.splits)

lemma nat_index_or_minus1 [simp]: "nat (index_or_minus1 (Some i)) = i"
  by (simp add: index_or_minus1_def)

lemma same_from_all2:
  assumes "i \<le> n" "n \<le> length xs" "n \<le> length ys"
  shows "same_from eq xs ys i n = Some (list_all2 eq (drop i (take n xs)) (drop i (take n ys)))"
  using assms
proof (induction eq xs ys i n rule: same_from.induct)
  case (1 eq xs ys i n)
  show ?case
  proof (cases "i < n")
    case False
    with "1.prems" show ?thesis by simp
  next
    case True
    then have "drop i (take n xs) = xs ! i # drop (i + 1) (take n xs)"
      "drop i (take n ys) = ys ! i # drop (i + 1) (take n ys)"
      using "1.prems" by (simp_all add: Cons_nth_drop_Suc [symmetric])
    with True "1.prems" show ?thesis
      using "1.IH" [of "xs ! i" "ys ! i"] by (auto simp: same_from.simps [of eq xs ys i n])
  qed
qed

lemma each_from_list:
  assumes "i \<le> n" "n \<le> length es" "\<And>e. ok e = Some (p e)"
  shows "each_from ok es i n = Some (list_all p (drop i (take n es)))"
  using assms
proof (induction ok es i n rule: each_from.induct)
  case (1 ok es i n)
  show ?case
  proof (cases "i < n")
    case False
    with "1.prems" show ?thesis by simp
  next
    case True
    then have "drop i (take n es) = es ! i # drop (i + 1) (take n es)"
      using "1.prems" by (simp add: Cons_nth_drop_Suc [symmetric])
    with 1 True show ?thesis by (auto simp: each_from.simps [where i = i])
  qed
qed

text \<open>
  The binary search of the sorted insertions: the cells below the result fail \<open>gt\<close>, the
  ones from the result on satisfy it.
  \<open>while (min != max) { probe = (min + max) / 2;
     if (gt(elements[probe])) max = probe; else min = probe + 1; }\<close>
\<close>

function upper_search :: "('a \<Rightarrow> bool) \<Rightarrow> 'a list \<Rightarrow> nat \<Rightarrow> nat \<Rightarrow> nat option" where
  "upper_search gt xs mn mx =
     (if mn < mx
      then let probe = (mn + mx) div 2 in
           do { x \<leftarrow> rd xs probe;
                if gt x then upper_search gt xs mn probe else upper_search gt xs (probe + 1) mx }
      else Some mn)"
  by pat_completeness auto
termination
  by (relation "measure (\<lambda>(gt, xs, mn, mx). mx - mn)") auto

declare upper_search.simps [simp del]

definition upward :: "('a \<Rightarrow> bool) \<Rightarrow> 'a list \<Rightarrow> bool" where
  "upward gt xs \<longleftrightarrow> (\<forall>i j. i \<le> j \<longrightarrow> j < length xs \<longrightarrow> gt (xs ! i) \<longrightarrow> gt (xs ! j))"

lemma upper_search_split:
  assumes "mn \<le> mx" "mx \<le> n" "n \<le> length xs" "upward gt (take n xs)"
    "\<forall>k < mn. \<not> gt (xs ! k)" "\<forall>k. mx \<le> k \<longrightarrow> k < n \<longrightarrow> gt (xs ! k)"
  shows "\<exists>m. upper_search gt xs mn mx = Some m \<and> m \<le> n \<and>
    (\<forall>k < m. \<not> gt (xs ! k)) \<and> (\<forall>k. m \<le> k \<longrightarrow> k < n \<longrightarrow> gt (xs ! k))"
  using assms
proof (induction gt xs mn mx rule: upper_search.induct)
  case (1 gt xs mn mx)
  show ?case
  proof (cases "mn < mx")
    case False
    then have "upper_search gt xs mn mx = Some mn" by (simp add: upper_search.simps)
    with False "1.prems" show ?thesis by auto
  next
    case True
    let ?p = "(mn + mx) div 2"
    have p: "mn \<le> ?p" "?p < mx" "?p < length xs" using True "1.prems" by auto
    have up: "gt (xs ! j)" if "i \<le> j" "j < n" "gt (xs ! i)" for i j
      using "1.prems"(3,4) that by (auto simp: upward_def min_def split: if_splits)
    show ?thesis
    proof (cases "gt (xs ! ?p)")
      case gt: True
      have "\<forall>k. ?p \<le> k \<longrightarrow> k < n \<longrightarrow> gt (xs ! k)" using up gt by blast
      with "1.IH"(1) [OF True refl _ gt] "1.prems" p True gt show ?thesis
        by (simp add: upper_search.simps [of gt xs mn mx] Let_def rd_eq_Some_iff)
    next
      case gt: False
      have "?p < n" using p "1.prems"(2) by simp
      have "\<not> gt (xs ! k)" if "k < ?p + 1" for k
        using up [of k ?p] gt that \<open>?p < n\<close> by auto
      with "1.IH"(2) [OF True refl _ gt] "1.prems" p True gt show ?thesis
        by (simp add: upper_search.simps [of gt xs mn mx] Let_def rd_eq_Some_iff)
    qed
  qed
qed

section \<open>Strictly increasing lists\<close>

abbreviation ssorted :: "'a::linorder list \<Rightarrow> bool" where
  "ssorted \<equiv> sorted_wrt (<)"

lemma ssorted_distinct: "ssorted xs \<Longrightarrow> distinct xs"
  by (simp add: strict_sorted_iff)

lemma ssorted_butlast_less:
  "ssorted xs \<Longrightarrow> x \<in> set (butlast xs) \<Longrightarrow> x < last xs"
  by (induction xs) (auto split: if_splits)

lemma ssorted_hd_le: "ssorted xs \<Longrightarrow> x \<in> set xs \<Longrightarrow> hd xs \<le> x"
  by (cases xs) auto

lemma ssorted_nth_mono: "ssorted xs \<Longrightarrow> i \<le> j \<Longrightarrow> j < length xs \<Longrightarrow> xs ! i \<le> xs ! j"
  by (auto intro: sorted_nth_mono dest: strict_sorted_imp_sorted)

lemma ssorted_nth_less: "ssorted xs \<Longrightarrow> i < j \<Longrightarrow> j < length xs \<Longrightarrow> xs ! i < xs ! j"
  by (simp add: sorted_wrt_iff_nth_less)

lemma in_set_drop_nth: "x \<in> set (drop n xs) \<longleftrightarrow> (\<exists>k. n \<le> k \<and> k < length xs \<and> x = xs ! k)"
proof
  assume "x \<in> set (drop n xs)"
  then obtain i where "i < length xs - n" "x = xs ! (n + i)" by (auto simp: in_set_conv_nth)
  then show "\<exists>k. n \<le> k \<and> k < length xs \<and> x = xs ! k" by (intro exI [of _ "n + i"]) auto
next
  assume "\<exists>k. n \<le> k \<and> k < length xs \<and> x = xs ! k"
  then obtain k where "n \<le> k" "k < length xs" "x = xs ! k" by blast
  then show "x \<in> set (drop n xs)" by (auto simp: in_set_conv_nth intro!: exI [of _ "k - n"])
qed

lemma in_set_take_nth: "x \<in> set (take n xs) \<longleftrightarrow> (\<exists>k. k < n \<and> k < length xs \<and> x = xs ! k)"
  by (auto simp: in_set_conv_nth)

lemma last_in_set_le: "sorted xs \<Longrightarrow> x \<in> set xs \<Longrightarrow> x \<le> last xs"
  by (induction xs) (auto split: if_splits)

lemma ssorted_le_last: "ssorted xs \<Longrightarrow> x \<in> set xs \<Longrightarrow> x \<le> last xs"
  by (simp add: last_in_set_le strict_sorted_imp_sorted)

end
