(* ===== verification/UVec32.thy ===== *)
theory UVec32
  imports Prelude "HOL-Library.Multiset"
begin

text \<open>
  \<open>UVector32\<close> (uvectr32.cpp and the inlines of uvectr32.h): a growable array of
  \<open>int32_t\<close> with an optional maximum capacity, also used as a stack. The record keeps
  the class's fields; \<open>v32_elements\<close> is the allocated block, so its length is the
  capacity and its cells from \<open>count\<close> on hold whatever was there. Sizes are \<open>int\<close>
  because the C fields are signed and one operation can drive \<open>count\<close> below zero.
  Operations that can touch the block return an option (\<open>None\<close>: an access outside it).

  \<open>vec32_list\<close> is the abstraction to the list the vector stands for, \<open>vec32_ok\<close> the
  invariant; each operation has a lemma giving its effect on the list, and the lemma
  that it keeps the invariant.
\<close>

record uvector32 =
  v32_count :: int
  v32_capacity :: int
  v32_maxCapacity :: int
  v32_elements :: "int list"

abbreviation DEFAULT_CAPACITY :: int where
  "DEFAULT_CAPACITY \<equiv> 8"

text \<open>\<open>INT32_MAX / sizeof(int32_t)\<close>\<close>

abbreviation MAX_CELLS :: int where
  "MAX_CELLS \<equiv> 536870911"

definition v32_null :: uvector32 where
  "v32_null = \<lparr>v32_count = 0, v32_capacity = 0, v32_maxCapacity = 0, v32_elements = []\<rparr>"

definition v32_init :: "int heap \<Rightarrow> int \<Rightarrow> uvector32 \<Rightarrow> UErrorCode \<Rightarrow> uvector32 \<times> UErrorCode" where
  "v32_init h initialCapacity v status =
     (let c1 = (if initialCapacity < 1 then DEFAULT_CAPACITY else initialCapacity);
          c2 = (if v32_maxCapacity v > 0 \<and> v32_maxCapacity v < c1 then v32_maxCapacity v else c1);
          c3 = (if c2 > MAX_CELLS then min DEFAULT_CAPACITY (v32_maxCapacity v) else c2)
      in if uprv_malloc h (4 * c3)
         then (v\<lparr>v32_elements := realloc h [] (nat c3), v32_capacity := c3\<rparr>, status)
         else (v\<lparr>v32_elements := []\<rparr>, U_MEMORY_ALLOCATION_ERROR))"

definition v32_new :: "int heap \<Rightarrow> int \<Rightarrow> UErrorCode \<Rightarrow> uvector32 \<times> UErrorCode" where
  "v32_new h initialCapacity status = v32_init h initialCapacity v32_null status"

definition v32_expandCapacity ::
  "int heap \<Rightarrow> int \<Rightarrow> uvector32 \<Rightarrow> UErrorCode \<Rightarrow> bool \<times> uvector32 \<times> UErrorCode" where
  "v32_expandCapacity h minimumCapacity v status =
     (if minimumCapacity < 0 then (False, v, U_ILLEGAL_ARGUMENT_ERROR)
      else if v32_capacity v \<ge> minimumCapacity then (True, v, status)
      else if v32_maxCapacity v > 0 \<and> minimumCapacity > v32_maxCapacity v
        then (False, v, U_BUFFER_OVERFLOW_ERROR)
      else if v32_capacity v > (INT32_MAX - 1) div 2 then (False, v, U_ILLEGAL_ARGUMENT_ERROR)
      else
        let newCap = v32_capacity v * 2;
            newCap = (if newCap < minimumCapacity then minimumCapacity else newCap);
            newCap = (if v32_maxCapacity v > 0 \<and> newCap > v32_maxCapacity v
                      then v32_maxCapacity v else newCap)
        in if newCap > MAX_CELLS then (False, v, U_ILLEGAL_ARGUMENT_ERROR)
           else if \<not> uprv_realloc h (4 * newCap) then (False, v, U_MEMORY_ALLOCATION_ERROR)
           else (True, v\<lparr>v32_elements := realloc h (v32_elements v) (nat newCap),
                        v32_capacity := newCap\<rparr>, status))"

definition v32_ensureCapacity ::
  "int heap \<Rightarrow> int \<Rightarrow> uvector32 \<Rightarrow> UErrorCode \<Rightarrow> bool \<times> uvector32 \<times> UErrorCode" where
  "v32_ensureCapacity h minimumCapacity v status =
     (if minimumCapacity \<ge> 0 \<and> v32_capacity v \<ge> minimumCapacity then (True, v, status)
      else v32_expandCapacity h minimumCapacity v status)"

definition v32_addElement ::
  "int heap \<Rightarrow> int \<Rightarrow> uvector32 \<Rightarrow> UErrorCode \<Rightarrow> (uvector32 \<times> UErrorCode) option" where
  "v32_addElement h elem v status =
     (case v32_ensureCapacity h (v32_count v + 1) v status of
        (True, v, status) \<Rightarrow> do {
          es \<leftarrow> wr (v32_elements v) (nat (v32_count v)) elem;
          Some (v\<lparr>v32_elements := es, v32_count := v32_count v + 1\<rparr>, status) }
      | (False, v, status) \<Rightarrow> Some (v, status))"

definition v32_setElementAt :: "int \<Rightarrow> int \<Rightarrow> uvector32 \<Rightarrow> uvector32 option" where
  "v32_setElementAt elem index v =
     (if 0 \<le> index \<and> index < v32_count v
      then do { es \<leftarrow> wr (v32_elements v) (nat index) elem; Some (v\<lparr>v32_elements := es\<rparr>) }
      else Some v)"

definition v32_insertElementAt ::
  "int heap \<Rightarrow> int \<Rightarrow> int \<Rightarrow> uvector32 \<Rightarrow> UErrorCode \<Rightarrow> (uvector32 \<times> UErrorCode) option" where
  "v32_insertElementAt h elem index v status =
     (if 0 \<le> index \<and> index \<le> v32_count v
      then case v32_ensureCapacity h (v32_count v + 1) v status of
        (True, v, status) \<Rightarrow> do {
          es \<leftarrow> shift_up (v32_elements v) (nat (v32_count v)) (nat index);
          es \<leftarrow> wr es (nat index) elem;
          Some (v\<lparr>v32_elements := es, v32_count := v32_count v + 1\<rparr>, status) }
      | (False, v, status) \<Rightarrow> Some (v, status)
      else Some (v, status))"

definition v32_elementAti :: "uvector32 \<Rightarrow> int \<Rightarrow> int option" where
  "v32_elementAti v index =
     (if index \<ge> 0 \<and> v32_count v > 0 \<and> v32_count v - index > 0
      then rd (v32_elements v) (nat index) else Some 0)"

text \<open>A start below zero is read, and so has no result, unless the vector ends before it.\<close>

definition v32_indexOf :: "uvector32 \<Rightarrow> int \<Rightarrow> int \<Rightarrow> int option" where
  "v32_indexOf v key startIndex =
     (if startIndex < 0 then (if startIndex < v32_count v then None else Some (- 1))
      else scan_from (\<lambda>e. key = e) (v32_elements v) (nat startIndex) (nat (v32_count v)))"

definition v32_contains :: "uvector32 \<Rightarrow> int \<Rightarrow> bool option" where
  "v32_contains v key = do { i \<leftarrow> v32_indexOf v key 0; Some (i \<ge> 0) }"

definition v32_containsAll :: "uvector32 \<Rightarrow> uvector32 \<Rightarrow> bool option" where
  "v32_containsAll v other =
     each_from (\<lambda>e. do { j \<leftarrow> v32_indexOf v e 0; Some (\<not> j < 0) })
       (v32_elements other) 0 (nat (v32_count other))"

definition v32_containsNone :: "uvector32 \<Rightarrow> uvector32 \<Rightarrow> bool option" where
  "v32_containsNone v other =
     each_from (\<lambda>e. do { j \<leftarrow> v32_indexOf v e 0; Some (\<not> j \<ge> 0) })
       (v32_elements other) 0 (nat (v32_count other))"

definition v32_removeElementAt :: "int \<Rightarrow> uvector32 \<Rightarrow> uvector32 option" where
  "v32_removeElementAt index v =
     (if index \<ge> 0
      then do { es \<leftarrow> shift_down (v32_elements v) (nat index) (nat (v32_count v - 1));
                Some (v\<lparr>v32_elements := es, v32_count := v32_count v - 1\<rparr>) }
      else Some v)"

definition v32_removeAllElements :: "uvector32 \<Rightarrow> uvector32" where
  "v32_removeAllElements v = v\<lparr>v32_count := 0\<rparr>"

function v32_removeAll_loop :: "int list \<Rightarrow> nat \<Rightarrow> nat \<Rightarrow> uvector32 \<Rightarrow> bool \<Rightarrow> (uvector32 \<times> bool) option" where
  "v32_removeAll_loop es i n v changed =
     (if i < n
      then do { e \<leftarrow> rd es i; j \<leftarrow> v32_indexOf v e 0;
                if j \<ge> 0
                then do { v \<leftarrow> v32_removeElementAt j v; v32_removeAll_loop es (i + 1) n v True }
                else v32_removeAll_loop es (i + 1) n v changed }
      else Some (v, changed))"
  by pat_completeness auto
termination
  by (relation "measure (\<lambda>(es, i, n, v, changed). n - i)") auto

declare v32_removeAll_loop.simps [simp del]

definition v32_removeAll :: "uvector32 \<Rightarrow> uvector32 \<Rightarrow> (uvector32 \<times> bool) option" where
  "v32_removeAll v other = v32_removeAll_loop (v32_elements other) 0 (nat (v32_count other)) v False"

text \<open>\<open>for (j=size()-1; j>=0; --j)\<close>; the argument is \<open>j + 1\<close>.\<close>

fun v32_retainAll_loop :: "uvector32 \<Rightarrow> nat \<Rightarrow> uvector32 \<Rightarrow> bool \<Rightarrow> (uvector32 \<times> bool) option" where
  "v32_retainAll_loop other 0 v changed = Some (v, changed)"
| "v32_retainAll_loop other (Suc j) v changed =
     do { e \<leftarrow> rd (v32_elements v) j; i \<leftarrow> v32_indexOf other e 0;
          if i < 0
          then do { v \<leftarrow> v32_removeElementAt (int j) v; v32_retainAll_loop other j v True }
          else v32_retainAll_loop other j v changed }"

definition v32_retainAll :: "uvector32 \<Rightarrow> uvector32 \<Rightarrow> (uvector32 \<times> bool) option" where
  "v32_retainAll v other = v32_retainAll_loop other (nat (v32_count v)) v False"

definition v32_equals :: "uvector32 \<Rightarrow> uvector32 \<Rightarrow> bool option" where
  "v32_equals v other =
     (if v32_count v \<noteq> v32_count other then Some False
      else same_from (=) (v32_elements v) (v32_elements other) 0 (nat (v32_count v)))"

definition v32_setMaxCapacity :: "int heap \<Rightarrow> int \<Rightarrow> uvector32 \<Rightarrow> uvector32" where
  "v32_setMaxCapacity h limit v =
     (let limit = (if limit < 0 then 0 else limit)
      in if limit > MAX_CELLS then v
         else let v = v\<lparr>v32_maxCapacity := limit\<rparr>
         in if v32_capacity v \<le> v32_maxCapacity v \<or> v32_maxCapacity v = 0 then v
            else if \<not> uprv_realloc h (4 * v32_maxCapacity v) then v
            else let v = v\<lparr>v32_elements := realloc h (v32_elements v) (nat (v32_maxCapacity v)),
                           v32_capacity := v32_maxCapacity v\<rparr>
                 in if v32_count v > v32_capacity v then v\<lparr>v32_count := v32_capacity v\<rparr> else v)"

text \<open>\<open>for (i=count; i<newSize; ++i) elements[i] = 0;\<close>\<close>

function zero_from :: "int list \<Rightarrow> nat \<Rightarrow> nat \<Rightarrow> int list option" where
  "zero_from es i n = (if i < n then do { es \<leftarrow> wr es i 0; zero_from es (i + 1) n } else Some es)"
  by pat_completeness auto
termination
  by (relation "measure (\<lambda>(es, i, n). n - i)") auto

definition v32_setSize :: "int heap \<Rightarrow> int \<Rightarrow> uvector32 \<Rightarrow> uvector32 option" where
  "v32_setSize h newSize v =
     (if newSize < 0 then Some v
      else if newSize > v32_count v
      then case v32_ensureCapacity h newSize v U_ZERO_ERROR of
             (False, v, _) \<Rightarrow> Some v
           | (True, v, _) \<Rightarrow> do {
               es \<leftarrow> zero_from (v32_elements v) (nat (v32_count v)) (nat newSize);
               Some (v\<lparr>v32_elements := es, v32_count := newSize\<rparr>) }
      else Some (v\<lparr>v32_count := newSize\<rparr>))"

text \<open>\<open>for (i=0; i<other.count; ++i) elements[i] = other.elements[i];\<close>\<close>

function copy_from :: "'a list \<Rightarrow> 'a list \<Rightarrow> nat \<Rightarrow> nat \<Rightarrow> 'a list option" where
  "copy_from es os i n =
     (if i < n then do { x \<leftarrow> rd os i; es \<leftarrow> wr es i x; copy_from es os (i + 1) n } else Some es)"
  by pat_completeness auto
termination
  by (relation "measure (\<lambda>(es, os, i, n). n - i)") auto

definition v32_assign ::
  "int heap \<Rightarrow> uvector32 \<Rightarrow> uvector32 \<Rightarrow> UErrorCode \<Rightarrow> (uvector32 \<times> UErrorCode) option" where
  "v32_assign h other v ec =
     (case v32_ensureCapacity h (v32_count other) v ec of
        (False, v, ec) \<Rightarrow> Some (v, ec)
      | (True, v, ec) \<Rightarrow> do {
          v \<leftarrow> v32_setSize h (v32_count other) v;
          es \<leftarrow> copy_from (v32_elements v) (v32_elements other) 0 (nat (v32_count other));
          Some (v\<lparr>v32_elements := es\<rparr>, ec) })"

text \<open>With a negative count the search loop of the code has no exit; \<open>None\<close> stands for that too.\<close>

definition v32_sortedInsert ::
  "int heap \<Rightarrow> int \<Rightarrow> uvector32 \<Rightarrow> UErrorCode \<Rightarrow> (uvector32 \<times> UErrorCode) option" where
  "v32_sortedInsert h tok v ec =
     (if v32_count v < 0 then None
      else do {
        mn \<leftarrow> upper_search (\<lambda>e. e > tok) (v32_elements v) 0 (nat (v32_count v));
        case v32_ensureCapacity h (v32_count v + 1) v ec of
          (True, v, ec) \<Rightarrow> do {
            es \<leftarrow> shift_up (v32_elements v) (nat (v32_count v)) mn;
            es \<leftarrow> wr es mn tok;
            Some (v\<lparr>v32_elements := es, v32_count := v32_count v + 1\<rparr>, ec) }
        | (False, v, ec) \<Rightarrow> Some (v, ec) })"

text \<open>The stack operations.\<close>

definition v32_lastElementi :: "uvector32 \<Rightarrow> int option" where
  "v32_lastElementi v = v32_elementAti v (v32_count v - 1)"

definition v32_push ::
  "int heap \<Rightarrow> int \<Rightarrow> uvector32 \<Rightarrow> UErrorCode \<Rightarrow> (int \<times> uvector32 \<times> UErrorCode) option" where
  "v32_push h i v status = do { (v, status) \<leftarrow> v32_addElement h i v status; Some (i, v, status) }"

definition v32_popi :: "uvector32 \<Rightarrow> (int \<times> uvector32) option" where
  "v32_popi v =
     (if v32_count v > 0
      then let v = v\<lparr>v32_count := v32_count v - 1\<rparr>
           in do { result \<leftarrow> rd (v32_elements v) (nat (v32_count v)); Some (result, v) }
      else Some (0, v))"

text \<open>\<open>reserveBlock\<close> and \<open>popFrame\<close> return a pointer into the block: here its index.\<close>

definition v32_reserveBlock ::
  "int heap \<Rightarrow> int \<Rightarrow> uvector32 \<Rightarrow> UErrorCode \<Rightarrow> (int option \<times> uvector32 \<times> UErrorCode) option" where
  "v32_reserveBlock h sz v status =
     do { n \<leftarrow> chk (v32_count v + sz);
          Some (case v32_ensureCapacity h n v status of
             (False, v, status) \<Rightarrow> (None, v, status)
           | (True, v, status) \<Rightarrow>
               (Some (v32_count v), v\<lparr>v32_count := v32_count v + sz\<rparr>, status)) }"

definition v32_popFrame :: "int \<Rightarrow> uvector32 \<Rightarrow> int \<times> uvector32" where
  "v32_popFrame sz v =
     (let v = v\<lparr>v32_count := v32_count v - sz\<rparr>;
          v = (if v32_count v < 0 then v\<lparr>v32_count := 0\<rparr> else v)
      in (v32_count v - sz, v))"

section \<open>Abstraction and invariant\<close>

definition vec32_list :: "uvector32 \<Rightarrow> int list" where
  "vec32_list v = take (nat (v32_count v)) (v32_elements v)"

definition vec32_ok :: "uvector32 \<Rightarrow> bool" where
  "vec32_ok v \<longleftrightarrow> 0 \<le> v32_count v \<and> v32_count v \<le> v32_capacity v \<and>
     v32_capacity v \<le> MAX_CELLS \<and> length (v32_elements v) = nat (v32_capacity v) \<and>
     0 \<le> v32_maxCapacity v"

lemma vec32_okD:
  assumes "vec32_ok v"
  shows "0 \<le> v32_count v" "v32_count v \<le> v32_capacity v" "v32_capacity v \<le> MAX_CELLS"
    "length (v32_elements v) = nat (v32_capacity v)" "0 \<le> v32_maxCapacity v"
    "nat (v32_count v) \<le> length (v32_elements v)" "length (vec32_list v) = nat (v32_count v)"
  using assms by (auto simp: vec32_ok_def vec32_list_def)

lemma v32_new_ok:
  "vec32_ok (fst (v32_new h c st)) \<and> vec32_list (fst (v32_new h c st)) = []"
  by (auto simp: v32_new_def v32_init_def v32_null_def vec32_ok_def vec32_list_def Let_def)

lemma v32_ensureCapacity_spec:
  assumes "vec32_ok v" "v32_ensureCapacity h n v st = (ok, v', st')"
  shows "vec32_ok v'" "vec32_list v' = vec32_list v" "v32_count v' = v32_count v"
    "v32_maxCapacity v' = v32_maxCapacity v"
    "ok \<Longrightarrow> 0 \<le> n \<and> n \<le> v32_capacity v' \<and> st' = st"
    "\<not> ok \<Longrightarrow> U_FAILURE st' \<and> v' = v"
    "v32_capacity v \<le> v32_capacity v'"
proof -
  note d = vec32_okD [OF assms(1)]
  have "vec32_ok v' \<and> vec32_list v' = vec32_list v \<and> v32_count v' = v32_count v \<and>
    v32_maxCapacity v' = v32_maxCapacity v \<and>
    (ok \<longrightarrow> 0 \<le> n \<and> n \<le> v32_capacity v' \<and> st' = st) \<and> (\<not> ok \<longrightarrow> U_FAILURE st' \<and> v' = v) \<and>
    v32_capacity v \<le> v32_capacity v'"
    using assms(2) d
    by (auto simp: v32_ensureCapacity_def v32_expandCapacity_def vec32_ok_def vec32_list_def Let_def
        split: if_splits)
  then show "vec32_ok v'" "vec32_list v' = vec32_list v" "v32_count v' = v32_count v"
    "v32_maxCapacity v' = v32_maxCapacity v"
    "ok \<Longrightarrow> 0 \<le> n \<and> n \<le> v32_capacity v' \<and> st' = st"
    "\<not> ok \<Longrightarrow> U_FAILURE st' \<and> v' = v" "v32_capacity v \<le> v32_capacity v'" by auto
qed

section \<open>Growing operations\<close>

text \<open>
  The shared tail of the insertions: after a successful growth, the shift and the store
  put the element in front of position \<open>i\<close> of the list.
\<close>

lemma v32_make_room:
  assumes "vec32_ok v" "v32_ensureCapacity h (v32_count v + 1) v st = (True, v1, st1)"
    "i \<le> nat (v32_count v)"
  obtains es where "shift_up (v32_elements v1) (nat (v32_count v1)) i = Some es"
    "wr es i e = Some (es[i := e])"
    "vec32_ok (v1\<lparr>v32_elements := es[i := e], v32_count := v32_count v1 + 1\<rparr>)"
    "vec32_list (v1\<lparr>v32_elements := es[i := e], v32_count := v32_count v1 + 1\<rparr>) =
       take i (vec32_list v) @ e # drop i (vec32_list v)" "st1 = st"
proof -
  note e = v32_ensureCapacity_spec [OF assms(1,2)]
  note d = vec32_okD [OF e(1)]
  have room: "v32_count v + 1 \<le> v32_capacity v1" "st1 = st" using e(5) by auto
  have c: "nat (v32_count v1) = nat (v32_count v)" "nat (v32_count v1) < length (v32_elements v1)"
    using d e(3) room by auto
  obtain es where es: "shift_up (v32_elements v1) (nat (v32_count v1)) i = Some es"
      "length es = length (v32_elements v1)"
      "take (nat (v32_count v1) + 1) (es[i := e]) =
        take i (v32_elements v1) @ e # drop i (take (nat (v32_count v1)) (v32_elements v1))"
    using shift_up_take [of i "nat (v32_count v1)" "v32_elements v1" e] assms(3) c by metis
  have "vec32_list (v1\<lparr>v32_elements := es[i := e], v32_count := v32_count v1 + 1\<rparr>) =
       take i (vec32_list v1) @ e # drop i (vec32_list v1)"
    using es(3) assms(3) c(1) d(1) by (simp add: vec32_list_def min_def nat_add_distrib)
  moreover have "vec32_ok (v1\<lparr>v32_elements := es[i := e], v32_count := v32_count v1 + 1\<rparr>)"
    using d e(3) room es(2) by (simp add: vec32_ok_def)
  moreover have "wr es i e = Some (es[i := e])" using es(2) c assms(3) by simp
  ultimately show thesis using that es(1) room(2) e(2) by simp
qed

text \<open>
  What a growing operation does: it stays inside the block, keeps the invariant, and
  either has the wanted effect or leaves the vector alone with a failure code.
\<close>

definition grows_to :: "(uvector32 \<times> UErrorCode) option \<Rightarrow> uvector32 \<Rightarrow> UErrorCode \<Rightarrow> int list \<Rightarrow> bool" where
  "grows_to r v st xs \<longleftrightarrow>
     (\<exists>v' st'. r = Some (v', st') \<and> vec32_ok v' \<and>
        ((st' = st \<and> vec32_list v' = xs) \<or> (U_FAILURE st' \<and> v' = v)))"

lemma grows_toI:
  assumes "vec32_ok v" "i \<le> nat (v32_count v)"
  shows "grows_to
     (case v32_ensureCapacity h (v32_count v + 1) v st of
        (True, v, st) \<Rightarrow> do {
          es \<leftarrow> shift_up (v32_elements v) (nat (v32_count v)) i;
          es \<leftarrow> wr es i e;
          Some (v\<lparr>v32_elements := es, v32_count := v32_count v + 1\<rparr>, st) }
      | (False, v, st) \<Rightarrow> Some (v, st))
     v st (take i (vec32_list v) @ e # drop i (vec32_list v))"
proof -
  obtain ok v1 st1 where r: "v32_ensureCapacity h (v32_count v + 1) v st = (ok, v1, st1)"
    by (metis prod_cases3)
  show ?thesis
  proof (cases ok)
    case False
    then show ?thesis
      using v32_ensureCapacity_spec [OF assms(1) r] assms(1) by (auto simp: grows_to_def r)
  next
    case True
    with r have r': "v32_ensureCapacity h (v32_count v + 1) v st = (True, v1, st1)" by simp
    obtain es where es: "shift_up (v32_elements v1) (nat (v32_count v1)) i = Some es"
      "wr es i e = Some (es[i := e])"
      "vec32_ok (v1\<lparr>v32_elements := es[i := e], v32_count := v32_count v1 + 1\<rparr>)"
      "vec32_list (v1\<lparr>v32_elements := es[i := e], v32_count := v32_count v1 + 1\<rparr>) =
         take i (vec32_list v) @ e # drop i (vec32_list v)" "st1 = st"
      by (rule v32_make_room [OF assms(1) r' assms(2)])
    then show ?thesis by (simp add: grows_to_def r')
  qed
qed

lemma v32_insertElementAt_grows:
  assumes "vec32_ok v" "0 \<le> index" "index \<le> v32_count v"
  shows "grows_to (v32_insertElementAt h e index v st) v st
    (take (nat index) (vec32_list v) @ e # drop (nat index) (vec32_list v))"
  using grows_toI [where h = h and i = "nat index" and st = st and e = e, OF assms(1)] assms by (simp add: v32_insertElementAt_def)

lemma v32_insertElementAt_out_of_range:
  "\<not> (0 \<le> index \<and> index \<le> v32_count v) \<Longrightarrow> v32_insertElementAt h e index v st = Some (v, st)"
  by (subst v32_insertElementAt_def) (simp only: if_False)

lemma v32_addElement_grows:
  assumes "vec32_ok v"
  shows "grows_to (v32_addElement h e v st) v st (vec32_list v @ [e])"
proof -
  obtain ok v1 st1 where r: "v32_ensureCapacity h (v32_count v + 1) v st = (ok, v1, st1)"
    by (metis prod_cases3)
  have c: "v32_count v1 = v32_count v" using v32_ensureCapacity_spec(3) [OF assms r] .
  have "grows_to (case (ok, v1, st1) of
        (True, v, st) \<Rightarrow> do {
          es \<leftarrow> shift_up (v32_elements v) (nat (v32_count v)) (nat (v32_count v1));
          es \<leftarrow> wr es (nat (v32_count v1)) e;
          Some (v\<lparr>v32_elements := es, v32_count := v32_count v + 1\<rparr>, st) }
      | (False, v, st) \<Rightarrow> Some (v, st)) v st (vec32_list v @ [e])"
    using grows_toI [where h = h and i = "nat (v32_count v)" and st = st and e = e, OF assms]
      vec32_okD(7) [OF assms] unfolding r c by simp
  then show ?thesis by (cases ok) (simp_all add: v32_addElement_def r)
qed

lemma v32_sortedInsert_grows:
  assumes "vec32_ok v" "sorted (vec32_list v)"
  shows "\<exists>m. m \<le> length (vec32_list v) \<and>
    grows_to (v32_sortedInsert h e v st) v st (take m (vec32_list v) @ e # drop m (vec32_list v)) \<and>
    (\<forall>x \<in> set (take m (vec32_list v)). x \<le> e) \<and> (\<forall>x \<in> set (drop m (vec32_list v)). e < x)"
proof -
  let ?n = "nat (v32_count v)"
  note d = vec32_okD [OF assms(1)]
  have "upward (\<lambda>x. x > e) (take ?n (v32_elements v))"
    using assms(2) by (force simp: upward_def vec32_list_def sorted_iff_nth_mono)
  then obtain m where m: "upper_search (\<lambda>x. x > e) (v32_elements v) 0 ?n = Some m" "m \<le> ?n"
      "\<forall>k < m. \<not> v32_elements v ! k > e" "\<forall>k. m \<le> k \<longrightarrow> k < ?n \<longrightarrow> v32_elements v ! k > e"
    using upper_search_split [of 0 ?n ?n "v32_elements v" "\<lambda>x. x > e"] d by auto
  have "grows_to (v32_sortedInsert h e v st) v st (take m (vec32_list v) @ e # drop m (vec32_list v))"
    using grows_toI [where h = h and st = st and e = e, OF assms(1) m(2)] m(1) d(1) by (simp add: v32_sortedInsert_def)
  moreover have "\<forall>x \<in> set (take m (vec32_list v)). x \<le> e"
    using m(2,3) d(6) by (auto simp: in_set_conv_nth vec32_list_def not_less)
  moreover have "\<forall>x \<in> set (drop m (vec32_list v)). e < x"
    using m(2,4) d(6) by (auto simp: in_set_conv_nth vec32_list_def)
  ultimately show ?thesis using m(2) d(7) by auto
qed

lemma v32_sortedInsert_sorted:
  assumes "vec32_ok v" "sorted (vec32_list v)"
  shows "\<exists>v' st'. v32_sortedInsert h e v st = Some (v', st') \<and> vec32_ok v' \<and>
    sorted (vec32_list v') \<and>
    ((st' = st \<and> mset (vec32_list v') = add_mset e (mset (vec32_list v))) \<or> (U_FAILURE st' \<and> v' = v))"
proof -
  obtain m where m: "grows_to (v32_sortedInsert h e v st) v st
      (take m (vec32_list v) @ e # drop m (vec32_list v))"
    "\<forall>x \<in> set (take m (vec32_list v)). x \<le> e" "\<forall>x \<in> set (drop m (vec32_list v)). e < x"
    using v32_sortedInsert_grows [OF assms] by blast
  let ?ys = "take m (vec32_list v) @ e # drop m (vec32_list v)"
  have "sorted (take m (vec32_list v) @ drop m (vec32_list v))" using assms(2) by simp
  then have "sorted ?ys" using m(2,3) unfolding sorted_append by (auto intro: less_imp_le)
  moreover have "mset ?ys = add_mset e (mset (vec32_list v))"
    by (metis append_take_drop_id mset.simps(2) mset_append union_mset_add_mset_right)
  ultimately show ?thesis using m(1) assms(2) unfolding grows_to_def by metis
qed

section \<open>Lookups\<close>

lemma v32_indexOf_0:
  "vec32_ok v \<Longrightarrow> v32_indexOf v key 0 = Some (index_or_minus1 (first_index ((=) key) (vec32_list v)))"
  using scan_from_0 [OF vec32_okD(6)] by (simp add: v32_indexOf_def vec32_list_def)

lemma v32_contains_iff:
  "vec32_ok v \<Longrightarrow> v32_contains v key = Some (key \<in> set (vec32_list v))"
  by (simp add: v32_contains_def v32_indexOf_0 first_index_eq_None)

lemma v32_containsAll_iff:
  assumes "vec32_ok v" "vec32_ok w"
  shows "v32_containsAll v w = Some (set (vec32_list w) \<subseteq> set (vec32_list v))"
  using each_from_list [of 0 "nat (v32_count w)" "v32_elements w" _ "\<lambda>e. e \<in> set (vec32_list v)"]
    assms vec32_okD(6) [OF assms(2)]
  by (auto simp: v32_containsAll_def v32_indexOf_0 first_index_eq_None list_all_iff vec32_list_def [of w])

lemma v32_containsNone_iff:
  assumes "vec32_ok v" "vec32_ok w"
  shows "v32_containsNone v w = Some (set (vec32_list w) \<inter> set (vec32_list v) = {})"
  using each_from_list [of 0 "nat (v32_count w)" "v32_elements w" _ "\<lambda>e. e \<notin> set (vec32_list v)"]
    assms vec32_okD(6) [OF assms(2)]
  by (auto simp: v32_containsNone_def v32_indexOf_0 first_index_eq_None list_all_iff vec32_list_def [of w])

lemma v32_equals_iff:
  assumes "vec32_ok v" "vec32_ok w"
  shows "v32_equals v w = Some (vec32_list v = vec32_list w)"
proof (cases "v32_count v = v32_count w")
  case True
  then show ?thesis
    using vec32_okD(6) [OF assms(1)] vec32_okD(6) [OF assms(2)]
    by (simp add: v32_equals_def same_from_all2 vec32_list_def list.rel_eq)
next
  case False
  then have "length (vec32_list v) \<noteq> length (vec32_list w)"
    using vec32_okD [OF assms(1)] vec32_okD [OF assms(2)] by auto
  with False show ?thesis by (auto simp: v32_equals_def)
qed

lemma v32_elementAti_nth:
  "vec32_ok v \<Longrightarrow> v32_elementAti v i =
     Some (if 0 \<le> i \<and> i < v32_count v then vec32_list v ! nat i else 0)"
  by (auto simp: v32_elementAti_def vec32_list_def vec32_ok_def)

section \<open>Removals\<close>

lemma v32_removeElementAt_in:
  assumes "vec32_ok v" "0 \<le> i" "i < v32_count v"
  shows "\<exists>v'. v32_removeElementAt i v = Some v' \<and> vec32_ok v' \<and>
    vec32_list v' = take (nat i) (vec32_list v) @ drop (nat i + 1) (vec32_list v)"
proof -
  note d = vec32_okD [OF assms(1)]
  obtain es where es: "shift_down (v32_elements v) (nat i) (nat (v32_count v) - 1) = Some es"
      "length es = length (v32_elements v)"
      "take (nat (v32_count v) - 1) es =
        take (nat i) (v32_elements v) @ drop (nat i + 1) (take (nat (v32_count v)) (v32_elements v))"
    using shift_down_take [of "nat i" "nat (v32_count v)" "v32_elements v"] assms d by auto
  have "nat (v32_count v - 1) = nat (v32_count v) - 1" by simp
  with es assms d show ?thesis
    by (auto simp: v32_removeElementAt_def vec32_ok_def vec32_list_def min_def nat_diff_distrib)
qed

text \<open>
  There is no check against \<open>count\<close>: an index at or past the end silently drops the last
  element, and on an empty vector \<open>count\<close> becomes negative.
\<close>

lemma v32_removeElementAt_past_end:
  assumes "vec32_ok v" "v32_count v \<le> i"
  shows "v32_removeElementAt i v = Some (v\<lparr>v32_count := v32_count v - 1\<rparr>)"
  using assms vec32_okD [OF assms(1)] by (simp add: v32_removeElementAt_def)

lemma v32_remove_found:
  assumes "vec32_ok v" "first_index ((=) e) (vec32_list v) = Some i"
  shows "\<exists>v'. v32_removeElementAt (int i) v = Some v' \<and> vec32_ok v' \<and>
    vec32_list v' = remove1 e (vec32_list v)"
proof -
  have "i < length (vec32_list v)" using first_index_Some [OF assms(2)] by simp
  then have "int i < v32_count v" using vec32_okD [OF assms(1)] by simp
  then show ?thesis
    using v32_removeElementAt_in [OF assms(1), of "int i"] remove1_first_index [OF assms(2)] by simp
qed

lemma v32_removeAll_loop_spec:
  assumes "i \<le> n" "n \<le> length es" "vec32_ok v"
  shows "\<exists>v' c. v32_removeAll_loop es i n v ch = Some (v', c) \<and> vec32_ok v' \<and>
    vec32_list v' = fold remove1 (drop i (take n es)) (vec32_list v) \<and>
    (c \<longleftrightarrow> ch \<or> (\<exists>e \<in> set (drop i (take n es)). e \<in> set (vec32_list v)))"
  using assms
proof (induction "n - i" arbitrary: i v ch)
  case 0
  then show ?case by (auto simp: v32_removeAll_loop.simps [where i = i])
next
  case (Suc k)
  from Suc.hyps(2) have i: "i < n" by simp
  then have dr: "drop i (take n es) = es ! i # drop (i + 1) (take n es)"
    using Suc.prems by (simp add: Cons_nth_drop_Suc [symmetric])
  note IH = Suc.hyps(1) [of "i + 1"]
  show ?case
  proof (cases "first_index ((=) (es ! i)) (vec32_list v)")
    case None
    then have "es ! i \<notin> set (vec32_list v)" by (simp add: first_index_eq_None)
    with IH [of v ch] Suc i None dr show ?thesis
      by (auto simp: v32_removeAll_loop.simps [where i = i] v32_indexOf_0 remove1_idem index_or_minus1_def)
  next
    case (Some j)
    then have mem: "es ! i \<in> set (vec32_list v)" by (metis first_index_eq_None option.distinct(1))
    obtain v1 where v1: "v32_removeElementAt (int j) v = Some v1" "vec32_ok v1"
      "vec32_list v1 = remove1 (es ! i) (vec32_list v)"
      using v32_remove_found [OF Suc.prems(3) Some] by blast
    with IH [of v1 True] Suc i Some dr mem show ?thesis
      by (auto simp: v32_removeAll_loop.simps [where i = i] v32_indexOf_0 index_or_minus1_def)
  qed
qed

text \<open>
  \<open>removeAll\<close> deletes one occurrence per element of the other vector, so on vectors without
  duplicates it is the set difference, and it reports whether anything went.
\<close>

lemma v32_removeAll_spec:
  assumes "vec32_ok v" "vec32_ok w"
  shows "\<exists>v' c. v32_removeAll v w = Some (v', c) \<and> vec32_ok v' \<and>
    vec32_list v' = fold remove1 (vec32_list w) (vec32_list v) \<and>
    (c \<longleftrightarrow> set (vec32_list w) \<inter> set (vec32_list v) \<noteq> {})"
  using v32_removeAll_loop_spec [of 0 "nat (v32_count w)" "v32_elements w" v False] assms
    vec32_okD(6) [OF assms(2)]
  by (auto simp: v32_removeAll_def vec32_list_def [of w])

lemma v32_retainAll_loop_spec:
  assumes "vec32_ok w" "vec32_ok v" "j \<le> length (vec32_list v)"
  shows "\<exists>v' c. v32_retainAll_loop w j v ch = Some (v', c) \<and> vec32_ok v' \<and>
    vec32_list v' = filter (\<lambda>x. x \<in> set (vec32_list w)) (take j (vec32_list v)) @ drop j (vec32_list v) \<and>
    (c \<longleftrightarrow> ch \<or> (\<exists>x \<in> set (take j (vec32_list v)). x \<notin> set (vec32_list w)))"
  using assms(2,3)
proof (induction j arbitrary: v ch)
  case 0
  then show ?case by simp
next
  case (Suc j)
  let ?P = "\<lambda>x. x \<in> set (vec32_list w)"
  note d = vec32_okD [OF Suc.prems(1)]
  from Suc.prems d have j: "j < length (vec32_list v)" "j < nat (v32_count v)" by simp_all
  then have rd: "rd (v32_elements v) j = Some (vec32_list v ! j)"
    using d by (simp add: vec32_list_def)
  have tk: "take (Suc j) (vec32_list v) = take j (vec32_list v) @ [vec32_list v ! j]"
    using j(1) by (rule take_Suc_conv_app_nth)
  have dr: "drop j (vec32_list v) = vec32_list v ! j # drop (Suc j) (vec32_list v)"
    using j(1) by (rule Cons_nth_drop_Suc [symmetric])
  show ?case
  proof (cases "?P (vec32_list v ! j)")
    case True
    then obtain k where "first_index ((=) (vec32_list v ! j)) (vec32_list w) = Some k"
      by (metis first_index_eq_None option.exhaust)
    with Suc.IH [OF Suc.prems(1), of ch] Suc.prems j True tk dr assms(1) show ?thesis
      by (auto simp: rd v32_indexOf_0 index_or_minus1_def)
  next
    case False
    obtain v1 where v1: "v32_removeElementAt (int j) v = Some v1" "vec32_ok v1"
      "vec32_list v1 = take j (vec32_list v) @ drop (j + 1) (vec32_list v)"
      using v32_removeElementAt_in [OF Suc.prems(1), of "int j"] j(2) by (auto simp: zless_nat_eq_int_zless)
    moreover have "first_index ((=) (vec32_list v ! j)) (vec32_list w) = None"
      using False by (simp add: first_index_eq_None)
    ultimately show ?thesis using Suc.IH [OF v1(2), of True] False tk j assms(1)
      by (auto simp: rd v32_indexOf_0 index_or_minus1_def)
  qed
qed

lemma v32_retainAll_spec:
  assumes "vec32_ok v" "vec32_ok w"
  shows "\<exists>v' c. v32_retainAll v w = Some (v', c) \<and> vec32_ok v' \<and>
    vec32_list v' = filter (\<lambda>x. x \<in> set (vec32_list w)) (vec32_list v) \<and>
    (c \<longleftrightarrow> \<not> set (vec32_list v) \<subseteq> set (vec32_list w))"
  using v32_retainAll_loop_spec [OF assms(2,1), of "nat (v32_count v)" False] vec32_okD [OF assms(1)]
  by (auto simp: v32_retainAll_def)

lemma v32_removeAllElements_spec:
  "vec32_ok v \<Longrightarrow> vec32_ok (v32_removeAllElements v) \<and> vec32_list (v32_removeAllElements v) = []"
  by (simp add: v32_removeAllElements_def vec32_ok_def vec32_list_def)

section \<open>Resizing and copying\<close>

declare zero_from.simps [simp del] copy_from.simps [simp del]

lemma fill_stop [simp]:
  "\<not> i < n \<Longrightarrow> zero_from es i n = Some es"
  "\<not> i < n \<Longrightarrow> copy_from as bs i n = Some as"
  by (simp_all add: zero_from.simps [of es i n] copy_from.simps [of as bs i n])

lemma zero_from_spec:
  assumes "i \<le> n" "n \<le> length es"
  shows "\<exists>es'. zero_from es i n = Some es' \<and> length es' = length es \<and>
    take n es' = take i es @ replicate (n - i) 0"
  using assms
proof (induction es i n rule: zero_from.induct)
  case (1 es i n)
  show ?case
  proof (cases "i < n")
    case False
    with "1.prems" show ?thesis by simp
  next
    case True
    then have "n - i = Suc (n - (i + 1))" by simp
    with "1.IH" [OF True, of "es[i := 0]"] "1.prems" True show ?thesis
      by (auto simp: zero_from.simps [of es i n] take_Suc_conv_app_nth)
  qed
qed

lemma copy_from_spec:
  assumes "i \<le> n" "n \<le> length es" "n \<le> length os"
  shows "\<exists>es'. copy_from es os i n = Some es' \<and> length es' = length es \<and>
    take n es' = take i es @ drop i (take n os)"
  using assms
proof (induction es os i n rule: copy_from.induct)
  case (1 es os i n)
  show ?case
  proof (cases "i < n")
    case False
    with "1.prems" show ?thesis by simp
  next
    case True
    then have "drop i (take n os) = os ! i # drop (i + 1) (take n os)"
      using "1.prems" by (simp add: Cons_nth_drop_Suc [symmetric])
    with "1.IH" [OF True, of "os ! i" "es[i := os ! i]"] "1.prems" True show ?thesis
      by (auto simp: copy_from.simps [of es os i n] take_Suc_conv_app_nth)
  qed
qed

lemma v32_setSize_spec:
  assumes "vec32_ok v"
  shows "\<exists>v'. v32_setSize h n v = Some v' \<and> vec32_ok v' \<and>
    (v' = v \<or> vec32_list v' = take (nat n) (vec32_list v) @ replicate (nat n - nat (v32_count v)) 0) \<and>
    v32_capacity v \<le> v32_capacity v' \<and> v32_maxCapacity v' = v32_maxCapacity v \<and>
    (0 \<le> n \<and> n \<le> v32_capacity v \<longrightarrow> v32_count v' = n)"
proof (cases "n > v32_count v")
  case False
  with vec32_okD [OF assms] show ?thesis
    by (auto simp: v32_setSize_def vec32_ok_def vec32_list_def min_def)
next
  case True
  note d0 = vec32_okD [OF assms]
  obtain ok v1 st1 where r: "v32_ensureCapacity h n v U_ZERO_ERROR = (ok, v1, st1)"
    by (metis prod_cases3)
  note e = v32_ensureCapacity_spec [OF assms r]
  note d = vec32_okD [OF e(1)]
  show ?thesis
  proof (cases ok)
    case False
    with e(6) r True d0 have "v32_setSize h n v = Some v" by (simp add: v32_setSize_def)
    moreover have "\<not> (0 \<le> n \<and> n \<le> v32_capacity v)"
      using r False by (auto simp: v32_ensureCapacity_def)
    ultimately show ?thesis using assms by auto
  next
    case ok: True
    have "nat (v32_count v1) \<le> nat n" "nat n \<le> length (v32_elements v1)"
      using True ok e d by auto
    then obtain es where es: "zero_from (v32_elements v1) (nat (v32_count v1)) (nat n) = Some es"
      "length es = length (v32_elements v1)"
      "take (nat n) es = take (nat (v32_count v1)) (v32_elements v1) @
         replicate (nat n - nat (v32_count v1)) 0"
      using zero_from_spec by blast
    let ?v = "v1\<lparr>v32_elements := es, v32_count := n\<rparr>"
    have "v32_setSize h n v = Some ?v"
      using True ok r es(1) d0(1) by (simp add: v32_setSize_def)
    moreover have "vec32_ok ?v" using ok e(5) d es(2) by (simp add: vec32_ok_def)
    moreover have "vec32_list ?v = take (nat n) (vec32_list v) @ replicate (nat n - nat (v32_count v)) 0"
      using es(3) e(2,3) True d0(1) by (simp add: vec32_list_def)
    ultimately show ?thesis using e(4,7) by auto
  qed
qed

lemma v32_assign_spec:
  assumes "vec32_ok v" "vec32_ok w"
  shows "grows_to (v32_assign h w v st) v st (vec32_list w)"
proof -
  obtain ok v1 st1 where r: "v32_ensureCapacity h (v32_count w) v st = (ok, v1, st1)"
    by (metis prod_cases3)
  note e = v32_ensureCapacity_spec [OF assms(1) r]
  note dw = vec32_okD [OF assms(2)]
  show ?thesis
  proof (cases ok)
    case False
    with r e(6) assms(1) show ?thesis by (auto simp: v32_assign_def grows_to_def)
  next
    case True
    obtain v2 where v2: "v32_setSize h (v32_count w) v1 = Some v2" "vec32_ok v2"
      "v32_count v2 = v32_count w"
      using v32_setSize_spec [OF e(1), of h "v32_count w"] e(5) [OF True] by auto
    note d = vec32_okD [OF v2(2)]
    obtain es where es: "copy_from (v32_elements v2) (v32_elements w) 0 (nat (v32_count w)) = Some es"
      "length es = length (v32_elements v2)" "take (nat (v32_count w)) es = vec32_list w"
      using copy_from_spec [of 0 "nat (v32_count w)" "v32_elements v2" "v32_elements w"]
        d(6) dw(6) v2(3) by (auto simp: vec32_list_def)
    have "v32_assign h w v st = Some (v2\<lparr>v32_elements := es\<rparr>, st1)"
      using r True v2(1) es(1) by (simp add: v32_assign_def)
    moreover have "vec32_ok (v2\<lparr>v32_elements := es\<rparr>)" using d es(2) by (simp add: vec32_ok_def)
    moreover have "vec32_list (v2\<lparr>v32_elements := es\<rparr>) = vec32_list w"
      using es(3) v2(3) by (simp add: vec32_list_def [of "v2\<lparr>v32_elements := es\<rparr>"])
    ultimately show ?thesis using e(5) True by (auto simp: grows_to_def)
  qed
qed

lemma v32_setMaxCapacity_cases:
  "v32_setMaxCapacity h limit v = v \<or>
   v32_setMaxCapacity h limit v = v\<lparr>v32_maxCapacity := max 0 limit\<rparr> \<or>
   (0 < limit \<and> limit < v32_capacity v \<and>
    v32_setMaxCapacity h limit v =
      v\<lparr>v32_count := min limit (v32_count v), v32_capacity := limit, v32_maxCapacity := limit,
        v32_elements := realloc h (v32_elements v) (nat limit)\<rparr>)"
  by (auto simp: v32_setMaxCapacity_def Let_def min_def max_def)

lemma v32_setMaxCapacity_spec:
  assumes "vec32_ok v"
  shows "vec32_ok (v32_setMaxCapacity h limit v) \<and>
    (\<exists>n. vec32_list (v32_setMaxCapacity h limit v) = take n (vec32_list v))"
proof -
  note d = vec32_okD [OF assms]
  have keep: "\<exists>n. vec32_list v = take n (vec32_list v)"
    by (rule exI [of _ "length (vec32_list v)"]) simp
  consider "v32_setMaxCapacity h limit v = v"
    | "v32_setMaxCapacity h limit v = v\<lparr>v32_maxCapacity := max 0 limit\<rparr>"
    | "0 < limit" "limit < v32_capacity v" "v32_setMaxCapacity h limit v =
      v\<lparr>v32_count := min limit (v32_count v), v32_capacity := limit, v32_maxCapacity := limit,
        v32_elements := realloc h (v32_elements v) (nat limit)\<rparr>"
    using v32_setMaxCapacity_cases [of h limit v] by blast
  then show ?thesis
  proof cases
    case 1
    with keep assms show ?thesis by simp
  next
    case 2
    have "vec32_list (v\<lparr>v32_maxCapacity := max 0 limit\<rparr>) = take (nat (v32_count v)) (vec32_list v)"
      by (simp add: vec32_list_def)
    with 2 d keep show ?thesis by (auto simp: vec32_ok_def)
  next
    case 3
    have "vec32_list (v32_setMaxCapacity h limit v) = take (nat limit) (vec32_list v)"
      using 3 d by (simp add: vec32_list_def realloc_def min_def nat_le_iff)
    with 3 d show ?thesis by (auto simp: vec32_ok_def)
  qed
qed

section \<open>The stack\<close>

lemma v32_popi_spec:
  assumes "vec32_ok v"
  shows "\<exists>r v'. v32_popi v = Some (r, v') \<and> vec32_ok v' \<and>
    (if vec32_list v = [] then r = 0 \<and> v' = v
     else r = last (vec32_list v) \<and> vec32_list v' = butlast (vec32_list v))"
proof -
  note d = vec32_okD [OF assms]
  show ?thesis
  proof (cases "v32_count v > 0")
    case False
    then show ?thesis using assms d by (auto simp: v32_popi_def)
  next
    case True
    have n: "nat (v32_count v - 1) = nat (v32_count v) - 1" "nat (v32_count v) \<noteq> 0" using True by auto
    then have ne: "vec32_list v \<noteq> []" using d by auto
    have "last (vec32_list v) = v32_elements v ! (nat (v32_count v) - 1)"
      using ne d n by (simp add: last_conv_nth) (simp add: vec32_list_def)
    moreover have "butlast (vec32_list v) = take (nat (v32_count v) - 1) (v32_elements v)"
      using d by (simp add: butlast_conv_take) (simp add: vec32_list_def min_def)
    moreover have "rd (v32_elements v) (nat (v32_count v - 1)) =
        Some (v32_elements v ! (nat (v32_count v) - 1))"
      unfolding n(1) using d(6) n(2) by (intro rd_in) linarith
    moreover have "vec32_ok (v\<lparr>v32_count := v32_count v - 1\<rparr>)" using d True by (simp add: vec32_ok_def)
    moreover have "vec32_list (v\<lparr>v32_count := v32_count v - 1\<rparr>) = take (nat (v32_count v) - 1) (v32_elements v)"
      by (simp add: vec32_list_def n)
    ultimately show ?thesis using True ne by (simp add: v32_popi_def Let_def)
  qed
qed

lemma v32_push_popi:
  assumes "vec32_ok v" "v32_push h i v st = Some (r, v1, st)" "\<not> U_FAILURE st"
  shows "\<exists>v2. v32_popi v1 = Some (i, v2) \<and> vec32_ok v2 \<and> vec32_list v2 = vec32_list v"
proof -
  have "v32_addElement h i v st = Some (v1, st)"
    using assms(2) by (auto simp: v32_push_def bind_eq_Some_conv)
  then have "vec32_ok v1" "vec32_list v1 = vec32_list v @ [i]"
    using v32_addElement_grows [OF assms(1), of h i st] assms(3) by (auto simp: grows_to_def)
  then show ?thesis using v32_popi_spec [of v1] by auto
qed

lemma v32_reserveBlock_spec:
  assumes "vec32_ok v" "0 \<le> sz" "v32_count v + sz \<le> INT32_MAX"
  shows "\<exists>r v' st'. v32_reserveBlock h sz v st = Some (r, v', st') \<and> vec32_ok v' \<and>
    (case r of Some p \<Rightarrow> st' = st \<and> p = v32_count v \<and> v32_count v' = p + sz \<and>
        take (nat p) (vec32_list v') = vec32_list v
      | None \<Rightarrow> U_FAILURE st' \<and> v' = v)"
proof -
  obtain ok v1 st1 where e: "v32_ensureCapacity h (v32_count v + sz) v st = (ok, v1, st1)"
    by (metis prod_cases3)
  note s = v32_ensureCapacity_spec [OF assms(1) e]
  note d0 = vec32_okD [OF assms(1)]
  have c: "chk (v32_count v + sz) = Some (v32_count v + sz)" using d0 assms(2,3) by simp
  show ?thesis
  proof (cases ok)
    case False
    with e s(6) assms(1) c show ?thesis by (auto simp: v32_reserveBlock_def)
  next
    case True
    with e c have r: "v32_reserveBlock h sz v st = Some (Some (v32_count v1), v1\<lparr>v32_count := v32_count v1 + sz\<rparr>, st1)"
      by (simp add: v32_reserveBlock_def)
    have "nat (v32_count v1) \<le> nat (v32_count v1 + sz)" using assms(2) by simp
    then show ?thesis
      using True s vec32_okD [OF s(1)] assms(2) d0
      unfolding r by (auto simp: vec32_ok_def vec32_list_def min_def)
  qed
qed

lemma v32_setElementAt_spec:
  assumes "vec32_ok v"
  shows "\<exists>v'. v32_setElementAt e i v = Some v' \<and> vec32_ok v' \<and>
    vec32_list v' = (if 0 \<le> i \<and> i < v32_count v then (vec32_list v)[nat i := e] else vec32_list v)"
proof (cases "0 \<le> i \<and> i < v32_count v")
  case True
  with vec32_okD [OF assms] have "nat i < length (v32_elements v)" by auto
  with True assms show ?thesis
    by (auto simp: v32_setElementAt_def vec32_ok_def vec32_list_def take_update_swap)
next
  case False
  with assms show ?thesis by (auto simp: v32_setElementAt_def)
qed

lemma v32_popFrame_spec:
  assumes "vec32_ok v" "0 \<le> sz" "v32_popFrame sz v = (p, v')"
  shows "vec32_ok v'" "vec32_list v' = take (length (vec32_list v) - nat sz) (vec32_list v)"
  using assms vec32_okD [OF assms(1)]
  by (auto simp: v32_popFrame_def Let_def vec32_ok_def vec32_list_def min_def nat_diff_distrib split: if_splits)

section \<open>Sequences of calls\<close>

text \<open>
  A client's calls as steps of a state machine. \<open>removeElementAt\<close> is called with an
  index below \<open>count\<close> or a negative one, \<open>popFrame\<close> and \<open>reserveBlock\<close> with a size that is not negative, the
  latter also without the new size passing 32 bits, and \<open>sortedInsert\<close> on a sorted vector; a second vector is a
  well-formed one. Every other argument is free, and so is the allocator of each call.
\<close>

datatype v32_call =
    AddElement int | SetElementAt int int | InsertElementAt int int | RemoveElementAt int
  | RemoveAllElements | SortedInsert int | SetSize int | SetMaxCapacity int | Assign uvector32
  | RemoveAll uvector32 | RetainAll uvector32 | Push int | Popi | PopFrame int | ReserveBlock int | EnsureCapacity int

fun v32_run :: "int heap \<Rightarrow> v32_call \<Rightarrow> uvector32 \<Rightarrow> uvector32 option" where
  "v32_run h (AddElement e) v = map_option fst (v32_addElement h e v U_ZERO_ERROR)"
| "v32_run h (SetElementAt e i) v = v32_setElementAt e i v"
| "v32_run h (InsertElementAt e i) v = map_option fst (v32_insertElementAt h e i v U_ZERO_ERROR)"
| "v32_run h (RemoveElementAt i) v = v32_removeElementAt i v"
| "v32_run h RemoveAllElements v = Some (v32_removeAllElements v)"
| "v32_run h (SortedInsert e) v = map_option fst (v32_sortedInsert h e v U_ZERO_ERROR)"
| "v32_run h (SetSize n) v = v32_setSize h n v"
| "v32_run h (SetMaxCapacity n) v = Some (v32_setMaxCapacity h n v)"
| "v32_run h (Assign w) v = map_option fst (v32_assign h w v U_ZERO_ERROR)"
| "v32_run h (RemoveAll w) v = map_option fst (v32_removeAll v w)"
| "v32_run h (RetainAll w) v = map_option fst (v32_retainAll v w)"
| "v32_run h (Push e) v = map_option (\<lambda>r. fst (snd r)) (v32_push h e v U_ZERO_ERROR)"
| "v32_run h Popi v = map_option snd (v32_popi v)"
| "v32_run h (PopFrame n) v = Some (snd (v32_popFrame n v))"
| "v32_run h (ReserveBlock n) v = map_option (\<lambda>r. fst (snd r)) (v32_reserveBlock h n v U_ZERO_ERROR)"
| "v32_run h (EnsureCapacity n) v = Some (fst (snd (v32_ensureCapacity h n v U_ZERO_ERROR)))"

fun v32_legal :: "v32_call \<Rightarrow> uvector32 \<Rightarrow> bool" where
  "v32_legal (RemoveElementAt i) v = (i < v32_count v)"
| "v32_legal (PopFrame n) v = (0 \<le> n)"
| "v32_legal (ReserveBlock n) v = (0 \<le> n \<and> v32_count v + n \<le> INT32_MAX)"
| "v32_legal (SortedInsert e) v = sorted (vec32_list v)"
| "v32_legal (Assign w) v = vec32_ok w"
| "v32_legal (RemoveAll w) v = vec32_ok w"
| "v32_legal (RetainAll w) v = vec32_ok w"
| "v32_legal _ v = True"

inductive v32_reach :: "uvector32 \<Rightarrow> bool" where
  start: "v32_reach (fst (v32_new h n U_ZERO_ERROR))"
| call: "v32_reach v \<Longrightarrow> v32_legal c v \<Longrightarrow> v32_run h c v = Some v' \<Longrightarrow> v32_reach v'"

lemma grows_to_run:
  "grows_to r v U_ZERO_ERROR xs \<Longrightarrow> vec32_ok v \<Longrightarrow>
     \<exists>v' st'. r = Some (v', st') \<and> vec32_ok v'"
  by (auto simp: grows_to_def)

lemma v32_run_ok:
  assumes "vec32_ok v" "v32_legal c v"
  shows "\<exists>v'. v32_run h c v = Some v' \<and> vec32_ok v'"
proof (cases c)
  case (AddElement e)
  then show ?thesis using grows_to_run [OF v32_addElement_grows [OF assms(1)] assms(1)] by fastforce
next
  case (SetElementAt e i)
  then show ?thesis using v32_setElementAt_spec [OF assms(1), of e i] by auto
next
  case (InsertElementAt e i)
  then show ?thesis
    using grows_to_run [OF v32_insertElementAt_grows [OF assms(1), of i h e U_ZERO_ERROR] assms(1)]
      v32_insertElementAt_out_of_range [of i v h e U_ZERO_ERROR] assms(1) by fastforce
next
  case (RemoveElementAt i)
  then show ?thesis
    using v32_removeElementAt_in [OF assms(1), of i] assms
    by (cases "0 \<le> i") (auto simp: v32_removeElementAt_def)
next
  case (SortedInsert e)
  then show ?thesis using v32_sortedInsert_sorted [OF assms(1), of h e U_ZERO_ERROR] assms(2) by fastforce
next
  case (Assign w)
  then show ?thesis using grows_to_run [OF v32_assign_spec [OF assms(1)] assms(1)] assms(2) by fastforce
next
  case (RemoveAll w)
  then show ?thesis using v32_removeAll_spec [OF assms(1), of w] assms(2) by fastforce
next
  case (RetainAll w)
  then show ?thesis using v32_retainAll_spec [OF assms(1), of w] assms(2) by fastforce
next
  case (Push e)
  then show ?thesis
    using grows_to_run [OF v32_addElement_grows [OF assms(1), of h e U_ZERO_ERROR] assms(1)]
    by (auto simp: v32_push_def)
next
  case Popi
  then show ?thesis using v32_popi_spec [OF assms(1)] by fastforce
next
  case (PopFrame n)
  then show ?thesis
    using v32_popFrame_spec(1) [OF assms(1), of n] assms(2) by (cases "v32_popFrame n v") auto
next
  case (ReserveBlock n)
  then show ?thesis using v32_reserveBlock_spec [OF assms(1), of n h U_ZERO_ERROR] assms(2) by auto
next
  case (EnsureCapacity n)
  obtain ok v1 st1 where r: "v32_ensureCapacity h n v U_ZERO_ERROR = (ok, v1, st1)"
    by (metis prod_cases3)
  with EnsureCapacity v32_ensureCapacity_spec(1) [OF assms(1) r] show ?thesis by simp
next
  case RemoveAllElements
  then show ?thesis using v32_removeAllElements_spec [OF assms(1)] by simp
next
  case (SetSize n)
  then show ?thesis using v32_setSize_spec [OF assms(1), of h n] by auto
next
  case (SetMaxCapacity n)
  then show ?thesis using v32_setMaxCapacity_spec [OF assms(1), of h n] by simp
qed

lemma v32_reach_ok: "v32_reach v \<Longrightarrow> vec32_ok v"
proof (induction rule: v32_reach.induct)
  case (call v c h v')
  then show ?case using v32_run_ok [of v c h] by auto
qed (simp add: v32_new_ok)

section \<open>Properties\<close>

definition heap_ok :: "int heap" where
  "heap_ok = \<lparr>can_alloc = (\<lambda>_. True), junk = (\<lambda>_. 0)\<rparr>"

definition vec_of :: "int list \<Rightarrow> uvector32" where
  "vec_of xs = \<lparr>v32_count = int (length xs), v32_capacity = int (length xs), v32_maxCapacity = 0,
                v32_elements = xs\<rparr>"

lemma vec_of_ok [simp]: "int (length xs) \<le> MAX_CELLS \<Longrightarrow> vec32_ok (vec_of xs)"
  by (simp add: vec_of_def vec32_ok_def)

lemma vec_of_list [simp]: "vec32_list (vec_of xs) = xs"
  by (simp add: vec_of_def vec32_list_def)

text \<open>C27: from a newly built \<open>UVector32\<close>, whatever sequence of legal calls was made and whichever allocations failed, the
  fields satisfy the class invariant, and the next legal call ends, stays inside the block and keeps the invariant. A call is
  legal unless it is \<open>removeElementAt\<close> with an index at or past \<open>count\<close>, \<open>popFrame\<close> or \<open>reserveBlock\<close> with a negative size,
  \<open>reserveBlock\<close> with a size whose sum with \<open>count\<close> passes 32 bits, \<open>sortedInsert\<close> on a vector that is not sorted, or
  \<open>assign\<close>, \<open>removeAll\<close> or \<open>retainAll\<close> with a second vector that violates the invariant.\<close>

theorem v32_reachable_safe:
  assumes "v32_reach v" "v32_legal c v"
  shows "vec32_ok v \<and> (\<exists>v'. v32_run h c v = Some v' \<and> vec32_ok v')"
  using v32_run_ok [OF v32_reach_ok [OF assms(1)] assms(2)] v32_reach_ok [OF assms(1)] by simp

theorem v32_reachable_safe_witness:
  "\<exists>v'. v32_run heap_ok (AddElement 3) (fst (v32_new heap_ok 8 U_ZERO_ERROR)) = Some v' \<and> vec32_ok v'"
  using v32_reachable_safe [OF v32_reach.start, of "AddElement 3" heap_ok 8 heap_ok] by simp

text \<open>\<open>sortedInsert\<close> into a sorted vector leaves a sorted vector with exactly one more
  occurrence of the new element, or fails with an error code and changes nothing.\<close>

theorem v32_sortedInsert_correct:
  assumes "vec32_ok v" "sorted (vec32_list v)"
  shows "\<exists>v' st'. v32_sortedInsert h e v st = Some (v', st') \<and> vec32_ok v' \<and> sorted (vec32_list v') \<and>
    ((st' = st \<and> mset (vec32_list v') = add_mset e (mset (vec32_list v))) \<or> (U_FAILURE st' \<and> v' = v))"
  by (rule v32_sortedInsert_sorted [OF assms])

theorem v32_sortedInsert_correct_witness:
  "\<exists>v' st'. v32_sortedInsert heap_ok 5 (vec_of [2, 7]) U_ZERO_ERROR = Some (v', st') \<and>
    sorted (vec32_list v')"
  using v32_sortedInsert_correct [of "vec_of [2, 7]" heap_ok 5 U_ZERO_ERROR] by auto

text \<open>\<open>retainAll\<close> keeps, in order, exactly the elements that the other vector has, and
  returns whether it removed any.\<close>

theorem v32_retainAll_correct:
  assumes "vec32_ok v" "vec32_ok w"
  shows "\<exists>v' c. v32_retainAll v w = Some (v', c) \<and> vec32_ok v' \<and>
    vec32_list v' = filter (\<lambda>x. x \<in> set (vec32_list w)) (vec32_list v) \<and>
    (c \<longleftrightarrow> \<not> set (vec32_list v) \<subseteq> set (vec32_list w))"
  by (rule v32_retainAll_spec [OF assms])

theorem v32_retainAll_correct_witness:
  "\<exists>v' c. v32_retainAll (vec_of [1, 2, 3]) (vec_of [3, 1]) = Some (v', c) \<and>
    vec32_list v' = [1, 3] \<and> c"
  using v32_retainAll_correct [of "vec_of [1, 2, 3]" "vec_of [3, 1]"] by auto

text \<open>\<open>removeElementAt\<close> has no upper bound check: an index at or past \<open>count\<close> moves
  nothing and still drops the last element, and on an empty vector it leaves \<open>count = -1\<close>.\<close>

theorem v32_removeElementAt_unchecked:
  assumes "vec32_ok v" "v32_count v \<le> i"
  shows "v32_removeElementAt i v = Some (v\<lparr>v32_count := v32_count v - 1\<rparr>)"
  by (rule v32_removeElementAt_past_end [OF assms])

theorem v32_removeElementAt_unchecked_witness:
  "v32_removeElementAt 0 (vec_of []) = Some ((vec_of [])\<lparr>v32_count := -1\<rparr>)"
  using v32_removeElementAt_unchecked [OF vec_of_ok, of "[]" 0] by (simp add: vec_of_def)

end
