(* ===== verification/InvList.thy ===== *)
theory InvList
  imports Prelude
begin

text \<open>
  Inversion lists, the representation of \<open>UnicodeSet\<close> (uniset.cpp): the strictly
  increasing list of the code points where membership changes, closed by
  \<open>UNICODESET_HIGH\<close>. This theory holds the search \<open>findCodePoint\<close> and the three merge
  loops (\<open>exclusiveOr\<close>, \<open>add\<close>, \<open>retain\<close>), and the set an inversion list stands for.

  A merge loop walks \<open>list\<close> and \<open>other\<close> with the cursors \<open>i\<close> and \<open>j\<close> and appends to
  \<open>buffer\<close> at \<open>k\<close>. Here a cursor is the rest of its array from the cursor on, so that
  \<open>a = list[i++]\<close> takes the head of the rest and \<open>None\<close> is a read past the end; the
  buffer is the list of its first \<open>k\<close> cells, and \<open>put\<close> fails on a write at or past its
  capacity \<open>cap\<close>. A result \<open>Some out\<close> therefore also says that the loop ends and that
  every access is inside its array.
\<close>

abbreviation UNICODESET_HIGH :: int where
  "UNICODESET_HIGH \<equiv> 1114112"

abbreviation UNICODESET_LOW :: int where
  "UNICODESET_LOW \<equiv> 0"

section \<open>The code\<close>

definition put :: "nat \<Rightarrow> int list \<Rightarrow> int \<Rightarrow> int list option" where
  "put cap buf v = (if length buf < cap then Some (buf @ [v]) else None)"

text \<open>The loop of \<open>findCodePoint\<close>; \<open>hi < lo\<close> does not occur and would not end.\<close>

function find_loop :: "int list \<Rightarrow> int \<Rightarrow> nat \<Rightarrow> nat \<Rightarrow> nat option" where
  "find_loop xs c lo hi =
     (if hi < lo then None
      else let i = (lo + hi) div 2 in
           if i = lo then Some hi
           else do { x \<leftarrow> rd xs i; if c < x then find_loop xs c lo i else find_loop xs c i hi })"
  by pat_completeness auto
termination
  by (relation "measure (\<lambda>(xs, c, lo, hi). hi - lo)") auto

declare find_loop.simps [simp del]

text \<open>\<open>findCodePoint(c, lo, hi)\<close>, as \<open>BMPSet\<close> has it.\<close>

definition findCodePoint_range :: "int list \<Rightarrow> int \<Rightarrow> nat \<Rightarrow> nat \<Rightarrow> nat option" where
  "findCodePoint_range xs c lo hi =
     do { x \<leftarrow> rd xs lo;
          if c < x then Some lo
          else if lo \<ge> hi then Some hi
          else do { y \<leftarrow> rd xs (hi - 1); if c \<ge> y then Some hi else find_loop xs c lo hi } }"

text \<open>\<open>findCodePoint(c)\<close> of \<open>UnicodeSet\<close>, over the whole list.\<close>

definition findCodePoint :: "int list \<Rightarrow> int \<Rightarrow> nat option" where
  "findCodePoint xs c =
     do { x \<leftarrow> rd xs 0;
          if c < x then Some 0
          else let lo = 0; hi = length xs - 1 in
            if lo \<ge> hi then Some hi
            else do { y \<leftarrow> rd xs (hi - 1); if c \<ge> y then Some hi else find_loop xs c lo hi } }"

fun xor_loop :: "nat \<Rightarrow> int list \<Rightarrow> int list \<Rightarrow> int \<Rightarrow> int \<Rightarrow> int list \<Rightarrow> int list option" where
  "xor_loop cap as bs a b buf =
     (if a < b then
        do { buf \<leftarrow> put cap buf a;
             case as of [] \<Rightarrow> None | a' # as' \<Rightarrow> xor_loop cap as' bs a' b buf }
      else if b < a then
        do { buf \<leftarrow> put cap buf b;
             case bs of [] \<Rightarrow> None | b' # bs' \<Rightarrow> xor_loop cap as bs' a b' buf }
      else if a \<noteq> UNICODESET_HIGH then
        (case as of [] \<Rightarrow> None | a' # as' \<Rightarrow>
         case bs of [] \<Rightarrow> None | b' # bs' \<Rightarrow> xor_loop cap as' bs' a' b' buf)
      else put cap buf UNICODESET_HIGH)"

text \<open>
  \<open>polarity\<close> bit 1 says that \<open>a\<close> is the second element of its pair (a range limit), bit 2
  that \<open>b\<close> is. A value outside 0..3 selects no case and the code would loop forever.
\<close>

fun add_loop ::
  "nat \<Rightarrow> int list \<Rightarrow> int list \<Rightarrow> int \<Rightarrow> int \<Rightarrow> nat \<Rightarrow> int list \<Rightarrow> int list option" where
  "add_loop cap as bs a b polarity buf =
     (if polarity = 0 then
        (if a < b then
           (case as of [] \<Rightarrow> None | a' # as' \<Rightarrow>
             (if buf \<noteq> [] \<and> a \<le> last buf
              then add_loop cap as' bs (max a' (last buf)) b 1 (butlast buf)
              else do { buf \<leftarrow> put cap buf a; add_loop cap as' bs a' b 1 buf }))
         else if b < a then
           (case bs of [] \<Rightarrow> None | b' # bs' \<Rightarrow>
             (if buf \<noteq> [] \<and> b \<le> last buf
              then add_loop cap as bs' a (max b' (last buf)) 2 (butlast buf)
              else do { buf \<leftarrow> put cap buf b; add_loop cap as bs' a b' 2 buf }))
         else if a = UNICODESET_HIGH then put cap buf UNICODESET_HIGH
         else
           (case as of [] \<Rightarrow> None | a' # as' \<Rightarrow>
            case bs of [] \<Rightarrow> None | b' # bs' \<Rightarrow>
             (if buf \<noteq> [] \<and> a \<le> last buf
              then add_loop cap as' bs' (max a' (last buf)) b' 3 (butlast buf)
              else do { buf \<leftarrow> put cap buf a; add_loop cap as' bs' a' b' 3 buf })))
      else if polarity = 3 then
        (if b \<le> a then
           (if a = UNICODESET_HIGH then put cap buf UNICODESET_HIGH
            else do { buf \<leftarrow> put cap buf a;
              case as of [] \<Rightarrow> None | a' # as' \<Rightarrow>
              case bs of [] \<Rightarrow> None | b' # bs' \<Rightarrow> add_loop cap as' bs' a' b' 0 buf })
         else
           (if b = UNICODESET_HIGH then put cap buf UNICODESET_HIGH
            else do { buf \<leftarrow> put cap buf b;
              case as of [] \<Rightarrow> None | a' # as' \<Rightarrow>
              case bs of [] \<Rightarrow> None | b' # bs' \<Rightarrow> add_loop cap as' bs' a' b' 0 buf }))
      else if polarity = 1 then
        (if a < b then
           do { buf \<leftarrow> put cap buf a;
                case as of [] \<Rightarrow> None | a' # as' \<Rightarrow> add_loop cap as' bs a' b 0 buf }
         else if b < a then
           (case bs of [] \<Rightarrow> None | b' # bs' \<Rightarrow> add_loop cap as bs' a b' 3 buf)
         else if a = UNICODESET_HIGH then put cap buf UNICODESET_HIGH
         else
           (case as of [] \<Rightarrow> None | a' # as' \<Rightarrow>
            case bs of [] \<Rightarrow> None | b' # bs' \<Rightarrow> add_loop cap as' bs' a' b' 2 buf))
      else if polarity = 2 then
        (if b < a then
           do { buf \<leftarrow> put cap buf b;
                case bs of [] \<Rightarrow> None | b' # bs' \<Rightarrow> add_loop cap as bs' a b' 0 buf }
         else if a < b then
           (case as of [] \<Rightarrow> None | a' # as' \<Rightarrow> add_loop cap as' bs a' b 3 buf)
         else if a = UNICODESET_HIGH then put cap buf UNICODESET_HIGH
         else
           (case as of [] \<Rightarrow> None | a' # as' \<Rightarrow>
            case bs of [] \<Rightarrow> None | b' # bs' \<Rightarrow> add_loop cap as' bs' a' b' 1 buf))
      else None)"

fun retain_loop ::
  "nat \<Rightarrow> int list \<Rightarrow> int list \<Rightarrow> int \<Rightarrow> int \<Rightarrow> nat \<Rightarrow> int list \<Rightarrow> int list option" where
  "retain_loop cap as bs a b polarity buf =
     (if polarity = 0 then
        (if a < b then
           (case as of [] \<Rightarrow> None | a' # as' \<Rightarrow> retain_loop cap as' bs a' b 1 buf)
         else if b < a then
           (case bs of [] \<Rightarrow> None | b' # bs' \<Rightarrow> retain_loop cap as bs' a b' 2 buf)
         else if a = UNICODESET_HIGH then put cap buf UNICODESET_HIGH
         else do { buf \<leftarrow> put cap buf a;
            case as of [] \<Rightarrow> None | a' # as' \<Rightarrow>
            case bs of [] \<Rightarrow> None | b' # bs' \<Rightarrow> retain_loop cap as' bs' a' b' 3 buf })
      else if polarity = 3 then
        (if a < b then
           do { buf \<leftarrow> put cap buf a;
                case as of [] \<Rightarrow> None | a' # as' \<Rightarrow> retain_loop cap as' bs a' b 2 buf }
         else if b < a then
           do { buf \<leftarrow> put cap buf b;
                case bs of [] \<Rightarrow> None | b' # bs' \<Rightarrow> retain_loop cap as bs' a b' 1 buf }
         else if a = UNICODESET_HIGH then put cap buf UNICODESET_HIGH
         else do { buf \<leftarrow> put cap buf a;
            case as of [] \<Rightarrow> None | a' # as' \<Rightarrow>
            case bs of [] \<Rightarrow> None | b' # bs' \<Rightarrow> retain_loop cap as' bs' a' b' 0 buf })
      else if polarity = 1 then
        (if a < b then
           (case as of [] \<Rightarrow> None | a' # as' \<Rightarrow> retain_loop cap as' bs a' b 0 buf)
         else if b < a then
           do { buf \<leftarrow> put cap buf b;
                case bs of [] \<Rightarrow> None | b' # bs' \<Rightarrow> retain_loop cap as bs' a b' 3 buf }
         else if a = UNICODESET_HIGH then put cap buf UNICODESET_HIGH
         else
           (case as of [] \<Rightarrow> None | a' # as' \<Rightarrow>
            case bs of [] \<Rightarrow> None | b' # bs' \<Rightarrow> retain_loop cap as' bs' a' b' 2 buf))
      else if polarity = 2 then
        (if b < a then
           (case bs of [] \<Rightarrow> None | b' # bs' \<Rightarrow> retain_loop cap as bs' a b' 0 buf)
         else if a < b then
           do { buf \<leftarrow> put cap buf a;
                case as of [] \<Rightarrow> None | a' # as' \<Rightarrow> retain_loop cap as' bs a' b 3 buf }
         else if a = UNICODESET_HIGH then put cap buf UNICODESET_HIGH
         else
           (case as of [] \<Rightarrow> None | a' # as' \<Rightarrow>
            case bs of [] \<Rightarrow> None | b' # bs' \<Rightarrow> retain_loop cap as' bs' a' b' 1 buf))
      else None)"

declare xor_loop.simps [simp del] add_loop.simps [simp del] retain_loop.simps [simp del]

section \<open>What an inversion list stands for\<close>

definition cnt :: "int list \<Rightarrow> int \<Rightarrow> nat" where
  "cnt xs c = length (filter (\<lambda>x. x \<le> c) xs)"

definition inv_set :: "int list \<Rightarrow> int set" where
  "inv_set xs = {c. c < UNICODESET_HIGH \<and> odd (cnt xs c)}"

definition inv_tail :: "int list \<Rightarrow> bool" where
  "inv_tail xs \<longleftrightarrow> xs \<noteq> [] \<and> ssorted xs \<and> last xs = UNICODESET_HIGH"

definition inv_list :: "int list \<Rightarrow> bool" where
  "inv_list xs \<longleftrightarrow> inv_tail xs \<and> (\<forall>x \<in> set xs. 0 \<le> x)"

lemma inv_listI: "inv_tail xs \<Longrightarrow> (\<And>x. x \<in> set xs \<Longrightarrow> 0 \<le> x) \<Longrightarrow> inv_list xs"
  by (simp add: inv_list_def)

lemma inv_listD:
  assumes "inv_list xs"
  shows "xs \<noteq> []" "ssorted xs" "last xs = UNICODESET_HIGH" "inv_tail xs"
    "x \<in> set xs \<Longrightarrow> 0 \<le> x"
  using assms by (auto simp: inv_list_def inv_tail_def)

lemma cnt_simps [simp]:
  "cnt [] c = 0"
  "cnt (x # xs) c = (if x \<le> c then Suc (cnt xs c) else cnt xs c)"
  "cnt (xs @ ys) c = cnt xs c + cnt ys c"
  by (simp_all add: cnt_def)

lemma cnt_zero: "(\<And>x. x \<in> set xs \<Longrightarrow> c < x) \<Longrightarrow> cnt xs c = 0"
  by (auto simp: cnt_def filter_empty_conv not_le)

lemma cnt_all: "(\<And>x. x \<in> set xs \<Longrightarrow> x \<le> c) \<Longrightarrow> cnt xs c = length xs"
  by (simp add: cnt_def)

lemma cnt_le_length: "cnt xs c \<le> length xs"
  by (simp add: cnt_def)

lemma inv_tail_Cons:
  assumes "inv_tail (a # as)"
  shows "a \<le> UNICODESET_HIGH" "\<And>x. x \<in> set as \<Longrightarrow> a < x" "a = UNICODESET_HIGH \<longleftrightarrow> as = []"
    "a \<noteq> UNICODESET_HIGH \<Longrightarrow> inv_tail as"
proof -
  have le: "x \<le> UNICODESET_HIGH" if "x \<in> set (a # as)" for x
    using ssorted_le_last [of "a # as" x] assms that by (simp add: inv_tail_def)
  then show "a \<le> UNICODESET_HIGH" by simp
  show lt: "\<And>x. x \<in> set as \<Longrightarrow> a < x" using assms by (simp add: inv_tail_def)
  show "a = UNICODESET_HIGH \<longleftrightarrow> as = []"
  proof
    assume "a = UNICODESET_HIGH"
    then show "as = []" using assms lt [of "last as"] le [of "last as"] last_in_set [of as]
      by (fastforce simp: inv_tail_def)
  qed (use assms in \<open>simp add: inv_tail_def\<close>)
  then show "a \<noteq> UNICODESET_HIGH \<Longrightarrow> inv_tail as" using assms by (auto simp: inv_tail_def)
qed

lemma inv_tail_le: "inv_tail xs \<Longrightarrow> x \<in> set xs \<Longrightarrow> x \<le> UNICODESET_HIGH"
  using ssorted_le_last [of xs x] by (simp add: inv_tail_def)

lemma inv_tail_single [simp]: "inv_tail [UNICODESET_HIGH]"
  by (simp add: inv_tail_def)

lemma inv_list_single [simp]: "inv_list [UNICODESET_HIGH]"
  by (simp add: inv_list_def)

lemma inv_set_single [simp]: "inv_set [UNICODESET_HIGH] = {}"
  by (auto simp: inv_set_def)

lemma inv_list_range:
  "inv_list [s, t, UNICODESET_HIGH] \<longleftrightarrow> 0 \<le> s \<and> s < t \<and> t < UNICODESET_HIGH"
  by (auto simp: inv_list_def inv_tail_def)

lemma inv_set_bounds: "inv_list xs \<Longrightarrow> c \<in> inv_set xs \<Longrightarrow> 0 \<le> c \<and> c < UNICODESET_HIGH"
proof -
  assume xs: "inv_list xs" and c: "c \<in> inv_set xs"
  have "cnt xs c = 0" if "c < 0"
    using xs that by (intro cnt_zero) (force simp: inv_list_def)
  with c show ?thesis by (force simp: inv_set_def not_le)
qed

section \<open>The search\<close>

lemma cnt_ssorted:
  assumes "ssorted xs" "n \<le> length xs"
    "\<And>k. k < n \<Longrightarrow> xs ! k \<le> c" "n < length xs \<Longrightarrow> c < xs ! n"
  shows "cnt xs c = n"
proof -
  have "cnt (take n xs) c = n"
    using assms(2,3) by (subst cnt_all) (auto simp: in_set_take_nth)
  moreover have "cnt (drop n xs) c = 0"
  proof (rule cnt_zero)
    fix x assume "x \<in> set (drop n xs)"
    then obtain k where k: "n \<le> k" "k < length xs" "x = xs ! k" by (auto simp: in_set_drop_nth)
    with ssorted_nth_mono [OF assms(1) k(1,2)] assms(4) show "c < x" by simp
  qed
  moreover have "cnt xs c = cnt (take n xs) c + cnt (drop n xs) c"
    by (metis append_take_drop_id cnt_simps(3))
  ultimately show ?thesis by simp
qed

lemma find_loop_spec:
  assumes "ssorted xs" "lo < hi" "hi < length xs" "xs ! lo \<le> c" "c < xs ! hi"
  shows "find_loop xs c lo hi = Some (cnt xs c)"
  using assms
proof (induction "hi - lo" arbitrary: lo hi rule: less_induct)
  case less
  let ?i = "(lo + hi) div 2"
  show ?case
  proof (cases "?i = lo")
    case True
    then have "hi = lo + 1" using less.prems(2) by linarith
    moreover have "cnt xs c = hi"
    proof (rule cnt_ssorted)
      show "xs ! k \<le> c" if "k < hi" for k
      proof -
        have "xs ! k \<le> xs ! lo"
          using less.prems(1,3) that \<open>hi = lo + 1\<close>
          by (cases "k = lo") (auto simp: sorted_wrt_iff_nth_less less_imp_le)
        with less.prems(4) show ?thesis by simp
      qed
    qed (use less.prems in auto)
    ultimately show ?thesis using True by (simp add: find_loop.simps Let_def)
  next
    case False
    then have i: "lo < ?i" "?i < hi" using less.prems(2) by auto
    then have r: "rd xs ?i = Some (xs ! ?i)" using less.prems(3) by simp
    show ?thesis
    proof (cases "c < xs ! ?i")
      case True
      then have "find_loop xs c lo ?i = Some (cnt xs c)"
        using less i by (intro less.hyps) auto
      with True False r i show ?thesis by (simp add: find_loop.simps [of xs c lo hi] Let_def)
    next
      case ge: False
      then have "find_loop xs c ?i hi = Some (cnt xs c)"
        using less i by (intro less.hyps) auto
      with ge False r i show ?thesis by (simp add: find_loop.simps [of xs c lo hi] Let_def)
    qed
  qed
qed

text \<open>
  \<open>findCodePoint\<close> returns the number of list elements at or below \<open>c\<close>, capped at
  \<open>len - 1\<close>. The comment in the code asks for a legal \<open>c\<close> since it "will enter an
  infinite loop" otherwise; in fact the search ends for every argument.
\<close>

lemma cnt_lower:
  assumes "ssorted xs" "i < length xs" "xs ! i \<le> c"
  shows "i < cnt xs c"
proof -
  have "xs = take (i + 1) xs @ drop (i + 1) xs" by simp
  then have "cnt xs c = cnt (take (i + 1) xs) c + cnt (drop (i + 1) xs) c" by (metis cnt_simps(3))
  moreover have "cnt (take (i + 1) xs) c = i + 1"
  proof (subst cnt_all)
    fix x assume "x \<in> set (take (i + 1) xs)"
    then obtain k where "k < i + 1" "x = xs ! k" unfolding in_set_take_nth by blast
    then show "x \<le> c" using ssorted_nth_mono [OF assms(1), of k i] assms(2,3) by simp
  qed (use assms(2) in simp)
  ultimately show ?thesis by simp
qed

lemma cnt_upper:
  assumes "ssorted xs" "i < length xs" "c < xs ! i"
  shows "cnt xs c \<le> i"
proof (rule ccontr)
  assume "\<not> cnt xs c \<le> i"
  have "xs = take i xs @ drop i xs" by simp
  then have "cnt xs c = cnt (take i xs) c + cnt (drop i xs) c" by (metis cnt_simps(3))
  moreover have "cnt (drop i xs) c = 0"
  proof (rule cnt_zero)
    fix x assume "x \<in> set (drop i xs)"
    then obtain k where "i \<le> k" "k < length xs" "x = xs ! k" by (auto simp: in_set_drop_nth)
    then show "c < x" using ssorted_nth_mono [OF assms(1), of i k] assms(3) by simp
  qed
  moreover have "cnt (take i xs) c \<le> i" using cnt_le_length [of "take i xs" c] by simp
  ultimately show False using \<open>\<not> cnt xs c \<le> i\<close> by simp
qed

lemma findCodePoint_range_spec:
  assumes "ssorted xs" "lo \<le> hi" "hi < length xs"
  shows "findCodePoint_range xs c lo hi = Some (max lo (min hi (cnt xs c)))"
proof -
  have r: "rd xs lo = Some (xs ! lo)" using assms by simp
  consider "c < xs ! lo" | "xs ! lo \<le> c" "lo = hi"
    | "xs ! lo \<le> c" "lo < hi" "xs ! (hi - 1) \<le> c" | "xs ! lo \<le> c" "lo < hi" "c < xs ! (hi - 1)"
    using assms(2) by linarith
  then show ?thesis
  proof cases
    case 1
    with cnt_upper [of xs lo c] assms r show ?thesis by (simp add: findCodePoint_range_def)
  next
    case 2
    with assms r show ?thesis by (simp add: findCodePoint_range_def)
  next
    case 3
    then have "hi \<le> cnt xs c" using cnt_lower [of xs "hi - 1" c] assms by linarith
    with 3 assms r show ?thesis by (simp add: findCodePoint_range_def)
  next
    case 4
    have "xs ! (hi - 1) < xs ! hi" using assms 4 by (auto simp: sorted_wrt_iff_nth_less)
    then have "find_loop xs c lo hi = Some (cnt xs c)"
      using 4 assms by (intro find_loop_spec) auto
    moreover have "lo < cnt xs c" "cnt xs c \<le> hi - 1"
      using cnt_lower [of xs lo c] cnt_upper [of xs "hi - 1" c] 4 assms by auto
    ultimately show ?thesis using 4 assms r by (simp add: findCodePoint_range_def)
  qed
qed

lemma findCodePoint_eq_range:
  "xs \<noteq> [] \<Longrightarrow> findCodePoint xs c = findCodePoint_range xs c 0 (length xs - 1)"
  by (simp add: findCodePoint_def findCodePoint_range_def Let_def)

lemma findCodePoint_cnt:
  "inv_tail xs \<Longrightarrow> findCodePoint xs c = Some (min (length xs - 1) (cnt xs c))"
  by (simp add: inv_tail_def findCodePoint_eq_range findCodePoint_range_spec)

lemma cnt_less_length: "inv_tail xs \<Longrightarrow> c < UNICODESET_HIGH \<Longrightarrow> cnt xs c \<le> length xs - 1"
  using cnt_upper [of xs "length xs - 1" c] by (auto simp: inv_tail_def last_conv_nth)

lemma findCodePoint_legal:
  "inv_tail xs \<Longrightarrow> c < UNICODESET_HIGH \<Longrightarrow> findCodePoint xs c = Some (cnt xs c)"
  using cnt_less_length [of xs c] by (simp add: findCodePoint_cnt)

section \<open>Merging under a boolean operation\<close>

text \<open>
  \<open>merged f p q A B out\<close>: with \<open>p\<close> and \<open>q\<close> the membership before the first element of
  the rests \<open>A\<close> and \<open>B\<close>, the output \<open>out\<close> is sorted, closed by \<open>HIGH\<close>, made of
  elements of the inputs, and flips exactly where \<open>f\<close> of the two memberships flips.
\<close>

definition merged ::
  "(bool \<Rightarrow> bool \<Rightarrow> bool) \<Rightarrow> bool \<Rightarrow> bool \<Rightarrow> int list \<Rightarrow> int list \<Rightarrow> int list \<Rightarrow> bool" where
  "merged f p q A B out \<longleftrightarrow> inv_tail out \<and> set out \<subseteq> set A \<union> set B \<and>
     (\<forall>c < UNICODESET_HIGH.
        (f p q \<noteq> odd (cnt out c)) = f (p \<noteq> odd (cnt A c)) (q \<noteq> odd (cnt B c)))"

lemma merged_end: "merged f p q [UNICODESET_HIGH] [UNICODESET_HIGH] [UNICODESET_HIGH]"
  by (simp add: merged_def)

lemma merged_swap: "merged f p q A B out \<longleftrightarrow> merged (\<lambda>x y. f y x) q p B A out"
  by (auto simp: merged_def)

lemma merged_step:
  assumes m: "merged f p' q' A' B' out"
    and lt: "\<And>x. x \<in> set A' \<union> set B' \<Longrightarrow> e < x"
    and A: "\<And>c. e \<le> c \<Longrightarrow> (p \<noteq> odd (cnt A c)) = (p' \<noteq> odd (cnt A' c))"
    and B: "\<And>c. e \<le> c \<Longrightarrow> (q \<noteq> odd (cnt B c)) = (q' \<noteq> odd (cnt B' c))"
    and low: "\<And>c. c < e \<Longrightarrow> cnt A c = 0 \<and> cnt B c = 0"
    and sub: "e \<in> set A \<union> set B" "set A' \<subseteq> set A" "set B' \<subseteq> set B"
  shows "merged f p q A B (if f p q = f p' q' then out else e # out)"
proof -
  let ?out = "if f p q = f p' q' then out else e # out"
  have out: "inv_tail out" "set out \<subseteq> set A' \<union> set B'"
    "\<And>c. c < UNICODESET_HIGH \<Longrightarrow>
       (f p' q' \<noteq> odd (cnt out c)) = f (p' \<noteq> odd (cnt A' c)) (q' \<noteq> odd (cnt B' c))"
    using m by (auto simp: merged_def)
  have "inv_tail ?out" using out(1,2) lt by (auto simp: inv_tail_def)
  moreover have "set ?out \<subseteq> set A \<union> set B" using out(2) sub by auto
  moreover have "(f p q \<noteq> odd (cnt ?out c)) = f (p \<noteq> odd (cnt A c)) (q \<noteq> odd (cnt B c))"
    if "c < UNICODESET_HIGH" for c
  proof (cases "c < e")
    case True
    have "cnt out c = 0" using out(2) lt True by (intro cnt_zero) (force dest: less_trans)
    with True low [OF True] show ?thesis by simp
  next
    case False
    then show ?thesis using out(3) [OF that] A [of c] B [of c] by auto
  qed
  ultimately show ?thesis by (simp add: merged_def)
qed

lemma inv_tail_cnt_low: "inv_tail (x # xs) \<Longrightarrow> c < x \<Longrightarrow> cnt (x # xs) c = 0"
  by (rule cnt_zero) (auto simp: inv_tail_def)

lemma merged_a:
  assumes "inv_tail (a # as)" "inv_tail (b # bs)" "a < b" "merged f (\<not> p) q as (b # bs) out"
  shows "merged f p q (a # as) (b # bs) (if f p q = f (\<not> p) q then out else a # out)"
proof (rule merged_step [OF assms(4)])
  show "a < x" if "x \<in> set as \<union> set (b # bs)" for x
    using that assms(3) inv_tail_Cons(2) [OF assms(1)] inv_tail_Cons(2) [OF assms(2)]
    by (auto intro: less_trans)
  show "cnt (a # as) c = 0 \<and> cnt (b # bs) c = 0" if "c < a" for c
    using that assms(1-3) by (simp only: inv_tail_cnt_low less_trans [OF that assms(3)])
qed auto

lemma merged_b:
  assumes "inv_tail (a # as)" "inv_tail (b # bs)" "b < a" "merged f p (\<not> q) (a # as) bs out"
  shows "merged f p q (a # as) (b # bs) (if f p q = f p (\<not> q) then out else b # out)"
  using merged_a [OF assms(2,1,3), of "\<lambda>x y. f y x" q p out] assms(4)
  by (auto simp: merged_swap [of f] split: if_splits)

lemma merged_ab:
  assumes "inv_tail (a # as)" "inv_tail (a # bs)" "merged f (\<not> p) (\<not> q) as bs out"
  shows "merged f p q (a # as) (a # bs) (if f p q = f (\<not> p) (\<not> q) then out else a # out)"
proof (rule merged_step [OF assms(3)])
  show "a < x" if "x \<in> set as \<union> set bs" for x
    using that inv_tail_Cons(2) [OF assms(1)] inv_tail_Cons(2) [OF assms(2)] by auto
  show "cnt (a # as) c = 0 \<and> cnt (a # bs) c = 0" if "c < a" for c
    using that assms(1,2) by (simp only: inv_tail_cnt_low)
qed auto

lemma put_in [simp]: "length buf < cap \<Longrightarrow> put cap buf v = Some (buf @ [v])"
  by (simp add: put_def)

lemma inv_tail_both_high:
  "inv_tail (UNICODESET_HIGH # as) \<Longrightarrow> as = []"
  using inv_tail_Cons(3) [of UNICODESET_HIGH as] by simp

lemma inv_tail_next:
  assumes "inv_tail (a # as)" "a < UNICODESET_HIGH"
  obtains a' as' where "as = a' # as'" "inv_tail (a' # as')"
  using inv_tail_Cons(3,4) [OF assms(1)] assms(2) by (cases as) auto

text \<open>The three steps, with and without an element emitted.\<close>

lemma merged_keep:
  "inv_tail (a # as) \<Longrightarrow> inv_tail (b # bs) \<Longrightarrow> a < b \<Longrightarrow> f p q = f (\<not> p) q \<Longrightarrow>
     merged f (\<not> p) q as (b # bs) out \<Longrightarrow> merged f p q (a # as) (b # bs) out"
  "inv_tail (a # as) \<Longrightarrow> inv_tail (b # bs) \<Longrightarrow> b < a \<Longrightarrow> f p q = f p (\<not> q) \<Longrightarrow>
     merged f p (\<not> q) (a # as) bs out \<Longrightarrow> merged f p q (a # as) (b # bs) out"
  "inv_tail (a # as) \<Longrightarrow> inv_tail (a # bs) \<Longrightarrow> f p q = f (\<not> p) (\<not> q) \<Longrightarrow>
     merged f (\<not> p) (\<not> q) as bs out \<Longrightarrow> merged f p q (a # as) (a # bs) out"
  using merged_a [of a as b bs f p q out] merged_b [of a as b bs f p q out]
    merged_ab [of a as bs f p q out] by simp_all

lemma merged_emit:
  "inv_tail (a # as) \<Longrightarrow> inv_tail (b # bs) \<Longrightarrow> a < b \<Longrightarrow> f p q \<noteq> f (\<not> p) q \<Longrightarrow>
     merged f (\<not> p) q as (b # bs) out \<Longrightarrow> merged f p q (a # as) (b # bs) (a # out)"
  "inv_tail (a # as) \<Longrightarrow> inv_tail (b # bs) \<Longrightarrow> b < a \<Longrightarrow> f p q \<noteq> f p (\<not> q) \<Longrightarrow>
     merged f p (\<not> q) (a # as) bs out \<Longrightarrow> merged f p q (a # as) (b # bs) (b # out)"
  "inv_tail (a # as) \<Longrightarrow> inv_tail (a # bs) \<Longrightarrow> f p q \<noteq> f (\<not> p) (\<not> q) \<Longrightarrow>
     merged f (\<not> p) (\<not> q) as bs out \<Longrightarrow> merged f p q (a # as) (a # bs) (a # out)"
  using merged_a [of a as b bs f p q out] merged_b [of a as b bs f p q out]
    merged_ab [of a as bs f p q out] by simp_all

text \<open>
  The reference merge: one loop for every boolean operation \<open>f\<close>, which emits an element
  exactly where the value of \<open>f\<close> changes. \<open>exclusiveOr\<close> and \<open>retain\<close> are its instances
  for exclusive or and conjunction.
\<close>

definition emit :: "nat \<Rightarrow> bool \<Rightarrow> int list \<Rightarrow> int \<Rightarrow> int list option" where
  "emit cap cond buf v = (if cond then put cap buf v else Some buf)"

fun gen_loop ::
  "(bool \<Rightarrow> bool \<Rightarrow> bool) \<Rightarrow> nat \<Rightarrow> int list \<Rightarrow> int list \<Rightarrow> int \<Rightarrow> int \<Rightarrow> bool \<Rightarrow> bool \<Rightarrow> int list \<Rightarrow> int list option" where
  "gen_loop f cap as bs a b p q buf =
     (if a < b then
        do { buf \<leftarrow> emit cap (f p q \<noteq> f (\<not> p) q) buf a;
             case as of [] \<Rightarrow> None | a' # as' \<Rightarrow> gen_loop f cap as' bs a' b (\<not> p) q buf }
      else if b < a then
        do { buf \<leftarrow> emit cap (f p q \<noteq> f p (\<not> q)) buf b;
             case bs of [] \<Rightarrow> None | b' # bs' \<Rightarrow> gen_loop f cap as bs' a b' p (\<not> q) buf }
      else if a = UNICODESET_HIGH then put cap buf UNICODESET_HIGH
      else
        do { buf \<leftarrow> emit cap (f p q \<noteq> f (\<not> p) (\<not> q)) buf a;
             case as of [] \<Rightarrow> None | a' # as' \<Rightarrow>
             case bs of [] \<Rightarrow> None | b' # bs' \<Rightarrow> gen_loop f cap as' bs' a' b' (\<not> p) (\<not> q) buf })"

declare gen_loop.simps [simp del]

definition pol :: "bool \<Rightarrow> bool \<Rightarrow> nat" where
  "pol p q = (if p then 1 else 0) + (if q then 2 else 0)"

lemma pol_simps [simp]:
  "pol False False = 0" "pol True False = 1" "pol False True = 2" "pol True True = 3"
  by (simp_all add: pol_def)

lemma retain_loop_gen: "retain_loop cap as bs a b (pol p q) buf = gen_loop (\<and>) cap as bs a b p q buf"
proof (induction "length as + length bs" arbitrary: as bs a b p q buf rule: less_induct)
  case less
  have a: "retain_loop cap as' bs a' b (pol (\<not> p) q) buf' = gen_loop (\<and>) cap as' bs a' b (\<not> p) q buf'"
    if "as = a' # as'" for a' as' buf' using less that by simp
  have b: "retain_loop cap as bs' a b' (pol p (\<not> q)) buf' = gen_loop (\<and>) cap as bs' a b' p (\<not> q) buf'"
    if "bs = b' # bs'" for b' bs' buf' using less that by simp
  have ab: "retain_loop cap as' bs' a' b' (pol (\<not> p) (\<not> q)) buf' =
      gen_loop (\<and>) cap as' bs' a' b' (\<not> p) (\<not> q) buf'"
    if "as = a' # as'" "bs = b' # bs'" for a' as' b' bs' buf' using less that by simp
  show ?case
    using a b ab
    by (subst retain_loop.simps, subst gen_loop.simps, cases p; cases q; cases as; cases bs)
      (simp_all add: emit_def)
qed

lemma xor_loop_gen: "xor_loop cap as bs a b buf = gen_loop (\<noteq>) cap as bs a b p q buf"
proof (induction "length as + length bs" arbitrary: as bs a b p q buf rule: less_induct)
  case less
  have a: "xor_loop cap as' bs a' b buf' = gen_loop (\<noteq>) cap as' bs a' b (\<not> p) q buf'"
    if "as = a' # as'" for a' as' buf' using less that by simp
  have b: "xor_loop cap as bs' a b' buf' = gen_loop (\<noteq>) cap as bs' a b' p (\<not> q) buf'"
    if "bs = b' # bs'" for b' bs' buf' using less that by simp
  have ab: "xor_loop cap as' bs' a' b' buf' = gen_loop (\<noteq>) cap as' bs' a' b' (\<not> p) (\<not> q) buf'"
    if "as = a' # as'" "bs = b' # bs'" for a' as' b' bs' buf' using less that by simp
  show ?case
    using a b ab
    by (subst xor_loop.simps, subst gen_loop.simps, cases p; cases q; cases as; cases bs)
      (simp_all add: emit_def)
qed

theorem gen_loop_merged:
  assumes "inv_tail (a # as)" "inv_tail (b # bs)" "length buf + length as + length bs + 1 \<le> cap"
  shows "\<exists>out. gen_loop f cap as bs a b p q buf = Some (buf @ out) \<and>
    merged f p q (a # as) (b # bs) out \<and> length out \<le> length as + length bs + 1"
  using assms
proof (induction "length as + length bs" arbitrary: as bs a b p q buf rule: less_induct)
  case less
  note A = inv_tail_Cons(1) [OF less.prems(1)] and B = inv_tail_Cons(1) [OF less.prems(2)]
  note room = less.prems(3)
  consider "a < b" | "b < a" | "b = a" "a < UNICODESET_HIGH" | "b = a" "a = UNICODESET_HIGH"
    using A by linarith
  then show ?case
  proof cases
    case 1
    then have "a < UNICODESET_HIGH" using B by simp
    then obtain a' as' where as: "as = a' # as'" "inv_tail (a' # as')"
      using inv_tail_next [OF less.prems(1)] by blast
    define e where "e = (if f p q \<noteq> f (\<not> p) q then [a] else [])"
    have e: "length e \<le> 1" by (simp add: e_def)
    obtain out where out: "gen_loop f cap as' bs a' b (\<not> p) q (buf @ e) = Some (buf @ e @ out)"
      "merged f (\<not> p) q as (b # bs) out" "length out \<le> length as + length bs"
      using less.hyps [of as' bs a' b "buf @ e" "\<not> p" q] less.prems as e by auto
    have "gen_loop f cap as bs a b p q buf = Some (buf @ e @ out)"
      using 1 out(1) as(1) room
      by (subst gen_loop.simps) (cases "f p q = f (\<not> p) q"; simp add: emit_def e_def)
    moreover have "merged f p q (a # as) (b # bs) (e @ out)"
      using merged_a [OF less.prems(1,2) 1 out(2)] by (auto simp: e_def)
    ultimately show ?thesis using out(3) as by (intro exI [of _ "e @ out"]) (auto simp: e_def)
  next
    case 2
    then have "b < UNICODESET_HIGH" using A by simp
    then obtain b' bs' where bs: "bs = b' # bs'" "inv_tail (b' # bs')"
      using inv_tail_next [OF less.prems(2)] by blast
    define e where "e = (if f p q \<noteq> f p (\<not> q) then [b] else [])"
    have e: "length e \<le> 1" by (simp add: e_def)
    obtain out where out: "gen_loop f cap as bs' a b' p (\<not> q) (buf @ e) = Some (buf @ e @ out)"
      "merged f p (\<not> q) (a # as) bs out" "length out \<le> length as + length bs"
      using less.hyps [of as bs' a b' "buf @ e" p "\<not> q"] less.prems bs e by auto
    have "gen_loop f cap as bs a b p q buf = Some (buf @ e @ out)"
      using 2 out(1) bs(1) room
      by (subst gen_loop.simps) (cases "f p q = f p (\<not> q)"; simp add: emit_def e_def)
    moreover have "merged f p q (a # as) (b # bs) (e @ out)"
      using merged_b [OF less.prems(1,2) 2 out(2)] by (auto simp: e_def)
    ultimately show ?thesis using out(3) bs by (intro exI [of _ "e @ out"]) (auto simp: e_def)
  next
    case 3
    obtain a' as' where as: "as = a' # as'" "inv_tail (a' # as')"
      using inv_tail_next [OF less.prems(1) 3(2)] by blast
    obtain b' bs' where bs: "bs = b' # bs'" "inv_tail (b' # bs')"
      using inv_tail_next [OF less.prems(2)] 3 by blast
    define e where "e = (if f p q \<noteq> f (\<not> p) (\<not> q) then [a] else [])"
    have e: "length e \<le> 1" by (simp add: e_def)
    obtain out where out: "gen_loop f cap as' bs' a' b' (\<not> p) (\<not> q) (buf @ e) = Some (buf @ e @ out)"
      "merged f (\<not> p) (\<not> q) as bs out" "length out + 1 \<le> length as + length bs"
      using less.hyps [of as' bs' a' b' "buf @ e" "\<not> p" "\<not> q"] less.prems as bs e by auto
    have "gen_loop f cap as bs a b p q buf = Some (buf @ e @ out)"
      using 3 out(1) as(1) bs(1) room
      by (subst gen_loop.simps) (cases "f p q = f (\<not> p) (\<not> q)"; simp add: emit_def e_def)
    moreover have "merged f p q (a # as) (b # bs) (e @ out)"
      using merged_ab [of a as bs, OF _ _ out(2)] less.prems(1,2) 3(1) by (auto simp: e_def)
    ultimately show ?thesis using out(3) as by (intro exI [of _ "e @ out"]) (auto simp: e_def)
  next
    case 4
    then have "as = []" "bs = []" using less.prems inv_tail_both_high by auto
    with 4 room show ?thesis
      by (subst gen_loop.simps) (intro exI [of _ "[UNICODESET_HIGH]"], simp add: merged_end)
  qed
qed

lemma merged_inv_set:
  assumes "inv_list A" "inv_list B" "merged f p q A B out"
  shows "inv_list out" "inv_set out =
    {c. c < UNICODESET_HIGH \<and> f p q \<noteq> f (p \<noteq> odd (cnt A c)) (q \<noteq> odd (cnt B c))}"
proof -
  show "inv_list out" using assms by (auto simp: inv_list_def merged_def)
  show "inv_set out = {c. c < UNICODESET_HIGH \<and> f p q \<noteq> f (p \<noteq> odd (cnt A c)) (q \<noteq> odd (cnt B c))}"
    using assms(3) by (auto simp: merged_def inv_set_def)
qed

section \<open>Union\<close>

text \<open>The ranges of a list: its elements taken in pairs, a start and a limit.\<close>

fun ranges :: "int list \<Rightarrow> int set" where
  "ranges (x # y # xs) = {x..<y} \<union> ranges xs"
| "ranges _ = {}"

lemma ranges_append: "even (length r) \<Longrightarrow> ranges (r @ xs) = ranges r \<union> ranges xs"
  by (induction r rule: ranges.induct) auto

lemma ranges_butlast_odd: "odd (length r) \<Longrightarrow> ranges (butlast r) = ranges r"
  by (induction r rule: ranges.induct) (auto simp: neq_Nil_conv)

text \<open>
  The state of the loop of \<open>add\<close>: \<open>p\<close> (\<open>q\<close>) says that \<open>a\<close> (\<open>b\<close>) is a limit. The buffer
  then ends with the start of an open range; its elements up to the last start are below
  everything still to come. A limit \<open>a\<close> may have been raised to the limit of the range
  that was reopened, so it need not be below the rest of its list.
\<close>

definition rest_ok :: "bool \<Rightarrow> int \<Rightarrow> int list \<Rightarrow> bool" where
  "rest_ok p a as \<longleftrightarrow>
     (if p then (a = UNICODESET_HIGH \<and> as = []) \<or> (a < UNICODESET_HIGH \<and> inv_tail as)
      else inv_tail (a # as))"

definition add_pre ::
  "bool \<Rightarrow> bool \<Rightarrow> int list \<Rightarrow> int \<Rightarrow> int list \<Rightarrow> int \<Rightarrow> int list \<Rightarrow> bool" where
  "add_pre p q buf a as b bs \<longleftrightarrow>
     ssorted buf \<and> odd (length buf) = (p \<or> q) \<and> rest_ok p a as \<and> rest_ok q b bs \<and>
     (\<forall>x \<in> set buf. x < UNICODESET_HIGH) \<and>
     (\<forall>y \<in> set (if p \<or> q then buf else butlast buf).
        y < a \<and> y < b \<and> (\<forall>x \<in> set as. y < x) \<and> (\<forall>x \<in> set bs. y < x))"

definition cover ::
  "bool \<Rightarrow> bool \<Rightarrow> int list \<Rightarrow> int \<Rightarrow> int list \<Rightarrow> int \<Rightarrow> int list \<Rightarrow> int set" where
  "cover p q buf a as b bs =
     ranges (if p \<or> q then butlast buf else buf) \<union>
     (if p then {last buf..<a} \<union> ranges as else ranges (a # as)) \<union>
     (if q then {last buf..<b} \<union> ranges bs else ranges (b # bs))"

text \<open>Every pass keeps the state and what it covers.\<close>

definition add_goes ::
  "bool \<Rightarrow> bool \<Rightarrow> int list \<Rightarrow> int \<Rightarrow> int list \<Rightarrow> int \<Rightarrow> int list \<Rightarrow>
   bool \<Rightarrow> bool \<Rightarrow> int list \<Rightarrow> int \<Rightarrow> int list \<Rightarrow> int \<Rightarrow> int list \<Rightarrow> bool" where
  "add_goes p q buf a as b bs p' q' buf' a' as' b' bs' \<longleftrightarrow>
     add_pre p' q' buf' a' as' b' bs' \<and>
     cover p' q' buf' a' as' b' bs' = cover p q buf a as b bs"

lemma rest_ok_next:
  assumes "rest_ok p a as" "a < UNICODESET_HIGH"
  obtains a' as' where "as = a' # as'" "inv_tail (a' # as')" "\<not> p \<Longrightarrow> a < a'"
    "rest_ok True a' as'" "rest_ok False a' as'"
proof -
  have "inv_tail as" using assms inv_tail_Cons(3,4) [of a as] by (auto simp: rest_ok_def split: if_splits)
  then obtain a' as' where as: "as = a' # as'" "inv_tail (a' # as')" by (cases as) (auto simp: inv_tail_def)
  moreover have "\<not> p \<Longrightarrow> a < a'" using as assms(1) by (auto simp: rest_ok_def inv_tail_def)
  moreover have "rest_ok True a' as'"
    using inv_tail_Cons [OF as(2)] by (auto simp: rest_ok_def)
  moreover have "rest_ok False a' as'" using as by (simp add: rest_ok_def)
  ultimately show thesis by (rule that)
qed

lemma rest_ok_le: "rest_ok p a as \<Longrightarrow> a \<le> UNICODESET_HIGH"
  using inv_tail_Cons(1) [of a as] by (auto simp: rest_ok_def split: if_splits)

lemma rest_ok_high: "rest_ok p UNICODESET_HIGH as \<Longrightarrow> as = []"
  using inv_tail_both_high by (auto simp: rest_ok_def split: if_splits)

lemma rest_ok_raise: "rest_ok True a as \<Longrightarrow> l < UNICODESET_HIGH \<Longrightarrow> rest_ok True (max a l) as"
  by (auto simp: rest_ok_def max_def)

lemma even_buf_cases:
  assumes "even (length buf)" "buf \<noteq> []"
  obtains r s l where "buf = r @ [s, l]" "even (length r)"
proof -
  obtain r1 l where 1: "buf = r1 @ [l]" using assms(2) by (metis append_butlast_last_id)
  with assms(1) have "r1 \<noteq> []" by auto
  then obtain r s where "r1 = r @ [s]" by (metis append_butlast_last_id)
  with 1 assms(1) that [of r s l] show thesis by simp
qed

lemma odd_buf_cases:
  assumes "odd (length buf)"
  obtains r s where "buf = r @ [s]" "even (length r)"
proof -
  from assms obtain r l where "buf = r @ [l]" by (cases buf rule: rev_cases) auto
  with assms that show thesis by simp
qed

lemma goes_reopen_a:
  assumes "add_pre False False buf a (a' # as) b bs" "a < a'" "rest_ok True a' as" "buf \<noteq> []" "a \<le> last buf"
  shows "add_goes False False buf a (a' # as) b bs
           True False (butlast buf) (max a' (last buf)) as b bs"
proof -
  obtain r s l where "buf = r @ [s, l]" "even (length r)"
    using even_buf_cases [of buf] assms(1,4) by (auto simp: add_pre_def)
  then show ?thesis
    using assms(1-3,5) rest_ok_raise [OF assms(3), of l]
    by (auto simp: add_goes_def add_pre_def cover_def butlast_append ranges_append max_def sorted_wrt_append)
qed

lemma goes_reopen_b:
  assumes "add_pre False False buf a as b (b' # bs)" "b < b'" "rest_ok True b' bs" "buf \<noteq> []" "b \<le> last buf"
  shows "add_goes False False buf a as b (b' # bs)
           False True (butlast buf) a as (max b' (last buf)) bs"
proof -
  obtain r s l where "buf = r @ [s, l]" "even (length r)"
    using even_buf_cases [of buf] assms(1,4) by (auto simp: add_pre_def)
  then show ?thesis
    using assms(1-3,5) rest_ok_raise [OF assms(3), of l]
    by (auto simp: add_goes_def add_pre_def cover_def butlast_append ranges_append max_def sorted_wrt_append)
qed

lemma goes_reopen_ab:
  assumes "add_pre False False buf a (a' # as) a (b' # bs)" "a < a'" "rest_ok True a' as"
    "a < b'" "rest_ok True b' bs" "buf \<noteq> []" "a \<le> last buf"
  shows "add_goes False False buf a (a' # as) a (b' # bs)
           True True (butlast buf) (max a' (last buf)) as b' bs"
proof -
  obtain r s l where "buf = r @ [s, l]" "even (length r)"
    using even_buf_cases [of buf] assms(1,6) by (auto simp: add_pre_def)
  then show ?thesis
    using assms(1-5,7) rest_ok_raise [OF assms(3), of l]
    by (auto simp: add_goes_def add_pre_def cover_def butlast_append ranges_append max_def sorted_wrt_append)
qed

lemma rest_ok_less: "rest_ok False a as \<Longrightarrow> x \<in> set as \<Longrightarrow> a < x"
  by (simp add: rest_ok_def inv_tail_def)

lemmas goes_simps = add_goes_def add_pre_def cover_def butlast_append ranges_append sorted_wrt_append

lemma add_pre_buf_cases:
  assumes "add_pre False False buf a as b bs"
  obtains "buf = []" | r s l where "buf = r @ [s, l]" "even (length r)"
proof (cases "buf = []")
  case False
  then obtain r s l where "buf = r @ [s, l]" "even (length r)"
    using even_buf_cases [of buf] assms by (auto simp: add_pre_def)
  then show thesis by (rule that(2))
qed (rule that(1))

lemma goes_open_a:
  assumes "add_pre False False buf a (a' # as) b bs" "a < b" "a < UNICODESET_HIGH"
    "rest_ok True a' as" "buf = [] \<or> last buf < a"
  shows "add_goes False False buf a (a' # as) b bs True False (buf @ [a]) a' as b bs"
proof -
  have "\<forall>x \<in> set (a' # as). a < x" "\<forall>x \<in> set bs. b < x"
    using assms(1) rest_ok_less by (auto simp: add_pre_def)
  with assms show ?thesis
    by (rule_tac add_pre_buf_cases [OF assms(1)]) (auto simp: goes_simps)
qed

lemma goes_open_b:
  assumes "add_pre False False buf a as b (b' # bs)" "b < a" "b < UNICODESET_HIGH"
    "rest_ok True b' bs" "buf = [] \<or> last buf < b"
  shows "add_goes False False buf a as b (b' # bs) False True (buf @ [b]) a as b' bs"
proof -
  have "\<forall>x \<in> set as. a < x" "\<forall>x \<in> set (b' # bs). b < x"
    using assms(1) rest_ok_less by (auto simp: add_pre_def)
  with assms show ?thesis
    by (rule_tac add_pre_buf_cases [OF assms(1)]) (auto simp: goes_simps)
qed

lemma goes_open_ab:
  assumes "add_pre False False buf a (a' # as) a (b' # bs)" "a < UNICODESET_HIGH"
    "rest_ok True a' as" "rest_ok True b' bs" "buf = [] \<or> last buf < a"
  shows "add_goes False False buf a (a' # as) a (b' # bs) True True (buf @ [a]) a' as b' bs"
proof -
  have lt: "a < a'" "a < b'" "\<forall>x \<in> set as. a < x" "\<forall>x \<in> set bs. a < x" "ssorted buf"
    using assms(1) rest_ok_less by (auto simp: add_pre_def)
  have le: "\<forall>x \<in> set buf. x < a" "even (length buf)"
    using assms(5) ssorted_butlast_less [OF lt(5)] assms(1)
    by (auto simp: add_pre_def intro: le_less_trans ssorted_le_last [OF lt(5)])
  have "add_pre True True (buf @ [a]) a' as b' bs"
    using assms(2-4) lt le by (fastforce simp: add_pre_def sorted_wrt_append)
  moreover have "cover True True (buf @ [a]) a' as b' bs = cover False False buf a (a' # as) a (b' # bs)"
    by (simp add: cover_def)
  ultimately show ?thesis by (simp add: add_goes_def)
qed

lemma goes_close:
  "add_pre True False buf a (a' # as) b bs \<Longrightarrow> a < b \<Longrightarrow> a < UNICODESET_HIGH \<Longrightarrow>
     rest_ok False a' as \<Longrightarrow>
     add_goes True False buf a (a' # as) b bs False False (buf @ [a]) a' as b bs"
  "add_pre False True buf a as b (b' # bs) \<Longrightarrow> b < a \<Longrightarrow> b < UNICODESET_HIGH \<Longrightarrow>
     rest_ok False b' bs \<Longrightarrow>
     add_goes False True buf a as b (b' # bs) False False (buf @ [b]) a as b' bs"
  "add_pre True True buf a (a' # as) b (b' # bs) \<Longrightarrow> max a b < UNICODESET_HIGH \<Longrightarrow>
     rest_ok False a' as \<Longrightarrow> rest_ok False b' bs \<Longrightarrow>
     add_goes True True buf a (a' # as) b (b' # bs) False False (buf @ [max a b]) a' as b' bs"
  subgoal by (rule odd_buf_cases [of buf]) (auto simp: goes_simps)
  subgoal by (rule odd_buf_cases [of buf]) (auto simp: goes_simps)
  subgoal by (rule odd_buf_cases [of buf]) (auto simp: goes_simps max_def)
  done

lemma goes_join:
  "add_pre True False buf a as b (b' # bs) \<Longrightarrow> b < a \<Longrightarrow> b < b' \<Longrightarrow> rest_ok True b' bs \<Longrightarrow>
     add_goes True False buf a as b (b' # bs) True True buf a as b' bs"
  "add_pre False True buf a (a' # as) b bs \<Longrightarrow> a < b \<Longrightarrow> a < a' \<Longrightarrow> rest_ok True a' as \<Longrightarrow>
     add_goes False True buf a (a' # as) b bs True True buf a' as b bs"
  "add_pre True False buf a (a' # as) a (b' # bs) \<Longrightarrow> a < b' \<Longrightarrow>
     rest_ok False a' as \<Longrightarrow> rest_ok True b' bs \<Longrightarrow>
     add_goes True False buf a (a' # as) a (b' # bs) False True buf a' as b' bs"
  "add_pre False True buf a (a' # as) a (b' # bs) \<Longrightarrow> a < a' \<Longrightarrow>
     rest_ok True a' as \<Longrightarrow> rest_ok False b' bs \<Longrightarrow>
     add_goes False True buf a (a' # as) a (b' # bs) True False buf a' as b' bs"
  subgoal by (rule odd_buf_cases [of buf]) (auto simp: goes_simps)
  subgoal by (rule odd_buf_cases [of buf]) (auto simp: goes_simps)
  subgoal by (rule odd_buf_cases [of buf]) (auto simp: goes_simps)
  subgoal by (rule odd_buf_cases [of buf]) (auto simp: goes_simps)
  done

text \<open>The exits: both rests are used up and \<open>HIGH\<close> closes the buffer.\<close>

lemma ranges_subset: "(\<And>x. x \<in> set xs \<Longrightarrow> s \<le> x \<and> x \<le> h) \<Longrightarrow> ranges xs \<subseteq> {s..<h}"
  by (induction xs rule: ranges.induct) fastforce+

lemma rest_ok_set_le: "rest_ok p a as \<Longrightarrow> x \<in> set as \<Longrightarrow> x \<le> UNICODESET_HIGH"
  using inv_tail_le [of as x] inv_tail_le [of "a # as" x] by (auto simp: rest_ok_def split: if_splits)

lemma goes_end:
  assumes "add_pre p q buf a as b bs"
    "if p \<and> q then max a b = UNICODESET_HIGH else a = UNICODESET_HIGH \<and> b = UNICODESET_HIGH"
  shows "inv_tail (buf @ [UNICODESET_HIGH])" "ranges (buf @ [UNICODESET_HIGH]) = cover p q buf a as b bs"
proof -
  show "inv_tail (buf @ [UNICODESET_HIGH])"
    using assms(1) by (auto simp: inv_tail_def add_pre_def sorted_wrt_append)
  show "ranges (buf @ [UNICODESET_HIGH]) = cover p q buf a as b bs"
  proof (cases "p \<or> q")
    case False
    with assms show ?thesis
      using rest_ok_high [of p as] rest_ok_high [of q bs] by (auto simp: cover_def add_pre_def ranges_append)
  next
    case True
    then obtain r s where buf: "buf = r @ [s]" "even (length r)"
      using odd_buf_cases [of buf] assms(1) by (auto simp: add_pre_def)
    have ok: "rest_ok p a as" "rest_ok q b bs" "s < a" "s < b" "\<forall>x \<in> set as. s < x" "\<forall>x \<in> set bs. s < x"
      using assms(1) True buf by (auto simp: add_pre_def)
    have "ranges as \<subseteq> {s..<UNICODESET_HIGH}" "ranges (a # as) \<subseteq> {s..<UNICODESET_HIGH}"
      "ranges bs \<subseteq> {s..<UNICODESET_HIGH}" "ranges (b # bs) \<subseteq> {s..<UNICODESET_HIGH}"
      using ok rest_ok_set_le rest_ok_le by (intro ranges_subset; fastforce)+
    moreover have "(p \<and> a = UNICODESET_HIGH) \<or> (q \<and> b = UNICODESET_HIGH)"
      "a \<le> UNICODESET_HIGH" "b \<le> UNICODESET_HIGH"
      using assms(2) True rest_ok_le ok(1,2) by (auto simp: max_def split: if_splits)
    ultimately show ?thesis
      using True by (cases p; cases q) (auto simp: cover_def ranges_append buf)
  qed
qed

definition add_res ::
  "nat \<Rightarrow> bool \<Rightarrow> bool \<Rightarrow> int list \<Rightarrow> int \<Rightarrow> int list \<Rightarrow> int \<Rightarrow> int list \<Rightarrow> bool" where
  "add_res cap p q buf a as b bs \<longleftrightarrow>
     (\<exists>out. add_loop cap as bs a b (pol p q) buf = Some out \<and> inv_tail out \<and>
        ranges out = cover p q buf a as b bs \<and>
        set out \<subseteq> insert UNICODESET_HIGH (set buf \<union> {a, b} \<union> set as \<union> set bs) \<and>
        length out \<le> length buf + length as + length bs + 1)"

lemma add_res_step:
  assumes "add_res cap p' q' buf' a' as' b' bs'"
    "add_goes p q buf a as b bs p' q' buf' a' as' b' bs'"
    "add_loop cap as bs a b (pol p q) buf = add_loop cap as' bs' a' b' (pol p' q') buf'"
    "set buf' \<union> {a', b'} \<union> set as' \<union> set bs' \<subseteq> set buf \<union> {a, b} \<union> set as \<union> set bs"
    "length buf' + length as' + length bs' \<le> length buf + length as + length bs"
  shows "add_res cap p q buf a as b bs"
proof -
  obtain out where out: "add_loop cap as' bs' a' b' (pol p' q') buf' = Some out" "inv_tail out"
    "ranges out = cover p' q' buf' a' as' b' bs'"
    "set out \<subseteq> insert UNICODESET_HIGH (set buf' \<union> {a', b'} \<union> set as' \<union> set bs')"
    "length out \<le> length buf' + length as' + length bs' + 1"
    using assms(1) by (auto simp: add_res_def)
  have "set out \<subseteq> insert UNICODESET_HIGH (set buf \<union> {a, b} \<union> set as \<union> set bs)"
    using out(4) assms(4) by blast
  moreover have "ranges out = cover p q buf a as b bs"
    using out(3) assms(2) by (simp add: add_goes_def)
  ultimately show ?thesis
    using out(1,2,5) assms(3,5) unfolding add_res_def by (intro exI [of _ out]) auto
qed

lemma add_res_end:
  assumes "add_pre p q buf a as b bs"
    "if p \<and> q then max a b = UNICODESET_HIGH else a = UNICODESET_HIGH \<and> b = UNICODESET_HIGH"
    "add_loop cap as bs a b (pol p q) buf = put cap buf UNICODESET_HIGH" "length buf < cap"
  shows "add_res cap p q buf a as b bs"
  using goes_end [OF assms(1,2)] assms(3,4) by (auto simp: add_res_def)

text \<open>One pass from each polarity, given the rest of the loop as \<open>go\<close>.\<close>

lemma add_pass_0:
  assumes pre: "add_pre False False buf a as b bs" and room: "length buf < cap"
    and go: "\<And>p' q' buf' a' as' b' bs'. add_goes False False buf a as b bs p' q' buf' a' as' b' bs' \<Longrightarrow>
      add_loop cap as bs a b (pol False False) buf = add_loop cap as' bs' a' b' (pol p' q') buf' \<Longrightarrow>
      set buf' \<union> {a', b'} \<union> set as' \<union> set bs' \<subseteq> set buf \<union> {a, b} \<union> set as \<union> set bs \<Longrightarrow>
      length buf' + length as' + length bs' \<le> length buf + length as + length bs \<Longrightarrow>
      length as' + length bs' < length as + length bs \<Longrightarrow> add_res cap False False buf a as b bs"
  shows "add_res cap False False buf a as b bs"
proof -
  have ok: "rest_ok False a as" "rest_ok False b bs" using pre by (auto simp: add_pre_def)
  note le = rest_ok_le [OF ok(1)] rest_ok_le [OF ok(2)]
  consider "a < b" "a < UNICODESET_HIGH" | "b < a" "b < UNICODESET_HIGH"
    | "b = a" "a < UNICODESET_HIGH" | "a = UNICODESET_HIGH" "b = UNICODESET_HIGH"
    using le by linarith
  then show ?thesis
  proof cases
    case 1
    obtain a' as' where as: "as = a' # as'" "a < a'" "rest_ok True a' as'"
      using rest_ok_next [OF ok(1) 1(2)] by blast
    note pre = pre [unfolded as(1)]
    show ?thesis
    proof (cases "buf \<noteq> [] \<and> a \<le> last buf")
      case True
      from 1 True show ?thesis unfolding as(1)
        by (intro go [unfolded as(1), OF goes_reopen_a [OF pre as(2,3)]])
          (auto simp: add_loop.simps [of cap "a' # as'"] max_def dest: in_set_butlastD)
    next
      case False
      with 1 room show ?thesis unfolding as(1)
        by (intro go [unfolded as(1), OF goes_open_a [OF pre 1 as(3)]])
          (auto simp: add_loop.simps [of cap "a' # as'"] as(1))
    qed
  next
    case 2
    obtain b' bs' where bs: "bs = b' # bs'" "b < b'" "rest_ok True b' bs'"
      using rest_ok_next [OF ok(2) 2(2)] by blast
    note pre = pre [unfolded bs(1)]
    show ?thesis
    proof (cases "buf \<noteq> [] \<and> b \<le> last buf")
      case True
      from 2 True show ?thesis unfolding bs(1)
        by (intro go [unfolded bs(1), OF goes_reopen_b [OF pre bs(2,3)]])
          (auto simp: add_loop.simps [of cap _ "b' # bs'"] max_def dest: in_set_butlastD)
    next
      case False
      with 2 room show ?thesis unfolding bs(1)
        by (intro go [unfolded bs(1), OF goes_open_b [OF pre 2 bs(3)]])
          (auto simp: add_loop.simps [of cap _ "b' # bs'"] bs(1))
    qed
  next
    case 3
    obtain a' as' where as: "as = a' # as'" "a < a'" "rest_ok True a' as'"
      using rest_ok_next [OF ok(1) 3(2)] by blast
    obtain b' bs' where bs: "bs = b' # bs'" "a < b'" "rest_ok True b' bs'"
      using rest_ok_next [OF ok(2)] 3 by blast
    note pre = pre [unfolded as(1) bs(1) 3(1)]
    show ?thesis
    proof (cases "buf \<noteq> [] \<and> a \<le> last buf")
      case True
      from 3 True show ?thesis unfolding as(1) bs(1) 3(1)
        by (intro go [unfolded as(1) bs(1) 3(1), OF goes_reopen_ab [OF pre as(2,3) bs(2,3)]])
          (auto simp: add_loop.simps [of cap "a' # as'"] max_def dest: in_set_butlastD)
    next
      case False
      with 3 room show ?thesis unfolding as(1) bs(1) 3(1)
        by (intro go [unfolded as(1) bs(1) 3(1), OF goes_open_ab [OF pre 3(2) as(3) bs(3)]])
          (auto simp: add_loop.simps [of cap "a' # as'"] as(1) bs(1))
    qed
  next
    case 4
    with room show ?thesis
      by (intro add_res_end [OF pre]) (auto simp: add_loop.simps [of cap as])
  qed
qed

lemma add_pass_1:
  assumes pre: "add_pre True False buf a as b bs" and room: "length buf < cap"
    and go: "\<And>p' q' buf' a' as' b' bs'. add_goes True False buf a as b bs p' q' buf' a' as' b' bs' \<Longrightarrow>
      add_loop cap as bs a b (pol True False) buf = add_loop cap as' bs' a' b' (pol p' q') buf' \<Longrightarrow>
      set buf' \<union> {a', b'} \<union> set as' \<union> set bs' \<subseteq> set buf \<union> {a, b} \<union> set as \<union> set bs \<Longrightarrow>
      length buf' + length as' + length bs' \<le> length buf + length as + length bs \<Longrightarrow>
      length as' + length bs' < length as + length bs \<Longrightarrow> add_res cap True False buf a as b bs"
  shows "add_res cap True False buf a as b bs"
proof -
  have ok: "rest_ok True a as" "rest_ok False b bs" using pre by (auto simp: add_pre_def)
  note le = rest_ok_le [OF ok(1)] rest_ok_le [OF ok(2)]
  consider "a < b" "a < UNICODESET_HIGH" | "b < a" "b < UNICODESET_HIGH"
    | "b = a" "a < UNICODESET_HIGH" | "a = UNICODESET_HIGH" "b = UNICODESET_HIGH"
    using le by linarith
  then show ?thesis
  proof cases
    case 1
    obtain a' as' where as: "as = a' # as'" "rest_ok False a' as'"
      using rest_ok_next [OF ok(1) 1(2)] by blast
    from 1 room show ?thesis unfolding as(1)
      by (intro go [unfolded as(1), OF goes_close(1) [OF pre [unfolded as(1)] 1 as(2)]])
        (auto simp: add_loop.simps [of cap "a' # as'"] as(1))
  next
    case 2
    obtain b' bs' where bs: "bs = b' # bs'" "b < b'" "rest_ok True b' bs'"
      using rest_ok_next [OF ok(2) 2(2)] by blast
    from 2 show ?thesis unfolding bs(1)
      by (intro go [unfolded bs(1), OF goes_join(1) [OF pre [unfolded bs(1)] 2(1) bs(2,3)]])
        (auto simp: add_loop.simps [of cap _ "b' # bs'"])
  next
    case 3
    obtain a' as' where as: "as = a' # as'" "rest_ok False a' as'"
      using rest_ok_next [OF ok(1) 3(2)] by blast
    obtain b' bs' where bs: "bs = b' # bs'" "a < b'" "rest_ok True b' bs'"
      using rest_ok_next [OF ok(2)] 3 by blast
    note pre = pre [unfolded as(1) bs(1) 3(1)]
    from 3 show ?thesis unfolding as(1) bs(1) 3(1)
      by (intro go [unfolded as(1) bs(1) 3(1), OF goes_join(3) [OF pre bs(2) as(2) bs(3)]])
        (auto simp: add_loop.simps [of cap "a' # as'"])
  next
    case 4
    with room show ?thesis
      by (intro add_res_end [OF pre]) (auto simp: add_loop.simps [of cap as])
  qed
qed

lemma add_pass_2:
  assumes pre: "add_pre False True buf a as b bs" and room: "length buf < cap"
    and go: "\<And>p' q' buf' a' as' b' bs'. add_goes False True buf a as b bs p' q' buf' a' as' b' bs' \<Longrightarrow>
      add_loop cap as bs a b (pol False True) buf = add_loop cap as' bs' a' b' (pol p' q') buf' \<Longrightarrow>
      set buf' \<union> {a', b'} \<union> set as' \<union> set bs' \<subseteq> set buf \<union> {a, b} \<union> set as \<union> set bs \<Longrightarrow>
      length buf' + length as' + length bs' \<le> length buf + length as + length bs \<Longrightarrow>
      length as' + length bs' < length as + length bs \<Longrightarrow> add_res cap False True buf a as b bs"
  shows "add_res cap False True buf a as b bs"
proof -
  have ok: "rest_ok False a as" "rest_ok True b bs" using pre by (auto simp: add_pre_def)
  note le = rest_ok_le [OF ok(1)] rest_ok_le [OF ok(2)]
  consider "a < b" "a < UNICODESET_HIGH" | "b < a" "b < UNICODESET_HIGH"
    | "b = a" "a < UNICODESET_HIGH" | "a = UNICODESET_HIGH" "b = UNICODESET_HIGH"
    using le by linarith
  then show ?thesis
  proof cases
    case 1
    obtain a' as' where as: "as = a' # as'" "a < a'" "rest_ok True a' as'"
      using rest_ok_next [OF ok(1) 1(2)] by blast
    from 1 show ?thesis unfolding as(1)
      by (intro go [unfolded as(1), OF goes_join(2) [OF pre [unfolded as(1)] 1(1) as(2,3)]])
        (auto simp: add_loop.simps [of cap "a' # as'"])
  next
    case 2
    obtain b' bs' where bs: "bs = b' # bs'" "rest_ok False b' bs'"
      using rest_ok_next [OF ok(2) 2(2)] by blast
    from 2 room show ?thesis unfolding bs(1)
      by (intro go [unfolded bs(1), OF goes_close(2) [OF pre [unfolded bs(1)] 2 bs(2)]])
        (auto simp: add_loop.simps [of cap _ "b' # bs'"] bs(1))
  next
    case 3
    obtain a' as' where as: "as = a' # as'" "a < a'" "rest_ok True a' as'"
      using rest_ok_next [OF ok(1) 3(2)] by blast
    obtain b' bs' where bs: "bs = b' # bs'" "rest_ok False b' bs'"
      using rest_ok_next [OF ok(2)] 3 by blast
    note pre = pre [unfolded as(1) bs(1) 3(1)]
    from 3 show ?thesis unfolding as(1) bs(1) 3(1)
      by (intro go [unfolded as(1) bs(1) 3(1), OF goes_join(4) [OF pre as(2,3) bs(2)]])
        (auto simp: add_loop.simps [of cap "a' # as'"])
  next
    case 4
    with room show ?thesis
      by (intro add_res_end [OF pre]) (auto simp: add_loop.simps [of cap as])
  qed
qed

lemma add_pass_3:
  assumes pre: "add_pre True True buf a as b bs" and room: "length buf < cap"
    and go: "\<And>p' q' buf' a' as' b' bs'. add_goes True True buf a as b bs p' q' buf' a' as' b' bs' \<Longrightarrow>
      add_loop cap as bs a b (pol True True) buf = add_loop cap as' bs' a' b' (pol p' q') buf' \<Longrightarrow>
      set buf' \<union> {a', b'} \<union> set as' \<union> set bs' \<subseteq> set buf \<union> {a, b} \<union> set as \<union> set bs \<Longrightarrow>
      length buf' + length as' + length bs' \<le> length buf + length as + length bs \<Longrightarrow>
      length as' + length bs' < length as + length bs \<Longrightarrow> add_res cap True True buf a as b bs"
  shows "add_res cap True True buf a as b bs"
proof -
  have ok: "rest_ok True a as" "rest_ok True b bs" using pre by (auto simp: add_pre_def)
  note le = rest_ok_le [OF ok(1)] rest_ok_le [OF ok(2)]
  show ?thesis
  proof (cases "max a b = UNICODESET_HIGH")
    case True
    with room le show ?thesis
      by (intro add_res_end [OF pre]) (auto simp: add_loop.simps [of cap as] max_def split: if_splits)
  next
    case False
    then have lt: "max a b < UNICODESET_HIGH" "a < UNICODESET_HIGH" "b < UNICODESET_HIGH"
      using le by (auto simp: max_def split: if_splits)
    obtain a' as' where as: "as = a' # as'" "rest_ok False a' as'"
      using rest_ok_next [OF ok(1) lt(2)] by blast
    obtain b' bs' where bs: "bs = b' # bs'" "rest_ok False b' bs'"
      using rest_ok_next [OF ok(2) lt(3)] by blast
    note pre = pre [unfolded as(1) bs(1)]
    from lt room show ?thesis unfolding as(1) bs(1)
      by (intro go [unfolded as(1) bs(1), OF goes_close(3) [OF pre lt(1) as(2) bs(2)]])
        (auto simp: add_loop.simps [of cap "a' # as'"] as(1) bs(1) max_def)
  qed
qed

text \<open>The whole loop, with the room it needs in the buffer.\<close>

lemma add_loop_res:
  assumes "add_pre p q buf a as b bs" "length buf + length as + length bs + 1 \<le> cap"
  shows "add_res cap p q buf a as b bs"
  using assms
proof (induction "length as + length bs" arbitrary: p q buf a as b bs rule: less_induct)
  case less
  note pre = less.prems(1)
  have room: "length buf < cap" using less.prems(2) by simp
  have go: "add_res cap p q buf a as b bs"
    if "add_goes p q buf a as b bs p' q' buf' a' as' b' bs'"
      "add_loop cap as bs a b (pol p q) buf = add_loop cap as' bs' a' b' (pol p' q') buf'"
      "set buf' \<union> {a', b'} \<union> set as' \<union> set bs' \<subseteq> set buf \<union> {a, b} \<union> set as \<union> set bs"
      "length buf' + length as' + length bs' \<le> length buf + length as + length bs"
      "length as' + length bs' < length as + length bs"
    for p' q' buf' a' as' b' bs'
  proof (rule add_res_step [OF _ that(1-4)])
    show "add_res cap p' q' buf' a' as' b' bs'"
      using that less.prems(2) by (intro less.hyps) (auto simp: add_goes_def)
  qed
  consider (3) "p = True" "q = True" | (2) "p = False" "q = True"
    | (1) "p = True" "q = False" | (0) "p = False" "q = False" by auto
  then show ?case
  proof cases
    case 3
    show ?thesis unfolding 3 by (rule add_pass_3 [OF pre [unfolded 3] room go [unfolded 3]])
  next
    case 2
    show ?thesis unfolding 2 by (rule add_pass_2 [OF pre [unfolded 2] room go [unfolded 2]])
  next
    case 1
    show ?thesis unfolding 1 by (rule add_pass_1 [OF pre [unfolded 1] room go [unfolded 1]])
  next
    case 0
    show ?thesis unfolding 0 by (rule add_pass_0 [OF pre [unfolded 0] room go [unfolded 0]])
  qed
qed

section \<open>The merge loops as set operations\<close>

lemma ranges_cnt:
  "ssorted xs \<Longrightarrow> c \<in> ranges xs \<longleftrightarrow> odd (cnt xs c) \<and> \<not> (odd (length xs) \<and> last xs \<le> c)"
proof (induction xs rule: ranges.induct)
  case (1 x y xs)
  have z: "cnt xs c = 0" if "c < y" using 1(2) that by (intro cnt_zero) auto
  have e: "xs = [] \<or> last xs \<in> set xs" by (cases xs) auto
  show ?case using 1 z e by (auto split: if_splits)
qed auto

lemma ranges_inv_set: "inv_tail xs \<Longrightarrow> ranges xs = inv_set xs"
proof -
  assume xs: "inv_tail xs"
  have "cnt xs c = length xs" if "UNICODESET_HIGH \<le> c" for c
    using inv_tail_le [OF xs] that by (intro cnt_all) (meson order_trans)
  then have "c \<in> ranges xs \<longleftrightarrow> c \<in> inv_set xs" for c
    using xs by (cases "c < UNICODESET_HIGH") (auto simp: inv_tail_def ranges_cnt inv_set_def)
  then show ?thesis by blast
qed

theorem add_loop_union:
  assumes "inv_list (a # as)" "inv_list (b # bs)" "length as + length bs + 1 \<le> cap"
  shows "\<exists>out. add_loop cap as bs a b 0 [] = Some out \<and> inv_list out \<and>
    inv_set out = inv_set (a # as) \<union> inv_set (b # bs) \<and> length out \<le> length as + length bs + 1"
proof -
  have "add_pre False False [] a as b bs"
    using assms(1,2) by (simp add: add_pre_def rest_ok_def inv_list_def)
  from add_loop_res [OF this, of cap] assms(3) obtain out where
    out: "add_loop cap as bs a b 0 [] = Some out" "inv_tail out"
    "ranges out = ranges (a # as) \<union> ranges (b # bs)"
    "set out \<subseteq> insert UNICODESET_HIGH ({a, b} \<union> set as \<union> set bs)"
    "length out \<le> length as + length bs + 1"
    by (auto simp: add_res_def cover_def)
  have "inv_list out"
    by (rule inv_listI [OF out(2)]) (use out(4) assms(1,2) in \<open>auto simp: inv_list_def\<close>)
  with out assms(1,2) show ?thesis by (auto simp: ranges_inv_set inv_list_def)
qed

text \<open>\<open>retain\<close> with polarity 0 intersects, with polarity 2 it subtracts.\<close>

theorem retain_loop_inter:
  assumes "inv_list (a # as)" "inv_list (b # bs)" "length as + length bs + 1 \<le> cap"
  shows "\<exists>out. retain_loop cap as bs a b (if co then 2 else 0) [] = Some out \<and> inv_list out \<and>
    inv_set out = (if co then inv_set (a # as) - inv_set (b # bs)
                   else inv_set (a # as) \<inter> inv_set (b # bs)) \<and>
    length out \<le> length as + length bs + 1"
proof -
  obtain out where out: "gen_loop (\<and>) cap as bs a b False co [] = Some out"
    "merged (\<and>) False co (a # as) (b # bs) out" "length out \<le> length as + length bs + 1"
    using gen_loop_merged [of a as b bs "[]" cap "(\<and>)" False co] assms by (auto simp: inv_list_def)
  have "retain_loop cap as bs a b (if co then 2 else 0) [] = Some out"
    using out(1) retain_loop_gen [of cap as bs a b False co "[]"] by (cases co) simp_all
  moreover have "inv_set out = (if co then inv_set (a # as) - inv_set (b # bs)
      else inv_set (a # as) \<inter> inv_set (b # bs))"
    unfolding merged_inv_set(2) [OF assms(1,2) out(2)] by (cases co) (auto simp: inv_set_def)
  ultimately show ?thesis using merged_inv_set(1) [OF assms(1,2) out(2)] out(3) by blast
qed

theorem xor_loop_diff:
  assumes "inv_list (a # as)" "inv_list (b # bs)" "length as + length bs + 1 \<le> cap"
  shows "\<exists>out. xor_loop cap as bs a b [] = Some out \<and> inv_list out \<and>
    inv_set out = (inv_set (a # as) - inv_set (b # bs)) \<union> (inv_set (b # bs) - inv_set (a # as)) \<and>
    length out \<le> length as + length bs + 1"
proof -
  obtain out where out: "gen_loop (\<noteq>) cap as bs a b False False [] = Some out"
    "merged (\<noteq>) False False (a # as) (b # bs) out" "length out \<le> length as + length bs + 1"
    using gen_loop_merged [of a as b bs "[]" cap "(\<noteq>)" False False] assms by (auto simp: inv_list_def)
  have "inv_set out = (inv_set (a # as) - inv_set (b # bs)) \<union> (inv_set (b # bs) - inv_set (a # as))"
    unfolding merged_inv_set(2) [OF assms(1,2) out(2)] by (auto simp: inv_set_def)
  then show ?thesis
    using merged_inv_set(1) [OF assms(1,2) out(2)] out(1,3)
      xor_loop_gen [of cap as bs a b "[]" False False] by auto
qed

section \<open>Searching and merging: the results the components rely on\<close>

text \<open>C24: The binary search of \<open>findCodePoint\<close> ends for every \<open>c\<close>, also for one outside
  0..10FFFF: it returns the number of boundaries at or below \<open>c\<close>, capped at the terminator. For
  every \<open>c\<close> below 110000, negative ones included, the parity of the result is membership.\<close>

theorem findCodePoint_terminates:
  assumes "inv_list xs"
  shows "\<exists>i. findCodePoint xs c = Some i \<and> i < length xs \<and>
    i = min (length xs - 1) (length (filter (\<lambda>x. x \<le> c) xs)) \<and>
    (c < UNICODESET_HIGH \<longrightarrow> (odd i \<longleftrightarrow> c \<in> inv_set xs))"
proof -
  have t: "inv_tail xs" "xs \<noteq> []" using inv_listD [OF assms] by auto
  have "c < UNICODESET_HIGH \<Longrightarrow> min (length xs - 1) (cnt xs c) = cnt xs c"
    using findCodePoint_cnt [OF t(1), of c] findCodePoint_legal [OF t(1), of c] by simp
  moreover have "min (length xs - 1) (cnt xs c) < length xs" using t(2) by (cases xs) auto
  ultimately show ?thesis using findCodePoint_cnt [OF t(1), of c]
    by (auto simp: cnt_def [symmetric] inv_set_def)
qed

theorem findCodePoint_terminates_witness:
  "\<exists>i. findCodePoint [65, 91, 97, 123, 1114112] 5000000 = Some i \<and> i = 4 \<and>
     findCodePoint [65, 91, 97, 123, 1114112] 100 = Some 3"
proof -
  have "inv_list [65, 91, 97, 123, 1114112]" by (simp add: inv_list_def inv_tail_def)
  from findCodePoint_terminates [OF this, of 5000000] findCodePoint_terminates [OF this, of 100] show ?thesis
    by (simp add: min_def)
qed

text \<open>C23: The three merge loops of \<open>exclusiveOr\<close>, \<open>add\<close> and \<open>retain\<close> on two terminated
  lists never write more than \<open>len + otherLen - 1\<close> cells, which is within the buffer that was
  reserved, and produce an inversion list of the symmetric difference, the union, the
  intersection (polarity 0) and the difference (polarity 2).\<close>

theorem merge_loops_correct:
  assumes "inv_list (a # as)" "inv_list (b # bs)" "length (a # as) + length (b # bs) \<le> cap"
  shows "(\<exists>out. xor_loop cap as bs a b [] = Some out \<and> inv_list out \<and> length out < cap \<and>
      inv_set out = (inv_set (a # as) - inv_set (b # bs)) \<union> (inv_set (b # bs) - inv_set (a # as))) \<and>
    (\<exists>out. add_loop cap as bs a b 0 [] = Some out \<and> inv_list out \<and> length out < cap \<and>
      inv_set out = inv_set (a # as) \<union> inv_set (b # bs)) \<and>
    (\<exists>out. retain_loop cap as bs a b 0 [] = Some out \<and> inv_list out \<and> length out < cap \<and>
      inv_set out = inv_set (a # as) \<inter> inv_set (b # bs)) \<and>
    (\<exists>out. retain_loop cap as bs a b 2 [] = Some out \<and> inv_list out \<and> length out < cap \<and>
      inv_set out = inv_set (a # as) - inv_set (b # bs))"
proof -
  have cap: "length as + length bs + 1 \<le> cap" using assms(3) by simp
  have lt: "n \<le> length as + length bs + 1 \<Longrightarrow> n < cap" for n using assms(3) by simp
  show ?thesis
    using xor_loop_diff [OF assms(1,2) cap] add_loop_union [OF assms(1,2) cap]
      retain_loop_inter [OF assms(1,2) cap, of False] retain_loop_inter [OF assms(1,2) cap, of True] lt
    by (intro conjI) (force)+
qed

theorem merge_loops_correct_witness:
  "\<exists>out. add_loop 6 [91, 1114112] [123, 1114112] 65 91 0 [] = Some out \<and>
     inv_set out = inv_set [65, 91, 1114112] \<union> inv_set [91, 123, 1114112]"
proof -
  have "inv_list [65, 91, 1114112]" "inv_list [91, 123, 1114112]" by (simp_all add: inv_list_def inv_tail_def)
  from merge_loops_correct [OF this, of 6] show ?thesis by auto
qed

end
