(* ===== verification/BMPSet.thy ===== *)
theory BMPSet
  imports InvList "HOL-Library.Word"
begin

unbundle bit_operations_syntax

text \<open>
  \<open>BMPSet\<close> (bmpset.cpp), the lookup tables of a frozen \<open>UnicodeSet\<close>: one byte per ASCII
  character, one bit per code point below U+0800, two bits per block of 64 BMP code
  points (zero, one or mixed), and the inversion list indexes from which the mixed blocks
  and the supplementary code points are searched.

  The tables are lists of 32-bit words, the bytes 0 and 1 of \<open>asciiBytes\<close> a list of
  booleans. The cursor \<open>listIndex\<close> is the rest of the parent's list.
\<close>

section \<open>The code\<close>

record bmpset =
  bs_asciiBytes :: "bool list"
  bs_table7FF :: "32 word list"
  bs_bmpBlockBits :: "32 word list"
  bs_list4kStarts :: "nat list"
  bs_list :: "int list"

text \<open>\<open>table[i] |= bits\<close> and \<open>table[i] &= bits\<close>\<close>

definition or_at :: "32 word list \<Rightarrow> nat \<Rightarrow> 32 word \<Rightarrow> 32 word list option" where
  "or_at t i bits = do { w \<leftarrow> rd t i; wr t i (w OR bits) }"

definition and_at :: "32 word list \<Rightarrow> nat \<Rightarrow> 32 word \<Rightarrow> 32 word list option" where
  "and_at t i bits = do { w \<leftarrow> rd t i; wr t i (w AND bits) }"

text \<open>A loop \<open>for (i=from; i<limit; ++i) f(table, i)\<close>\<close>

function for_range :: "('a list \<Rightarrow> nat \<Rightarrow> 'a list option) \<Rightarrow> nat \<Rightarrow> nat \<Rightarrow> 'a list \<Rightarrow> 'a list option" where
  "for_range f i limit t =
     (if i < limit then do { t \<leftarrow> f t i; for_range f (i + 1) limit t } else Some t)"
  by pat_completeness auto
termination
  by (relation "measure (\<lambda>(f, i, limit, t). limit - i)") auto

declare for_range.simps [simp del]

definition or_range :: "32 word list \<Rightarrow> nat \<Rightarrow> nat \<Rightarrow> 32 word \<Rightarrow> 32 word list option" where
  "or_range t trail limit bits = for_range (\<lambda>t i. or_at t i bits) trail limit t"

definition set32x64Bits :: "32 word list \<Rightarrow> nat \<Rightarrow> nat \<Rightarrow> 32 word list option" where
  "set32x64Bits table start limit =
     (let lead = start div 64; trail = start mod 64;
          bits = push_bit lead 1
      in if start + 1 = limit then or_at table trail bits
      else let limitLead = limit div 64; limitTrail = limit mod 64
      in if lead = limitLead then or_range table trail limitTrail bits
      else do {
        table \<leftarrow> (if trail > 0 then or_range table trail 64 bits else Some table);
        let lead = (if trail > 0 then lead + 1 else lead);
        table \<leftarrow> (if lead < limitLead
          then let bits = NOT (push_bit lead 1 - 1);
                   bits = (if limitLead < 32 then bits AND (push_bit limitLead 1 - 1) else bits)
               in or_range table 0 64 bits
          else Some table);
        let bits = push_bit (if limitLead = 32 then limitLead - 1 else limitLead) 1;
        or_range table 0 limitTrail bits })"

text \<open>\<open>start=list[listIndex++]; if(listIndex<listLength) limit=list[listIndex++]; else limit=0x110000;\<close>\<close>

fun next_range :: "int list \<Rightarrow> (int \<times> int \<times> int list) option" where
  "next_range [] = None"
| "next_range [start] = Some (start, UNICODESET_HIGH, [])"
| "next_range (start # limit # rest) = Some (start, limit, rest)"

text \<open>\<open>do { asciiBytes[start++]=1; } while(start<limit && start<0x80);\<close>\<close>

function ascii_fill :: "bool list \<Rightarrow> int \<Rightarrow> int \<Rightarrow> (bool list \<times> int) option" where
  "ascii_fill bytes start limit =
     (if start < 0 then None
      else do { bytes \<leftarrow> wr bytes (nat start) True;
           if start + 1 < limit \<and> start + 1 < 128 then ascii_fill bytes (start + 1) limit
           else Some (bytes, start + 1) })"
  by pat_completeness auto
termination
  by (relation "measure (\<lambda>(bytes, start, limit). nat (limit - start))") auto

declare ascii_fill.simps [simp del]

lemma next_range_shorter: "next_range rest = Some (s, l, r) \<Longrightarrow> length r < length rest"
  by (cases rest rule: next_range.cases) auto

function ascii_loop :: "bool list \<Rightarrow> int list \<Rightarrow> (bool list \<times> int \<times> int \<times> int list) option" where
  "ascii_loop bytes rest =
     (case next_range rest of
        None \<Rightarrow> None
      | Some (start, limit, rest') \<Rightarrow>
          if start \<ge> 128 then Some (bytes, start, limit, rest')
          else (case ascii_fill bytes start limit of
             None \<Rightarrow> None
           | Some (bytes, start) \<Rightarrow>
               if limit \<le> 128 then ascii_loop bytes rest' else Some (bytes, start, limit, rest')))"
  by pat_completeness auto
termination
  by (relation "measure (\<lambda>(bytes, rest). length rest)") (auto dest: next_range_shorter)

function t7FF_loop ::
  "32 word list \<Rightarrow> int \<Rightarrow> int \<Rightarrow> int list \<Rightarrow> (32 word list \<times> int \<times> int \<times> int list) option" where
  "t7FF_loop table start limit rest =
     (if start < 2048
      then case set32x64Bits table (nat start) (nat (if limit \<le> 2048 then limit else 2048)) of
             None \<Rightarrow> None
           | Some table \<Rightarrow>
               if limit > 2048 then Some (table, 2048, limit, rest)
               else (case next_range rest of
                  None \<Rightarrow> None
                | Some (start, limit, rest') \<Rightarrow> t7FF_loop table start limit rest')
      else Some (table, start, limit, rest))"
  by pat_completeness auto
termination
  by (relation "measure (\<lambda>(table, start, limit, rest). length rest)") (auto dest: next_range_shorter)

text \<open>
  One range of the \<open>bmpBlockBits\<close> loop, after \<open>start<minStart\<close> and \<open>limit>0x10000\<close> were
  handled: it gives the table, the possibly rounded \<open>limit\<close> and \<open>minStart\<close>.
  \<open>mixed\<close> is \<open>bmpBlockBits[x&0x3f]|=0x10001<<(x>>6)\<close> for the block number \<open>x\<close>.
\<close>

definition mixed :: "32 word list \<Rightarrow> nat \<Rightarrow> 32 word list option" where
  "mixed t x = or_at t (x mod 64) (push_bit (x div 64) 0x10001)"

definition block_head :: "32 word list \<Rightarrow> nat \<Rightarrow> nat \<Rightarrow> (32 word list \<times> nat \<times> nat) option" where
  "block_head t start minStart =
     (if start mod 64 \<noteq> 0
      then do { t \<leftarrow> mixed t (start div 64);
                let start = (start div 64 + 1) * 64;
                Some (t, start, start) }
      else Some (t, start, minStart))"

definition block_body :: "32 word list \<Rightarrow> nat \<Rightarrow> nat \<Rightarrow> 32 word list option" where
  "block_body t start limit =
     (if start < limit div 64 * 64 then set32x64Bits t (start div 64) (limit div 64) else Some t)"

definition block_tail :: "32 word list \<Rightarrow> nat \<Rightarrow> nat \<Rightarrow> (32 word list \<times> nat \<times> nat) option" where
  "block_tail t limit minStart =
     (if limit mod 64 \<noteq> 0
      then do { t \<leftarrow> mixed t (limit div 64);
                let limit = (limit div 64 + 1) * 64;
                Some (t, limit, limit) }
      else Some (t, limit, minStart))"

definition block_range ::
  "32 word list \<Rightarrow> nat \<Rightarrow> nat \<Rightarrow> nat \<Rightarrow> (32 word list \<times> nat \<times> nat) option" where
  "block_range t start limit minStart =
     (if start < limit
      then do {
        (t, start, minStart) \<leftarrow> block_head t start minStart;
        if start < limit
        then do { t \<leftarrow> block_body t start limit; block_tail t limit minStart }
        else Some (t, limit, minStart) }
      else Some (t, limit, minStart))"

function block_loop ::
  "32 word list \<Rightarrow> int \<Rightarrow> int \<Rightarrow> nat \<Rightarrow> int list \<Rightarrow> 32 word list option" where
  "block_loop t start limit minStart rest =
     (if start < 65536
      then case block_range t (max (nat start) minStart) (nat (min limit 65536)) minStart of
             None \<Rightarrow> None
           | Some (t, limit, minStart) \<Rightarrow>
               if limit = 65536 then Some t
               else (case next_range rest of
                  None \<Rightarrow> None
                | Some (start, limit, rest') \<Rightarrow> block_loop t start limit minStart rest')
      else Some t)"
  by pat_completeness auto
termination
  by (relation "measure (\<lambda>(t, start, limit, minStart, rest). length rest)")
    (auto dest: next_range_shorter)

declare ascii_loop.simps [simp del] t7FF_loop.simps [simp del] block_loop.simps [simp del]

definition initBits :: "bmpset \<Rightarrow> bmpset option" where
  "initBits b =
     do { (bytes, start, limit, rest) \<leftarrow> ascii_loop (bs_asciiBytes b) (bs_list b);
          (table, start, limit, rest) \<leftarrow> t7FF_loop (bs_table7FF b) start limit rest;
          blocks \<leftarrow> block_loop (bs_bmpBlockBits b) start limit 2048 rest;
          Some (b\<lparr>bs_asciiBytes := bytes, bs_table7FF := table, bs_bmpBlockBits := blocks\<rparr>) }"

definition containsSlow :: "bmpset \<Rightarrow> int \<Rightarrow> nat \<Rightarrow> nat \<Rightarrow> bool option" where
  "containsSlow b c lo hi = do { i \<leftarrow> findCodePoint_range (bs_list b) c lo hi; Some (odd i) }"

definition overrideIllegal :: "bmpset \<Rightarrow> bmpset option" where
  "overrideIllegal b =
     do { lo \<leftarrow> rd (bs_list4kStarts b) 15; hi \<leftarrow> rd (bs_list4kStarts b) 16;
          fffd \<leftarrow> containsSlow b 65533 lo hi;
          let mask = NOT (push_bit 13 0x10001);
          if fffd
          then do {
            bytes \<leftarrow> for_range (\<lambda>t i. wr t i True) 128 192 (bs_asciiBytes b);
            table \<leftarrow> or_range (bs_table7FF b) 0 64 3;
            blocks \<leftarrow> or_range (bs_bmpBlockBits b) 0 32 1;
            blocks \<leftarrow> for_range (\<lambda>t i. do { w \<leftarrow> rd t i; wr t i ((w AND mask) OR push_bit 13 1) })
                        32 64 blocks;
            Some (b\<lparr>bs_asciiBytes := bytes, bs_table7FF := table, bs_bmpBlockBits := blocks\<rparr>) }
          else do {
            blocks \<leftarrow> for_range (\<lambda>t i. and_at t i mask) 32 64 (bs_bmpBlockBits b);
            Some (b\<lparr>bs_bmpBlockBits := blocks\<rparr>) } }"

text \<open>The loop that fills \<open>list4kStarts\<close>; the array is the list of its filled cells.\<close>

function list4k_loop :: "int list \<Rightarrow> nat \<Rightarrow> nat list \<Rightarrow> nat list option" where
  "list4k_loop xs i starts =
     (if i \<le> 16
      then do { lo \<leftarrow> rd starts (i - 1);
                p \<leftarrow> findCodePoint_range xs (int i * 4096) lo (length xs - 1);
                list4k_loop xs (i + 1) (starts @ [p]) }
      else Some starts)"
  by pat_completeness auto
termination
  by (relation "measure (\<lambda>(xs, i, starts). 17 - i)") auto

declare list4k_loop.simps [simp del]

definition bmpset_new :: "int list \<Rightarrow> bmpset option" where
  "bmpset_new xs =
     do { p \<leftarrow> findCodePoint_range xs 2048 0 (length xs - 1);
          starts \<leftarrow> list4k_loop xs 1 [p];
          b \<leftarrow> initBits \<lparr>bs_asciiBytes = replicate 192 False, bs_table7FF = replicate 64 0,
                 bs_bmpBlockBits = replicate 64 0, bs_list4kStarts = starts @ [length xs - 1],
                 bs_list = xs\<rparr>;
          overrideIllegal b }"

definition bmpset_copy :: "bmpset \<Rightarrow> int list \<Rightarrow> bmpset" where
  "bmpset_copy b xs = b\<lparr>bs_list := xs\<rparr>"

text \<open>\<open>(uint32_t)c\<close>\<close>

definition u32 :: "int \<Rightarrow> int" where
  "u32 c = c mod 4294967296"

text \<open>\<open>(bmpBlockBits[t1] >> lead) & 0x10001\<close>\<close>

definition twoBits :: "bmpset \<Rightarrow> nat \<Rightarrow> nat \<Rightarrow> 32 word option" where
  "twoBits b t1 lead = do { w \<leftarrow> rd (bs_bmpBlockBits b) t1; Some (drop_bit lead w AND 0x10001) }"

definition slow_between :: "bmpset \<Rightarrow> int \<Rightarrow> nat \<Rightarrow> nat \<Rightarrow> bool option" where
  "slow_between b c i j =
     do { lo \<leftarrow> rd (bs_list4kStarts b) i; hi \<leftarrow> rd (bs_list4kStarts b) j; containsSlow b c lo hi }"

definition bit7FF :: "bmpset \<Rightarrow> int \<Rightarrow> bool option" where
  "bit7FF b c = do { w \<leftarrow> rd (bs_table7FF b) (nat (c mod 64));
                     Some (w AND push_bit (nat (c div 64)) 1 \<noteq> 0) }"

definition block_contains :: "bmpset \<Rightarrow> int \<Rightarrow> bool option" where
  "block_contains b c =
     do { let lead = nat (c div 4096);
          tb \<leftarrow> twoBits b (nat (c div 64 mod 64)) lead;
          if tb \<le> 1 then Some (tb \<noteq> 0) else slow_between b c lead (lead + 1) }"

definition bmp_contains :: "bmpset \<Rightarrow> int \<Rightarrow> bool option" where
  "bmp_contains b c =
     (if u32 c \<le> 127 then rd (bs_asciiBytes b) (nat c)
      else if u32 c \<le> 2047 then bit7FF b c
      else if u32 c < 55296 \<or> (c \<ge> 57344 \<and> c \<le> 65535) then block_contains b c
      else if u32 c \<le> 1114111 then slow_between b c 13 17
      else Some False)"

section \<open>The bit rectangles\<close>

lemma for_range_pointwise:
  assumes "i \<le> limit" "limit \<le> length t"
    "\<And>t k. i \<le> k \<Longrightarrow> k < limit \<Longrightarrow> k < length t \<Longrightarrow> f t k = Some (t[k := g (t ! k)])"
  shows "\<exists>t'. for_range f i limit t = Some t' \<and> length t' = length t \<and>
    (\<forall>k < length t. t' ! k = (if i \<le> k \<and> k < limit then g (t ! k) else t ! k))"
  using assms
proof (induction "limit - i" arbitrary: i t)
  case 0
  then show ?case by (auto simp: for_range.simps)
next
  case (Suc n)
  then have i: "i < limit" "i < length t" "n = limit - (i + 1)" by simp_all
  let ?t = "t[i := g (t ! i)]"
  obtain t' where t': "for_range f (i + 1) limit ?t = Some t'" "length t' = length ?t"
    "\<forall>k < length ?t. t' ! k = (if i + 1 \<le> k \<and> k < limit then g (?t ! k) else ?t ! k)"
    using Suc.hyps(1) [of "i + 1" ?t, OF i(3) _ _ Suc.prems(3)] Suc.prems(1,2) i(1,2) by auto
  have "for_range f i limit t = Some t'"
    using t'(1) Suc.prems(3) [of i t] i by (simp add: for_range.simps [of f i limit t])
  moreover have "t' ! k = (if i \<le> k \<and> k < limit then g (t ! k) else t ! k)" if "k < length t" for k
    using t'(3) that i by (cases "k = i") auto
  ultimately show ?case using t'(2) by auto
qed

text \<open>\<open>tbit t r c\<close>: bit \<open>r\<close> (the row, a lead value) of the word of column \<open>c\<close>.\<close>

definition tbit :: "32 word list \<Rightarrow> nat \<Rightarrow> nat \<Rightarrow> bool" where
  "tbit t r c \<longleftrightarrow> bit (t ! c) r"

lemma or_at_spec:
  assumes "i < length t"
  shows "\<exists>t'. or_at t i bits = Some t' \<and> length t' = length t \<and>
    (\<forall>c < length t. \<forall>r < 32. tbit t' r c \<longleftrightarrow> tbit t r c \<or> (c = i \<and> bit bits r))"
  using assms by (auto simp: or_at_def tbit_def nth_list_update bit_or_iff)

lemma or_range_spec:
  assumes "i \<le> limit" "limit \<le> length t"
  shows "\<exists>t'. or_range t i limit bits = Some t' \<and> length t' = length t \<and>
    (\<forall>c < length t. \<forall>r < 32. tbit t' r c \<longleftrightarrow> tbit t r c \<or> (i \<le> c \<and> c < limit \<and> bit bits r))"
proof -
  have "or_at t k bits = Some (t[k := (t ! k) OR bits])" if "k < length t" for t k
    using that by (simp add: or_at_def)
  from for_range_pointwise [of i limit t "\<lambda>t i. or_at t i bits" "\<lambda>w. w OR bits", OF assms this]
  obtain t' where "or_range t i limit bits = Some t'" "length t' = length t"
    "\<forall>k < length t. t' ! k = (if i \<le> k \<and> k < limit then (t ! k) OR bits else t ! k)"
    by (auto simp: or_range_def)
  then show ?thesis by (auto simp: tbit_def bit_or_iff)
qed

lemma bit_one_row: "n < 32 \<Longrightarrow> bit (push_bit lead 1 :: 32 word) n \<longleftrightarrow> n = lead"
  by (auto simp: bit_exp_iff)

lemma bit_below_row: "n < 32 \<Longrightarrow> bit (push_bit lead 1 - 1 :: 32 word) n \<longleftrightarrow> n < lead"
  by (simp add: bit_mask_iff flip: mask_eq_exp_minus_1)

lemma bit_rows_from:
  "n < 32 \<Longrightarrow> bit (NOT (push_bit lead 1 - 1) :: 32 word) n \<longleftrightarrow> lead \<le> n"
  by (simp only: bit_not_iff bit_below_row not_less) simp

lemma cell_less:
  assumes "c < 64"
  shows "r * 64 + c < (n::nat) \<longleftrightarrow> r < n div 64 \<or> (r = n div 64 \<and> c < n mod 64)"
proof -
  define q m where "q = n div 64" and "m = n mod 64"
  have "n = q * 64 + m" "m < 64" by (simp_all add: q_def m_def)
  with assms show ?thesis unfolding q_def [symmetric] m_def [symmetric] by arith
qed

lemma cell_le:
  "c < 64 \<Longrightarrow> (n::nat) \<le> r * 64 + c \<longleftrightarrow> n div 64 < r \<or> (n div 64 = r \<and> n mod 64 \<le> c)"
  using cell_less [of c r n] by auto

lemma cell_eq:
  assumes "c < 64"
  shows "(n::nat) \<le> r * 64 + c \<and> r * 64 + c < n + 1 \<longleftrightarrow> c = n mod 64 \<and> r = n div 64"
proof -
  have "n \<le> r * 64 + c \<and> r * 64 + c < n + 1 \<longleftrightarrow> n = r * 64 + c" by auto
  also have "\<dots> \<longleftrightarrow> c = n mod 64 \<and> r = n div 64"
    using assms div_mult_mod_eq [of n 64] by auto
  finally show ?thesis .
qed

text \<open>The rows that the middle rectangle sets.\<close>

definition middle_bits :: "nat \<Rightarrow> nat \<Rightarrow> 32 word" where
  "middle_bits lead limitLead =
     (let bits = NOT (push_bit lead 1 - 1)
      in if limitLead < 32 then bits AND (push_bit limitLead 1 - 1) else bits)"

lemma bit_middle: "n < 32 \<Longrightarrow> bit (middle_bits lead limitLead) n \<longleftrightarrow> lead \<le> n \<and> n < limitLead"
  by (auto simp only: middle_bits_def Let_def bit_and_iff bit_rows_from bit_below_row split: if_splits)

lemma set32x64Bits_spec:
  assumes "length t = 64" "start < limit" "limit \<le> 2048"
  shows "\<exists>t'. set32x64Bits t start limit = Some t' \<and> length t' = 64 \<and>
    (\<forall>r < 32. \<forall>c < 64. tbit t' r c \<longleftrightarrow> tbit t r c \<or> (start \<le> r * 64 + c \<and> r * 64 + c < limit))"
proof -
  let ?lead = "start div 64" and ?trail = "start mod 64"
  let ?limitLead = "limit div 64" and ?limitTrail = "limit mod 64"
  let ?bits = "push_bit ?lead 1 :: 32 word"
  consider "start + 1 = limit" | "start + 1 \<noteq> limit" "?lead = ?limitLead"
    | "start + 1 \<noteq> limit" "?lead \<noteq> ?limitLead" by blast
  then show ?thesis
  proof cases
    case 1
    obtain t' where t': "or_at t ?trail ?bits = Some t'" "length t' = length t"
      "\<forall>c < length t. \<forall>r < 32. tbit t' r c \<longleftrightarrow> tbit t r c \<or> (c = ?trail \<and> bit ?bits r)"
      using or_at_spec [of ?trail t ?bits] assms(1) by auto
    have "start \<le> r * 64 + c \<and> r * 64 + c < limit \<longleftrightarrow> c = ?trail \<and> r = ?lead" if "c < 64" for r c
      using cell_eq [OF that, of start r] 1 by simp
    with 1 t' assms(1) show ?thesis
      by (simp add: set32x64Bits_def Let_def bit_one_row del: push_bit_of_1)
  next
    case 2
    have "?trail \<le> ?limitTrail"
      using 2 assms(2) div_mult_mod_eq [of start 64] div_mult_mod_eq [of limit 64] by linarith
    then obtain t' where t': "or_range t ?trail ?limitTrail ?bits = Some t'" "length t' = length t"
      "\<forall>c < length t. \<forall>r < 32. tbit t' r c \<longleftrightarrow>
         tbit t r c \<or> (?trail \<le> c \<and> c < ?limitTrail \<and> bit ?bits r)"
      using or_range_spec [of ?trail ?limitTrail t ?bits] assms(1) by auto
    have "start \<le> r * 64 + c \<and> r * 64 + c < limit \<longleftrightarrow> ?trail \<le> c \<and> c < ?limitTrail \<and> r = ?lead"
      if "c < 64" for r c
      using 2 that by (auto simp: cell_le cell_less)
    with 2 t' assms(1) show ?thesis
      by (simp add: set32x64Bits_def Let_def bit_one_row del: push_bit_of_1)
  next
    case 3
    then have lt: "?lead < ?limitLead" using assms(2) by (meson div_le_mono le_neq_implies_less less_imp_le)
    define lead2 where "lead2 = (if ?trail > 0 then ?lead + 1 else ?lead)"
    let ?last = "if ?limitLead = 32 then ?limitLead - 1 else ?limitLead"
    obtain t1 where t1: "(if ?trail > 0 then or_range t ?trail 64 ?bits else Some t) = Some t1"
      "length t1 = 64" "\<forall>c < 64. \<forall>r < 32. tbit t1 r c \<longleftrightarrow>
         tbit t r c \<or> (?trail > 0 \<and> ?trail \<le> c \<and> r = ?lead)"
      using or_range_spec [of ?trail 64 t ?bits] assms(1)
      by (cases "?trail > 0") (auto simp: bit_one_row simp del: push_bit_of_1)
    obtain t2 where t2: "(if lead2 < ?limitLead
        then or_range t1 0 64 (middle_bits lead2 ?limitLead) else Some t1) = Some t2"
      "length t2 = 64" "\<forall>c < 64. \<forall>r < 32. tbit t2 r c \<longleftrightarrow>
         tbit t1 r c \<or> (lead2 \<le> r \<and> r < ?limitLead)"
      using or_range_spec [of 0 64 t1 "middle_bits lead2 ?limitLead"] t1(2)
      by (cases "lead2 < ?limitLead") (fastforce simp: bit_middle)+
    obtain t3 where t3: "or_range t2 0 ?limitTrail (push_bit ?last 1) = Some t3"
      "length t3 = 64" "\<forall>c < 64. \<forall>r < 32. tbit t3 r c \<longleftrightarrow>
         tbit t2 r c \<or> (c < ?limitTrail \<and> r = ?last)"
      using or_range_spec [of 0 ?limitTrail t2 "push_bit ?last 1"] t2(2)
      by (auto simp: bit_one_row simp del: push_bit_of_1)
    have "set32x64Bits t start limit = Some t3"
      using 3 t1(1) t2(1) t3(1) unfolding set32x64Bits_def Let_def middle_bits_def lead2_def by simp
    moreover have "tbit t3 r c \<longleftrightarrow> tbit t r c \<or> (start \<le> r * 64 + c \<and> r * 64 + c < limit)"
      if "r < 32" "c < 64" for r c
    proof -
      have "?limitLead = 32 \<Longrightarrow> ?limitTrail = 0"
        using assms(3) div_mult_mod_eq [of limit 64] by linarith
      then have "tbit t3 r c \<longleftrightarrow> tbit t r c \<or> (?trail > 0 \<and> ?trail \<le> c \<and> r = ?lead) \<or>
          (lead2 \<le> r \<and> r < ?limitLead) \<or> (c < ?limitTrail \<and> r = ?limitLead)"
        using t1(3) t2(3) t3(3) that by auto
      with lt show ?thesis
        by (cases "?trail = 0") (auto simp: cell_le [OF that(2)] cell_less [OF that(2)] lead2_def)
    qed
    ultimately show ?thesis using t3(2) by blast
  qed
qed

section \<open>Reading the ranges\<close>

definition tail_ok :: "int \<Rightarrow> int list \<Rightarrow> bool" where
  "tail_ok limit rest \<longleftrightarrow>
     (if limit = UNICODESET_HIGH then rest = []
      else limit < UNICODESET_HIGH \<and> inv_tail rest \<and> (\<forall>x \<in> set rest. limit < x))"

text \<open>The range in hand and the ranges still to be read.\<close>

definition in_hand :: "int \<Rightarrow> int \<Rightarrow> int list \<Rightarrow> bool" where
  "in_hand start limit rest \<longleftrightarrow>
     0 \<le> start \<and> (start < limit \<or> start = UNICODESET_HIGH) \<and> start \<le> limit \<and> tail_ok limit rest"

lemma in_handD:
  assumes "in_hand start limit rest"
  shows "0 \<le> start" "start < limit \<or> start = UNICODESET_HIGH" "start \<le> limit"
    "limit \<le> UNICODESET_HIGH" "x \<in> set rest \<Longrightarrow> limit < x"
    "limit < UNICODESET_HIGH \<Longrightarrow> inv_tail rest" "limit = UNICODESET_HIGH \<Longrightarrow> rest = []"
  using assms by (auto simp: in_hand_def tail_ok_def split: if_splits)

lemma ranges_bounds: "x \<in> ranges xs \<Longrightarrow> (\<And>y. y \<in> set xs \<Longrightarrow> m \<le> y) \<Longrightarrow> m \<le> x"
  by (induction xs rule: ranges.induct) (auto intro: order_trans)

lemma ranges_gt: "x \<in> ranges xs \<Longrightarrow> (\<And>y. y \<in> set xs \<Longrightarrow> m < y) \<Longrightarrow> m < x"
  by (induction xs rule: ranges.induct) (auto intro: less_le_trans)

lemma next_range_spec:
  assumes "inv_tail xs" "\<And>x. x \<in> set xs \<Longrightarrow> m \<le> x" "0 \<le> m"
  shows "\<exists>s l r. next_range xs = Some (s, l, r) \<and> m \<le> s \<and> in_hand s l r \<and>
    {s..<l} \<union> ranges r = ranges xs \<and> length r < length xs"
proof (cases xs rule: next_range.cases)
  case (2 s)
  then have "s = UNICODESET_HIGH" using assms(1) by (simp add: inv_tail_def)
  moreover have "m \<le> s" using assms(2) [of s] 2 by simp
  ultimately show ?thesis using 2 assms(3) by (auto simp: in_hand_def tail_ok_def)
next
  case (3 s l r)
  have l: "l \<le> UNICODESET_HIGH" "s < l" "\<forall>x \<in> set r. l < x"
    using inv_tail_le [OF assms(1)] assms(1) 3 by (auto simp: inv_tail_def)
  have lr: "inv_tail (l # r)" using inv_tail_Cons(4) [of s "l # r"] assms(1) 3 l(1,2) by simp
  have "tail_ok l r"
    using inv_tail_Cons(3,4) [OF lr] l(1,3) by (cases "l = UNICODESET_HIGH") (simp_all add: tail_ok_def)
  moreover have "m \<le> s" using assms(2) [of s] 3 by simp
  ultimately show ?thesis using 3 l assms(3) by (simp add: in_hand_def)
qed (use assms in \<open>simp add: inv_tail_def\<close>)

lemma ascii_fill_spec:
  assumes "length bytes = 192" "0 \<le> start" "start < 128" "start < limit"
  shows "\<exists>bytes'. ascii_fill bytes start limit = Some (bytes', min limit 128) \<and> length bytes' = 192 \<and>
    (\<forall>k < 192. bytes' ! k \<longleftrightarrow> bytes ! k \<or> (start \<le> int k \<and> int k < min limit 128))"
  using assms
proof (induction "nat (128 - start)" arbitrary: bytes start)
  case (Suc n)
  have n: "n = nat (128 - (start + 1))" using Suc.hyps(2) by simp
  let ?bytes = "bytes[nat start := True]"
  have w: "wr bytes (nat start) True = Some ?bytes" using Suc.prems by simp
  show ?case
  proof (cases "start + 1 < limit \<and> start + 1 < 128")
    case True
    then obtain bytes' where b: "ascii_fill ?bytes (start + 1) limit = Some (bytes', min limit 128)"
      "length bytes' = 192"
      "\<forall>k < 192. bytes' ! k \<longleftrightarrow> ?bytes ! k \<or> (start + 1 \<le> int k \<and> int k < min limit 128)"
      using Suc.hyps(1) [of "start + 1" ?bytes, OF n] Suc.prems by auto
    have "bytes' ! k \<longleftrightarrow> bytes ! k \<or> (start \<le> int k \<and> int k < min limit 128)" if "k < 192" for k
      using b(3) that Suc.prems True by (cases "k = nat start") auto
    with b(1,2) True w Suc.prems show ?thesis by (auto simp: ascii_fill.simps [of bytes start])
  next
    case False
    then have e: "min limit 128 = start + 1" using Suc.prems by auto
    have "?bytes ! k \<longleftrightarrow> bytes ! k \<or> (start \<le> int k \<and> int k < start + 1)" if "k < 192" for k
      using that Suc.prems by (cases "k = nat start") auto
    with False w Suc.prems e show ?thesis by (auto simp: ascii_fill.simps [of bytes start])
  qed
qed simp

lemma ascii_loop_spec:
  assumes "length bytes = 192" "inv_tail rest" "\<And>x. x \<in> set rest \<Longrightarrow> 0 \<le> x"
  shows "\<exists>bytes' s l r. ascii_loop bytes rest = Some (bytes', s, l, r) \<and> length bytes' = 192 \<and>
    in_hand s l r \<and> 128 \<le> s \<and> ({s..<l} \<union> ranges r) \<inter> {128..} = ranges rest \<inter> {128..} \<and>
    (\<forall>k < 192. bytes' ! k \<longleftrightarrow> bytes ! k \<or> (k < 128 \<and> int k \<in> ranges rest))"
  using assms
proof (induction "length rest" arbitrary: bytes rest rule: less_induct)
  case less
  obtain s l r where n: "next_range rest = Some (s, l, r)" "0 \<le> s" "in_hand s l r"
    "{s..<l} \<union> ranges r = ranges rest" "length r < length rest"
    using next_range_spec [OF less.prems(2), of 0] less.prems(3) by auto
  note h = in_handD [OF n(3)]
  have r: "l < x" if "x \<in> ranges r" for x using ranges_gt [OF that] h(5) by blast
  show ?case
  proof (cases "s \<ge> 128")
    case True
    then have "int k \<notin> {s..<l} \<union> ranges r" if "k < 128" for k
      using r [of "int k"] h(3) that by auto
    then have "int k \<notin> ranges rest" if "k < 128" for k using that n(4) by blast
    with True n less.prems show ?thesis by (auto simp: ascii_loop.simps [of bytes rest])
  next
    case False
    then obtain bytes' where b: "ascii_fill bytes s l = Some (bytes', min l 128)" "length bytes' = 192"
      "\<forall>k < 192. bytes' ! k \<longleftrightarrow> bytes ! k \<or> (s \<le> int k \<and> int k < min l 128)"
      using ascii_fill_spec [of bytes s l] less.prems(1) n(2) h(2) by auto
    show ?thesis
    proof (cases "l \<le> 128")
      case True
      then have "inv_tail r" using h(6) by simp
      moreover have "0 \<le> x" if "x \<in> set r" for x using h(5) [OF that] h(1,3) by simp
      ultimately obtain bytes2 s2 l2 r2 where c: "ascii_loop bytes' r = Some (bytes2, s2, l2, r2)"
        "length bytes2 = 192" "in_hand s2 l2 r2" "128 \<le> s2"
        "({s2..<l2} \<union> ranges r2) \<inter> {128..} = ranges r \<inter> {128..}"
        "\<forall>k < 192. bytes2 ! k \<longleftrightarrow> bytes' ! k \<or> (k < 128 \<and> int k \<in> ranges r)"
        using less.hyps [OF n(5), of bytes'] b(2) by blast
      have "ascii_loop bytes rest = Some (bytes2, s2, l2, r2)"
        using False True n(1) b(1) c(1) by (simp add: ascii_loop.simps [of bytes rest])
      moreover have "ranges r \<inter> {128..} = ranges rest \<inter> {128..}" unfolding n(4) [symmetric] using True by auto
      moreover have "bytes2 ! k \<longleftrightarrow> bytes ! k \<or> (k < 128 \<and> int k \<in> ranges rest)" if "k < 192" for k
        using c(6) b(3) that True n(4) by auto
      ultimately show ?thesis using c(2-5) by blast
    next
      case l: False
      then have "ascii_loop bytes rest = Some (bytes', 128, l, r)"
        using False n(1) b(1) by (simp add: ascii_loop.simps [of bytes rest] min_def)
      moreover have "in_hand 128 l r" using n(3) l by (auto simp: in_hand_def)
      moreover have "bytes' ! k \<longleftrightarrow> bytes ! k \<or> (k < 128 \<and> int k \<in> ranges rest)" if "k < 192" for k
        using b(3) that l r [of "int k"] unfolding n(4) [symmetric] by auto
      moreover have "({128..<l} \<union> ranges r) \<inter> {128..} = ranges rest \<inter> {128..}"
        unfolding n(4) [symmetric] using False by auto
      ultimately show ?thesis using b(2) by blast
    qed
  qed
qed

lemma t7FF_loop_spec:
  assumes "length t = 64" "in_hand s l r"
  shows "\<exists>t' s' l' r'. t7FF_loop t s l r = Some (t', s', l', r') \<and> length t' = 64 \<and>
    in_hand s' l' r' \<and> 2048 \<le> s' \<and>
    ({s'..<l'} \<union> ranges r') \<inter> {2048..} = ({s..<l} \<union> ranges r) \<inter> {2048..} \<and>
    (\<forall>row < 32. \<forall>c < 64. tbit t' row c \<longleftrightarrow> tbit t row c \<or> int (row * 64 + c) \<in> {s..<l} \<union> ranges r)"
  using assms
proof (induction "length r" arbitrary: t s l r rule: less_induct)
  case less
  note h = in_handD [OF less.prems(2)]
  have gt: "l < x" if "x \<in> ranges r" for x using ranges_gt [OF that] h(5) by blast
  show ?case
  proof (cases "s < 2048")
    case False
    have "int (row * 64 + c) \<notin> {s..<l} \<union> ranges r" if "row < 32" "c < 64" for row c
      using that False gt [of "int (row * 64 + c)"] h(3) by auto
    with False less.prems show ?thesis by (auto simp: t7FF_loop.simps [of t s l r])
  next
    case True
    let ?l = "if l \<le> 2048 then l else 2048"
    have sl: "nat s < nat ?l" "nat ?l \<le> 2048" using h(1,2) True by auto
    obtain t' where t': "set32x64Bits t (nat s) (nat ?l) = Some t'" "length t' = 64"
      "\<forall>row < 32. \<forall>c < 64. tbit t' row c \<longleftrightarrow>
         tbit t row c \<or> (nat s \<le> row * 64 + c \<and> row * 64 + c < nat ?l)"
      using set32x64Bits_spec [of t "nat s" "nat ?l", OF less.prems(1) sl] by blast
    show ?thesis
    proof (cases "l \<le> 2048")
      case l: False
      have "tbit t' row c \<longleftrightarrow> tbit t row c \<or> int (row * 64 + c) \<in> {s..<l} \<union> ranges r"
        if "row < 32" "c < 64" for row c
        using t'(3) that l h(1) gt [of "int (row * 64 + c)"] by auto
      with l True t'(1,2) less.prems(2) show ?thesis
        by (auto simp: t7FF_loop.simps [of t s l r] in_hand_def)
    next
      case l: True
      then have "inv_tail r" using h(6) by simp
      moreover have "l \<le> x" if "x \<in> set r" for x using h(5) [OF that] by simp
      ultimately obtain s1 l1 r1 where n: "next_range r = Some (s1, l1, r1)" "l \<le> s1"
        "in_hand s1 l1 r1" "{s1..<l1} \<union> ranges r1 = ranges r" "length r1 < length r"
        using next_range_spec [of r l] h(1,3) by auto
      obtain t2 s2 l2 r2 where c: "t7FF_loop t' s1 l1 r1 = Some (t2, s2, l2, r2)" "length t2 = 64"
        "in_hand s2 l2 r2" "2048 \<le> s2" "({s2..<l2} \<union> ranges r2) \<inter> {2048..} = ranges r \<inter> {2048..}"
        "\<forall>row < 32. \<forall>c < 64. tbit t2 row c \<longleftrightarrow> tbit t' row c \<or> int (row * 64 + c) \<in> ranges r"
        using less.hyps [OF n(5) t'(2) n(3)] n(4) by auto
      have "tbit t2 row c \<longleftrightarrow> tbit t row c \<or> int (row * 64 + c) \<in> {s..<l} \<union> ranges r"
        if "row < 32" "c < 64" for row c
        using c(6) t'(3) that l h(1) by auto
      moreover have "t7FF_loop t s l r = Some (t2, s2, l2, r2)"
        using True l t'(1) n(1) c(1) by (simp add: t7FF_loop.simps [of t s l r])
      moreover have "ranges r \<inter> {2048..} = ({s..<l} \<union> ranges r) \<inter> {2048..}" using l by auto
      ultimately show ?thesis using c(2-5) by blast
    qed
  qed
qed

section \<open>The blocks of 64 code points\<close>

text \<open>The two bits of block \<open>k\<close> (of 1024), and what they may say of the set \<open>S\<close>.\<close>

definition blk_lo :: "32 word list \<Rightarrow> nat \<Rightarrow> bool" where
  "blk_lo t k \<longleftrightarrow> tbit t (k div 64) (k mod 64)"

definition blk_hi :: "32 word list \<Rightarrow> nat \<Rightarrow> bool" where
  "blk_hi t k \<longleftrightarrow> tbit t (k div 64 + 16) (k mod 64)"

text \<open>
  The invariant of the loop: a block marked "all" lies in \<open>S\<close>; in a block that is not
  marked, whatever is in \<open>S\<close> is still to come (\<open>R\<close>) and at or above \<open>minStart\<close>.
\<close>

definition blocks_inv :: "32 word list \<Rightarrow> (nat \<Rightarrow> bool) \<Rightarrow> (nat \<Rightarrow> bool) \<Rightarrow> nat \<Rightarrow> bool" where
  "blocks_inv t S R m \<longleftrightarrow> length t = 64 \<and>
     (\<forall>x. 2048 \<le> x \<longrightarrow> x < 65536 \<longrightarrow>
        (blk_lo t (x div 64) \<and> \<not> blk_hi t (x div 64) \<longrightarrow> S x) \<and>
        (\<not> blk_lo t (x div 64) \<and> \<not> blk_hi t (x div 64) \<longrightarrow> S x \<longrightarrow> R x \<and> m \<le> x))"

lemma bit_10001: "bit (0x10001 :: 32 word) n \<longleftrightarrow> n = 0 \<or> n = 16"
proof -
  have "(0x10001 :: 32 word) = 1 OR push_bit 16 1" by simp
  then show ?thesis by (simp only: bit_or_iff bit_push_bit_iff bit_1_iff possible_bit_def) auto
qed

lemma bit_mixed:
  assumes "n < 32" "q < 16"
  shows "bit (push_bit q 0x10001 :: 32 word) n \<longleftrightarrow> n = q \<or> n = q + 16"
proof -
  have "bit (push_bit q 0x10001 :: 32 word) n \<longleftrightarrow> q \<le> n \<and> (n - q = 0 \<or> n - q = 16)"
    using assms(1) by (simp only: bit_push_bit_iff bit_10001) simp
  then show ?thesis by auto
qed

lemma mixed_spec:
  assumes "length t = 64" "b < 1024"
  shows "\<exists>t'. mixed t b = Some t' \<and> length t' = 64 \<and>
    (\<forall>k < 1024. (blk_lo t' k \<longleftrightarrow> blk_lo t k \<or> k = b) \<and> (blk_hi t' k \<longleftrightarrow> blk_hi t k \<or> k = b))"
proof -
  have q: "b div 64 < 16" using assms(2) by simp
  obtain t' where t': "mixed t b = Some t'" "length t' = 64"
    "\<forall>c < 64. \<forall>r < 32. tbit t' r c \<longleftrightarrow> tbit t r c \<or> (c = b mod 64 \<and> (r = b div 64 \<or> r = b div 64 + 16))"
    using or_at_spec [of "b mod 64" t "push_bit (b div 64) 0x10001"] assms(1)
    by (auto simp: mixed_def bit_mixed [OF _ q])
  have eq: "k = b \<longleftrightarrow> k mod 64 = b mod 64 \<and> k div 64 = b div 64" for k
    by (metis div_mult_mod_eq)
  have "(blk_lo t' k \<longleftrightarrow> blk_lo t k \<or> k = b) \<and> (blk_hi t' k \<longleftrightarrow> blk_hi t k \<or> k = b)" if "k < 1024" for k
  proof -
    have "k div 64 < 16" "k mod 64 < 64" using that by auto
    with q t'(3) show ?thesis by (auto simp: blk_lo_def blk_hi_def eq)
  qed
  with t'(1,2) show ?thesis by blast
qed

lemma set_blocks_spec:
  assumes "length t = 64" "s < l" "l \<le> 1024"
  shows "\<exists>t'. set32x64Bits t s l = Some t' \<and> length t' = 64 \<and>
    (\<forall>k < 1024. (blk_lo t' k \<longleftrightarrow> blk_lo t k \<or> (s \<le> k \<and> k < l)) \<and> (blk_hi t' k \<longleftrightarrow> blk_hi t k))"
proof -
  obtain t' where t': "set32x64Bits t s l = Some t'" "length t' = 64"
    "\<forall>r < 32. \<forall>c < 64. tbit t' r c \<longleftrightarrow> tbit t r c \<or> (s \<le> r * 64 + c \<and> r * 64 + c < l)"
    using set32x64Bits_spec [of t s l] assms by auto
  have "(blk_lo t' k \<longleftrightarrow> blk_lo t k \<or> (s \<le> k \<and> k < l)) \<and> (blk_hi t' k \<longleftrightarrow> blk_hi t k)" if "k < 1024" for k
  proof -
    have "k div 64 + 16 < 32" "k mod 64 < 64" using that by auto
    moreover have "\<not> (k div 64 + 16) * 64 + k mod 64 < l" using assms(3) by simp
    ultimately show ?thesis using t'(3) by (auto simp: blk_lo_def blk_hi_def)
  qed
  with t'(1,2) show ?thesis by blast
qed

text \<open>Marking a block as mixed settles it.\<close>

lemma blocks_mixed:
  assumes "blocks_inv t S R m" "b < 1024"
  shows "\<exists>t'. mixed t b = Some t' \<and> blocks_inv t' S (\<lambda>x. R x \<and> x div 64 \<noteq> b) m"
proof -
  obtain t' where t': "mixed t b = Some t'" "length t' = 64"
    "\<forall>k < 1024. (blk_lo t' k \<longleftrightarrow> blk_lo t k \<or> k = b) \<and> (blk_hi t' k \<longleftrightarrow> blk_hi t k \<or> k = b)"
    using mixed_spec [of t b] assms by (auto simp: blocks_inv_def)
  have "x div 64 < 1024" if "x < 65536" for x :: nat using that by simp
  with t' assms(1) show ?thesis by (auto simp: blocks_inv_def)
qed

lemma blocks_full:
  assumes "blocks_inv t S R m" "s < l" "l \<le> 1024" "\<And>x. s \<le> x div 64 \<Longrightarrow> x div 64 < l \<Longrightarrow> S x"
  shows "\<exists>t'. set32x64Bits t s l = Some t' \<and>
    blocks_inv t' S (\<lambda>x. R x \<and> \<not> (s \<le> x div 64 \<and> x div 64 < l)) m"
proof -
  obtain t' where t': "set32x64Bits t s l = Some t'" "length t' = 64"
    "\<forall>k < 1024. (blk_lo t' k \<longleftrightarrow> blk_lo t k \<or> (s \<le> k \<and> k < l)) \<and> (blk_hi t' k \<longleftrightarrow> blk_hi t k)"
    using set_blocks_spec [of t s l] assms by (auto simp: blocks_inv_def)
  have "x div 64 < 1024" if "x < 65536" for x :: nat using that by simp
  with t' assms(1,4) show ?thesis by (auto simp: blocks_inv_def)
qed

lemma blocks_inv_weaken:
  "blocks_inv t S R m \<Longrightarrow> (\<And>x. R x \<Longrightarrow> m \<le> x \<Longrightarrow> S x \<Longrightarrow> R' x \<and> m' \<le> x) \<Longrightarrow> blocks_inv t S R' m'"
  by (auto simp: blocks_inv_def)

lemma block_end: "b < (b div 64 + 1) * (64::nat)"
  using dividend_less_div_times [of 64 b] by simp

lemma next_block:
  assumes "x div 64 \<noteq> b div 64" "b \<le> x"
  shows "(b div 64 + 1) * 64 \<le> (x::nat)"
proof -
  have "b div 64 + 1 \<le> x div 64" using assms div_le_mono [of b x 64] by simp
  then have "(b div 64 + 1) * 64 \<le> x div 64 * 64" by (rule mult_le_mono1)
  also have "\<dots> \<le> x" by simp
  finally show ?thesis .
qed

lemma block_number: "x < 65536 \<Longrightarrow> x div 64 < (1024::nat)" "x \<le> 65536 \<Longrightarrow> x div 64 \<le> (1024::nat)"
  using div_le_mono [of x 65536 64] by (simp_all add: less_mult_imp_div_less)

lemma block_head_spec:
  assumes "blocks_inv t S (\<lambda>x. (s \<le> x \<and> x < l) \<or> Q x) m" "m mod 64 = 0" "s < 65536"
    and "\<And>x. Q x \<Longrightarrow> s \<le> x"
  shows "\<exists>t' s' m'. block_head t s m = Some (t', s', m') \<and>
    blocks_inv t' S (\<lambda>x. (s' \<le> x \<and> x < l) \<or> Q x) m' \<and> s' mod 64 = 0 \<and> m' mod 64 = 0 \<and>
    s \<le> s' \<and> (m' = m \<or> m' = s')"
proof (cases "s mod 64 = 0")
  case True
  with assms(1,2) show ?thesis by (simp add: block_head_def)
next
  case False
  obtain t' where t': "mixed t (s div 64) = Some t'"
    "blocks_inv t' S (\<lambda>x. ((s \<le> x \<and> x < l) \<or> Q x) \<and> x div 64 \<noteq> s div 64) m"
    using blocks_mixed [OF assms(1) block_number(1) [OF assms(3)]] by blast
  let ?e = "(s div 64 + 1) * 64"
  have "blocks_inv t' S (\<lambda>x. (?e \<le> x \<and> x < l) \<or> Q x) ?e"
  proof (rule blocks_inv_weaken [OF t'(2)])
    fix x assume x: "((s \<le> x \<and> x < l) \<or> Q x) \<and> x div 64 \<noteq> s div 64"
    then have "?e \<le> x" using assms(4) next_block by blast
    with x show "((?e \<le> x \<and> x < l) \<or> Q x) \<and> ?e \<le> x" by blast
  qed
  moreover have "block_head t s m = Some (t', ?e, ?e)" using False t'(1) by (simp add: block_head_def Let_def)
  moreover have "?e mod 64 = 0" by simp
  moreover have "s \<le> ?e" using block_end [of s] by simp
  ultimately show ?thesis by (intro exI [of _ t'] exI [of _ ?e]) simp
qed

lemma block_body_spec:
  assumes "blocks_inv t S (\<lambda>x. (s \<le> x \<and> x < l) \<or> Q x) m" "s mod 64 = 0" "s < l" "l \<le> 65536"
    and S: "\<And>x. s \<le> x \<Longrightarrow> x < l \<Longrightarrow> S x"
  shows "\<exists>t'. block_body t s l = Some t' \<and>
    blocks_inv t' S (\<lambda>x. (l div 64 * 64 \<le> x \<and> x < l) \<or> Q x) m"
proof (cases "s < l div 64 * 64")
  case False
  then have "blocks_inv t S (\<lambda>x. (l div 64 * 64 \<le> x \<and> x < l) \<or> Q x) m"
    by (intro blocks_inv_weaken [OF assms(1)]) auto
  with False show ?thesis by (simp add: block_body_def)
next
  case True
  have s: "s = s div 64 * 64" using assms(2) by auto
  have lt: "s div 64 < l div 64" using True s by (metis mult_less_cancel2)
  have in_S: "S x" if "s div 64 \<le> x div 64" "x div 64 < l div 64" for x
  proof (rule S)
    show "s \<le> x" using s that(1) div_mult_mod_eq [of x 64] by linarith
    show "x < l" using that(2) by (meson div_le_mono not_less)
  qed
  obtain t' where t': "set32x64Bits t (s div 64) (l div 64) = Some t'"
    "blocks_inv t' S (\<lambda>x. ((s \<le> x \<and> x < l) \<or> Q x) \<and> \<not> (s div 64 \<le> x div 64 \<and> x div 64 < l div 64)) m"
    using blocks_full [OF assms(1) lt block_number(2) [OF assms(4)] in_S] by blast
  have "blocks_inv t' S (\<lambda>x. (l div 64 * 64 \<le> x \<and> x < l) \<or> Q x) m"
  proof (rule blocks_inv_weaken [OF t'(2)])
    fix x assume x: "((s \<le> x \<and> x < l) \<or> Q x) \<and> \<not> (s div 64 \<le> x div 64 \<and> x div 64 < l div 64)" "m \<le> x"
    have "l div 64 * 64 \<le> x" if "s \<le> x"
      using x(1) that div_le_mono [OF that, of 64] div_mult_mod_eq [of x 64] by linarith
    with x show "((l div 64 * 64 \<le> x \<and> x < l) \<or> Q x) \<and> m \<le> x" by blast
  qed
  with True t'(1) show ?thesis by (simp add: block_body_def)
qed

lemma block_tail_spec:
  assumes "blocks_inv t S (\<lambda>x. (l div 64 * 64 \<le> x \<and> x < l) \<or> Q x) m" "m mod 64 = 0" "l \<le> 65536"
    and Q: "\<And>x. Q x \<Longrightarrow> l \<le> x"
  shows "\<exists>t' l' m'. block_tail t l m = Some (t', l', m') \<and> blocks_inv t' S Q m' \<and>
    m' mod 64 = 0 \<and> l \<le> l' \<and> (l' = l \<or> m' = l') \<and> l' \<le> 65536"
proof (cases "l mod 64 = 0")
  case True
  then have "l div 64 * 64 = l" by auto
  then have "blocks_inv t S Q m" by (intro blocks_inv_weaken [OF assms(1)]) auto
  with True assms(2,3) show ?thesis by (simp add: block_tail_def)
next
  case False
  then have l: "l < 65536" using assms(3) by (cases "l = 65536") auto
  obtain t' where t': "mixed t (l div 64) = Some t'"
    "blocks_inv t' S (\<lambda>x. ((l div 64 * 64 \<le> x \<and> x < l) \<or> Q x) \<and> x div 64 \<noteq> l div 64) m"
    using blocks_mixed [OF assms(1) block_number(1) [OF l]] by blast
  let ?e = "(l div 64 + 1) * 64"
  have "blocks_inv t' S Q ?e"
  proof (rule blocks_inv_weaken [OF t'(2)])
    fix x assume x: "((l div 64 * 64 \<le> x \<and> x < l) \<or> Q x) \<and> x div 64 \<noteq> l div 64"
    then have "Q x" using div_le_mono [of x l 64] div_le_mono [of "l div 64 * 64" x 64] by auto
    with x Q next_block show "Q x \<and> ?e \<le> x" by blast
  qed
  moreover have "block_tail t l m = Some (t', ?e, ?e)" using False t'(1) by (simp add: block_tail_def Let_def)
  moreover have "?e mod 64 = 0" "l \<le> ?e" "?e \<le> 65536" using block_end [of l] l by auto
  ultimately show ?thesis by (intro exI [of _ t'] exI [of _ ?e]) simp
qed

lemma block_range_spec:
  assumes "blocks_inv t S (\<lambda>x. (s0 \<le> x \<and> x < l) \<or> Q x) m" "m mod 64 = 0" "l \<le> 65536"
    and Q: "\<And>x. Q x \<Longrightarrow> l \<le> x" and S: "\<And>x. s0 \<le> x \<Longrightarrow> x < l \<Longrightarrow> S x"
  shows "\<exists>t' l' m'. block_range t (max s0 m) l m = Some (t', l', m') \<and> blocks_inv t' S Q m' \<and>
    m' mod 64 = 0 \<and> l \<le> l' \<and> (l' = l \<or> m' = l') \<and> l' \<le> 65536"
proof -
  define s where "s = max s0 m"
  have inv: "blocks_inv t S (\<lambda>x. (s \<le> x \<and> x < l) \<or> Q x) m"
    by (rule blocks_inv_weaken [OF assms(1)]) (auto simp: s_def)
  show ?thesis unfolding s_def [symmetric]
  proof (cases "s < l")
    case False
    then have "blocks_inv t S Q m" by (intro blocks_inv_weaken [OF inv]) auto
    with False assms(2,3) show "\<exists>t' l' m'. block_range t s l m = Some (t', l', m') \<and>
      blocks_inv t' S Q m' \<and> m' mod 64 = 0 \<and> l \<le> l' \<and> (l' = l \<or> m' = l') \<and> l' \<le> 65536"
      by (simp add: block_range_def)
  next
    case True
    have "s \<le> x" if "Q x" for x using Q [OF that] True by simp
    then obtain t1 s1 m1 where 1: "block_head t s m = Some (t1, s1, m1)"
      "blocks_inv t1 S (\<lambda>x. (s1 \<le> x \<and> x < l) \<or> Q x) m1" "s1 mod 64 = 0" "m1 mod 64 = 0" "s \<le> s1"
      using block_head_spec [OF inv assms(2)] True assms(3) by fastforce
    show "\<exists>t' l' m'. block_range t s l m = Some (t', l', m') \<and>
      blocks_inv t' S Q m' \<and> m' mod 64 = 0 \<and> l \<le> l' \<and> (l' = l \<or> m' = l') \<and> l' \<le> 65536"
    proof (cases "s1 < l")
      case False
      then have "blocks_inv t1 S Q m1" by (intro blocks_inv_weaken [OF 1(2)]) auto
      with True False 1(1,4) assms(3) show ?thesis by (simp add: block_range_def)
    next
      case s1: True
      have "S x" if "s1 \<le> x" "x < l" for x using S [of x] that 1(5) by (simp add: s_def)
      then obtain t2 where 2: "block_body t1 s1 l = Some t2"
        "blocks_inv t2 S (\<lambda>x. (l div 64 * 64 \<le> x \<and> x < l) \<or> Q x) m1"
        using block_body_spec [OF 1(2,3) s1 assms(3)] by blast
      from block_tail_spec [OF 2(2) 1(4) assms(3) Q] True s1 1(1) 2(1) show ?thesis
        by (auto simp: block_range_def)
    qed
  qed
qed

text \<open>The tables say of a block what \<open>S\<close> holds there, unless the block is mixed.\<close>

definition blocks_ok :: "32 word list \<Rightarrow> int set \<Rightarrow> bool" where
  "blocks_ok t S \<longleftrightarrow> length t = 64 \<and>
     (\<forall>x. 2048 \<le> x \<longrightarrow> x < 65536 \<longrightarrow> \<not> blk_hi t (x div 64) \<longrightarrow> (blk_lo t (x div 64) \<longleftrightarrow> int x \<in> S))"

lemma blocks_done:
  assumes "blocks_inv t (\<lambda>x. int x \<in> S) R m" "\<And>x. R x \<Longrightarrow> m \<le> x \<Longrightarrow> 65536 \<le> x"
  shows "blocks_ok t S"
proof -
  have "blocks_inv t (\<lambda>x. int x \<in> S) (\<lambda>x. 65536 \<le> x) m"
    by (rule blocks_inv_weaken [OF assms(1)]) (use assms(2) in auto)
  then show ?thesis unfolding blocks_inv_def blocks_ok_def by (meson not_less)
qed

lemma block_loop_spec:
  assumes "blocks_inv t (\<lambda>x. int x \<in> S) (\<lambda>x. int x \<in> {s..<l} \<union> ranges r) m" "m mod 64 = 0"
    "in_hand s l r" "{s..<l} \<subseteq> S" "ranges r \<subseteq> S"
  shows "\<exists>t'. block_loop t s l m r = Some t' \<and> blocks_ok t' S"
  using assms
proof (induction "length r" arbitrary: t s l m r rule: less_induct)
  case less
  note h = in_handD [OF less.prems(3)]
  have gt: "l < x" if "x \<in> ranges r" for x using ranges_gt [OF that] h(5) by blast
  show ?case
  proof (cases "s < 65536")
    case False
    have "blocks_ok t S"
      by (rule blocks_done [OF less.prems(1)]) (use False gt h(3) in fastforce)
    with False show ?thesis by (simp add: block_loop.simps [of t s l])
  next
    case True
    then have sl: "s < l" using h(2) by simp
    let ?l = "nat (min l 65536)"
    have l16: "?l \<le> 65536" by (simp add: nat_le_iff)
    let ?Q = "\<lambda>x. ?l \<le> x \<and> int x \<in> {s..<l} \<union> ranges r"
    have inv: "blocks_inv t (\<lambda>x. int x \<in> S) (\<lambda>x. (nat s \<le> x \<and> x < ?l) \<or> ?Q x) m"
    proof (rule blocks_inv_weaken [OF less.prems(1)])
      fix x assume x: "int x \<in> {s..<l} \<union> ranges r" "m \<le> x"
      have "s \<le> int x" using x(1) gt [of "int x"] h(3) by auto
      with x show "((nat s \<le> x \<and> x < ?l) \<or> ?Q x) \<and> m \<le> x" by auto
    qed
    have inS: "int x \<in> S" if "nat s \<le> x" "x < ?l" for x
    proof -
      have "s \<le> int x" "int x < l" using that by (simp_all add: nat_le_iff zless_nat_eq_int_zless)
      with less.prems(4) show ?thesis by auto
    qed
    obtain t' l' m' where b: "block_range t (max (nat s) m) ?l m = Some (t', l', m')"
      "blocks_inv t' (\<lambda>x. int x \<in> S) ?Q m'"
      "m' mod 64 = 0" "?l \<le> l'" "l' = ?l \<or> m' = l'" "l' \<le> 65536"
      using block_range_spec [OF inv less.prems(2) l16 _ inS] by auto
    show ?thesis
    proof (cases "l' = 65536")
      case True
      have "blocks_ok t' S" by (rule blocks_done [OF b(2)]) (use b(5) True in auto)
      with True \<open>s < 65536\<close> b(1) show ?thesis by (simp add: block_loop.simps [of t s l])
    next
      case False
      then have l: "l < 65536" using b(4,6) by auto
      then have "inv_tail r" using h(6) by simp
      moreover have "l \<le> x" if "x \<in> set r" for x using h(5) [OF that] by simp
      ultimately obtain s1 l1 r1 where n: "next_range r = Some (s1, l1, r1)" "l \<le> s1"
        "in_hand s1 l1 r1" "{s1..<l1} \<union> ranges r1 = ranges r" "length r1 < length r"
        using next_range_spec [of r l] h(1,3) by auto
      have "blocks_inv t' (\<lambda>x. int x \<in> S) (\<lambda>x. int x \<in> {s1..<l1} \<union> ranges r1) m'"
        unfolding n(4) by (rule blocks_inv_weaken [OF b(2)]) (use l in auto)
      then obtain t2 where "block_loop t' s1 l1 m' r1 = Some t2" "blocks_ok t2 S"
        using less.hyps [OF n(5) _ b(3) n(3)] n(4) less.prems(5) by blast
      with True False b(1) n(1) show ?thesis by (simp add: block_loop.simps [of t s l])
    qed
  qed
qed

section \<open>The constructor\<close>

definition starts_ok :: "int list \<Rightarrow> nat list \<Rightarrow> bool" where
  "starts_ok xs starts \<longleftrightarrow> length starts = 18 \<and> starts ! 0 = cnt xs 2048 \<and>
     (\<forall>i. 1 \<le> i \<longrightarrow> i \<le> 16 \<longrightarrow> starts ! i = cnt xs (int i * 4096)) \<and> starts ! 17 = length xs - 1"

lemma cnt_mono: "c \<le> d \<Longrightarrow> cnt xs c \<le> cnt xs d"
  by (induction xs) auto

lemma list4k_loop_spec:
  assumes "inv_tail xs" "1 \<le> i" "i \<le> 17" "length starts = i"
    "starts ! 0 = cnt xs 2048" "\<forall>k. 1 \<le> k \<longrightarrow> k < i \<longrightarrow> starts ! k = cnt xs (int k * 4096)"
  shows "\<exists>st. list4k_loop xs i starts = Some st \<and> length st = 17 \<and> st ! 0 = cnt xs 2048 \<and>
    (\<forall>k. 1 \<le> k \<longrightarrow> k \<le> 16 \<longrightarrow> st ! k = cnt xs (int k * 4096))"
  using assms
proof (induction "17 - i" arbitrary: i starts)
  case 0
  then show ?case by (auto simp: list4k_loop.simps)
next
  case (Suc n)
  then have i: "i \<le> 16" "n = 17 - (i + 1)" by simp_all
  have prev: "starts ! (i - 1) \<le> cnt xs (int i * 4096)"
    using Suc.prems by (cases "i = 1") (auto intro!: cnt_mono)
  have le: "cnt xs (int i * 4096) \<le> length xs - 1"
    using cnt_less_length [OF Suc.prems(1)] i by simp
  have "findCodePoint_range xs (int i * 4096) (starts ! (i - 1)) (length xs - 1) =
      Some (cnt xs (int i * 4096))"
    using findCodePoint_range_spec [of xs "starts ! (i - 1)" "length xs - 1" "int i * 4096"]
      prev le Suc.prems(1) by (auto simp: inv_tail_def)
  then have "list4k_loop xs i starts = list4k_loop xs (i + 1) (starts @ [cnt xs (int i * 4096)])"
    using i Suc.prems by (simp add: list4k_loop.simps [of xs i])
  moreover have "(starts @ [cnt xs (int i * 4096)]) ! k = cnt xs (int k * 4096)" if "1 \<le> k" "k < i + 1" for k
    using that Suc.prems by (cases "k = i") (auto simp: nth_append)
  ultimately show ?case
    using Suc.hyps(1) [OF i(2), of "starts @ [cnt xs (int i * 4096)]"] Suc.prems i
    by (auto simp: nth_append)
qed

text \<open>What the tables of a built \<open>BMPSet\<close> hold, where \<open>contains\<close> looks.\<close>

definition tables_ok :: "bmpset \<Rightarrow> int set \<Rightarrow> bool" where
  "tables_ok b S \<longleftrightarrow>
     length (bs_asciiBytes b) = 192 \<and> (\<forall>k < 128. bs_asciiBytes b ! k \<longleftrightarrow> int k \<in> S) \<and>
     length (bs_table7FF b) = 64 \<and>
     (\<forall>r < 32. \<forall>c < 64. 128 \<le> r * 64 + c \<longrightarrow> (tbit (bs_table7FF b) r c \<longleftrightarrow> int (r * 64 + c) \<in> S)) \<and>
     length (bs_bmpBlockBits b) = 64 \<and>
     (\<forall>x. 2048 \<le> x \<longrightarrow> x < 65536 \<longrightarrow> \<not> (55296 \<le> x \<and> x < 57344) \<longrightarrow>
        \<not> blk_hi (bs_bmpBlockBits b) (x div 64) \<longrightarrow> (blk_lo (bs_bmpBlockBits b) (x div 64) \<longleftrightarrow> int x \<in> S))"

lemma rep_zero: "k < n \<Longrightarrow> \<not> tbit (replicate n 0) r k"
  by (simp add: tbit_def)

lemma initBits_spec:
  assumes "inv_list xs" "bs_list b = xs" "bs_asciiBytes b = replicate 192 False"
    "bs_table7FF b = replicate 64 0" "bs_bmpBlockBits b = replicate 64 0"
  shows "\<exists>b'. initBits b = Some b' \<and> tables_ok b' (inv_set xs) \<and>
    (\<forall>k < 192. 128 \<le> k \<longrightarrow> \<not> bs_asciiBytes b' ! k) \<and>
    bs_list b' = xs \<and> bs_list4kStarts b' = bs_list4kStarts b"
proof -
  note xs = inv_listD [OF assms(1)]
  obtain bytes s l r where a: "ascii_loop (replicate 192 False) xs = Some (bytes, s, l, r)"
    "length bytes = 192" "in_hand s l r" "128 \<le> s"
    "({s..<l} \<union> ranges r) \<inter> {128..} = ranges xs \<inter> {128..}"
    "\<forall>k < 192. bytes ! k \<longleftrightarrow> replicate 192 False ! k \<or> (k < 128 \<and> int k \<in> ranges xs)"
    using ascii_loop_spec [of "replicate 192 False" xs] xs(4,5) by auto
  obtain t s1 l1 r1 where b: "t7FF_loop (replicate 64 0) s l r = Some (t, s1, l1, r1)" "length t = 64"
    "in_hand s1 l1 r1" "2048 \<le> s1"
    "({s1..<l1} \<union> ranges r1) \<inter> {2048..} = ({s..<l} \<union> ranges r) \<inter> {2048..}"
    "\<forall>row < 32. \<forall>c < 64. tbit t row c \<longleftrightarrow>
       tbit (replicate 64 0) row c \<or> int (row * 64 + c) \<in> {s..<l} \<union> ranges r"
    using t7FF_loop_spec [of "replicate 64 0" s l r] a(3) by auto
  have eq128: "x \<in> {s..<l} \<union> ranges r \<longleftrightarrow> x \<in> ranges xs" if "128 \<le> x" for x
    using a(5) that by (auto simp: set_eq_iff)
  have eq2048: "x \<in> {s1..<l1} \<union> ranges r1 \<longleftrightarrow> x \<in> ranges xs" if "2048 \<le> x" for x
    using b(5) eq128 [of x] that by (auto simp: set_eq_iff)
  have gt: "l1 < x" if "x \<in> ranges r1" for x using ranges_gt [OF that] in_handD(5) [OF b(3)] by blast
  have "x \<in> ranges xs" if "x \<in> {s1..<l1} \<union> ranges r1" for x
  proof -
    have "2048 \<le> x" using that gt [of x] b(4) in_handD(3) [OF b(3)] by auto
    with that eq2048 show ?thesis by blast
  qed
  then have sub: "{s1..<l1} \<subseteq> ranges xs" "ranges r1 \<subseteq> ranges xs" by auto
  have "blocks_inv (replicate 64 0) (\<lambda>x. int x \<in> ranges xs) (\<lambda>x. int x \<in> {s1..<l1} \<union> ranges r1) 2048"
    using eq2048 by (auto simp: blocks_inv_def blk_lo_def rep_zero)
  from block_loop_spec [OF this _ b(3) sub]
  obtain t2 where c: "block_loop (replicate 64 0) s1 l1 2048 r1 = Some t2" "blocks_ok t2 (ranges xs)"
    by auto
  have "tbit t row c \<longleftrightarrow> int (row * 64 + c) \<in> ranges xs" if "row < 32" "c < 64" "128 \<le> row * 64 + c" for row c
    using b(6) that eq128 [of "int (row * 64 + c)"] by (simp add: rep_zero)
  then show ?thesis
    using a(1,2,6) b(1,2) c assms(2-5) ranges_inv_set [OF xs(4)]
    by (auto simp: initBits_def tables_ok_def blocks_ok_def)
qed

text \<open>
  \<open>overrideIllegal\<close> writes only where \<open>contains\<close> does not look: bytes from 0x80, the bits
  of U+0000..U+007F in \<open>table7FF\<close>, of U+0000..U+07FF and of the surrogates in \<open>bmpBlockBits\<close>.
\<close>

lemma bit_mask_ED: "n < 32 \<Longrightarrow> bit (NOT (push_bit 13 0x10001) :: 32 word) n \<longleftrightarrow> n \<noteq> 13 \<and> n \<noteq> 29"
  using bit_mixed [of n 13] by (simp add: bit_not_iff del: push_bit_numeral)

lemma bit_three: "bit (3 :: 32 word) n \<longleftrightarrow> n = 0 \<or> n = 1"
proof -
  have "(3 :: 32 word) = 1 OR push_bit 1 1" by simp
  then show ?thesis by (simp only: bit_or_iff bit_push_bit_iff bit_1_iff possible_bit_def) auto
qed

lemma override_blocks:
  assumes "length t = 64" "\<And>w n. n < 32 \<Longrightarrow> n \<noteq> 13 \<Longrightarrow> n \<noteq> 29 \<Longrightarrow> bit (g w) n = bit (w :: 32 word) n"
  shows "\<exists>t'. for_range (\<lambda>t i. do { w \<leftarrow> rd t i; wr t i (g w) }) 32 64 t = Some t' \<and> length t' = 64 \<and>
    (\<forall>x. 2048 \<le> x \<longrightarrow> x < 65536 \<longrightarrow> \<not> (55296 \<le> x \<and> x < 57344) \<longrightarrow>
       (blk_lo t' (x div 64) \<longleftrightarrow> blk_lo t (x div 64)) \<and> (blk_hi t' (x div 64) \<longleftrightarrow> blk_hi t (x div 64)))"
proof -
  obtain t' where t': "for_range (\<lambda>t i. do { w \<leftarrow> rd t i; wr t i (g w) }) 32 64 t = Some t'"
    "length t' = 64" "\<forall>k < 64. t' ! k = (if 32 \<le> k \<and> k < 64 then g (t ! k) else t ! k)"
    using for_range_pointwise [of 32 64 t "\<lambda>t i. do { w \<leftarrow> rd t i; wr t i (g w) }" g] assms(1) by auto
  have "(blk_lo t' (x div 64) \<longleftrightarrow> blk_lo t (x div 64)) \<and> (blk_hi t' (x div 64) \<longleftrightarrow> blk_hi t (x div 64))"
    if x: "x < 65536" "\<not> (55296 \<le> x \<and> x < 57344)" for x
  proof -
    let ?r = "x div 64 div 64" and ?c = "x div 64 mod 64"
    have r: "?r < 16" "?c < 64" using x(1) by (simp_all add: less_mult_imp_div_less flip: div_mult2_eq)
    have "?r \<noteq> 13" if "32 \<le> ?c"
    proof
      assume "?r = 13"
      then have "864 \<le> x div 64" "x div 64 < 896"
        using that r(2) div_mult_mod_eq [of "x div 64" 64] by linarith+
      then show False using x(2) by (simp add: less_eq_div_iff_mult_less_eq div_less_iff_less_mult)
    qed
    then show ?thesis using t'(3) assms(2) r by (cases "32 \<le> ?c") (simp_all add: blk_lo_def blk_hi_def tbit_def)
  qed
  with t'(1,2) show ?thesis by blast
qed

lemma overrideIllegal_spec:
  assumes "tables_ok b S" "length (bs_list4kStarts b) = 18"
    "containsSlow b 65533 (bs_list4kStarts b ! 15) (bs_list4kStarts b ! 16) = Some v"
    "\<forall>k < 192. 128 \<le> k \<longrightarrow> \<not> bs_asciiBytes b ! k"
  shows "\<exists>b'. overrideIllegal b = Some b' \<and> tables_ok b' S \<and> bs_list b' = bs_list b \<and>
    bs_list4kStarts b' = bs_list4kStarts b \<and> (\<forall>k. 128 \<le> k \<longrightarrow> k < 192 \<longrightarrow> bs_asciiBytes b' ! k = v)"
proof -
  let ?mask = "NOT (push_bit 13 0x10001) :: 32 word"
  note ok = assms(1) [unfolded tables_ok_def]
  have len: "length (bs_asciiBytes b) = 192" "length (bs_table7FF b) = 64" "length (bs_bmpBlockBits b) = 64"
    using ok by auto
  show ?thesis
  proof (cases v)
    case False
    obtain t' where t': "for_range (\<lambda>t i. and_at t i ?mask) 32 64 (bs_bmpBlockBits b) = Some t'"
      "length t' = 64" "\<forall>x. 2048 \<le> x \<longrightarrow> x < 65536 \<longrightarrow> \<not> (55296 \<le> x \<and> x < 57344) \<longrightarrow>
       (blk_lo t' (x div 64) \<longleftrightarrow> blk_lo (bs_bmpBlockBits b) (x div 64)) \<and>
       (blk_hi t' (x div 64) \<longleftrightarrow> blk_hi (bs_bmpBlockBits b) (x div 64))"
      using override_blocks [OF len(3), of "\<lambda>w. w AND ?mask"]
      by (auto simp: and_at_def bit_and_iff bit_mask_ED simp del: push_bit_numeral)
    have "overrideIllegal b = Some (b\<lparr>bs_bmpBlockBits := t'\<rparr>)"
      using False assms(2,3) t'(1) by (simp add: overrideIllegal_def Let_def)
    then show ?thesis using t'(2,3) ok assms(4) False by (simp add: tables_ok_def)
  next
    case True
    obtain bytes where 1: "for_range (\<lambda>t i. wr t i True) 128 192 (bs_asciiBytes b) = Some bytes"
      "length bytes = 192" "\<forall>k < 192. bytes ! k \<longleftrightarrow> 128 \<le> k \<or> bs_asciiBytes b ! k"
      using for_range_pointwise [of 128 192 "bs_asciiBytes b" "\<lambda>t i. wr t i True" "\<lambda>_. True"] len(1)
      by auto
    obtain t where 2: "or_range (bs_table7FF b) 0 64 3 = Some t" "length t = 64"
      "\<forall>c < 64. \<forall>r < 32. tbit t r c \<longleftrightarrow> tbit (bs_table7FF b) r c \<or> bit (3 :: 32 word) r"
      using or_range_spec [of 0 64 "bs_table7FF b" 3] len(2) by auto
    have t: "tbit t r c \<longleftrightarrow> tbit (bs_table7FF b) r c" if "r < 32" "c < 64" "128 \<le> r * 64 + c" for r c
      using 2(3) that bit_three [of r] by auto
    obtain t1 where 3: "or_range (bs_bmpBlockBits b) 0 32 1 = Some t1" "length t1 = 64"
      "\<forall>c < 64. \<forall>r < 32. tbit t1 r c \<longleftrightarrow> tbit (bs_bmpBlockBits b) r c \<or> (c < 32 \<and> r = 0)"
      using or_range_spec [of 0 32 "bs_bmpBlockBits b" 1] len(3) by (auto simp: bit_1_iff)
    have t1: "blk_lo t1 (x div 64) \<longleftrightarrow> blk_lo (bs_bmpBlockBits b) (x div 64)"
      "blk_hi t1 (x div 64) \<longleftrightarrow> blk_hi (bs_bmpBlockBits b) (x div 64)" if "2048 \<le> x" "x < 65536" for x
    proof -
      have "32 \<le> x div 64" using div_le_mono [OF that(1), of 64] by simp
      then have "\<not> (x div 64 mod 64 < 32 \<and> x div 64 div 64 = 0)"
        using div_mult_mod_eq [of "x div 64" 64] by linarith
      moreover have "x div 64 div 64 < 16" "x div 64 mod 64 < 64"
        using that(2) by (simp_all add: less_mult_imp_div_less flip: div_mult2_eq)
      ultimately show "blk_lo t1 (x div 64) \<longleftrightarrow> blk_lo (bs_bmpBlockBits b) (x div 64)"
        "blk_hi t1 (x div 64) \<longleftrightarrow> blk_hi (bs_bmpBlockBits b) (x div 64)"
        using 3(3) by (auto simp: blk_lo_def blk_hi_def)
    qed
    let ?g = "\<lambda>w. (w AND ?mask) OR push_bit 13 1"
    obtain t2 where 4: "for_range (\<lambda>t i. do { w \<leftarrow> rd t i; wr t i (?g w) }) 32 64 t1 = Some t2"
      "length t2 = 64" "\<forall>x. 2048 \<le> x \<longrightarrow> x < 65536 \<longrightarrow> \<not> (55296 \<le> x \<and> x < 57344) \<longrightarrow>
       (blk_lo t2 (x div 64) \<longleftrightarrow> blk_lo t1 (x div 64)) \<and> (blk_hi t2 (x div 64) \<longleftrightarrow> blk_hi t1 (x div 64))"
      using override_blocks [OF 3(2), of ?g]
      by (auto simp: bit_or_iff bit_and_iff bit_mask_ED bit_one_row simp del: push_bit_numeral push_bit_of_1)
    let ?b = "b\<lparr>bs_asciiBytes := bytes, bs_table7FF := t, bs_bmpBlockBits := t2\<rparr>"
    have "overrideIllegal b = Some ?b"
      using True assms(2,3) 1(1) 2(1) 3(1) 4(1) by (simp add: overrideIllegal_def Let_def)
    moreover have "tables_ok ?b S" using ok 1(2,3) 2(2) 4(2,3) t t1 by (simp add: tables_ok_def)
    ultimately show ?thesis using 1(3) True by auto
  qed
qed

definition bmpset_ok :: "bmpset \<Rightarrow> bool" where
  "bmpset_ok b \<longleftrightarrow> inv_list (bs_list b) \<and> starts_ok (bs_list b) (bs_list4kStarts b) \<and>
     tables_ok b (inv_set (bs_list b)) \<and>
     (\<forall>k. 128 \<le> k \<longrightarrow> k < 192 \<longrightarrow> (bs_asciiBytes b ! k \<longleftrightarrow> 65533 \<in> inv_set (bs_list b)))"

lemma containsSlow_spec:
  assumes "inv_list (bs_list b)" "lo \<le> cnt (bs_list b) c" "cnt (bs_list b) c \<le> hi"
    "hi < length (bs_list b)" "c < UNICODESET_HIGH"
  shows "containsSlow b c lo hi = Some (c \<in> inv_set (bs_list b))"
  using assms findCodePoint_range_spec [of "bs_list b" lo hi c] inv_listD(2) [OF assms(1)]
  by (simp add: containsSlow_def inv_set_def)

lemma starts_bounds:
  assumes "starts_ok xs starts" "inv_tail xs" "i < 18"
  shows "starts ! i < length xs"
    "i \<noteq> 17 \<Longrightarrow> (if i = 0 then 2048 else int i * 4096) \<le> c \<Longrightarrow> starts ! i \<le> cnt xs c"
    "i \<noteq> 0 \<Longrightarrow> i \<noteq> 17 \<Longrightarrow> c < int i * 4096 \<Longrightarrow> cnt xs c \<le> starts ! i"
proof -
  have eq: "starts ! i = (if i = 17 then length xs - 1 else if i = 0 then cnt xs 2048 else cnt xs (int i * 4096))"
    using assms(1,3) by (auto simp: starts_ok_def)
  have "length xs > 0" using assms(2) by (simp add: inv_tail_def)
  then have "cnt xs c < length xs" if "c < UNICODESET_HIGH" for c
    using cnt_less_length [OF assms(2) that] by linarith
  with eq assms(3) \<open>length xs > 0\<close> show "starts ! i < length xs" by simp
  show "i \<noteq> 17 \<Longrightarrow> (if i = 0 then 2048 else int i * 4096) \<le> c \<Longrightarrow> starts ! i \<le> cnt xs c"
    by (auto simp: eq intro: cnt_mono)
  show "i \<noteq> 0 \<Longrightarrow> i \<noteq> 17 \<Longrightarrow> c < int i * 4096 \<Longrightarrow> cnt xs c \<le> starts ! i"
    by (auto simp: eq intro: cnt_mono)
qed

lemma slow_between_spec:
  assumes "bmpset_ok b" "i < j" "j < 18" "(if i = 0 then 2048 else int i * 4096) \<le> c"
    "j = 17 \<or> c < int j * 4096" "c < UNICODESET_HIGH"
  shows "slow_between b c i j = Some (c \<in> inv_set (bs_list b))"
proof -
  have ok: "inv_list (bs_list b)" "starts_ok (bs_list b) (bs_list4kStarts b)"
    using assms(1) by (auto simp: bmpset_ok_def)
  note xs = inv_listD [OF ok(1)]
  have "cnt (bs_list b) c \<le> bs_list4kStarts b ! j"
    using starts_bounds(3) [OF ok(2) xs(4) assms(3)] assms(2,5) cnt_less_length [OF xs(4) assms(6)] ok(2)
    by (cases "j = 17") (auto simp: starts_ok_def)
  moreover have "bs_list4kStarts b ! i \<le> cnt (bs_list b) c"
    using starts_bounds(2) [OF ok(2) xs(4), of i c] assms(2-4) by simp
  moreover have "bs_list4kStarts b ! j < length (bs_list b)"
    using starts_bounds(1) [OF ok(2) xs(4) assms(3)] .
  ultimately have "containsSlow b c (bs_list4kStarts b ! i) (bs_list4kStarts b ! j) =
      Some (c \<in> inv_set (bs_list b))"
    using containsSlow_spec [OF ok(1) _ _ _ assms(6)] by blast
  then show ?thesis using ok(2) assms(2,3) by (simp add: slow_between_def starts_ok_def)
qed

theorem bmpset_new_ok:
  assumes "inv_list xs"
  shows "\<exists>b. bmpset_new xs = Some b \<and> bmpset_ok b \<and> bs_list b = xs"
proof -
  note xs = inv_listD [OF assms]
  have len: "cnt xs c \<le> length xs - 1" "length xs - 1 < length xs" if "c < UNICODESET_HIGH" for c
    using cnt_less_length [OF xs(4) that] xs(1) by auto
  have p: "findCodePoint_range xs 2048 0 (length xs - 1) = Some (cnt xs 2048)"
    using findCodePoint_range_spec [of xs 0 "length xs - 1" 2048] len [of 2048] xs(2) by simp
  obtain st where st: "list4k_loop xs 1 [cnt xs 2048] = Some st" "length st = 17" "st ! 0 = cnt xs 2048"
    "\<forall>k. 1 \<le> k \<longrightarrow> k \<le> 16 \<longrightarrow> st ! k = cnt xs (int k * 4096)"
    using list4k_loop_spec [OF xs(4), of 1 "[cnt xs 2048]"] by auto
  let ?starts = "st @ [length xs - 1]"
  have starts: "starts_ok xs ?starts" using st by (auto simp: starts_ok_def nth_append)
  let ?b = "\<lparr>bs_asciiBytes = replicate 192 False, bs_table7FF = replicate 64 0,
    bs_bmpBlockBits = replicate 64 0, bs_list4kStarts = ?starts, bs_list = xs\<rparr>"
  obtain b1 where b1: "initBits ?b = Some b1" "tables_ok b1 (inv_set xs)"
    "\<forall>k < 192. 128 \<le> k \<longrightarrow> \<not> bs_asciiBytes b1 ! k" "bs_list b1 = xs" "bs_list4kStarts b1 = ?starts"
    using initBits_spec [OF assms, of ?b] by auto
  have "containsSlow b1 65533 (?starts ! 15) (?starts ! 16) = Some (65533 \<in> inv_set xs)"
    using containsSlow_spec [of b1 "?starts ! 15" 65533 "?starts ! 16"] b1(4) assms
      starts_bounds [OF starts xs(4), of 15] starts_bounds [OF starts xs(4), of 16] by simp
  then obtain b2 where b2: "overrideIllegal b1 = Some b2" "tables_ok b2 (inv_set xs)" "bs_list b2 = xs"
    "bs_list4kStarts b2 = ?starts"
    "\<forall>k. 128 \<le> k \<longrightarrow> k < 192 \<longrightarrow> bs_asciiBytes b2 ! k = (65533 \<in> inv_set xs)"
    using overrideIllegal_spec [OF b1(2) _ _ b1(3)] b1(4,5) st(2) by auto
  then show ?thesis using p st(1) b1(1) starts assms by (auto simp: bmpset_new_def bmpset_ok_def)
qed

section \<open>\<open>contains\<close>\<close>

lemma u32_simps:
  "0 \<le> c \<Longrightarrow> c < 4294967296 \<Longrightarrow> u32 c = c"
  "- 2147483648 \<le> c \<Longrightarrow> c < 0 \<Longrightarrow> 2147483648 \<le> u32 c"
proof -
  show "0 \<le> c \<Longrightarrow> c < 4294967296 \<Longrightarrow> u32 c = c" by (simp add: u32_def)
  assume c: "- 2147483648 \<le> c" "c < 0"
  have "u32 c = (c + 4294967296) mod 4294967296" by (simp add: u32_def)
  also have "\<dots> = c + 4294967296" using c by (intro mod_pos_pos_trivial) auto
  finally show "2147483648 \<le> u32 c" using c by simp
qed

lemma and_bit_ne_0: "(w AND push_bit n 1 \<noteq> 0) \<longleftrightarrow> bit (w :: 32 word) n" if "n < 32"
proof -
  have "w AND push_bit n 1 = (if bit w n then push_bit n 1 else 0)"
    by (rule bit_word_eqI) (auto simp: bit_and_iff bit_exp_iff)
  moreover have "push_bit n 1 \<noteq> (0 :: 32 word)" using that by simp
  ultimately show ?thesis by simp
qed

lemma bit_if_0: "bit (if p then w else 0) n \<longleftrightarrow> p \<and> bit w n"
  by simp

lemma two_bits_word:
  "(drop_bit q w AND 0x10001 :: 32 word) =
     (if bit w q then 1 else 0) + (if bit w (q + 16) then 65536 else 0)"
proof -
  have "(drop_bit q w AND 0x10001 :: 32 word) =
     (if bit w q then 1 else 0) OR (if bit w (q + 16) then push_bit 16 1 else 0)"
  proof (rule bit_word_eqI)
    fix n assume "n < LENGTH(32)"
    then have n: "n < 32" by simp
    show "bit (drop_bit q w AND 0x10001 :: 32 word) n \<longleftrightarrow>
      bit ((if bit w q then 1 else 0) OR (if bit w (q + 16) then push_bit 16 1 else 0) :: 32 word) n"
      unfolding bit_and_iff bit_or_iff bit_drop_bit_eq bit_10001 bit_if_0 bit_one_row [OF n] bit_1_iff comp_def
      by auto
  qed
  then show ?thesis by (simp split: if_splits)
qed

lemma bit7FF_spec:
  assumes "bmpset_ok b" "128 \<le> c" "c < 2048"
  shows "bit7FF b c = Some (c \<in> inv_set (bs_list b))"
proof -
  let ?r = "nat (c div 64)" and ?c = "nat (c mod 64)"
  have rc: "?r < 32" "?c < 64" using assms(2,3) by auto
  have "int (?r * 64 + ?c) = c" using assms(2) by simp
  then have "tbit (bs_table7FF b) ?r ?c \<longleftrightarrow> c \<in> inv_set (bs_list b)"
    using assms rc unfolding bmpset_ok_def tables_ok_def
    by (metis of_nat_le_iff of_nat_numeral)
  moreover have "length (bs_table7FF b) = 64" using assms(1) by (simp add: bmpset_ok_def tables_ok_def)
  ultimately show ?thesis
    using rc and_bit_ne_0 [OF rc(1)] by (simp add: bit7FF_def tbit_def del: push_bit_of_1)
qed

lemma block_contains_spec:
  assumes "bmpset_ok b" "2048 \<le> c" "c < 65536" "\<not> (55296 \<le> c \<and> c < 57344)"
  shows "block_contains b c = Some (c \<in> inv_set (bs_list b))"
proof -
  let ?x = "nat c" and ?t = "bs_bmpBlockBits b"
  let ?lead = "nat (c div 4096)" and ?t1 = "nat (c div 64 mod 64)"
  have len: "length ?t = 64" using assms(1) by (simp add: bmpset_ok_def tables_ok_def)
  have lead: "?lead = ?x div 64 div 64" "?t1 = ?x div 64 mod 64"
    using assms(2) by (simp_all add: nat_div_distrib nat_mod_distrib flip: div_mult2_eq zdiv_zmult2_eq)
  have t1: "?t1 < 64" by simp
  have lohi: "blk_lo ?t (?x div 64) = bit (?t ! ?t1) ?lead" "blk_hi ?t (?x div 64) = bit (?t ! ?t1) (?lead + 16)"
    by (simp_all add: blk_lo_def blk_hi_def tbit_def lead)
  have tb: "twoBits b ?t1 ?lead = Some ((if bit (?t ! ?t1) ?lead then 1 else 0) +
      (if bit (?t ! ?t1) (?lead + 16) then 65536 else 0))"
    using len t1 by (simp add: twoBits_def two_bits_word)
  show ?thesis
  proof (cases "blk_hi ?t (?x div 64)")
    case False
    have "\<forall>x. 2048 \<le> x \<longrightarrow> x < 65536 \<longrightarrow> \<not> (55296 \<le> x \<and> x < 57344) \<longrightarrow>
        \<not> blk_hi ?t (x div 64) \<longrightarrow> (blk_lo ?t (x div 64) \<longleftrightarrow> int x \<in> inv_set (bs_list b))"
      using assms(1) unfolding bmpset_ok_def tables_ok_def by blast
    moreover have "2048 \<le> ?x" "?x < 65536" "\<not> (55296 \<le> ?x \<and> ?x < 57344)" using assms(2-4) by auto
    ultimately have "blk_lo ?t (?x div 64) \<longleftrightarrow> int ?x \<in> inv_set (bs_list b)" using False by blast
    with False tb lohi assms(2) show ?thesis by (simp add: block_contains_def Let_def)
  next
    case True
    have "slow_between b c ?lead (?lead + 1) = Some (c \<in> inv_set (bs_list b))"
      using assms by (intro slow_between_spec) auto
    moreover have "\<not> (65537 :: 32 word) \<le> 1" "\<not> (65536 :: 32 word) \<le> 1"
      by (simp_all add: word_le_nat_alt)
    ultimately show ?thesis using True tb lohi by (simp add: block_contains_def Let_def)
  qed
qed

theorem bmp_contains_spec:
  assumes "bmpset_ok b" "- 2147483648 \<le> c" "c \<le> INT32_MAX"
  shows "bmp_contains b c = Some (c \<in> inv_set (bs_list b))"
proof -
  have xs: "inv_list (bs_list b)" using assms(1) by (simp add: bmpset_ok_def)
  consider "c < 0" | "0 \<le> c" "c < 128" | "128 \<le> c" "c < 2048"
    | "2048 \<le> c" "c < 65536" "\<not> (55296 \<le> c \<and> c < 57344)" | "55296 \<le> c" "c < 57344"
    | "65536 \<le> c" "c < UNICODESET_HIGH" | "UNICODESET_HIGH \<le> c" by linarith
  then show ?thesis
  proof cases
    case 1
    then have "c \<notin> inv_set (bs_list b)" using inv_set_bounds [OF xs] by force
    with 1 assms(2) u32_simps(2) [of c] show ?thesis by (simp add: bmp_contains_def)
  next
    case 2
    then have "bs_asciiBytes b ! nat c \<longleftrightarrow> c \<in> inv_set (bs_list b)" "length (bs_asciiBytes b) = 192"
      using assms(1) by (auto simp: bmpset_ok_def tables_ok_def)
    with 2 show ?thesis by (simp add: bmp_contains_def u32_simps)
  next
    case 3
    with bit7FF_spec [OF assms(1)] show ?thesis by (simp add: bmp_contains_def u32_simps)
  next
    case 4
    with block_contains_spec [OF assms(1)] show ?thesis by (auto simp: bmp_contains_def u32_simps)
  next
    case 5
    with slow_between_spec [OF assms(1), of 13 17 c] show ?thesis by (simp add: bmp_contains_def u32_simps)
  next
    case 6
    with slow_between_spec [OF assms(1), of 13 17 c] show ?thesis by (simp add: bmp_contains_def u32_simps)
  next
    case 7
    then have "c \<notin> inv_set (bs_list b)" using inv_set_bounds [OF xs] by force
    with 7 assms(3) show ?thesis by (simp add: bmp_contains_def u32_simps)
  qed
qed

section \<open>The lookup table against the inversion list\<close>

text \<open>C22: The table that \<open>freeze\<close> builds answers \<open>contains(c)\<close> for every 32-bit \<open>c\<close>: for \<open>c\<close> in 0..10FFFF exactly as
  the parity of the binary search on the inversion list does, and with false for a \<open>c\<close> that is negative or above 10FFFF. The
  constructor and the lookup stay inside their arrays.\<close>

theorem bmpset_contains_equals_search:
  assumes "inv_list xs" "- 2147483648 \<le> c" "c \<le> INT32_MAX"
  shows "\<exists>b. bmpset_new xs = Some b \<and> bmp_contains b c = Some (c \<in> inv_set xs) \<and>
    (0 \<le> c \<and> c \<le> 1114111 \<longrightarrow> bmp_contains b c = map_option odd (findCodePoint xs c))"
proof -
  from bmpset_new_ok [OF assms(1)] obtain b where b: "bmpset_new xs = Some b" "bmpset_ok b" "bs_list b = xs" by blast
  have "bmp_contains b c = Some (c \<in> inv_set xs)" using bmp_contains_spec [OF b(2) assms(2,3)] b(3) by simp
  moreover have "findCodePoint xs c = Some (cnt xs c)" if "c \<le> 1114111"
    using findCodePoint_legal [of xs c] inv_listD(4) [OF assms(1)] that by simp
  ultimately show ?thesis using b(1) by (auto simp: inv_set_def)
qed

theorem bmpset_contains_equals_search_witness:
  "\<exists>b. bmpset_new [65, 91, 19968, 40960, 1114112] = Some b \<and> bmp_contains b 20000 = Some True \<and>
     (\<exists>b'. bmpset_new [65, 91, 19968, 40960, 1114112] = Some b' \<and> bmp_contains b' (-1) = Some False)"
proof -
  have x: "inv_list [65, 91, 19968, 40960, 1114112]" by (simp add: inv_list_def inv_tail_def)
  from bmpset_contains_equals_search [OF x, of 20000] bmpset_contains_equals_search [OF x, of "-1"] show ?thesis
    by (auto simp: inv_set_def)
qed

text \<open>The bit table written by \<open>set32x64Bits\<close> for a range is exactly the rectangle of the
  range: bit \<open>r\<close> of word \<open>c\<close> is set when \<open>64 * r + c\<close> lies in it, every other bit keeps its
  value, and no shift reaches the word size.\<close>

theorem set32x64Bits_rectangle:
  assumes "length t = 64" "start < limit" "limit \<le> 2048"
  shows "\<exists>t'. set32x64Bits t start limit = Some t' \<and> length t' = 64 \<and>
    (\<forall>r c. r < 32 \<longrightarrow> c < 64 \<longrightarrow>
       bit (t' ! c) r = (bit (t ! c) r \<or> start \<le> r * 64 + c \<and> r * 64 + c < limit))"
proof -
  from set32x64Bits_spec [OF assms] obtain t' where t': "set32x64Bits t start limit = Some t'" "length t' = 64"
    "\<forall>r < 32. \<forall>c < 64. tbit t' r c \<longleftrightarrow> tbit t r c \<or> (start \<le> r * 64 + c \<and> r * 64 + c < limit)" by blast
  have "bit (t' ! c) r = (bit (t ! c) r \<or> start \<le> r * 64 + c \<and> r * 64 + c < limit)" if "r < 32" "c < 64" for r c
    using t'(3) that unfolding tbit_def by blast
  with t'(1,2) show ?thesis by blast
qed

theorem set32x64Bits_rectangle_witness:
  "\<exists>t'. set32x64Bits (replicate 64 0) 100 2048 = Some t' \<and> bit (t' ! 36) 1 \<and> bit (t' ! 63) 31 \<and> \<not> bit (t' ! 35) 1"
proof -
  from set32x64Bits_rectangle [of "replicate 64 0" 100 2048] obtain t' where t':
    "set32x64Bits (replicate 64 0) 100 2048 = Some t'"
    "\<And>r c. r < 32 \<Longrightarrow> c < 64 \<Longrightarrow>
       bit (t' ! c) r = (bit ((replicate 64 0 :: 32 word list) ! c) r \<or> 100 \<le> r * 64 + c \<and> r * 64 + c < 2048)"
    by auto
  from t'(1) t'(2) [of 1 36] t'(2) [of 31 63] t'(2) [of 1 35] show ?thesis by simp
qed

end
