(* ===== verification/Utf16.thy ===== *)
theory Utf16
  imports Prelude
begin

text \<open>
  UTF-16 iteration (the macros of unicode/utf16.h) and the code point spans of
  \<open>UnicodeSet\<close> (uniset.cpp). A string is the list of its code units; the position and
  the length count units. \<open>cps\<close> is the sequence of code points a string stands for,
  unpaired surrogates included, and \<open>u16_len\<close> the number of units of such a sequence.

  The locale \<open>code_point_set\<close> is the interface that the spans use: a \<open>contains\<close> that
  decides membership in a set for every code point. It is interpreted on the tables of
  \<open>BMPSet\<close> and on the inversion list of \<open>UnicodeSet\<close>.
\<close>

section \<open>The macros\<close>

definition u16_is_lead :: "int \<Rightarrow> bool" where
  "u16_is_lead c \<longleftrightarrow> 55296 \<le> c \<and> c < 56320"

definition u16_is_trail :: "int \<Rightarrow> bool" where
  "u16_is_trail c \<longleftrightarrow> 56320 \<le> c \<and> c < 57344"

definition u16_supplementary :: "int \<Rightarrow> int \<Rightarrow> int" where
  "u16_supplementary lead trail = lead * 1024 + trail - (55296 * 1024 + 56320 - 65536)"

definition u16_length :: "int \<Rightarrow> nat" where
  "u16_length c = (if 0 \<le> c \<and> c \<le> 65535 then 1 else 2)"

definition u16_next :: "int list \<Rightarrow> nat \<Rightarrow> nat \<Rightarrow> (int \<times> nat) option" where
  "u16_next s i n =
     do { c \<leftarrow> rd s i;
          if u16_is_lead c \<and> i + 1 \<noteq> n
          then do { c2 \<leftarrow> rd s (i + 1);
                    if u16_is_trail c2 then Some (u16_supplementary c c2, i + 2) else Some (c, i + 1) }
          else Some (c, i + 1) }"

text \<open>\<open>U16_PREV(s, start, i, c)\<close>; at \<open>i = 0\<close> the read before the array is \<open>None\<close>.\<close>

definition u16_prev :: "int list \<Rightarrow> nat \<Rightarrow> nat \<Rightarrow> (int \<times> nat) option" where
  "u16_prev s start i =
     (if i = 0 then None
      else do { c \<leftarrow> rd s (i - 1);
          if u16_is_trail c \<and> i - 1 > start
          then do { c2 \<leftarrow> rd s (i - 2);
                    if u16_is_lead c2 then Some (u16_supplementary c2 c, i - 2) else Some (c, i - 1) }
          else Some (c, i - 1) })"

section \<open>The spans\<close>

text \<open>
  The loop at the end of \<open>UnicodeSet::span\<close>, with \<open>contains\<close> as an argument;
  \<open>cond\<close> is the condition pinned to 0 or 1.
\<close>

lemma u16_next_less: "u16_next s i n = Some (c, j) \<Longrightarrow> i < j"
  by (auto simp: u16_next_def rd_def bind_eq_Some_conv split: if_splits)

lemma u16_prev_less: "u16_prev s start i = Some (c, j) \<Longrightarrow> j < i"
  by (auto simp: u16_prev_def rd_def bind_eq_Some_conv split: if_splits)

function span_loop :: "(int \<Rightarrow> bool option) \<Rightarrow> int list \<Rightarrow> nat \<Rightarrow> nat \<Rightarrow> bool \<Rightarrow> nat option" where
  "span_loop contains s prev n cond =
     (case u16_next s prev n of
        None \<Rightarrow> None
      | Some (c, start) \<Rightarrow>
          (case contains c of
             None \<Rightarrow> None
           | Some b \<Rightarrow> if cond \<noteq> b then Some prev
                       else if start < n then span_loop contains s start n cond else Some start))"
  by pat_completeness auto
termination
  by (relation "measure (\<lambda>(contains, s, prev, n, cond). n - prev)") (auto dest: u16_next_less)

function span_back_loop :: "(int \<Rightarrow> bool option) \<Rightarrow> int list \<Rightarrow> nat \<Rightarrow> bool \<Rightarrow> nat option" where
  "span_back_loop contains s prev cond =
     (case u16_prev s 0 prev of
        None \<Rightarrow> None
      | Some (c, n) \<Rightarrow>
          (case contains c of
             None \<Rightarrow> None
           | Some b \<Rightarrow> if cond \<noteq> b then Some prev
                       else if n > 0 then span_back_loop contains s n cond else Some n))"
  by pat_completeness auto
termination
  by (relation "measure (\<lambda>(contains, s, prev, cond). prev)") (auto dest: u16_prev_less)

declare span_loop.simps [simp del] span_back_loop.simps [simp del]

section \<open>Code points of a string\<close>

fun cps :: "int list \<Rightarrow> int list" where
  "cps [] = []"
| "cps [u] = [u]"
| "cps (u # t # r) =
     (if u16_is_lead u \<and> u16_is_trail t then u16_supplementary u t # cps r else u # cps (t # r))"

definition u16_len :: "int list \<Rightarrow> nat" where
  "u16_len cs = sum_list (map u16_length cs)"

definition units_ok :: "int list \<Rightarrow> bool" where
  "units_ok s \<longleftrightarrow> (\<forall>u \<in> set s. 0 \<le> u \<and> u < 65536)"

lemma u16_len_simps [simp]:
  "u16_len [] = 0" "u16_len (c # cs) = u16_length c + u16_len cs"
  "u16_len (cs @ ds) = u16_len cs + u16_len ds" "u16_len (rev cs) = u16_len cs"
  by (simp_all add: u16_len_def rev_map [symmetric] sum_list_rev)

lemma units_ok_simps [simp]:
  "units_ok []" "units_ok (u # s) \<longleftrightarrow> 0 \<le> u \<and> u < 65536 \<and> units_ok s"
  "units_ok (s @ t) \<longleftrightarrow> units_ok s \<and> units_ok t"
  by (auto simp: units_ok_def)

lemma units_ok_nth: "units_ok s \<Longrightarrow> i < length s \<Longrightarrow> 0 \<le> s ! i \<and> s ! i < 65536"
  by (simp add: units_ok_def)

lemma units_ok_drop: "units_ok s \<Longrightarrow> units_ok (drop i s)"
  by (auto simp: units_ok_def dest: in_set_dropD)

lemma units_ok_take: "units_ok s \<Longrightarrow> units_ok (take i s)"
  by (auto simp: units_ok_def dest: in_set_takeD)

lemma supplementary_range:
  "u16_is_lead l \<Longrightarrow> u16_is_trail t \<Longrightarrow>
     65536 \<le> u16_supplementary l t \<and> u16_supplementary l t < 1114112"
  by (auto simp: u16_is_lead_def u16_is_trail_def u16_supplementary_def)

lemma lead_not_trail: "u16_is_lead u \<Longrightarrow> \<not> u16_is_trail u"
  by (auto simp: u16_is_lead_def u16_is_trail_def)

lemma cps_range: "units_ok s \<Longrightarrow> c \<in> set (cps s) \<Longrightarrow> 0 \<le> c \<and> c < 1114112"
  by (induction s rule: cps.induct) (auto dest: supplementary_range split: if_splits)

lemma u16_len_cps: "units_ok s \<Longrightarrow> u16_len (cps s) = length s"
  by (induction s rule: cps.induct) (auto simp: u16_length_def dest: supplementary_range split: if_splits)

text \<open>Decoding from the end: a string has the same code points in both directions.\<close>

lemma cps_snoc:
  "cps (s @ [u]) = (if s \<noteq> [] \<and> u16_is_lead (last s) \<and> u16_is_trail u
     then cps (butlast s) @ [u16_supplementary (last s) u] else cps s @ [u])"
proof (induction s rule: cps.induct)
  case (3 a t r)
  show ?case
  proof (cases r)
    case Nil
    then show ?thesis using lead_not_trail by auto
  next
    case (Cons x r')
    with 3 show ?thesis by auto
  qed
qed auto

lemma u16_next_cps:
  assumes "i < n" "n = length s"
  shows "\<exists>c j. u16_next s i n = Some (c, j) \<and> j \<le> n \<and> cps (drop i s) = c # cps (drop j s) \<and>
    (units_ok s \<longrightarrow> j = i + u16_length c)"
proof -
  have i: "drop i s = s ! i # drop (i + 1) s" using assms by (simp add: Cons_nth_drop_Suc)
  have u: "units_ok s \<Longrightarrow> u16_length (s ! i) = 1"
    using assms units_ok_nth [of s i] by (simp add: u16_length_def)
  show ?thesis
  proof (cases "i + 1 = n")
    case True
    then have "drop (i + 1) s = []" using assms by simp
    with i u True assms show ?thesis by (simp add: u16_next_def)
  next
    case False
    then have i1: "drop (i + 1) s = s ! (i + 1) # drop (i + 2) s"
      using assms by (simp add: Cons_nth_drop_Suc)
    show ?thesis
    proof (cases "u16_is_lead (s ! i) \<and> u16_is_trail (s ! (i + 1))")
      case True
      with i i1 False assms supplementary_range [of "s ! i" "s ! (i + 1)"] show ?thesis
        by (auto simp: u16_next_def u16_length_def)
    next
      case nosurr: False
      then have "u16_next s i n = Some (s ! i, i + 1)" using False assms by (auto simp: u16_next_def)
      moreover have "cps (drop i s) = s ! i # cps (drop (i + 1) s)" using i i1 nosurr by auto
      ultimately show ?thesis using u assms by simp
    qed
  qed
qed

lemma u16_prev_cps:
  assumes "0 < n" "n \<le> length s"
  shows "\<exists>c j. u16_prev s 0 n = Some (c, j) \<and> j < n \<and> cps (take n s) = cps (take j s) @ [c] \<and>
    (units_ok s \<longrightarrow> j = n - u16_length c)"
proof -
  have n: "take n s = take (n - 1) s @ [s ! (n - 1)]"
    using assms take_Suc_conv_app_nth [of "n - 1" s] by simp
  have u: "units_ok s \<Longrightarrow> u16_length (s ! (n - 1)) = 1"
    using assms units_ok_nth [of s "n - 1"] by (force simp: u16_length_def)
  show ?thesis
  proof (cases "n = 1")
    case True
    with assms(2) have "rd s 0 = Some (s ! 0)" by (cases s) simp_all
    with True n u assms show ?thesis by (auto simp: u16_prev_def)
  next
    case False
    then have n2: "take (n - 1) s = take (n - 2) s @ [s ! (n - 2)]"
      using assms take_Suc_conv_app_nth [of "n - 2" s] by (simp add: numeral_2_eq_2 Suc_diff_Suc)
    have "butlast (take (n - 1) s) = take (n - 2) s" "last (take (n - 1) s) = s ! (n - 2)"
      "take (n - 1) s \<noteq> []"
      using n2 by simp_all
    then have c: "cps (take n s) = (if u16_is_lead (s ! (n - 2)) \<and> u16_is_trail (s ! (n - 1))
        then cps (take (n - 2) s) @ [u16_supplementary (s ! (n - 2)) (s ! (n - 1))]
        else cps (take (n - 1) s) @ [s ! (n - 1)])"
      unfolding n cps_snoc by simp
    show ?thesis
    proof (cases "u16_is_lead (s ! (n - 2)) \<and> u16_is_trail (s ! (n - 1))")
      case True
      with c False assms supplementary_range [of "s ! (n - 2)" "s ! (n - 1)"] show ?thesis
        by (auto simp: u16_prev_def u16_length_def)
    next
      case nosurr: False
      then have "u16_prev s 0 n = Some (s ! (n - 1), n - 1)"
        using False assms by (auto simp: u16_prev_def)
      with c nosurr u assms show ?thesis by auto
    qed
  qed
qed

section \<open>The interface, and what its clients get\<close>

locale code_point_set =
  fixes valid :: "'s \<Rightarrow> bool" and contains :: "'s \<Rightarrow> int \<Rightarrow> bool option" and denote :: "'s \<Rightarrow> int set"
  assumes contains_denote:
    "valid m \<Longrightarrow> 0 \<le> c \<Longrightarrow> c < 1114112 \<Longrightarrow> contains m c = Some (c \<in> denote m)"
begin

lemma span_from:
  assumes "valid m" "units_ok s" "i < length s"
  shows "span_loop (contains m) s i (length s) cond =
    Some (i + u16_len (takeWhile (\<lambda>c. (c \<in> denote m) = cond) (cps (drop i s))))"
  using assms(3)
proof (induction "length s - i" arbitrary: i rule: less_induct)
  case less
  obtain c j where n: "u16_next s i (length s) = Some (c, j)" "j \<le> length s"
    "cps (drop i s) = c # cps (drop j s)" "j = i + u16_length c"
    using u16_next_cps [OF less.prems refl] assms(2) by auto
  have "contains m c = Some (c \<in> denote m)"
    using contains_denote [OF assms(1)] cps_range [OF units_ok_drop [OF assms(2)], of c i] n(3) by simp
  then show ?case
    using n less.hyps [of j] u16_next_less [OF n(1)] less.prems
    by (cases "j < length s") (auto simp: span_loop.simps [of "contains m" s i])
qed

lemma span:
  assumes "valid m" "units_ok s" "s \<noteq> []"
  shows "span_loop (contains m) s 0 (length s) cond =
    Some (u16_len (takeWhile (\<lambda>c. (c \<in> denote m) = cond) (cps s)))"
  using span_from [OF assms(1,2), of 0] assms(3) by simp

lemma span_back_from:
  assumes "valid m" "units_ok s" "0 < n" "n \<le> length s"
  shows "span_back_loop (contains m) s n cond =
    Some (n - u16_len (takeWhile (\<lambda>c. (c \<in> denote m) = cond) (rev (cps (take n s)))))"
  using assms(3,4)
proof (induction n rule: less_induct)
  case (less n)
  obtain c j where p: "u16_prev s 0 n = Some (c, j)" "j < n"
    "cps (take n s) = cps (take j s) @ [c]" "j = n - u16_length c"
    using u16_prev_cps [OF less.prems] assms(2) by auto
  have "contains m c = Some (c \<in> denote m)"
    using contains_denote [OF assms(1)] cps_range [OF units_ok_take [OF assms(2)], of c n] p(3) by simp
  then show ?case
    using p less.IH [of j] less.prems
    by (cases "0 < j") (auto simp: span_back_loop.simps [of "contains m" s n])
qed

lemma span_back:
  assumes "valid m" "units_ok s" "s \<noteq> []"
  shows "span_back_loop (contains m) s (length s) cond =
    Some (length s - u16_len (takeWhile (\<lambda>c. (c \<in> denote m) = cond) (rev (cps s))))"
  using span_back_from [OF assms(1,2), of "length s"] assms(3) by simp

text \<open>A span covers the string exactly when every code point agrees with the condition.\<close>

lemma span_all:
  assumes "valid m" "units_ok s" "s \<noteq> []"
  shows "span_loop (contains m) s 0 (length s) cond = Some (length s) \<longleftrightarrow>
    (\<forall>c \<in> set (cps s). (c \<in> denote m) = cond)"
proof -
  have pos: "0 < u16_length c" for c by (simp add: u16_length_def)
  have "u16_len (takeWhile P cs) = u16_len cs \<longleftrightarrow> (\<forall>c \<in> set cs. P c)" for P cs
    by (induction cs) (use pos in \<open>auto simp: less_imp_neq\<close>)
  then have "u16_len (takeWhile (\<lambda>c. (c \<in> denote m) = cond) (cps s)) = length s \<longleftrightarrow>
      (\<forall>c \<in> set (cps s). (c \<in> denote m) = cond)"
    by (simp flip: u16_len_cps [OF assms(2)])
  then show ?thesis by (simp add: span [OF assms])
qed

end

section \<open>Stepping forwards and backwards\<close>

text \<open>An index that does not split a surrogate pair.\<close>

definition boundary :: "int list \<Rightarrow> nat \<Rightarrow> bool" where
  "boundary s i \<longleftrightarrow> \<not> (0 < i \<and> i < length s \<and> u16_is_lead (s ! (i - 1)) \<and> u16_is_trail (s ! i))"

text \<open>From an index that does not split a pair, \<open>U16_PREV\<close> undoes \<open>U16_NEXT\<close>: it gives
  the same code point and comes back to the index, on ill-formed text too.\<close>

theorem u16_next_prev:
  assumes "boundary s i" "i < length s"
  shows "\<exists>c j. u16_next s i (length s) = Some (c, j) \<and> i < j \<and> j \<le> length s \<and> u16_prev s 0 j = Some (c, i)"
proof (cases "u16_is_lead (s ! i) \<and> i + 1 < length s \<and> u16_is_trail (s ! (i + 1))")
  case True
  then show ?thesis using assms(2) by (auto simp: u16_next_def u16_prev_def)
next
  case False
  then have "u16_next s i (length s) = Some (s ! i, i + 1)"
    using assms(2) by (auto simp: u16_next_def)
  moreover have "u16_prev s 0 (i + 1) = Some (s ! i, i)"
    using assms by (auto simp: u16_prev_def boundary_def)
  ultimately show ?thesis using assms(2) by auto
qed

theorem u16_next_prev_witness:
  "\<exists>c j. u16_next [97, 55357, 56832, 56832] 1 4 = Some (c, j) \<and> u16_prev [97, 55357, 56832, 56832] 0 j = Some (c, 1)"
proof -
  have four: "Suc (Suc (Suc (Suc 0))) = 4" by simp
  from u16_next_prev [of "[97, 55357, 56832, 56832]" 1] show ?thesis
    by (auto simp: boundary_def u16_is_lead_def four)
qed

end
