(* ===== verification/BMPSpan.thy ===== *)
theory BMPSpan
  imports BMPSet Utf16
begin

text \<open>
  \<open>BMPSet::span\<close> and \<open>BMPSet::spanBack\<close> over UTF-16 (bmpset.cpp). The code has each loop
  twice, once per value of \<open>spanCondition\<close>; the two copies differ only in the sense of
  the tests, so the model has one loop that stops where the membership of the unit or
  pair at \<open>s\<close> differs from \<open>cond\<close>. Pointers are indexes into the string.

  Both loops are proved equal to the generic loops of \<open>UnicodeSet\<close> run with
  \<open>BMPSet::contains\<close>, and the interface \<open>code_point_set\<close> is interpreted on the tables.
\<close>

section \<open>The code\<close>

text \<open>The membership of the unit or the pair at \<open>s\<close>, and the index behind it.\<close>

definition bmp_span_unit :: "bmpset \<Rightarrow> int list \<Rightarrow> nat \<Rightarrow> nat \<Rightarrow> (bool \<times> nat) option" where
  "bmp_span_unit b str s limit =
     do { c \<leftarrow> rd str s;
          if c \<le> 127 then do { r \<leftarrow> rd (bs_asciiBytes b) (nat c); Some (r, s + 1) }
          else if c \<le> 2047 then do { r \<leftarrow> bit7FF b c; Some (r, s + 1) }
          else if c < 55296 \<or> c \<ge> 57344 then do { r \<leftarrow> block_contains b c; Some (r, s + 1) }
          else do {
            pair \<leftarrow> (if c \<ge> 56320 \<or> s + 1 = limit then Some None
                    else do { c2 \<leftarrow> rd str (s + 1);
                              Some (if c2 < 56320 \<or> c2 \<ge> 57344 then None else Some c2) });
            case pair of
              None \<Rightarrow> do { r \<leftarrow> slow_between b c 13 14; Some (r, s + 1) }
            | Some c2 \<Rightarrow> do { r \<leftarrow> slow_between b (u16_supplementary c c2) 16 17; Some (r, s + 2) } } }"

lemma bmp_span_unit_less: "bmp_span_unit b str s limit = Some (r, j) \<Longrightarrow> s < j"
  by (auto simp: bmp_span_unit_def bind_eq_Some_conv split: if_splits option.splits)

function bmp_span :: "bmpset \<Rightarrow> int list \<Rightarrow> nat \<Rightarrow> nat \<Rightarrow> bool \<Rightarrow> nat option" where
  "bmp_span b str s limit cond =
     (case bmp_span_unit b str s limit of
        None \<Rightarrow> None
      | Some (r, nxt) \<Rightarrow>
          if r \<noteq> cond then Some s
          else if nxt < limit then bmp_span b str nxt limit cond else Some nxt)"
  by pat_completeness auto
termination
  by (relation "measure (\<lambda>(b, str, s, limit, cond). limit - s)") (auto dest: bmp_span_unit_less)

text \<open>
  The same for the unit or the pair before \<open>limit\<close>, which is above \<open>s\<close>. When the test
  of a pair fails, \<open>limit\<close> has moved over the trail unit only, and \<open>limit+1\<close> is the
  index behind the pair.
\<close>

definition bmp_back_unit :: "bmpset \<Rightarrow> int list \<Rightarrow> nat \<Rightarrow> nat \<Rightarrow> (bool \<times> nat) option" where
  "bmp_back_unit b str s limit =
     (if limit = 0 then None
      else do { let limit = limit - 1;
          c \<leftarrow> rd str limit;
          if c \<le> 127 then do { r \<leftarrow> rd (bs_asciiBytes b) (nat c); Some (r, limit) }
          else if c \<le> 2047 then do { r \<leftarrow> bit7FF b c; Some (r, limit) }
          else if c < 55296 \<or> c \<ge> 57344 then do { r \<leftarrow> block_contains b c; Some (r, limit) }
          else do {
            pair \<leftarrow> (if c < 56320 \<or> s = limit then Some None
                    else do { c2 \<leftarrow> rd str (limit - 1);
                              Some (if c2 < 55296 \<or> c2 \<ge> 56320 then None else Some c2) });
            case pair of
              None \<Rightarrow> do { r \<leftarrow> slow_between b c 13 14; Some (r, limit) }
            | Some c2 \<Rightarrow> do { r \<leftarrow> slow_between b (u16_supplementary c2 c) 16 17; Some (r, limit - 1) } } })"

lemma bmp_back_unit_less: "bmp_back_unit b str s limit = Some (r, j) \<Longrightarrow> j < limit"
  by (auto simp: bmp_back_unit_def Let_def bind_eq_Some_conv split: if_splits option.splits)

function bmp_spanBack :: "bmpset \<Rightarrow> int list \<Rightarrow> nat \<Rightarrow> nat \<Rightarrow> bool \<Rightarrow> nat option" where
  "bmp_spanBack b str s limit cond =
     (case bmp_back_unit b str s limit of
        None \<Rightarrow> None
      | Some (r, nxt) \<Rightarrow>
          if r \<noteq> cond then Some limit
          else if nxt = s then Some s else bmp_spanBack b str s nxt cond)"
  by pat_completeness auto
termination
  by (relation "measure (\<lambda>(b, str, s, limit, cond). limit)") (auto dest: bmp_back_unit_less)

declare bmp_span.simps [simp del] bmp_spanBack.simps [simp del]

section \<open>The tables decide membership\<close>

interpretation bmp: code_point_set bmpset_ok bmp_contains "\<lambda>b. inv_set (bs_list b)"
  by unfold_locales (simp add: bmp_contains_spec)

text \<open>One pass of the loops is a step of \<open>U16_NEXT\<close> (\<open>U16_PREV\<close>) and a \<open>contains\<close>.\<close>

lemma ascii_spec:
  "bmpset_ok b \<Longrightarrow> 0 \<le> c \<Longrightarrow> c \<le> 127 \<Longrightarrow>
     rd (bs_asciiBytes b) (nat c) = Some (c \<in> inv_set (bs_list b))"
  by (auto simp: bmpset_ok_def tables_ok_def)

lemma surrogate_spec:
  "bmpset_ok b \<Longrightarrow> 55296 \<le> c \<Longrightarrow> c < 57344 \<Longrightarrow> slow_between b c 13 14 = Some (c \<in> inv_set (bs_list b))"
  "bmpset_ok b \<Longrightarrow> u16_is_lead l \<Longrightarrow> u16_is_trail t \<Longrightarrow>
     slow_between b (u16_supplementary l t) 16 17 = Some (u16_supplementary l t \<in> inv_set (bs_list b))"
  using slow_between_spec [of b 13 14 c] slow_between_spec [of b 16 17 "u16_supplementary l t"]
    supplementary_range [of l t] by simp_all

lemma bmp_span_unit_next:
  assumes "bmpset_ok b" "units_ok str" "s < limit" "limit = length str"
  shows "\<exists>c j. u16_next str s limit = Some (c, j) \<and>
    bmp_span_unit b str s limit = Some (c \<in> inv_set (bs_list b), j) \<and> 0 \<le> c \<and> c < 1114112"
proof -
  let ?c = "str ! s"
  have c: "0 \<le> ?c" "?c < 65536" using units_ok_nth [OF assms(2)] assms(3,4) by auto
  consider "?c \<le> 127" | "127 < ?c" "?c \<le> 2047" | "2047 < ?c" "?c < 55296 \<or> ?c \<ge> 57344"
    | "55296 \<le> ?c" "?c < 57344" by linarith
  then show ?thesis
  proof cases
    case 1
    with ascii_spec [OF assms(1) c(1)] c assms(3,4) show ?thesis
      by (simp add: bmp_span_unit_def u16_next_def u16_is_lead_def)
  next
    case 2
    with bit7FF_spec [OF assms(1), of ?c] c assms(3,4) show ?thesis
      by (simp add: bmp_span_unit_def u16_next_def u16_is_lead_def)
  next
    case 3
    with block_contains_spec [OF assms(1), of ?c] c assms(3,4) show ?thesis
      by (auto simp: bmp_span_unit_def u16_next_def u16_is_lead_def)
  next
    case 4
    show ?thesis
    proof (cases "u16_is_lead ?c \<and> s + 1 \<noteq> limit \<and> u16_is_trail (str ! (s + 1))")
      case True
      with surrogate_spec(2) [OF assms(1), of ?c "str ! (s + 1)"]
        supplementary_range [of ?c "str ! (s + 1)"] 4 assms(3,4)
      show ?thesis by (auto simp: bmp_span_unit_def u16_next_def u16_is_lead_def u16_is_trail_def)
    next
      case False
      with surrogate_spec(1) [OF assms(1) 4] 4 assms(3,4) show ?thesis
        by (auto simp: bmp_span_unit_def u16_next_def u16_is_lead_def u16_is_trail_def)
    qed
  qed
qed

lemma bmp_back_unit_prev:
  assumes "bmpset_ok b" "units_ok str" "0 < limit" "limit \<le> length str"
  shows "\<exists>c j. u16_prev str 0 limit = Some (c, j) \<and>
    bmp_back_unit b str 0 limit = Some (c \<in> inv_set (bs_list b), j) \<and> 0 \<le> c \<and> c < 1114112"
proof -
  let ?c = "str ! (limit - 1)" and ?p = "str ! (limit - 2)"
  have c: "0 \<le> ?c" "?c < 65536" using units_ok_nth [OF assms(2), of "limit - 1"] assms(3,4) by auto
  have r: "rd str (limit - 1) = Some ?c" "limit - 1 \<noteq> 0 \<Longrightarrow> rd str (limit - 2) = Some ?p"
    using assms(3,4) by auto
  consider "?c \<le> 127" | "127 < ?c" "?c \<le> 2047" | "2047 < ?c" "?c < 55296 \<or> ?c \<ge> 57344"
    | "55296 \<le> ?c" "?c < 57344" by linarith
  then show ?thesis
  proof cases
    case 1
    with ascii_spec [OF assms(1) c(1)] c r assms(3) show ?thesis
      by (simp add: bmp_back_unit_def Let_def u16_prev_def u16_is_trail_def)
  next
    case 2
    with bit7FF_spec [OF assms(1), of ?c] c r assms(3) show ?thesis
      by (simp add: bmp_back_unit_def Let_def u16_prev_def u16_is_trail_def)
  next
    case 3
    with block_contains_spec [OF assms(1), of ?c] c r assms(3) show ?thesis
      by (auto simp: bmp_back_unit_def Let_def u16_prev_def u16_is_trail_def)
  next
    case 4
    have e: "limit - Suc (Suc 0) = limit - 2" by simp
    show ?thesis
    proof (cases "u16_is_trail ?c \<and> limit - 1 \<noteq> 0 \<and> u16_is_lead ?p")
      case True
      with surrogate_spec(2) [OF assms(1), of ?p ?c] supplementary_range [of ?p ?c] 4 r assms(3)
      show ?thesis by (auto simp: bmp_back_unit_def Let_def u16_prev_def u16_is_lead_def u16_is_trail_def e)
    next
      case False
      with surrogate_spec(1) [OF assms(1) 4] 4 r assms(3) show ?thesis
        by (auto simp: bmp_back_unit_def Let_def u16_prev_def u16_is_lead_def u16_is_trail_def e)
    qed
  qed
qed

lemma bmp_span_generic:
  assumes "bmpset_ok b" "units_ok str" "s < length str"
  shows "bmp_span b str s (length str) cond = span_loop (bmp_contains b) str s (length str) cond"
  using assms(3)
proof (induction "length str - s" arbitrary: s rule: less_induct)
  case less
  obtain c j where n: "u16_next str s (length str) = Some (c, j)"
    "bmp_span_unit b str s (length str) = Some (c \<in> inv_set (bs_list b), j)" "0 \<le> c" "c < 1114112"
    using bmp_span_unit_next [OF assms(1,2) less.prems refl] by blast
  show ?case
    using n less.hyps [of j] u16_next_less [OF n(1)] bmp_contains_spec [OF assms(1), of c]
    by (auto simp: bmp_span.simps [of b str s] span_loop.simps [of _ str s])
qed

lemma bmp_spanBack_generic:
  assumes "bmpset_ok b" "units_ok str" "0 < limit" "limit \<le> length str"
  shows "bmp_spanBack b str 0 limit cond = span_back_loop (bmp_contains b) str limit cond"
  using assms(3,4)
proof (induction limit rule: less_induct)
  case (less limit)
  obtain c j where n: "u16_prev str 0 limit = Some (c, j)"
    "bmp_back_unit b str 0 limit = Some (c \<in> inv_set (bs_list b), j)" "0 \<le> c" "c < 1114112"
    using bmp_back_unit_prev [OF assms(1,2) less.prems] by blast
  show ?case
    using n less.IH [of j] u16_prev_less [OF n(1)] bmp_contains_spec [OF assms(1), of c] less.prems
    by (auto simp: bmp_spanBack.simps [of b str 0] span_back_loop.simps [of _ str limit])
qed

lemma bmp_span_spec:
  "bmpset_ok b \<Longrightarrow> units_ok str \<Longrightarrow> str \<noteq> [] \<Longrightarrow>
     bmp_span b str 0 (length str) cond =
       Some (u16_len (takeWhile (\<lambda>c. (c \<in> inv_set (bs_list b)) = cond) (cps str)))"
  by (simp add: bmp_span_generic bmp.span)

lemma bmp_spanBack_spec:
  "bmpset_ok b \<Longrightarrow> units_ok str \<Longrightarrow> str \<noteq> [] \<Longrightarrow>
     bmp_spanBack b str 0 (length str) cond =
       Some (length str - u16_len (takeWhile (\<lambda>c. (c \<in> inv_set (bs_list b)) = cond) (rev (cps str))))"
  by (simp add: bmp_spanBack_generic bmp.span_back)

section \<open>Spans over text\<close>

text \<open>C25: On well-formed or ill-formed UTF-16 text the inlined forward loop of the frozen set
  stops where the loop of \<open>UnicodeSet::span\<close> over single code points stops: the span is the
  longest prefix of whole code points that are all in (or all out of) the set.\<close>

theorem bmpset_span_correct:
  assumes "inv_list xs" "units_ok str" "str \<noteq> []"
  shows "\<exists>b. bmpset_new xs = Some b \<and>
    bmp_span b str 0 (length str) cond =
      Some (u16_len (takeWhile (\<lambda>c. (c \<in> inv_set xs) = cond) (cps str))) \<and>
    bmp_span b str 0 (length str) cond = span_loop (bmp_contains b) str 0 (length str) cond"
proof -
  from bmpset_new_ok [OF assms(1)] obtain b where b: "bmpset_new xs = Some b" "bmpset_ok b" "bs_list b = xs" by blast
  with bmp_span_spec [OF b(2) assms(2,3), of cond] bmp_span_generic [OF b(2) assms(2), of 0 cond] assms(3)
  show ?thesis by auto
qed

theorem bmpset_span_correct_witness:
  "\<exists>b. bmpset_new [97, 123, 65536, 1114112] = Some b \<and> bmp_span b [97, 55357, 56832, 98, 65] 0 5 True = Some 4"
proof -
  have five: "Suc (Suc (Suc (Suc (Suc 0)))) = 5" by simp
  have "inv_list [97, 123, 65536, 1114112]" by (simp add: inv_list_def inv_tail_def)
  from bmpset_span_correct [OF this, of "[97, 55357, 56832, 98, 65]" True] show ?thesis
    by (auto simp: u16_is_lead_def u16_is_trail_def u16_supplementary_def inv_set_def u16_length_def five)
qed

text \<open>C26: The backward loop of the frozen set returns the start of the longest suffix of whole
  code points that are all in (or all out of) the set.\<close>

theorem bmpset_spanBack_correct:
  assumes "inv_list xs" "units_ok str" "str \<noteq> []"
  shows "\<exists>b. bmpset_new xs = Some b \<and>
    bmp_spanBack b str 0 (length str) cond =
      Some (length str - u16_len (takeWhile (\<lambda>c. (c \<in> inv_set xs) = cond) (rev (cps str)))) \<and>
    bmp_spanBack b str 0 (length str) cond = span_back_loop (bmp_contains b) str (length str) cond"
proof -
  from bmpset_new_ok [OF assms(1)] obtain b where b: "bmpset_new xs = Some b" "bmpset_ok b" "bs_list b = xs" by blast
  with bmp_spanBack_spec [OF b(2) assms(2,3), of cond] bmp_spanBack_generic [OF b(2) assms(2), of "length str" cond] assms(3)
  show ?thesis by auto
qed

theorem bmpset_spanBack_correct_witness:
  "\<exists>b. bmpset_new [97, 123, 65536, 1114112] = Some b \<and> bmp_spanBack b [65, 97, 55357, 56832, 98] 0 5 True = Some 1"
proof -
  have five: "Suc (Suc (Suc (Suc (Suc 0)))) = 5" by simp
  have "inv_list [97, 123, 65536, 1114112]" by (simp add: inv_list_def inv_tail_def)
  from bmpset_spanBack_correct [OF this, of "[65, 97, 55357, 56832, 98]" True] show ?thesis
    by (auto simp: u16_is_lead_def u16_is_trail_def u16_supplementary_def inv_set_def u16_length_def five)
qed

end
