(* ===== verification/UVec.thy ===== *)
theory UVec
  imports Prelude "HOL-Library.Multiset"
begin

text \<open>
  \<open>UVector\<close> and \<open>UStack\<close> (uvector.cpp, ustack.cpp) over pointers: a growable array of
  \<open>UElement\<close> with an optional deleter, which makes the vector the owner of what it
  points to, and an optional comparer. A pointer is a value of the type \<open>'p\<close>, the null
  pointer is \<open>None\<close>. The ghost field \<open>uv_deleted\<close> lists the pointers handed to the
  deleter, so that ownership can be stated: nothing is lost and nothing deleted twice.

  \<open>UElement\<close> is a union. Where the code reads its \<open>integer\<close> member for a pointer, \<open>ib\<close>
  is what that member holds (the low half of the address). The overloads that store
  integers are not modelled. \<open>sizeof(UElement)\<close> is 8, a 64-bit pointer.
\<close>

section \<open>The code\<close>

record 'p uvector =
  uv_count :: int
  uv_capacity :: int
  uv_elements :: "'p option list"
  uv_deleter :: bool
  uv_comparer :: "('p option \<Rightarrow> 'p option \<Rightarrow> bool) option"
  uv_deleted :: "'p list"

abbreviation UV_DEFAULT_CAPACITY :: int where
  "UV_DEFAULT_CAPACITY \<equiv> 8"

text \<open>\<open>INT32_MAX / sizeof(UElement)\<close>\<close>

abbreviation UV_MAX :: int where
  "UV_MAX \<equiv> 268435455"

definition uv_init :: "'p option heap \<Rightarrow> int \<Rightarrow> 'p uvector \<Rightarrow> UErrorCode \<Rightarrow> 'p uvector \<times> UErrorCode" where
  "uv_init h initialCapacity v status =
     (if U_FAILURE status then (v, status)
      else let c = (if initialCapacity < 1 \<or> initialCapacity > UV_MAX then UV_DEFAULT_CAPACITY
                    else initialCapacity)
           in if uprv_malloc h (8 * c)
              then (v\<lparr>uv_elements := realloc h [] (nat c), uv_capacity := c\<rparr>, status)
              else (v, U_MEMORY_ALLOCATION_ERROR))"

definition uv_new ::
  "'p option heap \<Rightarrow> bool \<Rightarrow> ('p option \<Rightarrow> 'p option \<Rightarrow> bool) option \<Rightarrow> int \<Rightarrow> UErrorCode \<Rightarrow>
   'p uvector \<times> UErrorCode" where
  "uv_new h d c initialCapacity status =
     uv_init h initialCapacity
       \<lparr>uv_count = 0, uv_capacity = 0, uv_elements = [], uv_deleter = d, uv_comparer = c,
        uv_deleted = []\<rparr> status"

text \<open>\<open>if (e != 0 && deleter != 0) (*deleter)(e);\<close>\<close>

definition uv_delete :: "'p option \<Rightarrow> 'p uvector \<Rightarrow> 'p uvector" where
  "uv_delete e v =
     (case e of None \<Rightarrow> v
      | Some p \<Rightarrow> if uv_deleter v then v\<lparr>uv_deleted := uv_deleted v @ [p]\<rparr> else v)"

definition uv_ensureCapacity ::
  "'p option heap \<Rightarrow> int \<Rightarrow> 'p uvector \<Rightarrow> UErrorCode \<Rightarrow> bool \<times> 'p uvector \<times> UErrorCode" where
  "uv_ensureCapacity h minimumCapacity v status =
     (if minimumCapacity < 0 then (False, v, U_ILLEGAL_ARGUMENT_ERROR)
      else if uv_capacity v < minimumCapacity
      then if uv_capacity v > (INT32_MAX - 1) div 2 then (False, v, U_ILLEGAL_ARGUMENT_ERROR)
        else let newCap = uv_capacity v * 2;
                 newCap = (if newCap < minimumCapacity then minimumCapacity else newCap)
             in if newCap > UV_MAX then (False, v, U_ILLEGAL_ARGUMENT_ERROR)
                else if \<not> uprv_realloc h (8 * newCap) then (False, v, U_MEMORY_ALLOCATION_ERROR)
                else (True, v\<lparr>uv_elements := realloc h (uv_elements v) (nat newCap),
                             uv_capacity := newCap\<rparr>, status)
      else (True, v, status))"

definition uv_addElement ::
  "'p option heap \<Rightarrow> 'p option \<Rightarrow> 'p uvector \<Rightarrow> UErrorCode \<Rightarrow> ('p uvector \<times> UErrorCode) option" where
  "uv_addElement h obj v status =
     (case uv_ensureCapacity h (uv_count v + 1) v status of
        (True, v, status) \<Rightarrow> do {
          es \<leftarrow> wr (uv_elements v) (nat (uv_count v)) obj;
          Some (v\<lparr>uv_elements := es, uv_count := uv_count v + 1\<rparr>, status) }
      | (False, v, status) \<Rightarrow> Some (v, status))"

definition uv_setElementAt :: "'p option \<Rightarrow> int \<Rightarrow> 'p uvector \<Rightarrow> 'p uvector option" where
  "uv_setElementAt obj index v =
     (if 0 \<le> index \<and> index < uv_count v
      then do { e \<leftarrow> rd (uv_elements v) (nat index);
                let v = uv_delete e v;
                es \<leftarrow> wr (uv_elements v) (nat index) obj;
                Some (v\<lparr>uv_elements := es\<rparr>) }
      else Some v)"

definition uv_insertElementAt ::
  "'p option heap \<Rightarrow> 'p option \<Rightarrow> int \<Rightarrow> 'p uvector \<Rightarrow> UErrorCode \<Rightarrow> ('p uvector \<times> UErrorCode) option" where
  "uv_insertElementAt h obj index v status =
     (if 0 \<le> index \<and> index \<le> uv_count v
      then case uv_ensureCapacity h (uv_count v + 1) v status of
        (True, v, status) \<Rightarrow> do {
          es \<leftarrow> shift_up (uv_elements v) (nat (uv_count v)) (nat index);
          es \<leftarrow> wr es (nat index) obj;
          Some (v\<lparr>uv_elements := es, uv_count := uv_count v + 1\<rparr>, status) }
      | (False, v, status) \<Rightarrow> Some (v, status)
      else Some (v, status))"

definition uv_elementAt :: "'p uvector \<Rightarrow> int \<Rightarrow> 'p option option" where
  "uv_elementAt v index =
     (if 0 \<le> index \<and> index < uv_count v then rd (uv_elements v) (nat index) else Some None)"

text \<open>
  \<open>indexOf(UElement key, int32_t startIndex, int8_t hint)\<close>: with a comparer it decides;
  without one, the hint chooses between the pointer and the integer member. A start below zero is read,
  and so has no result, unless the vector ends before it.
\<close>

definition uv_indexOf_key ::
  "('p option \<Rightarrow> int) \<Rightarrow> 'p uvector \<Rightarrow> 'p option \<Rightarrow> int \<Rightarrow> bool \<Rightarrow> int option" where
  "uv_indexOf_key ib v key startIndex hint_pointer =
     (if startIndex < 0 then (if startIndex < uv_count v then None else Some (- 1))
      else scan_from
       (case uv_comparer v of
          Some eq \<Rightarrow> eq key
        | None \<Rightarrow> if hint_pointer then (\<lambda>e. key = e) else (\<lambda>e. ib key = ib e))
       (uv_elements v) (nat startIndex) (nat (uv_count v)))"

definition uv_indexOf :: "'p uvector \<Rightarrow> 'p option \<Rightarrow> int \<Rightarrow> int option" where
  "uv_indexOf v obj startIndex = uv_indexOf_key (\<lambda>_. 0) v obj startIndex True"

definition uv_contains :: "'p uvector \<Rightarrow> 'p option \<Rightarrow> bool option" where
  "uv_contains v obj = do { i \<leftarrow> uv_indexOf v obj 0; Some (i \<ge> 0) }"

definition uv_containsAll :: "('p option \<Rightarrow> int) \<Rightarrow> 'p uvector \<Rightarrow> 'p uvector \<Rightarrow> bool option" where
  "uv_containsAll ib v other =
     each_from (\<lambda>e. do { j \<leftarrow> uv_indexOf_key ib v e 0 False; Some (\<not> j < 0) })
       (uv_elements other) 0 (nat (uv_count other))"

definition uv_containsNone :: "('p option \<Rightarrow> int) \<Rightarrow> 'p uvector \<Rightarrow> 'p uvector \<Rightarrow> bool option" where
  "uv_containsNone ib v other =
     each_from (\<lambda>e. do { j \<leftarrow> uv_indexOf_key ib v e 0 False; Some (\<not> j \<ge> 0) })
       (uv_elements other) 0 (nat (uv_count other))"

definition uv_orphanElementAt :: "int \<Rightarrow> 'p uvector \<Rightarrow> ('p option \<times> 'p uvector) option" where
  "uv_orphanElementAt index v =
     (if 0 \<le> index \<and> index < uv_count v
      then do { e \<leftarrow> rd (uv_elements v) (nat index);
                es \<leftarrow> shift_down (uv_elements v) (nat index) (nat (uv_count v - 1));
                Some (e, v\<lparr>uv_elements := es, uv_count := uv_count v - 1\<rparr>) }
      else Some (None, v))"

definition uv_removeElementAt :: "int \<Rightarrow> 'p uvector \<Rightarrow> 'p uvector option" where
  "uv_removeElementAt index v =
     do { (e, v) \<leftarrow> uv_orphanElementAt index v; Some (uv_delete e v) }"

definition uv_removeElement :: "'p option \<Rightarrow> 'p uvector \<Rightarrow> ('p uvector \<times> bool) option" where
  "uv_removeElement obj v =
     do { i \<leftarrow> uv_indexOf v obj 0;
          if i \<ge> 0 then do { v \<leftarrow> uv_removeElementAt i v; Some (v, True) } else Some (v, False) }"

function uv_removeAll_loop ::
  "('p option \<Rightarrow> int) \<Rightarrow> 'p option list \<Rightarrow> nat \<Rightarrow> nat \<Rightarrow> 'p uvector \<Rightarrow> bool \<Rightarrow> ('p uvector \<times> bool) option" where
  "uv_removeAll_loop ib es i n v changed =
     (if i < n
      then do { e \<leftarrow> rd es i; j \<leftarrow> uv_indexOf_key ib v e 0 False;
                if j \<ge> 0
                then do { v \<leftarrow> uv_removeElementAt j v; uv_removeAll_loop ib es (i + 1) n v True }
                else uv_removeAll_loop ib es (i + 1) n v changed }
      else Some (v, changed))"
  by pat_completeness auto
termination
  by (relation "measure (\<lambda>(ib, es, i, n, v, changed). n - i)") auto

declare uv_removeAll_loop.simps [simp del]

text \<open>\<open>other\<close> is another vector: \<open>v.removeAll(v)\<close> would shrink the list it walks.\<close>

definition uv_removeAll :: "('p option \<Rightarrow> int) \<Rightarrow> 'p uvector \<Rightarrow> 'p uvector \<Rightarrow> ('p uvector \<times> bool) option" where
  "uv_removeAll ib v other =
     uv_removeAll_loop ib (uv_elements other) 0 (nat (uv_count other)) v False"

fun uv_retainAll_loop ::
  "('p option \<Rightarrow> int) \<Rightarrow> 'p uvector \<Rightarrow> nat \<Rightarrow> 'p uvector \<Rightarrow> bool \<Rightarrow> ('p uvector \<times> bool) option" where
  "uv_retainAll_loop ib other 0 v changed = Some (v, changed)"
| "uv_retainAll_loop ib other (Suc j) v changed =
     do { e \<leftarrow> rd (uv_elements v) j; i \<leftarrow> uv_indexOf_key ib other e 0 False;
          if i < 0
          then do { v \<leftarrow> uv_removeElementAt (int j) v; uv_retainAll_loop ib other j v True }
          else uv_retainAll_loop ib other j v changed }"

definition uv_retainAll :: "('p option \<Rightarrow> int) \<Rightarrow> 'p uvector \<Rightarrow> 'p uvector \<Rightarrow> ('p uvector \<times> bool) option" where
  "uv_retainAll ib v other = uv_retainAll_loop ib other (nat (uv_count v)) v False"

text \<open>\<open>for (i=0; i<count; ++i) if (elements[i].pointer != 0) (*deleter)(elements[i].pointer);\<close>\<close>

function uv_delete_loop :: "nat \<Rightarrow> nat \<Rightarrow> 'p uvector \<Rightarrow> 'p uvector option" where
  "uv_delete_loop i n v =
     (if i < n then do { e \<leftarrow> rd (uv_elements v) i; uv_delete_loop (i + 1) n (uv_delete e v) }
      else Some v)"
  by pat_completeness auto
termination
  by (relation "measure (\<lambda>(i, n, v). n - i)") auto

declare uv_delete_loop.simps [simp del]

definition uv_removeAllElements :: "'p uvector \<Rightarrow> 'p uvector option" where
  "uv_removeAllElements v =
     do { v \<leftarrow> (if uv_deleter v then uv_delete_loop 0 (nat (uv_count v)) v else Some v);
          Some (v\<lparr>uv_count := 0\<rparr>) }"

text \<open>
  \<open>equals\<close> passes the comparer the address of the cell of the other vector, not the pointer
  stored there: \<open>addr i\<close> is that address.
\<close>

definition uv_equals :: "(nat \<Rightarrow> 'p) \<Rightarrow> 'p uvector \<Rightarrow> 'p uvector \<Rightarrow> bool option" where
  "uv_equals addr v other =
     (if uv_count v \<noteq> uv_count other then Some False
      else case uv_comparer v of
        None \<Rightarrow> same_from (=) (uv_elements v) (uv_elements other) 0 (nat (uv_count v))
      | Some eq \<Rightarrow> same_from (\<lambda>e key. eq key e) (uv_elements v)
          (map (\<lambda>i. Some (addr i)) [0..<nat (uv_count v)]) 0 (nat (uv_count v)))"

definition uv_eq :: "'p uvector \<Rightarrow> 'p uvector \<Rightarrow> bool option" where
  "uv_eq v other =
     (if uv_count v \<noteq> uv_count other then Some False
      else case uv_comparer v of
        None \<Rightarrow> Some True
      | Some eq \<Rightarrow> same_from eq (uv_elements v) (uv_elements other) 0 (nat (uv_count v)))"

text \<open>\<open>for (i=count; i<newSize; ++i) elements[i] = empty;\<close>\<close>

function uv_fill :: "'p option list \<Rightarrow> nat \<Rightarrow> nat \<Rightarrow> 'p option list option" where
  "uv_fill es i n = (if i < n then do { es \<leftarrow> wr es i None; uv_fill es (i + 1) n } else Some es)"
  by pat_completeness auto
termination
  by (relation "measure (\<lambda>(es, i, n). n - i)") auto

text \<open>\<open>for (i=count-1; i>=newSize; --i) removeElementAt(i);\<close> with \<open>k = i + 1\<close>\<close>

fun uv_cut :: "nat \<Rightarrow> nat \<Rightarrow> 'p uvector \<Rightarrow> 'p uvector option" where
  "uv_cut 0 newSize v = Some v"
| "uv_cut (Suc i) newSize v =
     (if i \<ge> newSize then do { v \<leftarrow> uv_removeElementAt (int i) v; uv_cut i newSize v } else Some v)"

definition uv_setSize ::
  "'p option heap \<Rightarrow> int \<Rightarrow> 'p uvector \<Rightarrow> UErrorCode \<Rightarrow> ('p uvector \<times> UErrorCode) option" where
  "uv_setSize h newSize v status =
     (if newSize < 0 then Some (v, status)
      else if newSize > uv_count v
      then case uv_ensureCapacity h newSize v status of
             (False, v, status) \<Rightarrow> Some (v, status)
           | (True, v, status) \<Rightarrow> do {
               es \<leftarrow> uv_fill (uv_elements v) (nat (uv_count v)) (nat newSize);
               Some (v\<lparr>uv_elements := es, uv_count := newSize\<rparr>, status) }
      else do { v \<leftarrow> uv_cut (nat (uv_count v)) (nat newSize) v;
                Some (v\<lparr>uv_count := newSize\<rparr>, status) })"

text \<open>The loop of \<open>assign\<close>; \<open>asg\<close> is what \<open>(*assign)\<close> stores for an element (a clone).\<close>

function uv_assign_loop ::
  "('p option \<Rightarrow> 'p option) \<Rightarrow> 'p option list \<Rightarrow> nat \<Rightarrow> nat \<Rightarrow> 'p uvector \<Rightarrow> 'p uvector option" where
  "uv_assign_loop asg os i n v =
     (if i < n
      then do { e \<leftarrow> rd (uv_elements v) i;
                let v = uv_delete e v;
                x \<leftarrow> rd os i;
                es \<leftarrow> wr (uv_elements v) i (asg x);
                uv_assign_loop asg os (i + 1) n (v\<lparr>uv_elements := es\<rparr>) }
      else Some v)"
  by pat_completeness auto
termination
  by (relation "measure (\<lambda>(asg, os, i, n, v). n - i)") auto

definition uv_assign ::
  "'p option heap \<Rightarrow> ('p option \<Rightarrow> 'p option) \<Rightarrow> 'p uvector \<Rightarrow> 'p uvector \<Rightarrow> UErrorCode \<Rightarrow>
   ('p uvector \<times> UErrorCode) option" where
  "uv_assign h asg other v ec =
     (case uv_ensureCapacity h (uv_count other) v ec of
        (False, v, ec) \<Rightarrow> Some (v, ec)
      | (True, v, ec) \<Rightarrow> do {
          (v, ec) \<leftarrow> uv_setSize h (uv_count other) v ec;
          if \<not> U_FAILURE ec
          then do { v \<leftarrow> uv_assign_loop asg (uv_elements other) 0 (nat (uv_count other)) v;
                    Some (v, ec) }
          else Some (v, ec) })"

text \<open>\<open>compare\<close> gives the sign of the comparison, as \<open>int8_t\<close>.\<close>

definition uv_sortedInsert ::
  "'p option heap \<Rightarrow> 'p option \<Rightarrow> ('p option \<Rightarrow> 'p option \<Rightarrow> int) \<Rightarrow> 'p uvector \<Rightarrow> UErrorCode \<Rightarrow>
   ('p uvector \<times> UErrorCode) option" where
  "uv_sortedInsert h e compare v ec =
     do { mn \<leftarrow> upper_search (\<lambda>x. compare x e > 0) (uv_elements v) 0 (nat (uv_count v));
          case uv_ensureCapacity h (uv_count v + 1) v ec of
            (True, v, ec) \<Rightarrow> do {
              es \<leftarrow> shift_up (uv_elements v) (nat (uv_count v)) mn;
              es \<leftarrow> wr es mn e;
              Some (v\<lparr>uv_elements := es, uv_count := uv_count v + 1\<rparr>, ec) }
          | (False, v, ec) \<Rightarrow> Some (v, ec) }"

definition uv_toArray :: "'p uvector \<Rightarrow> 'p option list" where
  "uv_toArray v = take (nat (uv_count v)) (uv_elements v)"

text \<open>\<open>UStack\<close>\<close>

definition us_push ::
  "'p option heap \<Rightarrow> 'p option \<Rightarrow> 'p uvector \<Rightarrow> UErrorCode \<Rightarrow> ('p option \<times> 'p uvector \<times> UErrorCode) option" where
  "us_push h obj v status = do { (v, status) \<leftarrow> uv_addElement h obj v status; Some (obj, v, status) }"

definition us_peek :: "'p uvector \<Rightarrow> 'p option option" where
  "us_peek v = uv_elementAt v (uv_count v - 1)"

definition us_pop :: "'p uvector \<Rightarrow> ('p option \<times> 'p uvector) option" where
  "us_pop v =
     (let n = uv_count v - 1
      in if n \<ge> 0 then do { result \<leftarrow> uv_elementAt v n; v \<leftarrow> uv_removeElementAt n v; Some (result, v) }
         else Some (None, v))"

definition us_search :: "'p uvector \<Rightarrow> 'p option \<Rightarrow> int option" where
  "us_search v obj = do { i \<leftarrow> uv_indexOf v obj 0; Some (if i \<ge> 0 then uv_count v - i else i) }"

section \<open>Abstraction, invariant and ownership\<close>

definition uv_list :: "'p uvector \<Rightarrow> 'p option list" where
  "uv_list v = take (nat (uv_count v)) (uv_elements v)"

definition uv_ok :: "'p uvector \<Rightarrow> bool" where
  "uv_ok v \<longleftrightarrow> 0 \<le> uv_count v \<and> uv_count v \<le> uv_capacity v \<and> uv_capacity v \<le> UV_MAX \<and>
     length (uv_elements v) = nat (uv_capacity v)"

text \<open>The pointers of a list, and all that a vector with a deleter answers for.\<close>

definition ptrs :: "'p option list \<Rightarrow> 'p multiset" where
  "ptrs es = mset (map the (filter (\<lambda>e. e \<noteq> None) es))"

definition uv_owned :: "'p uvector \<Rightarrow> 'p multiset" where
  "uv_owned v = ptrs (uv_list v) + mset (uv_deleted v)"

lemma ptrs_simps [simp]:
  "ptrs [] = {#}" "ptrs (None # es) = ptrs es" "ptrs (Some p # es) = add_mset p (ptrs es)"
  "ptrs (es @ fs) = ptrs es + ptrs fs" "ptrs (replicate n None) = {#}"
  by (simp_all add: ptrs_def)

lemma ptrs_Cons: "ptrs (e # es) = ptrs [e] + ptrs es"
  by (cases e) simp_all

lemma uv_okD:
  assumes "uv_ok v"
  shows "0 \<le> uv_count v" "uv_count v \<le> uv_capacity v" "uv_capacity v \<le> UV_MAX"
    "length (uv_elements v) = nat (uv_capacity v)" "nat (uv_count v) \<le> length (uv_elements v)"
    "length (uv_list v) = nat (uv_count v)"
  using assms by (auto simp: uv_ok_def uv_list_def)

lemma uv_delete_simps [simp]:
  "uv_count (uv_delete e v) = uv_count v" "uv_capacity (uv_delete e v) = uv_capacity v"
  "uv_elements (uv_delete e v) = uv_elements v" "uv_deleter (uv_delete e v) = uv_deleter v"
  "uv_comparer (uv_delete e v) = uv_comparer v"
  "uv_list (uv_delete e v) = uv_list v" "uv_ok (uv_delete e v) = uv_ok v"
  by (auto simp: uv_delete_def uv_list_def uv_ok_def split: option.splits)

lemma uv_deleted_delete:
  "uv_deleter v \<Longrightarrow> mset (uv_deleted (uv_delete e v)) = ptrs [e] + mset (uv_deleted v)"
  by (cases e) (simp_all add: uv_delete_def)

text \<open>The settings no operation touches.\<close>

definition same_setup :: "'p uvector \<Rightarrow> 'p uvector \<Rightarrow> bool" where
  "same_setup v v' \<longleftrightarrow> uv_deleter v' = uv_deleter v \<and> uv_comparer v' = uv_comparer v"

lemma same_setup_refl [simp]: "same_setup v v"
  by (simp add: same_setup_def)

lemma same_setup_trans: "same_setup u v \<Longrightarrow> same_setup v w \<Longrightarrow> same_setup u w"
  by (simp add: same_setup_def)

lemma uv_new_ok:
  "uv_ok (fst (uv_new h d c n st))" "uv_list (fst (uv_new h d c n st)) = []"
  "uv_deleter (fst (uv_new h d c n st)) = d" "uv_comparer (fst (uv_new h d c n st)) = c"
  by (auto simp: uv_new_def uv_init_def uv_ok_def uv_list_def Let_def)

lemma uv_ensureCapacity_spec:
  assumes "uv_ok v" "uv_ensureCapacity h n v st = (ok, v', st')"
  shows "uv_ok v'" "uv_list v' = uv_list v" "uv_count v' = uv_count v" "same_setup v v'"
    "uv_deleted v' = uv_deleted v" "ok \<Longrightarrow> 0 \<le> n \<and> n \<le> uv_capacity v' \<and> st' = st"
    "\<not> ok \<Longrightarrow> U_FAILURE st' \<and> v' = v"
proof -
  note d = uv_okD [OF assms(1)]
  have "uv_ok v' \<and> uv_list v' = uv_list v \<and> uv_count v' = uv_count v \<and> same_setup v v' \<and>
    uv_deleted v' = uv_deleted v \<and> (ok \<longrightarrow> 0 \<le> n \<and> n \<le> uv_capacity v' \<and> st' = st) \<and>
    (\<not> ok \<longrightarrow> U_FAILURE st' \<and> v' = v)"
    using assms(2) d
    by (auto simp: uv_ensureCapacity_def uv_ok_def uv_list_def same_setup_def Let_def split: if_splits)
  then show "uv_ok v'" "uv_list v' = uv_list v" "uv_count v' = uv_count v" "same_setup v v'"
    "uv_deleted v' = uv_deleted v" "ok \<Longrightarrow> 0 \<le> n \<and> n \<le> uv_capacity v' \<and> st' = st"
    "\<not> ok \<Longrightarrow> U_FAILURE st' \<and> v' = v" by auto
qed

section \<open>Growing operations\<close>

definition uv_grows :: "('p uvector \<times> UErrorCode) option \<Rightarrow> 'p uvector \<Rightarrow> UErrorCode \<Rightarrow> 'p option list \<Rightarrow> bool" where
  "uv_grows r v st xs \<longleftrightarrow>
     (\<exists>v' st'. r = Some (v', st') \<and> uv_ok v' \<and> same_setup v v' \<and> uv_deleted v' = uv_deleted v \<and>
        ((st' = st \<and> uv_list v' = xs) \<or> (U_FAILURE st' \<and> v' = v)))"

lemma uv_make_room:
  assumes "uv_ok v" "i \<le> nat (uv_count v)"
  shows "uv_grows
     (case uv_ensureCapacity h (uv_count v + 1) v st of
        (True, v, st) \<Rightarrow> do {
          es \<leftarrow> shift_up (uv_elements v) (nat (uv_count v)) i;
          es \<leftarrow> wr es i e;
          Some (v\<lparr>uv_elements := es, uv_count := uv_count v + 1\<rparr>, st) }
      | (False, v, st) \<Rightarrow> Some (v, st))
     v st (take i (uv_list v) @ e # drop i (uv_list v))"
proof -
  obtain ok v1 st1 where r: "uv_ensureCapacity h (uv_count v + 1) v st = (ok, v1, st1)"
    by (metis prod_cases3)
  note s = uv_ensureCapacity_spec [OF assms(1) r]
  note d = uv_okD [OF s(1)]
  show ?thesis
  proof (cases ok)
    case False
    with s assms(1) show ?thesis by (auto simp: uv_grows_def r)
  next
    case True
    then have room: "uv_count v + 1 \<le> uv_capacity v1" "st1 = st" using s(6) by auto
    have c: "nat (uv_count v1) = nat (uv_count v)" "nat (uv_count v1) < length (uv_elements v1)"
      using d s(3) room by auto
    obtain es where es: "shift_up (uv_elements v1) (nat (uv_count v1)) i = Some es"
        "length es = length (uv_elements v1)"
        "take (nat (uv_count v1) + 1) (es[i := e]) =
          take i (uv_elements v1) @ e # drop i (take (nat (uv_count v1)) (uv_elements v1))"
      using shift_up_take [of i "nat (uv_count v1)" "uv_elements v1" e] assms(2) c by metis
    let ?v = "v1\<lparr>uv_elements := es[i := e], uv_count := uv_count v1 + 1\<rparr>"
    have "uv_list ?v = take i (uv_list v1) @ e # drop i (uv_list v1)"
      using es(3) assms(2) c(1) d(1) by (simp add: uv_list_def min_def nat_add_distrib)
    moreover have "uv_ok ?v" using d s(3) room es(2) by (simp add: uv_ok_def)
    moreover have "wr es i e = Some (es[i := e])" using es(2) c assms(2) by simp
    ultimately show ?thesis using True r s(2,4,5) es(1) room(2) by (auto simp: uv_grows_def same_setup_def)
  qed
qed

lemma uv_insertElementAt_grows:
  assumes "uv_ok v" "0 \<le> index" "index \<le> uv_count v"
  shows "uv_grows (uv_insertElementAt h e index v st) v st
    (take (nat index) (uv_list v) @ e # drop (nat index) (uv_list v))"
  using uv_make_room [where h = h and i = "nat index" and st = st and e = e, OF assms(1)] assms
  by (simp add: uv_insertElementAt_def)

lemma uv_addElement_grows:
  assumes "uv_ok v"
  shows "uv_grows (uv_addElement h e v st) v st (uv_list v @ [e])"
proof -
  obtain ok v1 st1 where r: "uv_ensureCapacity h (uv_count v + 1) v st = (ok, v1, st1)"
    by (metis prod_cases3)
  have c: "uv_count v1 = uv_count v" using uv_ensureCapacity_spec(3) [OF assms r] .
  have "uv_grows (case (ok, v1, st1) of
        (True, v, st) \<Rightarrow> do {
          es \<leftarrow> shift_up (uv_elements v) (nat (uv_count v)) (nat (uv_count v1));
          es \<leftarrow> wr es (nat (uv_count v1)) e;
          Some (v\<lparr>uv_elements := es, uv_count := uv_count v + 1\<rparr>, st) }
      | (False, v, st) \<Rightarrow> Some (v, st)) v st (uv_list v @ [e])"
    using uv_make_room [where h = h and i = "nat (uv_count v)" and st = st and e = e, OF assms]
      uv_okD(6) [OF assms] unfolding r c by simp
  then show ?thesis by (cases ok) (simp_all add: uv_addElement_def r)
qed

text \<open>\<open>sortedInsert\<close> under a comparison that orders the stored elements.\<close>

lemma uv_sortedInsert_grows:
  assumes "uv_ok v" "upward (\<lambda>x. compare x e > 0) (uv_list v)"
  shows "\<exists>m. m \<le> length (uv_list v) \<and>
    uv_grows (uv_sortedInsert h e compare v st) v st (take m (uv_list v) @ e # drop m (uv_list v)) \<and>
    (\<forall>x \<in> set (take m (uv_list v)). \<not> compare x e > 0) \<and> (\<forall>x \<in> set (drop m (uv_list v)). compare x e > 0)"
proof -
  let ?n = "nat (uv_count v)"
  note d = uv_okD [OF assms(1)]
  obtain m where m: "upper_search (\<lambda>x. compare x e > 0) (uv_elements v) 0 ?n = Some m" "m \<le> ?n"
      "\<forall>k < m. \<not> compare (uv_elements v ! k) e > 0"
      "\<forall>k. m \<le> k \<longrightarrow> k < ?n \<longrightarrow> compare (uv_elements v ! k) e > 0"
    using upper_search_split [of 0 ?n ?n "uv_elements v" "\<lambda>x. compare x e > 0"] d assms(2)
    by (auto simp: uv_list_def)
  have "uv_grows (uv_sortedInsert h e compare v st) v st (take m (uv_list v) @ e # drop m (uv_list v))"
    using uv_make_room [where h = h and st = st and e = e, OF assms(1) m(2)] m(1)
    by (simp add: uv_sortedInsert_def)
  moreover have "\<forall>x \<in> set (take m (uv_list v)). \<not> compare x e > 0"
    using m(2,3) d(5) by (auto simp: in_set_conv_nth uv_list_def)
  moreover have "\<forall>x \<in> set (drop m (uv_list v)). compare x e > 0"
    using m(2,4) d(5) by (auto simp: in_set_conv_nth uv_list_def)
  ultimately show ?thesis using m(2) d(6) by auto
qed

lemma uv_grows_owned:
  assumes "uv_grows r v st (xs @ e # ys)" "uv_list v = xs @ ys" "r = Some (v', st')"
  shows "uv_owned v' = uv_owned v \<or> uv_owned v' = uv_owned v + ptrs [e]"
  using assms by (cases e) (auto simp: uv_grows_def uv_owned_def)

section \<open>Lookups\<close>

lemma uv_indexOf_key_eq:
  assumes "uv_ok v" "uv_comparer v = Some eq"
  shows "uv_indexOf_key ib v key 0 hint = Some (index_or_minus1 (first_index (eq key) (uv_list v)))"
  using scan_from_0 [OF uv_okD(5) [OF assms(1)]] assms(2) by (simp add: uv_indexOf_key_def uv_list_def)

lemma uv_indexOf_eq:
  assumes "uv_ok v" "uv_comparer v = Some eq"
  shows "uv_indexOf v key 0 = Some (index_or_minus1 (first_index (eq key) (uv_list v)))"
  using uv_indexOf_key_eq [OF assms] by (simp add: uv_indexOf_def)

text \<open>Without a comparer \<open>indexOf\<close> compares the pointers.\<close>

lemma uv_indexOf_pointers:
  assumes "uv_ok v" "uv_comparer v = None"
  shows "uv_indexOf v key 0 = Some (index_or_minus1 (first_index ((=) key) (uv_list v)))"
  using scan_from_0 [OF uv_okD(5) [OF assms(1)]] assms(2)
  by (simp add: uv_indexOf_def uv_indexOf_key_def uv_list_def)

lemma uv_indexOf_ints:
  assumes "uv_ok v" "uv_comparer v = None"
  shows "uv_indexOf_key ib v key 0 False =
    Some (index_or_minus1 (first_index (\<lambda>e. ib key = ib e) (uv_list v)))"
  using scan_from_0 [OF uv_okD(5) [OF assms(1)]] assms(2)
  by (simp add: uv_indexOf_key_def uv_list_def)

lemma uv_contains_iff:
  assumes "uv_ok v" "uv_comparer v = Some eq"
  shows "uv_contains v key = Some (\<exists>e \<in> set (uv_list v). eq key e)"
  using uv_indexOf_eq [OF assms] by (auto simp: uv_contains_def first_index_None)

lemma uv_elementAt_nth:
  "uv_ok v \<Longrightarrow> uv_elementAt v i =
     Some (if 0 \<le> i \<and> i < uv_count v then uv_list v ! nat i else None)"
  by (auto simp: uv_elementAt_def uv_list_def uv_ok_def)

lemma uv_containsAll_iff:
  assumes "uv_ok v" "uv_ok w" "uv_comparer v = Some eq"
  shows "uv_containsAll ib v w = Some (\<forall>x \<in> set (uv_list w). \<exists>e \<in> set (uv_list v). eq x e)"
proof -
  have "do { j \<leftarrow> uv_indexOf_key ib v x 0 False; Some (\<not> j < 0) } = Some (\<exists>e \<in> set (uv_list v). eq x e)" for x
    using uv_indexOf_key_eq [OF assms(1,3)] by (auto simp: first_index_None)
  from each_from_list [OF _ uv_okD(5) [OF assms(2)] this, of 0] show ?thesis
    by (simp add: uv_containsAll_def list_all_iff uv_list_def [of w])
qed

lemma uv_containsNone_iff:
  assumes "uv_ok v" "uv_ok w" "uv_comparer v = Some eq"
  shows "uv_containsNone ib v w = Some (\<forall>x \<in> set (uv_list w). \<not> (\<exists>e \<in> set (uv_list v). eq x e))"
proof -
  have "do { j \<leftarrow> uv_indexOf_key ib v x 0 False; Some (\<not> j \<ge> 0) } =
      Some (\<not> (\<exists>e \<in> set (uv_list v). eq x e))" for x
    using uv_indexOf_key_eq [OF assms(1,3)] by (auto simp: first_index_None)
  from each_from_list [OF _ uv_okD(5) [OF assms(2)] this, of 0] show ?thesis
    by (simp add: uv_containsNone_def list_all_iff uv_list_def [of w])
qed

lemma uv_eq_iff:
  assumes "uv_ok v" "uv_ok w" "uv_comparer v = Some (=)"
  shows "uv_eq v w = Some (uv_list v = uv_list w)"
proof (cases "uv_count v = uv_count w")
  case True
  then show ?thesis
    using uv_okD(5) [OF assms(1)] uv_okD(5) [OF assms(2)] assms(3)
    by (simp add: uv_eq_def same_from_all2 uv_list_def list.rel_eq)
next
  case False
  then have "length (uv_list v) \<noteq> length (uv_list w)"
    using uv_okD(1,6) [OF assms(1)] uv_okD(1,6) [OF assms(2)] by auto
  then have "uv_list v \<noteq> uv_list w" by auto
  with False show ?thesis by (simp add: uv_eq_def)
qed

section \<open>Removals\<close>

text \<open>Removing cell \<open>i\<close>: the list loses it, the deleter gets it.\<close>

lemma uv_orphanElementAt_in:
  assumes "uv_ok v" "0 \<le> i" "i < uv_count v"
  shows "\<exists>v'. uv_orphanElementAt i v = Some (uv_list v ! nat i, v') \<and> uv_ok v' \<and> same_setup v v' \<and>
    uv_deleted v' = uv_deleted v \<and>
    uv_list v' = take (nat i) (uv_list v) @ drop (nat i + 1) (uv_list v)"
proof -
  note d = uv_okD [OF assms(1)]
  obtain es where es: "shift_down (uv_elements v) (nat i) (nat (uv_count v) - 1) = Some es"
      "length es = length (uv_elements v)"
      "take (nat (uv_count v) - 1) es =
        take (nat i) (uv_elements v) @ drop (nat i + 1) (take (nat (uv_count v)) (uv_elements v))"
    using shift_down_take [of "nat i" "nat (uv_count v)" "uv_elements v"] assms d by auto
  have "nat (uv_count v - 1) = nat (uv_count v) - 1" "nat i < nat (uv_count v)" using assms by auto
  with es assms d show ?thesis
    by (auto simp: uv_orphanElementAt_def uv_ok_def uv_list_def min_def nat_diff_distrib same_setup_def)
qed

lemma ptrs_remove:
  assumes "i < length xs"
  shows "ptrs xs = ptrs [xs ! i] + ptrs (take i xs @ drop (i + 1) xs)"
proof -
  have "xs = take i xs @ xs ! i # drop (i + 1) xs" using assms by (simp add: id_take_nth_drop)
  then have "ptrs xs = ptrs (take i xs @ xs ! i # drop (i + 1) xs)" by simp
  also have "\<dots> = ptrs [xs ! i] + ptrs (take i xs @ drop (i + 1) xs)"
    by (simp add: ptrs_Cons [of "xs ! i" "drop (Suc i) xs"] del: ptrs_simps(2,3))
  finally show ?thesis .
qed

definition uv_removes :: "'p uvector \<Rightarrow> 'p uvector \<Rightarrow> 'p option list \<Rightarrow> bool" where
  "uv_removes v v' xs \<longleftrightarrow> uv_ok v' \<and> same_setup v v' \<and> uv_list v' = xs \<and>
     (uv_deleter v \<longrightarrow> uv_owned v' = uv_owned v)"

lemma uv_removesD:
  assumes "uv_removes v v' xs"
  shows "uv_ok v'" "same_setup v v'" "uv_list v' = xs" "uv_comparer v' = uv_comparer v"
    "uv_deleter v' = uv_deleter v"
  using assms by (auto simp: uv_removes_def same_setup_def)

lemma uv_removes_refl: "uv_ok v \<Longrightarrow> uv_removes v v (uv_list v)"
  by (simp add: uv_removes_def)

lemma uv_removes_trans:
  "uv_removes u v xs \<Longrightarrow> uv_removes v w ys \<Longrightarrow> uv_removes u w ys"
  by (auto simp: uv_removes_def same_setup_def)

lemma uv_removeElementAt_in:
  assumes "uv_ok v" "0 \<le> i" "i < uv_count v"
  shows "\<exists>v'. uv_removeElementAt i v = Some v' \<and>
    uv_removes v v' (take (nat i) (uv_list v) @ drop (nat i + 1) (uv_list v))"
proof -
  obtain v1 where v1: "uv_orphanElementAt i v = Some (uv_list v ! nat i, v1)" "uv_ok v1"
    "same_setup v v1" "uv_deleted v1 = uv_deleted v"
    "uv_list v1 = take (nat i) (uv_list v) @ drop (nat i + 1) (uv_list v)"
    using uv_orphanElementAt_in [OF assms] by blast
  let ?e = "uv_list v ! nat i"
  have "nat i < length (uv_list v)" using assms uv_okD(6) [OF assms(1)] by simp
  note p = ptrs_remove [OF this]
  have "uv_removeElementAt i v = Some (uv_delete ?e v1)" using v1(1) by (simp add: uv_removeElementAt_def)
  moreover have "same_setup v (uv_delete ?e v1)" using v1(3) by (simp add: same_setup_def)
  moreover have "uv_owned (uv_delete ?e v1) = uv_owned v" if "uv_deleter v"
    using that v1(3,4) uv_deleted_delete [of v1 ?e] unfolding uv_owned_def p v1(5)
    by (simp add: same_setup_def uv_owned_def v1(5) del: ptrs_simps)
  ultimately show ?thesis using v1(2,5) by (auto simp: uv_removes_def)
qed

lemma uv_removeElementAt_out:
  "\<not> (0 \<le> i \<and> i < uv_count v) \<Longrightarrow> uv_removeElementAt i v = Some v"
  by (auto simp: uv_removeElementAt_def uv_orphanElementAt_def uv_delete_def)

lemma uv_remove_found:
  assumes "uv_ok v" "first_index P (uv_list v) = Some i"
  shows "\<exists>v'. uv_removeElementAt (int i) v = Some v' \<and>
    uv_removes v v' (take i (uv_list v) @ drop (i + 1) (uv_list v))"
proof -
  have "int i < uv_count v"
    using first_index_Some [OF assms(2)] uv_okD(6) [OF assms(1)] by (simp add: zless_nat_eq_int_zless)
  from uv_removeElementAt_in [OF assms(1) _ this] show ?thesis by simp
qed

text \<open>With equality as the comparer, the removals are those of lists.\<close>

lemma uv_removeElement_spec:
  assumes "uv_ok v" "uv_comparer v = Some (=)"
  shows "\<exists>v'. uv_removeElement e v = Some (v', e \<in> set (uv_list v)) \<and>
    uv_removes v v' (remove1 e (uv_list v))"
proof (cases "first_index ((=) e) (uv_list v)")
  case None
  then have "e \<notin> set (uv_list v)" by (simp add: first_index_eq_None)
  with None uv_indexOf_eq [OF assms] uv_removes_refl [OF assms(1)] show ?thesis
    by (simp add: uv_removeElement_def index_or_minus1_def remove1_idem)
next
  case (Some i)
  then have "e \<in> set (uv_list v)" by (metis first_index_eq_None option.distinct(1))
  with Some uv_indexOf_eq [OF assms, of e] uv_remove_found [OF assms(1) Some] remove1_first_index [OF Some]
  show ?thesis by (auto simp: uv_removeElement_def index_or_minus1_def)
qed

lemma uv_removeAll_loop_spec:
  assumes "i \<le> n" "n \<le> length es" "uv_ok v" "uv_comparer v = Some (=)"
  shows "\<exists>v' c. uv_removeAll_loop ib es i n v ch = Some (v', c) \<and>
    uv_removes v v' (fold remove1 (drop i (take n es)) (uv_list v))"
  using assms
proof (induction "n - i" arbitrary: i v ch)
  case 0
  then show ?case using uv_removes_refl by (auto simp: uv_removeAll_loop.simps [where i = i])
next
  case (Suc k)
  then have i: "i < n" "k = n - (i + 1)" by simp_all
  have dr: "drop i (take n es) = es ! i # drop (i + 1) (take n es)"
    using i(1) Suc.prems(2) by (simp add: Cons_nth_drop_Suc [symmetric])
  have r: "rd es i = Some (es ! i)" using i(1) Suc.prems(2) by simp
  note ix = uv_indexOf_key_eq [OF Suc.prems(3,4), of ib "es ! i" False]
  show ?case
  proof (cases "first_index ((=) (es ! i)) (uv_list v)")
    case None
    then have "remove1 (es ! i) (uv_list v) = uv_list v"
      by (simp add: first_index_eq_None remove1_idem)
    with None i r ix dr Suc.hyps(1) [OF i(2), of v ch] Suc.prems show ?thesis
      by (simp add: uv_removeAll_loop.simps [where i = i] index_or_minus1_def)
  next
    case (Some j)
    obtain v1 where v1: "uv_removeElementAt (int j) v = Some v1"
      "uv_removes v v1 (remove1 (es ! i) (uv_list v))"
      using uv_remove_found [OF Suc.prems(3) Some] remove1_first_index [OF Some] by auto
    note u = uv_removesD [OF v1(2)]
    obtain v2 c where v2: "uv_removeAll_loop ib es (i + 1) n v1 True = Some (v2, c)"
      "uv_removes v1 v2 (fold remove1 (drop (i + 1) (take n es)) (uv_list v1))"
      using Suc.hyps(1) [OF i(2), of v1 True] Suc.prems i(1) u(1,4) by auto
    have "uv_removeAll_loop ib es i n v ch = Some (v2, c)"
      using i(1) r ix Some v1(1) v2(1) by (simp add: uv_removeAll_loop.simps [where i = i] index_or_minus1_def)
    then show ?thesis using uv_removes_trans [OF v1(2) v2(2)] dr u(3) by auto
  qed
qed

lemma uv_removeAll_spec:
  assumes "uv_ok v" "uv_ok w" "uv_comparer v = Some (=)"
  shows "\<exists>v' c. uv_removeAll ib v w = Some (v', c) \<and>
    uv_removes v v' (fold remove1 (uv_list w) (uv_list v))"
  using uv_removeAll_loop_spec [of 0 "nat (uv_count w)" "uv_elements w" v ib False] assms
    uv_okD(5) [OF assms(2)]
  by (simp add: uv_removeAll_def uv_list_def [of w])

lemma uv_retainAll_loop_spec:
  assumes "uv_ok w" "uv_comparer w = Some (=)" "uv_ok v" "j \<le> length (uv_list v)"
  shows "\<exists>v' c. uv_retainAll_loop ib w j v ch = Some (v', c) \<and>
    uv_removes v v' (filter (\<lambda>x. x \<in> set (uv_list w)) (take j (uv_list v)) @ drop j (uv_list v))"
  using assms(3,4)
proof (induction j arbitrary: v ch)
  case 0
  then show ?case using uv_removes_refl by auto
next
  case (Suc j)
  let ?x = "uv_list v ! j"
  note d = uv_okD [OF Suc.prems(1)]
  from Suc.prems d have j: "j < length (uv_list v)" "j < nat (uv_count v)" by simp_all
  then have r: "rd (uv_elements v) j = Some ?x" using d by (simp add: uv_list_def)
  have tk: "take (Suc j) (uv_list v) = take j (uv_list v) @ [?x]"
    using j(1) by (rule take_Suc_conv_app_nth)
  have dr: "drop j (uv_list v) = ?x # drop (Suc j) (uv_list v)"
    using j(1) by (rule Cons_nth_drop_Suc [symmetric])
  note ix = uv_indexOf_key_eq [OF assms(1,2), of ib ?x False]
  show ?case
  proof (cases "first_index ((=) ?x) (uv_list w)")
    case (Some k)
    then have "?x \<in> set (uv_list w)" by (metis first_index_eq_None option.distinct(1))
    with Some ix r Suc.IH [OF Suc.prems(1), of ch] Suc.prems j(1) tk dr show ?thesis
      by (simp add: index_or_minus1_def)
  next
    case None
    then have n: "?x \<notin> set (uv_list w)" by (simp add: first_index_eq_None)
    obtain v1 where v1: "uv_removeElementAt (int j) v = Some v1"
      "uv_removes v v1 (take j (uv_list v) @ drop (Suc j) (uv_list v))"
      using uv_removeElementAt_in [OF Suc.prems(1), of "int j"] j(2) by (auto simp: zless_nat_eq_int_zless)
    note u = uv_removesD [OF v1(2)]
    have "j \<le> length (uv_list v1)" using u(3) j(1) by simp
    from Suc.IH [OF u(1) this, of True] obtain v2 c where v2:
      "uv_retainAll_loop ib w j v1 True = Some (v2, c)"
      "uv_removes v1 v2 (filter (\<lambda>x. x \<in> set (uv_list w)) (take j (uv_list v1)) @ drop j (uv_list v1))"
      by blast
    have "uv_retainAll_loop ib w (Suc j) v ch = Some (v2, c)"
      using r ix None v1(1) v2(1) by (simp add: index_or_minus1_def)
    then show ?thesis using uv_removes_trans [OF v1(2) v2(2)] tk n j(1) u(3) by (auto simp: min_def)
  qed
qed

lemma uv_retainAll_spec:
  assumes "uv_ok v" "uv_ok w" "uv_comparer w = Some (=)"
  shows "\<exists>v' c. uv_retainAll ib v w = Some (v', c) \<and>
    uv_removes v v' (filter (\<lambda>x. x \<in> set (uv_list w)) (uv_list v))"
  using uv_retainAll_loop_spec [OF assms(2,3,1), of "nat (uv_count v)"] uv_okD(6) [OF assms(1)]
  by (simp add: uv_retainAll_def)

text \<open>\<open>removeAllElements\<close> hands every pointer to the deleter.\<close>

lemma uv_delete_loop_spec:
  assumes "i \<le> n" "n \<le> length (uv_elements v)"
  shows "\<exists>v'. uv_delete_loop i n v = Some v' \<and> uv_count v' = uv_count v \<and>
    uv_capacity v' = uv_capacity v \<and> uv_elements v' = uv_elements v \<and> same_setup v v' \<and>
    (uv_deleter v \<longrightarrow> mset (uv_deleted v') = mset (uv_deleted v) + ptrs (drop i (take n (uv_elements v))))"
  using assms
proof (induction "n - i" arbitrary: i v)
  case 0
  then show ?case by (simp add: uv_delete_loop.simps [where i = i])
next
  case (Suc k)
  then have i: "i < n" "k = n - (i + 1)" by simp_all
  let ?e = "uv_elements v ! i"
  have dr: "drop i (take n (uv_elements v)) = ?e # drop (i + 1) (take n (uv_elements v))"
    using i(1) Suc.prems(2) by (simp add: Cons_nth_drop_Suc [symmetric])
  obtain v' where v': "uv_delete_loop (i + 1) n (uv_delete ?e v) = Some v'"
    "uv_count v' = uv_count v" "uv_capacity v' = uv_capacity v" "uv_elements v' = uv_elements v"
    "same_setup (uv_delete ?e v) v'" "uv_deleter v \<longrightarrow> mset (uv_deleted v') =
      mset (uv_deleted (uv_delete ?e v)) + ptrs (drop (i + 1) (take n (uv_elements v)))"
    using Suc.hyps(1) [OF i(2), of "uv_delete ?e v"] Suc.prems i(1) by auto
  have "uv_delete_loop i n v = Some v'"
    using i(1) Suc.prems(2) v'(1) by (simp add: uv_delete_loop.simps [where i = i])
  moreover have "same_setup v v'" using v'(5) by (simp add: same_setup_def)
  moreover have "mset (uv_deleted v') = mset (uv_deleted v) + ptrs (drop i (take n (uv_elements v)))"
    if "uv_deleter v"
    using that v'(6) uv_deleted_delete [OF that, of ?e] dr
      ptrs_Cons [of ?e "drop (i + 1) (take n (uv_elements v))"] by simp
  ultimately show ?case using v'(2-4) by blast
qed

lemma uv_removeAllElements_spec:
  assumes "uv_ok v"
  shows "\<exists>v'. uv_removeAllElements v = Some v' \<and> uv_removes v v' []"
proof (cases "uv_deleter v")
  case False
  with assms show ?thesis
    by (simp add: uv_removeAllElements_def uv_removes_def uv_ok_def uv_list_def same_setup_def)
next
  case True
  obtain v1 where v1: "uv_delete_loop 0 (nat (uv_count v)) v = Some v1" "uv_count v1 = uv_count v"
    "uv_capacity v1 = uv_capacity v" "uv_elements v1 = uv_elements v" "same_setup v v1"
    "mset (uv_deleted v1) = mset (uv_deleted v) + ptrs (uv_list v)"
    using uv_delete_loop_spec [of 0 "nat (uv_count v)" v] uv_okD(5) [OF assms] True
    by (auto simp: uv_list_def)
  then show ?thesis using True assms
    by (simp add: uv_removeAllElements_def uv_removes_def uv_ok_def uv_list_def same_setup_def uv_owned_def)
qed

section \<open>Resizing and copying\<close>

declare uv_fill.simps [simp del] uv_assign_loop.simps [simp del]

lemma uv_fill_spec:
  assumes "i \<le> n" "n \<le> length es"
  shows "\<exists>es'. uv_fill es i n = Some es' \<and> length es' = length es \<and>
    take n es' = take i es @ replicate (n - i) None"
  using assms
proof (induction "n - i" arbitrary: es i)
  case 0
  then show ?case by (simp add: uv_fill.simps [where i = i])
next
  case (Suc k)
  then have i: "i < n" "k = n - (i + 1)" by simp_all
  have "n - i = Suc (n - (i + 1))" using i by simp
  with Suc.hyps(1) [OF i(2), of "es[i := None]"] Suc.prems i(1) show ?case
    by (auto simp: uv_fill.simps [where i = i] take_Suc_conv_app_nth)
qed

lemma uv_cut_spec:
  assumes "uv_ok v" "n \<le> k" "k = length (uv_list v)"
  shows "\<exists>v'. uv_cut k n v = Some v' \<and> uv_removes v v' (take n (uv_list v))"
  using assms
proof (induction k arbitrary: v)
  case 0
  with uv_removes_refl [of v] show ?case by simp
next
  case (Suc k)
  show ?case
  proof (cases "n \<le> k")
    case False
    then have n: "n = Suc k" using Suc.prems(2) by simp
    have "uv_cut (Suc k) n v = Some v" using False by simp
    moreover have "take n (uv_list v) = uv_list v" using n Suc.prems(3) by simp
    ultimately show ?thesis using uv_removes_refl [OF Suc.prems(1)] by metis
  next
    case True
    have "int k < uv_count v" using Suc.prems uv_okD(6) [OF Suc.prems(1)] by simp
    then obtain v1 where v1: "uv_removeElementAt (int k) v = Some v1"
      "uv_removes v v1 (take k (uv_list v) @ drop (k + 1) (uv_list v))"
      using uv_removeElementAt_in [OF Suc.prems(1), of "int k"] by auto
    note u = uv_removesD [OF v1(2)]
    have l1: "uv_list v1 = take k (uv_list v)" using u(3) Suc.prems(3) by simp
    then have "k = length (uv_list v1)" using Suc.prems(3) by simp
    then obtain v2 where v2: "uv_cut k n v1 = Some v2" "uv_removes v1 v2 (take n (uv_list v1))"
      using Suc.IH [OF u(1) True] by blast
    have "take n (uv_list v1) = take n (uv_list v)" using l1 True by (simp add: min_def)
    with uv_removes_trans [OF v1(2) v2(2)] v1(1) v2(1) True show ?thesis by auto
  qed
qed

lemma uv_setSize_spec:
  assumes "uv_ok v" "0 \<le> n"
  shows "\<exists>v' st'. uv_setSize h n v st = Some (v', st') \<and> uv_ok v' \<and> same_setup v v' \<and>
    (uv_deleter v \<longrightarrow> uv_owned v' = uv_owned v) \<and>
    ((U_FAILURE st' \<and> v' = v) \<or>
     (st' = st \<and> uv_list v' = take (nat n) (uv_list v) @ replicate (nat n - nat (uv_count v)) None))"
proof (cases "n > uv_count v")
  case False
  then have le: "nat n \<le> length (uv_list v)" using uv_okD(6) [OF assms(1)] by simp
  obtain v1 where v1: "uv_cut (nat (uv_count v)) (nat n) v = Some v1"
    "uv_removes v v1 (take (nat n) (uv_list v))"
    using uv_cut_spec [OF assms(1) le refl] uv_okD(6) [OF assms(1)] by auto
  note u = uv_removesD [OF v1(2)]
  have "nat (uv_count v1) = nat n" using u(3) uv_okD(6) [OF u(1)] le by simp
  then have "uv_count v1 = n" using uv_okD(1) [OF u(1)] assms(2) by simp
  then have "v1\<lparr>uv_count := n\<rparr> = v1" by simp
  with v1 False assms(2) u show ?thesis by (auto simp: uv_setSize_def uv_removes_def)
next
  case True
  obtain ok v1 st1 where r: "uv_ensureCapacity h n v st = (ok, v1, st1)" by (metis prod_cases3)
  note s = uv_ensureCapacity_spec [OF assms(1) r]
  show ?thesis
  proof (cases ok)
    case False
    with True r s assms show ?thesis by (auto simp: uv_setSize_def)
  next
    case ok: True
    note d = uv_okD [OF s(1)]
    have le: "nat (uv_count v1) \<le> nat n" "nat n \<le> length (uv_elements v1)"
      using True s(3,6) ok d(4) by auto
    obtain es where es: "uv_fill (uv_elements v1) (nat (uv_count v1)) (nat n) = Some es"
      "length es = length (uv_elements v1)"
      "take (nat n) es = take (nat (uv_count v1)) (uv_elements v1) @ replicate (nat n - nat (uv_count v1)) None"
      using uv_fill_spec [OF le] by blast
    let ?v = "v1\<lparr>uv_elements := es, uv_count := n\<rparr>"
    have "uv_list ?v = uv_list v @ replicate (nat n - nat (uv_count v)) None"
      using es(3) s(2,3) by (simp add: uv_list_def)
    moreover have "take (nat n) (uv_list v) = uv_list v"
      using True uv_okD(6) [OF assms(1)] by simp
    moreover have "uv_ok ?v" using s(6) ok d es(2) assms(2) by (simp add: uv_ok_def)
    moreover have "same_setup v ?v" using s(4) by (simp add: same_setup_def)
    ultimately show ?thesis using True ok r es(1) s(5,6) assms(2)
      by (auto simp: uv_setSize_def uv_owned_def)
  qed
qed

lemma uv_assign_loop_spec:
  assumes "i \<le> n" "n \<le> length os" "n = length (uv_list v)" "uv_ok v"
  shows "\<exists>v'. uv_assign_loop asg os i n v = Some v' \<and> uv_ok v' \<and> same_setup v v' \<and>
    uv_list v' = take i (uv_list v) @ map asg (drop i (take n os)) \<and>
    (uv_deleter v \<longrightarrow> uv_owned v' = uv_owned v + ptrs (map asg (drop i (take n os))))"
  using assms
proof (induction "n - i" arbitrary: i v)
  case 0
  then have "i = n" by simp
  have "uv_assign_loop asg os n n v = Some v" by (simp add: uv_assign_loop.simps [of asg os n n v])
  moreover have "take n (uv_list v) = uv_list v" "drop n (take n os) = []" using 0 by simp_all
  ultimately show ?case using 0(5) \<open>i = n\<close>
    by (simp only:) (simp add: ptrs_def same_setup_def)
next
  case (Suc k)
  then have i: "i < n" "k = n - (i + 1)" by simp_all
  note d = uv_okD [OF Suc.prems(4)]
  let ?e = "uv_elements v ! i" and ?x = "asg (os ! i)"
  let ?v = "(uv_delete ?e v)\<lparr>uv_elements := (uv_elements v)[i := ?x]\<rparr>"
  have len: "i < length (uv_elements v)" "i < length os" "i < nat (uv_count v)"
    using i(1) Suc.prems(2,3) d(5,6) by auto
  have ok: "uv_ok ?v" using Suc.prems(4) by (simp add: uv_ok_def)
  have l: "uv_list ?v = (uv_list v)[i := ?x]" by (simp add: uv_list_def take_update_swap)
  have dr: "drop i (take n os) = os ! i # drop (i + 1) (take n os)"
    using i(1) Suc.prems(2) by (simp add: Cons_nth_drop_Suc [symmetric])
  obtain v' where v': "uv_assign_loop asg os (i + 1) n ?v = Some v'" "uv_ok v'" "same_setup ?v v'"
    "uv_list v' = take (i + 1) (uv_list ?v) @ map asg (drop (i + 1) (take n os))"
    "uv_deleter ?v \<longrightarrow> uv_owned v' = uv_owned ?v + ptrs (map asg (drop (i + 1) (take n os)))"
    using Suc.hyps(1) [OF i(2) _ Suc.prems(2) _ ok] i(1) Suc.prems(3) l by auto
  have il: "i < length (uv_list v)" "uv_list v ! i = ?e" using i(1) Suc.prems(3) len by (auto simp: uv_list_def)
  have "take (i + 1) (uv_list ?v) = take i (uv_list v) @ [?x]"
    using il(1) by (simp add: l take_Suc_conv_app_nth)
  then have list: "uv_list v' = take i (uv_list v) @ map asg (drop i (take n os))"
    using v'(4) dr by simp
  have "uv_owned ?v = uv_owned v + ptrs [?x]" if "uv_deleter v"
  proof -
    have "ptrs ((uv_list v)[i := ?x]) = ptrs (take i (uv_list v)) + (ptrs [?x] + ptrs (drop (i + 1) (uv_list v)))"
      using il(1) ptrs_Cons [of ?x "drop (i + 1) (uv_list v)"] by (simp add: upd_conv_take_nth_drop)
    moreover have "ptrs (uv_list v) = ptrs [?e] + (ptrs (take i (uv_list v)) + ptrs (drop (i + 1) (uv_list v)))"
      using ptrs_remove [OF il(1)] il(2) by simp
    ultimately show ?thesis using uv_deleted_delete [OF that, of ?e] by (simp add: uv_owned_def l)
  qed
  then have "uv_owned v' = uv_owned v + ptrs (map asg (drop i (take n os)))" if "uv_deleter v"
    using that v'(5) dr ptrs_Cons [of ?x "map asg (drop (i + 1) (take n os))"] by simp
  moreover have "uv_assign_loop asg os i n v = Some v'"
    using i(1) len v'(1) by (simp add: uv_assign_loop.simps [where i = i] Let_def)
  ultimately show ?case using v'(2,3) list by (auto simp: same_setup_def)
qed

lemma uv_assign_spec:
  assumes "uv_ok v" "uv_ok w" "\<not> U_FAILURE st"
  shows "\<exists>v' st'. uv_assign h asg w v st = Some (v', st') \<and> uv_ok v' \<and> same_setup v v' \<and>
    ((U_FAILURE st' \<and> uv_list v' = uv_list v \<and> uv_owned v' = uv_owned v) \<or>
     (st' = st \<and> uv_list v' = map asg (uv_list w) \<and>
      (uv_deleter v \<longrightarrow> uv_owned v' = uv_owned v + ptrs (map asg (uv_list w)))))"
proof -
  obtain ok v1 st1 where r: "uv_ensureCapacity h (uv_count w) v st = (ok, v1, st1)" by (metis prod_cases3)
  note s = uv_ensureCapacity_spec [OF assms(1) r]
  show ?thesis
  proof (cases ok)
    case False
    with r s assms(1) show ?thesis by (auto simp: uv_assign_def)
  next
    case True
    obtain v2 st2 where v2: "uv_setSize h (uv_count w) v1 st1 = Some (v2, st2)" "uv_ok v2"
      "same_setup v1 v2" "uv_deleter v1 \<longrightarrow> uv_owned v2 = uv_owned v1"
      "(U_FAILURE st2 \<and> v2 = v1) \<or> (st2 = st1 \<and> uv_list v2 =
         take (nat (uv_count w)) (uv_list v1) @ replicate (nat (uv_count w) - nat (uv_count v1)) None)"
      using uv_setSize_spec [OF s(1) uv_okD(1) [OF assms(2)], of h st1] by blast
    show ?thesis
    proof (cases "U_FAILURE st2")
      case True
      then have "v2 = v1" using v2(5) s(6) \<open>ok\<close> assms(3) by auto
      with True v2(1) r s \<open>ok\<close> show ?thesis by (auto simp: uv_assign_def uv_owned_def)
    next
      case False
      then have "length (uv_list v2) = nat (uv_count w)"
        using v2(5) uv_okD(6) [OF s(1)] by auto
      from uv_assign_loop_spec [OF _ uv_okD(5) [OF assms(2)] this [symmetric] v2(2), of 0 asg]
      obtain v3 where v3: "uv_assign_loop asg (uv_elements w) 0 (nat (uv_count w)) v2 = Some v3"
        "uv_ok v3" "same_setup v2 v3" "uv_list v3 = map asg (uv_list w)"
        "uv_deleter v2 \<longrightarrow> uv_owned v3 = uv_owned v2 + ptrs (map asg (uv_list w))"
        by (auto simp: uv_list_def [of w])
      have "uv_assign h asg w v st = Some (v3, st2)"
        using r \<open>ok\<close> v2(1) v3(1) False by (simp add: uv_assign_def)
      moreover have "same_setup v v3" using s(4) v2(3) v3(3) by (simp add: same_setup_def)
      moreover have "uv_owned v1 = uv_owned v" using s(2,5) by (simp add: uv_owned_def)
      moreover have "st2 = st" using False v2(5) s(6) \<open>ok\<close> by auto
      ultimately show ?thesis using v2(3,4) v3(2,4,5) s(4) by (auto simp: same_setup_def)
    qed
  qed
qed

section \<open>\<open>UStack\<close>\<close>

lemma us_pop_spec:
  assumes "uv_ok v"
  shows "\<exists>v'. us_pop v = Some (if uv_list v = [] then None else last (uv_list v), v') \<and>
    uv_removes v v' (butlast (uv_list v))"
proof (cases "uv_count v = 0")
  case True
  then have "uv_list v = []" by (simp add: uv_list_def)
  with True assms uv_removes_refl [OF assms] show ?thesis by (simp add: us_pop_def)
next
  case False
  let ?n = "uv_count v - 1"
  have n: "0 \<le> ?n" "?n < uv_count v" "nat ?n + 1 = length (uv_list v)"
    using False uv_okD(1,6) [OF assms] by auto
  then have ne: "uv_list v \<noteq> []" by auto
  have l: "uv_list v ! nat ?n = last (uv_list v)" "take (nat ?n) (uv_list v) = butlast (uv_list v)"
    using n(3) [symmetric] ne by (simp_all add: last_conv_nth butlast_conv_take)
  obtain v' where "uv_removeElementAt ?n v = Some v'"
    "uv_removes v v' (take (nat ?n) (uv_list v) @ drop (nat ?n + 1) (uv_list v))"
    using uv_removeElementAt_in [OF assms n(1,2)] by blast
  with n l ne uv_elementAt_nth [OF assms, of ?n] show ?thesis by (simp add: us_pop_def Let_def)
qed

lemma us_push_pop:
  assumes "uv_ok v" "us_push h e v st = Some (r, v1, st)" "\<not> U_FAILURE st"
  shows "\<exists>v2. us_pop v1 = Some (e, v2) \<and> uv_ok v2 \<and> uv_list v2 = uv_list v"
proof -
  have "uv_addElement h e v st = Some (v1, st)"
    using assms(2) by (auto simp: us_push_def bind_eq_Some_conv)
  then have v1: "uv_ok v1" "uv_list v1 = uv_list v @ [e]"
    using uv_addElement_grows [OF assms(1), of h e st] assms(3) by (auto simp: uv_grows_def)
  then show ?thesis using us_pop_spec [of v1] uv_removesD(1,3) by fastforce
qed

text \<open>\<open>search\<close> gives the distance from the top of the first match, 1 for the top itself.\<close>

lemma us_search_spec:
  assumes "uv_ok v" "uv_comparer v = Some eq"
  shows "us_search v key = Some (case first_index (eq key) (uv_list v) of
    None \<Rightarrow> -1 | Some i \<Rightarrow> int (length (uv_list v) - i))"
proof (cases "first_index (eq key) (uv_list v)")
  case None
  with uv_indexOf_eq [OF assms] show ?thesis by (simp add: us_search_def index_or_minus1_def)
next
  case (Some i)
  have "i < nat (uv_count v)" using first_index_Some [OF Some] uv_okD(6) [OF assms(1)] by simp
  with Some uv_indexOf_eq [OF assms, of key] uv_okD(1,6) [OF assms(1)] show ?thesis
    by (simp add: us_search_def index_or_minus1_def)
qed

section \<open>Ownership, order and the stack\<close>

text \<open>C40: A vector that owns its elements and whose comparer is the equality of pointers neither loses nor frees twice: removing
  one element, those of another vector with that comparer, or all, keeping those of such a vector, and changing the size leave
  every pointer either still stored or deleted, each exactly once, and the list is the expected one.\<close>

theorem uvector_ownership:
  assumes "uv_ok v" "uv_ok w" "uv_deleter v" "uv_comparer v = Some (=)" "uv_comparer w = Some (=)" "0 \<le> n"
  shows "(\<exists>v'. uv_removeElement e v = Some (v', e \<in> set (uv_list v)) \<and> uv_ok v' \<and>
      uv_list v' = remove1 e (uv_list v) \<and> uv_owned v' = uv_owned v) \<and>
    (\<exists>v' b. uv_removeAll ib v w = Some (v', b) \<and> uv_ok v' \<and>
      uv_list v' = fold remove1 (uv_list w) (uv_list v) \<and> uv_owned v' = uv_owned v) \<and>
    (\<exists>v' b. uv_retainAll ib v w = Some (v', b) \<and> uv_ok v' \<and>
      uv_list v' = filter (\<lambda>x. x \<in> set (uv_list w)) (uv_list v) \<and> uv_owned v' = uv_owned v) \<and>
    (\<exists>v'. uv_removeAllElements v = Some v' \<and> uv_ok v' \<and> uv_list v' = [] \<and> uv_owned v' = uv_owned v) \<and>
    (\<exists>v' st'. uv_setSize h n v st = Some (v', st') \<and> uv_ok v' \<and> uv_owned v' = uv_owned v \<and>
      (U_FAILURE st' \<and> v' = v \<or>
       uv_list v' = take (nat n) (uv_list v) @ replicate (nat n - nat (uv_count v)) None))"
proof (intro conjI)
  show "\<exists>v'. uv_removeElement e v = Some (v', e \<in> set (uv_list v)) \<and> uv_ok v' \<and>
      uv_list v' = remove1 e (uv_list v) \<and> uv_owned v' = uv_owned v"
    using uv_removeElement_spec [OF assms(1,4), of e] assms(3) by (auto simp: uv_removes_def)
  show "\<exists>v' b. uv_removeAll ib v w = Some (v', b) \<and> uv_ok v' \<and>
      uv_list v' = fold remove1 (uv_list w) (uv_list v) \<and> uv_owned v' = uv_owned v"
    using uv_removeAll_spec [OF assms(1,2,4), of ib] assms(3) by (auto simp: uv_removes_def)
  show "\<exists>v' b. uv_retainAll ib v w = Some (v', b) \<and> uv_ok v' \<and>
      uv_list v' = filter (\<lambda>x. x \<in> set (uv_list w)) (uv_list v) \<and> uv_owned v' = uv_owned v"
    using uv_retainAll_spec [OF assms(1,2,5), of ib] assms(3) by (auto simp: uv_removes_def)
  show "\<exists>v'. uv_removeAllElements v = Some v' \<and> uv_ok v' \<and> uv_list v' = [] \<and> uv_owned v' = uv_owned v"
    using uv_removeAllElements_spec [OF assms(1)] assms(3) by (auto simp: uv_removes_def)
  show "\<exists>v' st'. uv_setSize h n v st = Some (v', st') \<and> uv_ok v' \<and> uv_owned v' = uv_owned v \<and>
      (U_FAILURE st' \<and> v' = v \<or>
       uv_list v' = take (nat n) (uv_list v) @ replicate (nat n - nat (uv_count v)) None)"
    using uv_setSize_spec [OF assms(1,6), of h st] assms(3) by blast
qed

definition sample_vec :: "nat list \<Rightarrow> nat uvector" where
  "sample_vec xs = \<lparr>uv_count = int (length xs), uv_capacity = int (length xs), uv_elements = map Some xs,
     uv_deleter = True, uv_comparer = Some (=), uv_deleted = []\<rparr>"

lemma sample_vec_simps [simp]:
  "length xs \<le> 100 \<Longrightarrow> uv_ok (sample_vec xs)" "uv_deleter (sample_vec xs)" "uv_comparer (sample_vec xs) = Some (=)"
  "uv_list (sample_vec xs) = map Some xs" "uv_count (sample_vec xs) = int (length xs)"
  by (simp_all add: sample_vec_def uv_ok_def uv_list_def)

theorem uvector_ownership_witness:
  "\<exists>v b. uv_retainAll (\<lambda>_. 0) (sample_vec [5, 2, 3]) (sample_vec [3, 5, 7]) = Some (v, b) \<and>
     uv_list v = [Some 5, Some 3] \<and> uv_owned v = {#5, 2, 3#}"
proof -
  have own: "uv_owned (sample_vec [5, 2, 3]) = {#5, 2, 3#}"
    by (simp add: uv_owned_def ptrs_def sample_vec_def uv_list_def)
  have "\<exists>v b. uv_retainAll (\<lambda>_. 0) (sample_vec [5, 2, 3]) (sample_vec [3, 5, 7]) = Some (v, b) \<and> uv_ok v \<and>
      uv_list v = filter (\<lambda>x. x \<in> set (uv_list (sample_vec [3, 5, 7]))) (uv_list (sample_vec [5, 2, 3])) \<and>
      uv_owned v = uv_owned (sample_vec [5, 2, 3])"
    by (rule conjunct1 [OF conjunct2 [OF conjunct2
          [OF uvector_ownership [of "sample_vec [5, 2, 3]" "sample_vec [3, 5, 7]" 0]]]]) simp_all
  then show ?thesis unfolding own by simp blast
qed

text \<open>\<open>sortedInsert\<close> puts the element behind every element that does not compare greater
  and before every one that does (so after its equals), keeping the others in order; when the
  vector cannot grow it reports an error and changes nothing.\<close>

theorem uvector_sortedInsert:
  assumes "uv_ok v" "upward (\<lambda>x. compare x e > 0) (uv_list v)"
  shows "\<exists>v' st'. uv_sortedInsert h e compare v st = Some (v', st') \<and> uv_ok v' \<and>
    (U_FAILURE st' \<and> v' = v \<or>
     st' = st \<and> (\<exists>xs ys. uv_list v = xs @ ys \<and> uv_list v' = xs @ e # ys \<and>
       (\<forall>x \<in> set xs. \<not> compare x e > 0) \<and> (\<forall>y \<in> set ys. compare y e > 0)))"
proof -
  from uv_sortedInsert_grows [where h = h and st = st and compare = compare and e = e, OF assms] obtain m where m: "m \<le> length (uv_list v)"
    "uv_grows (uv_sortedInsert h e compare v st) v st (take m (uv_list v) @ e # drop m (uv_list v))"
    "\<forall>x \<in> set (take m (uv_list v)). \<not> compare x e > 0" "\<forall>x \<in> set (drop m (uv_list v)). compare x e > 0" by blast
  from m(2) obtain v' st' where r: "uv_sortedInsert h e compare v st = Some (v', st')" "uv_ok v'"
    "st' = st \<and> uv_list v' = take m (uv_list v) @ e # drop m (uv_list v) \<or> U_FAILURE st' \<and> v' = v"
    unfolding uv_grows_def by blast
  have "uv_list v = take m (uv_list v) @ drop m (uv_list v)" by simp
  with r m(3,4) show ?thesis by blast
qed

theorem uvector_sortedInsert_witness:
  "\<exists>v' st'. uv_sortedInsert \<lparr>can_alloc = \<lambda>_. False, junk = \<lambda>_. None\<rparr> (Some 2)
     (\<lambda>x y. case (x, y) of (Some a, Some b) \<Rightarrow> int a - int b | _ \<Rightarrow> 0) (sample_vec [1, 3]) U_ZERO_ERROR = Some (v', st') \<and>
     uv_ok v'"
proof -
  have "upward (\<lambda>x. (case (x, Some 2) of (Some a, Some b) \<Rightarrow> int a - int b | _ \<Rightarrow> 0) > 0) (uv_list (sample_vec [1, 3]))"
    by (auto simp: upward_def less_Suc_eq nth_Cons')
  from uvector_sortedInsert [of "sample_vec [1, 3]" "\<lambda>x y. case (x, y) of (Some a, Some b) \<Rightarrow> int a - int b | _ \<Rightarrow> 0" "Some 2",
      OF _ this, of "\<lparr>can_alloc = \<lambda>_. False, junk = \<lambda>_. None\<rparr>" U_ZERO_ERROR]
  show ?thesis by auto
qed

text \<open>A successful \<open>push\<close> followed by \<open>pop\<close> gives the pushed element back and the stack
  as it was; \<open>pop\<close> on an empty stack answers NULL and changes nothing.\<close>

theorem ustack_push_pop:
  assumes "uv_ok v" "us_push h e v U_ZERO_ERROR = Some (r, v1, st)" "\<not> U_FAILURE st"
  shows "\<exists>v2. us_pop v1 = Some (e, v2) \<and> uv_ok v2 \<and> uv_list v2 = uv_list v"
proof -
  have "st = U_ZERO_ERROR"
    using uv_addElement_grows [OF assms(1), of h e U_ZERO_ERROR] assms(2,3)
    by (auto simp: us_push_def uv_grows_def bind_eq_Some_conv)
  with us_push_pop [OF assms(1), of h e U_ZERO_ERROR] assms(2,3) show ?thesis by blast
qed

theorem ustack_push_pop_witness:
  "\<exists>v1 v2. us_push \<lparr>can_alloc = \<lambda>_. True, junk = \<lambda>_. None\<rparr> (Some 9) (sample_vec [1, 3]) U_ZERO_ERROR =
       Some (Some 9, v1, U_ZERO_ERROR) \<and> us_pop v1 = Some (Some 9, v2) \<and> uv_list v2 = [Some 1, Some 3]"
proof -
  have "\<exists>v1. us_push \<lparr>can_alloc = \<lambda>_. True, junk = \<lambda>_. None\<rparr> (Some 9) (sample_vec [1, 3]) U_ZERO_ERROR =
       Some (Some 9, v1, U_ZERO_ERROR)"
    by (simp add: us_push_def uv_addElement_def uv_ensureCapacity_def sample_vec_def Let_def realloc_def)
  then show ?thesis using ustack_push_pop [of "sample_vec [1, 3]"] by fastforce
qed

end
