(* ===== verification/UStr.thy ===== *)
theory UStr
  imports Utf16 "HOL-Library.Word"
begin

unbundle bit_operations_syntax

text \<open>
  The operations of \<open>UnicodeString\<close> (unistr.cpp, unistr.h) that sets of strings rest on:
  the comparison in code unit order, the pinned indices, access to units and code points,
  and \<open>getSingleCP\<close> of uniset.cpp. A string that is not bogus is the list of its units.
  The order is made the library's order on \<open>ustr\<close>, so that sortedness of a vector of
  strings is the library's \<open>sorted\<close>.
\<close>

datatype ustr = UStr (units: "int list")

definition ustr_length :: "ustr \<Rightarrow> int" where
  "ustr_length s = int (length (units s))"

text \<open>\<open>charAt\<close> and \<open>char32At\<close>; outside the string they give U+FFFF.\<close>

definition charAt :: "ustr \<Rightarrow> int \<Rightarrow> int" where
  "charAt s offset =
     (if 0 \<le> offset \<and> offset < ustr_length s then units s ! nat offset else 65535)"

definition u16_get :: "int list \<Rightarrow> nat \<Rightarrow> nat \<Rightarrow> nat \<Rightarrow> int option" where
  "u16_get s start i n =
     do { c \<leftarrow> rd s i;
          if u16_is_lead c
          then (if i + 1 \<noteq> n
                then do { c2 \<leftarrow> rd s (i + 1);
                          Some (if u16_is_trail c2 then u16_supplementary c c2 else c) }
                else Some c)
          else if u16_is_trail c
          then (if i > start
                then do { c2 \<leftarrow> rd s (i - 1);
                          Some (if u16_is_lead c2 then u16_supplementary c2 c else c) }
                else Some c)
          else Some c }"

definition char32At :: "ustr \<Rightarrow> int \<Rightarrow> int option" where
  "char32At s offset =
     (if 0 \<le> offset \<and> offset < ustr_length s
      then u16_get (units s) 0 (nat offset) (length (units s)) else Some 65535)"

definition pinIndices :: "ustr \<Rightarrow> int \<Rightarrow> int \<Rightarrow> int \<times> int" where
  "pinIndices s start n =
     (let len = ustr_length s;
          start = (if start < 0 then 0 else if start > len then len else start);
          n = (if n < 0 then 0 else if n > len - start then len - start else n)
      in (start, n))"

text \<open>\<open>u_strlen\<close>: the units before the first NUL; without one it runs off the array.\<close>

fun u_strlen :: "int list \<Rightarrow> nat option" where
  "u_strlen [] = None"
| "u_strlen (c # cs) = (if c = 0 then Some 0 else map_option Suc (u_strlen cs))"

text \<open>
  The comparison loop, on a little-endian machine; \<open>n\<close> is \<open>minLength\<close>. The test
  \<open>chars != srcChars\<close> only saves the loop when both are the same array.
\<close>

fun compare_units :: "int list \<Rightarrow> nat \<Rightarrow> int list \<Rightarrow> nat \<Rightarrow> nat \<Rightarrow> int \<Rightarrow> int option" where
  "compare_units xs i ys j 0 lengthResult = Some lengthResult"
| "compare_units xs i ys j (Suc n) lengthResult =
     do { x \<leftarrow> rd xs i; y \<leftarrow> rd ys j;
          let result = x - y in
          if result \<noteq> 0 then Some (drop_bit 15 result OR 1)
          else compare_units xs (i + 1) ys (j + 1) n lengthResult }"

text \<open>
  \<open>doCompare(start, length, srcChars, srcStart, srcLength)\<close>. A negative \<open>srcLength\<close> asks
  for \<open>u_strlen(srcChars + srcStart)\<close>, and \<open>srcChars\<close> has then been moved by \<open>srcStart\<close>
  already.
\<close>

definition doCompare :: "ustr \<Rightarrow> int \<Rightarrow> int \<Rightarrow> int list option \<Rightarrow> nat \<Rightarrow> int \<Rightarrow> int option" where
  "doCompare s start n srcChars srcStart srcLength =
     (let (start, n) = pinIndices s start n in
      case srcChars of None \<Rightarrow> Some (if n = 0 then 0 else 1)
      | Some src \<Rightarrow> do {
          srcLength \<leftarrow> (if srcLength < 0
                         then map_option int (u_strlen (drop (srcStart + srcStart) src))
                         else Some srcLength);
          let (minLength, lengthResult) =
            (if n \<noteq> srcLength then if n < srcLength then (n, -1) else (srcLength, 1) else (n, 0));
          compare_units (units s) (nat start) src srcStart (nat minLength) lengthResult })"

definition ustr_compare :: "ustr \<Rightarrow> ustr \<Rightarrow> int option" where
  "ustr_compare a b = doCompare a 0 (ustr_length a) (Some (units b)) 0 (ustr_length b)"

definition getSingleCP :: "ustr \<Rightarrow> int option" where
  "getSingleCP s =
     (if ustr_length s > 2 then Some (-1)
      else if ustr_length s = 1 then Some (charAt s 0)
      else do { cp \<leftarrow> char32At s 0; Some (if cp > 65535 then cp else -1) })"

section \<open>The order\<close>

instantiation ustr :: linorder
begin

definition less_eq_ustr :: "ustr \<Rightarrow> ustr \<Rightarrow> bool" where
  "less_eq_ustr a b = ord_class.lexordp_eq (units a) (units b)"

definition less_ustr :: "ustr \<Rightarrow> ustr \<Rightarrow> bool" where
  "less_ustr a b = ord_class.lexordp (units a) (units b)"

instance
proof
  fix a b c :: ustr
  show "(a < b) = (a \<le> b \<and> \<not> b \<le> a)"
    unfolding less_ustr_def less_eq_ustr_def by (rule lexordp_conv_lexordp_eq)
  show "a \<le> a" by (simp add: less_eq_ustr_def lexordp_eq_refl)
  show "a \<le> b \<Longrightarrow> b \<le> c \<Longrightarrow> a \<le> c" unfolding less_eq_ustr_def by (rule lexordp_eq_trans)
  show "a \<le> b \<Longrightarrow> b \<le> a \<Longrightarrow> a = b"
    unfolding less_eq_ustr_def by (rule ustr.expand) (rule lexordp_eq_antisym)
  show "a \<le> b \<or> b \<le> a" unfolding less_eq_ustr_def by (rule lexordp_eq_linear)
qed

end

text \<open>Shifting the difference of two units right leaves its sign.\<close>

lemma sign_bit:
  assumes "-65536 \<le> (r::int)" "r < 65536" "r \<noteq> 0"
  shows "drop_bit 15 r OR 1 = sgn r"
proof -
  have "drop_bit 15 r = r div 32768" by (simp add: drop_bit_eq_div)
  moreover have "r div 32768 \<in> {-2, -1, 0, 1}" "r < 0 \<longleftrightarrow> r div 32768 < 0" using assms by auto
  ultimately show ?thesis using assms(3) by (auto simp: sgn_if)
qed

definition cmp3 :: "ustr \<Rightarrow> ustr \<Rightarrow> int" where
  "cmp3 a b = (if a < b then -1 else if a = b then 0 else 1)"

lemma compare_units_lex:
  assumes "units_ok (drop i xs)" "units_ok (drop j ys)" "i \<le> length xs" "j \<le> length ys"
    "n = min (length xs - i) (length ys - j)"
    "r = sgn (int (length xs - i) - int (length ys - j))"
  shows "compare_units xs i ys j n r = Some (cmp3 (UStr (drop i xs)) (UStr (drop j ys)))"
  using assms
proof (induction n arbitrary: i j)
  case 0
  then have "drop i xs = [] \<or> drop j ys = []" by (auto simp: min_def split: if_splits)
  with 0 show ?case by (auto simp: cmp3_def less_ustr_def sgn_if)
next
  case (Suc n)
  then have i: "i < length xs" "j < length ys" by auto
  then have d: "drop i xs = xs ! i # drop (i + 1) xs" "drop j ys = ys ! j # drop (j + 1) ys"
    by (simp_all add: Cons_nth_drop_Suc)
  have b: "0 \<le> xs ! i" "xs ! i < 65536" "0 \<le> ys ! j" "ys ! j < 65536"
    using Suc.prems(1,2) d by auto
  show ?case
  proof (cases "xs ! i = ys ! j")
    case True
    moreover have "compare_units xs (i + 1) ys (j + 1) n r =
        Some (cmp3 (UStr (drop (i + 1) xs)) (UStr (drop (j + 1) ys)))"
      using Suc.prems i d by (intro Suc.IH) (auto simp: algebra_simps)
    ultimately show ?thesis using i d by (simp add: cmp3_def less_ustr_def)
  next
    case False
    with i d b sign_bit [of "xs ! i - ys ! j"] show ?thesis
      by (auto simp: cmp3_def less_ustr_def sgn_if)
  qed
qed

lemma ustr_compare_cmp3:
  assumes "units_ok (units a)" "units_ok (units b)"
  shows "ustr_compare a b = Some (cmp3 a b)"
proof -
  have p: "pinIndices a 0 (ustr_length a) = (0, ustr_length a)"
    by (simp add: pinIndices_def ustr_length_def)
  let ?m = "min (length (units a)) (length (units b))"
  let ?r = "sgn (int (length (units a)) - int (length (units b)))"
  have "ustr_compare a b = compare_units (units a) 0 (units b) 0 ?m ?r"
    by (auto simp: ustr_compare_def doCompare_def p [unfolded ustr_length_def] ustr_length_def Let_def min_def sgn_if)
  also have "\<dots> = Some (cmp3 a b)" using compare_units_lex [of 0 "units a" 0 "units b"] assms by simp
  finally show ?thesis .
qed

section \<open>Single code points\<close>

lemma u16_get_first:
  "s \<noteq> [] \<Longrightarrow> u16_get s 0 0 (length s) = Some (hd (cps s))"
  by (cases s rule: cps.cases) (auto simp: u16_get_def)

lemma cps_Nil_iff: "cps s = [] \<longleftrightarrow> s = []"
  by (cases s rule: cps.cases) auto

lemma getSingleCP_spec:
  assumes "units_ok (units s)"
  shows "getSingleCP s = Some (case cps (units s) of [c] \<Rightarrow> c | [] \<Rightarrow> -1 | _ \<Rightarrow> -1)"
proof (cases "units s" rule: cps.cases)
  case 1
  then show ?thesis by (simp add: getSingleCP_def char32At_def ustr_length_def)
next
  case (2 u)
  then show ?thesis by (simp add: getSingleCP_def charAt_def ustr_length_def)
next
  case (3 u t r)
  show ?thesis
  proof (cases r)
    case Nil
    with 3 assms supplementary_range [of u t] show ?thesis
      by (auto simp: getSingleCP_def char32At_def ustr_length_def u16_get_def)
  next
    case (Cons x r')
    then have "cps r \<noteq> []" "cps (t # r) \<noteq> []" by (simp_all add: cps_Nil_iff)
    then have "\<exists>a b l. cps (units s) = a # b # l" using 3 by (auto simp: neq_Nil_conv)
    then obtain a b l where "cps (units s) = a # b # l" by blast
    moreover have "ustr_length s > 2" using Cons 3 by (simp add: ustr_length_def)
    ultimately show ?thesis by (simp add: getSingleCP_def)
  qed
qed

text \<open>\<open>doCompare\<close> on whole strings is the three-way comparison of the lexicographic
  order on code units, a prefix being smaller, whatever the sign bits of the differences; the
  shift by 15 never loses the sign.\<close>

theorem ustr_compare_lexicographic:
  assumes "units_ok (units a)" "units_ok (units b)"
  shows "ustr_compare a b = Some (if a < b then -1 else if a = b then 0 else 1)"
  using ustr_compare_cmp3 [OF assms] by (simp add: cmp3_def)

theorem ustr_compare_lexicographic_witness:
  "ustr_compare (UStr [97, 65535]) (UStr [97, 0, 5]) = Some 1 \<and> UStr [97, 0, 5] < UStr [97, 65535]"
  using ustr_compare_lexicographic [of "UStr [97, 65535]" "UStr [97, 0, 5]"] by (simp add: less_ustr_def)

text \<open>\<open>getSingleCP\<close> finds the single code point of a string exactly when it is one BMP
  code unit or one surrogate pair, and answers -1 for every other string, the empty one
  included.\<close>

theorem getSingleCP_exact:
  assumes "units_ok (units s)"
  shows "getSingleCP s = Some (if length (cps (units s)) = 1 then hd (cps (units s)) else -1)"
proof -
  have "(case cps (units s) of [c] \<Rightarrow> c | [] \<Rightarrow> -1 | _ \<Rightarrow> -1) =
    (if length (cps (units s)) = 1 then hd (cps (units s)) else -1)"
    by (auto split: list.split)
  with getSingleCP_spec [OF assms] show ?thesis by simp
qed

theorem getSingleCP_exact_witness:
  "getSingleCP (UStr [55357, 56832]) = Some 128512 \<and> getSingleCP (UStr [56832, 55357]) = Some (-1)"
  using getSingleCP_exact [of "UStr [55357, 56832]"] getSingleCP_exact [of "UStr [56832, 55357]"]
  by (simp add: u16_is_lead_def u16_is_trail_def u16_supplementary_def)

end
