(* ===== verification/USet.thy ===== *)
theory USet
  imports InvList BMPSpan UVec UStr
begin

text \<open>
  \<open>UnicodeSet\<close> (uniset.cpp): the object, its memory management and every operation that
  changes it. A set is an inversion list of code points and a sorted vector of strings; it
  is frozen when it has a \<open>BMPSet\<close> or a \<open>UnicodeSetStringSpan\<close>, and bogus after a failed
  allocation. \<open>None\<close> is undefined behaviour: a null pointer followed, a cell outside an
  array or past \<open>len\<close> read. A pointer to a string of the vector is the string itself, as
  strings in a vector are never changed and the vector compares what they hold.

  The objects of type \<open>'ss\<close> stand in the field \<open>stringSpan\<close>; the operations that only
  test whether there is one leave the type open.
\<close>

section \<open>The object and its memory\<close>

text \<open>Inversion lists and patterns, the vectors, and \<open>operator new\<close>, have their allocators.\<close>

record uheap =
  hl :: "int heap"
  hs :: "ustr option heap"
  hn :: bool

record 'ss uset =
  us_len :: nat
  us_capacity :: nat
  us_list :: "int list option"
  us_bmpSet :: "bmpset option"
  us_buffer :: "int list option"
  us_bufferCapacity :: nat
  us_pat :: "int list option"
  us_strings :: "ustr uvector option"
  us_stringSpan :: "'ss option"
  us_bogus :: bool

abbreviation GROW_EXTRA :: nat where
  "GROW_EXTRA \<equiv> 16"

definition isFrozen :: "'ss uset \<Rightarrow> bool" where
  "isFrozen s \<longleftrightarrow> us_bmpSet s \<noteq> None \<or> us_stringSpan s \<noteq> None"

definition pinCodePoint :: "int \<Rightarrow> int" where
  "pinCodePoint c =
     (if c < UNICODESET_LOW then UNICODESET_LOW
      else if c > UNICODESET_HIGH - 1 then UNICODESET_HIGH - 1 else c)"

text \<open>The cells of \<open>list\<close> in use, and single cells.\<close>

definition us_used :: "'ss uset \<Rightarrow> int list option" where
  "us_used s =
     (case us_list s of None \<Rightarrow> None
      | Some cs \<Rightarrow> if us_len s \<le> length cs then Some (take (us_len s) cs) else None)"

definition us_write :: "nat \<Rightarrow> int \<Rightarrow> 'ss uset \<Rightarrow> 'ss uset option" where
  "us_write k c s = do { cs \<leftarrow> us_list s; cs \<leftarrow> wr cs k c; Some (s\<lparr>us_list := Some cs\<rparr>) }"

definition releasePattern :: "'ss uset \<Rightarrow> 'ss uset" where
  "releasePattern s = s\<lparr>us_pat := None\<rparr>"

definition setPattern :: "uheap \<Rightarrow> int list \<Rightarrow> 'ss uset \<Rightarrow> 'ss uset" where
  "setPattern h newPat s =
     (let s = releasePattern s
      in if uprv_malloc (hl h) ((int (length newPat) + 1) * 2) then s\<lparr>us_pat := Some newPat\<rparr> else s)"

definition us_clear :: "'ss uset \<Rightarrow> 'ss uset option" where
  "us_clear s =
     (if isFrozen s then Some s
      else do {
        s \<leftarrow> (case us_list s of None \<Rightarrow> Some s | Some _ \<Rightarrow> us_write 0 UNICODESET_HIGH s);
        let s = releasePattern (s\<lparr>us_len := 1\<rparr>);
        s \<leftarrow> (case us_strings s of None \<Rightarrow> Some s
              | Some v \<Rightarrow> do { v \<leftarrow> uv_removeAllElements v; Some (s\<lparr>us_strings := Some v\<rparr>) });
        Some (if us_list s \<noteq> None \<and> us_strings s \<noteq> None then s\<lparr>us_bogus := False\<rparr> else s) })"

definition setToBogus :: "'ss uset \<Rightarrow> 'ss uset option" where
  "setToBogus s = do { s \<leftarrow> us_clear s; Some (s\<lparr>us_bogus := True\<rparr>) }"

text \<open>\<open>realloc\<close> of a pointer that may be null\<close>

definition us_realloc :: "uheap \<Rightarrow> int list option \<Rightarrow> nat \<Rightarrow> int list option" where
  "us_realloc h p n =
     (if uprv_realloc (hl h) (4 * int n)
      then Some (realloc (hl h) (case p of None \<Rightarrow> [] | Some cs \<Rightarrow> cs) n) else None)"

definition ensureCapacity ::
  "uheap \<Rightarrow> nat \<Rightarrow> UErrorCode \<Rightarrow> 'ss uset \<Rightarrow> (UErrorCode \<times> 'ss uset) option" where
  "ensureCapacity h newLen ec s =
     (if newLen \<le> us_capacity s then Some (ec, s)
      else case us_realloc h (us_list s) (newLen + GROW_EXTRA) of
        None \<Rightarrow> do { s \<leftarrow> setToBogus s; Some (U_MEMORY_ALLOCATION_ERROR, s) }
      | Some cs \<Rightarrow> Some (ec, s\<lparr>us_list := Some cs, us_capacity := newLen + GROW_EXTRA\<rparr>))"

definition ensureBufferCapacity ::
  "uheap \<Rightarrow> nat \<Rightarrow> UErrorCode \<Rightarrow> 'ss uset \<Rightarrow> (UErrorCode \<times> 'ss uset) option" where
  "ensureBufferCapacity h newLen ec s =
     (if us_buffer s \<noteq> None \<and> newLen \<le> us_bufferCapacity s then Some (ec, s)
      else case us_realloc h (us_buffer s) (newLen + GROW_EXTRA) of
        None \<Rightarrow> do { s \<leftarrow> setToBogus s; Some (U_MEMORY_ALLOCATION_ERROR, s) }
      | Some cs \<Rightarrow> Some (ec, s\<lparr>us_buffer := Some cs, us_bufferCapacity := newLen + GROW_EXTRA\<rparr>))"

definition swapBuffers :: "'ss uset \<Rightarrow> 'ss uset" where
  "swapBuffers s =
     s\<lparr>us_list := us_buffer s, us_buffer := us_list s,
       us_capacity := us_bufferCapacity s, us_bufferCapacity := us_capacity s\<rparr>"

definition uhash_compareUnicodeString :: "ustr option \<Rightarrow> ustr option \<Rightarrow> bool" where
  "uhash_compareUnicodeString p1 p2 = (p1 = p2)"

definition allocateStrings :: "uheap \<Rightarrow> UErrorCode \<Rightarrow> 'ss uset \<Rightarrow> bool \<times> UErrorCode \<times> 'ss uset" where
  "allocateStrings h status s =
     (if U_FAILURE status then (False, status, s)
      else if \<not> hn h then (False, U_MEMORY_ALLOCATION_ERROR, s\<lparr>us_strings := None\<rparr>)
      else let (v, status) = uv_new (hs h) True (Some uhash_compareUnicodeString) 1 status
           in if U_FAILURE status then (False, status, s\<lparr>us_strings := None\<rparr>)
              else (True, status, s\<lparr>us_strings := Some v\<rparr>))"

section \<open>The merges\<close>

text \<open>What the three merges end with: \<open>out\<close> was written to the buffer, \<open>len = k\<close>.\<close>

definition us_merged :: "int list \<Rightarrow> 'ss uset \<Rightarrow> 'ss uset" where
  "us_merged out s =
     releasePattern (swapBuffers
       (s\<lparr>us_buffer := map_option (\<lambda>buf. out @ drop (length out) buf) (us_buffer s),
          us_len := length out\<rparr>))"

definition exclusiveOr ::
  "uheap \<Rightarrow> int list option \<Rightarrow> nat \<Rightarrow> nat \<Rightarrow> 'ss uset \<Rightarrow> 'ss uset option" where
  "exclusiveOr h other otherLen polarity s =
     (if isFrozen s \<or> us_bogus s then Some s
      else do {
        (status, s) \<leftarrow> ensureBufferCapacity h (us_len s + otherLen) U_ZERO_ERROR s;
        if U_FAILURE status then Some s
        else do {
          list \<leftarrow> us_used s;
          a \<leftarrow> rd list 0;
          other \<leftarrow> other;
          first \<leftarrow> rd other 0;
          (b, rest) \<leftarrow> (if polarity = 1 \<or> polarity = 2
                       then if first = UNICODESET_LOW
                            then do { b \<leftarrow> rd other 1; Some (b, drop 1 other) }
                            else Some (UNICODESET_LOW, other)
                       else Some (first, drop 1 other));
          out \<leftarrow> xor_loop (us_bufferCapacity s) (drop 1 list) rest a b [];
          Some (us_merged out s) } })"

definition us_add_list ::
  "uheap \<Rightarrow> int list option \<Rightarrow> nat \<Rightarrow> nat \<Rightarrow> 'ss uset \<Rightarrow> 'ss uset option" where
  "us_add_list h other otherLen polarity s =
     (if isFrozen s \<or> us_bogus s \<or> other = None then Some s
      else do {
        (status, s) \<leftarrow> ensureBufferCapacity h (us_len s + otherLen) U_ZERO_ERROR s;
        if U_FAILURE status then Some s
        else do {
          list \<leftarrow> us_used s;
          a \<leftarrow> rd list 0;
          other \<leftarrow> other;
          b \<leftarrow> rd other 0;
          out \<leftarrow> add_loop (us_bufferCapacity s) (drop 1 list) (drop 1 other) a b polarity [];
          Some (us_merged out s) } })"

definition us_retain_list ::
  "uheap \<Rightarrow> int list option \<Rightarrow> nat \<Rightarrow> nat \<Rightarrow> 'ss uset \<Rightarrow> 'ss uset option" where
  "us_retain_list h other otherLen polarity s =
     (if isFrozen s \<or> us_bogus s then Some s
      else do {
        (status, s) \<leftarrow> ensureBufferCapacity h (us_len s + otherLen) U_ZERO_ERROR s;
        if U_FAILURE status then Some s
        else do {
          list \<leftarrow> us_used s;
          a \<leftarrow> rd list 0;
          other \<leftarrow> other;
          b \<leftarrow> rd other 0;
          out \<leftarrow> retain_loop (us_bufferCapacity s) (drop 1 list) (drop 1 other) a b polarity [];
          Some (us_merged out s) } })"

section \<open>Code points\<close>

text \<open>\<open>while (src < srclimit) *(dst++) = *(src++);\<close> and its mirror image\<close>

function copy_down :: "int list \<Rightarrow> nat \<Rightarrow> nat \<Rightarrow> nat \<Rightarrow> int list option" where
  "copy_down cs dst src srclimit =
     (if src < srclimit
      then do { x \<leftarrow> rd cs src; cs \<leftarrow> wr cs dst x; copy_down cs (dst + 1) (src + 1) srclimit }
      else Some cs)"
  by pat_completeness auto
termination
  by (relation "measure (\<lambda>(cs, dst, src, srclimit). srclimit - src)") auto

fun copy_up :: "int list \<Rightarrow> nat \<Rightarrow> nat \<Rightarrow> nat \<Rightarrow> int list option" where
  "copy_up cs src dst srclimit =
     (if src > srclimit
      then do { x \<leftarrow> rd cs (src - 1); cs \<leftarrow> wr cs (dst - 1) x; copy_up cs (src - 1) (dst - 1) srclimit }
      else Some cs)"

declare copy_down.simps [simp del] copy_up.simps [simp del]

text \<open>\<open>i > 0 && c == list[i-1]\<close>\<close>

definition us_touches :: "int \<Rightarrow> nat \<Rightarrow> 'ss uset \<Rightarrow> bool option" where
  "us_touches c i s =
     (if i > 0 then do { cs \<leftarrow> us_list s; x \<leftarrow> rd cs (i - 1); Some (c = x) } else Some False)"

definition us_add_cp :: "uheap \<Rightarrow> int \<Rightarrow> 'ss uset \<Rightarrow> 'ss uset option" where
  "us_add_cp h c0 s = do {
     let c = pinCodePoint c0;
     list \<leftarrow> us_used s;
     i \<leftarrow> findCodePoint list c;
     if odd i \<or> isFrozen s \<or> us_bogus s then Some s
     else do {
       next \<leftarrow> rd list i;
       if c = next - 1 then do {
         s \<leftarrow> us_write i c s;
         (status, s) \<leftarrow> (if c = UNICODESET_HIGH - 1
            then do { (status, s) \<leftarrow> ensureCapacity h (us_len s + 1) U_ZERO_ERROR s;
                      if U_FAILURE status then Some (status, s)
                      else do { s \<leftarrow> us_write (us_len s) UNICODESET_HIGH s;
                                Some (status, s\<lparr>us_len := us_len s + 1\<rparr>) } }
            else Some (U_ZERO_ERROR, s));
         if U_FAILURE status then Some s
         else do {
           t \<leftarrow> us_touches c i s;
           if t then do { cs \<leftarrow> us_list s;
                          cs \<leftarrow> copy_down cs (i - 1) (i + 1) (us_len s);
                          Some (releasePattern (s\<lparr>us_list := Some cs, us_len := us_len s - 2\<rparr>)) }
           else Some (releasePattern s) } }
       else do {
         t \<leftarrow> us_touches c i s;
         if t then do { s \<leftarrow> us_write (i - 1) (c + 1) s; Some (releasePattern s) }
         else do {
           (status, s) \<leftarrow> ensureCapacity h (us_len s + 2) U_ZERO_ERROR s;
           if U_FAILURE status then Some s
           else do {
             cs \<leftarrow> us_list s;
             cs \<leftarrow> copy_up cs (us_len s) (us_len s + 2) i;
             cs \<leftarrow> wr cs i c;
             cs \<leftarrow> wr cs (i + 1) (c + 1);
             Some (releasePattern (s\<lparr>us_list := Some cs, us_len := us_len s + 2\<rparr>)) } } } } }"

definition us_add :: "uheap \<Rightarrow> int \<Rightarrow> int \<Rightarrow> 'ss uset \<Rightarrow> 'ss uset option" where
  "us_add h start end s =
     (let start = pinCodePoint start; end = pinCodePoint end
      in if start < end then us_add_list h (Some [start, end + 1, UNICODESET_HIGH]) 2 0 s
         else if start = end then us_add_cp h start s else Some s)"

definition us_retain :: "uheap \<Rightarrow> int \<Rightarrow> int \<Rightarrow> 'ss uset \<Rightarrow> 'ss uset option" where
  "us_retain h start end s =
     (let start = pinCodePoint start; end = pinCodePoint end
      in if start \<le> end then us_retain_list h (Some [start, end + 1, UNICODESET_HIGH]) 2 0 s
         else us_clear s)"

definition us_remove :: "uheap \<Rightarrow> int \<Rightarrow> int \<Rightarrow> 'ss uset \<Rightarrow> 'ss uset option" where
  "us_remove h start end s =
     (let start = pinCodePoint start; end = pinCodePoint end
      in if start \<le> end then us_retain_list h (Some [start, end + 1, UNICODESET_HIGH]) 2 2 s
         else Some s)"

definition us_complement_range :: "uheap \<Rightarrow> int \<Rightarrow> int \<Rightarrow> 'ss uset \<Rightarrow> 'ss uset option" where
  "us_complement_range h start end s =
     (if isFrozen s \<or> us_bogus s then Some s
      else let start = pinCodePoint start; end = pinCodePoint end
           in do { s \<leftarrow> (if start \<le> end then exclusiveOr h (Some [start, end + 1, UNICODESET_HIGH]) 2 0 s
                        else Some s);
                   Some (releasePattern s) })"

definition us_complement :: "uheap \<Rightarrow> 'ss uset \<Rightarrow> 'ss uset option" where
  "us_complement h s =
     (if isFrozen s \<or> us_bogus s then Some s
      else do {
        list \<leftarrow> us_used s;
        first \<leftarrow> rd list 0;
        (status, s) \<leftarrow> ensureBufferCapacity h
           (if first = UNICODESET_LOW then us_len s - 1 else us_len s + 1) U_ZERO_ERROR s;
        if U_FAILURE status then Some s
        else do {
          buf \<leftarrow> us_buffer s;
          let new = (if first = UNICODESET_LOW then drop 1 list else UNICODESET_LOW # list);
          if length new \<le> length buf
          then Some (releasePattern (swapBuffers
                 (s\<lparr>us_buffer := Some (new @ drop (length new) buf), us_len := length new\<rparr>)))
          else None } })"

definition us_set :: "uheap \<Rightarrow> int \<Rightarrow> int \<Rightarrow> 'ss uset \<Rightarrow> 'ss uset option" where
  "us_set h start end s = do { s \<leftarrow> us_clear s; us_complement_range h start end s }"

definition us_compact :: "uheap \<Rightarrow> 'ss uset \<Rightarrow> 'ss uset option" where
  "us_compact h s =
     (if isFrozen s \<or> us_bogus s then Some s
      else let s = s\<lparr>us_buffer := None\<rparr>
           in if us_len s < us_capacity s
              then let newCapacity = us_len s + (if us_len s = 0 then 1 else 0)
                   in case us_realloc h (us_list s) newCapacity of
                        None \<Rightarrow> Some s
                      | Some cs \<Rightarrow> Some (s\<lparr>us_list := Some cs, us_capacity := newCapacity\<rparr>)
              else Some s)"

section \<open>Adding a code point to an inversion list\<close>

text \<open>
  \<open>P\<close> is what lies before the next range, \<open>n # R\<close> the rest, \<open>c\<close> a code point between
  them; the four ways \<open>add(c)\<close> has to put it in.
\<close>

definition adds :: "int \<Rightarrow> int list \<Rightarrow> int list \<Rightarrow> bool" where
  "adds c xs ys \<longleftrightarrow> inv_list ys \<and> inv_set ys = insert c (inv_set xs)"

lemma adds_ranges:
  "inv_list xs \<Longrightarrow> inv_list ys \<Longrightarrow> ranges ys = insert c (ranges xs) \<Longrightarrow> adds c xs ys"
  using ranges_inv_set [of xs] ranges_inv_set [of ys] by (simp add: adds_def inv_listD(4))

lemma inv_list_append:
  "inv_list (P @ n # R) \<longleftrightarrow>
     ssorted P \<and> (\<forall>x \<in> set P. 0 \<le> x \<and> x < n) \<and> inv_list (n # R)"
  by (auto simp: inv_list_def inv_tail_def sorted_wrt_append intro: less_trans)

lemma inv_list_Cons:
  "inv_list (x # xs) \<longleftrightarrow> 0 \<le> x \<and> (if xs = [] then x = UNICODESET_HIGH else x < hd xs \<and> inv_list xs)"
  by (cases xs) (auto simp: inv_list_def inv_tail_def intro: less_trans)

lemma adds_apart:
  assumes "inv_list (P @ n # R)" "even (length P)" "\<forall>x \<in> set P. x < c" "0 \<le> c" "c + 1 < n"
  shows "adds c (P @ n # R) (P @ c # (c + 1) # n # R)"
proof (rule adds_ranges [OF assms(1)])
  show "inv_list (P @ c # (c + 1) # n # R)"
    using assms by (auto simp: inv_list_append inv_list_Cons)
  show "ranges (P @ c # (c + 1) # n # R) = insert c (ranges (P @ n # R))"
    using assms(2) by (auto simp: ranges_append)
qed

text \<open>\<open>R'\<close>: the rest behind \<open>c\<close> when \<open>c\<close> is put at the start of the next range.\<close>

definition behind :: "int \<Rightarrow> int list \<Rightarrow> int list" where
  "behind n R = (if n = UNICODESET_HIGH then [UNICODESET_HIGH] else R)"

lemma behind_spec:
  assumes "inv_list (n # R)"
  obtains m R2 where "behind n R = m # R2" "n \<le> m" "inv_list (m # R2)"
    "ranges (n # R) = {n..<m} \<union> ranges R2"
proof (cases "n = UNICODESET_HIGH")
  case True
  then have "R = []" using assms inv_tail_both_high [of R] by (simp add: inv_list_def)
  with True that [of UNICODESET_HIGH "[]"] show thesis by (simp add: behind_def)
next
  case False
  then obtain m R2 where "R = m # R2" using assms by (cases R) (auto simp: inv_list_Cons)
  with False assms that [of m R2] show thesis by (auto simp: behind_def inv_list_Cons split: if_splits)
qed

lemma adds_before:
  assumes "inv_list (P @ n # R)" "even (length P)" "\<forall>x \<in> set P. x < c" "0 \<le> c" "c + 1 = n"
  shows "adds c (P @ n # R) (P @ c # behind n R)"
proof (rule adds_ranges [OF assms(1)])
  obtain m R2 where b: "behind n R = m # R2" "n \<le> m" "inv_list (m # R2)"
    "ranges (n # R) = {n..<m} \<union> ranges R2"
    using behind_spec [of n R] assms(1) by (auto simp: inv_list_append)
  show "inv_list (P @ c # behind n R)"
    using assms b by (auto simp: inv_list_append inv_list_Cons)
  have "ranges (c # behind n R) = insert c (ranges (n # R))"
    using b assms(5) by (auto simp: b(4))
  then show "ranges (P @ c # behind n R) = insert c (ranges (P @ n # R))"
    using assms(2) by (simp add: ranges_append)
qed

lemma odd_split:
  assumes "even (length (P @ [c]))"
  obtains P' s where "P = P' @ [s]" "even (length P')"
  using assms by (cases P rule: rev_cases) auto

lemma adds_after:
  assumes "inv_list ((P @ [c]) @ n # R)" "even (length (P @ [c]))" "0 \<le> c" "c + 1 < n"
  shows "adds c ((P @ [c]) @ n # R) (P @ (c + 1) # n # R)"
proof (rule adds_ranges [OF assms(1)])
  obtain P' s where P: "P = P' @ [s]" "even (length P')" using odd_split [OF assms(2)] .
  have "s < c" using assms(1) P(1) by (simp add: inv_list_append inv_list_Cons)
  moreover show "inv_list (P @ (c + 1) # n # R)"
    using assms by (auto simp: inv_list_append inv_list_Cons sorted_wrt_append)
  ultimately show "ranges (P @ (c + 1) # n # R) = insert c (ranges ((P @ [c]) @ n # R))"
    using P(2) by (auto simp: P(1) ranges_append)
qed

lemma adds_join:
  assumes "inv_list ((P @ [c]) @ n # R)" "even (length (P @ [c]))" "0 \<le> c" "c + 1 = n"
  shows "adds c ((P @ [c]) @ n # R) (P @ behind n R)"
proof (rule adds_ranges [OF assms(1)])
  obtain P' s where P: "P = P' @ [s]" "even (length P')" using odd_split [OF assms(2)] .
  have sc: "s < c" using assms(1) P(1) by (simp add: inv_list_append inv_list_Cons)
  obtain m R2 where b: "behind n R = m # R2" "n \<le> m" "inv_list (m # R2)"
    "ranges (n # R) = {n..<m} \<union> ranges R2"
    using behind_spec [of n R] assms(1) by (auto simp: inv_list_append inv_list_Cons [of c])
  show "inv_list (P @ behind n R)"
    using assms b by (auto simp: inv_list_append inv_list_Cons sorted_wrt_append)
  show "ranges (P @ behind n R) = insert c (ranges ((P @ [c]) @ n # R))"
    using P(2) b sc assms(4) by (auto simp: P(1) ranges_append)
qed

section \<open>The copy loops\<close>

lemma copy_down_spec:
  assumes "dst \<le> src" "lim \<le> length cs" "src \<le> lim"
  shows "\<exists>ys. copy_down cs dst src lim = Some ys \<and> length ys = length cs \<and>
    take (dst + (lim - src)) ys = take dst cs @ drop src (take lim cs)"
  using assms
proof (induction "lim - src" arbitrary: cs dst src)
  case 0
  then show ?case by (simp add: copy_down.simps [of cs dst src])
next
  case (Suc k)
  then have lt: "src < lim" and k: "k = lim - (src + 1)" by simp_all
  let ?cs = "cs[dst := cs ! src]"
  obtain ys where ys: "copy_down ?cs (dst + 1) (src + 1) lim = Some ys" "length ys = length cs"
    "take (dst + 1 + (lim - (src + 1))) ys = take (dst + 1) ?cs @ drop (src + 1) (take lim ?cs)"
    using Suc.hyps(1) [of "src + 1" "dst + 1" ?cs, OF k] Suc.prems lt by auto
  have "take (dst + 1) ?cs = take dst cs @ [cs ! src]"
    using Suc.prems lt by (simp add: take_Suc_conv_app_nth)
  moreover have "drop (src + 1) (take lim ?cs) = drop (src + 1) (take lim cs)"
    using Suc.prems lt by (simp add: take_update_swap)
  moreover have "drop src (take lim cs) = cs ! src # drop (src + 1) (take lim cs)"
    using Suc.prems lt by (simp add: Cons_nth_drop_Suc [symmetric])
  moreover have e: "dst + 1 + (lim - (src + 1)) = dst + (lim - src)" using lt by simp
  ultimately have "take (dst + (lim - src)) ys = take dst cs @ drop src (take lim cs)"
    using ys(3) [unfolded e] by simp
  with ys(1,2) lt Suc.prems show ?case by (simp add: copy_down.simps [of cs dst src])
qed

lemma copy_up_spec:
  assumes "i \<le> src" "src + 2 \<le> length cs"
  shows "\<exists>ys. copy_up cs src (src + 2) i = Some ys \<and> length ys = length cs \<and>
    (\<forall>k < length cs. ys ! k = (if i + 2 \<le> k \<and> k < src + 2 then cs ! (k - 2) else cs ! k))"
  using assms
proof (induction "src - i" arbitrary: cs src)
  case 0
  then have "src = i" by simp
  then show ?case by (simp add: copy_up.simps [of cs i "Suc (Suc i)" i])
next
  case (Suc k)
  then have lt: "i < src" and k: "k = src - 1 - i" and le: "i \<le> src - 1" by simp_all
  let ?cs = "cs[src + 1 := cs ! (src - 1)]"
  have e: "src - 1 + 2 = src + 1" using lt by simp
  obtain ys where ys: "copy_up ?cs (src - 1) (src + 1) i = Some ys" "length ys = length cs"
    "\<forall>k < length cs. ys ! k = (if i + 2 \<le> k \<and> k < src + 1 then ?cs ! (k - 2) else ?cs ! k)"
    using Suc.hyps(1) [OF k le, of ?cs] Suc.prems unfolding e by auto
  have "\<forall>k < length cs. ys ! k = (if i + 2 \<le> k \<and> k < src + 2 then cs ! (k - 2) else cs ! k)"
  proof (intro allI impI)
    fix k assume "k < length cs"
    then show "ys ! k = (if i + 2 \<le> k \<and> k < src + 2 then cs ! (k - 2) else cs ! k)"
      using ys(3) lt by (cases "k = src + 1") (auto simp: nth_list_update)
  qed
  with ys(1,2) lt Suc.prems show ?case by (simp add: copy_up.simps [of cs src])
qed

lemma copy_up_insert:
  assumes "i \<le> n" "n + 2 \<le> length cs"
  obtains ys where "copy_up cs n (n + 2) i = Some ys" "length ys = length cs"
    "take (n + 2) (ys[i := x, i + 1 := y]) = take i cs @ x # y # drop i (take n cs)"
proof -
  obtain ys where ys: "copy_up cs n (n + 2) i = Some ys" "length ys = length cs"
    "\<forall>k < length cs. ys ! k = (if i + 2 \<le> k \<and> k < n + 2 then cs ! (k - 2) else cs ! k)"
    using copy_up_spec [OF assms] by blast
  have "take (n + 2) (ys[i := x, i + 1 := y]) = take i cs @ x # y # drop i (take n cs)"
  proof (rule nth_equalityI)
    show "length (take (n + 2) (ys[i := x, i + 1 := y])) = length (take i cs @ x # y # drop i (take n cs))"
      using assms ys(2) by simp
    fix k assume "k < length (take (n + 2) (ys[i := x, i + 1 := y]))"
    then have k: "k < n + 2" "k < length cs" using ys(2) by auto
    consider "k < i" | "k = i" | "k = i + 1" | "i + 2 \<le> k" by linarith
    then show "take (n + 2) (ys[i := x, i + 1 := y]) ! k = (take i cs @ x # y # drop i (take n cs)) ! k"
    proof cases
      case 4
      then obtain j where "k = i + 2 + j" using le_Suc_ex by blast
      then show ?thesis using k ys(2,3) assms by (simp add: nth_append)
    qed (use k ys(2,3) assms in \<open>auto simp: nth_append\<close>)
  qed
  with ys(1,2) that show thesis by blast
qed

end
