(* ===== verification/USetSpec.thy ===== *)
theory USetSpec
  imports USet
begin

text \<open>
  What the operations of \<open>UnicodeSet\<close> on code points promise. A set stands for a set of
  code points and a set of strings; \<open>us_ok\<close> is the invariant of the object, and
  \<open>us_to room r s C S\<close> says what every operation that changes a set shares: it keeps the
  invariant, leaves a frozen or bogus set alone, either runs out of memory and makes the set
  bogus or gives the set \<open>C\<close>, \<open>S\<close>, and never keeps a pattern that is out of date.
\<close>

section \<open>The abstraction and the invariant\<close>

definition us_codes :: "'ss uset \<Rightarrow> int set" where
  "us_codes s = (case us_used s of Some xs \<Rightarrow> inv_set xs | None \<Rightarrow> {})"

definition us_strs :: "'ss uset \<Rightarrow> ustr set" where
  "us_strs s = (case us_strings s of Some v \<Rightarrow> {t. Some t \<in> set (uv_list v)} | None \<Rightarrow> {})"

text \<open>A string that is no single code point, the only kind the vector holds.\<close>

definition str_ok :: "ustr \<Rightarrow> bool" where
  "str_ok t \<longleftrightarrow> units_ok (units t) \<and> length (cps (units t)) > 1"

definition strings_ok :: "ustr uvector \<Rightarrow> bool" where
  "strings_ok v \<longleftrightarrow> uv_ok v \<and> uv_comparer v = Some (=) \<and> uv_deleter v \<and>
     (\<exists>ss. uv_list v = map Some ss \<and> ssorted ss \<and> list_all str_ok ss)"

definition us_ok :: "'ss uset \<Rightarrow> bool" where
  "us_ok s \<longleftrightarrow>
     (\<exists>cs. us_list s = Some cs \<and> length cs = us_capacity s \<and> us_len s \<le> us_capacity s \<and>
        inv_list (take (us_len s) cs) \<and>
        (\<forall>b. us_bmpSet s = Some b \<longrightarrow> bmpset_ok b \<and> bs_list b = take (us_len s) cs) \<and>
        (us_bogus s \<longrightarrow> take (us_len s) cs = [UNICODESET_HIGH])) \<and>
     (\<forall>b. us_buffer s = Some b \<longrightarrow> length b = us_bufferCapacity s) \<and>
     (\<exists>v. us_strings s = Some v \<and> strings_ok v \<and> (us_bogus s \<longrightarrow> uv_list v = []))"

lemma us_okE:
  assumes "us_ok s"
  obtains cs v xs where "us_list s = Some cs" "length cs = us_capacity s" "us_len s \<le> us_capacity s"
    "xs = take (us_len s) cs" "us_used s = Some xs" "inv_list xs" "length xs = us_len s"
    "us_codes s = inv_set xs" "us_strings s = Some v" "strings_ok v"
    "us_strs s = {t. Some t \<in> set (uv_list v)}"
proof -
  obtain cs v where *: "us_list s = Some cs" "length cs = us_capacity s" "us_len s \<le> us_capacity s"
    "inv_list (take (us_len s) cs)" "us_strings s = Some v" "strings_ok v"
    using assms by (auto simp: us_ok_def)
  then have "us_used s = Some (take (us_len s) cs)" by (simp add: us_used_def)
  with * show thesis by (intro that [of cs "take (us_len s) cs" v]) (auto simp: us_codes_def us_strs_def)
qed

definition roomy :: "uheap \<Rightarrow> bool" where
  "roomy h \<longleftrightarrow> can_alloc (hl h) = (\<lambda>_. True) \<and> can_alloc (hs h) = (\<lambda>_. True) \<and> hn h"

definition fresh_pat :: "'ss uset \<Rightarrow> 'ss uset \<Rightarrow> bool" where
  "fresh_pat s s' \<longleftrightarrow> us_pat s' = None \<or>
     us_pat s' = us_pat s \<and> us_codes s' = us_codes s \<and> us_strs s' = us_strs s"

definition us_to :: "bool \<Rightarrow> 'ss uset option \<Rightarrow> 'ss uset \<Rightarrow> int set \<Rightarrow> ustr set \<Rightarrow> bool" where
  "us_to room r s C S \<longleftrightarrow>
     (\<exists>s'. r = Some s' \<and> us_ok s' \<and> us_bmpSet s' = us_bmpSet s \<and> us_stringSpan s' = us_stringSpan s \<and>
        fresh_pat s s' \<and>
        (if isFrozen s \<or> us_bogus s then s' = s
         else if us_bogus s' then \<not> room else us_codes s' = C \<and> us_strs s' = S))"

lemma us_to_same:
  "us_ok s \<Longrightarrow> C = us_codes s \<Longrightarrow> S = us_strs s \<Longrightarrow> us_to room (Some s) s C S"
  by (simp add: us_to_def fresh_pat_def)

lemma us_to_unchanged: "us_ok s \<Longrightarrow> isFrozen s \<or> us_bogus s \<Longrightarrow> us_to room (Some s) s C S"
  by (simp add: us_to_def fresh_pat_def)

lemma us_to_new:
  assumes "us_ok s'" "us_bmpSet s' = us_bmpSet s" "us_stringSpan s' = us_stringSpan s" "us_pat s' = None"
    "\<not> isFrozen s" "\<not> us_bogus s" "us_bogus s' \<Longrightarrow> \<not> room"
    "\<not> us_bogus s' \<Longrightarrow> us_codes s' = C \<and> us_strs s' = S"
  shows "us_to room (Some s') s C S"
  using assms by (simp add: us_to_def fresh_pat_def)

section \<open>Memory\<close>

lemma us_sel [simp]:
  "isFrozen (s\<lparr>us_list := l\<rparr>) = isFrozen s" "isFrozen (s\<lparr>us_len := n\<rparr>) = isFrozen s"
  "isFrozen (s\<lparr>us_buffer := l\<rparr>) = isFrozen s" "isFrozen (s\<lparr>us_bufferCapacity := n\<rparr>) = isFrozen s"
  "isFrozen (s\<lparr>us_capacity := n\<rparr>) = isFrozen s" "isFrozen (s\<lparr>us_pat := p\<rparr>) = isFrozen s"
  "isFrozen (s\<lparr>us_strings := v\<rparr>) = isFrozen s" "isFrozen (s\<lparr>us_bogus := b\<rparr>) = isFrozen s"
  by (simp_all add: isFrozen_def)

lemma us_list_capacity [simp]:
  "s\<lparr>us_list := l, us_capacity := n\<rparr> = s\<lparr>us_capacity := n, us_list := l\<rparr>"
  by simp

lemma strings_emptied:
  assumes "strings_ok v"
  shows "\<exists>v'. uv_removeAllElements v = Some v' \<and> strings_ok v' \<and> uv_list v' = []"
proof -
  have v: "uv_ok v" "uv_comparer v = Some (=)" "uv_deleter v" using assms by (auto simp: strings_ok_def)
  obtain v' where v': "uv_removeAllElements v = Some v'" "uv_removes v v' []"
    using uv_removeAllElements_spec [OF v(1)] by blast
  with v uv_removesD [OF v'(2)] show ?thesis by (auto simp: strings_ok_def)
qed

text \<open>\<open>s'\<close> is an empty set that is not bogus.\<close>

definition us_emptied :: "'ss uset \<Rightarrow> 'ss uset \<Rightarrow> bool" where
  "us_emptied s s' \<longleftrightarrow> us_ok s' \<and> \<not> us_bogus s' \<and> us_pat s' = None \<and> us_codes s' = {} \<and> us_strs s' = {} \<and>
     us_used s' = Some [UNICODESET_HIGH] \<and> us_ok (s'\<lparr>us_bogus := True\<rparr>) \<and>
     us_bmpSet s' = us_bmpSet s \<and> us_stringSpan s' = us_stringSpan s"

text \<open>What \<open>clear\<close> needs: the arrays are there, whatever they hold.\<close>

definition us_shape :: "'ss uset \<Rightarrow> bool" where
  "us_shape s \<longleftrightarrow> (\<exists>cs. us_list s = Some cs \<and> length cs = us_capacity s \<and> cs \<noteq> []) \<and>
     (\<forall>b. us_buffer s = Some b \<longrightarrow> length b = us_bufferCapacity s) \<and>
     (\<exists>v. us_strings s = Some v \<and> strings_ok v)"

lemma us_ok_shape: "us_ok s \<Longrightarrow> us_shape s"
  using inv_listD(1) by (fastforce simp: us_ok_def us_shape_def)

lemma us_clear_spec:
  assumes "us_shape s" "\<not> isFrozen s"
  shows "\<exists>s'. us_clear s = Some s' \<and> us_emptied s s'"
proof -
  obtain cs v where s: "us_list s = Some cs" "length cs = us_capacity s" "cs \<noteq> []"
    "us_strings s = Some v" "strings_ok v" "us_buffer s = Some b \<Longrightarrow> length b = us_bufferCapacity s" for b
    using assms(1) by (auto simp: us_shape_def)
  obtain v' where v': "uv_removeAllElements v = Some v'" "strings_ok v'" "uv_list v' = []"
    using strings_emptied [OF s(5)] by blast
  have pos: "0 < length cs" using s(3) by simp
  then have hd: "take (Suc 0) (cs[0 := UNICODESET_HIGH]) = [UNICODESET_HIGH]" by (cases cs) auto
  have b: "us_bmpSet s = None" using assms(2) by (auto simp: isFrozen_def)
  show ?thesis
    using assms s v' pos hd b
    by (auto simp: us_clear_def us_write_def releasePattern_def us_emptied_def us_ok_def
        us_used_def us_codes_def us_strs_def)
qed

lemma setToBogus_spec:
  assumes "us_shape s" "\<not> isFrozen s"
  shows "\<exists>s'. setToBogus s = Some s' \<and> us_ok s' \<and> us_bogus s' \<and> us_pat s' = None \<and>
    us_bmpSet s' = us_bmpSet s \<and> us_stringSpan s' = us_stringSpan s"
proof -
  obtain s' where s': "us_clear s = Some s'" "us_emptied s s'" using us_clear_spec [OF assms] by blast
  then show ?thesis by (simp add: setToBogus_def us_emptied_def)
qed

lemma us_realloc_Some:
  "us_realloc h p n = Some cs \<Longrightarrow> cs = realloc (hl h) (case p of None \<Rightarrow> [] | Some cs \<Rightarrow> cs) n"
  "us_realloc h p n = None \<Longrightarrow> \<not> roomy h"
  by (auto simp: us_realloc_def roomy_def uprv_realloc_def split: if_splits)

lemma ensureBufferCapacity_spec:
  assumes "us_ok s" "\<not> isFrozen s" "\<not> us_bogus s"
  obtains (bogus) s' where "ensureBufferCapacity h n U_ZERO_ERROR s = Some (U_MEMORY_ALLOCATION_ERROR, s')"
      "us_to (roomy h) (Some s') s C S"
  | (room) s' buf where "ensureBufferCapacity h n U_ZERO_ERROR s = Some (U_ZERO_ERROR, s')"
      "us_ok s'" "s' = s\<lparr>us_buffer := Some buf, us_bufferCapacity := us_bufferCapacity s'\<rparr>"
      "length buf = us_bufferCapacity s'" "n \<le> us_bufferCapacity s'"
proof (cases "us_buffer s \<noteq> None \<and> n \<le> us_bufferCapacity s")
  case True
  then obtain buf where "us_buffer s = Some buf" by auto
  with True assms(1) show thesis
    by (intro room [of s buf]) (auto simp: ensureBufferCapacity_def us_ok_def)
next
  case no: False
  show thesis
  proof (cases "us_realloc h (us_buffer s) (n + GROW_EXTRA)")
    case None
    obtain s' where s': "setToBogus s = Some s'" "us_ok s'" "us_bogus s'" "us_pat s' = None"
      "us_bmpSet s' = us_bmpSet s" "us_stringSpan s' = us_stringSpan s"
      using setToBogus_spec [OF us_ok_shape [OF assms(1)] assms(2)] by blast
    have "us_to (roomy h) (Some s') s C S"
      using s' assms us_realloc_Some(2) [OF None] by (intro us_to_new) auto
    with no None s'(1) show thesis by (intro bogus [of s']) (auto simp: ensureBufferCapacity_def)
  next
    case (Some cs)
    then have "length cs = n + GROW_EXTRA" using us_realloc_Some(1) [OF Some] by simp
    with no Some assms show thesis
      by (intro room [of "s\<lparr>us_buffer := Some cs, us_bufferCapacity := n + GROW_EXTRA\<rparr>" cs])
        (auto simp: ensureBufferCapacity_def us_ok_def)
  qed
qed

lemma ensureCapacity_spec:
  assumes "us_shape s" "us_list s = Some cs" "\<not> isFrozen s"
  obtains (bogus) s' where "ensureCapacity h n U_ZERO_ERROR s = Some (U_MEMORY_ALLOCATION_ERROR, s')"
      "us_ok s'" "us_bogus s'" "us_pat s' = None" "us_bmpSet s' = us_bmpSet s"
      "us_stringSpan s' = us_stringSpan s" "\<not> roomy h"
  | (room) cap cs' where "ensureCapacity h n U_ZERO_ERROR s =
        Some (U_ZERO_ERROR, s\<lparr>us_list := Some cs', us_capacity := cap\<rparr>)"
      "length cs' = cap" "n \<le> cap" "us_capacity s \<le> cap" "take (us_capacity s) cs' = cs"
proof (cases "n \<le> us_capacity s")
  case True
  have "length cs = us_capacity s" using assms(1,2) by (auto simp: us_shape_def)
  moreover have "s = s\<lparr>us_list := Some cs, us_capacity := us_capacity s\<rparr>" using assms(2) by simp
  ultimately show thesis using True
    by (intro room [of "us_capacity s" cs]) (auto simp: ensureCapacity_def)
next
  case no: False
  have len: "length cs = us_capacity s" using assms(1,2) by (auto simp: us_shape_def)
  show thesis
  proof (cases "us_realloc h (us_list s) (n + GROW_EXTRA)")
    case None
    obtain s' where s': "setToBogus s = Some s'" "us_ok s'" "us_bogus s'" "us_pat s' = None"
      "us_bmpSet s' = us_bmpSet s" "us_stringSpan s' = us_stringSpan s"
      using setToBogus_spec [OF assms(1,3)] by blast
    with no None us_realloc_Some(2) [OF None] show thesis
      by (intro bogus [of s']) (auto simp: ensureCapacity_def)
  next
    case (Some cs')
    then have "cs' = realloc (hl h) cs (n + GROW_EXTRA)" using us_realloc_Some(1) [OF Some] assms(2) by simp
    with no Some len show thesis
      by (intro room [of "n + GROW_EXTRA" cs']) (auto simp: ensureCapacity_def)
  qed
qed

end
