(* ===== verification/USetCodes.thy ===== *)
theory USetCodes
  imports USetSpec
begin

text \<open>
  Union, intersection, difference, symmetric difference and complement on the code points
  of a \<open>UnicodeSet\<close>: ranges, single code points and whole inversion lists.
\<close>

section \<open>The merges\<close>

lemma us_used_sel [simp]:
  "us_used (s\<lparr>us_buffer := b\<rparr>) = us_used s" "us_used (s\<lparr>us_bufferCapacity := n\<rparr>) = us_used s"
  by (simp_all add: us_used_def split: option.split)

lemma us_merged_to:
  assumes "us_ok s" "\<not> isFrozen s" "\<not> us_bogus s"
    "us_ok s'" "s' = s\<lparr>us_buffer := Some buf, us_bufferCapacity := us_bufferCapacity s'\<rparr>"
    "length buf = us_bufferCapacity s'" "length out \<le> us_bufferCapacity s'"
    "inv_list out" "inv_set out = C"
  shows "us_to room (Some (us_merged out s')) s C (us_strs s)"
proof -
  obtain n where s': "s' = s\<lparr>us_buffer := Some buf, us_bufferCapacity := n\<rparr>" using assms(5) by blast
  have n: "length buf = n" "length out \<le> n" using assms(6,7) by (simp_all add: s')
  obtain v where v: "us_strings s = Some v" "strings_ok v"
    using us_okE [OF assms(1)] by metis
  have l: "us_list s = Some cs \<Longrightarrow> length cs = us_capacity s" for cs
    using assms(1) by (auto simp: us_ok_def)
  have b: "us_bmpSet s = None" using assms(2) by (auto simp: isFrozen_def)
  show ?thesis
    using assms(2,3,8,9) n v b l
    by (intro us_to_new) (auto simp: s' us_merged_def releasePattern_def swapBuffers_def us_ok_def
        us_codes_def us_used_def us_strs_def)
qed

text \<open>The three merges differ in the loop only.\<close>

lemma merge_to:
  assumes "us_ok s" "m \<le> n"
    and loop: "\<And>a as cap. us_codes s = inv_set (a # as) \<Longrightarrow> inv_list (a # as) \<Longrightarrow>
      length as + m + 1 \<le> cap \<Longrightarrow>
      \<exists>out. f cap as a = Some out \<and> inv_list out \<and> inv_set out = C \<and> length out \<le> length as + m + 1"
  shows "us_to (roomy h)
    (if isFrozen s \<or> us_bogus s then Some s
     else do {
       (status, s) \<leftarrow> ensureBufferCapacity h (us_len s + n) U_ZERO_ERROR s;
       if U_FAILURE status then Some s
       else do {
         list \<leftarrow> us_used s;
         a \<leftarrow> rd list 0;
         out \<leftarrow> f (us_bufferCapacity s) (drop 1 list) a;
         Some (us_merged out s) } }) s C (us_strs s)"
proof (cases "isFrozen s \<or> us_bogus s")
  case True
  with us_to_unchanged [OF assms(1)] show ?thesis by simp
next
  case False
  then have nf: "\<not> isFrozen s" "\<not> us_bogus s" by auto
  show ?thesis
  proof (rule ensureBufferCapacity_spec [OF assms(1) nf, of h "us_len s + n" C "us_strs s"])
    fix s'
    assume "ensureBufferCapacity h (us_len s + n) U_ZERO_ERROR s = Some (U_MEMORY_ALLOCATION_ERROR, s')"
      "us_to (roomy h) (Some s') s C (us_strs s)"
    with nf show ?thesis by simp
  next
    fix s' buf
    assume r: "ensureBufferCapacity h (us_len s + n) U_ZERO_ERROR s = Some (U_ZERO_ERROR, s')"
      "us_ok s'" "s' = s\<lparr>us_buffer := Some buf, us_bufferCapacity := us_bufferCapacity s'\<rparr>"
      "length buf = us_bufferCapacity s'" "us_len s + n \<le> us_bufferCapacity s'"
    obtain xs where xs: "us_used s = Some xs" "inv_list xs" "length xs = us_len s" "us_codes s = inv_set xs"
      using us_okE [OF assms(1)] by metis
    obtain a as where a: "xs = a # as" using inv_listD(1) [OF xs(2)] by (cases xs) auto
    obtain out where out: "f (us_bufferCapacity s') as a = Some out" "inv_list out" "inv_set out = C"
      "length out \<le> length as + m + 1"
      using loop [of a as "us_bufferCapacity s'"] xs a r(5) assms(2) by auto
    have "us_used s' = us_used (s\<lparr>us_buffer := Some buf, us_bufferCapacity := us_bufferCapacity s'\<rparr>)"
      using r(3) by (rule arg_cong)
    then have "us_used s' = us_used s" by simp
    then have u: "us_used s' = Some (a # as)" using xs(1) a by simp
    have "length out \<le> us_bufferCapacity s'" using out(4) r(5) xs(3) a assms(2) by simp
    from us_merged_to [OF assms(1) nf r(2,3,4) this out(2,3), of "roomy h"] show ?thesis
      using nf r(1) u out(1) by simp
  qed
qed

lemma us_add_list_to:
  assumes "us_ok s" "inv_list (b # bs)" "length bs \<le> n"
  shows "us_to (roomy h) (us_add_list h (Some (b # bs)) n 0 s) s (us_codes s \<union> inv_set (b # bs)) (us_strs s)"
  using merge_to [OF assms(1,3), of "\<lambda>cap as a. add_loop cap as bs a b 0 []" "us_codes s \<union> inv_set (b # bs)" h]
    add_loop_union [OF _ assms(2)]
  by (simp add: us_add_list_def cong: if_cong)

lemma us_retain_list_to:
  assumes "us_ok s" "inv_list (b # bs)" "length bs \<le> n"
  shows "us_to (roomy h) (us_retain_list h (Some (b # bs)) n 0 s) s (us_codes s \<inter> inv_set (b # bs)) (us_strs s)"
    "us_to (roomy h) (us_retain_list h (Some (b # bs)) n 2 s) s (us_codes s - inv_set (b # bs)) (us_strs s)"
  using merge_to [OF assms(1,3), of "\<lambda>cap as a. retain_loop cap as bs a b 0 []" "us_codes s \<inter> inv_set (b # bs)" h]
    merge_to [OF assms(1,3), of "\<lambda>cap as a. retain_loop cap as bs a b 2 []" "us_codes s - inv_set (b # bs)" h]
    retain_loop_inter [OF _ assms(2), where co = False] retain_loop_inter [OF _ assms(2), where co = True]
  by (simp_all add: us_retain_list_def cong: if_cong)

lemma exclusiveOr_to:
  assumes "us_ok s" "inv_list (b # bs)" "length bs \<le> n"
  shows "us_to (roomy h) (exclusiveOr h (Some (b # bs)) n 0 s) s
    ((us_codes s - inv_set (b # bs)) \<union> (inv_set (b # bs) - us_codes s)) (us_strs s)"
  using merge_to [OF assms(1,3), of "\<lambda>cap as a. xor_loop cap as bs a b []"
      "(us_codes s - inv_set (b # bs)) \<union> (inv_set (b # bs) - us_codes s)" h]
    xor_loop_diff [OF _ assms(2)]
  by (simp add: exclusiveOr_def cong: if_cong)

section \<open>A single code point\<close>

lemma pinCodePoint_range: "0 \<le> pinCodePoint c \<and> pinCodePoint c < UNICODESET_HIGH"
  by (auto simp: pinCodePoint_def)

lemma pinCodePoint_id [simp]: "0 \<le> c \<Longrightarrow> c < UNICODESET_HIGH \<Longrightarrow> pinCodePoint c = c"
  by (auto simp: pinCodePoint_def)

text \<open>The list is cut at the result of the search.\<close>

lemma find_split:
  assumes "inv_list xs" "c < UNICODESET_HIGH"
  obtains P n R where "xs = P @ n # R" "length P = cnt xs c" "\<forall>x \<in> set P. x \<le> c" "c < n"
    "findCodePoint xs c = Some (length P)"
proof -
  let ?i = "cnt xs c"
  note t = inv_listD [OF assms(1)]
  have lt: "?i < length xs" using cnt_less_length [OF t(4) assms(2)] t(1) by (cases xs) auto
  have "x \<le> c" if "x \<in> set (take ?i xs)" for x
  proof -
    obtain k where "k < ?i" "k < length xs" "x = xs ! k" using \<open>x \<in> _\<close> by (auto simp: in_set_take_nth)
    with cnt_upper [OF t(2), of k c] show ?thesis by force
  qed
  moreover have "c < xs ! ?i" using cnt_lower [OF t(2) lt, of c] by force
  moreover have "findCodePoint xs c = Some ?i" using findCodePoint_legal [OF t(4) assms(2)] .
  ultimately show thesis
    using lt that [of "take ?i xs" "xs ! ?i" "drop (Suc ?i) xs"] by (simp add: id_take_nth_drop [symmetric] min_def)
qed

text \<open>What the cells of a set are changed to.\<close>

lemma us_relist_to:
  assumes "us_ok s" "\<not> isFrozen s" "\<not> us_bogus s" "inv_list ys" "inv_set ys = C"
    "length cs = cap" "n \<le> cap" "take n cs = ys"
  shows "us_to room (Some (releasePattern (s\<lparr>us_list := Some cs, us_capacity := cap, us_len := n\<rparr>))) s C (us_strs s)"
proof -
  obtain v where v: "us_strings s = Some v" "strings_ok v" using us_okE [OF assms(1)] by metis
  have l: "us_buffer s = Some bf \<Longrightarrow> length bf = us_bufferCapacity s" for bf
    using assms(1) by (auto simp: us_ok_def)
  have b: "us_bmpSet s = None" using assms(2) by (auto simp: isFrozen_def)
  show ?thesis
    using assms v l b
    by (intro us_to_new) (auto simp: releasePattern_def us_ok_def us_codes_def us_used_def us_strs_def)
qed

text \<open>
  \<open>add(c)\<close> on a valid set that does not contain \<open>c\<close>: \<open>P\<close> is the part of the list before
  the place of \<open>c\<close>.
\<close>

lemma us_cut:
  assumes "us_ok s" "0 \<le> c" "c < UNICODESET_HIGH"
  obtains cs P n R where "us_list s = Some cs" "length cs = us_capacity s" "us_len s \<le> us_capacity s"
    "us_used s = Some (P @ n # R)" "take (us_len s) cs = P @ n # R" "inv_list (P @ n # R)"
    "us_codes s = inv_set (P @ n # R)" "us_len s = length P + 1 + length R"
    "\<forall>x \<in> set P. x \<le> c" "c < n" "findCodePoint (P @ n # R) c = Some (length P)"
    "odd (length P) \<longleftrightarrow> c \<in> us_codes s" "cs ! length P = n" "length P < length cs"
    "\<forall>k < length P. cs ! k = P ! k"
proof -
  obtain cs xs where s: "us_list s = Some cs" "length cs = us_capacity s" "us_len s \<le> us_capacity s"
    "xs = take (us_len s) cs" "us_used s = Some xs" "inv_list xs" "length xs = us_len s"
    "us_codes s = inv_set xs"
    using us_okE [OF assms(1)] by metis
  obtain P n R where xs: "xs = P @ n # R" "length P = cnt xs c" "\<forall>x \<in> set P. x \<le> c" "c < n"
    "findCodePoint xs c = Some (length P)"
    using find_split [OF s(6) assms(3)] by metis
  have "odd (length P) \<longleftrightarrow> c \<in> us_codes s"
    using xs(2) s(8) assms(3) by (simp add: inv_set_def)
  moreover have t: "take (us_len s) cs = P @ n # R" using s(4) xs(1) by simp
  moreover have len: "us_len s = length P + 1 + length R" using s(7) xs(1) by simp
  moreover have nth: "cs ! k = (P @ n # R) ! k" if "k < us_len s" for k
    using nth_take [OF that, of cs] t by simp
  have "cs ! length P = n" using nth [of "length P"] len by simp
  moreover have "length P < length cs" using len s(2,3) by simp
  moreover have "\<forall>k < length P. cs ! k = P ! k"
  proof (intro allI impI)
    fix k assume "k < length P"
    then show "cs ! k = P ! k" using nth [of k] len by (simp add: nth_append)
  qed
  ultimately show thesis
    using s(1,2,3,5,6,8) xs(3,4,5) unfolding xs(1) by (intro that [of cs P n R])
qed

lemma us_touches_eq:
  assumes "us_list s = Some cs" "length P < length cs" "\<forall>k < length P. cs ! k = P ! k"
  shows "us_touches c (length P) s = Some (P \<noteq> [] \<and> last P = c)"
  using assms by (cases P rule: rev_cases) (auto simp: us_touches_def nth_append)

lemma list_update_cut:
  assumes "take m cs = P @ n # R" "m = length P + 1 + length R" "m \<le> length cs"
  shows "take m (cs[length P := x]) = P @ x # R"
  using assms(1,2) by (simp add: take_update_swap)

text \<open>The branch that joins \<open>c\<close> to the next range, from the state in which the list is \<open>P @ c # R'\<close>.\<close>

lemma add_cp_join:
  assumes ok: "us_ok s" "\<not> isFrozen s" "\<not> us_bogus s"
    and cut: "inv_list (P @ n # R)" "us_codes s = inv_set (P @ n # R)"
      "\<forall>x \<in> set P. x \<le> c" "0 \<le> c" "c + 1 = n" "even (length P)"
    and cs: "take m cs = P @ c # behind n R" "m = length P + 1 + length (behind n R)"
      "length cs = cap" "m \<le> cap"
  shows "us_to room
    (do { t \<leftarrow> us_touches c (length P) (s\<lparr>us_list := Some cs, us_capacity := cap, us_len := m\<rparr>);
          if t then do { cs \<leftarrow> us_list (s\<lparr>us_list := Some cs, us_capacity := cap, us_len := m\<rparr>);
                         cs \<leftarrow> copy_down cs (length P - 1) (length P + 1) m;
                         Some (releasePattern (s\<lparr>us_list := Some cs, us_capacity := cap, us_len := m - 2\<rparr>)) }
          else Some (releasePattern (s\<lparr>us_list := Some cs, us_capacity := cap, us_len := m\<rparr>)) })
    s (insert c (us_codes s)) (us_strs s)"
proof -
  have nth: "cs ! k = (P @ c # behind n R) ! k" if "k < m" for k
    using nth_take [OF that, of cs] cs(1) by simp
  have t: "us_touches c (length P) (s\<lparr>us_list := Some cs, us_capacity := cap, us_len := m\<rparr>) =
      Some (P \<noteq> [] \<and> last P = c)"
    using cs nth by (intro us_touches_eq) (auto simp: nth_append)
  show ?thesis
  proof (cases "P \<noteq> [] \<and> last P = c")
    case False
    have lt: "\<forall>x \<in> set P. x < c"
    proof
      fix x assume x: "x \<in> set P"
      then have "x \<le> last P" using cut(1) ssorted_le_last [of P x] by (auto simp: inv_list_append)
        moreover have "last P \<in> set P" using x by (cases P) auto
      then have "last P \<le> c" "last P \<noteq> c" using cut(3) x False by auto
      ultimately show "x < c" by simp
    qed
    have "adds c (P @ n # R) (P @ c # behind n R)"
      using adds_before [OF cut(1,6) lt cut(4)] cut(5) by simp
    then have "us_to room (Some (releasePattern (s\<lparr>us_list := Some cs, us_capacity := cap, us_len := m\<rparr>)))
        s (insert c (us_codes s)) (us_strs s)"
      using us_relist_to [OF ok, of "P @ c # behind n R" _ cs cap m] cs cut(2) by (simp add: adds_def)
    with t False show ?thesis by (simp only: bind.simps if_False)
  next
    case True
    then obtain P' where P: "P = P' @ [c]" by (cases P rule: rev_cases) auto
    have a: "adds c (P @ n # R) (P' @ behind n R)"
      using adds_join [of P' c n R] cut(1,4,5,6) P by simp
    have le: "length P - 1 \<le> length P + 1" "m \<le> length cs" "length P + 1 \<le> m" using cs(2,3,4) by simp_all
    obtain ys where ys: "copy_down cs (length P - 1) (length P + 1) m = Some ys" "length ys = length cs"
      "take (length P - 1 + (m - (length P + 1))) ys =
         take (length P - 1) cs @ drop (length P + 1) (take m cs)"
      using copy_down_spec [OF le] by blast
    have "take (length P - 1) cs = take (length P - 1) (take m cs)" using le by (simp add: take_take min_absorb1)
    also have "\<dots> = P'" unfolding cs(1) by (simp add: P)
    finally have "take (length P - 1) cs = P'" .
    moreover have "drop (length P + 1) (take m cs) = behind n R" unfolding cs(1) by simp
    moreover have "length P - 1 + (m - (length P + 1)) = m - 2" using cs(2) P by simp
    ultimately have "take (m - 2) ys = P' @ behind n R" using ys(3) by simp
    with us_relist_to [OF ok, of "P' @ behind n R" "insert c (us_codes s)" ys cap "m - 2" room]
    have "us_to room (Some (releasePattern (s\<lparr>us_list := Some ys, us_capacity := cap, us_len := m - 2\<rparr>)))
        s (insert c (us_codes s)) (us_strs s)"
      using a ys(2) cs cut(2) by (simp add: adds_def)
    with t True ys(1) show ?thesis by simp
  qed
qed

lemma us_used_some: "us_used s = Some xs \<Longrightarrow> (case us_list s of None \<Rightarrow> False | Some cs \<Rightarrow> True)"
  by (auto simp: us_used_def split: option.splits)

text \<open>
  The first branch of \<open>add(c)\<close>: \<open>c\<close> is the code point before the next range. When the next
  range starts at \<open>HIGH\<close>, its cell has been overwritten and a new \<open>HIGH\<close> is appended.
\<close>

lemma add_cp_before:
  assumes ok: "us_ok s" "\<not> isFrozen s" "\<not> us_bogus s"
    and cs: "us_list s = Some cs" "length cs = us_capacity s" "us_len s \<le> us_capacity s"
      "take (us_len s) cs = P @ n # R" "us_len s = length P + 1 + length R"
    and cut: "inv_list (P @ n # R)" "us_codes s = inv_set (P @ n # R)"
      "\<forall>x \<in> set P. x \<le> c" "0 \<le> c" "c + 1 = n" "even (length P)"
  shows "us_to (roomy h)
    (do { s \<leftarrow> us_write (length P) c s;
          (status, s) \<leftarrow> (if c = UNICODESET_HIGH - 1
            then do { (status, s) \<leftarrow> ensureCapacity h (us_len s + 1) U_ZERO_ERROR s;
                      if U_FAILURE status then Some (status, s)
                      else do { s \<leftarrow> us_write (us_len s) UNICODESET_HIGH s;
                                Some (status, s\<lparr>us_len := us_len s + 1\<rparr>) } }
            else Some (U_ZERO_ERROR, s));
          if U_FAILURE status then Some s
          else do {
            t \<leftarrow> us_touches c (length P) s;
            if t then do { cs \<leftarrow> us_list s;
                           cs \<leftarrow> copy_down cs (length P - 1) (length P + 1) (us_len s);
                           Some (releasePattern (s\<lparr>us_list := Some cs, us_len := us_len s - 2\<rparr>)) }
            else Some (releasePattern s) } })
    s (insert c (us_codes s)) (us_strs s)"
proof -
  let ?cs = "cs[length P := c]"
  let ?s = "s\<lparr>us_list := Some ?cs\<rparr>"
  have lt: "length P < length cs" using cs(2,3,5) by simp
  have w: "us_write (length P) c s = Some ?s" using cs(1) lt by (simp add: us_write_def)
  have t: "take (us_len s) ?cs = P @ c # R" using list_update_cut [OF cs(4,5)] cs(2,3) by simp
  show ?thesis
  proof (cases "c = UNICODESET_HIGH - 1")
    case False
    have "R \<noteq> []"
      using False cut(1,5) by (auto simp: inv_list_append inv_list_Cons)
    then have "n \<noteq> UNICODESET_HIGH" using False cut(5) by auto
    then have R: "behind n R = R" by (simp add: behind_def)
    have t': "take (us_len s) ?cs = P @ c # behind n R" "us_len s = length P + 1 + length (behind n R)"
      "length ?cs = us_capacity s"
      using t cs(2,5) R by simp_all
    show ?thesis
      using add_cp_join [OF ok cut t' cs(3), of "roomy h"] w False by (simp cong: if_cong)
  next
    case True
    then have "n = UNICODESET_HIGH" using cut(5) by simp
    moreover have "inv_list (n # R)" using cut(1) by (simp only: inv_list_append)
    ultimately have R: "R = []" "behind n R = [UNICODESET_HIGH]"
      using inv_tail_both_high [of R] by (auto simp: behind_def inv_list_def)
    have sh: "us_shape ?s" "\<not> isFrozen ?s" "us_list ?s = Some ?cs"
      using us_ok_shape [OF ok(1)] ok(2) cs(1,2) lt by (auto simp: us_shape_def)
    show ?thesis
    proof (rule ensureCapacity_spec [OF sh(1,3,2), of h "us_len s + 1"])
      fix s'
      assume r: "ensureCapacity h (us_len s + 1) U_ZERO_ERROR ?s = Some (U_MEMORY_ALLOCATION_ERROR, s')"
        "us_ok s'" "us_bogus s'" "us_pat s' = None" "us_bmpSet s' = us_bmpSet ?s"
        "us_stringSpan s' = us_stringSpan ?s" "\<not> roomy h"
      have "us_to (roomy h) (Some s') s (insert c (us_codes s)) (us_strs s)"
        using r ok by (intro us_to_new) auto
      then show ?thesis using w r(1) True by simp
    next
      fix cap cs'
      assume r: "ensureCapacity h (us_len s + 1) U_ZERO_ERROR ?s =
          Some (U_ZERO_ERROR, ?s\<lparr>us_list := Some cs', us_capacity := cap\<rparr>)"
        "length cs' = cap" "us_len s + 1 \<le> cap" "us_capacity ?s \<le> cap" "take (us_capacity ?s) cs' = ?cs"
      let ?cs2 = "cs'[us_len s := UNICODESET_HIGH]"
      have "take (us_len s) cs' = take (us_len s) (take (us_capacity s) cs')"
        using cs(3) by (simp add: take_take min_absorb1)
      also have "\<dots> = P @ [c]" using r(5) t R by simp
      finally have "take (us_len s + 1) ?cs2 = P @ c # behind n R"
        using r(2,3) R by (simp add: take_Suc_conv_app_nth)
      moreover have "us_len s + 1 = length P + 1 + length (behind n R)" using cs(5) R by simp
      moreover have "length ?cs2 = cap" using r(2) by simp
      ultimately have "us_to (roomy h)
        (do { t \<leftarrow> us_touches c (length P) (s\<lparr>us_list := Some ?cs2, us_capacity := cap, us_len := us_len s + 1\<rparr>);
              if t then do { cs \<leftarrow> us_list (s\<lparr>us_list := Some ?cs2, us_capacity := cap, us_len := us_len s + 1\<rparr>);
                             cs \<leftarrow> copy_down cs (length P - 1) (length P + 1) (us_len s + 1);
                             Some (releasePattern (s\<lparr>us_list := Some cs, us_capacity := cap, us_len := us_len s + 1 - 2\<rparr>)) }
              else Some (releasePattern (s\<lparr>us_list := Some ?cs2, us_capacity := cap, us_len := us_len s + 1\<rparr>)) })
        s (insert c (us_codes s)) (us_strs s)"
        using r(3) by (rule add_cp_join [OF ok cut])
      moreover have "us_write (us_len s) UNICODESET_HIGH (s\<lparr>us_list := Some cs', us_capacity := cap\<rparr>) =
          Some (s\<lparr>us_list := Some ?cs2, us_capacity := cap\<rparr>)"
        using r(2,3) by (simp add: us_write_def)
      ultimately show ?thesis using r(1) w True by (simp cong: if_cong)
    qed
  qed
qed

text \<open>The other two branches: \<open>c\<close> after the end of a range, and \<open>c\<close> on its own.\<close>

lemma add_cp_after:
  assumes ok: "us_ok s" "\<not> isFrozen s" "\<not> us_bogus s"
    and cs: "us_list s = Some cs" "length cs = us_capacity s" "us_len s \<le> us_capacity s"
      "take (us_len s) cs = (P @ [c]) @ n # R" "us_len s = length (P @ [c]) + 1 + length R"
    and cut: "inv_list ((P @ [c]) @ n # R)" "us_codes s = inv_set ((P @ [c]) @ n # R)"
      "0 \<le> c" "c + 1 < n" "even (length (P @ [c]))"
  shows "us_to (roomy h) (do { s \<leftarrow> us_write (length P) (c + 1) s; Some (releasePattern s) })
    s (insert c (us_codes s)) (us_strs s)"
proof -
  have t: "take (us_len s) (cs[length P := c + 1]) = P @ (c + 1) # n # R"
    using list_update_cut [of "us_len s" cs P c "n # R"] cs by simp
  have "adds c ((P @ [c]) @ n # R) (P @ (c + 1) # n # R)" using adds_after cut by blast
  then have "us_to (roomy h) (Some (releasePattern (s\<lparr>us_list := Some (cs[length P := c + 1]),
      us_capacity := us_capacity s, us_len := us_len s\<rparr>))) s (insert c (us_codes s)) (us_strs s)"
    using us_relist_to [OF ok _ _ _ cs(3) t] cs(2) cut(2) by (simp add: adds_def)
  moreover have "length P < length cs" using cs(2,3,5) by simp
  ultimately show ?thesis using cs(1) by (simp add: us_write_def)
qed

lemma add_cp_apart:
  assumes ok: "us_ok s" "\<not> isFrozen s" "\<not> us_bogus s"
    and cs: "us_list s = Some cs" "length cs = us_capacity s" "us_len s \<le> us_capacity s"
      "take (us_len s) cs = P @ n # R" "us_len s = length P + 1 + length R"
    and cut: "inv_list (P @ n # R)" "us_codes s = inv_set (P @ n # R)"
      "\<forall>x \<in> set P. x < c" "0 \<le> c" "c + 1 < n" "even (length P)"
  shows "us_to (roomy h)
    (do { (status, s) \<leftarrow> ensureCapacity h (us_len s + 2) U_ZERO_ERROR s;
          if U_FAILURE status then Some s
          else do {
            cs \<leftarrow> us_list s;
            cs \<leftarrow> copy_up cs (us_len s) (us_len s + 2) (length P);
            cs \<leftarrow> wr cs (length P) c;
            cs \<leftarrow> wr cs (length P + 1) (c + 1);
            Some (releasePattern (s\<lparr>us_list := Some cs, us_len := us_len s + 2\<rparr>)) } })
    s (insert c (us_codes s)) (us_strs s)"
proof (rule ensureCapacity_spec [OF us_ok_shape [OF ok(1)] cs(1) ok(2), of h "us_len s + 2"])
  fix s'
  assume r: "ensureCapacity h (us_len s + 2) U_ZERO_ERROR s = Some (U_MEMORY_ALLOCATION_ERROR, s')"
    "us_ok s'" "us_bogus s'" "us_pat s' = None" "us_bmpSet s' = us_bmpSet s"
    "us_stringSpan s' = us_stringSpan s" "\<not> roomy h"
  then have "us_to (roomy h) (Some s') s (insert c (us_codes s)) (us_strs s)"
    using ok by (intro us_to_new) auto
  then show ?thesis using r(1) by simp
next
  fix cap cs'
  assume r: "ensureCapacity h (us_len s + 2) U_ZERO_ERROR s =
      Some (U_ZERO_ERROR, s\<lparr>us_list := Some cs', us_capacity := cap\<rparr>)"
    "length cs' = cap" "us_len s + 2 \<le> cap" "us_capacity s \<le> cap" "take (us_capacity s) cs' = cs"
  have le: "length P \<le> us_len s" "us_len s + 2 \<le> length cs'" using cs(5) r(2,3) by simp_all
  obtain ys where ys: "copy_up cs' (us_len s) (us_len s + 2) (length P) = Some ys" "length ys = length cs'"
    "take (us_len s + 2) (ys[length P := c, length P + 1 := c + 1]) =
       take (length P) cs' @ c # (c + 1) # drop (length P) (take (us_len s) cs')"
    using copy_up_insert [OF le, of c "c + 1"] by blast
  have "take (us_len s) cs' = take (us_len s) (take (us_capacity s) cs')"
    using cs(3) by (simp add: take_take min_absorb1)
  then have t: "take (us_len s) cs' = P @ n # R" using r(5) cs(4) by simp
  have "take (length P) cs' = take (length P) (take (us_len s) cs')"
    using le(1) by (simp add: take_take min_absorb1)
  then have "take (length P) cs' = P" by (simp add: t)
  then have y: "take (us_len s + 2) (ys[length P := c, length P + 1 := c + 1]) = P @ c # (c + 1) # n # R"
    using ys(3) t by simp
  have "adds c (P @ n # R) (P @ c # (c + 1) # n # R)" using adds_apart cut by blast
  then have "us_to (roomy h) (Some (releasePattern (s\<lparr>us_list := Some (ys[length P := c, length P + 1 := c + 1]),
      us_capacity := cap, us_len := us_len s + 2\<rparr>))) s (insert c (us_codes s)) (us_strs s)"
    using us_relist_to [OF ok _ _ _ r(3) y] ys(2) r(2) cut(2) by (simp add: adds_def)
  then show ?thesis using r(1) ys(1,2) cs(5) le by simp
qed

lemma us_add_cp_to:
  assumes "us_ok s"
  shows "us_to (roomy h) (us_add_cp h c0 s) s (insert (pinCodePoint c0) (us_codes s)) (us_strs s)"
proof -
  define c where "c = pinCodePoint c0"
  have c: "0 \<le> c" "c < UNICODESET_HIGH" using pinCodePoint_range [of c0] by (auto simp: c_def)
  obtain cs P n R where cs: "us_list s = Some cs" "length cs = us_capacity s" "us_len s \<le> us_capacity s"
    and used: "us_used s = Some (P @ n # R)" and cs4: "take (us_len s) cs = P @ n # R"
    and inv: "inv_list (P @ n # R)" "us_codes s = inv_set (P @ n # R)" and cs5: "us_len s = length P + 1 + length R"
    and le: "\<forall>x \<in> set P. x \<le> c" and cn: "c < n" and find: "findCodePoint (P @ n # R) c = Some (length P)"
    and odd: "odd (length P) \<longleftrightarrow> c \<in> us_codes s" and lt: "length P < length cs"
    and nth: "\<forall>k < length P. cs ! k = P ! k"
    by (rule us_cut [OF assms c])
  show ?thesis
  proof (cases "odd (length P) \<or> isFrozen s \<or> us_bogus s")
    case True
    then have "us_add_cp h c0 s = Some s" using used find by (simp add: us_add_cp_def c_def)
    moreover have "us_to (roomy h) (Some s) s (insert c (us_codes s)) (us_strs s)"
    proof (cases "odd (length P)")
      case True
      with odd us_to_same [OF assms] show ?thesis by (simp add: insert_absorb)
    next
      case False
      with \<open>odd (length P) \<or> _\<close> us_to_unchanged [OF assms] show ?thesis by blast
    qed
    ultimately show ?thesis by (simp add: c_def)
  next
    case False
    then have ok: "us_ok s" "\<not> isFrozen s" "\<not> us_bogus s" and even: "even (length P)" using assms by auto
    have touch: "us_touches c (length P) s = Some (P \<noteq> [] \<and> last P = c)"
      by (rule us_touches_eq [OF cs(1) lt nth])
    have nf: "\<not> (odd (length P) \<or> isFrozen s \<or> us_bogus s)" using False .
    consider "c + 1 = n" | P' where "c + 1 < n" "P = P' @ [c]" | "c + 1 < n" "\<not> (P \<noteq> [] \<and> last P = c)"
    proof -
      have "c + 1 = n \<or> c + 1 < n" using cn by linarith
      then show thesis using that by (cases P rule: rev_cases) auto
    qed
    then show ?thesis
    proof cases
      case 1
      then have "c = n - 1" by simp
      with add_cp_before [OF ok cs cs4 cs5 inv le c(1) 1 even, of h] used find nf show ?thesis
        by (simp add: us_add_cp_def Let_def flip: c_def cong: if_cong)
    next
      case 2
      then have ne: "c \<noteq> n - 1" by simp
      have "P \<noteq> []" "last P = c" using 2(2) by simp_all
      then have "us_add_cp h c0 s = do { s \<leftarrow> us_write (length P - 1) (c + 1) s; Some (releasePattern s) }"
        using used find nf touch ne by (simp add: us_add_cp_def Let_def flip: c_def cong: if_cong)
      with add_cp_after [OF ok cs, of P' c n R h] cs4 cs5 inv c(1) 2 even show ?thesis
        by (simp add: c_def)
    next
      case 3
      then have ne: "c \<noteq> n - 1" by simp
      have "\<forall>x \<in> set P. x < c"
      proof
        fix x assume x: "x \<in> set P"
        then have "P \<noteq> []" by auto
        with x have "last P \<in> set P" "x \<le> last P"
          using inv(1) ssorted_le_last [of P x] by (auto simp: inv_list_append)
        moreover have "last P \<le> c" "last P \<noteq> c" using le \<open>last P \<in> set P\<close> \<open>P \<noteq> []\<close> 3(2) by auto
        ultimately show "x < c" by simp
      qed
      from add_cp_apart [OF ok cs cs4 cs5 inv this c(1) 3(1) even, of h] show ?thesis
        using used find nf touch ne 3(2) by (simp add: us_add_cp_def flip: c_def cong: if_cong)
    qed
  qed
qed

section \<open>Ranges\<close>

text \<open>
  The array \<open>{start, end+1, HIGH}\<close> has \<open>HIGH\<close> twice when \<open>end\<close> is the last code point. No
  loop reads past the first one.
\<close>

abbreviation low :: "int list \<Rightarrow> bool" where
  "low \<equiv> list_all (\<lambda>x. x \<le> UNICODESET_HIGH)"

definition stops :: "int list \<Rightarrow> int \<Rightarrow> int \<Rightarrow> int list \<Rightarrow> int list \<Rightarrow> bool" where
  "stops as a b bs buf \<longleftrightarrow> a \<le> UNICODESET_HIGH \<and> b \<le> UNICODESET_HIGH \<and> low as \<and> low bs \<and> low buf \<and>
     (b = UNICODESET_HIGH \<or> UNICODESET_HIGH \<in> set bs)"

lemma gen_loop_stops:
  "stops as a b bs [] \<Longrightarrow> gen_loop f cap as (bs @ extra) a b p q buf = gen_loop f cap as bs a b p q buf"
proof (induction "length as + length bs" arbitrary: as bs a b p q buf rule: less_induct)
  case less
  have nb: "b < a \<or> a = b \<and> a \<noteq> UNICODESET_HIGH \<Longrightarrow> \<exists>b' bs'. bs = b' # bs' \<and> (b' = UNICODESET_HIGH \<or> UNICODESET_HIGH \<in> set bs')"
    using less.prems by (cases bs) (auto simp: stops_def)
  have IH: "gen_loop f cap as' (bs' @ extra) a' b' p' q' buf' = gen_loop f cap as' bs' a' b' p' q' buf'"
    if "length as' + length bs' < length as + length bs" "stops as' a' b' bs' []" for as' bs' a' b' p' q' buf'
    using less.hyps that by blast
  consider "a < b" | "b < a" | "a = b" "a \<noteq> UNICODESET_HIGH" | "a = b" "a = UNICODESET_HIGH" by linarith
  then show ?case
  proof cases
    case 1
    then show ?thesis
      using IH less.prems by (cases as) (auto simp: stops_def gen_loop.simps [of f cap _ _ a b])
  next
    case 2
    with nb obtain b' bs' where "bs = b' # bs'" "b' = UNICODESET_HIGH \<or> UNICODESET_HIGH \<in> set bs'" by blast
    with 2 show ?thesis
      using IH less.prems by (auto simp: stops_def gen_loop.simps [of f cap _ _ a b])
  next
    case 3
    with nb obtain b' bs' where "bs = b' # bs'" "b' = UNICODESET_HIGH \<or> UNICODESET_HIGH \<in> set bs'" by blast
    with 3 show ?thesis
      using IH less.prems by (cases as) (auto simp: stops_def gen_loop.simps [of f cap _ _ b b])
  next
    case 4
    then show ?thesis by (simp add: gen_loop.simps [of f cap _ _ UNICODESET_HIGH UNICODESET_HIGH])
  qed
qed

lemma put_out [simp]: "\<not> length buf < cap \<Longrightarrow> put cap buf v = None"
  by (simp add: put_def)

lemma low_buf: "low buf \<Longrightarrow> low (butlast buf)" "low buf \<Longrightarrow> buf \<noteq> [] \<Longrightarrow> last buf \<le> UNICODESET_HIGH"
  by (auto simp: list_all_iff dest: in_set_butlastD)

text \<open>A \<open>b\<close> that is \<open>HIGH\<close> is never taken.\<close>

lemma add_loop_high:
  "a \<le> UNICODESET_HIGH \<Longrightarrow> low as \<Longrightarrow> low buf \<Longrightarrow>
     add_loop cap as (x # xs) a UNICODESET_HIGH (pol p q) buf = add_loop cap as [] a UNICODESET_HIGH (pol p q) buf"
proof (induction as arbitrary: a p q buf)
  case Nil
  show ?case
    using Nil by (cases p; cases q) (simp_all add: add_loop.simps [of _ "[]" _ a UNICODESET_HIGH]
        add_loop.simps [of _ _ _ UNICODESET_HIGH UNICODESET_HIGH])
next
  case (Cons a' as)
  have lb: "low (butlast buf)" "buf \<noteq> [] \<Longrightarrow> last buf \<le> UNICODESET_HIGH"
    using low_buf [OF Cons.prems(3)] by simp_all
  note IH = Cons.IH [where p = False and q = False, simplified] Cons.IH [where p = True and q = False, simplified]
    Cons.IH [where p = False and q = True, simplified] Cons.IH [where p = True and q = True, simplified]
  show ?case
    using IH Cons.prems lb
    by (cases p; cases q; cases "buf = []"; cases "length buf < cap"; cases "a = UNICODESET_HIGH")
      (simp_all add: add_loop.simps [of _ "a' # as" _ a UNICODESET_HIGH]
        add_loop.simps [of _ _ _ UNICODESET_HIGH UNICODESET_HIGH])
qed

lemma add_loop_range:
  "a \<le> UNICODESET_HIGH \<Longrightarrow> b \<le> UNICODESET_HIGH \<Longrightarrow> low as \<Longrightarrow> low buf \<Longrightarrow>
     add_loop cap as [UNICODESET_HIGH, x] a b (pol p q) buf = add_loop cap as [UNICODESET_HIGH] a b (pol p q) buf"
proof (induction as arbitrary: a p q buf)
  case Nil
  have lb: "low (butlast buf)" "buf \<noteq> [] \<Longrightarrow> max UNICODESET_HIGH (last buf) = UNICODESET_HIGH"
    using low_buf [OF Nil.prems(4)] by (simp_all add: max_def)
  note high = add_loop_high [where p = False and q = False, simplified]
    add_loop_high [where p = True and q = False, simplified]
    add_loop_high [where p = False and q = True, simplified]
    add_loop_high [where p = True and q = True, simplified]
  show ?case
    using Nil lb
    by (cases p; cases q; cases "buf = []"; cases "length buf < cap"; cases "a < b"; cases "b < a")
      (simp_all add: high add_loop.simps [of _ "[]" _ a b] add_loop.simps [of _ "[]" _ b b])
next
  case (Cons a' as)
  have lb: "low (butlast buf)" "buf \<noteq> [] \<Longrightarrow> max UNICODESET_HIGH (last buf) = UNICODESET_HIGH"
    "buf \<noteq> [] \<Longrightarrow> last buf \<le> UNICODESET_HIGH"
    using low_buf [OF Cons.prems(4)] by (simp_all add: max_def)
  note IH = Cons.IH [where p = False and q = False, simplified] Cons.IH [where p = True and q = False, simplified]
    Cons.IH [where p = False and q = True, simplified] Cons.IH [where p = True and q = True, simplified]
  note high = add_loop_high [where p = False and q = False, simplified]
    add_loop_high [where p = True and q = False, simplified]
    add_loop_high [where p = False and q = True, simplified]
    add_loop_high [where p = True and q = True, simplified]
  show ?case
    using IH Cons.prems lb
    by (cases p; cases q; cases "buf = []"; cases "length buf < cap"; cases "a < b"; cases "b < a")
      (simp_all add: high add_loop.simps [of _ "a' # as" _ a b] add_loop.simps [of _ "a' # as" _ b b])
qed

text \<open>The three loops on the array of a range.\<close>

lemma range_list:
  assumes "0 \<le> start" "start \<le> end" "end < UNICODESET_HIGH"
  shows "end + 1 < UNICODESET_HIGH \<Longrightarrow> inv_list [start, end + 1, UNICODESET_HIGH] \<and>
      inv_set [start, end + 1, UNICODESET_HIGH] = {start..end}"
    "end + 1 = UNICODESET_HIGH \<Longrightarrow> inv_list [start, UNICODESET_HIGH] \<and>
      inv_set [start, UNICODESET_HIGH] = {start..end}"
  using assms by (auto simp: inv_set_def inv_list_range inv_list_Cons)

lemma inv_list_low:
  assumes "inv_list (a # as)"
  shows "a \<le> UNICODESET_HIGH" "low as"
  using assms inv_tail_le [of "a # as"] by (auto simp: inv_list_def list_all_iff)

lemma range_loops:
  assumes "0 \<le> start" "start \<le> end" "end < UNICODESET_HIGH" "inv_list (a # as)" "length as + 2 + 1 \<le> cap"
  shows "\<exists>out. add_loop cap as [end + 1, UNICODESET_HIGH] a start 0 [] = Some out \<and> inv_list out \<and>
      inv_set out = inv_set (a # as) \<union> {start..end} \<and> length out \<le> length as + 2 + 1"
    "\<exists>out. retain_loop cap as [end + 1, UNICODESET_HIGH] a start 0 [] = Some out \<and> inv_list out \<and>
      inv_set out = inv_set (a # as) \<inter> {start..end} \<and> length out \<le> length as + 2 + 1"
    "\<exists>out. retain_loop cap as [end + 1, UNICODESET_HIGH] a start 2 [] = Some out \<and> inv_list out \<and>
      inv_set out = inv_set (a # as) - {start..end} \<and> length out \<le> length as + 2 + 1"
    "\<exists>out. xor_loop cap as [end + 1, UNICODESET_HIGH] a start [] = Some out \<and> inv_list out \<and>
      inv_set out = (inv_set (a # as) - {start..end}) \<union> ({start..end} - inv_set (a # as)) \<and>
      length out \<le> length as + 2 + 1"
proof -
  have le: "start \<le> UNICODESET_HIGH" using assms(2,3) by simp
  note low = inv_list_low [OF assms(4)]
  obtain bs where bs: "inv_list (start # bs)" "inv_set (start # bs) = {start..end}" "length bs \<le> 2"
    "add_loop cap as [end + 1, UNICODESET_HIGH] a start 0 [] = add_loop cap as bs a start 0 []"
    "retain_loop cap as [end + 1, UNICODESET_HIGH] a start 0 [] = retain_loop cap as bs a start 0 []"
    "retain_loop cap as [end + 1, UNICODESET_HIGH] a start 2 [] = retain_loop cap as bs a start 2 []"
    "xor_loop cap as [end + 1, UNICODESET_HIGH] a start [] = xor_loop cap as bs a start []"
  proof (cases "end + 1 = UNICODESET_HIGH")
    case False
    then show thesis using range_list(1) [OF assms(1-3)] assms(3)
      by (intro that [of "[end + 1, UNICODESET_HIGH]"]) auto
  next
    case True
    have st: "stops as a start [UNICODESET_HIGH] []" using low le by (simp add: stops_def)
    note g = gen_loop_stops [OF st, where extra = "[UNICODESET_HIGH]", simplified]
    have "retain_loop cap as [UNICODESET_HIGH, UNICODESET_HIGH] a start (pol False q) [] =
        retain_loop cap as [UNICODESET_HIGH] a start (pol False q) []" for q
      unfolding retain_loop_gen by (rule g)
    from this [of False] this [of True] show thesis
      using True range_list(2) [OF assms(1-3) True] add_loop_range [OF low(1) le low(2), of "[]" cap UNICODESET_HIGH False False]
        g [of "(\<noteq>)" cap False False "[]"]
      by (intro that [of "[UNICODESET_HIGH]"]) (simp_all add: xor_loop_gen [where p = False and q = False])
  qed
  have cap: "length as + length bs + 1 \<le> cap" using assms(5) bs(3) by simp
  show "\<exists>out. add_loop cap as [end + 1, UNICODESET_HIGH] a start 0 [] = Some out \<and> inv_list out \<and>
      inv_set out = inv_set (a # as) \<union> {start..end} \<and> length out \<le> length as + 2 + 1"
    using add_loop_union [OF assms(4) bs(1) cap] bs(2-4) by force
  show "\<exists>out. retain_loop cap as [end + 1, UNICODESET_HIGH] a start 0 [] = Some out \<and> inv_list out \<and>
      inv_set out = inv_set (a # as) \<inter> {start..end} \<and> length out \<le> length as + 2 + 1"
    using retain_loop_inter [OF assms(4) bs(1) cap, where co = False] bs(2,3,5) by force
  show "\<exists>out. retain_loop cap as [end + 1, UNICODESET_HIGH] a start 2 [] = Some out \<and> inv_list out \<and>
      inv_set out = inv_set (a # as) - {start..end} \<and> length out \<le> length as + 2 + 1"
    using retain_loop_inter [OF assms(4) bs(1) cap, where co = True] bs(2,3,6) by force
  show "\<exists>out. xor_loop cap as [end + 1, UNICODESET_HIGH] a start [] = Some out \<and> inv_list out \<and>
      inv_set out = (inv_set (a # as) - {start..end}) \<union> ({start..end} - inv_set (a # as)) \<and>
      length out \<le> length as + 2 + 1"
    using xor_loop_diff [OF assms(4) bs(1) cap] bs(2,3,7) by force
qed

text \<open>The code points between two arguments, after both are pinned.\<close>

definition pinned :: "int \<Rightarrow> int \<Rightarrow> int set" where
  "pinned start end = {pinCodePoint start..pinCodePoint end}"

lemma us_add_to:
  assumes "us_ok s"
  shows "us_to (roomy h) (us_add h start end s) s (us_codes s \<union> pinned start end) (us_strs s)"
proof -
  let ?a = "pinCodePoint start" and ?b = "pinCodePoint end"
  note p = pinCodePoint_range [of start] pinCodePoint_range [of "end"]
  consider "?a < ?b" | "?a = ?b" | "?b < ?a" by linarith
  then show ?thesis
  proof cases
    case 1
    have "us_to (roomy h) (us_add_list h (Some [?a, ?b + 1, UNICODESET_HIGH]) 2 0 s) s
        (us_codes s \<union> {?a..?b}) (us_strs s)"
      using merge_to [where f = "\<lambda>cap as a. add_loop cap as [?b + 1, UNICODESET_HIGH] a ?a 0 []" and C = "us_codes s \<union> {?a..?b}" and m = 2 and n = 2 and h = h, OF assms order_refl] range_loops(1) [of ?a ?b] p 1
      by (simp add: us_add_list_def cong: if_cong)
    with 1 show ?thesis by (simp add: us_add_def Let_def pinned_def)
  next
    case 2
    with us_add_cp_to [OF assms, of h ?a] p show ?thesis
      by (simp add: us_add_def Let_def pinned_def)
  next
    case 3
    with us_to_same [OF assms, of "us_codes s \<union> pinned start end" "us_strs s" "roomy h"] show ?thesis
      by (simp add: us_add_def Let_def pinned_def)
  qed
qed

lemma us_retain_list_range:
  assumes "us_ok s" "0 \<le> a" "a \<le> b" "b < UNICODESET_HIGH"
  shows "us_to (roomy h) (us_retain_list h (Some [a, b + 1, UNICODESET_HIGH]) 2 0 s) s
      (us_codes s \<inter> {a..b}) (us_strs s)"
    "us_to (roomy h) (us_retain_list h (Some [a, b + 1, UNICODESET_HIGH]) 2 2 s) s
      (us_codes s - {a..b}) (us_strs s)"
  using merge_to [where f = "\<lambda>cap as x. retain_loop cap as [b + 1, UNICODESET_HIGH] x a 0 []" and C = "us_codes s \<inter> {a..b}" and m = 2 and n = 2 and h = h, OF assms(1) order_refl]
    merge_to [where f = "\<lambda>cap as x. retain_loop cap as [b + 1, UNICODESET_HIGH] x a 2 []" and C = "us_codes s - {a..b}" and m = 2 and n = 2 and h = h, OF assms(1) order_refl] range_loops(2,3) [OF assms(2-4)]
  by (simp_all add: us_retain_list_def cong: if_cong)

lemma us_remove_to:
  assumes "us_ok s"
  shows "us_to (roomy h) (us_remove h start end s) s (us_codes s - pinned start end) (us_strs s)"
proof (cases "pinCodePoint start \<le> pinCodePoint end")
  case True
  with us_retain_list_range(2) [OF assms, of "pinCodePoint start" "pinCodePoint end" h]
    pinCodePoint_range [of start] pinCodePoint_range [of "end"]
  show ?thesis by (simp add: us_remove_def Let_def pinned_def)
next
  case False
  with us_to_same [OF assms, of "us_codes s - pinned start end" "us_strs s" "roomy h"] show ?thesis
    by (simp add: us_remove_def Let_def pinned_def)
qed

text \<open>
  \<open>retain\<close> of an empty range does not intersect but clears the set, its strings and its
  bogus flag.
\<close>

lemma us_retain_to:
  assumes "us_ok s" "pinCodePoint start \<le> pinCodePoint end"
  shows "us_to (roomy h) (us_retain h start end s) s (us_codes s \<inter> pinned start end) (us_strs s)"
  using us_retain_list_range(1) [OF assms(1), of "pinCodePoint start" "pinCodePoint end" h] assms(2)
    pinCodePoint_range [of start] pinCodePoint_range [of "end"]
  by (simp add: us_retain_def Let_def pinned_def)

lemma us_retain_empty:
  assumes "us_ok s" "\<not> isFrozen s" "pinCodePoint end < pinCodePoint start"
  shows "\<exists>s'. us_retain h start end s = Some s' \<and> us_emptied s s'"
  using us_clear_spec [OF us_ok_shape [OF assms(1)] assms(2)] assms(3) by (simp add: us_retain_def Let_def)

abbreviation sym_diff :: "int set \<Rightarrow> int set \<Rightarrow> int set" where
  "sym_diff A B \<equiv> (A - B) \<union> (B - A)"

lemma us_to_release:
  assumes "us_to room r s C S" "\<not> isFrozen s" "\<not> us_bogus s"
  shows "us_to room (do { s \<leftarrow> r; Some (releasePattern s) }) s C S"
proof -
  obtain s' where "r = Some s'" "us_ok s'" "us_bmpSet s' = us_bmpSet s" "us_stringSpan s' = us_stringSpan s"
    "if us_bogus s' then \<not> room else us_codes s' = C \<and> us_strs s' = S"
    using assms by (auto simp: us_to_def)
  then show ?thesis
    using assms(2,3)
    by (simp add: us_to_def fresh_pat_def releasePattern_def us_ok_def us_codes_def us_strs_def us_used_def
        split: if_splits option.splits)
qed

lemma us_complement_range_to:
  assumes "us_ok s"
  shows "us_to (roomy h) (us_complement_range h start end s) s (sym_diff (us_codes s) (pinned start end)) (us_strs s)"
proof (cases "isFrozen s \<or> us_bogus s")
  case True
  with us_to_unchanged [OF assms] show ?thesis by (simp add: us_complement_range_def)
next
  case False
  then have nf: "\<not> isFrozen s" "\<not> us_bogus s" by auto
  let ?a = "pinCodePoint start" and ?b = "pinCodePoint end"
  note p = pinCodePoint_range [of start] pinCodePoint_range [of "end"]
  have "us_to (roomy h) (if ?a \<le> ?b then exclusiveOr h (Some [?a, ?b + 1, UNICODESET_HIGH]) 2 0 s else Some s) s
      (sym_diff (us_codes s) (pinned start end)) (us_strs s)"
  proof (cases "?a \<le> ?b")
    case True
    have "us_to (roomy h) (exclusiveOr h (Some [?a, ?b + 1, UNICODESET_HIGH]) 2 0 s) s
        (sym_diff (us_codes s) {?a..?b}) (us_strs s)"
      using merge_to [where f = "\<lambda>cap as a. xor_loop cap as [?b + 1, UNICODESET_HIGH] a ?a []" and C = "sym_diff (us_codes s) {?a..?b}" and m = 2 and n = 2 and h = h, OF assms order_refl] range_loops(4) [of ?a ?b] p True
      by (simp add: exclusiveOr_def cong: if_cong)
    with True show ?thesis by (simp add: pinned_def)
  next
    case False
    with us_to_same [OF assms, of "sym_diff (us_codes s) (pinned start end)" "us_strs s" "roomy h"] show ?thesis
      by (simp add: pinned_def)
  qed
  from us_to_release [OF this nf] nf show ?thesis by (simp add: us_complement_range_def Let_def)
qed

text \<open>The complement shifts the list by one.\<close>

lemma inv_complement:
  assumes "inv_list (a # as)"
  shows "a = 0 \<Longrightarrow> inv_list as \<and> inv_set as = {0..<UNICODESET_HIGH} - inv_set (a # as)"
    "a \<noteq> 0 \<Longrightarrow> inv_list (0 # a # as) \<and> inv_set (0 # a # as) = {0..<UNICODESET_HIGH} - inv_set (a # as)"
proof -
  have neg: "cnt (a # as) c = 0" if "c < 0" for c
    using assms that by (intro cnt_zero) (force simp: inv_list_def)
  {
    assume a: "a = 0"
    then have "as \<noteq> []" using assms by (auto simp: inv_list_def inv_tail_def)
    then have "inv_list as" using assms by (cases as) (auto simp: inv_list_Cons split: if_splits)
    moreover have "c \<in> inv_set as \<longleftrightarrow> c \<in> {0..<UNICODESET_HIGH} - inv_set (a # as)" for c
      using neg [of c] a inv_set_bounds [OF \<open>inv_list as\<close>, of c] by (auto simp: inv_set_def)
    ultimately show "inv_list as \<and> inv_set as = {0..<UNICODESET_HIGH} - inv_set (a # as)" by blast
  }
  {
    assume a: "a \<noteq> 0"
    then have i: "inv_list (0 # a # as)" using assms by (auto simp: inv_list_Cons [of 0] inv_list_Cons [of a])
    moreover have "c \<in> inv_set (0 # a # as) \<longleftrightarrow> c \<in> {0..<UNICODESET_HIGH} - inv_set (a # as)" for c
      using neg [of c] inv_set_bounds [OF i, of c] by (auto simp: inv_set_def)
    ultimately show "inv_list (0 # a # as) \<and> inv_set (0 # a # as) = {0..<UNICODESET_HIGH} - inv_set (a # as)"
      by blast
  }
qed

lemma us_complement_to:
  assumes "us_ok s"
  shows "us_to (roomy h) (us_complement h s) s ({0..<UNICODESET_HIGH} - us_codes s) (us_strs s)"
proof (cases "isFrozen s \<or> us_bogus s")
  case True
  with us_to_unchanged [OF assms] show ?thesis by (simp add: us_complement_def)
next
  case False
  then have nf: "\<not> isFrozen s" "\<not> us_bogus s" by auto
  obtain xs where xs: "us_used s = Some xs" "inv_list xs" "length xs = us_len s" "us_codes s = inv_set xs"
    using us_okE [OF assms] by metis
  obtain a as where a: "xs = a # as" using inv_listD(1) [OF xs(2)] by (cases xs) auto
  let ?n = "if a = UNICODESET_LOW then us_len s - 1 else us_len s + 1"
  let ?new = "if a = UNICODESET_LOW then as else UNICODESET_LOW # a # as"
  have new: "inv_list ?new" "inv_set ?new = {0..<UNICODESET_HIGH} - us_codes s" "length ?new = ?n"
    using inv_complement [of a as] xs(2,3,4) a by auto
  show ?thesis
  proof (rule ensureBufferCapacity_spec [OF assms nf, of h ?n "{0..<UNICODESET_HIGH} - us_codes s" "us_strs s"])
    fix s'
    assume "ensureBufferCapacity h ?n U_ZERO_ERROR s = Some (U_MEMORY_ALLOCATION_ERROR, s')"
      "us_to (roomy h) (Some s') s ({0..<UNICODESET_HIGH} - us_codes s) (us_strs s)"
    with nf xs(1) a show ?thesis by (simp add: us_complement_def)
  next
    fix s' buf
    assume r: "ensureBufferCapacity h ?n U_ZERO_ERROR s = Some (U_ZERO_ERROR, s')"
      "us_ok s'" "s' = s\<lparr>us_buffer := Some buf, us_bufferCapacity := us_bufferCapacity s'\<rparr>"
      "length buf = us_bufferCapacity s'" "?n \<le> us_bufferCapacity s'"
    have "us_buffer s' = us_buffer (s\<lparr>us_buffer := Some buf, us_bufferCapacity := us_bufferCapacity s'\<rparr>)"
      using r(3) by (rule arg_cong)
    then have b: "us_buffer s' = Some buf" by simp
    have "length ?new \<le> us_bufferCapacity s'" using new(3) r(5) by simp
    from us_merged_to [OF assms nf r(2,3,4) this new(1,2), of "roomy h"] show ?thesis
      using nf r(1,4,5) xs(1) a b new(3)
      by (simp add: us_complement_def us_merged_def Let_def cong: if_cong)
  qed
qed

end
