(* ===== verification/USetOps.thy ===== *)
theory USetOps
  imports USetCodes
begin

text \<open>
  The operations of \<open>UnicodeSet\<close> on strings, on whole sets, and the constructors and the
  assignment (uniset.cpp), and what they promise.
\<close>

section \<open>Strings\<close>

text \<open>
  \<open>compareUnicodeString\<close> follows both pointers; the vectors of valid sets hold no null
  pointer, for which the value here is arbitrary.
\<close>

definition compareUnicodeString :: "ustr option \<Rightarrow> ustr option \<Rightarrow> int" where
  "compareUnicodeString t1 t2 =
     (case (t1, t2) of
        (Some a, Some b) \<Rightarrow> (case ustr_compare a b of Some r \<Rightarrow> r | None \<Rightarrow> 0)
      | _ \<Rightarrow> 0)"

definition us_add_new :: "uheap \<Rightarrow> ustr \<Rightarrow> 'ss uset \<Rightarrow> 'ss uset option" where
  "us_add_new h t s =
     (if isFrozen s \<or> us_bogus s then Some s
      else if \<not> hn h then setToBogus s
      else do {
        v \<leftarrow> us_strings s;
        (v, ec) \<leftarrow> uv_sortedInsert (hs h) (Some t) compareUnicodeString v U_ZERO_ERROR;
        let s = s\<lparr>us_strings := Some v\<rparr>;
        if U_FAILURE ec then setToBogus s else Some s })"

definition us_add_string :: "uheap \<Rightarrow> ustr \<Rightarrow> 'ss uset \<Rightarrow> 'ss uset option" where
  "us_add_string h t s =
     (if ustr_length t = 0 \<or> isFrozen s \<or> us_bogus s then Some s
      else do {
        cp \<leftarrow> getSingleCP t;
        if cp < 0
        then do { v \<leftarrow> us_strings s; b \<leftarrow> uv_contains v (Some t);
                  if \<not> b then do { s \<leftarrow> us_add_new h t s; Some (releasePattern s) } else Some s }
        else us_add_cp h cp s })"

definition us_remove_string :: "uheap \<Rightarrow> ustr \<Rightarrow> 'ss uset \<Rightarrow> 'ss uset option" where
  "us_remove_string h t s =
     (if ustr_length t = 0 \<or> isFrozen s \<or> us_bogus s then Some s
      else do {
        cp \<leftarrow> getSingleCP t;
        if cp < 0
        then do { v \<leftarrow> us_strings s; (v, r) \<leftarrow> uv_removeElement (Some t) v;
                  Some (releasePattern (s\<lparr>us_strings := Some v\<rparr>)) }
        else us_remove h cp cp s })"

definition us_complement_string :: "uheap \<Rightarrow> ustr \<Rightarrow> 'ss uset \<Rightarrow> 'ss uset option" where
  "us_complement_string h t s =
     (if ustr_length t = 0 \<or> isFrozen s \<or> us_bogus s then Some s
      else do {
        cp \<leftarrow> getSingleCP t;
        if cp < 0
        then do { v \<leftarrow> us_strings s; b \<leftarrow> uv_contains v (Some t);
                  s \<leftarrow> (if b then do { (v, r) \<leftarrow> uv_removeElement (Some t) v; Some (s\<lparr>us_strings := Some v\<rparr>) }
                       else us_add_new h t s);
                  Some (releasePattern s) }
        else us_complement_range h cp cp s })"

text \<open>\<open>for (int32_t i = 0; i < s.length(); i += U16_LENGTH(cp)) { cp = s.char32At(i); add(cp); }\<close>\<close>

lemma u16_length_pos [simp]: "0 < u16_length c"
  by (simp add: u16_length_def)

function us_addAll_loop :: "uheap \<Rightarrow> ustr \<Rightarrow> nat \<Rightarrow> 'ss uset \<Rightarrow> 'ss uset option" where
  "us_addAll_loop h t i s =
     (if i < length (units t)
      then (case char32At t (int i) of
          None \<Rightarrow> None
        | Some cp \<Rightarrow> (case us_add_cp h cp s of
            None \<Rightarrow> None
          | Some s \<Rightarrow> us_addAll_loop h t (i + u16_length cp) s))
      else Some s)"
  by pat_completeness auto
termination
  by (relation "measure (\<lambda>(h, t, i, s). length (units t) - i)") (auto intro!: diff_less_mono2)

declare us_addAll_loop.simps [simp del]

definition us_addAll_string :: "uheap \<Rightarrow> ustr \<Rightarrow> 'ss uset \<Rightarrow> 'ss uset option" where
  "us_addAll_string h t s = us_addAll_loop h t 0 s"

definition us_removeAllStrings :: "'ss uset \<Rightarrow> 'ss uset option" where
  "us_removeAllStrings s =
     do { v \<leftarrow> us_strings s; v \<leftarrow> uv_removeAllElements v; Some (s\<lparr>us_strings := Some v\<rparr>) }"

section \<open>Whole sets\<close>

text \<open>
  \<open>addAll\<close> reads \<open>strings->size()\<close> of the other set anew on every pass; the other set is not
  changed, so the count is fixed here.
\<close>

function us_addAll_strings :: "uheap \<Rightarrow> ustr option list \<Rightarrow> nat \<Rightarrow> nat \<Rightarrow> 'ss uset \<Rightarrow> 'ss uset option" where
  "us_addAll_strings h es i n s =
     (if i < n
      then (case rd es i of
          None \<Rightarrow> None
        | Some e \<Rightarrow> (case us_strings s of
            None \<Rightarrow> None
          | Some v \<Rightarrow> (case uv_contains v e of
              None \<Rightarrow> None
            | Some b \<Rightarrow> (case (if \<not> b then (case e of None \<Rightarrow> None | Some t \<Rightarrow> us_add_new h t s) else Some s) of
                None \<Rightarrow> None
              | Some s \<Rightarrow> us_addAll_strings h es (i + 1) n s))))
      else Some s)"
  by pat_completeness auto
termination
  by (relation "measure (\<lambda>(h, es, i, n, s). n - i)") auto

function us_complementAll_strings :: "uheap \<Rightarrow> ustr option list \<Rightarrow> nat \<Rightarrow> nat \<Rightarrow> 'ss uset \<Rightarrow> 'ss uset option" where
  "us_complementAll_strings h es i n s =
     (if i < n
      then (case rd es i of
          None \<Rightarrow> None
        | Some e \<Rightarrow> (case us_strings s of
            None \<Rightarrow> None
          | Some v \<Rightarrow> (case uv_removeElement e v of
              None \<Rightarrow> None
            | Some (v, r) \<Rightarrow>
                (case (if \<not> r then (case e of None \<Rightarrow> None | Some t \<Rightarrow> us_add_new h t (s\<lparr>us_strings := Some v\<rparr>))
                       else Some (s\<lparr>us_strings := Some v\<rparr>)) of
                None \<Rightarrow> None
              | Some s \<Rightarrow> us_complementAll_strings h es (i + 1) n s))))
      else Some s)"
  by pat_completeness auto
termination
  by (relation "measure (\<lambda>(h, es, i, n, s). n - i)") auto

declare us_addAll_strings.simps [simp del] us_complementAll_strings.simps [simp del]

definition us_addAll :: "uheap \<Rightarrow> 'ss uset \<Rightarrow> 'ss uset \<Rightarrow> 'ss uset option" where
  "us_addAll h c s =
     do { s \<leftarrow> (if us_len c > 0 \<and> us_list c \<noteq> None then us_add_list h (us_used c) (us_len c) 0 s else Some s);
          case us_strings c of
            None \<Rightarrow> Some s
          | Some w \<Rightarrow> us_addAll_strings h (uv_elements w) 0 (nat (uv_count w)) s }"

text \<open>Without a comparer the vectors would compare half of a pointer; these have one.\<close>

definition us_retainAll :: "uheap \<Rightarrow> 'ts uset \<Rightarrow> 'ss uset \<Rightarrow> 'ss uset option" where
  "us_retainAll h c s =
     (if isFrozen s \<or> us_bogus s then Some s
      else do { s \<leftarrow> us_retain_list h (us_used c) (us_len c) 0 s;
                v \<leftarrow> us_strings s; w \<leftarrow> us_strings c;
                (v, r) \<leftarrow> uv_retainAll (\<lambda>_. 0) v w;
                Some (s\<lparr>us_strings := Some v\<rparr>) })"

definition us_removeAll :: "uheap \<Rightarrow> 'ss uset \<Rightarrow> 'ss uset \<Rightarrow> 'ss uset option" where
  "us_removeAll h c s =
     (if isFrozen s \<or> us_bogus s then Some s
      else do { s \<leftarrow> us_retain_list h (us_used c) (us_len c) 2 s;
                v \<leftarrow> us_strings s; w \<leftarrow> us_strings c;
                (v, r) \<leftarrow> uv_removeAll (\<lambda>_. 0) v w;
                Some (s\<lparr>us_strings := Some v\<rparr>) })"

definition us_complementAll :: "uheap \<Rightarrow> 'ss uset \<Rightarrow> 'ss uset \<Rightarrow> 'ss uset option" where
  "us_complementAll h c s =
     (if isFrozen s \<or> us_bogus s then Some s
      else do { s \<leftarrow> exclusiveOr h (us_used c) (us_len c) 0 s;
                w \<leftarrow> us_strings c;
                us_complementAll_strings h (uv_elements w) 0 (nat (uv_count w)) s })"

section \<open>Constructors and assignment\<close>

definition us_blank :: "nat \<Rightarrow> nat \<Rightarrow> 'ss uset" where
  "us_blank len capacity =
     \<lparr>us_len = len, us_capacity = capacity, us_list = None, us_bmpSet = None, us_buffer = None,
      us_bufferCapacity = 0, us_pat = None, us_strings = None, us_stringSpan = None, us_bogus = False\<rparr>"

text \<open>The two constructors of new sets; \<open>fill\<close> is what follows \<open>list[0] = UNICODESET_HIGH\<close>.\<close>

definition us_construct :: "uheap \<Rightarrow> ('ss uset \<Rightarrow> 'ss uset option) \<Rightarrow> 'ss uset option" where
  "us_construct h fill =
     (case allocateStrings h U_ZERO_ERROR (us_blank 1 (1 + GROW_EXTRA)) of
        (ok, status, s) \<Rightarrow>
          if U_FAILURE status then Some s
          else case us_realloc h None (us_capacity s) of
            None \<Rightarrow> setToBogus s
          | Some cs \<Rightarrow> do { s \<leftarrow> us_write 0 UNICODESET_HIGH (s\<lparr>us_list := Some cs\<rparr>); fill s })"

definition us_new :: "uheap \<Rightarrow> 'ss uset option" where
  "us_new h = us_construct h Some"

definition us_new_range :: "uheap \<Rightarrow> int \<Rightarrow> int \<Rightarrow> 'ss uset option" where
  "us_new_range h start end = us_construct h (us_complement_range h start end)"

text \<open>\<open>cloneUnicodeString\<close>: \<open>new\<close> may give the null pointer.\<close>

definition cloneUnicodeString :: "uheap \<Rightarrow> ustr option \<Rightarrow> ustr option" where
  "cloneUnicodeString h e = (if hn h then e else None)"

text \<open>
  \<open>operator=\<close> between different objects. \<open>copySpan\<close> is the copy constructor of
  \<open>UnicodeSetStringSpan\<close>, \<open>None\<close> when \<open>new\<close> fails. The status of \<open>strings->assign\<close> is not
  looked at.
\<close>

definition us_copy_list :: "'ss uset \<Rightarrow> 'ss uset \<Rightarrow> 'ss uset option" where
  "us_copy_list src s =
     do { xs \<leftarrow> us_used src; cs \<leftarrow> us_list s;
          if length xs \<le> length cs
          then Some (s\<lparr>us_len := us_len src, us_list := Some (xs @ drop (length xs) cs)\<rparr>) else None }"

definition us_copy_pattern :: "uheap \<Rightarrow> 'ss uset \<Rightarrow> 'ss uset \<Rightarrow> 'ss uset" where
  "us_copy_pattern h src s = (case us_pat src of None \<Rightarrow> s | Some p \<Rightarrow> setPattern h p s)"

definition us_assign ::
  "uheap \<Rightarrow> ('ss \<Rightarrow> ustr uvector \<Rightarrow> 'ss option) \<Rightarrow> 'ss uset \<Rightarrow> 'ss uset \<Rightarrow> 'ss uset option" where
  "us_assign h copySpan src s =
     (if isFrozen s then Some s
      else if us_bogus src then setToBogus s
      else do {
        (ec, s) \<leftarrow> ensureCapacity h (us_len src) U_ZERO_ERROR s;
        if U_FAILURE ec then Some s
        else do {
          s \<leftarrow> us_copy_list src s;
          xs \<leftarrow> us_used s;
          let b = (case us_bmpSet src of None \<Rightarrow> None
                   | Some b \<Rightarrow> if hn h then Some (bmpset_copy b xs) else None);
          let s = s\<lparr>us_bmpSet := b\<rparr>;
          if us_bmpSet src \<noteq> None \<and> b = None then setToBogus s
          else case (us_strings s, us_strings src) of
            (Some v, Some w) \<Rightarrow> do {
              (v, ec) \<leftarrow> uv_assign (hs h) (cloneUnicodeString h) w v ec;
              let s = s\<lparr>us_strings := Some v\<rparr>;
              let p = (case us_stringSpan src of None \<Rightarrow> None | Some p \<Rightarrow> copySpan p v);
              let s = s\<lparr>us_stringSpan := p\<rparr>;
              if us_stringSpan src \<noteq> None \<and> p = None then setToBogus s
              else Some (us_copy_pattern h src (releasePattern s)) }
          | _ \<Rightarrow> setToBogus s } })"

definition us_copy :: "uheap \<Rightarrow> ('ss \<Rightarrow> ustr uvector \<Rightarrow> 'ss option) \<Rightarrow> 'ss uset \<Rightarrow> 'ss uset option" where
  "us_copy h copySpan src =
     (case allocateStrings h U_ZERO_ERROR
             (us_blank 0 (if isFrozen src then us_len src else us_len src + GROW_EXTRA)) of
        (ok, status, s) \<Rightarrow>
          if U_FAILURE status then Some s
          else case us_realloc h None (us_capacity s) of
            None \<Rightarrow> setToBogus s
          | Some cs \<Rightarrow> us_assign h copySpan src (s\<lparr>us_list := Some cs\<rparr>))"

text \<open>\<open>UnicodeSet(o, asThawed)\<close> copies neither \<open>bmpSet\<close> nor \<open>stringSpan\<close>.\<close>

definition us_thaw :: "uheap \<Rightarrow> 'ss uset \<Rightarrow> 'ss uset option" where
  "us_thaw h src =
     (case allocateStrings h U_ZERO_ERROR (us_blank 0 (us_len src + GROW_EXTRA)) of
        (ok, status, s) \<Rightarrow>
          if U_FAILURE status then Some s
          else case us_realloc h None (us_capacity s) of
            None \<Rightarrow> setToBogus s
          | Some cs \<Rightarrow> do {
              s \<leftarrow> us_copy_list src (s\<lparr>us_list := Some cs\<rparr>);
              case (us_strings s, us_strings src) of
                (Some v, Some w) \<Rightarrow> do {
                  (v, ec) \<leftarrow> uv_assign (hs h) (cloneUnicodeString h) w v status;
                  Some (us_copy_pattern h src (s\<lparr>us_strings := Some v\<rparr>)) }
              | _ \<Rightarrow> setToBogus s })"

text \<open>The operations that build a set from the code points of a string first.\<close>

definition us_with_string ::
  "uheap \<Rightarrow> ustr \<Rightarrow> (uheap \<Rightarrow> 'ss uset \<Rightarrow> 'ss uset \<Rightarrow> 'ss uset option) \<Rightarrow> 'ss uset \<Rightarrow> 'ss uset option" where
  "us_with_string h t f s = do { c \<leftarrow> us_new h; c \<leftarrow> us_addAll_string h t c; f h c s }"

definition us_createFrom :: "uheap \<Rightarrow> ustr \<Rightarrow> 'ss uset option option" where
  "us_createFrom h t =
     (if hn h then do { s \<leftarrow> us_new h; s \<leftarrow> us_add_string h t s; Some (Some s) } else Some None)"

definition us_createFromAll :: "uheap \<Rightarrow> ustr \<Rightarrow> 'ss uset option option" where
  "us_createFromAll h t =
     (if hn h then do { s \<leftarrow> us_new h; s \<leftarrow> us_addAll_string h t s; Some (Some s) } else Some None)"

section \<open>The vector of strings\<close>

lemma compareUnicodeString_cmp3 [simp]:
  "units_ok (units a) \<Longrightarrow> units_ok (units b) \<Longrightarrow> compareUnicodeString (Some a) (Some b) = cmp3 a b"
  by (simp add: compareUnicodeString_def ustr_compare_cmp3)

lemma uhash_compare_eq: "uhash_compareUnicodeString = (=)"
  by (intro ext) (simp add: uhash_compareUnicodeString_def)

text \<open>A set with room for \<open>n\<close> more strings, however its vector was filled and emptied before.\<close>

definition few :: "nat \<Rightarrow> 'ss uset \<Rightarrow> bool" where
  "few n s \<longleftrightarrow> card (us_strs s) + n < 134217727"

lemma uv_ensureCapacity_room:
  assumes "uv_ok v" "can_alloc h = (\<lambda>_. True)" "uv_count v < 134217727"
  shows "\<exists>v'. uv_ensureCapacity h (uv_count v + 1) v st = (True, v', st)"
  using assms uv_okD(1,2,3) [OF assms(1)] by (auto simp: uv_ensureCapacity_def Let_def)

lemma uv_sortedInsert_room:
  assumes "uv_ok v" "can_alloc h = (\<lambda>_. True)" "uv_count v < 134217727"
    "uv_sortedInsert h e compare v st = Some (v', st')"
  shows "st' = st"
  using uv_ensureCapacity_room [OF assms(1-3), of st] assms(4)
  by (auto simp: uv_sortedInsert_def bind_eq_Some_conv)

lemma strings_okE:
  assumes "strings_ok v"
  obtains ss where "uv_ok v" "uv_comparer v = Some (=)" "uv_deleter v" "uv_list v = map Some ss"
    "ssorted ss" "list_all str_ok ss" "{t. Some t \<in> set (uv_list v)} = set ss" "distinct (uv_list v)"
proof -
  from assms obtain ss where "uv_ok v" "uv_comparer v = Some (=)" "uv_deleter v" "uv_list v = map Some ss"
    "ssorted ss" "list_all str_ok ss" by (auto simp: strings_ok_def)
  then show thesis using ssorted_distinct [of ss] by (intro that) (auto simp: distinct_map)
qed

lemma strings_card: "strings_ok v \<Longrightarrow> uv_count v = int (card {t. Some t \<in> set (uv_list v)})"
proof -
  assume "strings_ok v"
  then obtain ss where v: "uv_ok v" "uv_list v = map Some ss" "ssorted ss" "{t. Some t \<in> set (uv_list v)} = set ss"
    using strings_okE by metis
  then have "length (uv_list v) = card (set ss)" using distinct_card [OF ssorted_distinct [OF v(3)]] by simp
  with v(4) uv_okD(1,6) [OF v(1)] show ?thesis by simp
qed

lemma strings_okI:
  "uv_ok v \<Longrightarrow> uv_comparer v = Some (=) \<Longrightarrow> uv_deleter v \<Longrightarrow> uv_list v = map Some ss \<Longrightarrow>
     ssorted ss \<Longrightarrow> list_all str_ok ss \<Longrightarrow> strings_ok v"
  unfolding strings_ok_def by blast

lemma strings_inserted:
  assumes "strings_ok v" "str_ok t" "Some t \<notin> set (uv_list v)"
  shows "\<exists>v' ec. uv_sortedInsert h (Some t) compareUnicodeString v U_ZERO_ERROR = Some (v', ec) \<and> strings_ok v' \<and>
    (ec = U_ZERO_ERROR \<and> {u. Some u \<in> set (uv_list v')} = insert t {u. Some u \<in> set (uv_list v)} \<and>
       uv_count v' = uv_count v + 1 \<or>
     U_FAILURE ec \<and> \<not> (can_alloc h = (\<lambda>_. True) \<and> uv_count v < 134217727))"
proof -
  obtain ss where v: "uv_ok v" "uv_comparer v = Some (=)" "uv_deleter v" "uv_list v = map Some ss"
    "ssorted ss" "list_all str_ok ss" using strings_okE [OF assms(1)] by metis
  have cmp: "compareUnicodeString (Some a) (Some t) > 0 \<longleftrightarrow> t < a" if "a \<in> set ss" for a
    using that v(6) assms(2) by (auto simp: list_all_iff str_ok_def cmp3_def)
  have up: "upward (\<lambda>x. compareUnicodeString x (Some t) > 0) (uv_list v)"
    unfolding upward_def
  proof (intro allI impI)
    fix i j assume ij: "i \<le> j" "j < length (uv_list v)" "0 < compareUnicodeString (uv_list v ! i) (Some t)"
    then have "t < ss ! i" using cmp [of "ss ! i"] v(4) by simp
    moreover have "ss ! i \<le> ss ! j" using ij(1,2) v(4) by (intro ssorted_nth_mono [OF v(5)]) simp_all
    ultimately show "0 < compareUnicodeString (uv_list v ! j) (Some t)"
      using ij(2) v(4) cmp [of "ss ! j"] by simp
  qed
  obtain m where m: "m \<le> length ss"
    "uv_grows (uv_sortedInsert h (Some t) compareUnicodeString v U_ZERO_ERROR) v U_ZERO_ERROR
       (take m (uv_list v) @ Some t # drop m (uv_list v))"
    "\<forall>x \<in> set (take m (uv_list v)). \<not> compareUnicodeString x (Some t) > 0"
    "\<forall>x \<in> set (drop m (uv_list v)). compareUnicodeString x (Some t) > 0"
    using uv_sortedInsert_grows [where compare = compareUnicodeString and e = "Some t" and h = h and st = U_ZERO_ERROR,
        OF v(1) up] v(4) by auto
  obtain v' ec where r: "uv_sortedInsert h (Some t) compareUnicodeString v U_ZERO_ERROR = Some (v', ec)"
    "uv_ok v'" "same_setup v v'"
    "ec = U_ZERO_ERROR \<and> uv_list v' = take m (uv_list v) @ Some t # drop m (uv_list v) \<or> U_FAILURE ec \<and> v' = v"
    using m(2) by (auto simp: uv_grows_def)
  let ?ss = "take m ss @ t # drop m ss"
  have nin: "t \<notin> set ss" using assms(3) v(4) by auto
  have tk: "uv_list v = map Some ss" using v(4) .
  have "\<forall>x \<in> set (take m ss). x < t"
  proof
    fix x assume x: "x \<in> set (take m ss)"
    then have "Some x \<in> set (take m (uv_list v))" by (simp add: tk take_map)
    moreover have xs: "x \<in> set ss" using x by (rule in_set_takeD)
    ultimately have "\<not> t < x" using m(3) cmp [OF xs] by blast
    with xs nin show "x < t" by (metis antisym_conv3)
  qed
  moreover have "\<forall>x \<in> set (drop m ss). t < x"
  proof
    fix x assume x: "x \<in> set (drop m ss)"
    then have "Some x \<in> set (drop m (uv_list v))" by (simp add: tk drop_map)
    moreover have xs: "x \<in> set ss" using x by (rule in_set_dropD)
    ultimately show "t < x" using m(4) cmp [OF xs] by blast
  qed
  moreover have "ssorted (take m ss @ drop m ss)" using v(5) by simp
  ultimately have sorted: "ssorted ?ss" unfolding sorted_wrt_append by auto
  have all: "list_all str_ok ?ss" using v(6) assms(2) by (auto simp: list_all_iff dest: in_set_takeD in_set_dropD)
  show ?thesis
  proof (cases "U_FAILURE ec")
    case True
    then have "v' = v" using r(4) by auto
    moreover have "\<not> (can_alloc h = (\<lambda>_. True) \<and> uv_count v < 134217727)"
      using uv_sortedInsert_room [OF v(1) _ _ r(1)] True by auto
    ultimately show ?thesis using r(1) True assms(1) by auto
  next
    case False
    then have l: "ec = U_ZERO_ERROR" "uv_list v' = map Some ?ss"
      using r(4) v(4) by (auto simp: take_map drop_map)
    have "set ?ss = insert t (set ss)" by (metis append_take_drop_id set_append list.set(2) Un_insert_right)
    moreover have "uv_count v' = uv_count v + 1"
      using l(2) uv_okD(1,6) [OF r(2)] uv_okD(1,6) [OF v(1)] v(4) by simp
    moreover have "strings_ok v'"
      using r(2,3) v(2,3) by (intro strings_okI [OF _ _ _ l(2) sorted all]) (simp_all add: same_setup_def)
    ultimately show ?thesis using r(1) l v(4) by auto
  qed
qed

lemma strings_contains: "strings_ok v \<Longrightarrow> uv_contains v (Some t) = Some (Some t \<in> set (uv_list v))"
  by (erule strings_okE) (simp add: uv_contains_iff)

lemma ssorted_filter: "ssorted ss \<Longrightarrow> ssorted (filter P ss)"
  by (rule sorted_wrt_filter)

text \<open>What remains of a vector of strings when some are deleted.\<close>

lemma strings_kept:
  assumes "strings_ok v" "uv_removes v v' (filter P (uv_list v))"
  shows "strings_ok v'" "{t. Some t \<in> set (uv_list v')} = {t. Some t \<in> set (uv_list v) \<and> P (Some t)}"
    "uv_count v' \<le> uv_count v"
proof -
  obtain ss where v: "uv_ok v" "uv_comparer v = Some (=)" "uv_deleter v" "uv_list v = map Some ss"
    "ssorted ss" "list_all str_ok ss" using strings_okE [OF assms(1)] by metis
  note u = uv_removesD [OF assms(2)]
  have l: "uv_list v' = map Some (filter (P \<circ> Some) ss)" using u(3) v(4) by (simp add: filter_map)
  then show "strings_ok v'" unfolding strings_ok_def
    using u v by (auto simp: ssorted_filter list_all_iff)
  show "{t. Some t \<in> set (uv_list v')} = {t. Some t \<in> set (uv_list v) \<and> P (Some t)}"
    using l v(4) by auto
  have "length (uv_list v') \<le> length (uv_list v)" using u(3) by simp
  then show "uv_count v' \<le> uv_count v" using uv_okD(1,6) [OF u(1)] uv_okD(1,6) [OF v(1)] by simp
qed

lemma remove1_filter: "distinct xs \<Longrightarrow> remove1 x xs = filter (\<lambda>y. y \<noteq> x) xs"
  by (simp add: distinct_remove1_removeAll removeAll_filter_not_eq) (metis (mono_tags))

lemma fold_remove1_filter: "distinct xs \<Longrightarrow> fold remove1 ys xs = filter (\<lambda>x. x \<notin> set ys) xs"
proof (induction ys arbitrary: xs)
  case (Cons y ys)
  then show ?case by (simp add: remove1_filter conj_commute)
qed simp

section \<open>What the operations on strings promise\<close>

lemma us_strings_sel [simp]: "us_used (s\<lparr>us_strings := v\<rparr>) = us_used s"
  by (simp add: us_used_def split: option.split)

text \<open>The vector of a set is replaced.\<close>

lemma us_ok_strings:
  assumes "us_ok s" "strings_ok v" "\<not> us_bogus s \<or> uv_list v = []"
  shows "us_ok (s\<lparr>us_strings := Some v\<rparr>)" "us_codes (s\<lparr>us_strings := Some v\<rparr>) = us_codes s"
    "us_strs (s\<lparr>us_strings := Some v\<rparr>) = {t. Some t \<in> set (uv_list v)}"
  using assms by (auto simp: us_ok_def us_codes_def us_strs_def)

text \<open>As \<open>us_to\<close>, for an operation that leaves the pattern to its caller.\<close>

definition us_goes :: "bool \<Rightarrow> 'ss uset option \<Rightarrow> 'ss uset \<Rightarrow> ustr set \<Rightarrow> bool" where
  "us_goes room r s S \<longleftrightarrow>
     (\<exists>s'. r = Some s' \<and> us_ok s' \<and> us_bmpSet s' = us_bmpSet s \<and> us_stringSpan s' = us_stringSpan s \<and>
        (us_pat s' = None \<or> us_pat s' = us_pat s) \<and>
        (if us_bogus s' then \<not> room
         else us_codes s' = us_codes s \<and> us_strs s' = S))"

lemma us_goes_release:
  assumes "us_goes room r s S" "\<not> isFrozen s" "\<not> us_bogus s"
  shows "us_to room (do { s \<leftarrow> r; Some (releasePattern s) }) s (us_codes s) S"
proof -
  obtain s' where "r = Some s'" "us_ok s'" "us_bmpSet s' = us_bmpSet s" "us_stringSpan s' = us_stringSpan s"
    "if us_bogus s' then \<not> room else us_codes s' = us_codes s \<and> us_strs s' = S"
    using assms by (auto simp: us_goes_def split: if_splits)
  then show ?thesis
    using assms(2,3)
    by (simp add: us_to_def fresh_pat_def releasePattern_def us_ok_def us_codes_def us_strs_def us_used_def
        split: if_splits option.splits)
qed

lemma us_add_new_goes:
  assumes "us_ok s" "\<not> isFrozen s" "\<not> us_bogus s" "str_ok t" "t \<notin> us_strs s"
  shows "us_goes (roomy h \<and> few 0 s) (us_add_new h t s) s (insert t (us_strs s))"
proof (cases "hn h")
  case False
  obtain s' where s': "setToBogus s = Some s'" "us_ok s'" "us_bogus s'" "us_pat s' = None"
    "us_bmpSet s' = us_bmpSet s" "us_stringSpan s' = us_stringSpan s"
    using setToBogus_spec [OF us_ok_shape [OF assms(1)] assms(2)] by blast
  with False assms show ?thesis by (simp add: us_add_new_def us_goes_def roomy_def)
next
  case True
  obtain v where v: "us_strings s = Some v" "strings_ok v" "us_strs s = {t. Some t \<in> set (uv_list v)}"
    using us_okE [OF assms(1)] by metis
  obtain v' ec where i: "uv_sortedInsert (hs h) (Some t) compareUnicodeString v U_ZERO_ERROR = Some (v', ec)"
    "strings_ok v'"
    "ec = U_ZERO_ERROR \<and> {u. Some u \<in> set (uv_list v')} = insert t {u. Some u \<in> set (uv_list v)} \<and>
       uv_count v' = uv_count v + 1 \<or>
     U_FAILURE ec \<and> \<not> (can_alloc (hs h) = (\<lambda>_. True) \<and> uv_count v < 134217727)"
    using strings_inserted [OF v(2) assms(4), of "hs h"] assms(5) v(3) by auto
  note n = us_ok_strings [OF assms(1) i(2) disjI1 [OF assms(3)]]
  show ?thesis
  proof (cases "U_FAILURE ec")
    case False
    then show ?thesis using True v i n assms by (auto simp: us_add_new_def us_goes_def)
  next
    case fail: True
    obtain s' where s': "setToBogus (s\<lparr>us_strings := Some v'\<rparr>) = Some s'" "us_ok s'" "us_bogus s'"
      "us_pat s' = None" "us_bmpSet s' = us_bmpSet s" "us_stringSpan s' = us_stringSpan s"
      using setToBogus_spec [OF us_ok_shape [OF n(1)]] assms(2) by auto
    moreover have "\<not> (roomy h \<and> few 0 s)"
      using i(3) fail v(3) strings_card [OF v(2)] by (auto simp: roomy_def few_def)
    ultimately show ?thesis using True v i fail assms by (simp add: us_add_new_def us_goes_def)
  qed
qed

text \<open>What a string stands for in a set: its single code point, or itself.\<close>

definition str_codes :: "ustr \<Rightarrow> int set" where
  "str_codes t = (case cps (units t) of [c] \<Rightarrow> {c} | _ \<Rightarrow> {})"

definition str_strs :: "ustr \<Rightarrow> ustr set" where
  "str_strs t = (if length (cps (units t)) > 1 then {t} else {})"

lemma getSingleCP_cases:
  assumes "units_ok (units t)" "ustr_length t \<noteq> 0"
  obtains (cp) c where "getSingleCP t = Some c" "0 \<le> c" "c < UNICODESET_HIGH" "str_codes t = {c}" "str_strs t = {}"
  | (str) "getSingleCP t = Some (-1)" "str_ok t" "str_codes t = {}" "str_strs t = {t}"
proof (cases "cps (units t)")
  case Nil
  then show thesis using assms(2) by (simp add: cps_Nil_iff ustr_length_def)
next
  case (Cons c l)
  show thesis
  proof (cases l)
    case Nil
    then have "0 \<le> c \<and> c < UNICODESET_HIGH" using cps_range [OF assms(1), of c] Cons by simp
    with Cons Nil show thesis
      by (intro cp [of c]) (simp_all add: getSingleCP_spec [OF assms(1)] str_codes_def str_strs_def)
  next
    case (Cons d l')
    with \<open>cps (units t) = c # l\<close> assms(1) show thesis
      by (intro str) (simp_all add: getSingleCP_spec [OF assms(1)] str_codes_def str_strs_def str_ok_def)
  qed
qed

lemma us_to_mono: "us_to room r s C S \<Longrightarrow> (room' \<Longrightarrow> room) \<Longrightarrow> us_to room' r s C S"
  unfolding us_to_def by (auto split: if_splits)

lemma us_add_string_to:
  assumes "us_ok s" "units_ok (units t)" "ustr_length t \<noteq> 0"
  shows "us_to (roomy h \<and> few 0 s) (us_add_string h t s) s (us_codes s \<union> str_codes t) (us_strs s \<union> str_strs t)"
proof (cases "isFrozen s \<or> us_bogus s")
  case True
  with us_to_unchanged [OF assms(1)] show ?thesis by (simp add: us_add_string_def)
next
  case False
  then have nf: "\<not> isFrozen s" "\<not> us_bogus s" by auto
  obtain v where v: "us_strings s = Some v" "strings_ok v" "us_strs s = {t. Some t \<in> set (uv_list v)}"
    using us_okE [OF assms(1)] by metis
  show ?thesis
  proof (rule getSingleCP_cases [OF assms(2,3)])
    fix c assume "getSingleCP t = Some c" "0 \<le> c" "c < UNICODESET_HIGH" "str_codes t = {c}" "str_strs t = {}"
    with us_add_cp_to [OF assms(1), of h c] nf assms(3) show ?thesis
      by (auto simp: us_add_string_def intro: us_to_mono)
  next
    assume t: "getSingleCP t = Some (-1)" "str_ok t" "str_codes t = {}" "str_strs t = {t}"
    show ?thesis
    proof (cases "t \<in> us_strs s")
      case True
      with us_to_same [OF assms(1) refl refl] nf assms(3) t v strings_contains [OF v(2), of t] show ?thesis
        by (simp add: us_add_string_def insert_absorb)
    next
      case False
      from us_goes_release [OF us_add_new_goes [OF assms(1) nf t(2) this] nf] False
      show ?thesis using nf assms(3) t v strings_contains [OF v(2), of t] by (simp add: us_add_string_def)
    qed
  qed
qed

lemma us_drop_goes:
  assumes "us_ok s" "\<not> us_bogus s" "us_strings s = Some v" "uv_removes v v' (filter P (uv_list v))"
  shows "us_goes room (Some (s\<lparr>us_strings := Some v'\<rparr>)) s {t \<in> us_strs s. P (Some t)}"
proof -
  have v: "strings_ok v" "us_strs s = {t. Some t \<in> set (uv_list v)}"
    using us_okE [OF assms(1)] assms(3) by (metis option.inject)+
  note k = strings_kept [OF v(1) assms(4)]
  from us_ok_strings [OF assms(1) k(1) disjI1 [OF assms(2)]] k(2,3) v(2) assms(2,3) show ?thesis
    by (simp add: us_goes_def)
qed

lemma uv_removeElement_strings:
  assumes "strings_ok v"
  shows "\<exists>v'. uv_removeElement (Some t) v = Some (v', Some t \<in> set (uv_list v)) \<and>
    uv_removes v v' (filter (\<lambda>e. e \<noteq> Some t) (uv_list v))"
proof -
  have v: "uv_ok v" "uv_comparer v = Some (=)" "distinct (uv_list v)"
    using strings_okE [OF assms] by metis+
  from uv_removeElement_spec [OF v(1,2), of "Some t"] show ?thesis by (simp add: remove1_filter [OF v(3)])
qed

lemma us_remove_string_to:
  assumes "us_ok s" "units_ok (units t)" "ustr_length t \<noteq> 0"
  shows "us_to (roomy h) (us_remove_string h t s) s (us_codes s - str_codes t) (us_strs s - str_strs t)"
proof (cases "isFrozen s \<or> us_bogus s")
  case True
  with us_to_unchanged [OF assms(1)] show ?thesis by (simp add: us_remove_string_def)
next
  case False
  then have nf: "\<not> isFrozen s" "\<not> us_bogus s" by auto
  obtain v where v: "us_strings s = Some v" "strings_ok v" using us_okE [OF assms(1)] by metis
  show ?thesis
  proof (rule getSingleCP_cases [OF assms(2,3)])
    fix c assume "getSingleCP t = Some c" "0 \<le> c" "c < UNICODESET_HIGH" "str_codes t = {c}" "str_strs t = {}"
    with us_remove_to [OF assms(1), of h c c] nf assms(3) show ?thesis
      by (simp add: us_remove_string_def pinned_def)
  next
    assume t: "getSingleCP t = Some (-1)" "str_ok t" "str_codes t = {}" "str_strs t = {t}"
    obtain v' where v': "uv_removeElement (Some t) v = Some (v', Some t \<in> set (uv_list v))"
      "uv_removes v v' (filter (\<lambda>e. e \<noteq> Some t) (uv_list v))"
      using uv_removeElement_strings [OF v(2)] by blast
    have "{u \<in> us_strs s. Some u \<noteq> Some t} = us_strs s - {t}" by auto
    with us_goes_release [OF us_drop_goes [OF assms(1) nf(2) v(1) v'(2)] nf, of "roomy h"]
    show ?thesis using nf assms(3) t v v'(1) by (simp add: us_remove_string_def)
  qed
qed

lemma us_complement_string_to:
  assumes "us_ok s" "units_ok (units t)" "ustr_length t \<noteq> 0"
  shows "us_to (roomy h \<and> few 0 s) (us_complement_string h t s) s (sym_diff (us_codes s) (str_codes t))
    ((us_strs s - str_strs t) \<union> (str_strs t - us_strs s))"
proof (cases "isFrozen s \<or> us_bogus s")
  case True
  with us_to_unchanged [OF assms(1)] show ?thesis by (simp add: us_complement_string_def)
next
  case False
  then have nf: "\<not> isFrozen s" "\<not> us_bogus s" by auto
  obtain v where v: "us_strings s = Some v" "strings_ok v" "us_strs s = {t. Some t \<in> set (uv_list v)}"
    using us_okE [OF assms(1)] by metis
  show ?thesis
  proof (rule getSingleCP_cases [OF assms(2,3)])
    fix c assume "getSingleCP t = Some c" "0 \<le> c" "c < UNICODESET_HIGH" "str_codes t = {c}" "str_strs t = {}"
    with us_complement_range_to [OF assms(1), of h c c] nf assms(3) show ?thesis
      by (auto simp: us_complement_string_def pinned_def intro: us_to_mono)
  next
    assume t: "getSingleCP t = Some (-1)" "str_ok t" "str_codes t = {}" "str_strs t = {t}"
    show ?thesis
    proof (cases "t \<in> us_strs s")
      case True
      obtain v' where v': "uv_removeElement (Some t) v = Some (v', Some t \<in> set (uv_list v))"
        "uv_removes v v' (filter (\<lambda>e. e \<noteq> Some t) (uv_list v))"
        using uv_removeElement_strings [OF v(2)] by blast
      have "{u \<in> us_strs s. Some u \<noteq> Some t} = us_strs s - {t}" by auto
      with us_goes_release [OF us_drop_goes [OF assms(1) nf(2) v(1) v'(2)] nf, of "roomy h \<and> few 0 s"]
      show ?thesis using nf assms(3) t v v'(1) strings_contains [OF v(2), of t] True
        by (simp add: us_complement_string_def)
    next
      case False
      from us_goes_release [OF us_add_new_goes [OF assms(1) nf t(2) this] nf] False
      show ?thesis using nf assms(3) t v strings_contains [OF v(2), of t]
        by (simp add: us_complement_string_def)
    qed
  qed
qed

section \<open>Whole sets\<close>

lemma us_ok_bogus:
  assumes "us_ok s" "us_bogus s"
  shows "us_codes s = {}" "us_strs s = {}" "\<exists>v. us_strings s = Some v \<and> strings_ok v \<and> uv_list v = []"
  using assms by (auto simp: us_ok_def us_codes_def us_used_def us_strs_def)

text \<open>The two loops over the strings of the other set.\<close>

definition some_strs :: "ustr option list \<Rightarrow> bool" where
  "some_strs es \<longleftrightarrow> (\<exists>ss. es = map Some ss \<and> list_all str_ok ss)"

lemma some_strs_Cons: "some_strs (e # es) \<longleftrightarrow> (\<exists>t. e = Some t \<and> str_ok t) \<and> some_strs es"
  by (auto simp: some_strs_def Cons_eq_map_conv)

lemma us_goes_then:
  assumes "us_goes room r s S" "\<not> isFrozen s"
    and idle: "\<And>s'. us_ok s' \<Longrightarrow> us_bogus s' \<Longrightarrow> f s' = Some s'"
    and step: "\<And>s'. us_ok s' \<Longrightarrow> \<not> us_bogus s' \<Longrightarrow> \<not> isFrozen s' \<Longrightarrow> us_codes s' = us_codes s \<Longrightarrow>
      us_strs s' = S \<Longrightarrow> us_goes room (f s') s' S'"
  shows "us_goes room (r \<bind> f) s S'"
proof -
  obtain s' where s': "r = Some s'" "us_ok s'" "us_bmpSet s' = us_bmpSet s" "us_stringSpan s' = us_stringSpan s"
    "us_pat s' = None \<or> us_pat s' = us_pat s"
    "if us_bogus s' then \<not> room else us_codes s' = us_codes s \<and> us_strs s' = S"
    using assms(1) by (auto simp: us_goes_def)
  have nf: "\<not> isFrozen s'" using s'(3,4) assms(2) by (simp add: isFrozen_def)
  show ?thesis
  proof (cases "us_bogus s'")
    case True
    with s' idle [OF s'(2) True] show ?thesis by (simp add: us_goes_def)
  next
    case False
    with s' step [OF s'(2) False nf] show ?thesis by (auto simp: us_goes_def)
  qed
qed

lemma uv_removeElement_absent:
  assumes "strings_ok v" "e \<notin> set (uv_list v)"
  shows "uv_removeElement e v = Some (v, False)"
proof -
  have v: "uv_ok v" "uv_comparer v = Some (=)" using strings_okE [OF assms(1)] by metis+
  have "first_index ((=) e) (uv_list v) = None" using assms(2) by (simp add: first_index_eq_None)
  with uv_indexOf_eq [OF v, of e] show ?thesis by (simp add: uv_removeElement_def index_or_minus1_def)
qed

lemma us_addAll_strings_idle:
  assumes "us_ok s" "isFrozen s \<or> us_bogus s" "some_strs (drop i es)"
  shows "us_addAll_strings h es i (length es) s = Some s"
  using assms(3)
proof (induction "length es - i" arbitrary: i)
  case 0
  then show ?case by (simp add: us_addAll_strings.simps [of h es i])
next
  case (Suc k)
  then have lt: "i < length es" by simp
  obtain v where v: "us_strings s = Some v" "strings_ok v" using us_okE [OF assms(1)] by metis
  have "drop i es = es ! i # drop (i + 1) es" using lt by (simp add: Cons_nth_drop_Suc)
  with Suc.prems obtain t where t: "es ! i = Some t" "some_strs (drop (i + 1) es)"
    by (auto simp: some_strs_Cons)
  have "us_addAll_strings h es (i + 1) (length es) s = Some s"
    using Suc.hyps(1) [of "i + 1"] Suc.hyps(2) t(2) by simp
  then show ?case
    using lt v t(1) strings_contains [OF v(2), of t] assms(2)
    by (auto simp: us_addAll_strings.simps [of h es i] us_add_new_def)
qed

lemma us_goes_mono: "us_goes room r s S \<Longrightarrow> (room' \<Longrightarrow> room) \<Longrightarrow> us_goes room' r s S"
  unfolding us_goes_def by (auto split: if_splits)

lemma us_goes_same: "us_ok s \<Longrightarrow> \<not> us_bogus s \<Longrightarrow> S = us_strs s \<Longrightarrow> us_goes room (Some s) s S"
  by (simp add: us_goes_def)

definition strs_of :: "ustr option list \<Rightarrow> ustr set" where
  "strs_of es = {t. Some t \<in> set es}"

lemma strs_of_simps [simp]: "strs_of [] = {}" "strs_of (Some t # es) = insert t (strs_of es)"
  by (auto simp: strs_of_def)

lemma few_insert:
  assumes "few (Suc n) s" "us_strs s' = insert t (us_strs s)" "finite (us_strs s)"
  shows "few n s'"
  using assms card_insert_le_m1 card_insert_if [OF assms(3), of t] by (auto simp: few_def split: if_splits)

lemma us_strs_finite: "us_ok s \<Longrightarrow> finite (us_strs s)"
proof (erule us_okE)
  fix v assume "us_strs s = {t. Some t \<in> set (uv_list v)}"
  then have "us_strs s = Some -` set (uv_list v)" by auto
  then show ?thesis by (simp add: finite_vimageI)
qed

lemma us_addAll_strings_goes:
  fixes s :: "'ss uset"
  assumes "us_ok s" "\<not> isFrozen s" "\<not> us_bogus s" "some_strs (drop i es)" "room \<Longrightarrow> roomy h \<and> few (length es - i) s"
  shows "us_goes room (us_addAll_strings h es i (length es) s) s (us_strs s \<union> strs_of (drop i es))"
  using assms
proof (induction "length es - i" arbitrary: i s)
  case 0
  then show ?case by (simp add: us_addAll_strings.simps [of h es i] us_goes_same)
next
  case (Suc k)
  then have lt: "i < length es" by simp
  obtain v where v: "us_strings s = Some v" "strings_ok v" "us_strs s = {t. Some t \<in> set (uv_list v)}"
    using us_okE [OF Suc.prems(1)] by metis
  have d: "drop i es = es ! i # drop (i + 1) es" using lt by (simp add: Cons_nth_drop_Suc)
  with Suc.prems obtain t where t: "es ! i = Some t" "str_ok t" and ts: "some_strs (drop (i + 1) es)"
    by (auto simp: some_strs_Cons)
  let ?f = "us_addAll_strings h es (i + 1) (length es)"
  have e: "us_addAll_strings h es i (length es) s =
      (if t \<in> us_strs s then Some s else us_add_new h t s) \<bind> ?f"
    using lt v t strings_contains [OF v(2), of t]
    by (simp add: us_addAll_strings.simps [of h es i] split: option.split)
  have k: "k = length es - (i + 1)" using Suc.hyps(2) by simp
  have fewer: "few (length es - (i + 1)) s'" if room "us_strs s' = insert t (us_strs s)" for s' :: "'ss uset"
    using Suc.prems(5) that few_insert [of "length es - (i + 1)" s s' t] us_strs_finite [OF Suc.prems(1)]
      Suc.hyps(2) k by simp
  have "us_goes room (if t \<in> us_strs s then Some s else us_add_new h t s) s (insert t (us_strs s))"
  proof (cases "t \<in> us_strs s")
    case True
    with us_goes_same [OF Suc.prems(1,3), of "insert t (us_strs s)" room] show ?thesis by (simp add: insert_absorb)
  next
    case False
    have "roomy h \<and> few 0 s" if room using Suc.prems(5) [OF that] by (simp add: few_def)
    with us_goes_mono [OF us_add_new_goes [OF Suc.prems(1-3) t(2) False, of h]] False show ?thesis by simp
  qed
  then have "us_goes room ((if t \<in> us_strs s then Some s else us_add_new h t s) \<bind> ?f) s
      (insert t (us_strs s) \<union> strs_of (drop (i + 1) es))"
  proof (rule us_goes_then [OF _ Suc.prems(2)])
    fix s' :: "'ss uset" assume "us_ok s'" "us_bogus s'"
    then show "?f s' = Some s'" using us_addAll_strings_idle [OF _ _ ts] by blast
  next
    fix s' :: "'ss uset" assume s': "us_ok s'" "\<not> us_bogus s'" "\<not> isFrozen s'" "us_strs s' = insert t (us_strs s)"
    show "us_goes room (?f s') s' (insert t (us_strs s) \<union> strs_of (drop (i + 1) es))"
      using Suc.hyps(1) [OF k s'(1,3,2) ts] Suc.prems(5) fewer [OF _ s'(4)] s'(4) by auto
  qed
  then show ?case unfolding e d t(1) by (simp add: Un_commute)
qed

text \<open>A merge always drops the pattern.\<close>

lemma ensureBufferCapacity_pat:
  "ensureBufferCapacity h n ec s = Some (st, s') \<Longrightarrow> \<not> isFrozen s \<Longrightarrow> U_FAILURE st \<Longrightarrow> \<not> U_FAILURE ec \<Longrightarrow> us_pat s' = None"
  by (auto simp: ensureBufferCapacity_def setToBogus_def us_clear_def releasePattern_def bind_eq_Some_conv Let_def
      split: if_splits option.splits)

lemma us_merged_pat [simp]: "us_pat (us_merged out s) = None"
  by (simp add: us_merged_def releasePattern_def swapBuffers_def)

lemma us_merged_patD: "s' = us_merged out s \<Longrightarrow> us_pat s' = None"
  by simp

lemma merges_pat:
  assumes "\<not> isFrozen s" "\<not> us_bogus s"
  shows "us_add_list h (Some xs) n pl s = Some s' \<Longrightarrow> us_pat s' = None"
    "us_retain_list h (Some xs) n pl s = Some s' \<Longrightarrow> us_pat s' = None"
    "exclusiveOr h (Some xs) n pl s = Some s' \<Longrightarrow> us_pat s' = None"
  using assms ensureBufferCapacity_pat [OF _ assms(1), of h "us_len s + n" U_ZERO_ERROR]
  by (auto simp: us_add_list_def us_retain_list_def exclusiveOr_def bind_eq_Some_conv split: if_splits
      dest: us_merged_patD)

lemma us_to_then:
  fixes s :: "'ss uset"
  assumes "us_to room r s C S" "\<not> isFrozen s" "\<not> us_bogus s" "\<And>s'. r = Some s' \<Longrightarrow> us_pat s' = None"
    and bogus: "\<And>s'. us_ok s' \<Longrightarrow> us_bogus s' \<Longrightarrow> \<not> isFrozen s' \<Longrightarrow> us_pat s' = None \<Longrightarrow>
      \<exists>s''. f s' = Some s'' \<and> us_ok s'' \<and> us_bogus s'' \<and> us_pat s'' = None \<and>
        us_bmpSet s'' = us_bmpSet s' \<and> us_stringSpan s'' = us_stringSpan s'"
    and step: "\<And>s'. us_ok s' \<Longrightarrow> \<not> us_bogus s' \<Longrightarrow> \<not> isFrozen s' \<Longrightarrow> us_codes s' = C \<Longrightarrow>
      us_strs s' = S \<Longrightarrow> us_goes room (f s') s' S'"
  shows "us_to room (r \<bind> f) s C S'"
proof -
  obtain s' where s': "r = Some s'" "us_ok s'" "us_bmpSet s' = us_bmpSet s" "us_stringSpan s' = us_stringSpan s"
    "if us_bogus s' then \<not> room else us_codes s' = C \<and> us_strs s' = S" and p: "us_pat s' = None"
    using assms(1-4) by (auto simp: us_to_def)
  have nf: "\<not> isFrozen s'" using s'(3,4) assms(2) by (simp add: isFrozen_def)
  show ?thesis
  proof (cases "us_bogus s'")
    case True
    with bogus [OF s'(2) True nf p] s' assms(2,3) show ?thesis by (auto simp: us_to_def fresh_pat_def)
  next
    case False
    with s' step [OF s'(2) False nf] p assms(2,3) show ?thesis
      by (auto simp: us_to_def us_goes_def fresh_pat_def split: if_splits)
  qed
qed

lemma us_other:
  assumes "us_ok c"
  obtains b bs w where "us_used c = Some (b # bs)" "inv_list (b # bs)" "length bs < us_len c" "us_list c \<noteq> None"
    "us_codes c = inv_set (b # bs)" "us_strings c = Some w" "strings_ok w"
    "some_strs (uv_list w)" "us_strs c = strs_of (uv_list w)" "length (uv_list w) = card (us_strs c)"
proof -
  obtain xs w where c: "us_used c = Some xs" "inv_list xs" "length xs = us_len c" "us_codes c = inv_set xs"
    "us_strings c = Some w" "strings_ok w" "us_strs c = {t. Some t \<in> set (uv_list w)}"
    using us_okE [OF assms] by metis
  obtain b bs where "xs = b # bs" using inv_listD(1) [OF c(2)] by (cases xs) auto
  moreover have "us_list c \<noteq> None" using c(1) by (cases "us_list c") (simp_all add: us_used_def)
  moreover have "some_strs (uv_list w)" using c(6) by (auto simp: strings_ok_def some_strs_def)
  moreover have "length (uv_list w) = card (us_strs c)"
    using strings_card [OF c(6)] c(6,7) uv_okD(1,6) [of w] by (auto simp: strings_ok_def)
  ultimately show thesis using c by (intro that [of b bs w]) (auto simp: strs_of_def)
qed

text \<open>The loops read the elements of the vector up to its count only.\<close>

lemma us_addAll_strings_take:
  "n \<le> length es \<Longrightarrow> us_addAll_strings h es i n s = us_addAll_strings h (take n es) i n s"
proof (induction "n - i" arbitrary: i s)
  case 0
  then show ?case by (simp add: us_addAll_strings.simps [of h _ i n])
next
  case (Suc k)
  then have "rd (take n es) i = rd es i" "k = n - (i + 1)" by (auto simp: rd_def)
  then show ?case
    using Suc.hyps(1) [OF _ Suc.prems] Suc.hyps(2)
    by (subst (1 2) us_addAll_strings.simps) (simp split: option.split)
qed

lemma us_complementAll_strings_take:
  "n \<le> length es \<Longrightarrow> us_complementAll_strings h es i n s = us_complementAll_strings h (take n es) i n s"
proof (induction "n - i" arbitrary: i s)
  case 0
  then show ?case by (simp add: us_complementAll_strings.simps [of h _ i n])
next
  case (Suc k)
  then have "rd (take n es) i = rd es i" "k = n - (i + 1)" by (auto simp: rd_def)
  then show ?case
    using Suc.hyps(1) [OF _ Suc.prems] Suc.hyps(2)
    by (subst (1 2) us_complementAll_strings.simps) (simp split: option.split)
qed

lemma us_addAll_strings_list:
  "uv_ok w \<Longrightarrow> us_addAll_strings h (uv_elements w) 0 (nat (uv_count w)) s =
     us_addAll_strings h (uv_list w) 0 (length (uv_list w)) s"
  using us_addAll_strings_take [of "nat (uv_count w)" "uv_elements w" h 0 s] uv_okD(5,6) [of w]
  by (simp add: uv_list_def)

lemma us_complementAll_strings_list:
  "uv_ok w \<Longrightarrow> us_complementAll_strings h (uv_elements w) 0 (nat (uv_count w)) s =
     us_complementAll_strings h (uv_list w) 0 (length (uv_list w)) s"
  using us_complementAll_strings_take [of "nat (uv_count w)" "uv_elements w" h 0 s] uv_okD(5,6) [of w]
  by (simp add: uv_list_def)

lemma us_addAll_to:
  fixes s c :: "'ss uset"
  assumes "us_ok s" "us_ok c"
  shows "us_to (roomy h \<and> few (card (us_strs c)) s) (us_addAll h c s) s (us_codes s \<union> us_codes c) (us_strs s \<union> us_strs c)"
proof -
  obtain b bs w where c: "us_used c = Some (b # bs)" "inv_list (b # bs)" "length bs < us_len c" "us_list c \<noteq> None"
    "us_codes c = inv_set (b # bs)" "us_strings c = Some w" "strings_ok w"
    "some_strs (uv_list w)" "us_strs c = strs_of (uv_list w)" "length (uv_list w) = card (us_strs c)"
    using us_other [OF assms(2)] .
  have w: "uv_ok w" using c(7) by (simp add: strings_ok_def)
  let ?f = "us_addAll_strings h (uv_list w) 0 (length (uv_list w))"
  have e: "us_addAll h c s = us_add_list h (Some (b # bs)) (us_len c) 0 s \<bind> ?f"
    using c(1,3,4,6) by (simp add: us_addAll_def us_addAll_strings_list [OF w])
  have "some_strs (drop 0 (uv_list w))" using c(8) by simp
  note loops = us_addAll_strings_idle [OF _ _ this] us_addAll_strings_goes [OF _ _ _ this]
  show ?thesis
  proof (cases "isFrozen s \<or> us_bogus s")
    case True
    with e loops(1) [OF assms(1) True] us_to_unchanged [OF assms(1) True] show ?thesis
      by (simp add: us_add_list_def)
  next
    case False
    then have nf: "\<not> isFrozen s" "\<not> us_bogus s" by auto
    have a: "us_to (roomy h \<and> few (card (us_strs c)) s) (us_add_list h (Some (b # bs)) (us_len c) 0 s) s
        (us_codes s \<union> us_codes c) (us_strs s)"
      using us_add_list_to [OF assms(1) c(2), of "us_len c" h] c(3,5) by (auto intro: us_to_mono)
    show ?thesis unfolding e
    proof (rule us_to_then [OF a nf merges_pat(1) [OF nf]])
      fix s' :: "'ss uset"
      assume "us_ok s'" "us_bogus s'" "us_pat s' = None"
      with loops(1) [of s'] show "\<exists>s''. ?f s' = Some s'' \<and> us_ok s'' \<and> us_bogus s'' \<and> us_pat s'' = None \<and>
          us_bmpSet s'' = us_bmpSet s' \<and> us_stringSpan s'' = us_stringSpan s'" by blast
    next
      fix s' :: "'ss uset"
      assume s': "us_ok s'" "\<not> us_bogus s'" "\<not> isFrozen s'" "us_strs s' = us_strs s"
      show "us_goes (roomy h \<and> few (card (us_strs c)) s) (?f s') s' (us_strs s \<union> us_strs c)"
        using loops(2) [OF s'(1,3,2), of "roomy h \<and> few (card (us_strs c)) s" h] s'(4) c(9,10)
        by (simp add: few_def)
    qed simp
  qed
qed

lemma us_strings_bogus:
  assumes "us_ok s" "us_bogus s" "us_strings s = Some v" "uv_removes v v' ys" "length ys \<le> length (uv_list v)"
  shows "us_ok (s\<lparr>us_strings := Some v'\<rparr>)"
proof -
  have v: "strings_ok v" "uv_list v = []" using us_ok_bogus(3) [OF assms(1,2)] assms(3) by auto
  then have "uv_removes v v' (filter (\<lambda>_. True) (uv_list v))" using assms(4,5) by simp
  from us_ok_strings(1) [OF assms(1) strings_kept(1) [OF v(1) this]] uv_removesD(3) [OF this] v(2)
  show ?thesis by simp
qed

text \<open>The end of \<open>retainAll\<close> and \<open>removeAll\<close>: what is kept of the strings.\<close>

lemma us_filter_to:
  fixes s c :: "'ss uset"
  assumes a: "us_to room r s C (us_strs s)" "\<not> isFrozen s" "\<not> us_bogus s" "\<And>s'. r = Some s' \<Longrightarrow> us_pat s' = None"
    and op: "\<And>v. strings_ok v \<Longrightarrow> \<exists>v' x. op v = Some (v', x) \<and> uv_removes v v' (filter P (uv_list v))"
  shows "us_to room (do { s \<leftarrow> r; v \<leftarrow> us_strings s; (v, x) \<leftarrow> op v; Some (s\<lparr>us_strings := Some v\<rparr>) }) s C
    {t \<in> us_strs s. P (Some t)}"
proof (rule us_to_then [OF a])
  fix s' :: "'ss uset"
  assume s': "us_ok s'" "us_bogus s'" "\<not> isFrozen s'" "us_pat s' = None"
  obtain v where v: "us_strings s' = Some v" "strings_ok v" using us_ok_bogus(3) [OF s'(1,2)] by blast
  obtain v' x where v': "op v = Some (v', x)" "uv_removes v v' (filter P (uv_list v))" using op [OF v(2)] by blast
  from us_strings_bogus [OF s'(1,2) v(1) v'(2)] v v'(1) s'
  show "\<exists>s''. (do { v \<leftarrow> us_strings s'; (v, x) \<leftarrow> op v; Some (s'\<lparr>us_strings := Some v\<rparr>) }) = Some s'' \<and>
      us_ok s'' \<and> us_bogus s'' \<and> us_pat s'' = None \<and>
      us_bmpSet s'' = us_bmpSet s' \<and> us_stringSpan s'' = us_stringSpan s'" by simp
next
  fix s' :: "'ss uset"
  assume s': "us_ok s'" "\<not> us_bogus s'" "\<not> isFrozen s'" "us_strs s' = us_strs s"
  obtain v where v: "us_strings s' = Some v" "strings_ok v" using us_okE [OF s'(1)] by metis
  obtain v' x where v': "op v = Some (v', x)" "uv_removes v v' (filter P (uv_list v))" using op [OF v(2)] by blast
  from us_drop_goes [OF s'(1,2) v(1) v'(2), of room] v(1) v'(1) s'(4)
  show "us_goes room (do { v \<leftarrow> us_strings s'; (v, x) \<leftarrow> op v; Some (s'\<lparr>us_strings := Some v\<rparr>) }) s'
      {t \<in> us_strs s. P (Some t)}" by simp
qed

lemma us_retainAll_to:
  fixes s :: "'ss uset" and c :: "'ts uset"
  assumes "us_ok s" "us_ok c"
  shows "us_to (roomy h) (us_retainAll h c s) s (us_codes s \<inter> us_codes c) (us_strs s \<inter> us_strs c)"
proof (cases "isFrozen s \<or> us_bogus s")
  case True
  with us_to_unchanged [OF assms(1)] show ?thesis by (simp add: us_retainAll_def)
next
  case False
  then have nf: "\<not> isFrozen s" "\<not> us_bogus s" by auto
  obtain b bs w where c: "us_used c = Some (b # bs)" "inv_list (b # bs)" "length bs < us_len c"
    "us_codes c = inv_set (b # bs)" "us_strings c = Some w" "strings_ok w" "us_strs c = strs_of (uv_list w)"
    using us_other [OF assms(2)] by metis
  have a: "us_to (roomy h) (us_retain_list h (Some (b # bs)) (us_len c) 0 s) s (us_codes s \<inter> us_codes c) (us_strs s)"
    using us_retain_list_to(1) [OF assms(1) c(2), of "us_len c" h] c(3,4) by simp
  have op: "\<exists>v' x. uv_retainAll (\<lambda>_. 0) v w = Some (v', x) \<and>
      uv_removes v v' (filter (\<lambda>e. e \<in> set (uv_list w)) (uv_list v))" if "strings_ok v" for v
    using uv_retainAll_spec [of v w] that c(6) by (auto simp: strings_ok_def)
  have "{t \<in> us_strs s. Some t \<in> set (uv_list w)} = us_strs s \<inter> us_strs c" using c(7) by (auto simp: strs_of_def)
  with us_filter_to [OF a nf merges_pat(2) [OF nf] op] nf c(1,5) show ?thesis
    by (simp add: us_retainAll_def)
qed

lemma us_removeAll_to:
  fixes s c :: "'ss uset"
  assumes "us_ok s" "us_ok c"
  shows "us_to (roomy h) (us_removeAll h c s) s (us_codes s - us_codes c) (us_strs s - us_strs c)"
proof (cases "isFrozen s \<or> us_bogus s")
  case True
  with us_to_unchanged [OF assms(1)] show ?thesis by (simp add: us_removeAll_def)
next
  case False
  then have nf: "\<not> isFrozen s" "\<not> us_bogus s" by auto
  obtain b bs w where c: "us_used c = Some (b # bs)" "inv_list (b # bs)" "length bs < us_len c"
    "us_codes c = inv_set (b # bs)" "us_strings c = Some w" "strings_ok w" "us_strs c = strs_of (uv_list w)"
    using us_other [OF assms(2)] by metis
  have a: "us_to (roomy h) (us_retain_list h (Some (b # bs)) (us_len c) 2 s) s (us_codes s - us_codes c) (us_strs s)"
    using us_retain_list_to(2) [OF assms(1) c(2), of "us_len c" h] c(3,4) by simp
  have op: "\<exists>v' x. uv_removeAll (\<lambda>_. 0) v w = Some (v', x) \<and>
      uv_removes v v' (filter (\<lambda>e. e \<notin> set (uv_list w)) (uv_list v))" if "strings_ok v" for v
  proof -
    have v: "uv_ok v" "uv_comparer v = Some (=)" "distinct (uv_list v)" using strings_okE [OF that] by metis+
    have "uv_ok w" using c(6) by (simp add: strings_ok_def)
    from uv_removeAll_spec [OF v(1) this v(2)] show ?thesis by (simp add: fold_remove1_filter [OF v(3)])
  qed
  have "{t \<in> us_strs s. Some t \<notin> set (uv_list w)} = us_strs s - us_strs c" using c(7) by (auto simp: strs_of_def)
  with us_filter_to [OF a nf merges_pat(2) [OF nf] op] nf c(1,5) show ?thesis
    by (simp add: us_removeAll_def)
qed

end
