(* ===== verification/USetBuild.thy ===== *)
theory USetBuild
  imports USetOps
begin

text \<open>
  What \<open>complementAll\<close>, the operations on the code points of a string, the constructors,
  the assignment and \<open>compact\<close> of \<open>UnicodeSet\<close> promise.
\<close>

section \<open>complementAll\<close>

definition str_diff :: "ustr set \<Rightarrow> ustr set \<Rightarrow> ustr set" where
  "str_diff A B = (A - B) \<union> (B - A)"

lemma us_strings_same: "us_strings s = Some v \<Longrightarrow> s\<lparr>us_strings := Some v\<rparr> = s"
  by simp

lemma us_complementAll_strings_idle:
  assumes "us_ok s" "us_bogus s" "some_strs (drop i es)"
  shows "us_complementAll_strings h es i (length es) s = Some s"
  using assms(3)
proof (induction "length es - i" arbitrary: i)
  case 0
  then show ?case by (simp add: us_complementAll_strings.simps [of h es i])
next
  case (Suc k)
  then have lt: "i < length es" by simp
  obtain v where v: "us_strings s = Some v" "strings_ok v" "uv_list v = []"
    using us_ok_bogus(3) [OF assms(1,2)] by blast
  have "drop i es = es ! i # drop (i + 1) es" using lt by (simp add: Cons_nth_drop_Suc)
  with Suc.prems obtain t where t: "es ! i = Some t" "some_strs (drop (i + 1) es)"
    by (auto simp: some_strs_Cons)
  have "us_complementAll_strings h es (i + 1) (length es) s = Some s"
    using Suc.hyps(1) [of "i + 1"] Suc.hyps(2) t(2) by simp
  then show ?case
    using lt v t(1) uv_removeElement_absent [OF v(2), of "Some t"] assms(2)
    by (simp add: us_complementAll_strings.simps [of h es i] us_add_new_def us_strings_same [OF v(1)])
qed

text \<open>One pass of the loop.\<close>

definition us_toggle :: "uheap \<Rightarrow> ustr \<Rightarrow> 'ss uset \<Rightarrow> 'ss uset option" where
  "us_toggle h t s =
     do { v \<leftarrow> us_strings s; (v, r) \<leftarrow> uv_removeElement (Some t) v;
          if \<not> r then us_add_new h t (s\<lparr>us_strings := Some v\<rparr>) else Some (s\<lparr>us_strings := Some v\<rparr>) }"

lemma us_toggle_goes:
  assumes "us_ok s" "\<not> isFrozen s" "\<not> us_bogus s" "str_ok t"
  shows "us_goes (roomy h \<and> few 0 s) (us_toggle h t s) s (str_diff (us_strs s) {t})"
proof -
  obtain v where v: "us_strings s = Some v" "strings_ok v" "us_strs s = {t. Some t \<in> set (uv_list v)}"
    using us_okE [OF assms(1)] by metis
  show ?thesis
  proof (cases "t \<in> us_strs s")
    case True
    obtain v' where v': "uv_removeElement (Some t) v = Some (v', Some t \<in> set (uv_list v))"
      "uv_removes v v' (filter (\<lambda>e. e \<noteq> Some t) (uv_list v))"
      using uv_removeElement_strings [OF v(2)] by blast
    have "{u \<in> us_strs s. Some u \<noteq> Some t} = str_diff (us_strs s) {t}" using True by (auto simp: str_diff_def)
    with us_drop_goes [OF assms(1,3) v(1) v'(2), of "roomy h \<and> few 0 s"] v v' True show ?thesis
      by (simp add: us_toggle_def)
  next
    case False
    then have "uv_removeElement (Some t) v = Some (v, False)"
      using uv_removeElement_absent [OF v(2), of "Some t"] v(3) by simp
    moreover have "str_diff (us_strs s) {t} = insert t (us_strs s)" using False by (auto simp: str_diff_def)
    ultimately show ?thesis
      using us_add_new_goes [OF assms False, of h] v(1)
      by (simp add: us_toggle_def us_strings_same [OF v(1)])
  qed
qed

lemma few_toggle:
  assumes "few (Suc n) s" "us_strs s' = str_diff (us_strs s) {t}" "finite (us_strs s)"
  shows "few n s'"
proof -
  have "us_strs s' \<subseteq> insert t (us_strs s)" using assms(2) by (auto simp: str_diff_def)
  then have "card (us_strs s') \<le> card (insert t (us_strs s))" using assms(3) by (intro card_mono) auto
  also have "\<dots> \<le> Suc (card (us_strs s))" using assms(3) by (simp add: card_insert_if)
  finally show ?thesis using assms(1) by (simp add: few_def)
qed

lemma us_complementAll_strings_goes:
  fixes s :: "'ss uset"
  assumes "us_ok s" "\<not> isFrozen s" "\<not> us_bogus s" "some_strs (drop i es)" "distinct (drop i es)"
    "room \<Longrightarrow> roomy h \<and> few (length es - i) s"
  shows "us_goes room (us_complementAll_strings h es i (length es) s) s (str_diff (us_strs s) (strs_of (drop i es)))"
  using assms
proof (induction "length es - i" arbitrary: i s)
  case 0
  then show ?case by (simp add: us_complementAll_strings.simps [of h es i] us_goes_same str_diff_def)
next
  case (Suc k)
  then have lt: "i < length es" by simp
  have d: "drop i es = es ! i # drop (i + 1) es" using lt by (simp add: Cons_nth_drop_Suc)
  with Suc.prems obtain t where t: "es ! i = Some t" "str_ok t" and ts: "some_strs (drop (i + 1) es)"
    by (auto simp: some_strs_Cons)
  have dist: "distinct (drop (i + 1) es)" "t \<notin> strs_of (drop (i + 1) es)"
    using Suc.prems(5) d t(1) by (auto simp: strs_of_def)
  let ?f = "us_complementAll_strings h es (i + 1) (length es)"
  have e: "us_complementAll_strings h es i (length es) s = us_toggle h t s \<bind> ?f"
    using lt t by (auto simp: us_complementAll_strings.simps [of h es i] us_toggle_def split: option.split)
  have k: "k = length es - (i + 1)" using Suc.hyps(2) by simp
  have fewer: "few (length es - (i + 1)) s'" if room "us_strs s' = str_diff (us_strs s) {t}" for s' :: "'ss uset"
    using Suc.prems(6) that few_toggle [of "length es - (i + 1)" s s' t] us_strs_finite [OF Suc.prems(1)]
      Suc.hyps(2) k by simp
  have "roomy h \<and> few 0 s" if room using Suc.prems(6) [OF that] by (simp add: few_def)
  then have "us_goes room (us_toggle h t s) s (str_diff (us_strs s) {t})"
    using us_goes_mono [OF us_toggle_goes [OF Suc.prems(1-3) t(2), of h]] by blast
  then have "us_goes room (us_toggle h t s \<bind> ?f) s
      (str_diff (str_diff (us_strs s) {t}) (strs_of (drop (i + 1) es)))"
  proof (rule us_goes_then [OF _ Suc.prems(2)])
    fix s' :: "'ss uset" assume "us_ok s'" "us_bogus s'"
    then show "?f s' = Some s'" using us_complementAll_strings_idle [OF _ _ ts] by blast
  next
    fix s' :: "'ss uset"
    assume s': "us_ok s'" "\<not> us_bogus s'" "\<not> isFrozen s'" "us_strs s' = str_diff (us_strs s) {t}"
    show "us_goes room (?f s') s' (str_diff (str_diff (us_strs s) {t}) (strs_of (drop (i + 1) es)))"
      using Suc.hyps(1) [OF k s'(1,3,2) ts dist(1)] Suc.prems(6) fewer [OF _ s'(4)] s'(4) by auto
  qed
  moreover have "str_diff (str_diff A {t}) B = str_diff A (insert t B)" if "t \<notin> B" for A B
    using that by (auto simp: str_diff_def)
  ultimately show ?case using e d t(1) dist(2) by simp
qed

lemma us_complementAll_to:
  fixes s c :: "'ss uset"
  assumes "us_ok s" "us_ok c"
  shows "us_to (roomy h \<and> few (card (us_strs c)) s) (us_complementAll h c s) s
    (sym_diff (us_codes s) (us_codes c)) (str_diff (us_strs s) (us_strs c))"
proof (cases "isFrozen s \<or> us_bogus s")
  case True
  with us_to_unchanged [OF assms(1)] show ?thesis by (simp add: us_complementAll_def)
next
  case False
  then have nf: "\<not> isFrozen s" "\<not> us_bogus s" by auto
  obtain b bs w where c: "us_used c = Some (b # bs)" "inv_list (b # bs)" "length bs < us_len c" "us_list c \<noteq> None"
    "us_codes c = inv_set (b # bs)" "us_strings c = Some w" "strings_ok w"
    "some_strs (uv_list w)" "us_strs c = strs_of (uv_list w)" "length (uv_list w) = card (us_strs c)"
    using us_other [OF assms(2)] .
  have w: "uv_ok w" "distinct (uv_list w)" using strings_okE [OF c(7)] by metis+
  let ?f = "us_complementAll_strings h (uv_list w) 0 (length (uv_list w))"
  have e: "us_complementAll h c s = exclusiveOr h (Some (b # bs)) (us_len c) 0 s \<bind> ?f"
    using nf c(1,6) by (simp add: us_complementAll_def us_complementAll_strings_list [OF w(1)])
  have "some_strs (drop 0 (uv_list w))" "distinct (drop 0 (uv_list w))" using c(8) w(2) by simp_all
  note loops = us_complementAll_strings_idle [OF _ _ this(1)] us_complementAll_strings_goes [OF _ _ _ this]
  have a: "us_to (roomy h \<and> few (card (us_strs c)) s) (exclusiveOr h (Some (b # bs)) (us_len c) 0 s) s
      (sym_diff (us_codes s) (us_codes c)) (us_strs s)"
    using exclusiveOr_to [OF assms(1) c(2), of "us_len c" h] c(3,5) by (auto intro: us_to_mono)
  show ?thesis unfolding e
  proof (rule us_to_then [OF a nf merges_pat(3) [OF nf]])
    fix s' :: "'ss uset"
    assume "us_ok s'" "us_bogus s'" "us_pat s' = None"
    with loops(1) [of s'] show "\<exists>s''. ?f s' = Some s'' \<and> us_ok s'' \<and> us_bogus s'' \<and> us_pat s'' = None \<and>
        us_bmpSet s'' = us_bmpSet s' \<and> us_stringSpan s'' = us_stringSpan s'" by blast
  next
    fix s' :: "'ss uset"
    assume s': "us_ok s'" "\<not> us_bogus s'" "\<not> isFrozen s'" "us_strs s' = us_strs s"
    show "us_goes (roomy h \<and> few (card (us_strs c)) s) (?f s') s' (str_diff (us_strs s) (us_strs c))"
      using loops(2) [OF s'(1,3,2), of "roomy h \<and> few (card (us_strs c)) s" h] s'(4) c(9,10)
      by (simp add: few_def)
  qed simp
qed

section \<open>The code points of a string\<close>

lemma u16_get_next:
  assumes "boundary s i" "i < length s" "u16_next s i (length s) = Some (c, j)"
  shows "u16_get s 0 i (length s) = Some c" "boundary s j"
proof -
  show "u16_get s 0 i (length s) = Some c"
    using assms lead_not_trail
    by (auto simp: u16_get_def u16_next_def boundary_def rd_def bind_eq_Some_conv split: if_splits)
  show "boundary s j"
    using assms lead_not_trail
    by (auto simp: u16_next_def boundary_def rd_def bind_eq_Some_conv split: if_splits)
qed

lemma us_add_cp_idle: "us_ok s \<Longrightarrow> isFrozen s \<or> us_bogus s \<Longrightarrow> us_add_cp h c s = Some s"
  using us_add_cp_to [of s h c] by (auto simp: us_to_def)

lemma us_to_bind:
  fixes s :: "'ss uset"
  assumes "us_to room r s C S" "us_ok s"
    and idle: "\<And>s'. us_ok s' \<Longrightarrow> isFrozen s' \<or> us_bogus s' \<Longrightarrow> f s' = Some s'"
    and step: "\<And>s'. us_ok s' \<Longrightarrow> \<not> us_bogus s' \<Longrightarrow> \<not> isFrozen s' \<Longrightarrow> us_codes s' = C \<Longrightarrow>
      us_strs s' = S \<Longrightarrow> us_to room (f s') s' C' S'"
  shows "us_to room (r \<bind> f) s C' S'"
proof -
  obtain s' where s': "r = Some s'" "us_ok s'" "us_bmpSet s' = us_bmpSet s" "us_stringSpan s' = us_stringSpan s"
    "fresh_pat s s'" "if isFrozen s \<or> us_bogus s then s' = s
      else if us_bogus s' then \<not> room else us_codes s' = C \<and> us_strs s' = S"
    using assms(1) by (auto simp: us_to_def)
  show ?thesis
  proof (cases "isFrozen s \<or> us_bogus s")
    case True
    with s' idle [of s] assms(2) show ?thesis by (simp add: us_to_unchanged)
  next
    case False
    have nf: "\<not> isFrozen s'" using s'(3,4) False by (simp add: isFrozen_def)
    show ?thesis
    proof (cases "us_bogus s'")
      case True
      with s' idle [of s'] False show ?thesis by (simp add: us_to_def)
    next
      case nb: False
      then have "us_codes s' = C" "us_strs s' = S" using s'(6) False by simp_all
      from step [OF s'(2) nb nf this] obtain s'' where s'': "f s' = Some s''" "us_ok s''"
        "us_bmpSet s'' = us_bmpSet s'" "us_stringSpan s'' = us_stringSpan s'" "fresh_pat s' s''"
        "if us_bogus s'' then \<not> room else us_codes s'' = C' \<and> us_strs s'' = S'"
        using nf nb by (auto simp: us_to_def)
      have "fresh_pat s s''" using s'(5) s''(5) unfolding fresh_pat_def by metis
      with s' s'' False show ?thesis by (simp add: us_to_def)
    qed
  qed
qed

lemma us_addAll_loop_idle:
  assumes "us_ok s" "isFrozen s \<or> us_bogus s" "units_ok (units t)" "boundary (units t) i"
  shows "us_addAll_loop h t i s = Some s"
  using assms(4)
proof (induction "length (units t) - i" arbitrary: i rule: less_induct)
  case less
  show ?case
  proof (cases "i < length (units t)")
    case False
    then show ?thesis by (simp add: us_addAll_loop.simps)
  next
    case True
    obtain c j where n: "u16_next (units t) i (length (units t)) = Some (c, j)" "j = i + u16_length c"
      using u16_next_cps [OF True refl] assms(3) by blast
    note g = u16_get_next [OF less.prems True n(1)]
    have "us_addAll_loop h t j s = Some s"
      using less.hyps [of j] g(2) True u16_next_less [OF n(1)] by simp
    with True g(1) n(2) us_add_cp_idle [OF assms(1,2)] show ?thesis
      by (simp add: us_addAll_loop.simps [of h t i] char32At_def ustr_length_def)
  qed
qed

lemma us_addAll_loop_to:
  fixes s :: "'ss uset"
  assumes "us_ok s" "units_ok (units t)" "boundary (units t) i" "i \<le> length (units t)"
  shows "us_to (roomy h) (us_addAll_loop h t i s) s (us_codes s \<union> set (cps (drop i (units t)))) (us_strs s)"
  using assms(1,3,4)
proof (induction "length (units t) - i" arbitrary: i s rule: less_induct)
  case less
  show ?case
  proof (cases "i < length (units t)")
    case False
    then have "us_addAll_loop h t i s = Some s" by (simp add: us_addAll_loop.simps [of h t i])
    with False us_to_same [OF less.prems(1) refl refl] show ?thesis by simp
  next
    case True
    obtain c j where n: "u16_next (units t) i (length (units t)) = Some (c, j)" "j = i + u16_length c"
      "j \<le> length (units t)" "cps (drop i (units t)) = c # cps (drop j (units t))"
      using u16_next_cps [OF True refl] assms(2) by blast
    note g = u16_get_next [OF less.prems(2) True n(1)]
    have c: "0 \<le> c" "c < UNICODESET_HIGH"
      using cps_range [OF units_ok_drop [OF assms(2), of i], of c] n(4) by auto
    have lt: "length (units t) - j < length (units t) - i" using u16_next_less [OF n(1)] True by simp
    have e: "us_addAll_loop h t i s = us_add_cp h c s \<bind> us_addAll_loop h t j"
      using True g(1) n(2) by (simp add: us_addAll_loop.simps [of h t i] char32At_def ustr_length_def split: option.split)
    have "us_to (roomy h) (us_add_cp h c s \<bind> us_addAll_loop h t j) s
        (insert c (us_codes s) \<union> set (cps (drop j (units t)))) (us_strs s)"
    proof (rule us_to_bind [OF us_add_cp_to [OF less.prems(1), of h c] less.prems(1)])
      fix s' :: "'ss uset" assume "us_ok s'" "isFrozen s' \<or> us_bogus s'"
      then show "us_addAll_loop h t j s' = Some s'" using us_addAll_loop_idle [OF _ _ assms(2) g(2)] by blast
    next
      fix s' :: "'ss uset"
      assume s': "us_ok s'" "us_codes s' = insert (pinCodePoint c) (us_codes s)" "us_strs s' = us_strs s"
      show "us_to (roomy h) (us_addAll_loop h t j s') s' (insert c (us_codes s) \<union> set (cps (drop j (units t)))) (us_strs s)"
        using less.hyps [OF lt s'(1) g(2) n(3)] s'(2,3) c by simp
    qed
    then show ?thesis by (simp add: e n(4))
  qed
qed

lemma us_addAll_string_to:
  assumes "us_ok s" "units_ok (units t)"
  shows "us_to (roomy h) (us_addAll_string h t s) s (us_codes s \<union> set (cps (units t))) (us_strs s)"
  using us_addAll_loop_to [OF assms, of 0 h] by (simp add: us_addAll_string_def boundary_def)

section \<open>Constructors\<close>

text \<open>A set that a constructor has made.\<close>

definition us_made :: "'ss uset \<Rightarrow> int set \<Rightarrow> bool" where
  "us_made s C \<longleftrightarrow> us_ok s \<and> \<not> isFrozen s \<and> \<not> us_bogus s \<and> us_codes s = C \<and> us_strs s = {}"

lemma us_to_made:
  assumes "us_to True r s C S" "us_made s C'" "S = {}"
  shows "\<exists>s'. r = Some s' \<and> us_made s' C"
  using assms by (auto simp: us_to_def us_made_def isFrozen_def split: if_splits)

lemma us_construct_roomy:
  assumes "roomy h"
  shows "\<exists>s. us_construct h fill = fill s \<and> us_made s {}"
proof -
  obtain v where v: "allocateStrings h U_ZERO_ERROR (us_blank 1 (1 + GROW_EXTRA)) =
      (True, U_ZERO_ERROR, (us_blank 1 (1 + GROW_EXTRA) :: 'a uset)\<lparr>us_strings := Some v\<rparr>)"
    "uv_ok v" "uv_list v = []" "uv_deleter v" "uv_comparer v = Some (=)"
    using assms uv_new_ok [of "hs h" True "Some uhash_compareUnicodeString" 1 U_ZERO_ERROR]
    by (auto simp: allocateStrings_def roomy_def uv_new_def uv_init_def uhash_compare_eq Let_def)
  obtain cs where cs: "us_realloc h None 17 = Some cs" "length cs = 17"
    using assms by (auto simp: us_realloc_def roomy_def)
  let ?s = "(us_blank 1 17 :: 'a uset)\<lparr>us_strings := Some v, us_list := Some (cs[0 := UNICODESET_HIGH])\<rparr>"
  have t: "take (Suc 0) (cs[0 := UNICODESET_HIGH]) = [UNICODESET_HIGH]" using cs(2) by (cases cs) auto
  have "us_construct h fill = fill ?s"
    using v(1) cs by (simp add: us_construct_def us_write_def us_blank_def)
  moreover have "us_made ?s {}"
    using v(2-5) cs(2) t
    by (auto simp: us_made_def us_blank_def us_ok_def isFrozen_def us_codes_def us_used_def us_strs_def strings_ok_def)
  ultimately show ?thesis by blast
qed

lemma us_new_roomy: "roomy h \<Longrightarrow> \<exists>s. us_new h = Some s \<and> us_made s {}"
  using us_construct_roomy [of h Some] by (simp add: us_new_def)

lemma us_new_range_roomy: "roomy h \<Longrightarrow> \<exists>s. us_new_range h start end = Some s \<and> us_made s (pinned start end)"
proof -
  assume h: "roomy h"
  then obtain s :: "'a uset" where s: "us_new_range h start end = us_complement_range h start end s" "us_made s {}"
    using us_construct_roomy [of h "us_complement_range h start end"] by (auto simp: us_new_range_def)
  then have ok: "us_ok s" "us_codes s = {}" "us_strs s = {}" by (simp_all add: us_made_def)
  from us_complement_range_to [OF ok(1), of h start "end"] h ok(2,3)
  have "us_to True (us_complement_range h start end s) s (pinned start end) {}" by simp
  from us_to_made [OF this s(2) refl] s(1) show ?thesis by simp
qed

text \<open>\<open>retainAll\<close>, \<open>removeAll\<close> and \<open>complementAll\<close> of the code points of a string.\<close>

lemma us_string_set:
  assumes "roomy h" "units_ok (units t)"
  shows "\<exists>c. do { c \<leftarrow> us_new h; us_addAll_string h t c } = Some c \<and> us_made c (set (cps (units t)))"
proof -
  obtain c0 :: "'a uset" where c0: "us_new h = Some c0" "us_made c0 {}" using us_new_roomy [OF assms(1)] by blast
  then have ok: "us_ok c0" "us_codes c0 = {}" "us_strs c0 = {}" by (simp_all add: us_made_def)
  from us_addAll_string_to [OF ok(1) assms(2), of h] assms(1) ok(2,3)
  have "us_to True (us_addAll_string h t c0) c0 (set (cps (units t))) {}" by simp
  from us_to_made [OF this c0(2) refl] c0(1) show ?thesis by simp
qed

lemma us_with_string_eq:
  fixes s :: "'ss uset"
  assumes "roomy h" "units_ok (units t)"
  obtains c :: "'ss uset" where "us_with_string h t f s = f h c s" "us_ok c" "us_codes c = set (cps (units t))" "us_strs c = {}"
proof -
  obtain c :: "'ss uset" where c: "do { c \<leftarrow> us_new h; us_addAll_string h t c } = Some c" "us_made c (set (cps (units t)))"
    using us_string_set [OF assms] by blast
  have "us_with_string h t f s = do { c \<leftarrow> us_new h; us_addAll_string h t c } \<bind> (\<lambda>c. f h c s)"
    by (simp add: us_with_string_def)
  with c that [of c] show thesis by (simp add: us_made_def)
qed

text \<open>
  A constructor that cannot allocate the vector of strings returns with neither vector nor
  list, and with a set that is not marked bogus; one that cannot allocate the list marks the
  set bogus. Adding a code point to either follows the null pointer.
\<close>

lemma us_new_out_of_memory:
  assumes "\<not> hn h \<or> (can_alloc (hs h) = (\<lambda>_. True) \<and> can_alloc (hl h) = (\<lambda>_. False))"
  shows "\<exists>s :: 'ss uset. us_new h = Some s \<and> us_list s = None \<and> us_bogus s = hn h \<and>
    us_add_cp h' c s = None"
proof (cases "hn h")
  case False
  then show ?thesis
    by (simp add: us_new_def us_construct_def allocateStrings_def us_blank_def us_add_cp_def us_used_def)
next
  case True
  then have a: "can_alloc (hs h) = (\<lambda>_. True)" "can_alloc (hl h) = (\<lambda>_. False)" using assms by auto
  obtain v where v: "allocateStrings h U_ZERO_ERROR (us_blank 1 (1 + GROW_EXTRA)) =
      (True, U_ZERO_ERROR, (us_blank 1 (1 + GROW_EXTRA) :: 'ss uset)\<lparr>us_strings := Some v\<rparr>)" "uv_ok v"
    using True a(1) uv_new_ok [of "hs h" True "Some uhash_compareUnicodeString" 1 U_ZERO_ERROR]
    by (auto simp: allocateStrings_def uv_new_def uv_init_def Let_def)
  obtain v' where "uv_removeAllElements v = Some v'" using uv_removeAllElements_spec [OF v(2)] by blast
  then show ?thesis
    using v(1) a(2) True
    by (simp add: us_new_def us_construct_def us_blank_def us_realloc_def uprv_realloc_def setToBogus_def
        us_clear_def isFrozen_def releasePattern_def Let_def us_add_cp_def us_used_def)
qed

section \<open>Assignment\<close>

lemma uv_ensureCapacity_fits:
  assumes "uv_ok v" "can_alloc h = (\<lambda>_. True)" "0 \<le> n" "n < 134217727"
  shows "\<exists>v'. uv_ensureCapacity h n v st = (True, v', st)"
  using assms uv_okD(1,2,3) [OF assms(1)] by (auto simp: uv_ensureCapacity_def Let_def)

lemma uv_setSize_fits:
  assumes "uv_ok v" "can_alloc h = (\<lambda>_. True)" "0 \<le> n" "n < 134217727" "uv_setSize h n v st = Some (v', st')"
  shows "st' = st"
  using uv_ensureCapacity_fits [OF assms(1-4), of st] assms(3,5)
  by (auto simp: uv_setSize_def bind_eq_Some_conv split: if_splits)

lemma uv_assign_fits:
  assumes "uv_ok v" "uv_ok w" "can_alloc h = (\<lambda>_. True)" "uv_count w < 134217727"
    "uv_assign h asg w v st = Some (v', st')"
  shows "st' = st"
proof -
  obtain v1 where v1: "uv_ensureCapacity h (uv_count w) v st = (True, v1, st)"
    using uv_ensureCapacity_fits [OF assms(1,3) uv_okD(1) [OF assms(2)] assms(4)] by blast
  have "uv_ok v1" using uv_ensureCapacity_spec(1) [OF assms(1) v1] .
  from uv_setSize_fits [OF this assms(3) uv_okD(1) [OF assms(2)] assms(4), of st] assms(5) v1
  show ?thesis by (auto simp: uv_assign_def bind_eq_Some_conv split: if_splits)
qed

text \<open>With memory for the clones, the strings are copied.\<close>

lemma strings_assigned:
  assumes "strings_ok v" "strings_ok w" "roomy h" "uv_count w < 134217727"
  shows "\<exists>v'. uv_assign (hs h) (cloneUnicodeString h) w v U_ZERO_ERROR = Some (v', U_ZERO_ERROR) \<and>
    strings_ok v' \<and> uv_list v' = uv_list w"
proof -
  have ok: "uv_ok v" "uv_ok w" using assms(1,2) by (simp_all add: strings_ok_def)
  have h: "can_alloc (hs h) = (\<lambda>_. True)" "hn h" using assms(3) by (simp_all add: roomy_def)
  obtain v' st' where v': "uv_assign (hs h) (cloneUnicodeString h) w v U_ZERO_ERROR = Some (v', st')" "uv_ok v'"
    "same_setup v v'" "U_FAILURE st' \<or> uv_list v' = map (cloneUnicodeString h) (uv_list w)"
    using uv_assign_spec [OF ok, of U_ZERO_ERROR "hs h" "cloneUnicodeString h"] by auto
  have "st' = U_ZERO_ERROR" using uv_assign_fits [OF ok h(1) assms(4) v'(1)] .
  moreover have "map (cloneUnicodeString h) xs = xs" for xs using h(2) by (induction xs) (simp_all add: cloneUnicodeString_def)
  ultimately have "uv_list v' = uv_list w" using v'(4) by simp
  moreover from this have "strings_ok v'"
    using assms(1,2) v'(2,3) by (auto simp: strings_ok_def same_setup_def)
  ultimately show ?thesis using v'(1) \<open>st' = U_ZERO_ERROR\<close> by simp
qed

lemma us_copy_pattern_sel [simp]:
  "us_list (us_copy_pattern h c s) = us_list s" "us_len (us_copy_pattern h c s) = us_len s"
  "us_capacity (us_copy_pattern h c s) = us_capacity s" "us_buffer (us_copy_pattern h c s) = us_buffer s"
  "us_bufferCapacity (us_copy_pattern h c s) = us_bufferCapacity s" "us_bmpSet (us_copy_pattern h c s) = us_bmpSet s"
  "us_strings (us_copy_pattern h c s) = us_strings s" "us_stringSpan (us_copy_pattern h c s) = us_stringSpan s"
  "us_bogus (us_copy_pattern h c s) = us_bogus s"
  by (simp_all add: us_copy_pattern_def setPattern_def releasePattern_def Let_def split: option.split)

text \<open>
  \<open>*this = o\<close> for a set that is valid or freshly constructed: \<open>t\<close> has its list and its
  vector, whatever the list holds. The copy has the contents of \<open>o\<close> and is frozen as \<open>o\<close> is.
\<close>

lemma us_assign_copies:
  fixes c s :: "'ss uset"
  assumes "us_ok c" "\<not> us_bogus c" "us_shape s" "\<not> isFrozen s" "\<not> us_bogus s" "roomy h" "few 0 c"
    and span: "\<And>p v. us_stringSpan c = Some p \<Longrightarrow> \<exists>q. copySpan p v = Some q"
  shows "\<exists>s'. us_assign h copySpan c s = Some s' \<and> us_ok s' \<and> \<not> us_bogus s' \<and>
    us_codes s' = us_codes c \<and> us_strs s' = us_strs c \<and> us_bmpSet s' = us_bmpSet c \<and>
    (us_stringSpan s' = None \<longleftrightarrow> us_stringSpan c = None)"
proof -
  obtain xs cs where c: "us_list c = Some cs" "us_used c = Some xs" "inv_list xs" "length xs = us_len c"
    "us_codes c = inv_set xs" "xs = take (us_len c) cs"
    using us_okE [OF assms(1)] by metis
  obtain w where w: "us_strings c = Some w" "strings_ok w" "us_strs c = {t. Some t \<in> set (uv_list w)}"
    using us_okE [OF assms(1)] by metis
  obtain cs0 v where s: "us_list s = Some cs0" "length cs0 = us_capacity s" "us_strings s = Some v" "strings_ok v"
    "\<And>b. us_buffer s = Some b \<Longrightarrow> length b = us_bufferCapacity s"
    using assms(3) by (auto simp: us_shape_def)
  show ?thesis
  proof (rule ensureCapacity_spec [OF assms(3) s(1) assms(4), of h "us_len c"])
    fix s' assume "\<not> roomy h"
    with assms(6) show ?thesis by simp
  next
    fix cap cs'
    assume r: "ensureCapacity h (us_len c) U_ZERO_ERROR s =
        Some (U_ZERO_ERROR, s\<lparr>us_list := Some cs', us_capacity := cap\<rparr>)" "length cs' = cap" "us_len c \<le> cap"
    let ?cs = "xs @ drop (us_len c) cs'"
    have l: "length ?cs = cap" "take (us_len c) ?cs = xs" using r(2,3) c(4) by simp_all
    have "uv_count w < 134217727" using strings_card [OF w(2)] w(3) assms(7) by (simp add: few_def)
    then obtain v' where v': "uv_assign (hs h) (cloneUnicodeString h) w v U_ZERO_ERROR = Some (v', U_ZERO_ERROR)"
      "strings_ok v'" "uv_list v' = uv_list w"
      using strings_assigned [OF s(4) w(2) assms(6)] by blast
    have b: "bs_list b = xs \<and> bmpset_ok b" if "us_bmpSet c = Some b" for b
      using assms(1) that c(1,6) by (auto simp: us_ok_def)
    have bc: "bmpset_copy b xs = b" if "us_bmpSet c = Some b" for b
      using b [OF that] by (simp add: bmpset_copy_def)
    have hn: "hn h" using assms(6) by (simp add: roomy_def)
    let ?s = "s\<lparr>us_list := Some ?cs, us_capacity := cap, us_len := us_len c, us_bmpSet := us_bmpSet c,
      us_strings := Some v'\<rparr>"
    have cl: "us_copy_list c (s\<lparr>us_list := Some cs', us_capacity := cap\<rparr>) =
        Some (s\<lparr>us_list := Some ?cs, us_capacity := cap, us_len := us_len c\<rparr>)"
      using c(2,4) r(2,3) by (simp add: us_copy_list_def)
    obtain p where p: "us_assign h copySpan c s =
        Some (us_copy_pattern h c (releasePattern (?s\<lparr>us_stringSpan := p\<rparr>)))"
      "p = None \<longleftrightarrow> us_stringSpan c = None"
    proof (cases "us_bmpSet c")
      case None
      show thesis
      proof (cases "us_stringSpan c")
        case n: None
        with None show thesis using assms(2,4) r(1) cl c(4) l s(3) w(1) v'(1)
          by (intro that [of None]) (simp_all add: us_assign_def us_used_def)
      next
        case (Some q)
        obtain q' where "copySpan q v' = Some q'" using span [OF Some] by blast
        with None Some show thesis using assms(2,4) r(1) cl c(4) l s(3) w(1) v'(1)
          by (intro that [of "Some q'"]) (simp_all add: us_assign_def us_used_def)
      qed
    next
      case bm: (Some b)
      show thesis
      proof (cases "us_stringSpan c")
        case n: None
        with bm show thesis using assms(2,4) r(1) cl c(4) l s(3) w(1) v'(1) hn bc [OF bm]
          by (intro that [of None]) (simp_all add: us_assign_def us_used_def)
      next
        case (Some q)
        obtain q' where "copySpan q v' = Some q'" using span [OF Some] by blast
        with bm Some show thesis using assms(2,4) r(1) cl c(4) l s(3) w(1) v'(1) hn bc [OF bm]
          by (intro that [of "Some q'"]) (simp_all add: us_assign_def us_used_def)
      qed
    qed
    let ?r = "us_copy_pattern h c (releasePattern (?s\<lparr>us_stringSpan := p\<rparr>))"
    have "us_ok ?r"
      using l c(3) r(3) s(5) v'(2) assms(5) b by (simp add: us_ok_def releasePattern_def)
    moreover have "us_codes ?r = us_codes c" using l c(5) r(3) by (simp add: us_codes_def us_used_def releasePattern_def)
    moreover have "us_strs ?r = us_strs c" using v'(3) w(3) by (simp add: us_strs_def releasePattern_def)
    ultimately show ?thesis using p assms(5) by (simp add: releasePattern_def)
  qed
qed

end
