(* ===== verification/USetCalls.thy ===== *)
theory USetCalls
  imports USetBuild
begin

text \<open>
  The public mutators of \<open>UnicodeSet\<close> as one interface: a call is a value, \<open>us_do\<close> runs the
  model of the code's function for it and \<open>set_do\<close> is what the call promises on the pair
  (code points, strings) the set stands for. The main result is the refinement: after any
  sequence of calls on a set that is not frozen, whatever allocations fail on the way, the
  set is well formed and either bogus or stands for exactly the abstract result; it is
  never bogus when memory suffices.
\<close>

section \<open>Compacting and dropping the strings\<close>

lemma us_len_pos: "us_ok s \<Longrightarrow> us_len s \<noteq> 0"
  by (elim us_okE) (auto simp: inv_list_def inv_tail_def)

lemma us_compact_to:
  assumes "us_ok s"
  shows "\<exists>s'. us_compact h s = Some s' \<and> us_ok s' \<and> us_bogus s' = us_bogus s \<and>
    us_codes s' = us_codes s \<and> us_strs s' = us_strs s \<and> isFrozen s' = isFrozen s \<and> us_pat s' = us_pat s"
proof (cases "isFrozen s \<or> us_bogus s \<or> \<not> us_len s < us_capacity s \<or> us_realloc h (us_list s) (us_len s) = None")
  case True
  have "us_codes (s\<lparr>us_buffer := None\<rparr>) = us_codes s" "us_strs (s\<lparr>us_buffer := None\<rparr>) = us_strs s"
    by (simp_all add: us_codes_def us_strs_def)
  moreover have "us_ok (s\<lparr>us_buffer := None\<rparr>)" using assms by (auto simp: us_ok_def)
  ultimately show ?thesis using True assms us_len_pos [OF assms]
    by (auto simp: us_compact_def Let_def)
next
  case False
  then obtain cs' where cs': "us_realloc h (us_list s) (us_len s) = Some cs'" by auto
  from assms obtain cs v xs where c: "us_list s = Some cs" "length cs = us_capacity s" "us_len s \<le> us_capacity s"
    "xs = take (us_len s) cs" "us_used s = Some xs" "inv_list xs" "length xs = us_len s"
    "us_codes s = inv_set xs" "us_strings s = Some v" "strings_ok v"
    by (elim us_okE) blast
  from us_realloc_Some(1) [OF cs'] c have cs'': "cs' = take (us_len s) cs"
    by (simp add: realloc_def)
  have n: "us_len s \<noteq> 0" by (rule us_len_pos [OF assms])
  let ?s = "s\<lparr>us_buffer := None, us_list := Some cs', us_capacity := us_len s\<rparr>"
  have "us_compact h s = Some ?s" using False cs' n by (simp add: us_compact_def)
  moreover have "us_used ?s = us_used s" using c cs'' by (simp add: us_used_def)
  moreover have "us_ok ?s" using assms c cs'' n by (auto simp: us_ok_def Suc_le_eq)
  ultimately show ?thesis using False by (simp add: us_codes_def us_strs_def)
qed

lemma us_removeAllStrings_ok:
  assumes "us_ok s"
  shows "\<exists>s'. us_removeAllStrings s = Some s' \<and> us_ok s' \<and> us_bogus s' = us_bogus s \<and>
    us_codes s' = us_codes s \<and> us_strs s' = {} \<and> isFrozen s' = isFrozen s \<and> us_pat s' = us_pat s"
proof -
  from assms obtain v where v: "us_strings s = Some v" "strings_ok v" by (elim us_okE) blast
  from strings_emptied [OF v(2)] obtain v' where v': "uv_removeAllElements v = Some v'" "strings_ok v'" "uv_list v' = []"
    by auto
  show ?thesis using us_ok_strings [OF assms v'(2)] v v' by (simp add: us_removeAllStrings_def)
qed

section \<open>The calls\<close>

datatype 'ss us_call =
    CallAdd int int | CallAddCp int | CallAddString ustr | CallAddChars ustr
  | CallRetain int int | CallRemove int int | CallRemoveString ustr
  | CallComplement int int | CallComplementAny | CallComplementString ustr
  | CallAddAll "'ss uset" | CallRetainAll "'ss uset" | CallRemoveAll "'ss uset" | CallComplementAll "'ss uset"
  | CallRemoveAllStrings | CallSet int int | CallClear | CallCompact

fun us_do :: "uheap \<Rightarrow> 'ss us_call \<Rightarrow> 'ss uset \<Rightarrow> 'ss uset option" where
  "us_do h (CallAdd a b) s = us_add h a b s"
| "us_do h (CallAddCp c) s = us_add_cp h c s"
| "us_do h (CallAddString t) s = us_add_string h t s"
| "us_do h (CallAddChars t) s = us_addAll_string h t s"
| "us_do h (CallRetain a b) s = us_retain h a b s"
| "us_do h (CallRemove a b) s = us_remove h a b s"
| "us_do h (CallRemoveString t) s = us_remove_string h t s"
| "us_do h (CallComplement a b) s = us_complement_range h a b s"
| "us_do h CallComplementAny s = us_complement h s"
| "us_do h (CallComplementString t) s = us_complement_string h t s"
| "us_do h (CallAddAll c) s = us_addAll h c s"
| "us_do h (CallRetainAll c) s = us_retainAll h c s"
| "us_do h (CallRemoveAll c) s = us_removeAll h c s"
| "us_do h (CallComplementAll c) s = us_complementAll h c s"
| "us_do h CallRemoveAllStrings s = us_removeAllStrings s"
| "us_do h (CallSet a b) s = us_set h a b s"
| "us_do h CallClear s = us_clear s"
| "us_do h CallCompact s = us_compact h s"

text \<open>What a call promises on (code points, strings).\<close>

fun set_do :: "'ss us_call \<Rightarrow> int set \<times> ustr set \<Rightarrow> int set \<times> ustr set" where
  "set_do (CallAdd a b) (C, S) = (C \<union> pinned a b, S)"
| "set_do (CallAddCp c) (C, S) = (insert (pinCodePoint c) C, S)"
| "set_do (CallAddString t) (C, S) = (C \<union> str_codes t, S \<union> str_strs t)"
| "set_do (CallAddChars t) (C, S) = (C \<union> set (cps (units t)), S)"
| "set_do (CallRetain a b) (C, S) = (if pinCodePoint a \<le> pinCodePoint b then (C \<inter> pinned a b, S) else ({}, {}))"
| "set_do (CallRemove a b) (C, S) = (C - pinned a b, S)"
| "set_do (CallRemoveString t) (C, S) = (C - str_codes t, S - str_strs t)"
| "set_do (CallComplement a b) (C, S) = (sym_diff C (pinned a b), S)"
| "set_do CallComplementAny (C, S) = ({0..<UNICODESET_HIGH} - C, S)"
| "set_do (CallComplementString t) (C, S) = (sym_diff C (str_codes t), str_diff S (str_strs t))"
| "set_do (CallAddAll c) (C, S) = (C \<union> us_codes c, S \<union> us_strs c)"
| "set_do (CallRetainAll c) (C, S) = (C \<inter> us_codes c, S \<inter> us_strs c)"
| "set_do (CallRemoveAll c) (C, S) = (C - us_codes c, S - us_strs c)"
| "set_do (CallComplementAll c) (C, S) = (sym_diff C (us_codes c), str_diff S (us_strs c))"
| "set_do CallRemoveAllStrings (C, S) = (C, {})"
| "set_do (CallSet a b) (C, S) = (pinned a b, {})"
| "set_do CallClear (C, S) = ({}, {})"
| "set_do CallCompact (C, S) = (C, S)"

text \<open>
  Legal arguments: strings of 16-bit code units, sets that are well formed (they may be
  frozen or bogus). The strings a call can add at most.
\<close>

fun call_ok :: "'ss us_call \<Rightarrow> bool" where
  "call_ok (CallAddString t) = units_ok (units t)"
| "call_ok (CallAddChars t) = units_ok (units t)"
| "call_ok (CallRemoveString t) = units_ok (units t)"
| "call_ok (CallComplementString t) = units_ok (units t)"
| "call_ok (CallAddAll c) = us_ok c"
| "call_ok (CallRetainAll c) = us_ok c"
| "call_ok (CallRemoveAll c) = us_ok c"
| "call_ok (CallComplementAll c) = us_ok c"
| "call_ok _ = True"

fun call_strings :: "'ss us_call \<Rightarrow> nat" where
  "call_strings (CallAddString t) = 1"
| "call_strings (CallComplementString t) = 1"
| "call_strings (CallAddAll c) = card (us_strs c)"
| "call_strings (CallComplementAll c) = card (us_strs c)"
| "call_strings _ = 0"

text \<open>The calls whose result does not depend on the set: they also revive a bogus one.\<close>

fun resets :: "'ss us_call \<Rightarrow> bool" where
  "resets (CallRetain a b) \<longleftrightarrow> pinCodePoint b < pinCodePoint a"
| "resets (CallSet a b) \<longleftrightarrow> True"
| "resets CallClear \<longleftrightarrow> True"
| "resets _ \<longleftrightarrow> False"

definition us_abs :: "'ss uset \<Rightarrow> int set \<times> ustr set" where
  "us_abs s = (us_codes s, us_strs s)"

lemma set_do_resets: "resets c \<Longrightarrow> set_do c A = set_do c B"
  by (cases A; cases B; cases c) auto

text \<open>One call on a set: the state it leaves.\<close>

definition steps_to :: "uheap \<Rightarrow> 'ss us_call \<Rightarrow> 'ss uset \<Rightarrow> 'ss uset \<Rightarrow> bool" where
  "steps_to h c s s' \<longleftrightarrow> us_ok s' \<and> \<not> isFrozen s' \<and>
     (us_bogus s' \<or> us_abs s' = set_do c (us_abs s) \<and> (us_bogus s \<longrightarrow> resets c)) \<and>
     (\<not> us_bogus s \<and> roomy h \<and> few (call_strings c) s \<longrightarrow> \<not> us_bogus s') \<and>
     (c \<noteq> CallRemoveAllStrings \<longrightarrow> fresh_pat s s')"

lemma fresh_pat_refl [simp]: "fresh_pat s s"
  by (simp add: fresh_pat_def)

lemma us_to_steps:
  assumes "us_to room (us_do h c s) s (fst (set_do c (us_abs s))) (snd (set_do c (us_abs s)))"
    "\<not> isFrozen s" "roomy h \<Longrightarrow> few (call_strings c) s \<Longrightarrow> room"
  shows "\<exists>s'. us_do h c s = Some s' \<and> steps_to h c s s'"
proof -
  from assms(1) obtain s' where s': "us_do h c s = Some s'" "us_ok s'" "us_bmpSet s' = us_bmpSet s"
    "us_stringSpan s' = us_stringSpan s" "fresh_pat s s'" "if isFrozen s \<or> us_bogus s then s' = s
         else if us_bogus s' then \<not> room else us_codes s' = fst (set_do c (us_abs s)) \<and> us_strs s' = snd (set_do c (us_abs s))"
    unfolding us_to_def by blast
  from s'(3,4) assms(2) have "\<not> isFrozen s'" by (simp add: isFrozen_def)
  with s' assms(2,3) show ?thesis by (auto simp: steps_to_def us_abs_def prod_eq_iff split: if_splits)
qed

lemma us_emptied_steps:
  assumes "us_emptied s s'" "\<not> isFrozen s" "resets c" "set_do c (us_abs s) = ({}, {})"
  shows "steps_to h c s s'"
  using assms by (auto simp: steps_to_def us_emptied_def us_abs_def isFrozen_def fresh_pat_def)

lemma us_set_steps:
  fixes s :: "'ss uset"
  assumes "us_ok s" "\<not> isFrozen s"
  shows "\<exists>s'. us_do h (CallSet a b) s = Some s' \<and> steps_to h (CallSet a b) s s'"
proof -
  from us_clear_spec [OF us_ok_shape [OF assms(1)] assms(2)] obtain t where t: "us_clear s = Some t" "us_emptied s t"
    by blast
  then have e: "us_ok t" "\<not> us_bogus t" "us_codes t = {}" "us_strs t = {}" "\<not> isFrozen t" "us_pat t = None"
    using assms(2) by (simp_all add: us_emptied_def isFrozen_def)
  with us_to_steps [where h = h and c = "CallComplement a b", OF _ e(5), of "roomy h"] us_complement_range_to [OF e(1), of h a b]
  obtain s' where "us_complement_range h a b t = Some s'" "steps_to h (CallComplement a b) t s'"
    by (auto simp: us_abs_def)
  with t e show ?thesis by (auto simp: us_set_def steps_to_def us_abs_def few_def fresh_pat_def)
qed

lemma str_cases:
  assumes "units_ok (units t)" "us_ok s" "\<not> isFrozen s"
    "ustr_length t \<noteq> 0 \<Longrightarrow> us_to room (us_do h c s) s (fst (set_do c (us_abs s))) (snd (set_do c (us_abs s)))"
    "ustr_length t = 0 \<Longrightarrow> us_do h c s = Some s \<and> set_do c (us_abs s) = us_abs s"
    "roomy h \<Longrightarrow> few (call_strings c) s \<Longrightarrow> room"
  shows "\<exists>s'. us_do h c s = Some s' \<and> steps_to h c s s'"
proof (cases "ustr_length t = 0")
  case True
  with assms show ?thesis by (auto simp: steps_to_def)
qed (use us_to_steps assms in blast)

lemma few_mono: "few n s \<Longrightarrow> m \<le> n \<Longrightarrow> few m s"
  by (simp add: few_def)

lemma str_none [simp]: "ustr_length t = 0 \<Longrightarrow> str_codes t = {}" "ustr_length t = 0 \<Longrightarrow> str_strs t = {}"
  by (simp_all add: ustr_length_def str_codes_def str_strs_def)

theorem us_step:
  fixes s :: "'ss uset"
  assumes "us_ok s" "\<not> isFrozen s" "call_ok c"
  shows "\<exists>s'. us_do h c s = Some s' \<and> steps_to h c s s'"
proof (cases c)
  case (CallAdd a b)
  with us_to_steps [OF _ assms(2), of "roomy h" h c] us_add_to [OF assms(1), of h a b] show ?thesis by (simp add: us_abs_def)
next
  case (CallAddCp x)
  with us_to_steps [OF _ assms(2), of "roomy h" h c] us_add_cp_to [OF assms(1), of h x] show ?thesis by (simp add: us_abs_def)
next
  case (CallAddString t)
  show ?thesis
    by (rule str_cases [of t s "roomy h \<and> few 0 s"])
      (use us_add_string_to [OF assms(1)] assms CallAddString in \<open>auto simp: us_abs_def us_add_string_def few_def\<close>)
next
  case (CallAddChars t)
  with us_to_steps [OF _ assms(2), of "roomy h" h c] us_addAll_string_to [OF assms(1), of t h] assms(3) show ?thesis
    by (simp add: us_abs_def)
next
  case (CallRetain a b)
  show ?thesis
  proof (cases "pinCodePoint a \<le> pinCodePoint b")
    case True
    with us_to_steps [OF _ assms(2), of "roomy h" h c] us_retain_to [OF assms(1), of a b h] CallRetain show ?thesis
      by (simp add: us_abs_def)
  next
    case False
    with us_retain_empty [OF assms(1,2), of b a h] obtain s' where s': "us_retain h a b s = Some s'" "us_emptied s s'" by auto
    with us_emptied_steps [OF s'(2) assms(2), of c h] CallRetain False show ?thesis by (auto simp: us_abs_def)
  qed
next
  case (CallRemove a b)
  with us_to_steps [OF _ assms(2), of "roomy h" h c] us_remove_to [OF assms(1), of h a b] show ?thesis by (simp add: us_abs_def)
next
  case (CallRemoveString t)
  show ?thesis
    by (rule str_cases [of t s "roomy h"])
      (use us_remove_string_to [OF assms(1)] assms CallRemoveString in \<open>auto simp: us_abs_def us_remove_string_def\<close>)
next
  case (CallComplement a b)
  with us_to_steps [OF _ assms(2), of "roomy h" h c] us_complement_range_to [OF assms(1), of h a b] show ?thesis
    by (simp add: us_abs_def)
next
  case CallComplementAny
  with us_to_steps [OF _ assms(2), of "roomy h" h c] us_complement_to [OF assms(1), of h] show ?thesis by (simp add: us_abs_def)
next
  case (CallComplementString t)
  show ?thesis
    by (rule str_cases [of t s "roomy h \<and> few 0 s"])
      (use us_complement_string_to [OF assms(1)] assms CallComplementString in
        \<open>auto simp: us_abs_def us_complement_string_def few_def str_diff_def\<close>)
next
  case (CallAddAll d)
  with us_to_steps [OF _ assms(2), of "roomy h \<and> few (card (us_strs d)) s" h c] us_addAll_to [OF assms(1), of d h] assms(3)
  show ?thesis by (simp add: us_abs_def)
next
  case (CallRetainAll d)
  with us_to_steps [OF _ assms(2), of "roomy h" h c] us_retainAll_to [OF assms(1), of d h] assms(3)
  show ?thesis by (simp add: us_abs_def)
next
  case (CallRemoveAll d)
  with us_to_steps [OF _ assms(2), of "roomy h" h c] us_removeAll_to [OF assms(1), of d h] assms(3)
  show ?thesis by (simp add: us_abs_def)
next
  case (CallComplementAll d)
  with us_to_steps [OF _ assms(2), of "roomy h \<and> few (card (us_strs d)) s" h c] us_complementAll_to [OF assms(1), of d h] assms(3)
  show ?thesis by (simp add: us_abs_def)
next
  case CallRemoveAllStrings
  with us_removeAllStrings_ok [OF assms(1)] assms show ?thesis by (auto simp: steps_to_def us_abs_def)
next
  case (CallSet a b)
  with us_set_steps [OF assms(1,2), of h a b] show ?thesis by simp
next
  case CallClear
  with us_clear_spec [OF us_ok_shape [OF assms(1)] assms(2)] us_emptied_steps [OF _ assms(2), of _ c h] show ?thesis
    by (fastforce simp: us_abs_def)
next
  case CallCompact
  with us_compact_to [OF assms(1), of h] assms show ?thesis by (auto simp: steps_to_def us_abs_def fresh_pat_def)
qed

section \<open>Sequences of calls\<close>

text \<open>Each call runs against the state of the allocator at that moment.\<close>

fun us_run :: "(uheap \<times> 'ss us_call) list \<Rightarrow> 'ss uset \<Rightarrow> 'ss uset option" where
  "us_run [] s = Some s"
| "us_run ((h, c) # cs) s = (case us_do h c s of None \<Rightarrow> None | Some s \<Rightarrow> us_run cs s)"

fun set_run :: "(uheap \<times> 'ss us_call) list \<Rightarrow> int set \<times> ustr set \<Rightarrow> int set \<times> ustr set" where
  "set_run [] A = A"
| "set_run ((h, c) # cs) A = set_run cs (set_do c A)"

definition calls_ok :: "(uheap \<times> 'ss us_call) list \<Rightarrow> bool" where
  "calls_ok cs \<longleftrightarrow> list_all (\<lambda>(h, c). call_ok c) cs"

definition calls_roomy :: "(uheap \<times> 'ss us_call) list \<Rightarrow> bool" where
  "calls_roomy cs \<longleftrightarrow> list_all (\<lambda>(h, c). roomy h) cs"

definition calls_strings :: "(uheap \<times> 'ss us_call) list \<Rightarrow> nat" where
  "calls_strings cs = sum_list (map (\<lambda>(h, c). call_strings c) cs)"

lemma str_strs_card: "finite (str_strs t)" "card (str_strs t) \<le> 1"
  by (simp_all add: str_strs_def)

lemma card_Un_bound: "finite A \<Longrightarrow> finite B \<Longrightarrow> card (A \<union> B) \<le> card A + card B"
  by (rule card_Un_le)

lemma card_diff_bound:
  assumes "finite A" "finite B"
  shows "finite (str_diff A B)" "card (str_diff A B) \<le> card A + card B"
proof -
  have "str_diff A B \<subseteq> A \<union> B" by (auto simp: str_diff_def)
  from card_mono [OF _ this] assms card_Un_le [of A B] show "card (str_diff A B) \<le> card A + card B" by auto
qed (use assms in \<open>simp add: str_diff_def\<close>)

lemma set_do_card:
  assumes "finite S" "call_ok c"
  shows "finite (snd (set_do c (C, S))) \<and> card (snd (set_do c (C, S))) \<le> card S + call_strings c"
proof (cases c)
  case (CallAddString t)
  with assms card_Un_le [of S "str_strs t"] str_strs_card [of t] show ?thesis by simp
next
  case (CallComplementString t)
  with assms card_diff_bound [of S "str_strs t"] str_strs_card [of t] show ?thesis by simp
next
  case (CallAddAll d)
  with assms card_Un_le [of S "us_strs d"] us_strs_finite [of d] show ?thesis by simp
next
  case (CallComplementAll d)
  with assms card_diff_bound [of S "us_strs d"] us_strs_finite [of d] show ?thesis by simp
next
  case (CallRetainAll d)
  with assms show ?thesis by (simp add: card_mono)
qed (use assms in \<open>auto intro: card_mono\<close>)

lemma us_run_from:
  fixes s :: "'ss uset"
  assumes "us_ok s" "\<not> isFrozen s" "calls_ok cs" "us_bogus s \<or> us_abs s = A"
  shows "\<exists>s'. us_run cs s = Some s' \<and> us_ok s' \<and> \<not> isFrozen s' \<and> (us_bogus s' \<or> us_abs s' = set_run cs A) \<and>
    (\<not> us_bogus s \<and> calls_roomy cs \<and> card (us_strs s) + calls_strings cs < 134217727 \<longrightarrow> \<not> us_bogus s')"
  using assms
proof (induction cs arbitrary: s A)
  case (Cons hc cs)
  obtain h c where hc: "hc = (h, c)" by (cases hc)
  from Cons.prems(3) hc have ok: "call_ok c" "calls_ok cs" by (simp_all add: calls_ok_def)
  from us_step [OF Cons.prems(1,2) ok(1), of h] obtain t where t: "us_do h c s = Some t" "steps_to h c s t" by blast
  have A: "us_bogus t \<or> us_abs t = set_do c A"
    using t(2) Cons.prems(4) set_do_resets [of c "us_abs s" A] by (auto simp: steps_to_def)
  have t': "us_ok t" "\<not> isFrozen t" using t(2) by (simp_all add: steps_to_def)
  from Cons.IH [OF t' ok(2) A] obtain s' where s': "us_run cs t = Some s'" "us_ok s'" "\<not> isFrozen s'"
    "us_bogus s' \<or> us_abs s' = set_run cs (set_do c A)"
    "\<not> us_bogus t \<and> calls_roomy cs \<and> card (us_strs t) + calls_strings cs < 134217727 \<longrightarrow> \<not> us_bogus s'"
    by blast
  have "\<not> us_bogus s'"
    if "\<not> us_bogus s" "calls_roomy (hc # cs)" "card (us_strs s) + calls_strings (hc # cs) < 134217727"
  proof -
    from that hc have r: "roomy h" "calls_roomy cs" "few (call_strings c) s"
      by (simp_all add: calls_roomy_def calls_strings_def few_def)
    with t(2) that(1) have nb: "\<not> us_bogus t" by (simp add: steps_to_def)
    with t(2) have "us_strs t = snd (set_do c (us_codes s, us_strs s))" by (auto simp: steps_to_def us_abs_def prod_eq_iff)
    with set_do_card [OF us_strs_finite [OF Cons.prems(1)] ok(1)] have "card (us_strs t) \<le> card (us_strs s) + call_strings c"
      by simp
    with s'(5) nb r that(3) hc show ?thesis by (simp add: calls_strings_def)
  qed
  with s' t hc show ?case by auto
qed simp

lemma us_frozen_same:
  fixes s :: "'ss uset"
  assumes "us_ok s" "isFrozen s" "call_ok c" "c \<noteq> CallRemoveAllStrings"
  shows "us_do h c s = Some s"
proof -
  have same: "us_to room r s C S \<Longrightarrow> r = Some s" for room r C S
    using assms(2) by (auto simp: us_to_def)
  have "ustr_length t = 0 \<or> ustr_length t \<noteq> 0" for t by simp
  show ?thesis
    using assms same [OF us_add_to] same [OF us_add_cp_to] same [OF us_addAll_string_to] same [OF us_remove_to]
      same [OF us_addAll_to]
    by (cases c) (auto simp: us_add_string_def us_remove_string_def us_complement_string_def us_retain_def Let_def us_clear_def
        us_retain_list_def us_remove_def us_complement_range_def us_complement_def us_retainAll_def us_removeAll_def
        us_complementAll_def us_set_def us_compact_def)
qed

section \<open>Sample sets\<close>

text \<open>The set with a given inversion list and given strings, used to instantiate the theorems.\<close>

definition set_of :: "int list \<Rightarrow> ustr list \<Rightarrow> unit uset" where
  "set_of xs ss =
     \<lparr>us_len = length xs, us_capacity = length xs, us_list = Some xs, us_bmpSet = None, us_buffer = None,
      us_bufferCapacity = 0, us_pat = None,
      us_strings = Some \<lparr>uv_count = int (length ss), uv_capacity = int (length ss), uv_elements = map Some ss,
        uv_deleter = True, uv_comparer = Some uhash_compareUnicodeString, uv_deleted = []\<rparr>,
      us_stringSpan = None, us_bogus = False\<rparr>"

lemma set_of_ok:
  assumes "inv_list xs" "ssorted ss" "list_all str_ok ss" "length ss < 134217727"
  shows "us_ok (set_of xs ss)" "us_codes (set_of xs ss) = inv_set xs" "us_strs (set_of xs ss) = set ss"
    "\<not> isFrozen (set_of xs ss)" "\<not> us_bogus (set_of xs ss)"
proof -
  let ?v = "\<lparr>uv_count = int (length ss), uv_capacity = int (length ss), uv_elements = map Some ss,
        uv_deleter = True, uv_comparer = Some uhash_compareUnicodeString, uv_deleted = []\<rparr>"
  have l: "uv_list ?v = map Some ss" by (simp add: uv_list_def)
  have "strings_ok ?v"
    using assms l by (intro strings_okI [of _ ss]) (simp_all add: uv_ok_def uhash_compare_eq)
  then show "us_ok (set_of xs ss)" using assms by (simp add: us_ok_def set_of_def)
  show "us_codes (set_of xs ss) = inv_set xs" by (simp add: us_codes_def us_used_def set_of_def)
  show "us_strs (set_of xs ss) = set ss" using l by (auto simp: us_strs_def set_of_def)
  show "\<not> isFrozen (set_of xs ss)" "\<not> us_bogus (set_of xs ss)" by (simp_all add: set_of_def isFrozen_def)
qed

definition ample :: uheap where
  "ample = \<lparr>hl = \<lparr>can_alloc = \<lambda>_. True, junk = \<lambda>_. 0\<rparr>, hs = \<lparr>can_alloc = \<lambda>_. True, junk = \<lambda>_. None\<rparr>, hn = True\<rparr>"

lemma ample_roomy [simp]: "roomy ample"
  by (simp add: roomy_def ample_def)

section \<open>The contract of the mutators\<close>

lemma us_result:
  fixes s :: "'ss uset"
  assumes "us_ok s" "\<not> isFrozen s" "\<not> us_bogus s" "call_ok c"
  shows "\<exists>s'. us_do h c s = Some s' \<and> us_ok s' \<and> \<not> isFrozen s' \<and>
    (us_bogus s' \<or> us_codes s' = fst (set_do c (us_codes s, us_strs s)) \<and>
       us_strs s' = snd (set_do c (us_codes s, us_strs s))) \<and>
    (roomy h \<and> few (call_strings c) s \<longrightarrow> \<not> us_bogus s')"
proof -
  from us_step [OF assms(1,2,4), of h] obtain s' where "us_do h c s = Some s'" "steps_to h c s s'" by blast
  then show ?thesis using assms(3) by (auto simp: steps_to_def us_abs_def prod_eq_iff)
qed

lemma sample_sets [simp]:
  "us_ok (set_of [1114112] [])" "us_codes (set_of [1114112] []) = {}" "us_strs (set_of [1114112] []) = {}"
  "\<not> isFrozen (set_of xs ss)" "\<not> us_bogus (set_of xs ss)"
  "us_ok (set_of [97, 123, 1114112] [])" "us_codes (set_of [97, 123, 1114112] []) = {97..122}"
  "us_strs (set_of [97, 123, 1114112] []) = {}"
  "us_ok (set_of [65, 91, 1114112] [UStr [99, 104]])" "us_codes (set_of [65, 91, 1114112] [UStr [99, 104]]) = {65..90}"
  "us_strs (set_of [65, 91, 1114112] [UStr [99, 104]]) = {UStr [99, 104]}"
proof -
  have l: "inv_list [1114112]" "inv_list [97, 123, 1114112]" "inv_list [65, 91, 1114112]"
    by (simp_all add: inv_list_def inv_tail_def)
  have c: "inv_set [97, 123, 1114112] = {97..122}" "inv_set [65, 91, 1114112] = {65..90}"
    by (auto simp: inv_set_def split: if_splits)
  have t: "ssorted [UStr [99, 104]]" "list_all str_ok [UStr [99, 104]]"
    by (simp_all add: str_ok_def u16_is_lead_def)
  show "us_ok (set_of [1114112] [])" "us_codes (set_of [1114112] []) = {}" "us_strs (set_of [1114112] []) = {}"
    "\<not> isFrozen (set_of xs ss)" "\<not> us_bogus (set_of xs ss)"
    "us_ok (set_of [97, 123, 1114112] [])" "us_codes (set_of [97, 123, 1114112] []) = {97..122}"
    "us_strs (set_of [97, 123, 1114112] []) = {}"
    using set_of_ok [OF l(1), of "[]"] set_of_ok [OF l(2), of "[]"] c
    by (simp_all add: isFrozen_def set_of_def)
  show "us_ok (set_of [65, 91, 1114112] [UStr [99, 104]])"
    "us_codes (set_of [65, 91, 1114112] [UStr [99, 104]]) = {65..90}"
    "us_strs (set_of [65, 91, 1114112] [UStr [99, 104]]) = {UStr [99, 104]}"
    using set_of_ok [OF l(3) t] c by simp_all
qed

text \<open>C1: Any sequence of calls of the public mutators (ranges, code points, strings, other
  sets, complements, clear, compact, set) on a well-formed set that is neither frozen nor bogus
  runs to its end without touching memory outside the set's arrays, whatever allocations fail,
  and leaves a well-formed set that is bogus or stands for exactly the code points and strings
  the calls promise; with enough memory it is never bogus.\<close>

theorem unicodeset_calls_refine:
  fixes s :: "'ss uset"
  assumes "us_ok s" "\<not> isFrozen s" "\<not> us_bogus s" "calls_ok cs"
  shows "\<exists>s'. us_run cs s = Some s' \<and> us_ok s' \<and> (us_bogus s' \<or> us_abs s' = set_run cs (us_abs s)) \<and>
    (calls_roomy cs \<and> card (us_strs s) + calls_strings cs < 134217727 \<longrightarrow> \<not> us_bogus s')"
  using us_run_from [OF assms(1,2,4), of "us_abs s"] assms(3) by auto

theorem unicodeset_calls_refine_witness:
  "\<exists>s'. us_run [(ample, CallAdd 97 122), (ample, CallRemove 101 101), (ample, CallAddString (UStr [99, 104])),
      (ample, CallComplement 110 200), (ample, CallRetain 100 300)] (set_of [1114112] []) = Some s' \<and>
    \<not> us_bogus s' \<and> us_abs s' = ({100..109} - {101} \<union> {123..200}, {UStr [99, 104]})"
proof -
  let ?cs = "[(ample, CallAdd 97 122), (ample, CallRemove 101 101), (ample, CallAddString (UStr [99, 104])),
      (ample, CallComplement 110 200), (ample, CallRetain 100 300)]"
  have "set_run ?cs ({}, {}) = ({100..109} - {101} \<union> {123..200}, {UStr [99, 104]})"
    by (auto simp: pinned_def str_codes_def str_strs_def u16_is_lead_def)
  with unicodeset_calls_refine [of "set_of [1114112] []" ?cs] show ?thesis
    by (auto simp: calls_ok_def calls_roomy_def calls_strings_def us_abs_def)
qed

text \<open>C33: A frozen set is immutable: every mutator but \<open>removeAllStrings\<close> returns with
  the set exactly as it was, its cached pattern, arrays and strings included.\<close>

theorem unicodeset_frozen_unchanged:
  fixes s :: "'ss uset"
  assumes "us_ok s" "isFrozen s" "call_ok c" "c \<noteq> CallRemoveAllStrings"
  shows "us_do h c s = Some s"
  using assms by (rule us_frozen_same)

lemma us_span_pat_sel [simp]:
  "us_ok (s\<lparr>us_stringSpan := x\<rparr>) = us_ok s" "us_ok (s\<lparr>us_pat := p\<rparr>) = us_ok s"
  "us_codes (s\<lparr>us_stringSpan := x\<rparr>) = us_codes s" "us_codes (s\<lparr>us_pat := p\<rparr>) = us_codes s"
  "us_strs (s\<lparr>us_stringSpan := x\<rparr>) = us_strs s" "us_strs (s\<lparr>us_pat := p\<rparr>) = us_strs s"
  "isFrozen (s\<lparr>us_stringSpan := Some p'\<rparr>)"
  by (simp_all add: us_ok_def us_codes_def us_strs_def us_used_def isFrozen_def split: option.split)

theorem unicodeset_frozen_unchanged_witness:
  "us_do ample (CallAdd 0 1000) ((set_of [65, 91, 1114112] [UStr [99, 104]])\<lparr>us_stringSpan := Some ()\<rparr>) =
     Some ((set_of [65, 91, 1114112] [UStr [99, 104]])\<lparr>us_stringSpan := Some ()\<rparr>)"
  using unicodeset_frozen_unchanged
    [of "(set_of [65, 91, 1114112] [UStr [99, 104]])\<lparr>us_stringSpan := Some ()\<rparr>" "CallAdd 0 1000" ample]
  by simp

text \<open>\<open>removeAllStrings\<close> tests neither \<open>isFrozen\<close> nor the cached pattern: it empties
  the strings of a frozen set, which stays frozen with the span helper built for the old strings,
  and leaves the pattern that still lists them.\<close>

theorem unicodeset_removeAllStrings_frozen:
  fixes s :: "'ss uset"
  assumes "us_ok s" "isFrozen s"
  shows "\<exists>s'. us_removeAllStrings s = Some s' \<and> isFrozen s' \<and> us_strs s' = {} \<and> us_codes s' = us_codes s \<and>
    us_stringSpan s' = us_stringSpan s \<and> us_pat s' = us_pat s"
proof -
  have "us_removeAllStrings s = Some s' \<Longrightarrow> us_stringSpan s' = us_stringSpan s" for s'
    by (auto simp: us_removeAllStrings_def bind_eq_Some_conv)
  with us_removeAllStrings_ok [OF assms(1)] assms(2) show ?thesis by blast
qed

theorem unicodeset_removeAllStrings_frozen_witness:
  "\<exists>s'. us_removeAllStrings ((set_of [65, 91, 1114112] [UStr [99, 104]])\<lparr>us_stringSpan := Some ()\<rparr>) = Some s' \<and>
    us_strs s' = {} \<and>
    us_strs ((set_of [65, 91, 1114112] [UStr [99, 104]])\<lparr>us_stringSpan := Some ()\<rparr>) \<noteq> {}"
  using unicodeset_removeAllStrings_frozen
    [of "(set_of [65, 91, 1114112] [UStr [99, 104]])\<lparr>us_stringSpan := Some ()\<rparr>"]
  by auto

text \<open>C34: The cached pattern never outlives the contents it describes: after a mutator
  (other than \<open>removeAllStrings\<close>) it is gone, or it is the old one and the code points and
  strings are the old ones too.\<close>

theorem unicodeset_pattern_fresh:
  fixes s :: "'ss uset"
  assumes "us_ok s" "\<not> isFrozen s" "call_ok c" "c \<noteq> CallRemoveAllStrings"
  shows "\<exists>s'. us_do h c s = Some s' \<and>
    (us_pat s' = None \<or> us_pat s' = us_pat s \<and> us_codes s' = us_codes s \<and> us_strs s' = us_strs s)"
  using us_step [OF assms(1-3), of h] assms(4) by (auto simp: steps_to_def fresh_pat_def)

theorem unicodeset_pattern_fresh_witness:
  "\<exists>s'. us_do ample (CallAdd 48 57) ((set_of [97, 123, 1114112] [])\<lparr>us_pat := Some [91, 97, 45, 122, 93]\<rparr>) = Some s' \<and>
    (us_pat s' = None \<or> us_codes s' = {97..122})"
  using unicodeset_pattern_fresh
    [of "(set_of [97, 123, 1114112] [])\<lparr>us_pat := Some [91, 97, 45, 122, 93]\<rparr>" "CallAdd 48 57" ample]
  by auto

text \<open>\<open>add(c)\<close> pins \<open>c\<close> to 0..10FFFF and adds exactly that code point: in each of the
  shapes the list can have around it (extending a range on either side, joining two ranges, a
  new range of its own, the last code point) the list stays sorted and terminated.\<close>

theorem unicodeset_add_code_point:
  fixes s :: "'ss uset"
  assumes "us_ok s" "\<not> isFrozen s" "\<not> us_bogus s"
  shows "\<exists>s'. us_add_cp h c s = Some s' \<and> us_ok s' \<and>
    (us_bogus s' \<or> us_codes s' = insert (pinCodePoint c) (us_codes s) \<and> us_strs s' = us_strs s) \<and>
    (roomy h \<and> card (us_strs s) < 134217727 \<longrightarrow> \<not> us_bogus s')"
  using us_result [OF assms, of "CallAddCp c" h] by (auto simp: few_def)

theorem unicodeset_add_code_point_witness:
  "\<exists>s'. us_add_cp ample 123 (set_of [97, 123, 1114112] []) = Some s' \<and> us_codes s' = {97..123}"
proof -
  have "insert 123 {97..122} = {97..123::int}" by auto
  with unicodeset_add_code_point [of "set_of [97, 123, 1114112] []" ample 123] show ?thesis by auto
qed

text \<open>\<open>add(start, end)\<close> adds the pinned range, \<open>remove(start, end)\<close> removes it and
  \<open>complement(start, end)\<close> toggles it; an empty range changes nothing and the strings stay.\<close>

theorem unicodeset_range_calls:
  fixes s :: "'ss uset"
  assumes "us_ok s" "\<not> isFrozen s" "\<not> us_bogus s" "roomy h" "card (us_strs s) < 134217727"
  shows "(\<exists>s'. us_add h a b s = Some s' \<and> us_ok s' \<and> \<not> us_bogus s' \<and> us_strs s' = us_strs s \<and>
      us_codes s' = us_codes s \<union> {pinCodePoint a..pinCodePoint b}) \<and>
    (\<exists>s'. us_remove h a b s = Some s' \<and> us_ok s' \<and> \<not> us_bogus s' \<and> us_strs s' = us_strs s \<and>
      us_codes s' = us_codes s - {pinCodePoint a..pinCodePoint b}) \<and>
    (\<exists>s'. us_complement_range h a b s = Some s' \<and> us_ok s' \<and> \<not> us_bogus s' \<and> us_strs s' = us_strs s \<and>
      us_codes s' = (us_codes s - {pinCodePoint a..pinCodePoint b}) \<union> ({pinCodePoint a..pinCodePoint b} - us_codes s))"
  using us_result [OF assms(1-3), of "CallAdd a b" h] us_result [OF assms(1-3), of "CallRemove a b" h]
    us_result [OF assms(1-3), of "CallComplement a b" h] assms(4,5)
  by (auto simp: few_def pinned_def)

theorem unicodeset_range_calls_witness:
  "\<exists>s'. us_complement_range ample 110 200 (set_of [97, 123, 1114112] []) = Some s' \<and>
     us_codes s' = {97..109} \<union> {123..200}"
proof -
  have "({97..122} - {110..200}) \<union> ({110..200} - {97..122}) = {97..109} \<union> {123..200::int}" by auto
  with unicodeset_range_calls [of "set_of [97, 123, 1114112] []" ample 110 200] show ?thesis by auto
qed

text \<open>\<open>retain(start, end)\<close> with an empty range is not an intersection: it clears the
  set, its strings included, and it is the one ranged operation that turns a bogus set into a
  valid one.\<close>

theorem unicodeset_retain_empty_range:
  fixes s :: "'ss uset"
  assumes "us_ok s" "\<not> isFrozen s" "pinCodePoint b < pinCodePoint a"
  shows "\<exists>s'. us_retain h a b s = Some s' \<and> us_ok s' \<and> \<not> us_bogus s' \<and> us_codes s' = {} \<and> us_strs s' = {}"
  using us_retain_empty [OF assms, of h] by (auto simp: us_emptied_def)

theorem unicodeset_retain_empty_range_witness:
  "\<exists>s'. us_retain ample 98 97 (set_of [65, 91, 1114112] [UStr [99, 104]]) = Some s' \<and> us_strs s' = {}"
  using unicodeset_retain_empty_range [of "set_of [65, 91, 1114112] [UStr [99, 104]]" 97 98 ample] by auto

text \<open>\<open>complement()\<close> is the complement in 0..10FFFF and undoes itself; it keeps the
  strings.\<close>

theorem unicodeset_complement_twice:
  fixes s :: "'ss uset"
  assumes "us_ok s" "\<not> isFrozen s" "\<not> us_bogus s" "roomy h" "card (us_strs s) < 134217727"
  shows "\<exists>s' s''. us_complement h s = Some s' \<and> us_codes s' = {0..1114111} - us_codes s \<and>
    us_complement h s' = Some s'' \<and> us_ok s'' \<and> us_codes s'' = us_codes s \<and> us_strs s'' = us_strs s"
proof -
  have r: "{0..<1114112} = {0..1114111::int}" by auto
  from us_result [OF assms(1-3), of CallComplementAny h] assms(4,5) obtain s' where
    s': "us_complement h s = Some s'" "us_ok s'" "\<not> isFrozen s'" "\<not> us_bogus s'"
      "us_codes s' = {0..1114111} - us_codes s" "us_strs s' = us_strs s"
    by (auto simp: few_def r)
  from us_result [OF s'(2-4), of CallComplementAny h] assms(4,5) s'(6) obtain s'' where
    s'': "us_complement h s' = Some s''" "us_ok s''" "us_codes s'' = {0..1114111} - us_codes s'" "us_strs s'' = us_strs s"
    by (auto simp: few_def r)
  have "us_codes s \<subseteq> {0..1114111}"
    using inv_set_bounds assms(1) by (elim us_okE) fastforce
  with s' s'' show ?thesis by (auto simp: double_diff)
qed

theorem unicodeset_complement_twice_witness:
  "\<exists>s' s''. us_complement ample (set_of [97, 123, 1114112] []) = Some s' \<and> us_codes s' = {0..1114111} - {97..122} \<and>
     us_complement ample s' = Some s'' \<and> us_codes s'' = {97..122}"
  using unicodeset_complement_twice [of "set_of [97, 123, 1114112] []" ample] by auto

text \<open>The operations between two sets are union, intersection, difference and symmetric
  difference, of the code points and of the strings, whatever state the other set is in
  (frozen or bogus sets included).\<close>

theorem unicodeset_set_calls:
  fixes s c :: "'ss uset"
  assumes "us_ok s" "\<not> isFrozen s" "\<not> us_bogus s" "us_ok c" "roomy h"
    "card (us_strs s) + card (us_strs c) < 134217727"
  shows "(\<exists>s'. us_addAll h c s = Some s' \<and> us_ok s' \<and> \<not> us_bogus s' \<and>
      us_codes s' = us_codes s \<union> us_codes c \<and> us_strs s' = us_strs s \<union> us_strs c) \<and>
    (\<exists>s'. us_retainAll h c s = Some s' \<and> us_ok s' \<and> \<not> us_bogus s' \<and>
      us_codes s' = us_codes s \<inter> us_codes c \<and> us_strs s' = us_strs s \<inter> us_strs c) \<and>
    (\<exists>s'. us_removeAll h c s = Some s' \<and> us_ok s' \<and> \<not> us_bogus s' \<and>
      us_codes s' = us_codes s - us_codes c \<and> us_strs s' = us_strs s - us_strs c) \<and>
    (\<exists>s'. us_complementAll h c s = Some s' \<and> us_ok s' \<and> \<not> us_bogus s' \<and>
      us_codes s' = (us_codes s - us_codes c) \<union> (us_codes c - us_codes s) \<and>
      us_strs s' = (us_strs s - us_strs c) \<union> (us_strs c - us_strs s))"
  using us_result [OF assms(1-3), of "CallAddAll c" h] us_result [OF assms(1-3), of "CallRetainAll c" h]
    us_result [OF assms(1-3), of "CallRemoveAll c" h] us_result [OF assms(1-3), of "CallComplementAll c" h] assms(4-6)
  by (auto simp: few_def str_diff_def)

theorem unicodeset_set_calls_witness:
  "\<exists>s'. us_complementAll ample (set_of [65, 91, 1114112] [UStr [99, 104]]) (set_of [97, 123, 1114112] []) = Some s' \<and>
     us_codes s' = {65..90} \<union> {97..122} \<and> us_strs s' = {UStr [99, 104]}"
proof -
  have "({97..122} - {65..90}) \<union> ({65..90} - {97..122}) = {65..90} \<union> {97..122::int}" by auto
  with unicodeset_set_calls [of "set_of [97, 123, 1114112] []" "set_of [65, 91, 1114112] [UStr [99, 104]]" ample]
  show ?thesis by auto
qed

text \<open>\<open>add(string)\<close> followed by \<open>remove(string)\<close> restores the set, both for a string
  of one code point, which is kept in the inversion list, and for a longer one, which is kept in
  the sorted vector of strings.\<close>

theorem unicodeset_string_roundtrip:
  fixes s :: "'ss uset"
  assumes "us_ok s" "\<not> isFrozen s" "\<not> us_bogus s" "units_ok (units t)" "roomy h" "card (us_strs s) < 134217726"
    "us_codes s \<inter> str_codes t = {}" "us_strs s \<inter> str_strs t = {}"
  shows "\<exists>s' s''. us_add_string h t s = Some s' \<and> us_ok s' \<and> us_codes s' = us_codes s \<union> str_codes t \<and>
    us_strs s' = us_strs s \<union> str_strs t \<and>
    us_remove_string h t s' = Some s'' \<and> us_ok s'' \<and> us_codes s'' = us_codes s \<and> us_strs s'' = us_strs s"
proof -
  have few1: "few 1 s" using assms(6) by (simp add: few_def)
  from us_result [OF assms(1-3), of "CallAddString t" h] assms(4,5) few1 obtain s' where
    s': "us_add_string h t s = Some s'" "us_ok s'" "\<not> isFrozen s'" "\<not> us_bogus s'"
      "us_codes s' = us_codes s \<union> str_codes t" "us_strs s' = us_strs s \<union> str_strs t"
    by auto
  have "few 0 s'"
    using few1 s'(6) card_Un_le [of "us_strs s" "str_strs t"] str_strs_card [of t] by (simp add: few_def)
  with us_result [OF s'(2-4), of "CallRemoveString t" h] assms(4,5) obtain s'' where
    s'': "us_remove_string h t s' = Some s''" "us_ok s''" "us_codes s'' = us_codes s' - str_codes t"
      "us_strs s'' = us_strs s' - str_strs t"
    by auto
  have "us_codes s'' = us_codes s" "us_strs s'' = us_strs s" using s'(5,6) s''(3,4) assms(7,8) by auto
  with s' s'' show ?thesis by blast
qed

theorem unicodeset_string_roundtrip_witness:
  "\<exists>s' s''. us_add_string ample (UStr [108, 108]) (set_of [65, 91, 1114112] [UStr [99, 104]]) = Some s' \<and>
     us_strs s' = {UStr [99, 104], UStr [108, 108]} \<and>
     us_remove_string ample (UStr [108, 108]) s' = Some s'' \<and> us_strs s'' = {UStr [99, 104]}"
proof -
  have "str_codes (UStr [108, 108]) = {}" "str_strs (UStr [108, 108]) = {UStr [108, 108]}"
    by (simp_all add: str_codes_def str_strs_def u16_is_lead_def)
  with unicodeset_string_roundtrip [of "set_of [65, 91, 1114112] [UStr [99, 104]]" "UStr [108, 108]" ample]
  show ?thesis by auto
qed

text \<open>\<open>addAll(string)\<close> adds each code point of the text: surrogate pairs count as one,
  unpaired surrogates as themselves, and the loop ends.\<close>

theorem unicodeset_addAll_text:
  fixes s :: "'ss uset"
  assumes "us_ok s" "\<not> isFrozen s" "\<not> us_bogus s" "units_ok (units t)"
  shows "\<exists>s'. us_addAll_string h t s = Some s' \<and> us_ok s' \<and>
    (us_bogus s' \<or> us_codes s' = us_codes s \<union> set (cps (units t)) \<and> us_strs s' = us_strs s) \<and>
    (roomy h \<and> card (us_strs s) < 134217727 \<longrightarrow> \<not> us_bogus s')"
  using us_result [OF assms(1-3), of "CallAddChars t" h] assms(4) by (auto simp: few_def)

theorem unicodeset_addAll_text_witness:
  "\<exists>s'. us_addAll_string ample (UStr [65, 55357, 56832, 56832]) (set_of [1114112] []) = Some s' \<and>
     us_codes s' = {65, 128512, 56832}"
  using unicodeset_addAll_text [of "set_of [1114112] []" "UStr [65, 55357, 56832, 56832]" ample]
  by (auto simp: u16_is_lead_def u16_is_trail_def u16_supplementary_def)

text \<open>The constructor of a range builds a well-formed set of exactly the pinned range.\<close>

theorem unicodeset_new_range:
  assumes "roomy h"
  shows "\<exists>s :: 'ss uset. us_new_range h a b = Some s \<and> us_ok s \<and> \<not> isFrozen s \<and> \<not> us_bogus s \<and>
    us_codes s = {pinCodePoint a..pinCodePoint b} \<and> us_strs s = {}"
  using us_new_range_roomy [OF assms, of a b] by (auto simp: us_made_def pinned_def)

theorem unicodeset_new_range_witness:
  "\<exists>s :: unit uset. us_new_range ample (-5) 2000000 = Some s \<and> us_codes s = {0..1114111}"
proof -
  have "pinCodePoint (-5) = 0" "pinCodePoint 2000000 = 1114111" by (simp_all add: pinCodePoint_def)
  with unicodeset_new_range [OF ample_roomy, of "-5" 2000000] show ?thesis by auto
qed

text \<open>When the strings vector cannot be allocated the constructor returns without
  marking the set bogus, and when the list cannot be allocated it marks it bogus but leaves the
  list null; in both cases the next \<open>add(c)\<close>, which looks the code point up before it tests
  \<open>isBogus\<close>, reads through the null list.\<close>

theorem unicodeset_out_of_memory:
  assumes "\<not> hn h \<or> (can_alloc (hs h) = (\<lambda>_. True) \<and> can_alloc (hl h) = (\<lambda>_. False))"
  shows "\<exists>s :: 'ss uset. us_new h = Some s \<and> us_list s = None \<and> us_bogus s = hn h \<and> us_add_cp h' c s = None"
  using assms by (rule us_new_out_of_memory)

theorem unicodeset_out_of_memory_witness:
  "\<exists>s :: unit uset. us_new (ample\<lparr>hn := False\<rparr>) = Some s \<and> us_add_cp ample 65 s = None"
  using unicodeset_out_of_memory [of "ample\<lparr>hn := False\<rparr>" ample 65] by auto

text \<open>\<open>operator=\<close> from a valid set gives, with enough memory, a well-formed set with the
  same code points and strings, frozen exactly when the source is.\<close>

theorem unicodeset_assign:
  fixes c s :: "'ss uset"
  assumes "us_ok c" "\<not> us_bogus c" "us_ok s" "\<not> isFrozen s" "\<not> us_bogus s" "roomy h"
    "card (us_strs c) < 134217727"
    "\<And>p v. us_stringSpan c = Some p \<Longrightarrow> \<exists>q. copySpan p v = Some q"
  shows "\<exists>s'. us_assign h copySpan c s = Some s' \<and> us_ok s' \<and> \<not> us_bogus s' \<and>
    us_codes s' = us_codes c \<and> us_strs s' = us_strs c \<and> (isFrozen s' \<longleftrightarrow> isFrozen c)"
proof -
  have "few 0 c" using assms(7) by (simp add: few_def)
  from us_assign_copies [OF assms(1,2) us_ok_shape [OF assms(3)] assms(4-6) this, of copySpan] assms(8)
  show ?thesis by (force simp: isFrozen_def)
qed

theorem unicodeset_assign_witness:
  "\<exists>s'. us_assign ample (\<lambda>p v. Some p) (set_of [65, 91, 1114112] [UStr [99, 104]]) (set_of [1114112] []) = Some s' \<and>
     us_codes s' = {65..90} \<and> us_strs s' = {UStr [99, 104]} \<and> \<not> isFrozen s'"
  using unicodeset_assign [of "set_of [65, 91, 1114112] [UStr [99, 104]]" "set_of [1114112] []" ample "\<lambda>p v. Some p"]
  by auto

end
