(* ===== verification/USetQuery.thy ===== *)
theory USetQuery
  imports USetCalls
begin

text \<open>
  The queries of \<open>UnicodeSet\<close> (\<open>uniset.cpp\<close>): equality, hash code, size, the \<open>contains\<close>
  family, matching against a text, and the index \<open>indexOf\<close>/\<open>charAt\<close>. They are stated on the
  ranges of the inversion list, the pairs (start, limit) in order. A set with a string span
  asks the span object for \<open>contains(c)\<close>; that answer is the argument \<open>ask\<close> here, the theory
  of the span object supplies it.
\<close>

section \<open>The operations\<close>

definition us_equals :: "'ss uset \<Rightarrow> 'ss uset \<Rightarrow> bool option" where
  "us_equals s other =
     (if us_len s \<noteq> us_len other then Some False
      else do {
        xs \<leftarrow> us_list s; ys \<leftarrow> us_list other;
        b \<leftarrow> same_from (=) xs ys 0 (us_len s);
        if \<not> b then Some False
        else do { v \<leftarrow> us_strings s; w \<leftarrow> us_strings other; uv_eq v w } })"

text \<open>\<open>result\<close> is an \<open>int32_t\<close> whose overflow the code relies on to wrap around.\<close>

definition us_hashCode :: "'ss uset \<Rightarrow> 32 word option" where
  "us_hashCode s =
     do { xs \<leftarrow> us_used s;
          Some (fold (\<lambda>c result. result * 1000003 + of_int c) xs (of_nat (us_len s))) }"

definition us_getRangeCount :: "'ss uset \<Rightarrow> nat" where
  "us_getRangeCount s = us_len s div 2"

definition us_getRangeStart :: "'ss uset \<Rightarrow> nat \<Rightarrow> int option" where
  "us_getRangeStart s index = do { xs \<leftarrow> us_used s; rd xs (index * 2) }"

definition us_getRangeEnd :: "'ss uset \<Rightarrow> nat \<Rightarrow> int option" where
  "us_getRangeEnd s index = do { xs \<leftarrow> us_used s; x \<leftarrow> rd xs (index * 2 + 1); Some (x - 1) }"

definition us_getStringCount :: "'ss uset \<Rightarrow> int option" where
  "us_getStringCount s = do { v \<leftarrow> us_strings s; Some (uv_count v) }"

definition us_getString :: "'ss uset \<Rightarrow> int \<Rightarrow> ustr option option" where
  "us_getString s index = do { v \<leftarrow> us_strings s; uv_elementAt v index }"

function size_loop :: "'ss uset \<Rightarrow> nat \<Rightarrow> nat \<Rightarrow> int \<Rightarrow> int option" where
  "size_loop s i m n =
     (if i < m
      then (case (us_getRangeEnd s i, us_getRangeStart s i) of
              (Some e, Some b) \<Rightarrow> size_loop s (i + 1) m (n + (e - b + 1))
            | _ \<Rightarrow> None)
      else Some n)"
  by pat_completeness auto
termination
  by (relation "measure (\<lambda>(s, i, m, n). m - i)") auto

declare size_loop.simps [simp del]

definition us_size :: "'ss uset \<Rightarrow> int option" where
  "us_size s =
     do { n \<leftarrow> size_loop s 0 (us_getRangeCount s) 0; v \<leftarrow> us_strings s; Some (n + uv_count v) }"

definition us_isEmpty :: "'ss uset \<Rightarrow> bool option" where
  "us_isEmpty s = (if us_len s = 1 then do { v \<leftarrow> us_strings s; Some (uv_count v = 0) } else Some False)"

definition us_contains :: "('ss \<Rightarrow> int \<Rightarrow> bool option) \<Rightarrow> 'ss uset \<Rightarrow> int \<Rightarrow> bool option" where
  "us_contains ask s c =
     (case us_bmpSet s of
        Some b \<Rightarrow> bmp_contains b c
      | None \<Rightarrow> (case us_stringSpan s of
          Some p \<Rightarrow> ask p c
        | None \<Rightarrow> if c \<ge> UNICODESET_HIGH then Some False
                  else do { xs \<leftarrow> us_used s; i \<leftarrow> findCodePoint xs c; Some (odd i) }))"

definition us_contains_range :: "'ss uset \<Rightarrow> int \<Rightarrow> int \<Rightarrow> bool option" where
  "us_contains_range s start end =
     do { xs \<leftarrow> us_used s; i \<leftarrow> findCodePoint xs start;
          if odd i then do { x \<leftarrow> rd xs i; Some (end < x) } else Some False }"

definition us_containsNone_range :: "'ss uset \<Rightarrow> int \<Rightarrow> int \<Rightarrow> bool option" where
  "us_containsNone_range s start end =
     do { xs \<leftarrow> us_used s; i \<leftarrow> findCodePoint xs start;
          if even i then do { x \<leftarrow> rd xs i; Some (end < x) } else Some False }"

definition us_contains_string :: "('ss \<Rightarrow> int \<Rightarrow> bool option) \<Rightarrow> 'ss uset \<Rightarrow> ustr \<Rightarrow> bool option" where
  "us_contains_string ask s t =
     (if ustr_length t = 0 then Some False
      else do { cp \<leftarrow> getSingleCP t;
                if cp < 0 then do { v \<leftarrow> us_strings s; uv_contains v (Some t) }
                else us_contains ask s cp })"

text \<open>The loop \<open>for (i=0; i<n; ++i) if (!contains(c.getRangeStart(i), c.getRangeEnd(i))) return FALSE;\<close>\<close>

function ranges_loop :: "(int \<Rightarrow> int \<Rightarrow> bool option) \<Rightarrow> 'ss uset \<Rightarrow> nat \<Rightarrow> nat \<Rightarrow> bool option" where
  "ranges_loop test c i n =
     (if i < n
      then (case (us_getRangeStart c i, us_getRangeEnd c i) of
              (Some a, Some b) \<Rightarrow> (case test a b of
                 None \<Rightarrow> None
               | Some ok \<Rightarrow> if ok then ranges_loop test c (i + 1) n else Some False)
            | _ \<Rightarrow> None)
      else Some True)"
  by pat_completeness auto
termination
  by (relation "measure (\<lambda>(test, c, i, n). n - i)") auto

declare ranges_loop.simps [simp del]

definition us_containsAll :: "'ss uset \<Rightarrow> 'ss uset \<Rightarrow> bool option" where
  "us_containsAll s c =
     do { b \<leftarrow> ranges_loop (us_contains_range s) c 0 (us_getRangeCount c);
          if \<not> b then Some False
          else do { v \<leftarrow> us_strings s; w \<leftarrow> us_strings c; uv_containsAll (\<lambda>_. 0) v w } }"

definition us_containsNone :: "'ss uset \<Rightarrow> 'ss uset \<Rightarrow> bool option" where
  "us_containsNone s c =
     do { b \<leftarrow> ranges_loop (us_containsNone_range s) c 0 (us_getRangeCount c);
          if \<not> b then Some False
          else do { v \<leftarrow> us_strings s; w \<leftarrow> us_strings c; uv_containsNone (\<lambda>_. 0) v w } }"

text \<open>\<open>indexOf\<close> and \<open>charAt\<close> walk the pairs of the list.\<close>

function index_loop :: "int list \<Rightarrow> int \<Rightarrow> nat \<Rightarrow> int \<Rightarrow> int option" where
  "index_loop xs c i n =
     (if i < length xs
      then (if c < xs ! i then Some (-1)
            else (case rd xs (i + 1) of
                    None \<Rightarrow> None
                  | Some limit \<Rightarrow> if c < limit then Some (n + c - xs ! i)
                                 else index_loop xs c (i + 2) (n + (limit - xs ! i))))
      else None)"
  by pat_completeness auto
termination
  by (relation "measure (\<lambda>(xs, c, i, n). length xs - i)") auto

declare index_loop.simps [simp del]

definition us_indexOf :: "'ss uset \<Rightarrow> int \<Rightarrow> int option" where
  "us_indexOf s c =
     (if c < 0 \<or> c > 1114111 then Some (-1) else do { xs \<leftarrow> us_used s; index_loop xs c 0 0 })"

function char_loop :: "int list \<Rightarrow> nat \<Rightarrow> nat \<Rightarrow> int \<Rightarrow> int option" where
  "char_loop xs i len2 index =
     (if i < len2
      then (case (rd xs i, rd xs (i + 1)) of
              (Some start, Some limit) \<Rightarrow>
                if index < limit - start then Some (start + index)
                else char_loop xs (i + 2) len2 (index - (limit - start))
            | _ \<Rightarrow> None)
      else Some (-1))"
  by pat_completeness auto
termination
  by (relation "measure (\<lambda>(xs, i, len2, index). len2 - i)") auto

declare char_loop.simps [simp del]

definition us_charAt :: "'ss uset \<Rightarrow> int \<Rightarrow> int option" where
  "us_charAt s index =
     (if index \<ge> 0 then do { xs \<leftarrow> us_used s; char_loop xs 0 (us_len s div 2 * 2) index } else Some (-1))"

section \<open>Matching a text\<close>

datatype UMatchDegree = U_MISMATCH | U_PARTIAL_MATCH | U_MATCH

text \<open>
  \<open>matchesIndexValue\<close> compares low bytes; \<open>v\<close> is in 0..255. \<open>index_ranges\<close> is the loop over
  the ranges, \<open>index_strings\<close> the one over the strings.
\<close>

function index_ranges :: "'ss uset \<Rightarrow> int \<Rightarrow> nat \<Rightarrow> nat \<Rightarrow> bool option" where
  "index_ranges s v i n =
     (if i < n
      then (case (us_getRangeStart s i, us_getRangeEnd s i) of
              (Some lo, Some hi) \<Rightarrow>
                if lo div 256 = hi div 256
                then if lo mod 256 \<le> v \<and> v \<le> hi mod 256 then Some True else index_ranges s v (i + 1) n
                else if lo mod 256 \<le> v \<or> v \<le> hi mod 256 then Some True else index_ranges s v (i + 1) n
            | _ \<Rightarrow> None)
      else Some False)"
  by pat_completeness auto
termination
  by (relation "measure (\<lambda>(s, v, i, n). n - i)") auto

declare index_ranges.simps [simp del]

definition us_matchesIndexValue :: "'ss uset \<Rightarrow> int \<Rightarrow> bool option" where
  "us_matchesIndexValue s v =
     do { b \<leftarrow> index_ranges s v 0 (us_getRangeCount s);
          if b then Some True
          else do {
            vec \<leftarrow> us_strings s;
            none \<leftarrow> each_from (\<lambda>e. do { t \<leftarrow> e; c \<leftarrow> char32At t 0; Some (c mod 256 \<noteq> v) })
                     (uv_elements vec) 0 (nat (uv_count vec));
            Some (\<not> none) } }"

function match_rest_loop :: "(nat \<Rightarrow> int) \<Rightarrow> (nat \<Rightarrow> int) \<Rightarrow> nat \<Rightarrow> nat \<Rightarrow> bool" where
  "match_rest_loop f g i maxLen =
     (if i < maxLen then if f i \<noteq> g i then False else match_rest_loop f g (i + 1) maxLen else True)"
  by pat_completeness auto
termination
  by (relation "measure (\<lambda>(f, g, i, maxLen). maxLen - i)") auto

declare match_rest_loop.simps [simp del]

definition matchRest :: "ustr \<Rightarrow> int \<Rightarrow> int \<Rightarrow> ustr \<Rightarrow> int" where
  "matchRest text start limit t =
     (let slen = ustr_length t in
      if start < limit
      then let maxLen = (if limit - start > slen then slen else limit - start)
           in if match_rest_loop (\<lambda>i. UStr.charAt text (start + int i)) (\<lambda>i. UStr.charAt t (int i)) 1 (nat maxLen)
              then maxLen else 0
      else let maxLen = (if start - limit > slen then slen else start - limit)
           in if match_rest_loop (\<lambda>i. UStr.charAt text (start - int i)) (\<lambda>i. UStr.charAt t (slen - 1 - int i)) 1 (nat maxLen)
              then maxLen else 0)"

text \<open>
  The loop over the strings: \<open>Inl d\<close> is an early return of \<open>d\<close>, \<open>Inr n\<close> the longest match.
\<close>

function match_strings ::
  "ustr \<Rightarrow> int \<Rightarrow> int \<Rightarrow> bool \<Rightarrow> ustr option list \<Rightarrow> nat \<Rightarrow> nat \<Rightarrow> int \<Rightarrow> (UMatchDegree + int) option" where
  "match_strings text offset limit incremental es i n highWater =
     (if i < n
      then (case rd es i of
              Some (Some trial) \<Rightarrow>
                (let forward = offset < limit;
                     firstChar = UStr.charAt text offset;
                     c = UStr.charAt trial (if forward then 0 else ustr_length trial - 1) in
                 if forward \<and> c > firstChar then Some (Inr highWater)
                 else if c \<noteq> firstChar then match_strings text offset limit incremental es (i + 1) n highWater
                 else let matchLen = matchRest text offset limit trial;
                          maxLen = (if forward then limit - offset else offset - limit) in
                   if incremental \<and> matchLen = maxLen then Some (Inl U_PARTIAL_MATCH)
                   else if matchLen = ustr_length trial
                   then let highWater = (if matchLen > highWater then matchLen else highWater) in
                        if forward \<and> matchLen < highWater then Some (Inr highWater)
                        else match_strings text offset limit incremental es (i + 1) n highWater
                   else match_strings text offset limit incremental es (i + 1) n highWater)
            | _ \<Rightarrow> None)
      else Some (Inr highWater))"
  by pat_completeness auto
termination
  by (relation "measure (\<lambda>(text, offset, limit, inc, es, i, n, hw). n - i)") auto

declare match_strings.simps [simp del]

text \<open>\<open>UnicodeFilter::matches\<close>: one code point, and the new offset.\<close>

definition filter_matches ::
  "(int \<Rightarrow> bool option) \<Rightarrow> ustr \<Rightarrow> int \<Rightarrow> int \<Rightarrow> bool \<Rightarrow> (UMatchDegree \<times> int) option" where
  "filter_matches contains text offset limit incremental =
     do { fwd \<leftarrow> (if offset < limit then do { c \<leftarrow> char32At text offset; contains c } else Some False);
          if fwd then do { c \<leftarrow> char32At text offset; Some (U_MATCH, offset + int (u16_length c)) }
          else do {
            bwd \<leftarrow> (if offset > limit then do { c \<leftarrow> char32At text offset; contains c } else Some False);
            if bwd
            then let offset = offset - 1 in
                 if offset \<ge> 0
                 then do { c \<leftarrow> char32At text offset; Some (U_MATCH, offset - (int (u16_length c) - 1)) }
                 else Some (U_MATCH, offset)
            else if incremental \<and> offset = limit then Some (U_PARTIAL_MATCH, offset)
            else Some (U_MISMATCH, offset) } }"

definition us_matches ::
  "('ss \<Rightarrow> int \<Rightarrow> bool option) \<Rightarrow> 'ss uset \<Rightarrow> ustr \<Rightarrow> int \<Rightarrow> int \<Rightarrow> bool \<Rightarrow> (UMatchDegree \<times> int) option" where
  "us_matches ask s text offset limit incremental =
     (if offset = limit
      then do { b \<leftarrow> us_contains ask s 65535;
                Some (if b then (if incremental then U_PARTIAL_MATCH else U_MATCH, offset) else (U_MISMATCH, offset)) }
      else do {
        v \<leftarrow> us_strings s;
        r \<leftarrow> match_strings text offset limit incremental (uv_elements v) 0 (nat (uv_count v)) 0;
        case r of
          Inl d \<Rightarrow> Some (d, offset)
        | Inr highWater \<Rightarrow>
            if highWater \<noteq> 0 then Some (U_MATCH, if offset < limit then offset + highWater else offset - highWater)
            else filter_matches (us_contains ask s) text offset limit incremental })"

definition us_addMatchSetTo :: "uheap \<Rightarrow> 'ss uset \<Rightarrow> 'ss uset \<Rightarrow> 'ss uset option" where
  "us_addMatchSetTo h s toUnionTo = us_addAll h s toUnionTo"

section \<open>The ranges of an inversion list\<close>

fun pairs :: "int list \<Rightarrow> (int \<times> int) list" where
  "pairs (a # b # r) = (a, b) # pairs r"
| "pairs _ = []"

lemma length_pairs [simp]: "length (pairs xs) = length xs div 2"
  by (induction xs rule: pairs.induct) auto

lemma nth_pairs: "i < length xs div 2 \<Longrightarrow> pairs xs ! i = (xs ! (i * 2), xs ! (i * 2 + 1))"
  by (induction xs arbitrary: i rule: pairs.induct) (auto simp: nth_Cons split: nat.split)

lemma ranges_pairs: "ranges xs = (\<Union>(a, b) \<in> set (pairs xs). {a..<b})"
  by (induction xs rule: pairs.induct) auto

lemma pairs_less: "ssorted xs \<Longrightarrow> (a, b) \<in> set (pairs xs) \<Longrightarrow> a < b \<and> a \<in> set xs \<and> b \<in> set xs"
  by (induction xs rule: pairs.induct) auto

lemma us_ranges:
  assumes "us_ok s"
  obtains xs where "us_used s = Some xs" "inv_list xs" "ssorted xs" "length xs = us_len s"
    "us_codes s = ranges xs" "us_getRangeCount s = length (pairs xs)"
    "\<And>i. i < length (pairs xs) \<Longrightarrow> us_getRangeStart s i = Some (fst (pairs xs ! i))"
    "\<And>i. i < length (pairs xs) \<Longrightarrow> us_getRangeEnd s i = Some (snd (pairs xs ! i) - 1)"
proof -
  from assms obtain xs where xs: "us_used s = Some xs" "inv_list xs" "length xs = us_len s" "us_codes s = inv_set xs"
    by (elim us_okE) blast
  have t: "inv_tail xs" "ssorted xs" using inv_listD [OF xs(2)] by auto
  have i: "i * 2 < length xs \<and> i * 2 + 1 < length xs" if "i < length xs div 2" for i
    using that by presburger
  show thesis
    by (rule that [of xs]) (use xs t i in \<open>auto simp: ranges_inv_set us_getRangeCount_def us_getRangeStart_def
        us_getRangeEnd_def nth_pairs\<close>)
qed

lemma ranges_card:
  "ssorted xs \<Longrightarrow> finite (ranges xs) \<and> int (card (ranges xs)) = sum_list (map (\<lambda>(a, b). b - a) (pairs xs))"
proof (induction xs rule: pairs.induct)
  case (1 a b r)
  have "{a..<b} \<inter> ranges r = {}" using ranges_gt [of _ r "b"] 1(2) by fastforce
  with 1 show ?case by (auto simp: card_Un_disjoint)
qed auto

lemma size_loop_sum:
  assumes "\<And>i. i < length ps \<Longrightarrow> us_getRangeStart s i = Some (fst (ps ! i))"
    "\<And>i. i < length ps \<Longrightarrow> us_getRangeEnd s i = Some (snd (ps ! i) - 1)" "i \<le> length ps"
  shows "size_loop s i (length ps) n = Some (n + sum_list (map (\<lambda>(a, b). b - a) (drop i ps)))"
  using assms(3)
proof (induction "length ps - i" arbitrary: i n)
  case 0
  then show ?case by (simp add: size_loop.simps)
next
  case (Suc k)
  then have i: "i < length ps" by simp
  with Suc.hyps(1) [of "i + 1"] Suc.hyps(2) assms(1,2) [OF i]
  show ?case by (simp add: size_loop.simps [of s i] Cons_nth_drop_Suc [symmetric] case_prod_unfold)
qed

lemma us_size_card:
  assumes "us_ok s"
  shows "us_size s = Some (int (card (us_codes s)) + int (card (us_strs s)))"
proof -
  from assms obtain xs where xs: "ssorted xs" "us_codes s = ranges xs" "us_getRangeCount s = length (pairs xs)"
    and g: "\<And>i. i < length (pairs xs) \<Longrightarrow> us_getRangeStart s i = Some (fst (pairs xs ! i))"
      "\<And>i. i < length (pairs xs) \<Longrightarrow> us_getRangeEnd s i = Some (snd (pairs xs ! i) - 1)"
    by (elim us_ranges) blast
  from assms obtain v where v: "us_strings s = Some v" "strings_ok v" "us_strs s = {t. Some t \<in> set (uv_list v)}"
    by (elim us_okE) blast
  from size_loop_sum [OF g, of 0 0] ranges_card [OF xs(1)] xs strings_card [OF v(2)] v
  show ?thesis by (simp add: us_size_def)
qed

section \<open>Equality\<close>

lemma inv_tail_unique:
  assumes "inv_tail xs" "inv_tail ys" "\<And>c. c < UNICODESET_HIGH \<Longrightarrow> odd (cnt xs c) = odd (cnt ys c)"
  shows "xs = ys"
  using assms
proof (induction xs arbitrary: ys)
  case Nil
  then show ?case by (simp add: inv_tail_def)
next
  case (Cons a as)
  from Cons.prems(2) obtain b bs where ys: "ys = b # bs" by (cases ys) (auto simp: inv_tail_def)
  note A = inv_tail_Cons [OF Cons.prems(1)] and B = inv_tail_Cons [OF Cons.prems(2) [unfolded ys]]
  have zero: "cnt as c = 0" if "c \<le> a" for c using A(2) that by (intro cnt_zero) force
  have zero': "cnt bs c = 0" if "c \<le> b" for c using B(2) that by (intro cnt_zero) force
  have "\<not> a < b" using Cons.prems(3) [of a] B(1) zero [of a] zero' [of a] by (auto simp: ys)
  moreover have "\<not> b < a" using Cons.prems(3) [of b] A(1) zero [of b] zero' [of b] by (auto simp: ys)
  ultimately have ab: "b = a" by simp
  show ?case
  proof (cases "a = UNICODESET_HIGH")
    case True
    with A(3) B(3) ab ys show ?thesis by simp
  next
    case False
    have "as = bs"
    proof (rule Cons.IH)
      show "inv_tail as" using A(4) False by simp
      show "inv_tail bs" using B(4) False ab by simp
      fix c :: int assume c: "c < UNICODESET_HIGH"
      show "odd (cnt as c) = odd (cnt bs c)"
      proof (cases "a \<le> c")
        case True
        with Cons.prems(3) [OF c] ab ys show ?thesis by simp
      next
        case False
        with zero [of c] zero' [of c] ab show ?thesis by simp
      qed
    qed
    with ab ys show ?thesis by simp
  qed
qed

lemma inv_list_unique: "inv_list xs \<Longrightarrow> inv_list ys \<Longrightarrow> inv_set xs = inv_set ys \<longleftrightarrow> xs = ys"
  using inv_tail_unique [of xs ys] inv_listD(4) [of xs] inv_listD(4) [of ys] by (auto simp: inv_set_def)

lemma strings_unique:
  assumes "strings_ok v" "strings_ok w"
  shows "uv_list v = uv_list w \<longleftrightarrow> {t. Some t \<in> set (uv_list v)} = {t. Some t \<in> set (uv_list w)}"
proof -
  obtain a where a: "uv_list v = map Some a" "ssorted a" "{t. Some t \<in> set (uv_list v)} = set a"
    using strings_okE [OF assms(1)] by metis
  obtain b where b: "uv_list w = map Some b" "ssorted b" "{t. Some t \<in> set (uv_list w)} = set b"
    using strings_okE [OF assms(2)] by metis
  have "a = b" if "set a = set b"
    using strict_sorted_equal [OF a(2) b(2)] that by simp
  with a b show ?thesis by auto
qed

lemma us_equals_iff:
  assumes "us_ok s" "us_ok t"
  shows "us_equals s t = Some (us_codes s = us_codes t \<and> us_strs s = us_strs t)"
proof -
  from assms(1) obtain cs v xs where s: "us_list s = Some cs" "length cs = us_capacity s" "us_len s \<le> us_capacity s"
    "xs = take (us_len s) cs" "inv_list xs" "us_codes s = inv_set xs" "us_strings s = Some v" "strings_ok v"
    "us_strs s = {t. Some t \<in> set (uv_list v)}" "length xs = us_len s"
    by (elim us_okE) blast
  from assms(2) obtain ds w ys where t: "us_list t = Some ds" "length ds = us_capacity t" "us_len t \<le> us_capacity t"
    "ys = take (us_len t) ds" "inv_list ys" "us_codes t = inv_set ys" "us_strings t = Some w" "strings_ok w"
    "us_strs t = {u. Some u \<in> set (uv_list w)}" "length ys = us_len t"
    by (elim us_okE) blast
  show ?thesis
  proof (cases "us_len s = us_len t")
    case False
    then have "xs \<noteq> ys" using s(10) t(10) by auto
    with False s(6) t(6) inv_list_unique [OF s(5) t(5)] show ?thesis by (simp add: us_equals_def)
  next
    case True
    have "same_from (=) cs ds 0 (us_len s) = Some (xs = ys)"
      using same_from_all2 [of 0 "us_len s" cs ds "(=)"] s t True by (simp add: list.rel_eq)
    moreover have "uv_eq v w = Some (uv_list v = uv_list w)"
      using uv_eq_iff [of v w] s(8) t(8) by (simp add: strings_ok_def)
    ultimately show ?thesis
      using True s t inv_list_unique [OF s(5) t(5)] strings_unique [OF s(8) t(8)] by (simp add: us_equals_def)
  qed
qed

lemma us_hash_equal:
  assumes "us_ok s" "us_ok t" "us_codes s = us_codes t"
  shows "us_hashCode s = us_hashCode t" "us_hashCode s \<noteq> None"
proof -
  from assms(1) obtain xs where s: "us_used s = Some xs" "inv_list xs" "us_codes s = inv_set xs" "length xs = us_len s"
    by (elim us_okE) blast
  from assms(2) obtain ys where t: "us_used t = Some ys" "inv_list ys" "us_codes t = inv_set ys" "length ys = us_len t"
    by (elim us_okE) blast
  have "xs = ys" using inv_list_unique [OF s(2) t(2)] s t assms(3) by simp
  with s t show "us_hashCode s = us_hashCode t" "us_hashCode s \<noteq> None" by (simp_all add: us_hashCode_def)
qed

section \<open>Containment\<close>

lemma us_find:
  assumes "us_ok s" "0 \<le> c" "c < UNICODESET_HIGH"
  obtains P n R where "us_used s = Some (P @ n # R)" "findCodePoint (P @ n # R) c = Some (length P)"
    "odd (length P) \<longleftrightarrow> c \<in> us_codes s" "c < n" "n \<le> UNICODESET_HIGH"
    "\<And>d. c \<le> d \<Longrightarrow> d < n \<Longrightarrow> d \<in> us_codes s \<longleftrightarrow> c \<in> us_codes s"
    "n < UNICODESET_HIGH \<Longrightarrow> n \<in> us_codes s \<longleftrightarrow> c \<notin> us_codes s"
proof -
  from assms(1) obtain xs where xs: "us_used s = Some xs" "inv_list xs" "us_codes s = inv_set xs"
    by (elim us_okE) blast
  from find_split [OF xs(2) assms(3)] obtain P n R where p: "xs = P @ n # R" "length P = cnt xs c"
    "\<forall>x \<in> set P. x \<le> c" "c < n" "findCodePoint xs c = Some (length P)" by blast
  have R: "x \<in> set R \<Longrightarrow> n < x" for x using inv_listD(2) [OF xs(2)] p(1) by (simp add: sorted_wrt_append)
  have le: "n \<le> UNICODESET_HIGH" using inv_tail_le [OF inv_listD(4) [OF xs(2)], of n] p(1) by simp
  have c: "cnt xs d = length P" if "c \<le> d" "d < n" for d
    using p(1,3) that R cnt_all [of P d] cnt_zero [of R d] by fastforce
  have n: "cnt xs n = Suc (length P)" using p(1,3,4) R cnt_all [of P n] cnt_zero [of R n] by fastforce
  show thesis
  proof (rule that [of P n R])
    show "us_used s = Some (P @ n # R)" using xs p by simp
    show "findCodePoint (P @ n # R) c = Some (length P)" using p by simp
    show "odd (length P) \<longleftrightarrow> c \<in> us_codes s" using xs(3) c [of c] p(4) assms(3) by (simp add: inv_set_def)
    show "\<And>d. c \<le> d \<Longrightarrow> d < n \<Longrightarrow> d \<in> us_codes s \<longleftrightarrow> c \<in> us_codes s"
      using xs(3) c p(4) le assms(3) by (simp add: inv_set_def)
    show "n < UNICODESET_HIGH \<Longrightarrow> n \<in> us_codes s \<longleftrightarrow> c \<notin> us_codes s"
      using xs(3) n c [of c] p(4) assms(3) by (simp add: inv_set_def)
  qed (use p le in auto)
qed

lemma us_codes_range: "us_ok s \<Longrightarrow> c \<in> us_codes s \<Longrightarrow> 0 \<le> c \<and> c < UNICODESET_HIGH"
  using inv_set_bounds by (elim us_okE) fastforce

lemma us_contains_range_iff:
  assumes "us_ok s" "0 \<le> a" "a \<le> b" "b < UNICODESET_HIGH"
  shows "us_contains_range s a b = Some ({a..b} \<subseteq> us_codes s)"
proof -
  from assms have "a < UNICODESET_HIGH" by simp
  from us_find [OF assms(1,2) this] obtain P n R where p: "us_used s = Some (P @ n # R)"
    "findCodePoint (P @ n # R) a = Some (length P)" "odd (length P) \<longleftrightarrow> a \<in> us_codes s" "a < n" "n \<le> UNICODESET_HIGH"
    "\<And>d. a \<le> d \<Longrightarrow> d < n \<Longrightarrow> d \<in> us_codes s \<longleftrightarrow> a \<in> us_codes s"
    "n < UNICODESET_HIGH \<Longrightarrow> n \<in> us_codes s \<longleftrightarrow> a \<notin> us_codes s" by blast
  have "{a..b} \<subseteq> us_codes s \<longleftrightarrow> a \<in> us_codes s \<and> b < n"
  proof
    assume sub: "{a..b} \<subseteq> us_codes s"
    with assms(3) have "a \<in> us_codes s" by auto
    moreover have "b < n"
    proof (rule ccontr)
      assume "\<not> b < n"
      with sub p(4) assms(4) have "n \<in> us_codes s" "n < UNICODESET_HIGH" by auto
      with p(7) \<open>a \<in> us_codes s\<close> show False by simp
    qed
    ultimately show "a \<in> us_codes s \<and> b < n" ..
  next
    assume "a \<in> us_codes s \<and> b < n"
    with p(6) show "{a..b} \<subseteq> us_codes s" by (meson atLeastAtMost_iff order_le_less_trans subsetI)
  qed
  with p(1-3) show ?thesis by (simp add: us_contains_range_def)
qed

lemma us_containsNone_range_iff:
  assumes "us_ok s" "0 \<le> a" "a \<le> b" "b < UNICODESET_HIGH"
  shows "us_containsNone_range s a b = Some ({a..b} \<inter> us_codes s = {})"
proof -
  from assms have "a < UNICODESET_HIGH" by simp
  from us_find [OF assms(1,2) this] obtain P n R where p: "us_used s = Some (P @ n # R)"
    "findCodePoint (P @ n # R) a = Some (length P)" "odd (length P) \<longleftrightarrow> a \<in> us_codes s" "a < n" "n \<le> UNICODESET_HIGH"
    "\<And>d. a \<le> d \<Longrightarrow> d < n \<Longrightarrow> d \<in> us_codes s \<longleftrightarrow> a \<in> us_codes s"
    "n < UNICODESET_HIGH \<Longrightarrow> n \<in> us_codes s \<longleftrightarrow> a \<notin> us_codes s" by blast
  have "{a..b} \<inter> us_codes s = {} \<longleftrightarrow> a \<notin> us_codes s \<and> b < n"
  proof
    assume dis: "{a..b} \<inter> us_codes s = {}"
    with assms(3) have "a \<notin> us_codes s" by auto
    moreover have "b < n"
    proof (rule ccontr)
      assume "\<not> b < n"
      then have "n \<in> {a..b}" using p(4) by simp
      with dis assms(4) have "n \<notin> us_codes s" "n < UNICODESET_HIGH" by auto
      with p(7) \<open>a \<notin> us_codes s\<close> show False by simp
    qed
    ultimately show "a \<notin> us_codes s \<and> b < n" ..
  next
    assume "a \<notin> us_codes s \<and> b < n"
    with p(6) show "{a..b} \<inter> us_codes s = {}" by (fastforce intro: order_le_less_trans)
  qed
  with p(1-3) show ?thesis by (auto simp: us_containsNone_range_def)
qed

lemma us_contains_iff:
  assumes "us_ok s" "- 2147483648 \<le> c" "c \<le> INT32_MAX"
    "\<And>p. us_stringSpan s = Some p \<Longrightarrow> us_bmpSet s = None \<Longrightarrow> ask p c = Some (c \<in> us_codes s)"
  shows "us_contains ask s c = Some (c \<in> us_codes s)"
proof (cases "us_bmpSet s")
  case (Some b)
  from assms(1) Some have "bmpset_ok b" "us_codes s = inv_set (bs_list b)"
    by (auto simp: us_ok_def us_codes_def us_used_def)
  with bmp_contains_spec [OF _ assms(2,3)] Some show ?thesis by (simp add: us_contains_def)
next
  case None
  from assms(1) obtain xs where xs: "us_used s = Some xs" "inv_list xs" "us_codes s = inv_set xs"
    by (elim us_okE) blast
  have "findCodePoint xs c = Some (cnt xs c)" if "c < UNICODESET_HIGH"
    using findCodePoint_legal [OF inv_listD(4) [OF xs(2)] that] .
  with None assms(4) xs show ?thesis by (auto simp: us_contains_def inv_set_def split: option.split)
qed

lemma ranges_loop_all:
  assumes "\<And>i. i < length ps \<Longrightarrow> us_getRangeStart c i = Some (fst (ps ! i))"
    "\<And>i. i < length ps \<Longrightarrow> us_getRangeEnd c i = Some (snd (ps ! i) - 1)"
    "\<And>a b. (a, b) \<in> set ps \<Longrightarrow> test a (b - 1) = Some (P a b)" "i \<le> length ps"
  shows "ranges_loop test c i (length ps) = Some (\<forall>(a, b) \<in> set (drop i ps). P a b)"
  using assms(4)
proof (induction "length ps - i" arbitrary: i)
  case 0
  then show ?case by (simp add: ranges_loop.simps)
next
  case (Suc k)
  then have i: "i < length ps" by simp
  obtain a b where ab: "ps ! i = (a, b)" by (cases "ps ! i")
  with i have "(a, b) \<in> set ps" by (metis nth_mem)
  with Suc.hyps(1) [of "i + 1"] Suc.hyps(2) assms(1,2) [OF i] assms(3) [of a b] ab i
  show ?case by (simp add: ranges_loop.simps [of test c i] Cons_nth_drop_Suc [symmetric])
qed

lemma pair_bounds:
  assumes "inv_list xs" "(a, b) \<in> set (pairs xs)"
  shows "0 \<le> a" "a \<le> b - 1" "b - 1 < UNICODESET_HIGH" "{a..b - 1} = {a..<b}"
proof -
  from pairs_less [OF inv_listD(2) [OF assms(1)] assms(2)] have ab: "a < b" "a \<in> set xs" "b \<in> set xs" by auto
  with inv_listD(5) [OF assms(1)] show "0 \<le> a" "a \<le> b - 1" by auto
  show "b - 1 < UNICODESET_HIGH" using inv_tail_le [OF inv_listD(4) [OF assms(1)] ab(3)] by simp
qed auto

lemma us_containsAll_iff:
  assumes "us_ok s" "us_ok c"
  shows "us_containsAll s c = Some (us_codes c \<subseteq> us_codes s \<and> us_strs c \<subseteq> us_strs s)"
proof -
  from assms(2) obtain xs where xs: "inv_list xs" "ssorted xs" "us_codes c = ranges xs" "us_getRangeCount c = length (pairs xs)"
    and g: "\<And>i. i < length (pairs xs) \<Longrightarrow> us_getRangeStart c i = Some (fst (pairs xs ! i))"
      "\<And>i. i < length (pairs xs) \<Longrightarrow> us_getRangeEnd c i = Some (snd (pairs xs ! i) - 1)"
    by (elim us_ranges) blast
  have t: "us_contains_range s a (b - 1) = Some ({a..<b} \<subseteq> us_codes s)" if "(a, b) \<in> set (pairs xs)" for a b
    using pair_bounds [OF xs(1) that] us_contains_range_iff [OF assms(1), of a "b - 1"] by simp
  have l: "ranges_loop (us_contains_range s) c 0 (us_getRangeCount c) = Some (us_codes c \<subseteq> us_codes s)"
    using ranges_loop_all [where ps = "pairs xs" and c = c and test = "us_contains_range s" and i = 0
        and P = "\<lambda>a b. {a..<b} \<subseteq> us_codes s", OF g t] by (auto simp: xs(3,4) ranges_pairs UN_subset_iff)
  obtain v where v: "us_strings s = Some v" "strings_ok v" "us_strs s = {t. Some t \<in> set (uv_list v)}"
    using assms(1) by (elim us_okE) blast
  obtain w where w: "us_strings c = Some w" "strings_ok w" "us_strs c = {t. Some t \<in> set (uv_list w)}"
    using assms(2) by (elim us_okE) blast
  obtain ss where "uv_list w = map Some ss" using strings_okE [OF w(2)] by metis
  then have "uv_containsAll (\<lambda>_. 0) v w = Some (us_strs c \<subseteq> us_strs s)"
    using uv_containsAll_iff [of v w "(=)" "\<lambda>_. 0"] v w by (auto simp: strings_ok_def)
  with l v w show ?thesis by (simp add: us_containsAll_def)
qed

lemma us_containsNone_iff:
  assumes "us_ok s" "us_ok c"
  shows "us_containsNone s c = Some (us_codes c \<inter> us_codes s = {} \<and> us_strs c \<inter> us_strs s = {})"
proof -
  from assms(2) obtain xs where xs: "inv_list xs" "ssorted xs" "us_codes c = ranges xs" "us_getRangeCount c = length (pairs xs)"
    and g: "\<And>i. i < length (pairs xs) \<Longrightarrow> us_getRangeStart c i = Some (fst (pairs xs ! i))"
      "\<And>i. i < length (pairs xs) \<Longrightarrow> us_getRangeEnd c i = Some (snd (pairs xs ! i) - 1)"
    by (elim us_ranges) blast
  have t: "us_containsNone_range s a (b - 1) = Some ({a..<b} \<inter> us_codes s = {})" if "(a, b) \<in> set (pairs xs)" for a b
    using pair_bounds [OF xs(1) that] us_containsNone_range_iff [OF assms(1), of a "b - 1"] by simp
  have l: "ranges_loop (us_containsNone_range s) c 0 (us_getRangeCount c) = Some (us_codes c \<inter> us_codes s = {})"
    using ranges_loop_all [where ps = "pairs xs" and c = c and test = "us_containsNone_range s" and i = 0
        and P = "\<lambda>a b. {a..<b} \<inter> us_codes s = {}", OF g t] by (auto simp: xs(3,4) ranges_pairs)
  obtain v where v: "us_strings s = Some v" "strings_ok v" "us_strs s = {t. Some t \<in> set (uv_list v)}"
    using assms(1) by (elim us_okE) blast
  obtain w where w: "us_strings c = Some w" "strings_ok w" "us_strs c = {t. Some t \<in> set (uv_list w)}"
    using assms(2) by (elim us_okE) blast
  obtain ss where "uv_list w = map Some ss" using strings_okE [OF w(2)] by metis
  then have "uv_containsNone (\<lambda>_. 0) v w = Some (us_strs c \<inter> us_strs s = {})"
    using uv_containsNone_iff [of v w "(=)" "\<lambda>_. 0"] v w by (auto simp: strings_ok_def)
  with l v w show ?thesis by (simp add: us_containsNone_def)
qed

section \<open>Indexing\<close>

lemma index_loop_drop:
  "index_loop xs c (i + k) n = index_loop (drop k xs) c i n"
proof (induction "length xs - (i + k)" arbitrary: i n rule: less_induct)
  case less
  have r: "rd xs (i + k + 1) = rd (drop k xs) (i + 1)"
    by (cases "i + 1 + k < length xs") (simp_all add: add.commute)
  show ?case
  proof (cases "i + k < length xs")
    case True
    then have "i < length xs - k" by simp
    with True less [of "i + 2"] r show ?thesis
      by (simp add: index_loop.simps [of xs c "i + k"] index_loop.simps [of "drop k xs" c i] add.commute add.left_commute
          split: option.split)
  next
    case False
    then have "\<not> i < length xs - k" by simp
    with False show ?thesis by (simp add: index_loop.simps [of xs c "i + k"] index_loop.simps [of "drop k xs" c i])
  qed
qed

lemma index_loop_Cons2:
  "index_loop (a # b # r) c 0 n =
     (if c < a then Some (-1) else if c < b then Some (n + c - a) else index_loop r c 0 (n + (b - a)))"
  using index_loop_drop [of "a # b # r" c 0 2 "n + (b - a)"]
  by (simp add: index_loop.simps [of "a # b # r" c 0] numeral_2_eq_2)

lemma index_loop_single: "c < a \<Longrightarrow> index_loop [a] c 0 n = Some (-1)"
  by (simp add: index_loop.simps)

text \<open>Code points below \<open>c\<close> in the ranges.\<close>

definition below :: "int \<Rightarrow> int set \<Rightarrow> int" where
  "below c S = int (card {x \<in> S. x < c})"

lemma below_ranges_Cons2:
  assumes "ssorted (a # b # r)"
  shows "c \<le> a \<Longrightarrow> below c (ranges (a # b # r)) = 0"
    "a \<le> c \<Longrightarrow> c \<le> b \<Longrightarrow> below c (ranges (a # b # r)) = c - a"
    "b \<le> c \<Longrightarrow> below c (ranges (a # b # r)) = b - a + below c (ranges r)"
proof -
  have gt: "x \<in> ranges r \<Longrightarrow> b < x" for x using ranges_gt [of x r b] assms by fastforce
  have "finite (ranges r)" using ranges_card [of r] assms by simp
  have ab: "a < b" using assms by simp
  show "below c (ranges (a # b # r)) = 0" if "c \<le> a"
  proof -
    have "{x \<in> ranges (a # b # r). x < c} = {}" using that gt ab by fastforce
    then show ?thesis by (simp only: below_def card.empty of_nat_0)
  qed
  show "below c (ranges (a # b # r)) = c - a" if "a \<le> c" "c \<le> b"
  proof -
    have "{x \<in> ranges (a # b # r). x < c} = {a..<c}" using that gt by fastforce
    with that show ?thesis by (simp add: below_def)
  qed
  show "below c (ranges (a # b # r)) = b - a + below c (ranges r)" if "b \<le> c"
  proof -
    have "{x \<in> ranges (a # b # r). x < c} = {a..<b} \<union> {x \<in> ranges r. x < c}" using that by auto
    moreover have "{a..<b} \<inter> {x \<in> ranges r. x < c} = {}" using gt by fastforce
    ultimately show ?thesis using ab \<open>finite (ranges r)\<close> by (simp add: below_def card_Un_disjoint)
  qed
qed

lemma index_loop_below:
  assumes "inv_tail xs" "c < UNICODESET_HIGH"
  shows "index_loop xs c 0 n = Some (if c \<in> ranges xs then n + below c (ranges xs) else -1)"
  using assms
proof (induction xs arbitrary: n rule: pairs.induct)
  case (1 a b r)
  have s: "ssorted (a # b # r)" using 1(2) by (simp add: inv_tail_def)
  have gt: "x \<in> ranges r \<Longrightarrow> b < x" for x using ranges_gt [of x r b] s by fastforce
  have tl: "inv_tail r" if "b \<le> c"
  proof -
    have "inv_tail (b # r)" using inv_tail_Cons(3,4) [OF 1(2)] by auto
    with inv_tail_Cons(4) that 1(3) show ?thesis by force
  qed
  consider "c < a" | "a \<le> c" "c < b" | "b \<le> c" by linarith
  then show ?case
  proof cases
    case 1
    with gt s show ?thesis by (fastforce simp: index_loop_Cons2)
  next
    case 2
    with below_ranges_Cons2(2) [OF s, of c] show ?thesis by (simp add: index_loop_Cons2)
  next
    case 3
    with "1.IH" [OF tl "1.prems"(2)] below_ranges_Cons2(3) [OF s, of c] s show ?thesis
      by (auto simp: index_loop_Cons2)
  qed
next
  case "2_1"
  then show ?case by (simp add: inv_tail_def)
next
  case "2_2"
  then show ?case by (simp add: inv_tail_def index_loop_single)
qed

lemma us_indexOf_below:
  assumes "us_ok s"
  shows "us_indexOf s c = Some (if c \<in> us_codes s then below c (us_codes s) else -1)"
proof -
  from assms obtain xs where xs: "us_used s = Some xs" "inv_list xs" "us_codes s = ranges xs" by (elim us_ranges) blast
  with index_loop_below [OF inv_listD(4) [OF xs(2)], of c 0] us_codes_range [OF assms, of c] show ?thesis
    by (auto simp: us_indexOf_def)
qed

lemma char_loop_end: "\<not> i < len2 \<Longrightarrow> char_loop xs i len2 index = Some (-1)"
  by (simp add: char_loop.simps)

lemma char_loop_drop:
  "k \<le> len2 \<Longrightarrow> char_loop xs (i + k) len2 index = char_loop (drop k xs) i (len2 - k) index"
proof (induction "len2 - (i + k)" arbitrary: i index rule: less_induct)
  case less
  have r: "rd xs (i + k + j) = rd (drop k xs) (i + j)" for j
    by (cases "i + j + k < length xs") (simp_all add: add.commute add.left_commute)
  show ?case
  proof (cases "i + k < len2")
    case True
    then have "i < len2 - k" by simp
    with True less(1) [of "i + 2"] less(2) r [of 0] r [of 1] show ?thesis
      by (simp add: char_loop.simps [of xs "i + k"] char_loop.simps [of "drop k xs" i] split: option.split)
  next
    case False
    then have "\<not> i < len2 - k" by simp
    with False show ?thesis by (simp add: char_loop_end)
  qed
qed

lemma char_loop_Cons2:
  "char_loop (a # b # r) 0 (length (a # b # r) div 2 * 2) k =
     (if k < b - a then Some (a + k) else char_loop r 0 (length r div 2 * 2) (k - (b - a)))"
proof -
  have "char_loop (a # b # r) 0 (Suc (Suc m)) k =
     (if k < b - a then Some (a + k) else char_loop r 0 m (k - (b - a)))" for m
    using char_loop_drop [of 2 "Suc (Suc m)" "a # b # r" 0 "k - (b - a)"]
    by (simp add: char_loop.simps [of "a # b # r" 0] numeral_2_eq_2)
  from this [of "length r div 2 * 2"] show ?thesis by simp
qed

lemma char_loop_below:
  assumes "ssorted xs" "0 \<le> k"
  shows "if k < int (card (ranges xs))
    then \<exists>c \<in> ranges xs. char_loop xs 0 (length xs div 2 * 2) k = Some c \<and> below c (ranges xs) = k
    else char_loop xs 0 (length xs div 2 * 2) k = Some (-1)"
  using assms
proof (induction xs arbitrary: k rule: pairs.induct)
  case (1 a b r)
  have n: "int (card (ranges (a # b # r))) = b - a + int (card (ranges r))"
    using ranges_card [OF "1.prems"(1)] ranges_card [of r] "1.prems"(1) by simp
  have gt: "x \<in> ranges r \<Longrightarrow> b < x" for x using ranges_gt [of x r b] 1(2) by fastforce
  show ?case
  proof (cases "k < b - a")
    case True
    with below_ranges_Cons2(2) [OF "1.prems"(1), of "a + k"] "1.prems"(2) n show ?thesis
      by (simp only: char_loop_Cons2) auto
  next
    case False
    from "1.IH" [of "k - (b - a)"] "1.prems" False have ih:
      "if k - (b - a) < int (card (ranges r))
       then \<exists>c \<in> ranges r. char_loop r 0 (length r div 2 * 2) (k - (b - a)) = Some c \<and> below c (ranges r) = k - (b - a)
       else char_loop r 0 (length r div 2 * 2) (k - (b - a)) = Some (-1)" by simp
    show ?thesis
    proof (cases "k - (b - a) < int (card (ranges r))")
      case True
      with ih obtain c where c: "c \<in> ranges r" "char_loop r 0 (length r div 2 * 2) (k - (b - a)) = Some c"
        "below c (ranges r) = k - (b - a)" by auto
      with below_ranges_Cons2(3) [OF "1.prems"(1), of c] gt [OF c(1)] False True n show ?thesis
        by (simp only: char_loop_Cons2) auto
    next
      case out: False
      with ih False n show ?thesis by (simp only: char_loop_Cons2) auto
    qed
  qed
qed (simp_all add: char_loop_end)

lemma us_charAt_below:
  assumes "us_ok s" "0 \<le> k"
  shows "if k < int (card (us_codes s))
    then \<exists>c \<in> us_codes s. us_charAt s k = Some c \<and> below c (us_codes s) = k
    else us_charAt s k = Some (-1)"
proof -
  from assms(1) obtain xs where xs: "us_used s = Some xs" "ssorted xs" "us_codes s = ranges xs" "length xs = us_len s"
    by (elim us_ranges) blast
  with char_loop_below [OF xs(2) assms(2)] assms(2) show ?thesis by (simp add: us_charAt_def xs(4) [symmetric])
qed

lemma below_less:
  assumes "finite S" "c \<in> S" "c < d"
  shows "below c S < below d S"
proof -
  have "{x \<in> S. x < c} \<subset> {x \<in> S. x < d}" using assms(2,3) by auto
  with psubset_card_mono [of "{x \<in> S. x < d}"] assms(1) show ?thesis by (simp add: below_def)
qed

lemma below_inj: "finite S \<Longrightarrow> c \<in> S \<Longrightarrow> d \<in> S \<Longrightarrow> below c S = below d S \<Longrightarrow> c = d"
  using below_less [of S c d] below_less [of S d c] by (cases c d rule: linorder_cases) auto

lemma us_charAt_indexOf:
  assumes "us_ok s" "c \<in> us_codes s"
  shows "us_charAt s (below c (us_codes s)) = Some c"
proof -
  from assms(1) have fin: "finite (us_codes s)" using ranges_card by (elim us_ranges) auto
  have "{x \<in> us_codes s. x < c} \<subset> us_codes s" using assms(2) by auto
  with psubset_card_mono [OF fin] have "below c (us_codes s) < int (card (us_codes s))" by (simp add: below_def)
  with us_charAt_below [OF assms(1), of "below c (us_codes s)"] obtain d where
    "d \<in> us_codes s" "us_charAt s (below c (us_codes s)) = Some d" "below d (us_codes s) = below c (us_codes s)"
    by (auto simp: below_def)
  with below_inj [OF fin] assms(2) show ?thesis by blast
qed

section \<open>The longest match\<close>

text \<open>\<open>t\<close> stands in the text at \<open>offset\<close>, before \<open>limit\<close>.\<close>

definition stands_at :: "ustr \<Rightarrow> int \<Rightarrow> int \<Rightarrow> ustr \<Rightarrow> bool" where
  "stands_at text offset limit t \<longleftrightarrow> ustr_length t \<le> limit - offset \<and>
     (\<forall>i < length (units t). UStr.charAt text (offset + int i) = units t ! i)"

lemma match_rest_loop_all: "match_rest_loop f g i n = (\<forall>j. i \<le> j \<longrightarrow> j < n \<longrightarrow> f j = g j)"
proof (induction "n - i" arbitrary: i)
  case 0
  then show ?case by (simp add: match_rest_loop.simps)
next
  case (Suc k)
  then have "i < n" by simp
  moreover have "(\<forall>j. i \<le> j \<longrightarrow> j < n \<longrightarrow> f j = g j) \<longleftrightarrow> f i = g i \<and> (\<forall>j. i + 1 \<le> j \<longrightarrow> j < n \<longrightarrow> f j = g j)"
    using calculation by (metis Suc_eq_plus1 Suc_leI le_eq_less_or_eq Suc_le_lessD)
  moreover have "match_rest_loop f g (i + 1) n = (\<forall>j. i + 1 \<le> j \<longrightarrow> j < n \<longrightarrow> f j = g j)"
    using Suc.hyps(1) [of "i + 1"] Suc.hyps(2) by simp
  ultimately show ?case by (simp add: match_rest_loop.simps [of f g i])
qed

lemma charAt_nth [simp]: "i < length (units t) \<Longrightarrow> UStr.charAt t (int i) = units t ! i"
  by (simp add: UStr.charAt_def ustr_length_def)

lemma matchRest_stands:
  assumes "offset < limit" "units t \<noteq> []" "UStr.charAt t 0 = UStr.charAt text offset"
  shows "matchRest text offset limit t = ustr_length t \<longleftrightarrow> stands_at text offset limit t"
proof -
  have pos: "0 < ustr_length t" using assms(2) by (simp add: ustr_length_def)
  have first: "units t ! 0 = UStr.charAt text offset" using assms(2,3) charAt_nth [of 0 t] by simp
  show ?thesis
  proof (cases "ustr_length t \<le> limit - offset")
    case True
    have "match_rest_loop (\<lambda>i. UStr.charAt text (offset + int i)) (\<lambda>i. UStr.charAt t (int i)) 1 (length (units t)) \<longleftrightarrow>
      (\<forall>j < length (units t). UStr.charAt text (offset + int j) = units t ! j)"
      unfolding match_rest_loop_all
    proof
      assume *: "\<forall>j. 1 \<le> j \<longrightarrow> j < length (units t) \<longrightarrow> UStr.charAt text (offset + int j) = UStr.charAt t (int j)"
      show "\<forall>j < length (units t). UStr.charAt text (offset + int j) = units t ! j"
      proof (intro allI impI)
        fix j assume j: "j < length (units t)"
        show "UStr.charAt text (offset + int j) = units t ! j"
          using * [rule_format, of j] j charAt_nth [OF j] first by (cases "j = 0") auto
      qed
    qed simp
    moreover have "(if limit - offset > ustr_length t then ustr_length t else limit - offset) = ustr_length t"
      using True by simp
    moreover have "nat (ustr_length t) = length (units t)" by (simp add: ustr_length_def)
    ultimately show ?thesis using True pos assms(1) unfolding matchRest_def Let_def stands_at_def by simp
  next
    case False
    with pos assms(1) show ?thesis by (simp add: matchRest_def Let_def stands_at_def)
  qed
qed

lemma lex_first:
  assumes "t < u" "units t \<noteq> []" "units u \<noteq> []"
  shows "units t ! 0 \<le> units u ! 0"
  using assms by (cases "units t"; cases "units u") (auto simp: less_ustr_def)

lemma lex_prefix:
  assumes "t < u" "stands_at text offset limit t" "stands_at text offset limit u"
  shows "ustr_length t \<le> ustr_length u"
proof (rule ccontr)
  assume "\<not> ustr_length t \<le> ustr_length u"
  then have l: "length (units u) < length (units t)" by (simp add: ustr_length_def)
  have "units u = take (length (units u)) (units t)"
    using l assms(2,3) by (intro nth_equalityI) (auto simp: stands_at_def)
  then obtain r where r: "units t = units u @ r" by (metis append_take_drop_id)
  with l have "r \<noteq> []" by auto
  then have "ord_class.lexordp (units u) (units t)" unfolding r by (rule lexordp_append_rightI)
  then have "u < t" by (simp add: less_ustr_def)
  with assms(1) show False by simp
qed

fun longest :: "ustr \<Rightarrow> int \<Rightarrow> int \<Rightarrow> ustr list \<Rightarrow> int \<Rightarrow> int" where
  "longest text offset limit [] n = n"
| "longest text offset limit (t # ts) n =
     longest text offset limit ts (if stands_at text offset limit t then max n (ustr_length t) else n)"

lemma longest_none: "(\<And>t. t \<in> set ts \<Longrightarrow> \<not> stands_at text offset limit t) \<Longrightarrow> longest text offset limit ts n = n"
  by (induction ts) auto

lemma match_strings_longest:
  assumes "offset < limit" "drop i (take n es) = map Some ts" "n \<le> length es" "i \<le> n" "ssorted ts"
    "\<And>t. t \<in> set ts \<Longrightarrow> units t \<noteq> []" "\<And>t. t \<in> set ts \<Longrightarrow> stands_at text offset limit t \<Longrightarrow> hw \<le> ustr_length t"
  shows "match_strings text offset limit False es i n hw = Some (Inr (longest text offset limit ts hw))"
  using assms
proof (induction ts arbitrary: i hw)
  case Nil
  then have "\<not> i < n" by auto
  then show ?case by (simp add: match_strings.simps)
next
  case (Cons t ts)
  have i: "i < n" using Cons.prems(2,3) by (cases "i < n") auto
  with Cons.prems(2,3) have e: "es ! i = Some t" "drop (i + 1) (take n es) = map Some ts"
    by (simp_all add: Cons_nth_drop_Suc [symmetric])
  have ne: "units t \<noteq> []" using Cons.prems(6) [of t] by simp
  then have t0: "UStr.charAt t 0 = units t ! 0" using charAt_nth [of 0 t] by simp
  have first: "\<not> stands_at text offset limit u" if "u \<in> set (t # ts)" "UStr.charAt text offset < units t ! 0" for u
  proof
    assume "stands_at text offset limit u"
    moreover have "units u \<noteq> []" using Cons.prems(6) that(1) by blast
    ultimately have "UStr.charAt text offset = units u ! 0" by (fastforce simp: stands_at_def)
    moreover have "units t ! 0 \<le> units u ! 0"
      using lex_first [of t u] that(1) Cons.prems(5) ne \<open>units u \<noteq> []\<close> by auto
    ultimately show False using that(2) by simp
  qed
  have other: "\<not> stands_at text offset limit t" if "units t ! 0 \<noteq> UStr.charAt text offset"
    using that ne by (fastforce simp: stands_at_def)
  have IH: "match_strings text offset limit False es (i + 1) n k = Some (Inr (longest text offset limit ts k))"
    if "\<And>u. u \<in> set ts \<Longrightarrow> stands_at text offset limit u \<Longrightarrow> k \<le> ustr_length u" for k
    by (rule Cons.IH) (use Cons.prems e(2) i that in auto)
  have keep: "\<And>u. u \<in> set ts \<Longrightarrow> stands_at text offset limit u \<Longrightarrow> hw \<le> ustr_length u"
    using Cons.prems(7) by simp
  consider (stop) "UStr.charAt text offset < units t ! 0"
    | (skip) "UStr.charAt text offset > units t ! 0"
    | (miss) "units t ! 0 = UStr.charAt text offset" "\<not> stands_at text offset limit t"
    | (hit) "units t ! 0 = UStr.charAt text offset" "stands_at text offset limit t" by fastforce
  then show ?case
  proof cases
    case stop
    with i e(1) Cons.prems(1,3) t0 first longest_none [of "t # ts" "text" offset limit hw] show ?thesis
      by (simp add: match_strings.simps [where i = i] Let_def)
  next
    case skip
    with i e(1) Cons.prems(1,3) t0 other IH [OF keep] show ?thesis
      by (simp add: match_strings.simps [where i = i] Let_def)
  next
    case miss
    with i e(1) Cons.prems(1,3) t0 IH [OF keep] matchRest_stands [OF Cons.prems(1) ne, of "text"] show ?thesis
      by (simp add: match_strings.simps [where i = i] Let_def)
  next
    case hit
    have "hw \<le> ustr_length t" using Cons.prems(7) hit(2) by simp
    moreover have "ustr_length t \<le> ustr_length u" if "u \<in> set ts" "stands_at text offset limit u" for u
      using lex_prefix [OF _ hit(2) that(2)] Cons.prems(5) that(1) by simp
    ultimately show ?thesis
      using hit i e(1) Cons.prems(1,3) t0 IH [of "ustr_length t"] matchRest_stands [OF Cons.prems(1) ne, of "text"]
      by (auto simp: match_strings.simps [where i = i] Let_def max_def)
  qed
qed

lemma Max_insert_max: "finite A \<Longrightarrow> Max (insert (max n k) A) = Max (insert (n :: int) (insert k A))"
  by (cases "A = {}") (simp_all add: max.assoc)

lemma longest_Max:
  "0 \<le> n \<Longrightarrow> longest text offset limit ts n = Max (insert n (ustr_length ` {t \<in> set ts. stands_at text offset limit t}))"
proof (induction ts arbitrary: n)
  case (Cons t ts)
  let ?A = "ustr_length ` {t \<in> set ts. stands_at text offset limit t}"
  have "{u \<in> set (t # ts). stands_at text offset limit u} =
      (if stands_at text offset limit t then insert t {u \<in> set ts. stands_at text offset limit u}
       else {u \<in> set ts. stands_at text offset limit u})" by auto
  moreover have "Max (insert (max n k) ?A) = Max (insert n (insert k ?A))" for k
    by (rule Max_insert_max) simp
  ultimately show ?case using Cons.IH [of n] Cons.IH [of "max n (ustr_length t)"] Cons.prems
    by (simp add: max.coboundedI1)
qed simp

lemma us_matches_forward:
  assumes "us_ok s" "0 \<le> offset" "offset < limit"
  shows "us_matches ask s text offset limit False =
    (if \<exists>t \<in> us_strs s. stands_at text offset limit t
     then Some (U_MATCH, offset + Max (ustr_length ` {t \<in> us_strs s. stands_at text offset limit t}))
     else filter_matches (us_contains ask s) text offset limit False)"
proof -
  from assms(1) obtain v where v: "us_strings s = Some v" "strings_ok v" "us_strs s = {t. Some t \<in> set (uv_list v)}"
    by (elim us_okE) blast
  from strings_okE [OF v(2)] obtain ss where ss: "uv_ok v" "uv_list v = map Some ss" "ssorted ss" "list_all str_ok ss"
    "{t. Some t \<in> set (uv_list v)} = set ss" by metis
  have ne: "units t \<noteq> []" if "t \<in> set ss" for t using ss(4) that by (auto simp: list_all_iff str_ok_def)
  have S: "us_strs s = set ss" using v ss by simp
  let ?A = "ustr_length ` {t \<in> us_strs s. stands_at text offset limit t}"
  have "match_strings text offset limit False (uv_elements v) 0 (nat (uv_count v)) 0 =
      Some (Inr (longest text offset limit ss 0))"
    by (rule match_strings_longest)
      (use assms(3) ss ne in \<open>auto simp: uv_list_def uv_ok_def ustr_length_def\<close>)
  then have m: "match_strings text offset limit False (uv_elements v) 0 (nat (uv_count v)) 0 = Some (Inr (Max (insert 0 ?A)))"
    by (simp add: longest_Max S)
  show ?thesis
  proof (cases "\<exists>t \<in> us_strs s. stands_at text offset limit t")
    case True
    then obtain t where t: "t \<in> us_strs s" "stands_at text offset limit t" by blast
    have fin: "finite ?A" using us_strs_finite [OF assms(1)] by simp
    have "0 < ustr_length t" using ne t(1) S by (simp add: ustr_length_def)
    also have "ustr_length t \<le> Max ?A" using t fin by (intro Max_ge) auto
    finally have pos: "0 < Max ?A" .
    moreover have "Max (insert 0 ?A) = max 0 (Max ?A)" using t fin by (intro Max_insert) auto
    ultimately have "Max (insert 0 ?A) = Max ?A" by simp
    with m have m': "match_strings text offset limit False (uv_elements v) 0 (nat (uv_count v)) 0 = Some (Inr (Max ?A))"
      by (simp only:)
    have "us_matches ask s text offset limit False = Some (U_MATCH, offset + Max ?A)"
      using m' v(1) pos assms(3) by (simp add: us_matches_def)
    with True show ?thesis by (simp only: if_True)
  next
    case False
    then have "?A = {}" by blast
    with m have "match_strings text offset limit False (uv_elements v) 0 (nat (uv_count v)) 0 = Some (Inr 0)"
      by (simp only: Max_singleton)
    with v(1) assms(3) have "us_matches ask s text offset limit False = filter_matches (us_contains ask s) text offset limit False"
      by (simp add: us_matches_def)
    with False show ?thesis by (simp only: if_False)
  qed
qed

section \<open>The low byte index\<close>

lemma index_ranges_sound:
  assumes "\<And>i. i < length ps \<Longrightarrow> us_getRangeStart s i = Some (fst (ps ! i))"
    "\<And>i. i < length ps \<Longrightarrow> us_getRangeEnd s i = Some (snd (ps ! i) - 1)"
    "\<And>a b. (a, b) \<in> set ps \<Longrightarrow> a < b" "0 \<le> v" "v < 256" "i \<le> length ps"
  shows "\<exists>b. index_ranges s v i (length ps) = Some b \<and>
    (b \<longrightarrow> (\<exists>c. c mod 256 = v \<and> (\<exists>(a, b) \<in> set (drop i ps). c \<in> {a..<b})))"
  using assms(6)
proof (induction "length ps - i" arbitrary: i)
  case 0
  then have "index_ranges s v i (length ps) = Some False" by (simp add: index_ranges.simps)
  then show ?case by blast
next
  case (Suc k)
  then have i: "i < length ps" by simp
  obtain a b where ab: "ps ! i = (a, b)" by (cases "ps ! i")
  with i have "(a, b) \<in> set ps" by (metis nth_mem)
  with assms(3) have lt: "a < b" by blast
  have q: "a = a div 256 * 256 + a mod 256" "b - 1 = (b - 1) div 256 * 256 + (b - 1) mod 256"
    "0 \<le> a mod 256" "a mod 256 < 256" "0 \<le> (b - 1) mod 256" "(b - 1) mod 256 < 256" "a \<le> b - 1"
    "a div 256 \<le> (b - 1) div 256"
    using lt by (simp_all add: zdiv_mono1)
  have here: "\<exists>c. c mod 256 = v \<and> c \<in> {a..<b}"
    if "if a div 256 = (b - 1) div 256 then a mod 256 \<le> v \<and> v \<le> (b - 1) mod 256
        else a mod 256 \<le> v \<or> v \<le> (b - 1) mod 256"
  proof (cases "a mod 256 \<le> v")
    case True
    then have "a \<le> a div 256 * 256 + v" using q by linarith
    moreover have "a div 256 * 256 + v < b"
    proof (cases "a div 256 = (b - 1) div 256")
      case True
      with that have "v \<le> (b - 1) mod 256" by simp
      with q(2) show ?thesis unfolding True by linarith
    next
      case False
      with q(8) have "a div 256 + 1 \<le> (b - 1) div 256" by linarith
      with q(2,5) assms(5) show ?thesis by linarith
    qed
    ultimately have "a \<le> a div 256 * 256 + v" "a div 256 * 256 + v < b" by auto
    then show ?thesis using assms(4,5) by (intro exI [of _ "a div 256 * 256 + v"]) simp
  next
    case False
    with that have "v \<le> (b - 1) mod 256" "a div 256 \<noteq> (b - 1) div 256" by (auto split: if_splits)
    then have "a \<le> (b - 1) div 256 * 256 + v" "(b - 1) div 256 * 256 + v < b"
      using q assms(4,5) by linarith+
    then show ?thesis using assms(4,5) by (intro exI [of _ "(b - 1) div 256 * 256 + v"]) simp
  qed
  have dr: "drop i ps = (a, b) # drop (i + 1) ps" using i ab by (simp add: Cons_nth_drop_Suc [symmetric])
  have "k = length ps - (i + 1)" "i + 1 \<le> length ps" using Suc.hyps(2) i by auto
  from Suc.hyps(1) [OF this] obtain r where r: "index_ranges s v (i + 1) (length ps) = Some r"
    "r \<longrightarrow> (\<exists>c. c mod 256 = v \<and> (\<exists>(a, b) \<in> set (drop (i + 1) ps). c \<in> {a..<b}))" by blast
  show ?case
  proof (cases "if a div 256 = (b - 1) div 256 then a mod 256 \<le> v \<and> v \<le> (b - 1) mod 256
        else a mod 256 \<le> v \<or> v \<le> (b - 1) mod 256")
    case True
    with i ab assms(1,2) [OF i] have "index_ranges s v i (length ps) = Some True"
      by (simp add: index_ranges.simps [of s v i] split: if_splits)
    moreover from here [OF True] obtain c where "c mod 256 = v" "c \<in> {a..<b}" by blast
    ultimately show ?thesis unfolding dr by auto
  next
    case False
    with i ab assms(1,2) [OF i] have "index_ranges s v i (length ps) = index_ranges s v (i + 1) (length ps)"
      by (auto simp: index_ranges.simps [of s v i] split: if_splits)
    with r show ?thesis unfolding dr by auto
  qed
qed

lemma each_from_list_in:
  assumes "i \<le> n" "n \<le> length es" "\<And>e. e \<in> set (drop i (take n es)) \<Longrightarrow> ok e = Some (p e)"
  shows "each_from ok es i n = Some (list_all p (drop i (take n es)))"
  using assms
proof (induction "n - i" arbitrary: i)
  case 0
  then show ?case by simp
next
  case (Suc k)
  then have i: "i < n" by simp
  have dr: "drop i (take n es) = es ! i # drop (i + 1) (take n es)" using i Suc.prems(2) by (simp add: Cons_nth_drop_Suc [symmetric])
  have "ok (es ! i) = Some (p (es ! i))" using Suc.prems(3) dr by simp
  moreover have "each_from ok es (i + 1) n = Some (list_all p (drop (i + 1) (take n es)))"
    by (rule Suc.hyps(1)) (use Suc.hyps(2) Suc.prems i dr in auto)
  ultimately show ?case using i Suc.prems(2) dr by (simp add: each_from.simps [of ok es i n])
qed

lemma us_matchesIndexValue_sound:
  assumes "us_ok s" "0 \<le> v" "v < 256"
  shows "\<exists>b. us_matchesIndexValue s v = Some b \<and>
    (b \<longrightarrow> (\<exists>c \<in> us_codes s. c mod 256 = v) \<or> (\<exists>t \<in> us_strs s. hd (cps (units t)) mod 256 = v))"
proof -
  from assms(1) obtain xs where xs: "ssorted xs" "us_codes s = ranges xs" "us_getRangeCount s = length (pairs xs)"
    and g: "\<And>i. i < length (pairs xs) \<Longrightarrow> us_getRangeStart s i = Some (fst (pairs xs ! i))"
      "\<And>i. i < length (pairs xs) \<Longrightarrow> us_getRangeEnd s i = Some (snd (pairs xs ! i) - 1)"
    by (elim us_ranges) blast
  have lt: "(a, b) \<in> set (pairs xs) \<Longrightarrow> a < b" for a b using pairs_less [OF xs(1)] by blast
  have mem: "c \<in> us_codes s \<longleftrightarrow> (\<exists>(a, b) \<in> set (pairs xs). c \<in> {a..<b})" for c
    by (force simp: xs(2) ranges_pairs)
  have codes: "(\<exists>c. c mod 256 = v \<and> (\<exists>(a, b) \<in> set (drop 0 (pairs xs)). c \<in> {a..<b})) \<longleftrightarrow> (\<exists>c \<in> us_codes s. c mod 256 = v)"
    unfolding Bex_def [of "us_codes s"] mem drop_0 by blast
  from index_ranges_sound [OF g lt assms(2,3), of 0] obtain b where b:
    "index_ranges s v 0 (us_getRangeCount s) = Some b" "b \<longrightarrow> (\<exists>c \<in> us_codes s. c mod 256 = v)"
    unfolding codes xs(3) by blast
  from assms(1) obtain vec where vec: "us_strings s = Some vec" "strings_ok vec" "us_strs s = {t. Some t \<in> set (uv_list vec)}"
    by (elim us_okE) blast
  from strings_okE [OF vec(2)] obtain ss where ss: "uv_ok vec" "uv_list vec = map Some ss" "list_all str_ok ss"
    "{t. Some t \<in> set (uv_list vec)} = set ss" by metis
  have c: "char32At t 0 = Some (hd (cps (units t)))" if "t \<in> set ss" for t
  proof -
    have "units t \<noteq> []" using ss(3) that by (auto simp: list_all_iff str_ok_def)
    with u16_get_first [of "units t"] show ?thesis by (simp add: char32At_def ustr_length_def)
  qed
  have "each_from (\<lambda>e. do { t \<leftarrow> e; c \<leftarrow> char32At t 0; Some (c mod 256 \<noteq> v) }) (uv_elements vec) 0 (nat (uv_count vec)) =
      Some (list_all (\<lambda>e. case e of None \<Rightarrow> True | Some t \<Rightarrow> hd (cps (units t)) mod 256 \<noteq> v) (uv_list vec))"
  proof -
    have l: "take (nat (uv_count vec)) (uv_elements vec) = map Some ss" using ss(2) by (simp add: uv_list_def)
    have "each_from (\<lambda>e. do { t \<leftarrow> e; c \<leftarrow> char32At t 0; Some (c mod 256 \<noteq> v) }) (uv_elements vec) 0 (nat (uv_count vec)) =
      Some (list_all (\<lambda>e. case e of None \<Rightarrow> True | Some t \<Rightarrow> hd (cps (units t)) mod 256 \<noteq> v)
        (drop 0 (take (nat (uv_count vec)) (uv_elements vec))))"
      by (rule each_from_list_in) (use ss(1) l c in \<open>auto simp: uv_ok_def\<close>)
    then show ?thesis by (simp add: uv_list_def)
  qed
  with b vec ss show ?thesis by (auto simp: us_matchesIndexValue_def list_all_iff)
qed

section \<open>The contract of the queries\<close>

text \<open>C28: \<open>operator==\<close> is extensional: because the inversion list of a set is unique and the
  strings are kept sorted, comparing the two arrays answers whether the sets have the same code
  points and strings; equal sets have the same hash code.\<close>

theorem unicodeset_equals_extensional:
  fixes s t :: "'ss uset"
  assumes "us_ok s" "us_ok t"
  shows "us_equals s t = Some (us_codes s = us_codes t \<and> us_strs s = us_strs t) \<and>
    (us_equals s t = Some True \<longrightarrow> us_hashCode s = us_hashCode t \<and> us_hashCode s \<noteq> None)"
  using us_equals_iff [OF assms] us_hash_equal [OF assms] by auto

theorem unicodeset_equals_extensional_witness:
  "us_equals (set_of [97, 123, 1114112] []) (set_of [65, 91, 1114112] [UStr [99, 104]]) = Some False \<and>
   us_equals (set_of [97, 123, 1114112] []) (set_of [97, 123, 1114112] []) = Some True"
proof -
  have "{97..122::int} \<noteq> {65..90}" by auto
  with unicodeset_equals_extensional [of "set_of [97, 123, 1114112] []" "set_of [65, 91, 1114112] [UStr [99, 104]]"]
    unicodeset_equals_extensional [of "set_of [97, 123, 1114112] []" "set_of [97, 123, 1114112] []"]
  show ?thesis by simp
qed

text \<open>\<open>size\<close> is the number of code points plus the number of strings.\<close>

theorem unicodeset_size:
  fixes s :: "'ss uset"
  assumes "us_ok s"
  shows "us_size s = Some (int (card (us_codes s)) + int (card (us_strs s)))"
  using us_size_card [OF assms] .

theorem unicodeset_size_witness: "us_size (set_of [65, 91, 1114112] [UStr [99, 104]]) = Some 27"
  using unicodeset_size [of "set_of [65, 91, 1114112] [UStr [99, 104]]"] by simp

text \<open>The range and set forms of \<open>contains\<close> decide inclusion and disjointness of code
  points and strings.\<close>

theorem unicodeset_inclusion:
  fixes s c :: "'ss uset"
  assumes "us_ok s" "us_ok c" "0 \<le> a" "a \<le> b" "b \<le> 1114111"
  shows "us_contains_range s a b = Some ({a..b} \<subseteq> us_codes s) \<and>
    us_containsNone_range s a b = Some ({a..b} \<inter> us_codes s = {}) \<and>
    us_containsAll s c = Some (us_codes c \<subseteq> us_codes s \<and> us_strs c \<subseteq> us_strs s) \<and>
    us_containsNone s c = Some (us_codes c \<inter> us_codes s = {} \<and> us_strs c \<inter> us_strs s = {})"
  using us_contains_range_iff [OF assms(1,3,4)] us_containsNone_range_iff [OF assms(1,3,4)]
    us_containsAll_iff [OF assms(1,2)] us_containsNone_iff [OF assms(1,2)] assms(5) by simp

theorem unicodeset_inclusion_witness:
  "us_contains_range (set_of [97, 123, 1114112] []) 100 122 = Some True \<and>
   us_containsNone_range (set_of [97, 123, 1114112] []) 100 122 = Some False \<and>
   us_containsAll (set_of [97, 123, 1114112] []) (set_of [65, 91, 1114112] [UStr [99, 104]]) = Some False \<and>
   us_containsNone (set_of [97, 123, 1114112] []) (set_of [65, 91, 1114112] [UStr [99, 104]]) = Some True"
proof -
  have "\<not> {65..90} \<subseteq> {97..122::int}" "{65..90} \<inter> {97..122::int} = {}" "{100..122} \<inter> {97..122::int} \<noteq> {}" by auto
  with unicodeset_inclusion [of "set_of [97, 123, 1114112] []" "set_of [65, 91, 1114112] [UStr [99, 104]]" 100 122]
  show ?thesis by simp
qed

text \<open>C29: \<open>indexOf\<close> numbers the code points of the set in ascending order from 0 and
  \<open>charAt\<close> is its inverse; a code point outside the set has index -1 and an index outside the
  set has no code point. Both loops end inside the array.\<close>

theorem unicodeset_index_roundtrip:
  fixes s :: "'ss uset"
  assumes "us_ok s"
  shows "us_indexOf s c = Some (if c \<in> us_codes s then int (card {x \<in> us_codes s. x < c}) else -1) \<and>
    (c \<in> us_codes s \<longrightarrow> us_charAt s (int (card {x \<in> us_codes s. x < c})) = Some c) \<and>
    (0 \<le> k \<and> k < int (card (us_codes s)) \<longrightarrow>
      (\<exists>d \<in> us_codes s. us_charAt s k = Some d \<and> us_indexOf s d = Some k)) \<and>
    (k < 0 \<or> int (card (us_codes s)) \<le> k \<longrightarrow> us_charAt s k = Some (-1))"
proof (intro conjI)
  show "us_indexOf s c = Some (if c \<in> us_codes s then int (card {x \<in> us_codes s. x < c}) else -1)"
    using us_indexOf_below [OF assms] by (simp add: below_def)
  show "c \<in> us_codes s \<longrightarrow> us_charAt s (int (card {x \<in> us_codes s. x < c})) = Some c"
    using us_charAt_indexOf [OF assms] by (simp add: below_def)
  show "0 \<le> k \<and> k < int (card (us_codes s)) \<longrightarrow>
      (\<exists>d \<in> us_codes s. us_charAt s k = Some d \<and> us_indexOf s d = Some k)"
  proof
    assume k: "0 \<le> k \<and> k < int (card (us_codes s))"
    then obtain d where d: "d \<in> us_codes s" "us_charAt s k = Some d" "below d (us_codes s) = k"
      using us_charAt_below [OF assms, of k] by auto
    moreover have "us_indexOf s d = Some k" using us_indexOf_below [OF assms, of d] d by simp
    ultimately show "\<exists>d \<in> us_codes s. us_charAt s k = Some d \<and> us_indexOf s d = Some k" by blast
  qed
  show "k < 0 \<or> int (card (us_codes s)) \<le> k \<longrightarrow> us_charAt s k = Some (-1)"
    using us_charAt_below [OF assms, of k] by (cases "k < 0") (auto simp: us_charAt_def)
qed

theorem unicodeset_index_roundtrip_witness:
  "us_indexOf (set_of [97, 123, 1114112] []) 99 = Some 2 \<and> us_charAt (set_of [97, 123, 1114112] []) 2 = Some 99 \<and>
   us_charAt (set_of [97, 123, 1114112] []) 26 = Some (-1)"
proof -
  have "{x \<in> {97..122::int}. x < 99} = {97..98}" by auto
  then have n: "card {x. 97 \<le> x \<and> x \<le> 122 \<and> x < (99::int)} = 2" by simp
  show ?thesis
    using unicodeset_index_roundtrip [of "set_of [97, 123, 1114112] []" 99 26] n by simp
qed

text \<open>C30: A forward, complete match prefers strings to code points and takes the longest
  string of the set that stands in the text before the limit, although the loop leaves early on
  the first string that sorts after the text; without one it falls back to a single code
  point.\<close>

theorem unicodeset_matches_longest:
  fixes s :: "'ss uset"
  assumes "us_ok s" "0 \<le> offset" "offset < limit"
  shows "us_matches ask s text offset limit False =
    (if \<exists>t \<in> us_strs s. stands_at text offset limit t
     then Some (U_MATCH, offset + Max (ustr_length ` {t \<in> us_strs s. stands_at text offset limit t}))
     else filter_matches (us_contains ask s) text offset limit False)"
  using assms by (rule us_matches_forward)

theorem unicodeset_matches_longest_witness:
  "us_matches (\<lambda>_ _. None) (set_of [65, 91, 1114112] [UStr [99, 104]]) (UStr [97, 99, 104, 101]) 1 4 False = Some (U_MATCH, 3)"
proof -
  have "stands_at (UStr [97, 99, 104, 101]) 1 4 (UStr [99, 104])"
    by (simp add: stands_at_def ustr_length_def UStr.charAt_def less_Suc_eq_0_disj all_conj_distrib)
  then have "{t. t = UStr [99, 104] \<and> stands_at (UStr [97, 99, 104, 101]) 1 4 t} = {UStr [99, 104]}" by auto
  with \<open>stands_at _ _ _ _\<close> show ?thesis
    using unicodeset_matches_longest [of "set_of [65, 91, 1114112] [UStr [99, 104]]" 1 4 "\<lambda>_ _. None" "UStr [97, 99, 104, 101]"]
    by (simp add: ustr_length_def)
qed

text \<open>\<open>matchesIndexValue\<close> never answers yes without an element whose (first) code point
  has the low byte \<open>v\<close>, but it is not complete: for a range that spans more than two high bytes
  it can answer no although the range contains every low byte.\<close>

theorem unicodeset_matchesIndexValue_incomplete:
  fixes s :: "'ss uset"
  assumes "us_ok s" "0 \<le> v" "v < 256"
  shows "(\<exists>b. us_matchesIndexValue s v = Some b \<and>
      (b \<longrightarrow> (\<exists>c \<in> us_codes s. c mod 256 = v) \<or> (\<exists>t \<in> us_strs s. hd (cps (units t)) mod 256 = v))) \<and>
    us_matchesIndexValue (set_of [272, 774, 1114112] []) 8 = Some False \<and>
    520 \<in> us_codes (set_of [272, 774, 1114112] []) \<and> (520 :: int) mod 256 = 8"
proof (intro conjI)
  show "us_matchesIndexValue (set_of [272, 774, 1114112] []) 8 = Some False"
    by (simp add: us_matchesIndexValue_def us_getRangeCount_def us_getRangeStart_def us_getRangeEnd_def us_used_def
        set_of_def index_ranges.simps)
  show "520 \<in> us_codes (set_of [272, 774, 1114112] [])"
    by (simp add: us_codes_def us_used_def set_of_def inv_set_def)
qed (use us_matchesIndexValue_sound [OF assms] in simp_all)

theorem unicodeset_matchesIndexValue_incomplete_witness:
  "(\<exists>b. us_matchesIndexValue (set_of [97, 123, 1114112] []) 100 = Some b) \<and>
   us_matchesIndexValue (set_of [272, 774, 1114112] []) 8 = Some False"
  using unicodeset_matchesIndexValue_incomplete [of "set_of [97, 123, 1114112] []" 100] by auto

end
