(* ===== verification/USetSerial.thy ===== *)
theory USetSerial
  imports USetQuery
begin

text \<open>
  The 16-bit serialized form of a set: \<open>UnicodeSet::serialize\<close> (\<open>uniset.cpp\<close>) and the
  functions of \<open>uset.cpp\<close> that read it (\<open>uset_getSerializedSet\<close>, \<open>uset_serializedContains\<close>,
  \<open>uset_getSerializedRangeCount\<close>, \<open>uset_getSerializedRange\<close>, \<open>uset_setSerializedToOne\<close>).
  The final HIGH of the inversion list is not stored; BMP values take one unit and
  supplementary ones two, high half first.
\<close>

section \<open>Writing\<close>

function bmp_prefix :: "int list \<Rightarrow> nat \<Rightarrow> nat \<Rightarrow> nat option" where
  "bmp_prefix xs k n =
     (if k < n then (case rd xs k of None \<Rightarrow> None | Some x \<Rightarrow> if x \<le> 65535 then bmp_prefix xs (k + 1) n else Some k)
      else Some k)"
  by pat_completeness auto
termination
  by (relation "measure (\<lambda>(xs, k, n). n - k)") auto

declare bmp_prefix.simps [simp del]

text \<open>\<open>*dest++=(uint16_t)(*p>>16); *dest++=(uint16_t)*p++;\<close>\<close>

definition supp_units :: "int list \<Rightarrow> int list" where
  "supp_units ps = concat (map (\<lambda>p. [p div 65536 mod 65536, p mod 65536]) ps)"

definition store :: "int list \<Rightarrow> int list option \<Rightarrow> int list option option" where
  "store out dest =
     do { d \<leftarrow> dest; if length out \<le> length d then Some (Some (out @ drop (length out) d)) else None }"

definition us_serialize ::
  "'ss uset \<Rightarrow> int list option \<Rightarrow> int \<Rightarrow> UErrorCode \<Rightarrow> (int \<times> int list option \<times> UErrorCode) option" where
  "us_serialize s dest destCapacity ec =
     (if U_FAILURE ec then Some (0, dest, ec)
      else if destCapacity < 0 \<or> (destCapacity > 0 \<and> dest = None)
      then Some (0, dest, U_ILLEGAL_ARGUMENT_ERROR)
      else do {
        let len = us_len s - 1;
        if len = 0
        then if destCapacity > 0 then do { d \<leftarrow> store [0] dest; Some (1, d, ec) }
             else Some (1, dest, U_BUFFER_OVERFLOW_ERROR)
        else do {
          list \<leftarrow> us_used s;
          last \<leftarrow> rd list (len - 1);
          first \<leftarrow> rd list 0;
          (bmpLength, length) \<leftarrow>
            (if last \<le> 65535 then Some (len, len)
             else if first \<ge> 65536 then Some (0, len * 2)
             else do { b \<leftarrow> bmp_prefix list 0 len; Some (b, b + 2 * (len - b)) });
          if length > 32767 then Some (0, dest, U_INDEX_OUTOFBOUNDS_ERROR)
          else do {
            let destLength = int length + (if length > bmpLength then 2 else 1);
            if destLength \<le> destCapacity
            then do {
              let head = (if length > bmpLength then [int length + 32768, int bmpLength] else [int length]);
              d \<leftarrow> store (head @ map (\<lambda>p. p mod 65536) (take bmpLength list) @
                     supp_units (take ((length - bmpLength) div 2) (drop bmpLength list))) dest;
              Some (destLength, d, ec) }
            else Some (destLength, dest, U_BUFFER_OVERFLOW_ERROR) } } })"

section \<open>Reading\<close>

text \<open>
  A serialized set points into a block of memory: \<open>array[i]\<close> is cell \<open>ss_off + i\<close> of the
  block, and a cell outside the block is a read outside the allocation.
\<close>

record serialized_set =
  ss_block :: "int list"
  ss_off :: int
  ss_bmpLength :: int
  ss_length :: int
  ss_static :: "int list"

definition array_at :: "serialized_set \<Rightarrow> int \<Rightarrow> int option" where
  "array_at ser i = (if 0 \<le> ss_off ser + i then rd (ss_block ser) (nat (ss_off ser + i)) else None)"

text \<open>\<open>src\<close> is NULL for \<open>None\<close>; the boolean is what the function returns.\<close>

definition getSerializedSet ::
  "serialized_set \<Rightarrow> int list option \<Rightarrow> int \<Rightarrow> (bool \<times> serialized_set) option" where
  "getSerializedSet fillSet src srcLength =
     (let nothing = fillSet\<lparr>ss_length := 0, ss_bmpLength := 0\<rparr> in
      case src of None \<Rightarrow> Some (False, nothing)
      | Some block \<Rightarrow>
          if srcLength \<le> 0 then Some (False, nothing)
          else do {
            len \<leftarrow> rd block 0;
            if len div 32768 mod 2 = 1
            then let len = len mod 32768 in
                 if srcLength < 2 + len then Some (False, nothing)
                 else do { b \<leftarrow> rd block 1;
                           Some (True, fillSet\<lparr>ss_block := block, ss_off := 2, ss_bmpLength := b, ss_length := len\<rparr>) }
            else if srcLength < 1 + len then Some (False, nothing)
                 else Some (True, fillSet\<lparr>ss_block := block, ss_off := 1, ss_bmpLength := len, ss_length := len\<rparr>) })"

text \<open>Here the array is the set's own \<open>staticArray\<close>, of eight cells.\<close>

definition in_static :: "serialized_set \<Rightarrow> int list \<Rightarrow> int \<Rightarrow> serialized_set" where
  "in_static fillSet us bmpLength =
     (let st = us @ drop (length us) (ss_static fillSet)
      in fillSet\<lparr>ss_block := st, ss_off := 0, ss_static := st, ss_bmpLength := bmpLength,
                 ss_length := int (length us)\<rparr>)"

definition setSerializedToOne :: "serialized_set \<Rightarrow> int \<Rightarrow> serialized_set" where
  "setSerializedToOne fillSet c =
     (if c < 0 \<or> c > 1114111 then fillSet
      else if c < 65535 then in_static fillSet [c, c + 1] 2
      else if c = 65535 then in_static fillSet [65535, 1, 0] 1
      else if c < 1114111
      then in_static fillSet [c div 65536, c mod 65536, (c + 1) div 65536, (c + 1) mod 65536] 0
      else in_static fillSet [16, 65535] 0)"

partial_function (option) bmp_find :: "serialized_set \<Rightarrow> int \<Rightarrow> int \<Rightarrow> int \<Rightarrow> int option" where
  "bmp_find ser c lo hi =
     (let i = (lo + hi) div 2 in
      if i = lo then Some hi
      else do { x \<leftarrow> array_at ser i;
                if c < x then bmp_find ser c lo i else bmp_find ser c i hi })"

text \<open>\<open>high < array[k] || (high==array[k] && low<array[k+1])\<close>\<close>

definition pair_less :: "serialized_set \<Rightarrow> int \<Rightarrow> int \<Rightarrow> int \<Rightarrow> bool option" where
  "pair_less ser high lw k =
     do { x \<leftarrow> array_at ser k;
          if high < x then Some True
          else if high = x then do { y \<leftarrow> array_at ser (k + 1); Some (lw < y) } else Some False }"

text \<open>
  The search in the supplementary part. Its loop need not end (it does not when the
  supplementary part is empty and \<open>hi\<close> starts at -2): then the function has no value.
\<close>

partial_function (option) supp_find ::
  "serialized_set \<Rightarrow> int \<Rightarrow> int \<Rightarrow> int \<Rightarrow> int \<Rightarrow> int \<Rightarrow> int option" where
  "supp_find ser base high lw lo hi =
     (let i = (lo + hi) div 2 div 2 * 2 in
      if i = lo then Some hi
      else do { b \<leftarrow> pair_less ser high lw (i + base);
                if b then supp_find ser base high lw lo i else supp_find ser base high lw i hi })"

definition serializedContains :: "serialized_set \<Rightarrow> int \<Rightarrow> bool option" where
  "serializedContains ser c =
     (if c < 0 \<or> c > 1114111 then Some False
      else if c \<le> 65535
      then do {
        let hi = ss_bmpLength ser - 1;
        x \<leftarrow> array_at ser 0;
        hi \<leftarrow> (if c < x then Some 0
              else do { y \<leftarrow> array_at ser hi;
                        if c < y then bmp_find ser c 0 hi else Some (hi + 1) });
        Some (odd hi) }
      else do {
        let high = c div 65536;
        let lw = c mod 65536;
        let base = ss_bmpLength ser;
        let hi = ss_length ser - 2 - base;
        first \<leftarrow> pair_less ser high lw base;
        hi \<leftarrow> (if first then Some 0
              else do { l \<leftarrow> pair_less ser high lw (base + hi);
                        if l then supp_find ser base high lw 0 hi else Some (hi + 2) });
        Some (odd ((hi + base * 2) div 2)) })"

text \<open>The division of C truncates towards zero.\<close>

definition half :: "int \<Rightarrow> int" where
  "half x = (if x < 0 then - ((- x) div 2) else x div 2)"

definition getSerializedRangeCount :: "serialized_set \<Rightarrow> int" where
  "getSerializedRangeCount ser = half (ss_bmpLength ser + half (ss_length ser - ss_bmpLength ser) + 1)"

definition pair_value :: "serialized_set \<Rightarrow> int \<Rightarrow> int option" where
  "pair_value ser k = do { x \<leftarrow> array_at ser k; y \<leftarrow> array_at ser (k + 1); Some (x * 65536 + y) }"

text \<open>\<open>Some None\<close>: the function returns FALSE.\<close>

definition getSerializedRange :: "serialized_set \<Rightarrow> int \<Rightarrow> (int \<times> int) option option" where
  "getSerializedRange ser rangeIndex =
     (if rangeIndex < 0 then Some None
      else let bmpLength = ss_bmpLength ser; length = ss_length ser; r = rangeIndex * 2 in
        if r < bmpLength
        then do {
          start \<leftarrow> array_at ser r;
          limit \<leftarrow> (if r + 1 < bmpLength then do { x \<leftarrow> array_at ser (r + 1); Some (x - 1) }
                   else if r + 1 < length then do { x \<leftarrow> pair_value ser (r + 1); Some (x - 1) }
                   else Some 1114111);
          Some (Some (start, limit)) }
        else let r = (r - bmpLength) * 2; rest = length - bmpLength in
          if r < rest
          then do {
            start \<leftarrow> pair_value ser (bmpLength + r);
            limit \<leftarrow> (if r + 2 < rest then do { x \<leftarrow> pair_value ser (bmpLength + r + 2); Some (x - 1) }
                     else Some 1114111);
            Some (Some (start, limit)) }
          else Some None)"

section \<open>The serialized form of a set\<close>

text \<open>The boundaries below HIGH, split into the BMP part and the supplementary part.\<close>

definition bounds :: "'ss uset \<Rightarrow> int list" where
  "bounds s = (case us_used s of Some xs \<Rightarrow> butlast xs | None \<Rightarrow> [])"

definition bmp_part :: "int list \<Rightarrow> int list" where
  "bmp_part xs = takeWhile (\<lambda>x. x \<le> 65535) xs"

definition supp_part :: "int list \<Rightarrow> int list" where
  "supp_part xs = dropWhile (\<lambda>x. x \<le> 65535) xs"

definition body :: "int list \<Rightarrow> int list" where
  "body xs = bmp_part xs @ supp_units (supp_part xs)"

definition serial :: "int list \<Rightarrow> int list" where
  "serial xs = (if supp_part xs = [] then [int (length (body xs))]
                else [int (length (body xs)) + 32768, int (length (bmp_part xs))]) @ body xs"

lemma length_supp_units [simp]: "length (supp_units ps) = 2 * length ps"
  by (induction ps) (simp_all add: supp_units_def)

lemma supp_units_Cons [simp]:
  "supp_units [] = []" "supp_units (p # ps) = p div 65536 mod 65536 # p mod 65536 # supp_units ps"
  by (simp_all add: supp_units_def)

lemma bmp_prefix_takeWhile:
  assumes "k \<le> n" "n \<le> length xs"
  shows "bmp_prefix xs k n = Some (k + length (takeWhile (\<lambda>x. x \<le> 65535) (drop k (take n xs))))"
  using assms
proof (induction "n - k" arbitrary: k)
  case 0
  then show ?case by (simp add: bmp_prefix.simps)
next
  case (Suc m)
  then have k: "k < n" "k < length xs" by auto
  with Suc.prems have dr: "drop k (take n xs) = xs ! k # drop (k + 1) (take n xs)"
    by (simp add: Cons_nth_drop_Suc [symmetric])
  from Suc.hyps(1) [of "k + 1"] Suc.hyps(2) k Suc.prems(2) show ?case
    by (simp add: bmp_prefix.simps [of xs k] dr)
qed

lemma bounds_spec:
  assumes "us_ok s"
  obtains xs where "bounds s = xs" "us_used s = Some (xs @ [UNICODESET_HIGH])" "us_len s = length xs + 1"
    "inv_list (xs @ [UNICODESET_HIGH])" "us_codes s = inv_set (xs @ [UNICODESET_HIGH])"
    "ssorted xs" "\<And>x. x \<in> set xs \<Longrightarrow> 0 \<le> x \<and> x < UNICODESET_HIGH"
proof -
  from assms obtain ys where ys: "us_used s = Some ys" "inv_list ys" "length ys = us_len s" "us_codes s = inv_set ys"
    by (elim us_okE) blast
  have e: "ys = butlast ys @ [UNICODESET_HIGH]"
    using inv_listD(1,3) [OF ys(2)] append_butlast_last_id [of ys] by simp
  have b: "bounds s = butlast ys" using ys(1) by (simp add: bounds_def)
  have srt: "ssorted (butlast ys @ [UNICODESET_HIGH])" using inv_listD(2) [OF ys(2)] e by simp
  show thesis
  proof (rule that [OF b])
    show "us_used s = Some (butlast ys @ [UNICODESET_HIGH])" using ys(1) e by simp
    show "us_len s = length (butlast ys) + 1" using ys(3) e by (metis length_append_singleton Suc_eq_plus1)
    show "inv_list (butlast ys @ [UNICODESET_HIGH])" "us_codes s = inv_set (butlast ys @ [UNICODESET_HIGH])"
      using ys(2,4) e by simp_all
    show "ssorted (butlast ys)" using srt by (simp add: sorted_wrt_append)
    show "0 \<le> x \<and> x < UNICODESET_HIGH" if "x \<in> set (butlast ys)" for x
      using that srt inv_listD(5) [OF ys(2), of x] in_set_butlastD [OF that] by (simp add: sorted_wrt_append)
  qed
qed

lemma parts:
  assumes "ssorted xs" "\<And>x. x \<in> set xs \<Longrightarrow> 0 \<le> x \<and> x < UNICODESET_HIGH"
  shows "xs = bmp_part xs @ supp_part xs" "x \<in> set (bmp_part xs) \<Longrightarrow> 0 \<le> x \<and> x \<le> 65535"
    "x \<in> set (supp_part xs) \<Longrightarrow> 65536 \<le> x \<and> x < UNICODESET_HIGH"
    "ssorted (bmp_part xs)" "ssorted (supp_part xs)"
proof -
  show e: "xs = bmp_part xs @ supp_part xs" by (simp add: bmp_part_def supp_part_def)
  show "x \<in> set (bmp_part xs) \<Longrightarrow> 0 \<le> x \<and> x \<le> 65535"
    using assms(2) [of x] set_takeWhileD [of x] by (auto simp: bmp_part_def)
  have srt: "ssorted (bmp_part xs @ supp_part xs)" using assms(1) e by simp
  then show "ssorted (bmp_part xs)" "ssorted (supp_part xs)" by (simp_all add: sorted_wrt_append)
  have sup: "65536 \<le> x" if "ssorted ys" "x \<in> set (dropWhile (\<lambda>x. x \<le> 65535) ys)" for x :: int and ys
    using that by (induction ys) (auto split: if_splits)
  show "x \<in> set (supp_part xs) \<Longrightarrow> 65536 \<le> x \<and> x < UNICODESET_HIGH"
    using sup [OF assms(1)] assms(2) [of x] set_dropWhileD [of x] by (auto simp: supp_part_def)
qed

lemma bmp_part_all: "(\<And>x. x \<in> set xs \<Longrightarrow> x \<le> 65535) \<Longrightarrow> bmp_part xs = xs \<and> supp_part xs = []"
  by (simp add: bmp_part_def supp_part_def)

lemma bmp_part_none: "xs = [] \<or> 65536 \<le> xs ! 0 \<Longrightarrow> bmp_part xs = [] \<and> supp_part xs = xs"
  by (cases xs) (auto simp: bmp_part_def supp_part_def)

lemma length_body: "length (body xs) = length (bmp_part xs) + 2 * length (supp_part xs)"
  by (simp add: body_def)

lemma us_serialize_lengths:
  assumes "ssorted xs" "xs \<noteq> []"
  shows "(if (xs @ [h]) ! (length xs - 1) \<le> 65535 then Some (length xs, length xs)
     else if (xs @ [h]) ! 0 \<ge> 65536 then Some (0, length xs * 2)
     else do { b \<leftarrow> bmp_prefix (xs @ [h]) 0 (length xs); Some (b, b + 2 * (length xs - b)) }) =
    Some (length (bmp_part xs), length (body xs))"
proof -
  have n: "(xs @ [h]) ! (length xs - 1) = last xs" "(xs @ [h]) ! 0 = xs ! 0"
    using assms(2) by (simp_all add: nth_append last_conv_nth)
  have len: "length xs = length (bmp_part xs) + length (supp_part xs)"
    by (simp add: bmp_part_def supp_part_def flip: length_append)
  consider "last xs \<le> 65535" | "\<not> last xs \<le> 65535" "65536 \<le> xs ! 0" | "\<not> last xs \<le> 65535" "\<not> 65536 \<le> xs ! 0" by blast
  then show ?thesis
  proof cases
    case 1
    then have "bmp_part xs = xs \<and> supp_part xs = []"
      using bmp_part_all ssorted_le_last [OF assms(1)] by fastforce
    with 1 n show ?thesis by (simp add: length_body)
  next
    case 2
    with bmp_part_none [of xs] n show ?thesis by (simp add: length_body)
  next
    case 3
    have "bmp_prefix (xs @ [h]) 0 (length xs) = Some (length (bmp_part xs))"
      by (simp add: bmp_prefix_takeWhile bmp_part_def)
    with 3 n len show ?thesis by (simp add: length_body)
  qed
qed

lemma us_serialize_eq:
  assumes "us_ok s" "0 \<le> cap" "cap \<le> int (length d)"
  shows "us_serialize s (Some d) cap U_ZERO_ERROR =
    (if length (body (bounds s)) > 32767 then Some (0, Some d, U_INDEX_OUTOFBOUNDS_ERROR)
     else if int (length (serial (bounds s))) \<le> cap
     then Some (int (length (serial (bounds s))),
       Some (serial (bounds s) @ drop (length (serial (bounds s))) d), U_ZERO_ERROR)
     else Some (int (length (serial (bounds s))), Some d, U_BUFFER_OVERFLOW_ERROR))"
proof -
  from bounds_spec [OF assms(1)] obtain xs where xs: "bounds s = xs" "us_used s = Some (xs @ [UNICODESET_HIGH])"
    "us_len s = length xs + 1" "ssorted xs" "\<And>x. x \<in> set xs \<Longrightarrow> 0 \<le> x \<and> x < UNICODESET_HIGH" by blast
  note p = parts [OF xs(4,5)]
  have sto: "store us (Some d) = Some (Some (us @ drop (length us) d))" if "int (length us) \<le> cap" for us
    using that assms(3) by (simp add: store_def)
  show ?thesis
  proof (cases "xs = []")
    case True
    then have "body xs = []" "serial xs = [0]" by (simp_all add: body_def serial_def bmp_part_def supp_part_def)
    with True xs(1-3) sto [of "[0]"] assms(2) show ?thesis by (simp add: us_serialize_def Let_def)
  next
    case False
    let ?b = "length (bmp_part xs)" and ?l = "length (body xs)"
    have rds: "rd (xs @ [UNICODESET_HIGH]) (length xs - 1) = Some ((xs @ [UNICODESET_HIGH]) ! (length xs - 1))"
      "rd (xs @ [UNICODESET_HIGH]) 0 = Some ((xs @ [UNICODESET_HIGH]) ! 0)" by simp_all
    have m: "map (\<lambda>p. p mod 65536) (take ?b (xs @ [UNICODESET_HIGH])) = bmp_part xs"
    proof -
      have "take ?b (xs @ [UNICODESET_HIGH]) = bmp_part xs"
        using arg_cong [OF p(1), of "\<lambda>ys. take ?b (ys @ [UNICODESET_HIGH])"] by simp
      moreover have "map (\<lambda>p. p mod 65536) (bmp_part xs) = bmp_part xs"
        by (rule map_idI) (use p(2) in fastforce)
      ultimately show ?thesis by simp
    qed
    have "take ((?l - ?b) div 2) (drop ?b (xs @ [UNICODESET_HIGH])) = supp_part xs"
    proof -
      have "drop ?b (xs @ [UNICODESET_HIGH]) = supp_part xs @ [UNICODESET_HIGH]"
        using arg_cong [OF p(1), of "\<lambda>ys. drop ?b (ys @ [UNICODESET_HIGH])"] by simp
      then show ?thesis by (simp add: length_body)
    qed
    with m have out: "head @ map (\<lambda>p. p mod 65536) (take ?b (xs @ [UNICODESET_HIGH])) @
        supp_units (take ((?l - ?b) div 2) (drop ?b (xs @ [UNICODESET_HIGH]))) = head @ body xs" for head
      by (simp add: body_def)
    have gt: "?b < ?l \<longleftrightarrow> supp_part xs \<noteq> []" by (simp add: length_body)
    have hd: "(if ?l > ?b then [int ?l + 32768, int ?b] else [int ?l]) @ body xs = serial xs"
      by (simp add: serial_def gt)
    have n: "int ?l + (if ?l > ?b then 2 else 1) = int (length (serial xs))"
      by (simp add: serial_def gt)
    have len: "us_len s - 1 = length xs" "length xs \<noteq> 0" using xs(3) False by simp_all
    have cap: "\<not> (cap < 0 \<or> (cap > 0 \<and> Some d = None))" using assms(2) by simp
    show ?thesis
      unfolding us_serialize_def Let_def len(1) xs(1) xs(2) bind.bind_lunit rds
        us_serialize_lengths [OF xs(4) False] prod.case out n hd
      using cap len(2) sto [of "serial xs"] by simp
  qed
qed

section \<open>Reading it back\<close>

definition read_set :: "serialized_set \<Rightarrow> int list \<Rightarrow> int list \<Rightarrow> serialized_set" where
  "read_set f xs rest =
     f\<lparr>ss_block := serial xs @ rest, ss_off := (if supp_part xs = [] then 1 else 2),
       ss_bmpLength := int (length (bmp_part xs)), ss_length := int (length (body xs))\<rparr>"

lemma getSerializedSet_serial:
  assumes "length (body xs) \<le> 32767" "int (length (serial xs)) \<le> n"
  shows "getSerializedSet f (Some (serial xs @ rest)) n = Some (True, read_set f xs rest)"
proof (cases "supp_part xs = []")
  case True
  then have "serial xs @ rest = int (length (body xs)) # body xs @ rest" "body xs = bmp_part xs"
    by (simp_all add: serial_def body_def)
  moreover have "int (length (body xs)) div 32768 = 0" using assms(1) by simp
  ultimately show ?thesis using True assms
    by (simp add: getSerializedSet_def Let_def read_set_def serial_def)
next
  case False
  have b: "(int (length (body xs)) + 32768) div 32768 = 1" "(int (length (body xs)) + 32768) mod 32768 = int (length (body xs))"
    using assms(1) by (simp_all add: div_pos_pos_trivial)
  with False assms show ?thesis
    by (simp add: getSerializedSet_def Let_def read_set_def serial_def)
qed

lemma array_at_body:
  "i < length (body xs) \<Longrightarrow> array_at (read_set f xs rest) (int i) = Some (body xs ! i)"
  by (simp add: array_at_def read_set_def serial_def nat_add_distrib nth_append)

lemma body_bmp: "i < length (bmp_part xs) \<Longrightarrow> body xs ! i = bmp_part xs ! i \<and> i < length (body xs)"
  by (simp add: body_def nth_append)

lemma supp_units_nth:
  "j < length ps \<Longrightarrow> supp_units ps ! (2 * j) = ps ! j div 65536 mod 65536 \<and> supp_units ps ! (2 * j + 1) = ps ! j mod 65536"
  by (induction ps arbitrary: j) (auto simp: nth_Cons split: nat.split)

lemma body_supp:
  assumes "j < length (supp_part xs)"
  shows "body xs ! (length (bmp_part xs) + 2 * j) = supp_part xs ! j div 65536 mod 65536"
    "body xs ! (length (bmp_part xs) + 2 * j + 1) = supp_part xs ! j mod 65536"
    "length (bmp_part xs) + 2 * j + 1 < length (body xs)"
  using supp_units_nth [OF assms] assms by (simp_all add: body_def nth_append)

lemma bmp_find_loop:
  assumes "lo \<le> hi" "\<And>i. i < hi \<Longrightarrow> array_at ser (int i) = rd B i"
  shows "bmp_find ser c (int lo) (int hi) = map_option int (find_loop B c lo hi)"
  using assms
proof (induction "hi - lo" arbitrary: lo hi rule: less_induct)
  case less
  define i where "i = (lo + hi) div 2"
  have i: "(int lo + int hi) div 2 = int i" by (simp add: zdiv_int i_def)
  note unf = bmp_find.simps [of ser c "int lo" "int hi"] find_loop.simps [of B c lo hi]
  show ?case
  proof (cases "i = lo")
    case True
    with less.prems(1) show ?thesis
      unfolding unf Let_def i i_def [symmetric] by simp
  next
    case False
    then have b: "lo < i" "i < hi" using less.prems(1) unfolding i_def by auto
    have at: "array_at ser (int i) = rd B i" using less.prems(2) b(2) .
    have "bmp_find ser c (int lo) (int i) = map_option int (find_loop B c lo i)"
      "bmp_find ser c (int i) (int hi) = map_option int (find_loop B c i hi)"
      by (rule less.hyps; use b less.prems in auto)+
    with False b show ?thesis
      unfolding unf Let_def i i_def [symmetric] at by (cases "rd B i") simp_all
  qed
qed

lemma supp_find_loop:
  assumes "lo \<le> hi" "hi \<le> length S" "\<And>j. j < hi \<Longrightarrow> pair_less ser high lw (2 * int j + base) = Some (c < S ! j)"
  shows "supp_find ser base high lw (2 * int lo) (2 * int hi) = map_option (\<lambda>k. 2 * int k) (find_loop S c lo hi)"
  using assms
proof (induction "hi - lo" arbitrary: lo hi rule: less_induct)
  case less
  define i where "i = (lo + hi) div 2"
  have i: "(2 * int lo + 2 * int hi) div 2 div 2 * 2 = 2 * int i"
  proof -
    have "(2 * int lo + 2 * int hi) div 2 = int lo + int hi" by simp
    moreover have "(int lo + int hi) div 2 = int i" by (simp add: zdiv_int i_def)
    ultimately show ?thesis by simp
  qed
  note unf = supp_find.simps [of ser base high lw "2 * int lo" "2 * int hi"] find_loop.simps [of S c lo hi]
  show ?case
  proof (cases "i = lo")
    case True
    with less.prems(1) show ?thesis
      unfolding unf Let_def i i_def [symmetric] by simp
  next
    case False
    then have b: "lo < i" "i < hi" using less.prems(1) unfolding i_def by auto
    have at: "pair_less ser high lw (2 * int i + base) = Some (c < S ! i)" using less.prems(3) b(2) .
    have rd: "rd S i = Some (S ! i)" using b less.prems(2) by simp
    have "supp_find ser base high lw (2 * int lo) (2 * int i) = map_option (\<lambda>k. 2 * int k) (find_loop S c lo i)"
      "supp_find ser base high lw (2 * int i) (2 * int hi) = map_option (\<lambda>k. 2 * int k) (find_loop S c i hi)"
      by (rule less.hyps; use b less.prems in auto)+
    with False b show ?thesis
      unfolding unf Let_def i i_def [symmetric] at rd by simp
  qed
qed

lemma cnt_parts:
  assumes "ssorted xs" "\<And>x. x \<in> set xs \<Longrightarrow> 0 \<le> x \<and> x < UNICODESET_HIGH"
  shows "c \<le> 65535 \<Longrightarrow> cnt xs c = cnt (bmp_part xs) c"
    "65535 < c \<Longrightarrow> cnt xs c = length (bmp_part xs) + cnt (supp_part xs) c"
proof -
  note p = parts [OF assms]
  have e: "cnt xs c = cnt (bmp_part xs) c + cnt (supp_part xs) c" using arg_cong [OF p(1), of "\<lambda>ys. cnt ys c"] by simp
  show "cnt xs c = cnt (bmp_part xs) c" if "c \<le> 65535"
  proof -
    have "cnt (supp_part xs) c = 0" using p(3) that by (intro cnt_zero) fastforce
    with e show ?thesis by simp
  qed
  show "cnt xs c = length (bmp_part xs) + cnt (supp_part xs) c" if "65535 < c"
  proof -
    have "cnt (bmp_part xs) c = length (bmp_part xs)" using p(2) that by (intro cnt_all) fastforce
    with e show ?thesis by simp
  qed
qed

text \<open>One search of a nonempty sorted list, the way both parts are searched.\<close>

lemma search_cnt:
  assumes "ssorted B" "B \<noteq> []"
  shows "c < B ! 0 \<Longrightarrow> cnt B c = 0" "B ! (length B - 1) \<le> c \<Longrightarrow> cnt B c = length B"
    "B ! 0 \<le> c \<Longrightarrow> c < B ! (length B - 1) \<Longrightarrow> find_loop B c 0 (length B - 1) = Some (cnt B c)"
proof -
  have mono: "B ! 0 \<le> x \<and> x \<le> B ! (length B - 1)" if x: "x \<in> set B" for x
  proof -
    from x obtain k where k: "k < length B" "x = B ! k" by (auto simp: in_set_conv_nth)
    then show ?thesis using ssorted_nth_mono [OF assms(1), of 0 k] ssorted_nth_mono [OF assms(1), of k "length B - 1"] by simp
  qed
  show "c < B ! 0 \<Longrightarrow> cnt B c = 0" using mono by (intro cnt_zero) fastforce
  show "B ! (length B - 1) \<le> c \<Longrightarrow> cnt B c = length B" using mono by (intro cnt_all) fastforce
  show "find_loop B c 0 (length B - 1) = Some (cnt B c)" if "B ! 0 \<le> c" "c < B ! (length B - 1)"
  proof (rule find_loop_spec [OF assms(1)])
    show "0 < length B - 1" using that by (cases "length B - 1") auto
  qed (use that assms in auto)
qed

lemma contains_bmp:
  assumes "ssorted xs" "\<And>x. x \<in> set xs \<Longrightarrow> 0 \<le> x \<and> x < UNICODESET_HIGH" "xs \<noteq> []" "0 \<le> c" "c \<le> 65535"
  shows "serializedContains (read_set f xs rest) c = Some (odd (cnt xs c))"
proof (cases "bmp_part xs = []")
  case False
  let ?B = "bmp_part xs" and ?ser = "read_set f xs rest"
  note p = parts [OF assms(1,2)]
  have n: "cnt xs c = cnt ?B c" using cnt_parts(1) [OF assms(1,2,5)] .
  have at: "array_at ?ser (int i) = rd ?B i" if "i < length ?B" for i
    using array_at_body [of i xs] body_bmp [OF that] that by simp
  have l: "ss_bmpLength ?ser - 1 = int (length ?B - 1)" "0 < length ?B"
    using False by (simp_all add: read_set_def Suc_leI of_nat_diff)
  note s = search_cnt [OF p(4) False]
  have at0: "array_at ?ser 0 = Some (?B ! 0)" using at [of 0] l by simp
  have at1: "array_at ?ser (int (length ?B - 1)) = Some (?B ! (length ?B - 1))" proof -
    have "length ?B - 1 < length ?B" using l(2) by simp
    from at [OF this] show ?thesis using l(2) rd_in [of "length ?B - 1" ?B] by (simp only: diff_less zero_less_one)
  qed
  consider "c < ?B ! 0" | "?B ! 0 \<le> c" "?B ! (length ?B - 1) \<le> c" | "?B ! 0 \<le> c" "c < ?B ! (length ?B - 1)" by linarith
  then have "(if c < ?B ! 0 then Some 0
     else if c < ?B ! (length ?B - 1) then bmp_find ?ser c 0 (int (length ?B - 1)) else Some (int (length ?B - 1) + 1)) =
     Some (int (cnt ?B c))"
  proof cases
    case 1
    with s(1) show ?thesis by simp
  next
    case 2
    have "int (length ?B - 1) + 1 = int (length ?B)" using l(2) by linarith
    with 2 s(2) show ?thesis by simp
  next
    case 3
    have "bmp_find ?ser c (int 0) (int (length ?B - 1)) = map_option int (find_loop ?B c 0 (length ?B - 1))"
      by (rule bmp_find_loop) (use at in auto)
    with s(3) 3 show ?thesis by simp
  qed
  moreover have "(c < 0 \<or> 1114111 < c) = False" "(c \<le> 65535) = True" using assms(4,5) by auto
  ultimately show ?thesis
    unfolding serializedContains_def Let_def l(1) at0 at1 if_False if_True bind.bind_lunit n by simp
next
  case True
  let ?ser = "read_set f xs rest"
  have ne: "supp_part xs \<noteq> []" using True assms(3) parts(1) [OF assms(1,2)] by auto
  then obtain x where at: "array_at ?ser 0 = Some x"
    using array_at_body [of 0 xs f rest] by (auto simp: length_body)
  have m: "array_at ?ser (- 1) = Some 0"
    using True ne by (simp add: array_at_def read_set_def serial_def)
  have "cnt xs c = 0" using cnt_parts(1) [OF assms(1,2,5)] True by simp
  moreover have "ss_bmpLength ?ser = 0" using True by (simp add: read_set_def)
  ultimately show ?thesis using assms(4,5) at m by (simp add: serializedContains_def Let_def)
qed

lemma pair_order:
  assumes "0 \<le> (c::int)" "0 \<le> p" "c \<le> 1114111" "p \<le> 1114111"
  shows "c div 65536 < p div 65536 mod 65536 \<or> (c div 65536 = p div 65536 mod 65536 \<and> c mod 65536 < p mod 65536) \<longleftrightarrow> c < p"
proof -
  have "p div 65536 mod 65536 = p div 65536" using assms by simp
  moreover have "c = 65536 * (c div 65536) + c mod 65536" "p = 65536 * (p div 65536) + p mod 65536" by simp_all
  moreover have "0 \<le> c mod 65536" "c mod 65536 < 65536" "0 \<le> p mod 65536" "p mod 65536 < 65536" by simp_all
  ultimately show ?thesis by linarith
qed

lemma pair_less_supp:
  assumes "ssorted xs" "\<And>x. x \<in> set xs \<Longrightarrow> 0 \<le> x \<and> x < UNICODESET_HIGH" "65535 < c" "c \<le> 1114111"
    "j < length (supp_part xs)"
  shows "pair_less (read_set f xs rest) (c div 65536) (c mod 65536) (2 * int j + int (length (bmp_part xs))) =
    Some (c < supp_part xs ! j)"
proof -
  let ?p = "supp_part xs ! j" and ?ser = "read_set f xs rest" and ?k = "length (bmp_part xs) + 2 * j"
  note b = body_supp [OF assms(5)]
  have k: "2 * int j + int (length (bmp_part xs)) = int ?k" "int ?k + 1 = int (?k + 1)" by simp_all
  have "array_at ?ser (int ?k) = Some (?p div 65536 mod 65536)" "array_at ?ser (int (?k + 1)) = Some (?p mod 65536)"
    using array_at_body [of ?k xs f rest] array_at_body [of "?k + 1" xs f rest] b by simp_all
  moreover have "0 \<le> ?p" "?p \<le> 1114111" using parts(3) [OF assms(1,2), of ?p] assms(5) by auto
  then have "c div 65536 < ?p div 65536 mod 65536 \<or> (c div 65536 = ?p div 65536 mod 65536 \<and> c mod 65536 < ?p mod 65536) \<longleftrightarrow> c < ?p"
    using assms(3,4) by (intro pair_order) auto
  ultimately show ?thesis unfolding k pair_less_def by auto
qed

lemma contains_supp:
  assumes "ssorted xs" "\<And>x. x \<in> set xs \<Longrightarrow> 0 \<le> x \<and> x < UNICODESET_HIGH" "supp_part xs \<noteq> []" "65535 < c" "c \<le> 1114111"
  shows "serializedContains (read_set f xs rest) c = Some (odd (cnt xs c))"
proof -
  let ?S = "supp_part xs" and ?ser = "read_set f xs rest" and ?b = "int (length (bmp_part xs))"
  let ?n = "length ?S - 1"
  note p = parts [OF assms(1,2)] and less = pair_less_supp [OF assms(1,2,4,5), where f = f and rest = rest]
  have base: "ss_bmpLength ?ser = ?b" by (simp add: read_set_def)
  have hi: "ss_length ?ser - 2 - ?b = 2 * int ?n"
    using assms(3) by (simp add: read_set_def length_body Suc_leI of_nat_diff)
  have pos: "0 < length ?S" using assms(3) by simp
  have first: "pair_less ?ser (c div 65536) (c mod 65536) ?b = Some (c < ?S ! 0)" using less [of 0] pos by simp
  have l: "pair_less ?ser (c div 65536) (c mod 65536) (?b + 2 * int ?n) = Some (c < ?S ! ?n)"
  proof -
    have "?n < length ?S" using pos by simp
    from less [OF _ this] show ?thesis by (simp only: add.commute)
  qed
  note s = search_cnt [OF p(5) assms(3)]
  consider "c < ?S ! 0" | "?S ! 0 \<le> c" "?S ! ?n \<le> c" | "?S ! 0 \<le> c" "c < ?S ! ?n" by linarith
  then have "(if c < ?S ! 0 then Some 0
     else if c < ?S ! ?n then supp_find ?ser ?b (c div 65536) (c mod 65536) 0 (2 * int ?n) else Some (2 * int ?n + 2)) =
     Some (2 * int (cnt ?S c))"
  proof cases
    case 1
    with s(1) show ?thesis by simp
  next
    case 2
    have "2 * int (length ?S - 1) + 2 = 2 * int (length ?S)" using pos by linarith
    with 2 s(2) show ?thesis by simp
  next
    case 3
    have "supp_find ?ser ?b (c div 65536) (c mod 65536) (2 * int 0) (2 * int ?n) =
        map_option (\<lambda>k. 2 * int k) (find_loop ?S c 0 ?n)"
      by (rule supp_find_loop) (use less in auto)
    with s(3) 3 show ?thesis by simp
  qed
  moreover have "odd (cnt xs c) \<longleftrightarrow> odd (int (cnt ?S c) + ?b)"
    using cnt_parts(2) [OF assms(1,2,4)] by (simp add: add.commute)
  ultimately show ?thesis
    using assms(4,5) unfolding serializedContains_def Let_def base hi first l bind.bind_lunit
    by (auto simp: distrib_right cong: if_cong)
qed

text \<open>The ranges: boundary \<open>i\<close> of the list, read from the block.\<close>

lemma pair_value_supp:
  assumes "ssorted xs" "\<And>x. x \<in> set xs \<Longrightarrow> 0 \<le> x \<and> x < UNICODESET_HIGH" "j < length (supp_part xs)"
    "k = int (length (bmp_part xs)) + 2 * int j"
  shows "pair_value (read_set f xs rest) k = Some (supp_part xs ! j)"
proof -
  let ?p = "supp_part xs ! j" and ?ser = "read_set f xs rest" and ?k = "length (bmp_part xs) + 2 * j"
  note b = body_supp [OF assms(3)]
  have k: "k = int ?k" "int ?k + 1 = int (?k + 1)" using assms(4) by simp_all
  have "array_at ?ser (int ?k) = Some (?p div 65536 mod 65536)" "array_at ?ser (int (?k + 1)) = Some (?p mod 65536)"
    using array_at_body [of ?k xs f rest] array_at_body [of "?k + 1" xs f rest] b by simp_all
  moreover have "0 \<le> ?p" "?p \<le> 1114111" using parts(3) [OF assms(1,2), of ?p] assms(3) by auto
  then have "?p div 65536 mod 65536 * 65536 + ?p mod 65536 = ?p" by simp
  ultimately show ?thesis unfolding k pair_value_def by simp
qed

lemma serialized_ranges:
  assumes "ssorted xs" "\<And>x. x \<in> set xs \<Longrightarrow> 0 \<le> x \<and> x < UNICODESET_HIGH"
  shows "getSerializedRangeCount (read_set f xs rest) = int ((length xs + 1) div 2)"
    "2 * i < length xs \<Longrightarrow> getSerializedRange (read_set f xs rest) (int i) =
      Some (Some (xs ! (2 * i), (xs @ [UNICODESET_HIGH]) ! (2 * i + 1) - 1))"
    "length xs \<le> 2 * i \<Longrightarrow> getSerializedRange (read_set f xs rest) (int i) = Some None"
proof -
  let ?B = "bmp_part xs" and ?S = "supp_part xs" and ?ser = "read_set f xs rest"
  note p = parts [OF assms] and pv = pair_value_supp [OF assms, where f = f and rest = rest]
  have n: "length xs = length ?B + length ?S" using arg_cong [OF p(1), of length] by simp
  have fields: "ss_bmpLength ?ser = int (length ?B)" "ss_length ?ser = int (length ?B + 2 * length ?S)"
    by (simp_all add: read_set_def length_body)
  show "getSerializedRangeCount ?ser = int ((length xs + 1) div 2)"
    by (simp add: getSerializedRangeCount_def fields half_def n zdiv_int)
  have lower: "array_at ?ser (int k) = Some (xs ! k)" if "k < length ?B" for k
    using array_at_body [of k xs f rest] body_bmp [OF that] that arg_cong [OF p(1), of "\<lambda>ys. ys ! k"]
    by (simp add: nth_append)
  have upper: "xs ! k = ?S ! (k - length ?B)" if "length ?B \<le> k" for k
    using that arg_cong [OF p(1), of "\<lambda>ys. ys ! k"] by (simp add: nth_append)
  show "getSerializedRange ?ser (int i) = Some None" if "length xs \<le> 2 * i"
    using that n by (simp add: getSerializedRange_def fields Let_def)
  show "getSerializedRange ?ser (int i) = Some (Some (xs ! (2 * i), (xs @ [UNICODESET_HIGH]) ! (2 * i + 1) - 1))"
    if i: "2 * i < length xs"
  proof (cases "2 * i < length ?B")
    case True
    have at: "array_at ?ser (int i * 2) = Some (xs ! (2 * i))" using lower [OF True] by (simp add: mult.commute)
    consider "2 * i + 1 < length ?B" | "2 * i + 1 = length ?B" "?S \<noteq> []" | "2 * i + 1 = length ?B" "?S = []"
      using True by linarith
    then show ?thesis
    proof cases
      case 1
      have "array_at ?ser (int i * 2 + 1) = Some (xs ! (2 * i + 1))"
        using lower [OF 1] by (simp add: mult.commute add.commute)
      with 1 True n at show ?thesis by (simp add: getSerializedRange_def fields Let_def nth_append)
    next
      case 2
      have "pair_value ?ser (int i * 2 + 1) = Some (?S ! 0)" using 2 by (intro pv) auto
      moreover have "int i * 2 + 1 < int (length ?B) + 2 * int (length ?S)" using 2 by (cases ?S) simp_all
      moreover note 2 n at upper [of "2 * i + 1"]
      ultimately show ?thesis
        by (simp add: getSerializedRange_def fields Let_def nth_append)
    next
      case 3
      with n at show ?thesis by (simp add: getSerializedRange_def fields Let_def nth_append)
    qed
  next
    case False
    let ?j = "2 * i - length ?B"
    have j: "?j < length ?S" using False i n by linarith
    have "int ?j = int i * 2 - int (length ?B)" using False by linarith
    then have k: "(int i * 2 - int (length ?B)) * 2 = 2 * int ?j" by (simp only: mult.commute)
    have at: "pair_value ?ser (int (length ?B) + 2 * int ?j) = Some (xs ! (2 * i))"
      using pv [OF _ j refl] upper [of "2 * i"] False by simp
    have "\<not> int i * 2 < int (length ?B)" "\<not> int i < 0" using False by linarith+
    moreover have "2 * int ?j < int (length ?B + 2 * length ?S) - int (length ?B)" using j by simp
    moreover have "(if 2 * int ?j + 2 < int (length ?B + 2 * length ?S) - int (length ?B)
        then do { x \<leftarrow> pair_value ?ser (int (length ?B) + 2 * int ?j + 2); Some (x - 1) } else Some 1114111) =
        Some ((xs @ [UNICODESET_HIGH]) ! (2 * i + 1) - 1)"
    proof (cases "?j + 1 < length ?S")
      case True
      have "pair_value ?ser (int (length ?B) + 2 * int ?j + 2) = Some (?S ! (?j + 1))"
        by (rule pv [OF _ True]) simp_all
      moreover have "?S ! (?j + 1) = xs ! (2 * i + 1)" using upper [of "2 * i + 1"] False by (simp add: Suc_diff_le)
      ultimately show ?thesis using True n False by (simp add: nth_append)
    next
      case e: False
      then have "2 * i + 1 = length xs" using j n False by linarith
      with e show ?thesis by simp
    qed
    ultimately show ?thesis
      unfolding getSerializedRange_def fields Let_def k by (simp only: at if_False if_True bind.bind_lunit)
  qed
qed

section \<open>The properties\<close>

lemma serialize_result:
  assumes "us_ok s" "0 \<le> cap" "cap \<le> int (length d)" "us_serialize s (Some d) cap U_ZERO_ERROR = Some (n, Some d', U_ZERO_ERROR)"
  shows "getSerializedSet f (Some d') n = Some (True, read_set f (bounds s) (drop (length (serial (bounds s))) d))"
  using assms(4) getSerializedSet_serial [of "bounds s" n f "drop (length (serial (bounds s))) d"]
  unfolding us_serialize_eq [OF assms(1-3)] by (auto split: if_splits)

text \<open>C31: Round trip: a set that \<open>serialize()\<close> has written into a buffer is opened by
  \<open>uset_getSerializedSet\<close>, and \<open>uset_serializedContains\<close> then answers membership in the
  original set, for a BMP code point of a nonempty list and for a supplementary code point when the
  list has a boundary above U+FFFF.\<close>

theorem serialize_contains_roundtrip:
  assumes "us_ok s" "0 \<le> cap" "cap \<le> int (length d)" "us_serialize s (Some d) cap U_ZERO_ERROR = Some (n, Some d', U_ZERO_ERROR)"
    "0 \<le> c" "c \<le> 1114111" "if c \<le> 65535 then bounds s \<noteq> [] else supp_part (bounds s) \<noteq> []"
  shows "\<exists>ser. getSerializedSet f (Some d') n = Some (True, ser) \<and> serializedContains ser c = Some (c \<in> us_codes s)"
proof -
  from bounds_spec [OF assms(1)] obtain xs where xs: "bounds s = xs" "us_codes s = inv_set (xs @ [UNICODESET_HIGH])"
    "ssorted xs" "\<And>x. x \<in> set xs \<Longrightarrow> 0 \<le> x \<and> x < UNICODESET_HIGH" by blast
  have "c \<in> us_codes s \<longleftrightarrow> odd (cnt xs c)" using assms(6) xs(2) by (simp add: inv_set_def)
  moreover have "serializedContains (read_set f xs r) c = Some (odd (cnt xs c))" for r
    using assms(5-7) xs(1) contains_bmp [OF xs(3,4)] contains_supp [OF xs(3,4)] by (auto split: if_splits)
  ultimately show ?thesis using serialize_result [OF assms(1-4)] xs(1) by simp
qed

lemma serialize_az:
  "us_serialize (set_of [97, 123, 1114112] []) (Some [0, 0, 0, 0]) 4 U_ZERO_ERROR = Some (3, Some [2, 97, 123, 0], U_ZERO_ERROR)"
  "bounds (set_of [97, 123, 1114112] []) = [97, 123]"
  by (simp_all add: us_serialize_def Let_def us_used_def set_of_def store_def supp_units_def bounds_def)

definition fresh_ser :: serialized_set where
  "fresh_ser = \<lparr>ss_block = [], ss_off = 0, ss_bmpLength = 0, ss_length = 0, ss_static = replicate 8 0\<rparr>"

theorem serialize_contains_roundtrip_witness:
  "\<exists>ser. getSerializedSet fresh_ser (Some [2, 97, 123, 0]) 3 = Some (True, ser) \<and> serializedContains ser 100 = Some True"
  using serialize_contains_roundtrip [of "set_of [97, 123, 1114112] []" 4 "[0, 0, 0, 0]" 3 "[2, 97, 123, 0]" 100 fresh_ser]
  by (simp add: serialize_az)

text \<open>Through the serialized form the ranges of the set come back unchanged:
  \<open>uset_getSerializedRangeCount\<close> is \<open>getRangeCount()\<close>, \<open>uset_getSerializedRange(i)\<close> is
  the pair \<open>getRangeStart(i)\<close>, \<open>getRangeEnd(i)\<close>, also where a range starts in the BMP and
  ends above it or at U+10FFFF, and an index past the last one is refused.\<close>

theorem serialize_ranges_roundtrip:
  assumes "us_ok s" "0 \<le> cap" "cap \<le> int (length d)" "us_serialize s (Some d) cap U_ZERO_ERROR = Some (n, Some d', U_ZERO_ERROR)"
  shows "\<exists>ser. getSerializedSet f (Some d') n = Some (True, ser) \<and>
    getSerializedRangeCount ser = int (us_getRangeCount s) \<and>
    getSerializedRange ser (int i) =
      (if i < us_getRangeCount s
       then do { a \<leftarrow> us_getRangeStart s i; b \<leftarrow> us_getRangeEnd s i; Some (Some (a, b)) } else Some None)"
proof -
  from bounds_spec [OF assms(1)] obtain xs where xs: "bounds s = xs" "us_used s = Some (xs @ [UNICODESET_HIGH])"
    "us_len s = length xs + 1" "ssorted xs" "\<And>x. x \<in> set xs \<Longrightarrow> 0 \<le> x \<and> x < UNICODESET_HIGH" by blast
  note r = serialized_ranges [OF xs(4,5), where f = f and rest = "drop (length (serial xs)) d"]
  have n: "us_getRangeCount s = (length xs + 1) div 2" by (simp add: us_getRangeCount_def xs(3))
  show ?thesis
  proof (cases "2 * i < length xs")
    case True
    then have "us_getRangeStart s i = Some (xs ! (2 * i))" "us_getRangeEnd s i = Some ((xs @ [UNICODESET_HIGH]) ! (2 * i + 1) - 1)"
      by (simp_all add: us_getRangeStart_def us_getRangeEnd_def xs(2) mult.commute nth_append)
    with True r(1) r(2) [OF _ True] n serialize_result [OF assms] xs(1) show ?thesis by auto
  next
    case False
    with r(1) r(3) [of i] n serialize_result [OF assms] xs(1) show ?thesis by auto
  qed
qed

theorem serialize_ranges_roundtrip_witness:
  "\<exists>ser. getSerializedSet fresh_ser (Some [2, 97, 123, 0]) 3 = Some (True, ser) \<and> getSerializedRangeCount ser = 1 \<and>
    getSerializedRange ser 0 = Some (Some (97, 122))"
proof -
  have "us_getRangeCount (set_of [97, 123, 1114112] []) = 1" "us_getRangeStart (set_of [97, 123, 1114112] []) 0 = Some 97"
    "us_getRangeEnd (set_of [97, 123, 1114112] []) 0 = Some 122"
    by (simp_all add: us_getRangeCount_def us_getRangeStart_def us_getRangeEnd_def us_used_def set_of_def)
  with serialize_ranges_roundtrip [of "set_of [97, 123, 1114112] []" 4 "[0, 0, 0, 0]" 3 "[2, 97, 123, 0]" fresh_ser 0]
  show ?thesis by (simp add: serialize_az)
qed

lemma us_serialize_preflight:
  "us_serialize s None 0 ec = map_option (\<lambda>(n, _, e). (n, None, e)) (us_serialize s (Some d) 0 ec)"
proof -
  have "\<not> int l + (if b then 2 else 1) \<le> 0" for l b by simp
  then show ?thesis
    by (auto simp: us_serialize_def Let_def bind_eq_Some_conv split: Option.bind_split if_splits)
qed

text \<open>The length protocol of \<open>serialize()\<close>: a call without a buffer gets the length it needs with
  a buffer overflow error; a buffer of at least that length is written, its first cells only, and a
  smaller one is left alone with the same length and error; a set whose boundaries need more than
  0x7FFF units is refused with U_INDEX_OUTOFBOUNDS_ERROR.\<close>

theorem serialize_protocol:
  assumes "us_ok s" "0 \<le> cap" "cap \<le> int (length d)"
  shows "let need = length (serial (bounds s)); long = length (body (bounds s)) > 32767 in
    us_serialize s None 0 U_ZERO_ERROR =
      Some (if long then (0, None, U_INDEX_OUTOFBOUNDS_ERROR) else (int need, None, U_BUFFER_OVERFLOW_ERROR)) \<and>
    us_serialize s (Some d) cap U_ZERO_ERROR =
      Some (if long then (0, Some d, U_INDEX_OUTOFBOUNDS_ERROR)
       else if int need \<le> cap then (int need, Some (serial (bounds s) @ drop need d), U_ZERO_ERROR)
       else (int need, Some d, U_BUFFER_OVERFLOW_ERROR))"
proof -
  have "us_serialize s (Some d) 0 U_ZERO_ERROR = Some (if length (body (bounds s)) > 32767 then (0, Some d, U_INDEX_OUTOFBOUNDS_ERROR)
      else (int (length (serial (bounds s))), Some d, U_BUFFER_OVERFLOW_ERROR))"
    using us_serialize_eq [OF assms(1), of 0 d] by (simp add: serial_def)
  then show ?thesis
    unfolding us_serialize_preflight [of s U_ZERO_ERROR d] us_serialize_eq [OF assms] Let_def by simp
qed

theorem serialize_protocol_witness:
  "us_serialize (set_of [97, 123, 1114112] []) None 0 U_ZERO_ERROR = Some (3, None, U_BUFFER_OVERFLOW_ERROR) \<and>
   us_serialize (set_of [97, 123, 1114112] []) (Some [7, 7]) 2 U_ZERO_ERROR = Some (3, Some [7, 7], U_BUFFER_OVERFLOW_ERROR)"
  using serialize_protocol [of "set_of [97, 123, 1114112] []" 2 "[7, 7]"]
  by (simp add: serialize_az Let_def serial_def body_def bmp_part_def supp_part_def)

lemma supp_find_ends:
  assumes "supp_find ser base high lw lo hi = Some r"
  shows "\<not> (pair_less ser high lw (base - 2) = Some True \<and> lo = 0 \<and> hi = - 2)"
  using _ assms
proof (rule supp_find.raw_induct [where P = "\<lambda>ser base high lw lo hi r.
    \<not> (pair_less ser high lw (base - 2) = Some True \<and> lo = 0 \<and> hi = - 2)"])
  fix search ser base high lw lo hi r
  assume ih: "\<And>ser base high lw lo hi r. search ser base high lw lo hi = Some r \<Longrightarrow>
      \<not> (pair_less ser high lw (base - 2) = Some True \<and> lo = 0 \<and> hi = - 2)"
    and step: "(let i = (lo + hi) div 2 div 2 * 2 in
      if i = lo then Some hi
      else do { b \<leftarrow> pair_less ser high lw (i + base);
                if b then search ser base high lw lo i else search ser base high lw i hi }) = Some r"
  show "\<not> (pair_less ser high lw (base - 2) = Some True \<and> lo = 0 \<and> hi = - 2)"
  proof (rule notI, elim conjE)
    assume h: "pair_less ser high lw (base - 2) = Some True" "lo = 0" "hi = - 2"
    have b: "- 2 + base = base - 2" by simp
    from step have "search ser base high lw 0 (- 2) = Some r" by (simp add: h b Let_def)
    from ih [OF this] h(1) show False by simp
  qed
qed

text \<open>C32: Where there is no boundary above U+FFFF the code does not answer: for the serialized set
  with the one element U+0041, as \<open>uset_setSerializedToOne\<close> makes it in a zeroed structure,
  \<open>uset_serializedContains(U+10000)\<close> makes its first two tests in the array and then searches with
  \<open>hi\<close> at -2 for ever; and for a set with no supplementary boundary that fills its block the
  supplementary test reads past the block.\<close>

theorem serializedContains_no_supplementary:
  "serializedContains (setSerializedToOne fresh_ser 65) 65536 = None \<and>
    pair_less (setSerializedToOne fresh_ser 65) 1 0 2 = Some False \<and>
    pair_less (setSerializedToOne fresh_ser 65) 1 0 0 = Some True \<and>
    supp_find (setSerializedToOne fresh_ser 65) 2 1 0 0 (- 2) = None \<and>
    (supp_part xs = [] \<and> 65535 < c \<longrightarrow> serializedContains (read_set f xs []) c = (if c \<le> 1114111 then None else Some False))"
proof -
  let ?ser = "setSerializedToOne fresh_ser 65"
  have a: "pair_less ?ser 1 0 2 = Some False" "pair_less ?ser 1 0 0 = Some True" "ss_bmpLength ?ser = 2" "ss_length ?ser = 2"
    by (simp_all add: setSerializedToOne_def in_static_def fresh_ser_def array_at_def pair_less_def Let_def)
  have f: "supp_find ?ser 2 1 0 0 (- 2) = None"
    using supp_find_ends [of ?ser 2 1 0 0 "- 2"] a(2) by (cases "supp_find ?ser 2 1 0 0 (- 2)") auto
  have "serializedContains ?ser 65536 = None" by (simp add: serializedContains_def Let_def a f)
  moreover have "serializedContains (read_set f xs []) c = None" if "supp_part xs = []" "65535 < c" "c \<le> 1114111"
  proof -
    have "array_at (read_set f xs []) (int (length (bmp_part xs))) = None"
      using that(1) by (simp add: array_at_def read_set_def serial_def body_def nat_add_distrib)
    then have "pair_less (read_set f xs []) (c div 65536) (c mod 65536) (ss_bmpLength (read_set f xs [])) = None"
      by (simp add: pair_less_def read_set_def)
    with that show ?thesis by (simp add: serializedContains_def Let_def)
  qed
  ultimately show ?thesis using a f by (auto simp: serializedContains_def)
qed

theorem serializedContains_no_supplementary_witness:
  "serializedContains (read_set fresh_ser [97, 123] []) 65536 = None"
  using serializedContains_no_supplementary [of "[97, 123]" 65536 fresh_ser] by (simp add: supp_part_def)

text \<open>\<open>uset_setSerializedToOne(c)\<close> makes the set of exactly \<open>c\<close>: its one range is
  from \<open>c\<close> to \<open>c\<close>, in each of its four layouts, and \<open>uset_serializedContains\<close> says yes for
  \<open>c\<close> alone among the code points on the same side of U+FFFF, and among the supplementary ones
  also where \<open>c\<close> is U+FFFF itself. A value that is no code point leaves the structure as it was.\<close>

theorem setSerializedToOne_exact:
  assumes "8 \<le> length (ss_static f)"
  shows "if 0 \<le> c \<and> c \<le> 1114111
    then getSerializedRangeCount (setSerializedToOne f c) = 1 \<and>
      getSerializedRange (setSerializedToOne f c) 0 = Some (Some (c, c)) \<and>
      getSerializedRange (setSerializedToOne f c) 1 = Some None \<and>
      (0 \<le> d \<and> d \<le> 1114111 \<and> (d \<le> 65535 \<longleftrightarrow> c \<le> 65535) \<or> 65535 < d \<and> d \<le> 1114111 \<and> c = 65535 \<longrightarrow>
        serializedContains (setSerializedToOne f c) d = Some (d = c))
    else setSerializedToOne f c = f"
proof -
  have at: "array_at (in_static f us b) k = Some (us ! nat k)" if "0 \<le> k" "k < int (length us)" for us b k
    using that by (auto simp: array_at_def in_static_def Let_def nth_append)
  have fields: "ss_bmpLength (in_static f us b) = b" "ss_length (in_static f us b) = int (length us)" for us b
    by (simp_all add: in_static_def Let_def)
  note ranges = getSerializedRangeCount_def getSerializedRange_def pair_value_def half_def fields at Let_def
  note has = serializedContains_def pair_less_def fields at Let_def
  have split: "x = 65536 * (x div 65536) + x mod 65536" "0 \<le> x mod 65536" "x mod 65536 < 65536" for x :: int by simp_all
  consider "c < 0 \<or> 1114111 < c" | "0 \<le> c" "c < 65535" | "c = 65535" | "65535 < c" "c < 1114111" | "c = 1114111" by linarith
  then show ?thesis
  proof cases
    case 1
    then show ?thesis by (auto simp: setSerializedToOne_def)
  next
    case 2
    then have e: "setSerializedToOne f c = in_static f [c, c + 1] 2" by (simp add: setSerializedToOne_def)
    have "bmp_find (in_static f [c, c + 1] 2) d 0 1 = Some 1" by (simp add: bmp_find.simps [of _ _ 0 1])
    with 2 show ?thesis unfolding e by (auto simp: ranges has)
  next
    case 3
    then have e: "setSerializedToOne f c = in_static f [65535, 1, 0] 1" by (simp add: setSerializedToOne_def)
    have "1 \<le> d div 65536" if "65535 < d" using that by linarith
    then show ?thesis unfolding e using 3 split [of d] by (auto simp: ranges has)
  next
    case 4
    then have e: "setSerializedToOne f c =
        in_static f [c div 65536, c mod 65536, (c + 1) div 65536, (c + 1) mod 65536] 0" (is "_ = ?s")
      by (simp add: setSerializedToOne_def)
    have "supp_find ?s 0 (d div 65536) (d mod 65536) 0 2 = Some 2" by (simp add: supp_find.simps [of _ _ _ _ 0 2])
    moreover have "pair_less ?s (d div 65536) (d mod 65536) 0 = Some (d < c)"
      "pair_less ?s (d div 65536) (d mod 65536) 2 = Some (d < c + 1)" if "65535 < d" "d \<le> 1114111"
      using 4 that pair_order [of d c] pair_order [of d "c + 1"] by (auto simp: pair_less_def at)
    ultimately have "serializedContains ?s d = Some (d = c)" if "65535 < d" "d \<le> 1114111"
      using 4 that by (auto simp: serializedContains_def fields Let_def)
    then show ?thesis unfolding e using 4 split [of c] split [of "c + 1"] by (simp add: ranges)
  next
    case 5
    then have e: "setSerializedToOne f c = in_static f [16, 65535] 0" by (simp add: setSerializedToOne_def)
    have "d = 1114111" if "d div 65536 = 16" "\<not> d mod 65536 < 65535" using that split [of d] by linarith
    then show ?thesis unfolding e using 5 by (auto simp: ranges has)
  qed
qed

theorem setSerializedToOne_exact_witness:
  "getSerializedRange (setSerializedToOne fresh_ser 65536) 0 = Some (Some (65536, 65536)) \<and>
   serializedContains (setSerializedToOne fresh_ser 65536) 65537 = Some False"
  using setSerializedToOne_exact [of fresh_ser 65536 65537] by (simp add: fresh_ser_def)

end
