(* ===== verification/OffsetList.thy ===== *)
theory OffsetList
  imports Prelude
begin

text \<open>
  \<open>OffsetList\<close> (unisetspan.cpp): the pending match offsets of a span, a circular buffer of
  flags in which cell \<open>start + k\<close> says whether offset \<open>k\<close> is stored. It stands for the set
  \<open>offsets\<close> of the stored offsets, all between 1 and the capacity; cell \<open>start\<close>, which
  offset 0 and the offset \<open>capacity\<close> share, is free for the latter because 0 is never stored.

  The locale \<open>offset_queue\<close> is the interface the spans use. Its client lemmas speak of
  absolute positions: an offset \<open>k\<close> at position \<open>pos\<close> stands for \<open>pos + k\<close> forward
  and \<open>pos - k\<close> backward.
\<close>

section \<open>The code\<close>

record offset_list =
  ol_list :: "bool list"
  ol_capacity :: nat
  ol_length :: int
  ol_start :: nat

text \<open>The constructor: the sixteen cells of \<open>staticList\<close> hold whatever was on the stack.\<close>

definition ol_new :: "bool list \<Rightarrow> offset_list" where
  "ol_new st = \<lparr>ol_list = st, ol_capacity = 0, ol_length = 0, ol_start = 0\<rparr>"

text \<open>\<open>uprv_memset(list, 0, capacity)\<close>\<close>

definition ol_zero :: "offset_list \<Rightarrow> offset_list option" where
  "ol_zero q =
     (if ol_capacity q \<le> length (ol_list q)
      then Some (q\<lparr>ol_list := replicate (ol_capacity q) False @ drop (ol_capacity q) (ol_list q)\<rparr>)
      else None)"

definition setMaxLength :: "bool heap \<Rightarrow> nat \<Rightarrow> offset_list \<Rightarrow> offset_list option" where
  "setMaxLength h maxLength q =
     ol_zero (if maxLength \<le> 16 then q\<lparr>ol_capacity := 16\<rparr>
              else if uprv_malloc h (int maxLength)
              then q\<lparr>ol_list := map (junk h) [0..<maxLength], ol_capacity := maxLength\<rparr>
              else q)"

definition ol_clear :: "offset_list \<Rightarrow> offset_list option" where
  "ol_clear q = do { q \<leftarrow> ol_zero q; Some (q\<lparr>ol_start := 0, ol_length := 0\<rparr>) }"

definition ol_isEmpty :: "offset_list \<Rightarrow> bool" where
  "ol_isEmpty q \<longleftrightarrow> ol_length q = 0"

text \<open>\<open>int32_t i=start+offset; if(i>=capacity) { i-=capacity; }\<close>\<close>

definition ol_cell :: "offset_list \<Rightarrow> nat \<Rightarrow> nat" where
  "ol_cell q k = (let i = ol_start q + k in if i \<ge> ol_capacity q then i - ol_capacity q else i)"

definition ol_shift :: "nat \<Rightarrow> offset_list \<Rightarrow> offset_list option" where
  "ol_shift delta q =
     do { let i = ol_cell q delta;
          b \<leftarrow> rd (ol_list q) i;
          q \<leftarrow> (if b then do { bs \<leftarrow> wr (ol_list q) i False;
                               Some (q\<lparr>ol_list := bs, ol_length := ol_length q - 1\<rparr>) }
                else Some q);
          Some (q\<lparr>ol_start := i\<rparr>) }"

definition addOffset :: "nat \<Rightarrow> offset_list \<Rightarrow> offset_list option" where
  "addOffset offset q =
     do { bs \<leftarrow> wr (ol_list q) (ol_cell q offset) True;
          Some (q\<lparr>ol_list := bs, ol_length := ol_length q + 1\<rparr>) }"

definition containsOffset :: "offset_list \<Rightarrow> nat \<Rightarrow> bool option" where
  "containsOffset q offset = rd (ol_list q) (ol_cell q offset)"

text \<open>\<open>while(++i<capacity) { if(list[i]) ... }\<close>, from the incremented \<open>i\<close>: the index of the
  set flag, or none.\<close>

function ol_next :: "bool list \<Rightarrow> nat \<Rightarrow> nat \<Rightarrow> nat option option" where
  "ol_next bs i capacity =
     (if i < capacity
      then (case rd bs i of None \<Rightarrow> None
            | Some b \<Rightarrow> if b then Some (Some i) else ol_next bs (i + 1) capacity)
      else Some None)"
  by pat_completeness auto
termination
  by (relation "measure (\<lambda>(bs, i, capacity). capacity - i)") auto

text \<open>\<open>while(!list[i]) { ++i; }\<close>, which leaves the array when no flag is set.\<close>

function ol_wrap :: "bool list \<Rightarrow> nat \<Rightarrow> nat option" where
  "ol_wrap bs i = (case rd bs i of None \<Rightarrow> None | Some b \<Rightarrow> if b then Some i else ol_wrap bs (i + 1))"
  by pat_completeness auto
termination
  by (relation "measure (\<lambda>(bs, i). length bs - i)") (auto simp: rd_eq_Some_iff)

declare ol_next.simps [simp del] ol_wrap.simps [simp del]

definition popMinimum :: "offset_list \<Rightarrow> (nat \<times> offset_list) option" where
  "popMinimum q =
     do { found \<leftarrow> ol_next (ol_list q) (ol_start q + 1) (ol_capacity q);
          (i, result) \<leftarrow> (case found of
             Some i \<Rightarrow> Some (i, i - ol_start q)
           | None \<Rightarrow> do { i \<leftarrow> ol_wrap (ol_list q) 0; Some (i, ol_capacity q - ol_start q + i) });
          bs \<leftarrow> wr (ol_list q) i False;
          Some (result, q\<lparr>ol_list := bs, ol_length := ol_length q - 1, ol_start := i\<rparr>) }"

section \<open>The set it stands for\<close>

definition offsets :: "offset_list \<Rightarrow> nat set" where
  "offsets q = {k. 1 \<le> k \<and> k \<le> ol_capacity q \<and> ol_list q ! ol_cell q k}"

definition ol_ok :: "offset_list \<Rightarrow> bool" where
  "ol_ok q \<longleftrightarrow> ol_capacity q \<le> length (ol_list q) \<and> ol_start q < ol_capacity q \<and>
     ol_length q = int (card (offsets q))"

lemma finite_offsets [simp]: "finite (offsets q)"
  by (rule finite_subset [of _ "{..ol_capacity q}"]) (auto simp: offsets_def)

lemma ol_cell_in: "ol_start q < ol_capacity q \<Longrightarrow> k \<le> ol_capacity q \<Longrightarrow> ol_cell q k < ol_capacity q"
  by (auto simp: ol_cell_def Let_def)

lemma ol_cell_inj:
  assumes "ol_start q < ol_capacity q" "1 \<le> j" "j \<le> ol_capacity q" "1 \<le> k" "k \<le> ol_capacity q"
  shows "ol_cell q j = ol_cell q k \<longleftrightarrow> j = k"
  using assms by (auto simp: ol_cell_def Let_def)

text \<open>Moving \<open>start\<close> by \<open>d\<close> renumbers the cells.\<close>

lemma ol_cell_moved:
  assumes "ol_start q < ol_capacity q" "d \<le> ol_capacity q" "d + k \<le> ol_capacity q"
  shows "ol_cell (q\<lparr>ol_start := ol_cell q d\<rparr>) k = ol_cell q (d + k)"
  using assms by (auto simp: ol_cell_def Let_def)

lemma ol_cell_list [simp]: "ol_cell (q\<lparr>ol_list := bs\<rparr>) k = ol_cell q k" "ol_cell (q\<lparr>ol_length := n\<rparr>) k = ol_cell q k"
  by (simp_all add: ol_cell_def Let_def cong: if_cong)

lemma ol_cell_same: "ol_start p = ol_start q \<Longrightarrow> ol_capacity p = ol_capacity q \<Longrightarrow> ol_cell p k = ol_cell q k"
  by (simp add: ol_cell_def Let_def)

lemma containsOffset_spec:
  assumes "ol_ok q" "1 \<le> k" "k \<le> ol_capacity q"
  shows "containsOffset q k = Some (k \<in> offsets q)"
  using assms ol_cell_in [of q k] by (simp add: containsOffset_def ol_ok_def offsets_def)

lemma isEmpty_spec: "ol_ok q \<Longrightarrow> ol_isEmpty q \<longleftrightarrow> offsets q = {}"
  by (simp add: ol_ok_def ol_isEmpty_def)

lemma addOffset_spec:
  assumes "ol_ok q" "1 \<le> k" "k \<le> ol_capacity q" "k \<notin> offsets q"
  shows "\<exists>r. addOffset k q = Some r \<and> ol_ok r \<and> offsets r = insert k (offsets q) \<and> ol_capacity r = ol_capacity q"
proof -
  let ?r = "q\<lparr>ol_list := (ol_list q)[ol_cell q k := True], ol_length := ol_length q + 1\<rparr>"
  have c: "ol_cell q j < length (ol_list q)" if "j \<le> ol_capacity q" for j
    using assms(1) that ol_cell_in [of q j] by (auto simp: ol_ok_def)
  have "offsets ?r = insert k (offsets q)"
    using assms(1-3) c ol_cell_inj [of q k] by (auto simp: offsets_def nth_list_update ol_ok_def)
  moreover have "addOffset k q = Some ?r" using c [of k] assms(3) by (simp add: addOffset_def)
  ultimately show ?thesis using assms by (simp add: ol_ok_def)
qed

text \<open>Clearing the cell of offset \<open>d\<close> and starting from it.\<close>

definition ol_moved :: "nat \<Rightarrow> offset_list \<Rightarrow> offset_list" where
  "ol_moved d q =
     q\<lparr>ol_list := (ol_list q)[ol_cell q d := False], ol_length := int (card (offsets q - {d})), ol_start := ol_cell q d\<rparr>"

lemma ol_moved_spec:
  assumes "ol_ok q" "1 \<le> d" "d \<le> ol_capacity q" "\<And>k. k \<in> offsets q \<Longrightarrow> d \<le> k"
  shows "ol_ok (ol_moved d q)" "offsets (ol_moved d q) = {k. 1 \<le> k \<and> d + k \<in> offsets q}"
    "ol_capacity (ol_moved d q) = ol_capacity q"
proof -
  have s: "ol_start q < ol_capacity q" "ol_capacity q \<le> length (ol_list q)" using assms(1) by (auto simp: ol_ok_def)
  show cap: "ol_capacity (ol_moved d q) = ol_capacity q" by (simp add: ol_moved_def)
  have cell: "ol_cell (ol_moved d q) k = ol_cell q (d + k)" if "d + k \<le> ol_capacity q" for k
    using ol_cell_moved [OF s(1) assms(3) that] ol_cell_same [of "ol_moved d q" "q\<lparr>ol_start := ol_cell q d\<rparr>"]
    by (simp add: ol_moved_def)
  have wrap: "ol_cell (ol_moved d q) k = ol_cell q (d + k - ol_capacity q)"
    if "ol_capacity q < d + k" "k \<le> ol_capacity q" for k
    using that s(1) assms(3) by (auto simp: ol_moved_def ol_cell_def Let_def)
  have bit: "ol_list (ol_moved d q) ! i = (i \<noteq> ol_cell q d \<and> ol_list q ! i)" if "i < ol_capacity q" for i
    using that s(2) by (cases "i = ol_cell q d") (simp_all add: ol_moved_def)
  have "k \<in> offsets (ol_moved d q) \<longleftrightarrow> 1 \<le> k \<and> d + k \<in> offsets q" for k
  proof (cases "d + k \<le> ol_capacity q")
    case True
    with cell [OF True] bit [of "ol_cell q (d + k)"] ol_cell_in [OF s(1) True] ol_cell_inj [OF s(1), of "d + k" d] assms(2,3) show ?thesis
      by (auto simp: offsets_def cap)
  next
    case False
    show ?thesis
    proof (cases "1 \<le> k \<and> k \<le> ol_capacity q")
      case True
      let ?j = "d + k - ol_capacity q"
      have j: "1 \<le> ?j" "?j \<le> d" "?j \<le> ol_capacity q" using True False assms(3) by auto
      have "?j \<notin> offsets q \<or> ?j = d" using assms(4) [of ?j] j(2) by auto
      then have "\<not> (ol_cell q ?j \<noteq> ol_cell q d \<and> ol_list q ! ol_cell q ?j)" using j by (auto simp: offsets_def)
      with True False wrap [of k] bit [of "ol_cell q ?j"] ol_cell_in [OF s(1) j(3)] show ?thesis
        by (auto simp: offsets_def cap)
    qed (use False in \<open>auto simp: offsets_def cap\<close>)
  qed
  then show o: "offsets (ol_moved d q) = {k. 1 \<le> k \<and> d + k \<in> offsets q}" by blast
  have "offsets q - {d} = (+) d ` offsets (ol_moved d q)"
  proof
    show "offsets q - {d} \<subseteq> (+) d ` offsets (ol_moved d q)"
    proof
      fix k
      assume k: "k \<in> offsets q - {d}"
      then have "k = d + (k - d)" "1 \<le> k - d" using assms(4) [of k] by auto
      with k o show "k \<in> (+) d ` offsets (ol_moved d q)" by (intro image_eqI [of _ _ "k - d"]) auto
    qed
  qed (use o in auto)
  then have "card (offsets q - {d}) = card (offsets (ol_moved d q))" by (simp add: card_image)
  then show "ol_ok (ol_moved d q)"
    using s ol_cell_in [OF s(1) assms(3)] cap by (simp add: ol_ok_def) (simp add: ol_moved_def)
qed

lemma ol_moved_eq:
  assumes "ol_ok q" "1 \<le> d" "d \<le> ol_capacity q"
  shows "d \<in> offsets q \<Longrightarrow> ol_moved d q =
      q\<lparr>ol_list := (ol_list q)[ol_cell q d := False], ol_length := ol_length q - 1, ol_start := ol_cell q d\<rparr>"
    "d \<notin> offsets q \<Longrightarrow> ol_moved d q = q\<lparr>ol_start := ol_cell q d\<rparr>"
proof -
  show "d \<in> offsets q \<Longrightarrow> ol_moved d q =
      q\<lparr>ol_list := (ol_list q)[ol_cell q d := False], ol_length := ol_length q - 1, ol_start := ol_cell q d\<rparr>"
    using assms(1) card_gt_0_iff [of "offsets q"] by (auto simp: ol_moved_def ol_ok_def card_Diff_singleton Suc_leI of_nat_diff)
  show "ol_moved d q = q\<lparr>ol_start := ol_cell q d\<rparr>" if "d \<notin> offsets q"
  proof -
    have "(ol_list q)[ol_cell q d := False] = ol_list q"
      using that assms by (intro list_update_same_conv [THEN iffD2])
        (auto simp: offsets_def ol_ok_def dest: ol_cell_in [of q d])
    with that assms(1) show ?thesis by (simp add: ol_moved_def ol_ok_def)
  qed
qed

lemma shift_spec:
  assumes "ol_ok q" "1 \<le> d" "d \<le> ol_capacity q" "\<And>k. k \<in> offsets q \<Longrightarrow> d \<le> k"
  shows "\<exists>r. ol_shift d q = Some r \<and> ol_ok r \<and> offsets r = {k. 1 \<le> k \<and> d + k \<in> offsets q} \<and>
    ol_capacity r = ol_capacity q"
proof -
  have c: "ol_cell q d < length (ol_list q)" using assms(1,3) ol_cell_in [of q d] by (auto simp: ol_ok_def)
  have "ol_list q ! ol_cell q d \<longleftrightarrow> d \<in> offsets q" using assms(2,3) by (simp add: offsets_def)
  with c ol_moved_eq [OF assms(1-3)] have "ol_shift d q = Some (ol_moved d q)" by (simp add: ol_shift_def Let_def)
  with ol_moved_spec [OF assms] show ?thesis by blast
qed

lemma ol_next_spec:
  assumes "n \<le> length bs"
  shows "(\<exists>j. ol_next bs i n = Some (Some j) \<and> i \<le> j \<and> j < n \<and> bs ! j \<and> (\<forall>k. i \<le> k \<and> k < j \<longrightarrow> \<not> bs ! k)) \<or>
    (ol_next bs i n = Some None \<and> (\<forall>k. i \<le> k \<and> k < n \<longrightarrow> \<not> bs ! k))"
proof (induction "n - i" arbitrary: i)
  case 0
  then show ?case by (auto simp: ol_next.simps)
next
  case (Suc m)
  then have i: "i < n" "m = n - (i + 1)" by auto
  have split: "(i \<le> k \<and> k < l) \<longleftrightarrow> k = i \<and> i < l \<or> (i + 1 \<le> k \<and> k < l)" for k l by auto
  show ?case
  proof (cases "bs ! i")
    case True
    with i assms show ?thesis by (intro disjI1 exI [of _ i]) (auto simp: ol_next.simps [of bs i])
  next
    case False
    with i assms have "ol_next bs i n = ol_next bs (i + 1) n" by (simp add: ol_next.simps [of bs i])
    with Suc.hyps(1) [OF i(2)] False show ?thesis unfolding split by auto
  qed
qed

lemma ol_wrap_spec:
  assumes "k < length bs" "bs ! k" "i \<le> k" "\<And>j. i \<le> j \<Longrightarrow> j < k \<Longrightarrow> \<not> bs ! j"
  shows "ol_wrap bs i = Some k"
  using assms(3,4)
proof (induction "k - i" arbitrary: i)
  case 0
  with assms(1,2) show ?case by (simp add: ol_wrap.simps)
next
  case (Suc m)
  then have "i < k" "\<not> bs ! i" by auto
  moreover have "ol_wrap bs (i + 1) = Some k" by (rule Suc.hyps) (use Suc in auto)
  ultimately show ?case using assms(1) by (simp add: ol_wrap.simps [of bs i])
qed

lemma popMinimum_spec:
  assumes "ol_ok q" "offsets q \<noteq> {}"
  shows "\<exists>m r. popMinimum q = Some (m, r) \<and> m \<in> offsets q \<and> (\<forall>k \<in> offsets q. m \<le> k) \<and>
    ol_ok r \<and> offsets r = {k. 1 \<le> k \<and> m + k \<in> offsets q} \<and> ol_capacity r = ol_capacity q"
proof -
  let ?m = "Min (offsets q)" and ?bs = "ol_list q" and ?n = "ol_capacity q"
  have m: "?m \<in> offsets q" "\<And>k. k \<in> offsets q \<Longrightarrow> ?m \<le> k" using assms(2) by simp_all
  then have b: "1 \<le> ?m" "?m \<le> ?n" "?bs ! ol_cell q ?m" by (auto simp: offsets_def)
  have s: "ol_start q < ?n" "?n \<le> length ?bs" using assms(1) by (auto simp: ol_ok_def)
  have clear: "\<not> ?bs ! ol_cell q k" if "1 \<le> k" "k < ?m" for k
  proof -
    have "k \<notin> offsets q" using m(2) [of k] that(2) by (meson not_less)
    then show ?thesis using that b(2) by (simp add: offsets_def)
  qed
  have found: "(do { found \<leftarrow> ol_next ?bs (ol_start q + 1) ?n;
          (case found of
             Some i \<Rightarrow> Some (i, i - ol_start q)
           | None \<Rightarrow> do { i \<leftarrow> ol_wrap ?bs 0; Some (i, ?n - ol_start q + i) }) }) = Some (ol_cell q ?m, ?m)"
  proof (cases "ol_start q + ?m < ?n")
    case True
    then have cell: "ol_cell q k = ol_start q + k" if "k \<le> ?m" for k using that by (simp add: ol_cell_def Let_def)
    have no: "\<not> ?bs ! k" if "ol_start q + 1 \<le> k" "k < ol_start q + ?m" for k
    proof -
      have "k = ol_cell q (k - ol_start q)" using that by (subst cell) auto
      with clear [of "k - ol_start q"] that show ?thesis by auto
    qed
    have yes: "?bs ! (ol_start q + ?m)" using b(3) cell [of ?m] by simp
    have "ol_next ?bs (ol_start q + 1) ?n = Some (Some (ol_start q + ?m))"
    proof -
      have "j = ol_start q + ?m" if "ol_start q + 1 \<le> j" "j < ?n" "?bs ! j" "\<forall>k. ol_start q + 1 \<le> k \<and> k < j \<longrightarrow> \<not> ?bs ! k" for j
        using that no [of j] yes b(1) by (metis add_left_mono linorder_cases)
      with ol_next_spec [OF s(2), of "ol_start q + 1"] yes True b(1) show ?thesis by auto
    qed
    then show ?thesis using cell [of ?m] by simp
  next
    case False
    have cell: "ol_cell q k = (if ol_start q + k < ?n then ol_start q + k else ol_start q + k - ?n)" for k
      by (simp add: ol_cell_def Let_def)
    have no1: "\<not> ?bs ! k" if "ol_start q + 1 \<le> k" "k < ?n" for k
    proof -
      have "k = ol_cell q (k - ol_start q)" "1 \<le> k - ol_start q" "k - ol_start q < ?m"
        using that False by (auto simp: cell)
      with clear [of "k - ol_start q"] show ?thesis by simp
    qed
    let ?k = "ol_start q + ?m - ?n"
    have no2: "\<not> ?bs ! j" if "j < ?k" for j
    proof -
      have "j = ol_cell q (?n - ol_start q + j)" "1 \<le> ?n - ol_start q + j" "?n - ol_start q + j < ?m"
        using that s(1) False by (auto simp: cell)
      with clear [of "?n - ol_start q + j"] show ?thesis by simp
    qed
    have e: "ol_cell q ?m = ?k" using False by (simp add: cell)
    have "?k < length ?bs" using s b(2) by simp
    then have "ol_wrap ?bs 0 = Some ?k" using b(3) no2 by (intro ol_wrap_spec) (simp_all add: e)
    moreover have "ol_next ?bs (ol_start q + 1) ?n = Some None"
      using ol_next_spec [OF s(2), of "ol_start q + 1"] no1 by auto
    moreover have "?n - ol_start q + ?k = ?m" using False s(1) by simp
    ultimately show ?thesis by (simp add: e)
  qed
  have c: "ol_cell q ?m < length ?bs" using s ol_cell_in [OF s(1) b(2)] by simp
  have "popMinimum q = Some (?m, ol_moved ?m q)"
    using found c ol_moved_eq(1) [OF assms(1) b(1,2) m(1)]
    by (auto simp: popMinimum_def bind_eq_Some_conv split: option.splits)
  with m ol_moved_spec [OF assms(1) b(1,2) m(2)] show ?thesis by blast
qed

lemma setMaxLength_spec:
  assumes "n \<le> 16 \<or> uprv_malloc h (int n)" "length st = 16"
  shows "\<exists>q. setMaxLength h n (ol_new st) = Some q \<and> ol_ok q \<and> offsets q = {} \<and> ol_capacity q = max 16 n"
proof (cases "n \<le> 16")
  case True
  let ?q = "\<lparr>ol_list = replicate 16 False, ol_capacity = 16, ol_length = 0, ol_start = 0\<rparr>"
  have "ol_cell ?q k < 16" if "k \<le> 16" for k using ol_cell_in [of ?q k] that by simp
  then have "offsets ?q = {}" by (auto simp: offsets_def)
  moreover have "setMaxLength h n (ol_new st) = Some ?q"
    using True assms(2) by (simp add: setMaxLength_def ol_zero_def ol_new_def)
  ultimately show ?thesis using True by (simp add: ol_ok_def)
next
  case False
  let ?q = "\<lparr>ol_list = replicate n False, ol_capacity = n, ol_length = 0, ol_start = 0\<rparr>"
  have "ol_cell ?q k < n" if "k \<le> n" for k using ol_cell_in [of ?q k] that False by simp
  then have "offsets ?q = {}" by (auto simp: offsets_def)
  moreover have "setMaxLength h n (ol_new st) = Some ?q"
    using False assms by (simp add: setMaxLength_def ol_zero_def ol_new_def)
  ultimately show ?thesis using False by (simp add: ol_ok_def)
qed

lemma ol_clear_spec:
  assumes "ol_ok q"
  shows "\<exists>r. ol_clear q = Some r \<and> ol_ok r \<and> offsets r = {} \<and> ol_capacity r = ol_capacity q"
proof -
  let ?r = "q\<lparr>ol_list := replicate (ol_capacity q) False @ drop (ol_capacity q) (ol_list q), ol_start := 0, ol_length := 0\<rparr>"
  have n: "0 < ol_capacity q" "ol_capacity q \<le> length (ol_list q)" using assms by (auto simp: ol_ok_def)
  have "ol_cell ?r k < ol_capacity q" if "k \<le> ol_capacity q" for k using ol_cell_in [of ?r k] n that by simp
  then have "offsets ?r = {}" by (auto simp: offsets_def nth_append)
  then show ?thesis using n by (simp add: ol_clear_def ol_zero_def ol_ok_def)
qed

section \<open>The interface\<close>

locale offset_queue =
  fixes ok :: "'q \<Rightarrow> bool" and cap :: "'q \<Rightarrow> nat" and stored :: "'q \<Rightarrow> nat set"
    and has :: "'q \<Rightarrow> nat \<Rightarrow> bool option" and add :: "nat \<Rightarrow> 'q \<Rightarrow> 'q option"
    and move :: "nat \<Rightarrow> 'q \<Rightarrow> 'q option" and pop :: "'q \<Rightarrow> (nat \<times> 'q) option"
  assumes has_stored: "ok q \<Longrightarrow> 1 \<le> k \<Longrightarrow> k \<le> cap q \<Longrightarrow> has q k = Some (k \<in> stored q)"
    and add_stored: "ok q \<Longrightarrow> 1 \<le> k \<Longrightarrow> k \<le> cap q \<Longrightarrow> k \<notin> stored q \<Longrightarrow>
      \<exists>r. add k q = Some r \<and> ok r \<and> stored r = insert k (stored q) \<and> cap r = cap q"
    and move_stored: "ok q \<Longrightarrow> 1 \<le> d \<Longrightarrow> d \<le> cap q \<Longrightarrow> (\<And>k. k \<in> stored q \<Longrightarrow> d \<le> k) \<Longrightarrow>
      \<exists>r. move d q = Some r \<and> ok r \<and> stored r = {k. 1 \<le> k \<and> d + k \<in> stored q} \<and> cap r = cap q"
    and pop_stored: "ok q \<Longrightarrow> stored q \<noteq> {} \<Longrightarrow>
      \<exists>m r. pop q = Some (m, r) \<and> m \<in> stored q \<and> (\<forall>k \<in> stored q. m \<le> k) \<and>
        ok r \<and> stored r = {k. 1 \<le> k \<and> m + k \<in> stored q} \<and> cap r = cap q"
    and stored_pos: "k \<in> stored q \<Longrightarrow> 1 \<le> k"
begin

text \<open>Forward: the pending positions are \<open>pos + k\<close>.\<close>

lemma less_pending: "x \<in> (+) pos ` stored q \<Longrightarrow> pos < x"
  using stored_pos by fastforce

lemma moved_pending:
  assumes "\<And>k. k \<in> stored q \<Longrightarrow> d \<le> k" "stored r = {k. 1 \<le> k \<and> d + k \<in> stored q}"
  shows "(+) (pos + d) ` stored r = (+) pos ` stored q - {pos + d}"
proof
  show "(+) pos ` stored q - {pos + d} \<subseteq> (+) (pos + d) ` stored r"
  proof
    fix x
    assume "x \<in> (+) pos ` stored q - {pos + d}"
    then obtain k where k: "k \<in> stored q" "x = pos + k" "k \<noteq> d" by auto
    with assms(1) [OF k(1)] have "x = pos + d + (k - d)" "1 \<le> k - d" by auto
    with k assms(2) show "x \<in> (+) (pos + d) ` stored r" by (intro image_eqI [of _ _ "k - d"]) auto
  qed
qed (auto simp: assms(2) add.assoc)

lemma add_pending:
  assumes "ok q" "1 \<le> k" "k \<le> cap q" "k \<notin> stored q"
  obtains r where "add k q = Some r" "ok r" "cap r = cap q" "(+) pos ` stored r = insert (pos + k) ((+) pos ` stored q)"
proof -
  obtain r where r: "add k q = Some r" "ok r" "stored r = insert k (stored q)" "cap r = cap q"
    using add_stored [OF assms] by blast
  show thesis by (rule that [OF r(1,2,4)]) (simp add: r(3))
qed

lemma move_pending:
  assumes "ok q" "1 \<le> d" "d \<le> cap q" "\<And>x. x \<in> (+) pos ` stored q \<Longrightarrow> pos + d \<le> x"
  obtains r where "move d q = Some r" "ok r" "cap r = cap q" "(+) (pos + d) ` stored r = (+) pos ` stored q - {pos + d}"
proof -
  have le: "d \<le> k" if "k \<in> stored q" for k using assms(4) [of "pos + k"] that by simp
  obtain r where r: "move d q = Some r" "ok r" "stored r = {k. 1 \<le> k \<and> d + k \<in> stored q}" "cap r = cap q"
    using move_stored [OF assms(1-3) le] by blast
  show thesis by (rule that [OF r(1,2,4)]) (rule moved_pending [OF le r(3)])
qed

lemma pop_pending:
  assumes "ok q" "stored q \<noteq> {}"
  obtains m r where "pop q = Some (m, r)" "1 \<le> m" "pos + m \<in> (+) pos ` stored q"
    "\<And>x. x \<in> (+) pos ` stored q \<Longrightarrow> pos + m \<le> x" "ok r" "cap r = cap q"
    "(+) (pos + m) ` stored r = (+) pos ` stored q - {pos + m}"
proof -
  obtain m r where m: "pop q = Some (m, r)" "m \<in> stored q" "\<forall>k \<in> stored q. m \<le> k" "ok r"
    "stored r = {k. 1 \<le> k \<and> m + k \<in> stored q}" "cap r = cap q"
    using pop_stored [OF assms] by blast
  have "(+) (pos + m) ` stored r = (+) pos ` stored q - {pos + m}"
    by (rule moved_pending) (use m in auto)
  with m stored_pos [OF m(2)] show thesis by (intro that [of m r]) auto
qed

text \<open>Backward: the pending positions are \<open>pos - k\<close>, all at least 0.\<close>

lemma moved_pending_back:
  assumes "\<And>k. k \<in> stored q \<Longrightarrow> d \<le> k \<and> k \<le> pos" "stored r = {k. 1 \<le> k \<and> d + k \<in> stored q}"
  shows "(-) (pos - d) ` stored r = (-) pos ` stored q - {pos - d}"
proof
  show "(-) (pos - d) ` stored r \<subseteq> (-) pos ` stored q - {pos - d}"
  proof
    fix x
    assume "x \<in> (-) (pos - d) ` stored r"
    then obtain k where k: "x = pos - d - k" "1 \<le> k" "d + k \<in> stored q" using assms(2) by auto
    with assms(1) [OF k(3)] show "x \<in> (-) pos ` stored q - {pos - d}" by (auto intro!: image_eqI [of _ _ "d + k"])
  qed
  show "(-) pos ` stored q - {pos - d} \<subseteq> (-) (pos - d) ` stored r"
  proof
    fix x
    assume "x \<in> (-) pos ` stored q - {pos - d}"
    then obtain k where k: "k \<in> stored q" "x = pos - k" "k \<noteq> d" by auto
    with assms(1) [OF k(1)] have "x = pos - d - (k - d)" "1 \<le> k - d" by auto
    with k assms show "x \<in> (-) (pos - d) ` stored r" by (intro image_eqI [of _ _ "k - d"]) auto
  qed
qed

end

interpretation ol: offset_queue ol_ok ol_capacity offsets containsOffset addOffset ol_shift popMinimum
proof (unfold_locales, goal_cases)
  case (1 q k)
  then show ?case by (rule containsOffset_spec)
next
  case (2 q k)
  then show ?case by (rule addOffset_spec)
next
  case (3 q d)
  then show ?case by (rule shift_spec)
next
  case (4 q)
  then show ?case by (rule popMinimum_spec)
next
  case (5 k q)
  then show ?case by (simp add: offsets_def)
qed

section \<open>The list of offsets is a set\<close>

text \<open>C6: On a well-formed list, \<open>isEmpty\<close>, \<open>containsOffset\<close>, \<open>addOffset\<close>, \<open>shift\<close> and \<open>popMinimum\<close> are the
  emptiness test, membership, insertion, the shift down by \<open>k\<close> and the removal of the least element of the set of
  offsets, never leave the circular buffer and keep the list well formed.\<close>

theorem offset_list_refines:
  assumes "ol_ok q" "1 \<le> k" "k \<le> ol_capacity q"
  shows "(ol_isEmpty q \<longleftrightarrow> offsets q = {}) \<and> containsOffset q k = Some (k \<in> offsets q) \<and>
    (k \<notin> offsets q \<longrightarrow> (\<exists>r. addOffset k q = Some r \<and> ol_ok r \<and> offsets r = insert k (offsets q))) \<and>
    ((\<forall>x \<in> offsets q. k \<le> x) \<longrightarrow>
      (\<exists>r. ol_shift k q = Some r \<and> ol_ok r \<and> offsets r = (\<lambda>x. x - k) ` (offsets q - {k}))) \<and>
    (offsets q \<noteq> {} \<longrightarrow> (\<exists>r. popMinimum q = Some (Min (offsets q), r) \<and> ol_ok r \<and>
      offsets r = (\<lambda>x. x - Min (offsets q)) ` (offsets q - {Min (offsets q)})))"
proof (intro conjI impI)
  have down: "{x. 1 \<le> x \<and> d + x \<in> offsets q} = (\<lambda>x. x - d) ` (offsets q - {d})" if le: "\<And>x. x \<in> offsets q \<Longrightarrow> d \<le> x" for d
  proof (intro equalityI subsetI)
    fix y assume "y \<in> {x. 1 \<le> x \<and> d + x \<in> offsets q}"
    then have "d + y \<in> offsets q - {d}" by simp
    then show "y \<in> (\<lambda>x. x - d) ` (offsets q - {d})" by force
  next
    fix y assume "y \<in> (\<lambda>x. x - d) ` (offsets q - {d})"
    then obtain x where x: "x \<in> offsets q" "x \<noteq> d" "y = x - d" by blast
    with le [OF x(1)] have "1 \<le> y" "d + y = x" by simp_all
    with x(1) show "y \<in> {x. 1 \<le> x \<and> d + x \<in> offsets q}" by simp
  qed
  show "ol_isEmpty q \<longleftrightarrow> offsets q = {}" using isEmpty_spec [OF assms(1)] .
  show "containsOffset q k = Some (k \<in> offsets q)" using containsOffset_spec [OF assms] .
  show "\<exists>r. addOffset k q = Some r \<and> ol_ok r \<and> offsets r = insert k (offsets q)" if "k \<notin> offsets q"
    using addOffset_spec [OF assms that] by blast
  show "\<exists>r. ol_shift k q = Some r \<and> ol_ok r \<and> offsets r = (\<lambda>x. x - k) ` (offsets q - {k})" if "\<forall>x \<in> offsets q. k \<le> x"
    using shift_spec [OF assms] down [of k] that by auto
  show "\<exists>r. popMinimum q = Some (Min (offsets q), r) \<and> ol_ok r \<and>
      offsets r = (\<lambda>x. x - Min (offsets q)) ` (offsets q - {Min (offsets q)})" if ne: "offsets q \<noteq> {}"
  proof -
    obtain m r where m: "popMinimum q = Some (m, r)" "m \<in> offsets q" "\<forall>x \<in> offsets q. m \<le> x" "ol_ok r"
      "offsets r = {x. 1 \<le> x \<and> m + x \<in> offsets q}"
      using popMinimum_spec [OF assms(1) ne] by blast
    then have "Min (offsets q) = m" by (intro Min_eqI) auto
    with m down [of m] show ?thesis by auto
  qed
qed

theorem offset_list_refines_witness:
  "\<exists>q r. setMaxLength \<lparr>can_alloc = \<lambda>_. True, junk = \<lambda>_. True\<rparr> 3 (ol_new (replicate 16 True)) = Some q \<and>
     addOffset 16 q = Some r \<and> offsets r = {16}"
proof -
  obtain q where q: "setMaxLength \<lparr>can_alloc = \<lambda>_. True, junk = \<lambda>_. True\<rparr> 3 (ol_new (replicate 16 True)) = Some q"
    "ol_ok q" "offsets q = {}" "ol_capacity q = max 16 3"
    using setMaxLength_spec [of 3 "\<lparr>can_alloc = \<lambda>_. True, junk = \<lambda>_. True\<rparr>" "replicate 16 True"] by auto
  with offset_list_refines [OF q(2), of 16] show ?thesis by auto
qed

end
