(* ===== verification/StringSpan.thy ===== *)
theory StringSpan
  imports OffsetList USetQuery
begin

text \<open>
  The strings of a set in its spans: \<open>UnicodeSetStringSpan\<close> (unisetspan.cpp, the UTF-16 side),
  \<open>UnicodeSet::freeze\<close>, \<open>span\<close> and \<open>spanBack\<close> (uniset.cpp). The object keeps \<open>spanSet\<close>, the
  code points of the set without its strings, \<open>spanNotSet\<close>, which also has the first and last code
  points of the strings, and for each string how far it consists of code points of the set.
  It refers to the vector of strings of its parent, which is an argument here.

  The object of a frozen set holds sets of its own that never have strings, so these have the type
  \<open>unit uset\<close>. The functions of \<open>UnicodeSet\<close> that use the object take its operations as
  arguments; \<open>plain_\<close> names their instances for sets without strings, which never call them.
  The UTF-8 lengths and strings that the same block of memory holds are not modelled; \<open>len8\<close> is their
  part of its size.
\<close>

unbundle bit_operations_syntax

datatype USetSpanCondition = USET_SPAN_NOT_CONTAINED | USET_SPAN_CONTAINED | USET_SPAN_SIMPLE

section \<open>UnicodeSet::freeze, span and spanBack\<close>

text \<open>The first half of \<open>freeze\<close> deletes the buffer and gives unused memory back.\<close>

definition us_shrink :: "uheap \<Rightarrow> 'ss uset \<Rightarrow> 'ss uset" where
  "us_shrink h s =
     (let s = s\<lparr>us_buffer := None\<rparr>
      in if us_capacity s > us_len s + GROW_EXTRA
         then let n = us_len s + (if us_len s = 0 then 1 else 0)
              in s\<lparr>us_capacity := n, us_list := us_realloc h (us_list s) n\<rparr>
         else s)"

text \<open>Here \<open>new_span\<close> is \<open>new UnicodeSetStringSpan\<close>, null when \<open>operator new\<close> fails.\<close>

definition us_freeze_with ::
  "uheap \<Rightarrow> ('ss uset \<Rightarrow> ustr uvector \<Rightarrow> 'ss option option) \<Rightarrow> ('ss \<Rightarrow> bool) \<Rightarrow> 'ss uset \<Rightarrow> 'ss uset option" where
  "us_freeze_with h new_span needs s =
     (if isFrozen s \<or> us_bogus s then Some s
      else do {
        let s = us_shrink h s;
        if us_list s = None then setToBogus s
        else do {
          v \<leftarrow> us_strings s;
          s \<leftarrow> (if uv_count v \<noteq> 0
                then do { p \<leftarrow> new_span s v;
                          Some (s\<lparr>us_stringSpan :=
                            (case p of None \<Rightarrow> None | Some sp \<Rightarrow> if needs sp then Some sp else None)\<rparr>) }
                else Some s);
          if us_stringSpan s = None
          then if hn h then do { xs \<leftarrow> us_used s; b \<leftarrow> bmpset_new xs; Some (s\<lparr>us_bmpSet := Some b\<rparr>) }
               else setToBogus s
          else Some s } })"

text \<open>
  The text is \<open>str\<close>, a negative \<open>len\<close> asks for the units before the first NUL. Here \<open>new_span\<close> builds
  the object on the stack.
\<close>

definition us_span_with ::
  "('ss \<Rightarrow> int \<Rightarrow> bool option) \<Rightarrow> ('ss uset \<Rightarrow> ustr uvector \<Rightarrow> 'ss option) \<Rightarrow> ('ss \<Rightarrow> bool) \<Rightarrow>
   ('ss \<Rightarrow> ustr uvector \<Rightarrow> int list \<Rightarrow> nat \<Rightarrow> nat option) \<Rightarrow> 'ss uset \<Rightarrow> int list \<Rightarrow> int \<Rightarrow> bool \<Rightarrow> nat option" where
  "us_span_with ask new_span needs spans s str len cond =
     (case (if len > 0 then us_bmpSet s else None) of
        Some b \<Rightarrow> bmp_span b str 0 (nat len) cond
      | None \<Rightarrow> do {
          n \<leftarrow> (if len < 0 then u_strlen str else Some (nat len));
          if n = 0 then Some 0
          else do {
            obj \<leftarrow> (case us_stringSpan s of
                Some p \<Rightarrow> do { v \<leftarrow> us_strings s; Some (Some (p, v)) }
              | None \<Rightarrow> do {
                  v \<leftarrow> us_strings s;
                  if uv_count v \<noteq> 0
                  then do { p \<leftarrow> new_span s v; Some (if needs p then Some (p, v) else None) }
                  else Some None });
            case obj of
              Some (p, v) \<Rightarrow> spans p v str n
            | None \<Rightarrow> span_loop (us_contains ask s) str 0 n cond } })"

definition us_spanBack_with ::
  "('ss \<Rightarrow> int \<Rightarrow> bool option) \<Rightarrow> ('ss uset \<Rightarrow> ustr uvector \<Rightarrow> 'ss option) \<Rightarrow> ('ss \<Rightarrow> bool) \<Rightarrow>
   ('ss \<Rightarrow> ustr uvector \<Rightarrow> int list \<Rightarrow> nat \<Rightarrow> nat option) \<Rightarrow> 'ss uset \<Rightarrow> int list \<Rightarrow> int \<Rightarrow> bool \<Rightarrow> nat option" where
  "us_spanBack_with ask new_span needs spans s str len cond =
     (case (if len > 0 then us_bmpSet s else None) of
        Some b \<Rightarrow> bmp_spanBack b str 0 (nat len) cond
      | None \<Rightarrow> do {
          n \<leftarrow> (if len < 0 then u_strlen str else Some (nat len));
          if n = 0 then Some 0
          else do {
            obj \<leftarrow> (case us_stringSpan s of
                Some p \<Rightarrow> do { v \<leftarrow> us_strings s; Some (Some (p, v)) }
              | None \<Rightarrow> do {
                  v \<leftarrow> us_strings s;
                  if uv_count v \<noteq> 0
                  then do { p \<leftarrow> new_span s v; Some (if needs p then Some (p, v) else None) }
                  else Some None });
            case obj of
              Some (p, v) \<Rightarrow> spans p v str n
            | None \<Rightarrow> span_back_loop (us_contains ask s) str n cond } })"

section \<open>Sets without strings\<close>

definition plain_contains :: "unit uset \<Rightarrow> int \<Rightarrow> bool option" where
  "plain_contains = us_contains (\<lambda>_ _. None)"

definition plain_span :: "unit uset \<Rightarrow> int list \<Rightarrow> nat \<Rightarrow> bool \<Rightarrow> nat option" where
  "plain_span s str n cond = us_span_with (\<lambda>_ _. None) (\<lambda>_ _. None) (\<lambda>_. False) (\<lambda>_ _ _ _. None) s str (int n) cond"

definition plain_spanBack :: "unit uset \<Rightarrow> int list \<Rightarrow> nat \<Rightarrow> bool \<Rightarrow> nat option" where
  "plain_spanBack s str n cond = us_spanBack_with (\<lambda>_ _. None) (\<lambda>_ _. None) (\<lambda>_. False) (\<lambda>_ _ _ _. None) s str (int n) cond"

definition plain_freeze :: "uheap \<Rightarrow> unit uset \<Rightarrow> unit uset option" where
  "plain_freeze h s = us_freeze_with h (\<lambda>_ _. None) (\<lambda>_. False) s"

section \<open>The object\<close>

text \<open>\<open>pSpanNotSet\<close>: null, \<open>&spanSet\<close>, or a set of its own\<close>

datatype span_not_set = NullSet | SpanSet | OwnSet "unit uset"

record sspan =
  sp_spanSet :: "unit uset"
  sp_spanNotSet :: span_not_set
  sp_spanLengths :: "nat list"
  sp_maxLength16 :: nat
  sp_all :: bool

definition FWD :: int where "FWD = 32"
definition BACK :: int where "BACK = 16"
definition UTF16 :: int where "UTF16 = 8"
definition CONTAINED :: int where "CONTAINED = 2"
definition NOT_CONTAINED :: int where "NOT_CONTAINED = 1"
definition SPAN_ALL :: int where "SPAN_ALL = 63"

lemmas span_flags = FWD_def BACK_def UTF16_def CONTAINED_def NOT_CONTAINED_def SPAN_ALL_def

definition LONG_SPAN :: nat where "LONG_SPAN = 254"
definition ALL_CP_CONTAINED :: nat where "ALL_CP_CONTAINED = 255"

definition which_has :: "int \<Rightarrow> int \<Rightarrow> bool" where
  "which_has which flag \<longleftrightarrow> which AND flag \<noteq> 0"

definition makeSpanLengthByte :: "nat \<Rightarrow> nat" where
  "makeSpanLengthByte n = (if n < 254 then n else 254)"

definition needsStringSpanUTF16 :: "sspan \<Rightarrow> bool" where
  "needsStringSpanUTF16 p \<longleftrightarrow> sp_maxLength16 p \<noteq> 0"

definition sp_contains :: "sspan \<Rightarrow> int \<Rightarrow> bool option" where
  "sp_contains p c = plain_contains (sp_spanSet p) c"

text \<open>The units of string \<open>i\<close>; a null element would be followed.\<close>

definition string_at :: "ustr uvector \<Rightarrow> nat \<Rightarrow> int list option" where
  "string_at v i = do { e \<leftarrow> rd (uv_elements v) i; t \<leftarrow> e; Some (units t) }"

text \<open>The first loop: is some string relevant, and the maximum length.\<close>

function sp_scan :: "unit uset \<Rightarrow> ustr uvector \<Rightarrow> int \<Rightarrow> nat \<Rightarrow> nat \<Rightarrow> bool \<Rightarrow> nat \<Rightarrow> (bool \<times> nat) option" where
  "sp_scan sset v which i n someRelevant maxLength16 =
     (if i < n
      then do {
        s16 \<leftarrow> string_at v i;
        spanLength \<leftarrow> plain_span sset s16 (length s16) True;
        sp_scan sset v which (i + 1) n (someRelevant \<or> spanLength < length s16)
          (if which_has which UTF16 \<and> length s16 > maxLength16 then length s16 else maxLength16) }
      else Some (someRelevant, maxLength16))"
  by pat_completeness auto
termination
  by (relation "measure (\<lambda>(sset, v, which, i, n, r, m). n - i)") auto

declare sp_scan.simps [simp del]

definition addToSpanNotSet :: "uheap \<Rightarrow> int \<Rightarrow> unit uset \<Rightarrow> span_not_set \<Rightarrow> span_not_set option" where
  "addToSpanNotSet h c spanSet notSet =
     (case notSet of
        OwnSet t \<Rightarrow> do { t \<leftarrow> us_add_cp h c t; Some (OwnSet t) }
      | _ \<Rightarrow> do {
          b \<leftarrow> plain_contains spanSet c;
          if b then Some notSet
          else if \<not> hn h then Some notSet
          else do { t \<leftarrow> us_thaw h spanSet; t \<leftarrow> us_add_cp h c t; Some (OwnSet t) } })"

text \<open>
  The second loop, over the strings: it writes the span lengths into the block, \<open>back\<close> is where
  \<open>spanBackLengths\<close> starts in it, and adds the first and last code points of the relevant strings
  to \<open>spanNotSet\<close>.
\<close>

definition sp_store :: "unit uset \<Rightarrow> int \<Rightarrow> nat \<Rightarrow> nat \<Rightarrow> int list \<Rightarrow> nat \<Rightarrow> nat list \<Rightarrow> nat list option" where
  "sp_store sset which back i s16 spanLength lens =
     (if spanLength < length s16
      then if which_has which UTF16
           then if which_has which CONTAINED
                then do {
                  lens \<leftarrow> (if which_has which FWD then wr lens i (makeSpanLengthByte spanLength) else Some lens);
                  if which_has which BACK
                  then do { b \<leftarrow> plain_spanBack sset s16 (length s16) True;
                            wr lens (back + i) (makeSpanLengthByte (length s16 - b)) }
                  else Some lens }
                else do { lens \<leftarrow> wr lens (back + i) 0; wr lens i 0 }
           else Some lens
      else if which = SPAN_ALL
      then do { lens \<leftarrow> wr lens (back + i) ALL_CP_CONTAINED; wr lens i ALL_CP_CONTAINED }
      else wr lens i ALL_CP_CONTAINED)"

definition sp_ends :: "uheap \<Rightarrow> unit uset \<Rightarrow> int \<Rightarrow> int list \<Rightarrow> span_not_set \<Rightarrow> span_not_set option" where
  "sp_ends h sset which s16 notSet =
     (if which_has which NOT_CONTAINED
      then do {
        notSet \<leftarrow> (if which_has which FWD
          then do { (c, j) \<leftarrow> u16_next s16 0 (length s16); addToSpanNotSet h c sset notSet }
          else Some notSet);
        if which_has which BACK
        then do { (c, j) \<leftarrow> u16_prev s16 0 (length s16); addToSpanNotSet h c sset notSet }
        else Some notSet }
      else Some notSet)"

function sp_fill :: "uheap \<Rightarrow> unit uset \<Rightarrow> ustr uvector \<Rightarrow> int \<Rightarrow> nat \<Rightarrow> nat \<Rightarrow> nat \<Rightarrow> nat list \<Rightarrow> span_not_set \<Rightarrow>
    (nat list \<times> span_not_set) option" where
  "sp_fill h sset v which i n back lens notSet =
     (if i < n
      then do {
        s16 \<leftarrow> string_at v i;
        spanLength \<leftarrow> plain_span sset s16 (length s16) True;
        lens \<leftarrow> sp_store sset which back i s16 spanLength lens;
        notSet \<leftarrow> (if spanLength < length s16 then sp_ends h sset which s16 notSet else Some notSet);
        sp_fill h sset v which (i + 1) n back lens notSet }
      else Some (lens, notSet))"
  by pat_completeness auto
termination
  by (relation "measure (\<lambda>(h, sset, v, which, i, n, back, lens, ns). n - i)") auto

declare sp_fill.simps [simp del]

text \<open>
  The constructor. For one variant of \<open>span\<close> the block has one sset of lengths, for all of them also the
  UTF-8 lengths (4 bytes each), two more sets of lengths and \<open>len8\<close> bytes of strings; up to 128 bytes are in the object.
\<close>

definition sp_new :: "uheap \<Rightarrow> nat \<Rightarrow> 'ts uset \<Rightarrow> ustr uvector \<Rightarrow> int \<Rightarrow> sspan option" where
  "sp_new h len8 parent v which =
     do {
       let all = (which = SPAN_ALL);
       spanSet \<leftarrow> us_new_range h 0 1114111;
       spanSet \<leftarrow> us_retainAll h parent spanSet;
       let notSet = (if which_has which NOT_CONTAINED then SpanSet else NullSet);
       let n = nat (uv_count v);
       (someRelevant, maxLength16) \<leftarrow> sp_scan spanSet v which 0 n False 0;
       if \<not> someRelevant
       then Some \<lparr>sp_spanSet = spanSet, sp_spanNotSet = notSet, sp_spanLengths = [], sp_maxLength16 = 0, sp_all = all\<rparr>
       else do {
         spanSet \<leftarrow> (if all then plain_freeze h spanSet else Some spanSet);
         let allocSize = (if all then n * (4 + 1 + 1 + 1 + 1) + len8 else n);
         if allocSize > 128 \<and> \<not> uprv_malloc (hl h) (int allocSize)
         then Some \<lparr>sp_spanSet = spanSet, sp_spanNotSet = notSet, sp_spanLengths = [], sp_maxLength16 = 0, sp_all = all\<rparr>
         else do {
           let back = (if all then n else 0);
           (lens, notSet) \<leftarrow> sp_fill h spanSet v which 0 n back (map (\<lambda>k. nat (junk (hl h) k mod 256)) [0..<back + n]) notSet;
           notSet \<leftarrow> (case notSet of
              OwnSet t \<Rightarrow> if all then do { t \<leftarrow> plain_freeze h t; Some (OwnSet t) } else Some notSet
            | _ \<Rightarrow> Some notSet);
           Some \<lparr>sp_spanSet = spanSet, sp_spanNotSet = notSet, sp_spanLengths = lens,
                 sp_maxLength16 = maxLength16, sp_all = all\<rparr> } } }"

section \<open>Matching\<close>

fun matches16 :: "int list \<Rightarrow> int list \<Rightarrow> nat \<Rightarrow> bool option" where
  "matches16 (a # s) (b # t) n = (if a \<noteq> b then Some False else if n > 1 then matches16 s t (n - 1) else Some True)"
| "matches16 _ _ n = None"

text \<open>\<open>U16_IS_LEAD(s[i-1]) && U16_IS_TRAIL(s[i])\<close>\<close>

definition splits_pair :: "int list \<Rightarrow> nat \<Rightarrow> bool option" where
  "splits_pair s i =
     do { a \<leftarrow> rd s (i - 1); if u16_is_lead a then do { b \<leftarrow> rd s i; Some (u16_is_trail b) } else Some False }"

definition matches16CPB :: "int list \<Rightarrow> nat \<Rightarrow> nat \<Rightarrow> int list \<Rightarrow> nat \<Rightarrow> bool option" where
  "matches16CPB s start limit t n =
     do { m \<leftarrow> matches16 (drop start s) t n;
          if \<not> m then Some False
          else do { l \<leftarrow> (if 0 < start then splits_pair s start else Some False);
                    if l then Some False
                    else do { r \<leftarrow> (if start + n < limit then splits_pair s (start + n) else Some False);
                              Some (\<not> r) } } }"

text \<open>The length of the next code point, negative when the set does not contain it; \<open>s\<close> is at the position.\<close>

definition spanOne :: "(int \<Rightarrow> bool option) \<Rightarrow> int list \<Rightarrow> nat \<Rightarrow> int option" where
  "spanOne contains s n =
     do { c \<leftarrow> rd s 0;
          pair \<leftarrow> (if 55296 \<le> c \<and> c \<le> 56319 \<and> n \<ge> 2
                   then do { c2 \<leftarrow> rd s 1; Some (if u16_is_trail c2 then Some c2 else None) } else Some None);
          case pair of
            Some c2 \<Rightarrow> do { b \<leftarrow> contains (u16_supplementary c c2); Some (if b then 2 else - 2) }
          | None \<Rightarrow> do { b \<leftarrow> contains c; Some (if b then 1 else - 1) } }"

definition spanOneBack :: "(int \<Rightarrow> bool option) \<Rightarrow> int list \<Rightarrow> nat \<Rightarrow> int option" where
  "spanOneBack contains s n =
     (if n = 0 then None
      else do { c \<leftarrow> rd s (n - 1);
          pair \<leftarrow> (if 56320 \<le> c \<and> c \<le> 57343 \<and> n \<ge> 2
                   then do { c2 \<leftarrow> rd s (n - 2); Some (if u16_is_lead c2 then Some c2 else None) } else Some None);
          case pair of
            Some c2 \<Rightarrow> do { b \<leftarrow> contains (u16_supplementary c2 c); Some (if b then 2 else - 2) }
          | None \<Rightarrow> do { b \<leftarrow> contains c; Some (if b then 1 else - 1) } })"

text \<open>\<open>U16_BACK_1\<close>, \<open>U16_FWD_1\<close>\<close>

definition u16_back_1 :: "int list \<Rightarrow> nat \<Rightarrow> nat \<Rightarrow> nat option" where
  "u16_back_1 s start i =
     (if i = 0 then None
      else do { c \<leftarrow> rd s (i - 1);
                if u16_is_trail c \<and> i - 1 > start
                then do { c2 \<leftarrow> rd s (i - 2); Some (if u16_is_lead c2 then i - 2 else i - 1) }
                else Some (i - 1) })"

definition u16_fwd_1 :: "int list \<Rightarrow> nat \<Rightarrow> nat \<Rightarrow> nat option" where
  "u16_fwd_1 s i n =
     do { c \<leftarrow> rd s i;
          if u16_is_lead c \<and> i + 1 \<noteq> n
          then do { c2 \<leftarrow> rd s (i + 1); Some (if u16_is_trail c2 then i + 2 else i + 1) }
          else Some (i + 1) }"

section \<open>span\<close>

text \<open>A loop step either returns from the function or goes on. A pointer difference that is negative is undefined.\<close>

datatype 'a step = Return nat | Go 'a

definition minus :: "nat \<Rightarrow> nat \<Rightarrow> nat option" where
  "minus a b = (if b \<le> a then Some (a - b) else None)"

text \<open>The tries of one string while contained: \<open>overlap\<close> goes down to 0 as \<open>inc\<close> goes up.\<close>

function try_inc :: "int list \<Rightarrow> nat \<Rightarrow> nat \<Rightarrow> int list \<Rightarrow> nat \<Rightarrow> nat \<Rightarrow> offset_list \<Rightarrow> offset_list step option" where
  "try_inc s pos len t overlap inc q =
     (if inc > len - pos then Some (Go q)
      else do {
        h \<leftarrow> containsOffset q inc;
        m \<leftarrow> (if h then Some False else do { i \<leftarrow> minus pos overlap; matches16CPB s i len t (length t) });
        if m \<and> inc = len - pos then Some (Return len)
        else do {
          q \<leftarrow> (if m then addOffset inc q else Some q);
          if overlap = 0 then Some (Go q) else try_inc s pos len t (overlap - 1) (inc + 1) q } })"
  by pat_completeness auto
termination
  by (relation "measure (\<lambda>(s, pos, len, t, overlap, inc, q). overlap)") auto

declare try_inc.simps [simp del]

function try_strings :: "int list \<Rightarrow> nat \<Rightarrow> nat \<Rightarrow> ustr uvector \<Rightarrow> nat list \<Rightarrow> nat \<Rightarrow> nat \<Rightarrow> nat \<Rightarrow> offset_list \<Rightarrow> offset_list step option" where
  "try_strings s pos len v lens spanLength i n q =
     (if i < n
      then do {
        overlap \<leftarrow> rd lens i;
        if overlap = ALL_CP_CONTAINED then try_strings s pos len v lens spanLength (i + 1) n q
        else do {
          s16 \<leftarrow> string_at v i;
          overlap \<leftarrow> (if overlap \<ge> LONG_SPAN then u16_back_1 s16 0 (length s16) else Some overlap);
          let overlap = (if overlap > spanLength then spanLength else overlap);
          inc \<leftarrow> minus (length s16) overlap;
          r \<leftarrow> try_inc s pos len s16 overlap inc q;
          case r of Return k \<Rightarrow> Some (Return k)
          | Go q \<Rightarrow> try_strings s pos len v lens spanLength (i + 1) n q } }
      else Some (Go q))"
  by pat_completeness auto
termination
  by (relation "measure (\<lambda>(s, pos, len, v, lens, sl, i, n, q). n - i)") auto

declare try_strings.simps [simp del]

text \<open>The tries of one string for the longest match; after \<open>overlap\<close> 0 the code's \<open>overlap\<close> is negative.\<close>

function try_longest :: "int list \<Rightarrow> nat \<Rightarrow> nat \<Rightarrow> int list \<Rightarrow> nat \<Rightarrow> nat \<Rightarrow> nat \<Rightarrow> nat \<Rightarrow> (nat \<times> nat) option" where
  "try_longest s pos len t overlap inc maxInc maxOverlap =
     (if inc > len - pos \<or> overlap < maxOverlap then Some (maxInc, maxOverlap)
      else do {
        m \<leftarrow> (if overlap > maxOverlap \<or> inc > maxInc
              then do { i \<leftarrow> minus pos overlap; matches16CPB s i len t (length t) } else Some False);
        if m then Some (inc, overlap)
        else if overlap = 0 then Some (maxInc, maxOverlap)
        else try_longest s pos len t (overlap - 1) (inc + 1) maxInc maxOverlap })"
  by pat_completeness auto
termination
  by (relation "measure (\<lambda>(s, pos, len, t, overlap, inc, mi, mo). overlap)") auto

declare try_longest.simps [simp del]

function longest_strings :: "int list \<Rightarrow> nat \<Rightarrow> nat \<Rightarrow> ustr uvector \<Rightarrow> nat list \<Rightarrow> nat \<Rightarrow> nat \<Rightarrow> nat \<Rightarrow> nat \<Rightarrow> nat \<Rightarrow> (nat \<times> nat) option" where
  "longest_strings s pos len v lens spanLength i n maxInc maxOverlap =
     (if i < n
      then do {
        overlap \<leftarrow> rd lens i;
        s16 \<leftarrow> string_at v i;
        let overlap = (if overlap \<ge> LONG_SPAN then length s16 else overlap);
        let overlap = (if overlap > spanLength then spanLength else overlap);
        inc \<leftarrow> minus (length s16) overlap;
        (maxInc, maxOverlap) \<leftarrow> try_longest s pos len s16 overlap inc maxInc maxOverlap;
        longest_strings s pos len v lens spanLength (i + 1) n maxInc maxOverlap }
      else Some (maxInc, maxOverlap))"
  by pat_completeness auto
termination
  by (relation "measure (\<lambda>(s, pos, len, v, lens, sl, i, n, mi, mo). n - i)") auto

declare longest_strings.simps [simp del]

text \<open>
  The rest of a round, after the strings were tried: return a position, or go on at a new
  position with a new \<open>spanLength\<close>.
\<close>

definition pop_round :: "nat \<Rightarrow> offset_list \<Rightarrow> (nat \<times> nat \<times> offset_list) step option" where
  "pop_round pos q = do { (minOffset, q) \<leftarrow> popMinimum q; Some (Go (pos + minOffset, 0, q)) }"

definition end_round :: "unit uset \<Rightarrow> int list \<Rightarrow> nat \<Rightarrow> nat \<Rightarrow> nat \<Rightarrow> offset_list \<Rightarrow> (nat \<times> nat \<times> offset_list) step option" where
  "end_round spanSet s len pos spanLength q =
     (if spanLength \<noteq> 0 \<or> pos = 0
      then if ol_isEmpty q then Some (Return pos) else pop_round pos q
      else if ol_isEmpty q
      then do {
        n \<leftarrow> plain_span spanSet (drop pos s) (len - pos) True;
        Some (if n = len - pos \<or> n = 0 then Return (pos + n) else Go (pos + n, n, q)) }
      else do {
        k \<leftarrow> spanOne (plain_contains spanSet) (drop pos s) (len - pos);
        if k > 0
        then if nat k = len - pos then Some (Return len)
             else do { q \<leftarrow> ol_shift (nat k) q; Some (Go (pos + nat k, 0, q)) }
        else pop_round pos q })"

definition span_round :: "sspan \<Rightarrow> ustr uvector \<Rightarrow> int list \<Rightarrow> nat \<Rightarrow> bool \<Rightarrow> nat \<Rightarrow> nat \<Rightarrow> offset_list \<Rightarrow>
    (nat \<times> nat \<times> offset_list) step option" where
  "span_round p v s len simple pos spanLength q =
     (if simple
      then do {
        (maxInc, maxOverlap) \<leftarrow> longest_strings s pos len v (sp_spanLengths p) spanLength 0 (nat (uv_count v)) 0 0;
        if maxInc \<noteq> 0 \<or> maxOverlap \<noteq> 0
        then Some (if pos + maxInc = len then Return len else Go (pos + maxInc, 0, q))
        else end_round (sp_spanSet p) s len pos spanLength q }
      else do {
        r \<leftarrow> try_strings s pos len v (sp_spanLengths p) spanLength 0 (nat (uv_count v)) q;
        case r of Return k \<Rightarrow> Some (Return k)
        | Go q \<Rightarrow> end_round (sp_spanSet p) s len pos spanLength q })"

text \<open>The loop over the rounds; that it ends is proved, not assumed.\<close>

partial_function (option) span_rounds :: "sspan \<Rightarrow> ustr uvector \<Rightarrow> int list \<Rightarrow> nat \<Rightarrow> bool \<Rightarrow> nat \<Rightarrow> nat \<Rightarrow> offset_list \<Rightarrow> nat option" where
  "span_rounds p v s len simple pos spanLength q =
     do { r \<leftarrow> span_round p v s len simple pos spanLength q;
          case r of Return k \<Rightarrow> Some k
          | Go x \<Rightarrow> span_rounds p v s len simple (fst x) (fst (snd x)) (snd (snd x)) }"

text \<open>\<open>spanNot\<close>: \<open>pSpanNotSet\<close> is followed; \<open>st\<close> is what the stack holds in \<open>staticList\<close>.\<close>

definition sp_notSet :: "sspan \<Rightarrow> unit uset option" where
  "sp_notSet p = (case sp_spanNotSet p of NullSet \<Rightarrow> None | SpanSet \<Rightarrow> Some (sp_spanSet p) | OwnSet t \<Rightarrow> Some t)"

function match_some :: "int list \<Rightarrow> nat \<Rightarrow> nat \<Rightarrow> ustr uvector \<Rightarrow> nat list \<Rightarrow> nat \<Rightarrow> nat \<Rightarrow> bool option" where
  "match_some s pos len v lens i n =
     (if i < n
      then do {
        l \<leftarrow> rd lens i;
        if l = ALL_CP_CONTAINED then match_some s pos len v lens (i + 1) n
        else do {
          s16 \<leftarrow> string_at v i;
          m \<leftarrow> (if length s16 \<le> len - pos then matches16CPB s pos len s16 (length s16) else Some False);
          if m then Some True else match_some s pos len v lens (i + 1) n } }
      else Some False)"
  by pat_completeness auto
termination
  by (relation "measure (\<lambda>(s, pos, len, v, lens, i, n). n - i)") auto

declare match_some.simps [simp del]

text \<open>The \<open>do\<close> loop; \<open>cpLength\<close> is negative when it goes round.\<close>

partial_function (option) spanNot_loop :: "sspan \<Rightarrow> ustr uvector \<Rightarrow> int list \<Rightarrow> nat \<Rightarrow> nat \<Rightarrow> nat option" where
  "spanNot_loop p v s len pos =
     do { notSet \<leftarrow> sp_notSet p;
          i \<leftarrow> plain_span notSet (drop pos s) (len - pos) False;
          if i = len - pos then Some len
          else do {
            let pos = pos + i;
            k \<leftarrow> spanOne (plain_contains (sp_spanSet p)) (drop pos s) (len - pos);
            if k > 0 then Some pos
            else do {
              m \<leftarrow> match_some s pos len v (sp_spanLengths p) 0 (nat (uv_count v));
              if m then Some pos
              else if pos + nat (- k) = len then Some len
              else spanNot_loop p v s len (pos + nat (- k)) } } }"

declare span_rounds.simps [code] spanNot_loop.simps [code]

definition sp_span :: "bool heap \<Rightarrow> bool list \<Rightarrow> USetSpanCondition \<Rightarrow> sspan \<Rightarrow> ustr uvector \<Rightarrow> int list \<Rightarrow> nat \<Rightarrow> nat option" where
  "sp_span hb st cond p v s len =
     (if cond = USET_SPAN_NOT_CONTAINED then spanNot_loop p v s len 0
      else do {
        spanLength \<leftarrow> plain_span (sp_spanSet p) s len True;
        if spanLength = len then Some len
        else do {
          q \<leftarrow> (if cond = USET_SPAN_CONTAINED then setMaxLength hb (sp_maxLength16 p) (ol_new st) else Some (ol_new st));
          span_rounds p v s len (cond = USET_SPAN_SIMPLE) spanLength spanLength q } })"

end
