(* ===== verification/SpanSpec.thy ===== *)
theory SpanSpec
  imports StringSpan
begin

text \<open>
  What the spans of a set with strings promise, and that the forward loops of
  \<open>UnicodeSetStringSpan\<close> keep it. \<open>spans_to C T s i\<close>: the prefix of \<open>s\<close> up to \<open>i\<close> is made of
  code points of \<open>C\<close> and strings of \<open>T\<close>, the recursive search that the comments of
  unisetspan.cpp describe; \<open>span(USET_SPAN_CONTAINED)\<close> must find the last such \<open>i\<close>.
\<close>

section \<open>Segments of a text\<close>

lemma cps_append: "boundary (a @ b) (length a) \<Longrightarrow> cps (a @ b) = cps a @ cps b"
proof (induction a rule: cps.induct)
  case (2 u)
  show ?case using 2 by (cases b) (auto simp: boundary_def)
next
  case (3 u t r)
  have b: "boundary (r @ b) (length r)" "boundary ((t # r) @ b) (length (t # r))"
    using 3(3) by (auto simp: boundary_def nth_Cons' nth_append split: if_splits)
  show ?case using 3(1) [OF _ b(1)] 3(2) [OF _ b(2)] by auto
qed simp

lemma boundary_ends [simp]: "boundary s 0" "boundary s (length s)"
  by (simp_all add: boundary_def)

lemma boundary_drop: "boundary s j \<Longrightarrow> i \<le> j \<Longrightarrow> boundary (drop i s) (j - i)"
  by (cases "i \<le> length s") (auto simp: boundary_def nth_drop add.commute Suc_diff_le)

lemma boundary_take: "boundary s j \<Longrightarrow> boundary (take n s) j"
  by (auto simp: boundary_def)

lemma boundary_within: "boundary (take n (drop i s)) k \<Longrightarrow> boundary s i \<Longrightarrow> k < n \<Longrightarrow> i + k \<le> length s \<Longrightarrow> boundary s (i + k)"
  by (cases k) (auto simp: boundary_def)

lemma cps_split: "boundary s i \<Longrightarrow> i \<le> length s \<Longrightarrow> cps s = cps (take i s) @ cps (drop i s)"
  using cps_append [of "take i s" "drop i s"] by (simp add: min_absorb2)

lemma cps_segment: "boundary s j \<Longrightarrow> i \<le> j \<Longrightarrow> j \<le> length s \<Longrightarrow>
    cps (drop i s) = cps (take (j - i) (drop i s)) @ cps (drop j s)"
  using cps_split [OF boundary_drop, of s j i] by (simp add: min_absorb2)

lemma cps_prefix:
  assumes "units_ok x" "cps x = as @ bs"
  shows "cps (take (u16_len as) x) = as \<and> cps (drop (u16_len as) x) = bs \<and> boundary x (u16_len as) \<and> u16_len as \<le> length x"
  using assms
proof (induction as arbitrary: x)
  case (Cons c as)
  then have x: "0 < length x" by (cases x) auto
  obtain j where j: "u16_next x 0 (length x) = Some (c, j)" "j \<le> length x" "cps (drop j x) = as @ bs" "j = u16_length c"
    using u16_next_cps [OF x refl] Cons.prems by auto
  have jb: "boundary x j" "cps (take j x) = [c]"
    using j(1) x by (cases x; cases "tl x"; auto simp: u16_next_def boundary_def nth_Cons' lead_not_trail split: if_splits)+
  note ih = Cons.IH [OF units_ok_drop [OF Cons.prems(1)] j(3)]
  have "boundary x (j + u16_len as)"
  proof (cases "u16_len as")
    case (Suc m)
    then show ?thesis using ih by (auto simp: boundary_def)
  qed (use jb in simp)
  moreover have "cps (take (j + u16_len as) x) = c # as"
  proof -
    have "cps (take (j + u16_len as) x) = cps (take j x) @ cps (take (u16_len as) (drop j x))"
      using cps_append [of "take j x" "take (u16_len as) (drop j x)"] boundary_take [OF jb(1)] j(2)
      by (simp add: take_add min_absorb2 flip: take_add)
    with ih jb(2) show ?thesis by simp
  qed
  moreover have "u16_len as \<le> length x - j" using ih by simp
  then have "j + u16_len as \<le> length x" using j(2) by linarith
  ultimately show ?case using ih j by (simp add: drop_drop add.commute)
qed (simp add: boundary_def)

definition all_in :: "int set \<Rightarrow> int list \<Rightarrow> nat \<Rightarrow> nat \<Rightarrow> bool" where
  "all_in C s i j \<longleftrightarrow> set (cps (take (j - i) (drop i s))) \<subseteq> C"

lemma all_in_same [simp]: "all_in C s i i"
  by (simp add: all_in_def)

lemma all_in_part:
  assumes "all_in C s i k" "boundary s j" "i \<le> j" "j \<le> k" "k \<le> length s"
  shows "all_in C s i j" "all_in C s j k"
proof -
  let ?x = "take (k - i) (drop i s)"
  have "boundary ?x (j - i)" using boundary_take [OF boundary_drop [OF assms(2,3)]] .
  moreover have "j - i \<le> length ?x" using assms(3-5) by simp
  ultimately have "cps ?x = cps (take (j - i) ?x) @ cps (drop (j - i) ?x)" by (rule cps_split)
  moreover have "take (j - i) ?x = take (j - i) (drop i s)" "drop (j - i) ?x = take (k - j) (drop j s)"
    using assms(3,4) by (simp_all add: min_absorb1 drop_take)
  ultimately show "all_in C s i j" "all_in C s j k" using assms(1) by (auto simp: all_in_def)
qed

section \<open>The specification\<close>

definition matches_at :: "int list \<Rightarrow> nat \<Rightarrow> int list \<Rightarrow> bool" where
  "matches_at s i t \<longleftrightarrow> t \<noteq> [] \<and> i + length t \<le> length s \<and> take (length t) (drop i s) = t \<and>
     boundary s i \<and> boundary s (i + length t)"

definition element_at :: "int set \<Rightarrow> int list set \<Rightarrow> int list \<Rightarrow> nat \<Rightarrow> nat \<Rightarrow> bool" where
  "element_at C T s i j \<longleftrightarrow> (\<exists>c \<in> C. u16_next s i (length s) = Some (c, j)) \<or>
     (\<exists>t \<in> T. matches_at s i t \<and> j = i + length t)"

inductive spans_to :: "int set \<Rightarrow> int list set \<Rightarrow> int list \<Rightarrow> nat \<Rightarrow> bool" for C T s where
  start: "spans_to C T s 0"
| step: "spans_to C T s i \<Longrightarrow> element_at C T s i j \<Longrightarrow> spans_to C T s j"

lemma u16_next_boundary:
  assumes "u16_next s i (length s) = Some (c, j)"
  shows "i < j \<and> j \<le> length s \<and> boundary s j \<and> cps (take (j - i) (drop i s)) = [c]"
proof -
  have i: "i < length s" using assms by (auto simp: u16_next_def bind_eq_Some_conv rd_eq_Some_iff)
  then have x: "drop i s = s ! i # drop (i + 1) s" by (simp add: Cons_nth_drop_Suc)
  show ?thesis
  proof (cases "u16_is_lead (s ! i) \<and> i + 1 < length s \<and> u16_is_trail (s ! (i + 1))")
    case True
    then have "drop (i + 1) s = s ! (i + 1) # drop (i + 2) s" by (simp add: Cons_nth_drop_Suc)
    with True assms x i show ?thesis by (auto simp: u16_next_def boundary_def lead_not_trail)
  next
    case False
    with assms i have "c = s ! i" "j = i + 1"
      by (auto simp: u16_next_def bind_eq_Some_conv rd_eq_Some_iff split: if_splits)
    with False x i show ?thesis by (auto simp: boundary_def)
  qed
qed

lemma element_at_boundary: "element_at C T s i j \<Longrightarrow> i < j \<and> j \<le> length s \<and> boundary s j"
  by (auto simp: element_at_def matches_at_def dest: u16_next_boundary)

lemma spans_to_boundary: "spans_to C T s i \<Longrightarrow> i \<le> length s \<and> boundary s i"
  by (induction rule: spans_to.induct) (auto dest: element_at_boundary)

lemma finite_spans_to: "finite {i. spans_to C T s i}"
  by (rule finite_subset [of _ "{..length s}"]) (auto dest: spans_to_boundary)

text \<open>Between a position and the next pending one there is nothing.\<close>

lemma spans_to_gap:
  assumes "spans_to C T s r" "\<And>i j. spans_to C T s i \<Longrightarrow> i \<le> pos \<Longrightarrow> element_at C T s i j \<Longrightarrow> j \<le> pos \<or> m \<le> j"
  shows "r \<le> pos \<or> m \<le> r"
  using assms(1)
proof (induction rule: spans_to.induct)
  case (step i j)
  with assms(2) [of i j] element_at_boundary [OF step(2)] show ?case by auto
qed simp

lemma spans_to_walk:
  assumes "units_ok s" "spans_to C T s i" "all_in C s i j" "boundary s j" "i \<le> j" "j \<le> length s"
  shows "spans_to C T s j"
  using assms(2-6)
proof (induction "j - i" arbitrary: i rule: less_induct)
  case less
  show ?case
  proof (cases "i = j")
    case False
    then have i: "i < length s" "i < j" using less.prems by auto
    obtain c k where k: "u16_next s i (length s) = Some (c, k)" using u16_next_cps [OF i(1) refl] by auto
    note b = u16_next_boundary [OF k]
    have "k \<le> j"
    proof (rule ccontr)
      assume "\<not> k \<le> j"
      then have "k = i + 2" "j = i + 1" using k i by (auto simp: u16_next_def bind_eq_Some_conv split: if_splits)
      with k less.prems(3) i show False
        by (auto simp: u16_next_def boundary_def bind_eq_Some_conv rd_eq_Some_iff split: if_splits)
    qed
    have kb: "boundary s k" "i \<le> k" using b by simp_all
    note parts = all_in_part [OF less.prems(2) kb \<open>k \<le> j\<close> less.prems(5)]
    have "c \<in> C" using parts(1) b by (simp add: all_in_def)
    then have "spans_to C T s k" using k by (intro spans_to.step [OF less.prems(1)]) (auto simp: element_at_def)
    moreover have "j - k < j - i" using b \<open>k \<le> j\<close> i(2) by linarith
    ultimately show ?thesis by (intro less.hyps [of k] parts(2) less.prems(3,5) \<open>k \<le> j\<close>)
  qed (use less.prems in simp)
qed

section \<open>Sets without strings\<close>

definition plain_ok :: "int set \<Rightarrow> unit uset \<Rightarrow> bool" where
  "plain_ok C S \<longleftrightarrow> us_ok S \<and> us_strs S = {} \<and> us_stringSpan S = None \<and> us_codes S = C"

lemma plain_contains_spec: "plain_ok C S \<Longrightarrow> 0 \<le> c \<Longrightarrow> c < 1114112 \<Longrightarrow> plain_contains S c = Some (c \<in> C)"
  using us_contains_iff [of S c "\<lambda>_ _. None"] by (simp add: plain_contains_def plain_ok_def)

interpretation plain: code_point_set "\<lambda>S. plain_ok (us_codes S) S" plain_contains us_codes
  by unfold_locales (rule plain_contains_spec)

lemma no_strings:
  assumes "us_ok s" "us_strs s = {}"
  obtains v where "us_strings s = Some v" "uv_count v = 0"
proof -
  obtain v where v: "us_strings s = Some v" "strings_ok v" "us_strs s = {t. Some t \<in> set (uv_list v)}"
    using assms(1) by (elim us_okE) blast
  then obtain ss where "uv_list v = map Some ss" "uv_ok v" by (auto simp: strings_ok_def)
  moreover from this v(3) assms(2) have "ss = []" by (cases ss) auto
  ultimately have "uv_count v = 0" by (auto simp: uv_ok_def uv_list_def)
  with v(1) show thesis by (rule that)
qed

lemma plain_bmp:
  assumes "plain_ok C S" "us_bmpSet S = Some b"
  shows "bmpset_ok b" "inv_set (bs_list b) = C"
  using assms by (auto simp: plain_ok_def us_ok_def us_codes_def us_used_def)

lemma plain_span_spec:
  assumes "plain_ok C S" "units_ok x" "n = length x"
  shows "plain_span S x n cond = Some (u16_len (takeWhile (\<lambda>c. (c \<in> C) = cond) (cps x)))"
    "plain_spanBack S x n cond = Some (n - u16_len (takeWhile (\<lambda>c. (c \<in> C) = cond) (rev (cps x))))"
proof -
  have ok: "plain_ok (us_codes S) S" "us_codes S = C" using assms(1) by (auto simp: plain_ok_def)
  obtain v where v: "us_strings S = Some v" "uv_count v = 0" using no_strings assms(1) by (auto simp: plain_ok_def)
  have sp: "us_stringSpan S = None" using assms(1) by (simp add: plain_ok_def)
  show "plain_span S x n cond = Some (u16_len (takeWhile (\<lambda>c. (c \<in> C) = cond) (cps x)))"
  proof (cases "x = [] \<or> us_bmpSet S = None")
    case True
    with v sp plain.span [OF ok(1) assms(2)] ok(2) assms(3) show ?thesis
      by (auto simp: plain_span_def us_span_with_def plain_contains_def)
  next
    case False
    with bmp_span_spec [OF plain_bmp(1) assms(2)] plain_bmp(2) assms(1,3) show ?thesis
      by (auto simp: plain_span_def us_span_with_def)
  qed
  show "plain_spanBack S x n cond = Some (n - u16_len (takeWhile (\<lambda>c. (c \<in> C) = cond) (rev (cps x))))"
  proof (cases "x = [] \<or> us_bmpSet S = None")
    case True
    with v sp plain.span_back [OF ok(1) assms(2)] ok(2) assms(3) show ?thesis
      by (auto simp: plain_spanBack_def us_spanBack_with_def plain_contains_def)
  next
    case False
    with bmp_spanBack_spec [OF plain_bmp(1) assms(2)] plain_bmp(2) assms(1,3) show ?thesis
      by (auto simp: plain_spanBack_def us_spanBack_with_def)
  qed
qed

text \<open>The next code point is not in \<open>C\<close>.\<close>

definition stops :: "int set \<Rightarrow> int list \<Rightarrow> nat \<Rightarrow> bool" where
  "stops C s pos \<longleftrightarrow> (\<forall>c j. u16_next s pos (length s) = Some (c, j) \<longrightarrow> c \<notin> C)"

text \<open>Where the longest prefix of code points with a property ends.\<close>

lemma walk_gen:
  assumes "units_ok s" "boundary s i" "i \<le> length s" "n = u16_len (takeWhile P (cps (drop i s)))"
  shows "i + n \<le> length s" "boundary s (i + n)" "all_in {c. P c} s i (i + n)" "stops {c. P c} s (i + n)"
proof -
  have x: "units_ok (drop i s)" using units_ok_drop [OF assms(1)] .
  note p = cps_prefix [OF x takeWhile_dropWhile_id [symmetric, where P = P], folded assms(4)]
  have "n \<le> length s - i" using p by simp
  then show len: "i + n \<le> length s" using assms(3) by linarith
  show "boundary s (i + n)"
  proof (cases n)
    case (Suc m)
    then show ?thesis using p by (auto simp: boundary_def)
  qed (use assms(2) in simp)
  show "all_in {c. P c} s i (i + n)" using p by (auto simp: all_in_def dest: set_takeWhileD)
  have "\<not> P c" if "u16_next s (i + n) (length s) = Some (c, j)" for c j
  proof -
    have l: "i + n < length s" using that by (auto simp: u16_next_def bind_eq_Some_conv rd_eq_Some_iff)
    obtain c' j' where "u16_next s (i + n) (length s) = Some (c', j')"
      "cps (drop (i + n) s) = c' # cps (drop j' s)"
      using u16_next_cps [OF l refl] by auto
    with that p have "dropWhile P (cps (drop i s)) = c # cps (drop j' s)" by (simp add: drop_drop add.commute)
    then show "\<not> P c" using dropWhile_eq_Cons_conv [of P "cps (drop i s)" c "cps (drop j' s)"] by simp
  qed
  then show "stops {c. P c} s (i + n)" by (auto simp: stops_def)
qed

text \<open>What the span over the code points from \<open>i\<close> on gives.\<close>

lemma plain_span_gen:
  assumes "plain_ok C S" "units_ok s" "boundary s i" "i \<le> length s"
  obtains n where "plain_span S (drop i s) (length s - i) cond = Some n" "i + n \<le> length s" "boundary s (i + n)"
    "all_in {c. (c \<in> C) = cond} s i (i + n)" "stops {c. (c \<in> C) = cond} s (i + n)"
  using walk_gen [OF assms(2-4) refl] plain_span_spec(1) [OF assms(1) units_ok_drop [OF assms(2)], of "length s - i" i cond]
  by auto

lemma plain_span_walk:
  assumes "plain_ok C S" "units_ok s" "boundary s i" "i \<le> length s"
  obtains n where "plain_span S (drop i s) (length s - i) True = Some n" "i + n \<le> length s" "boundary s (i + n)"
    "all_in C s i (i + n)" "stops C s (i + n)"
  using plain_span_gen [OF assms, of True] by auto

section \<open>One match, one code point\<close>

lemma matches16_take: "0 < n \<Longrightarrow> n \<le> length s \<Longrightarrow> n \<le> length t \<Longrightarrow> matches16 s t n = Some (take n s = take n t)"
proof (induction s t n rule: matches16.induct)
  case (1 a s b t n)
  then show ?case by (cases n) (auto simp: take_Cons' split: if_splits)
qed simp_all

lemma splits_pair_spec: "0 < i \<Longrightarrow> i < length s \<Longrightarrow> splits_pair s i = Some (\<not> boundary s i)"
  by (auto simp: splits_pair_def boundary_def)

lemma matches16CPB_spec:
  assumes "t \<noteq> []" "i + length t \<le> length s"
  shows "matches16CPB s i (length s) t (length t) = Some (matches_at s i t)"
proof -
  have m: "matches16 (drop i s) t (length t) = Some (take (length t) (drop i s) = t)"
    using assms matches16_take [of "length t" "drop i s" t] by simp
  have l: "(if 0 < i then splits_pair s i else Some False) = Some (\<not> boundary s i)"
    using assms splits_pair_spec [of i s] by (cases t) auto
  have r: "(if i + length t < length s then splits_pair s (i + length t) else Some False) = Some (\<not> boundary s (i + length t))"
    using assms splits_pair_spec [of "i + length t" s] by (auto simp: boundary_def)
  show ?thesis using assms unfolding matches16CPB_def m l r matches_at_def by auto
qed

lemma spanOne_spec:
  assumes "units_ok s" "i < length s" "plain_ok C S"
  obtains c j where "u16_next s i (length s) = Some (c, j)"
    "spanOne (plain_contains S) (drop i s) (length s - i) = Some (if c \<in> C then int (j - i) else - int (j - i))"
proof -
  obtain c j where n: "u16_next s i (length s) = Some (c, j)" "cps (drop i s) = c # cps (drop j s)"
    using u16_next_cps [OF assms(2) refl] by auto
  have c: "plain_contains S c = Some (c \<in> C)"
    using plain_contains_spec [OF assms(3)] cps_range [OF units_ok_drop [OF assms(1)], of c i] n(2) by simp
  have "spanOne (plain_contains S) (drop i s) (length s - i) = Some (if c \<in> C then int (j - i) else - int (j - i))"
  proof (cases "u16_is_lead (s ! i) \<and> i + 1 < length s \<and> u16_is_trail (s ! (i + 1))")
    case True
    then have "55296 \<le> s ! i" "s ! i \<le> 56319" by (auto simp: u16_is_lead_def)
    with True n(1) c assms(2) show ?thesis by (auto simp: spanOne_def u16_next_def)
  next
    case False
    then have "c = s ! i" "j = i + 1"
      using n(1) assms(2) by (auto simp: u16_next_def bind_eq_Some_conv rd_eq_Some_iff split: if_splits)
    moreover have "(if 55296 \<le> s ! i \<and> s ! i \<le> 56319 \<and> length s - i \<ge> 2
        then do { c2 \<leftarrow> rd (drop i s) 1; Some (if u16_is_trail c2 then Some c2 else None) } else Some None) = Some None"
      using False assms(2) by (auto simp: u16_is_lead_def)
    moreover have "rd (drop i s) 0 = Some (s ! i)" using assms(2) by simp
    ultimately show ?thesis using c by (simp add: spanOne_def)
  qed
  with n(1) show thesis by (rule that)
qed

section \<open>The strings\<close>

text \<open>How much of a string consists of code points of the set at its start; a relevant string has others too.\<close>

definition contained :: "int set \<Rightarrow> int list \<Rightarrow> nat" where
  "contained C t = u16_len (takeWhile (\<lambda>c. c \<in> C) (cps t))"

definition relevant :: "int set \<Rightarrow> int list \<Rightarrow> bool" where
  "relevant C t \<longleftrightarrow> contained C t < length t"

definition texts :: "ustr uvector \<Rightarrow> int list set" where
  "texts v = {t. \<exists>i < nat (uv_count v). string_at v i = Some t}"

lemma in_texts: "t \<in> texts v \<longleftrightarrow> (\<exists>k. 0 \<le> k \<and> k < nat (uv_count v) \<and> string_at v k = Some t)"
  by (simp add: texts_def)

definition vector_ok :: "ustr uvector \<Rightarrow> bool" where
  "vector_ok v \<longleftrightarrow> (\<forall>i < nat (uv_count v). \<exists>t. string_at v i = Some t \<and> t \<noteq> [] \<and> units_ok t)"

definition lens_ok :: "int set \<Rightarrow> ustr uvector \<Rightarrow> nat list \<Rightarrow> bool" where
  "lens_ok C v lens \<longleftrightarrow> (\<forall>i < nat (uv_count v). \<forall>t. string_at v i = Some t \<longrightarrow>
     rd lens i = Some (if relevant C t then makeSpanLengthByte (contained C t) else ALL_CP_CONTAINED))"

declare cps_Nil_iff [simp]

text \<open>Matches of \<open>t\<close> that start at most \<open>overlap\<close> before \<open>pos\<close>: their ends.\<close>

definition ends_at :: "int list \<Rightarrow> nat \<Rightarrow> int list \<Rightarrow> nat \<Rightarrow> nat set" where
  "ends_at s pos t overlap = {pos - k + length t | k. k \<le> overlap \<and> matches_at s (pos - k) t}"

lemma ends_at_0: "ends_at s pos t 0 = (if matches_at s pos t then {pos + length t} else {})"
  by (auto simp: ends_at_def)

lemma ends_at_Suc: "ends_at s pos t (Suc k) =
    (if matches_at s (pos - Suc k) t then {pos - Suc k + length t} else {}) \<union> ends_at s pos t k"
  by (auto simp: ends_at_def le_Suc_eq)

lemma try_inc_spec:
  assumes "t \<noteq> []" "pos < length s" "overlap \<le> pos" "overlap + inc = length t" "0 < inc" "ol_ok q" "length t \<le> ol_capacity q"
    "\<And>x. x \<in> (+) pos ` offsets q \<Longrightarrow> x < length s"
  shows "(length s \<in> ends_at s pos t overlap \<and> try_inc s pos (length s) t overlap inc q = Some (Return (length s))) \<or>
    (length s \<notin> ends_at s pos t overlap \<and> (\<exists>r. try_inc s pos (length s) t overlap inc q = Some (Go r) \<and> ol_ok r \<and>
       ol_capacity r = ol_capacity q \<and> (+) pos ` offsets r = (+) pos ` offsets q \<union> ends_at s pos t overlap))"
  using assms(3-8)
proof (induction overlap arbitrary: inc q)
  case 0
  show ?case
  proof (cases "inc > length s - pos")
    case True
    then have "\<not> matches_at s pos t" using 0 assms(2) by (auto simp: matches_at_def)
    with True 0 show ?thesis by (simp add: ends_at_0 try_inc.simps [of s pos])
  next
    case False
    note h = containsOffset_spec [OF 0(4), of inc]
    have m: "matches16CPB s pos (length s) t (length t) = Some (matches_at s pos t)"
      using False 0 assms(1,2) by (intro matches16CPB_spec) auto
    have e: "pos + inc = pos + length t" "inc \<le> ol_capacity q" using 0 by auto
    show ?thesis
    proof (cases "inc \<in> offsets q \<or> \<not> matches_at s pos t")
      case True
      moreover have "pos + inc < length s" if "inc \<in> offsets q" using 0(6) that by auto
      ultimately show ?thesis using False h m e 0(2-4)
        by (auto simp: try_inc.simps [of s pos] minus_def ends_at_0 insert_absorb)
    next
      case new: False
      show ?thesis
      proof (cases "inc = length s - pos")
        case True
        with new False h m e 0(2-4) show ?thesis by (simp add: try_inc.simps [of s pos] minus_def ends_at_0)
      next
        case n: False
        obtain r where "addOffset inc q = Some r" "ol_ok r" "ol_capacity r = ol_capacity q"
          "(+) pos ` offsets r = insert (pos + inc) ((+) pos ` offsets q)"
          using ol.add_pending [OF 0(4) _ e(2), of pos] 0(3) new by auto
        with n new False h m e 0(2-4) show ?thesis by (auto simp: try_inc.simps [of s pos] minus_def ends_at_0)
      qed
    qed
  qed
next
  case (Suc k)
  let ?i = "pos - Suc k"
  have i: "?i + length t = pos + inc" using Suc.prems(1,2) by simp
  show ?case
  proof (cases "inc > length s - pos")
    case True
    then have "\<not> matches_at s (pos - j) t" if "j \<le> Suc k" for j
      using that Suc.prems(1,2) assms(2) by (auto simp: matches_at_def)
    then have "ends_at s pos t (Suc k) = {}" by (auto simp: ends_at_def)
    with True Suc.prems show ?thesis by (simp add: try_inc.simps [of s pos])
  next
    case False
    note h = containsOffset_spec [OF Suc.prems(4), of inc]
    have m: "matches16CPB s ?i (length s) t (length t) = Some (matches_at s ?i t)"
      using False i assms(1,2) by (intro matches16CPB_spec) auto
    have e: "inc \<le> ol_capacity q" "k \<le> pos" "k + (inc + 1) = length t" using Suc.prems by auto
    have at: "minus pos (Suc k) = Some ?i" using Suc.prems(1) by (simp add: minus_def)
    show ?thesis
    proof (cases "inc \<in> offsets q \<or> \<not> matches_at s ?i t")
      case True
      have l: "pos + inc < length s" if "inc \<in> offsets q" using Suc.prems(6) that by auto
      have "try_inc s pos (length s) t (Suc k) inc q = try_inc s pos (length s) t k (inc + 1) q"
        using True False h m e at Suc.prems(3) by (auto simp: try_inc.simps [of s pos "length s" t "Suc k"])
      moreover have "(+) pos ` offsets q \<union> ends_at s pos t (Suc k) = (+) pos ` offsets q \<union> ends_at s pos t k"
        "length s \<in> ends_at s pos t (Suc k) \<longleftrightarrow> length s \<in> ends_at s pos t k"
        using True l i by (auto simp: ends_at_Suc)
      ultimately show ?thesis using Suc.IH [OF e(2,3) _ Suc.prems(4-6)] by simp
    next
      case new: False
      show ?thesis
      proof (cases "inc = length s - pos")
        case True
        with new False h m e at Suc.prems(3) i assms(2) show ?thesis
          by (auto simp: try_inc.simps [of s pos "length s" t "Suc k"] ends_at_Suc)
      next
        case n: False
        obtain r where r: "addOffset inc q = Some r" "ol_ok r" "ol_capacity r = ol_capacity q"
          "(+) pos ` offsets r = insert (pos + inc) ((+) pos ` offsets q)"
          using ol.add_pending [OF Suc.prems(4) _ e(1), of pos] Suc.prems(3) new by auto
        have "try_inc s pos (length s) t (Suc k) inc q = try_inc s pos (length s) t k (inc + 1) r"
          using new n False h m e at Suc.prems(3) r(1) by (auto simp: try_inc.simps [of s pos "length s" t "Suc k"])
        moreover have "x < length s" if "x \<in> (+) pos ` offsets r" for x
          using that r(4) n False Suc.prems(6) assms(2) by auto
        moreover have "length s \<noteq> pos + inc" using n False by auto
        ultimately show ?thesis using Suc.IH [OF e(2,3) _ r(2), of] r Suc.prems(5) new i by (auto simp: ends_at_Suc)
      qed
    qed
  qed
qed

lemma u16_back_1_prev: "u16_back_1 s start i = map_option snd (u16_prev s start i)"
  by (cases "rd s (i - 1)"; cases "rd s (i - 2)") (auto simp: u16_back_1_def u16_prev_def)

lemma u16_len_takeWhile: "u16_len (takeWhile P cs) \<le> u16_len cs"
  by (induction cs) auto

lemma relevant_iff: "units_ok t \<Longrightarrow> relevant C t \<longleftrightarrow> \<not> set (cps t) \<subseteq> C"
proof
  assume t: "units_ok t" and r: "relevant C t"
  show "\<not> set (cps t) \<subseteq> C"
  proof
    assume "set (cps t) \<subseteq> C"
    then have "takeWhile (\<lambda>c. c \<in> C) (cps t) = cps t" by (auto simp: takeWhile_eq_all_conv)
    with r u16_len_cps [OF t] show False by (simp add: relevant_def contained_def)
  qed
next
  assume t: "units_ok t" and n: "\<not> set (cps t) \<subseteq> C"
  then have "dropWhile (\<lambda>c. c \<in> C) (cps t) \<noteq> []" by (auto simp: dropWhile_eq_Nil_conv)
  then have "0 < u16_len (dropWhile (\<lambda>c. c \<in> C) (cps t))"
    by (cases "dropWhile (\<lambda>c. c \<in> C) (cps t)") (auto simp: u16_length_def)
  moreover have "contained C t + u16_len (dropWhile (\<lambda>c. c \<in> C) (cps t)) = length t"
    using u16_len_cps [OF t] takeWhile_dropWhile_id [of "\<lambda>c. c \<in> C" "cps t"] u16_len_simps(3)
    by (metis contained_def)
  ultimately show "relevant C t" by (simp add: relevant_def)
qed

lemma back_contained:
  assumes "units_ok t" "t \<noteq> []" "relevant C t"
  obtains k where "u16_back_1 t 0 (length t) = Some k" "k < length t" "contained C t \<le> k"
proof -
  obtain c j where j: "u16_prev t 0 (length t) = Some (c, j)" "j < length t" "cps t = cps (take j t) @ [c]"
    using u16_prev_cps [of "length t" t] assms(2) by auto
  have "takeWhile (\<lambda>c. c \<in> C) (cps t) = takeWhile (\<lambda>c. c \<in> C) (cps (take j t))"
    using assms(3) j(3) relevant_iff [OF assms(1), of C]
    by (auto simp: takeWhile_append split: if_splits) (metis takeWhile_eq_all_conv)
  then have "contained C t \<le> j"
    using u16_len_takeWhile [of _ "cps (take j t)"] u16_len_cps [OF units_ok_take [OF assms(1)], of j] j(2)
    by (simp add: contained_def)
  with j(1,2) show thesis by (intro that [of j]) (simp_all add: u16_back_1_prev)
qed

text \<open>The overlap that is tried first.\<close>

definition tried :: "int set \<Rightarrow> nat \<Rightarrow> int list \<Rightarrow> nat" where
  "tried C n t = min n (if contained C t < 254 then contained C t else the (u16_back_1 t 0 (length t)))"

lemma tried_bounds:
  assumes "units_ok t" "t \<noteq> []" "relevant C t"
  shows "tried C n t < length t" "tried C n t \<le> n" "k \<le> contained C t \<Longrightarrow> k \<le> n \<Longrightarrow> k \<le> tried C n t"
proof -
  obtain j where "u16_back_1 t 0 (length t) = Some j" "j < length t" "contained C t \<le> j"
    using back_contained [OF assms] .
  with assms(3) show "tried C n t < length t" "tried C n t \<le> n" "k \<le> contained C t \<Longrightarrow> k \<le> n \<Longrightarrow> k \<le> tried C n t"
    by (auto simp: tried_def relevant_def)
qed

definition ends_from :: "int set \<Rightarrow> int list \<Rightarrow> nat \<Rightarrow> nat \<Rightarrow> ustr uvector \<Rightarrow> nat \<Rightarrow> nat set" where
  "ends_from C s pos n v i =
     (\<Union>t \<in> {t. \<exists>j. i \<le> j \<and> j < nat (uv_count v) \<and> string_at v j = Some t \<and> relevant C t}. ends_at s pos t (tried C n t))"

lemma ends_from_end: "nat (uv_count v) \<le> i \<Longrightarrow> ends_from C s pos n v i = {}"
  by (auto simp: ends_from_def)

lemma ends_from_step:
  assumes "i < nat (uv_count v)" "string_at v i = Some t"
  shows "ends_from C s pos n v i =
    (if relevant C t then ends_at s pos t (tried C n t) else {}) \<union> ends_from C s pos n v (i + 1)"
proof -
  have "(\<exists>j. i \<le> j \<and> j < nat (uv_count v) \<and> string_at v j = Some u \<and> relevant C u) \<longleftrightarrow>
      (u = t \<and> relevant C t) \<or> (\<exists>j. i + 1 \<le> j \<and> j < nat (uv_count v) \<and> string_at v j = Some u \<and> relevant C u)" for u

  proof -
    have j: "i \<le> j \<longleftrightarrow> j = i \<or> i + 1 \<le> j" for j by auto
    show ?thesis unfolding j conj_disj_distribR ex_disj_distrib using assms by auto
  qed
  then show ?thesis by (auto simp: ends_from_def)
qed

lemma try_strings_spec:
  assumes "pos < length s" "n \<le> pos" "vector_ok v" "lens_ok C v lens"
    "\<And>t. t \<in> texts v \<Longrightarrow> relevant C t \<Longrightarrow> length t \<le> cap" "i \<le> nat (uv_count v)"
    "ol_ok q" "ol_capacity q = cap" "\<And>x. x \<in> (+) pos ` offsets q \<Longrightarrow> x < length s"
  shows "(length s \<in> ends_from C s pos n v i \<and>
       try_strings s pos (length s) v lens n i (nat (uv_count v)) q = Some (Return (length s))) \<or>
    (length s \<notin> ends_from C s pos n v i \<and>
     (\<exists>r. try_strings s pos (length s) v lens n i (nat (uv_count v)) q = Some (Go r) \<and> ol_ok r \<and>
       ol_capacity r = cap \<and> (+) pos ` offsets r = (+) pos ` offsets q \<union> ends_from C s pos n v i))"
  using assms(6-9)
proof (induction "nat (uv_count v) - i" arbitrary: i q)
  case 0
  then show ?case by (simp add: ends_from_end try_strings.simps)
next
  case (Suc m)
  let ?N = "nat (uv_count v)"
  have i: "i < ?N" "m = ?N - (i + 1)" using Suc.hyps(2) by auto
  obtain t where t: "string_at v i = Some t" "t \<noteq> []" "units_ok t" using assms(3) i by (auto simp: vector_ok_def)
  have l: "rd lens i = Some (if relevant C t then makeSpanLengthByte (contained C t) else ALL_CP_CONTAINED)"
    using assms(4) i t by (auto simp: lens_ok_def)
  note ih = Suc.hyps(1) [OF i(2)]
  note step = ends_from_step [OF i(1) t(1), of C s pos n]
  show ?case
  proof (cases "relevant C t")
    case False
    then have "try_strings s pos (length s) v lens n i ?N q = try_strings s pos (length s) v lens n (i + 1) ?N q"
      using l i by (simp add: try_strings.simps [of s pos "length s" v lens n i])
    with ih [of q] False step Suc.prems i show ?thesis by simp
  next
    case True
    obtain k where k: "u16_back_1 t 0 (length t) = Some k" "k < length t" "contained C t \<le> k"
      using back_contained [OF t(3,2) True] .
    let ?o = "tried C n t"
    have o: "?o < length t" "?o \<le> n" using tried_bounds [OF t(3,2) True] by auto
    have tr: "try_strings s pos (length s) v lens n i ?N q = do {
        r \<leftarrow> try_inc s pos (length s) t ?o (length t - ?o) q;
        case r of Return k \<Rightarrow> Some (Return k) | Go q \<Rightarrow> try_strings s pos (length s) v lens n (i + 1) ?N q }"
    proof -
      have "do { overlap \<leftarrow> rd lens i;
          if overlap = ALL_CP_CONTAINED then R
          else do { s16 \<leftarrow> string_at v i;
            overlap \<leftarrow> (if overlap \<ge> LONG_SPAN then u16_back_1 s16 0 (length s16) else Some overlap);
            let overlap = (if overlap > n then n else overlap);
            inc \<leftarrow> minus (length s16) overlap;
            f s16 overlap inc } } = f t ?o (length t - ?o)" for R and f :: "int list \<Rightarrow> nat \<Rightarrow> nat \<Rightarrow> offset_list step option"
        using l t(1) True k o
        by (auto simp: makeSpanLengthByte_def ALL_CP_CONTAINED_def LONG_SPAN_def tried_def minus_def Let_def min_def)
      then show ?thesis using i by (subst try_strings.simps) simp
    qed
    have texts: "length t \<le> cap" using assms(5) [of t] True i t by (auto simp: texts_def)
    have "?o \<le> pos" "?o + (length t - ?o) = length t" "0 < length t - ?o" using o assms(2) by auto
    from try_inc_spec [OF t(2) assms(1) this Suc.prems(2)] texts Suc.prems(3,4)
    consider "length s \<in> ends_at s pos t ?o" "try_inc s pos (length s) t ?o (length t - ?o) q = Some (Return (length s))"
      | r where "length s \<notin> ends_at s pos t ?o" "try_inc s pos (length s) t ?o (length t - ?o) q = Some (Go r)" "ol_ok r"
        "ol_capacity r = cap" "(+) pos ` offsets r = (+) pos ` offsets q \<union> ends_at s pos t ?o"
      by auto
    then show ?thesis
    proof cases
      case 1
      with tr step True show ?thesis by simp
    next
      case 2
      have "x < length s" if "x \<in> (+) pos ` offsets r" for x
        using that 2(1,5) Suc.prems(4) by (auto simp: ends_at_def matches_at_def le_neq_implies_less)
      with ih [OF _ 2(3,4)] i 2 tr step True show ?thesis by (simp add: Un_assoc)
    qed
  qed
qed

section \<open>The rounds of the contained span\<close>

abbreviation pending :: "nat \<Rightarrow> offset_list \<Rightarrow> nat set" where
  "pending pos q \<equiv> (+) pos ` offsets q"

text \<open>
  At the start of a round: \<open>pos\<close> was reached, the last \<open>n\<close> units before it are a span over
  code points, and whatever starts before that span ends by \<open>pos\<close> or is pending.
\<close>

definition span_inv :: "int set \<Rightarrow> int list set \<Rightarrow> int list \<Rightarrow> nat \<Rightarrow> nat \<Rightarrow> offset_list \<Rightarrow> bool" where
  "span_inv C T s pos n q \<longleftrightarrow> pos < length s \<and> n \<le> pos \<and> spans_to C T s pos \<and> spans_to C T s (pos - n) \<and>
     all_in C s (pos - n) pos \<and> (0 < n \<or> pos = 0 \<longrightarrow> stops C s pos) \<and> ol_ok q \<and>
     2 \<le> ol_capacity q \<and> (\<forall>t \<in> T. length t \<le> ol_capacity q) \<and> (\<forall>x \<in> pending pos q. spans_to C T s x \<and> x < length s) \<and>
     (\<forall>i j. i < pos - n \<longrightarrow> spans_to C T s i \<longrightarrow> element_at C T s i j \<longrightarrow> j \<le> pos \<or> j \<in> pending pos q)"

text \<open>After the strings were tried.\<close>

definition tried_inv :: "int set \<Rightarrow> int list set \<Rightarrow> int list \<Rightarrow> nat \<Rightarrow> nat \<Rightarrow> offset_list \<Rightarrow> bool" where
  "tried_inv C T s pos n q \<longleftrightarrow> pos < length s \<and> n \<le> pos \<and> spans_to C T s pos \<and>
     (0 < n \<or> pos = 0 \<longrightarrow> stops C s pos) \<and> ol_ok q \<and>
     2 \<le> ol_capacity q \<and> (\<forall>t \<in> T. length t \<le> ol_capacity q) \<and> (\<forall>x \<in> pending pos q. spans_to C T s x \<and> x < length s) \<and>
     (\<forall>i j. i < pos \<longrightarrow> spans_to C T s i \<longrightarrow> element_at C T s i j \<longrightarrow> j \<le> pos \<or> j \<in> pending pos q) \<and>
     (\<forall>t \<in> T. matches_at s pos t \<longrightarrow> pos + length t \<in> pending pos q)"

lemma u16_next_le:
  assumes "u16_next s i (length s) = Some (c, j)" "boundary s pos" "i < pos"
  shows "j \<le> pos"
proof (rule ccontr)
  assume "\<not> j \<le> pos"
  then have "j = i + 2" "pos = i + 1" using assms(1,3) by (auto simp: u16_next_def bind_eq_Some_conv split: if_splits)
  with assms show False by (auto simp: u16_next_def boundary_def bind_eq_Some_conv rd_eq_Some_iff split: if_splits)
qed

lemma contained_overlap:
  assumes "units_ok s" "matches_at s i t" "all_in C s i pos" "boundary s pos" "i \<le> pos" "pos \<le> i + length t"
  shows "pos - i \<le> contained C t"
proof -
  let ?k = "pos - i"
  have m: "take (length t) (drop i s) = t" "i + length t \<le> length s" using assms(2) by (simp_all add: matches_at_def)
  have tk: "take ?k t = take ?k (drop i s)"
    using arg_cong [OF m(1), of "take ?k"] assms(6) by (simp add: min_absorb1)
  have b: "boundary t ?k" using boundary_take [OF boundary_drop [OF assms(4,5)], of "length t"] m(1) by simp
  have k: "?k \<le> length t" using assms(6) by simp
  have "cps t = cps (take ?k t) @ cps (drop ?k t)" using cps_split [OF b k] .
  moreover have "set (cps (take ?k t)) \<subseteq> C" using assms(3) tk by (simp add: all_in_def)
  ultimately have "takeWhile (\<lambda>c. c \<in> C) (cps t) = cps (take ?k t) @ takeWhile (\<lambda>c. c \<in> C) (cps (drop ?k t))"
    by (simp add: takeWhile_append subset_iff)
  moreover have "u16_len (cps (take ?k t)) = ?k"
    using u16_len_cps [of "take ?k t"] k tk units_ok_take [OF units_ok_drop [OF assms(1)]]
    by (metis length_take min.absorb2)
  ultimately show ?thesis by (simp add: contained_def)
qed

lemma strings_tried:
  assumes "units_ok s" "span_inv C T s pos n q" "vector_ok v" "lens_ok C v lens" "T = {t \<in> texts v. relevant C t}"
  shows "(spans_to C T s (length s) \<and>
      try_strings s pos (length s) v lens n 0 (nat (uv_count v)) q = Some (Return (length s))) \<or>
    (\<exists>r. try_strings s pos (length s) v lens n 0 (nat (uv_count v)) q = Some (Go r) \<and> tried_inv C T s pos n r)"
proof -
  have inv: "pos < length s" "n \<le> pos" "spans_to C T s pos" "spans_to C T s (pos - n)" "all_in C s (pos - n) pos"
    "0 < n \<or> pos = 0 \<Longrightarrow> stops C s pos" "ol_ok q" "\<And>t. 2 \<le> ol_capacity q \<and> (t \<in> T \<longrightarrow> length t \<le> ol_capacity q)"
    "\<And>x. x \<in> pending pos q \<Longrightarrow> spans_to C T s x \<and> x < length s"
    "\<And>i j. i < pos - n \<Longrightarrow> spans_to C T s i \<Longrightarrow> element_at C T s i j \<Longrightarrow> j \<le> pos \<or> j \<in> pending pos q"
    using assms(2) by (auto simp: span_inv_def)
  have bp: "boundary s pos" using spans_to_boundary [OF inv(3)] by simp
  let ?E = "ends_from C s pos n v 0"
  have T: "t \<in> T \<longleftrightarrow> (\<exists>j. 0 \<le> j \<and> j < nat (uv_count v) \<and> string_at v j = Some t \<and> relevant C t)" for t
    using assms(5) by (auto simp: texts_def)
  have tb: "units_ok t" "t \<noteq> []" "relevant C t" if "t \<in> T" for t
    using that assms(3) T by (auto simp: vector_ok_def)
  have E: "x \<in> ?E \<longleftrightarrow> (\<exists>t \<in> T. x \<in> ends_at s pos t (tried C n t))" for x
    using T by (auto simp: ends_from_def)
  have sound: "spans_to C T s x \<and> pos < x" if x: "x \<in> ?E" for x
  proof -
    from x E obtain t k where t: "t \<in> T" "x = pos - k + length t" "k \<le> tried C n t" "matches_at s (pos - k) t"
      by (auto simp: ends_at_def)
    note tr = tried_bounds [OF tb [OF t(1)]]
    have k: "k \<le> n" "k < length t" using t(3) tr(1,2) [of n] by auto
    have bk: "boundary s (pos - k)" using t(4) by (simp add: matches_at_def)
    have "all_in C s (pos - n) (pos - k)" using all_in_part(1) [OF inv(5) bk] k inv(1) by simp
    then have "spans_to C T s (pos - k)" using spans_to_walk [OF assms(1) inv(4) _ bk] k inv(1) by simp
    then have "spans_to C T s x" by (rule spans_to.step) (use t in \<open>auto simp: element_at_def\<close>)
    with t(2) k inv(2) show ?thesis by simp
  qed
  have complete: "i + length t \<le> pos \<or> i + length t \<in> ?E"
    if i: "pos - n \<le> i" "i \<le> pos" "t \<in> T" "matches_at s i t" for i t
  proof (cases "i + length t \<le> pos")
    case False
    have bi: "boundary s i" using i(4) by (simp add: matches_at_def)
    have "all_in C s i pos" using all_in_part(2) [OF inv(5) bi i(1,2)] inv(1) by simp
    then have "pos - i \<le> contained C t" using contained_overlap [OF assms(1) i(4) _ bp i(2)] False by simp
    then have "pos - i \<le> tried C n t" using tried_bounds(3) [OF tb [OF i(3)]] i(1) by simp
    then have "i + length t \<in> ends_at s pos t (tried C n t)"
      using i by (auto simp: ends_at_def intro!: exI [of _ "pos - i"])
    with i(3) E show ?thesis by blast
  qed simp
  have cap: "length t \<le> ol_capacity q" if "t \<in> texts v" "relevant C t" for t using inv(8) that assms(5) by auto
  from try_strings_spec [OF inv(1,2) assms(3,4) cap le0 inv(7) refl conjunct2 [OF inv(9)]]
  consider "length s \<in> ?E" "try_strings s pos (length s) v lens n 0 (nat (uv_count v)) q = Some (Return (length s))"
    | r where "length s \<notin> ?E" "try_strings s pos (length s) v lens n 0 (nat (uv_count v)) q = Some (Go r)" "ol_ok r"
      "ol_capacity r = ol_capacity q" "pending pos r = pending pos q \<union> ?E"
    by blast
  then show ?thesis
  proof cases
    case 1
    with sound show ?thesis by blast
  next
    case 2
    have "tried_inv C T s pos n r"
      unfolding tried_inv_def
    proof (intro conjI ballI allI impI)
      fix x
      assume "x \<in> pending pos r"
      then have "x \<in> pending pos q \<or> x \<in> ?E" using 2(5) by blast
      then show "spans_to C T s x" "x < length s" 
        using inv(9) sound 2(1) spans_to_boundary by (blast, metis le_neq_implies_less)
    next
      fix i j
      assume i: "i < pos" "spans_to C T s i" "element_at C T s i j"
      show "j \<le> pos \<or> j \<in> pending pos r"
      proof (cases "i < pos - n")
        case True
        with inv(10) i 2(5) show ?thesis by blast
      next
        case False
        with i(3) complete [of i] i(1) bp 2(5) u16_next_le [of s i _ j pos] show ?thesis
          by (auto simp: element_at_def)
      qed
    next
      fix t
      assume t: "t \<in> T" "matches_at s pos t"
      with complete [of pos t] tb [OF t(1)] 2(5) show "pos + length t \<in> pending pos r" by auto
    qed (use inv 2 in auto)
    with 2(2) show ?thesis by blast
  qed
qed

definition last_span :: "int set \<Rightarrow> int list set \<Rightarrow> int list \<Rightarrow> nat \<Rightarrow> bool" where
  "last_span C T s r \<longleftrightarrow> spans_to C T s r \<and> (\<forall>x. spans_to C T s x \<longrightarrow> x \<le> r)"

lemma last_span_Max: "last_span C T s r \<Longrightarrow> r = Max {i. spans_to C T s i}"
  using finite_spans_to [of C T s] by (intro Max_eqI [symmetric]) (auto simp: last_span_def)

lemma last_span_all: "spans_to C T s (length s) \<Longrightarrow> last_span C T s (length s)"
  by (auto simp: last_span_def dest: spans_to_boundary)

definition round_ok :: "int set \<Rightarrow> int list set \<Rightarrow> int list \<Rightarrow> nat \<Rightarrow> (nat \<times> nat \<times> offset_list) step option \<Rightarrow> bool" where
  "round_ok C T s pos r \<longleftrightarrow> (\<exists>k. r = Some (Return k) \<and> last_span C T s k) \<or>
     (\<exists>pos' n q. r = Some (Go (pos', n, q)) \<and> pos < pos' \<and> span_inv C T s pos' n q)"

lemma stuck_round:
  assumes "tried_inv C T s pos n q" "stops C s pos"
  shows "round_ok C T s pos (if ol_isEmpty q then Some (Return pos) else pop_round pos q)"
proof -
  have inv: "pos < length s" "spans_to C T s pos" "ol_ok q" "2 \<le> ol_capacity q" "\<forall>t \<in> T. length t \<le> ol_capacity q"
    "\<And>x. x \<in> pending pos q \<Longrightarrow> spans_to C T s x \<and> x < length s"
    "\<And>i j. i < pos \<Longrightarrow> spans_to C T s i \<Longrightarrow> element_at C T s i j \<Longrightarrow> j \<le> pos \<or> j \<in> pending pos q"
    "\<And>t. t \<in> T \<Longrightarrow> matches_at s pos t \<Longrightarrow> pos + length t \<in> pending pos q"
    using assms(1) by (auto simp: tried_inv_def)
  have goes: "j \<le> pos \<or> j \<in> pending pos q" if "spans_to C T s i" "i \<le> pos" "element_at C T s i j" for i j
  proof (cases "i = pos")
    case True
    with assms(2) inv(8) that(3) show ?thesis by (auto simp: element_at_def stops_def)
  next
    case False
    then have "i < pos" using that(2) by simp
    from inv(7) [OF this that(1,3)] show ?thesis .
  qed
  show ?thesis
  proof (cases "offsets q = {}")
    case True
    have "x \<le> pos" if "spans_to C T s x" for x
      using spans_to_gap [OF that, of pos "Suc (length s)"] goes True spans_to_boundary [OF that] by auto
    with True inv(2) isEmpty_spec [OF inv(3)] show ?thesis by (simp add: round_ok_def last_span_def)
  next
    case False
    obtain m r where r: "popMinimum q = Some (m, r)" "1 \<le> m" "pos + m \<in> pending pos q"
      "\<And>x. x \<in> pending pos q \<Longrightarrow> pos + m \<le> x" "ol_ok r" "ol_capacity r = ol_capacity q"
      "pending (pos + m) r = pending pos q - {pos + m}"
      using ol.pop_pending [OF inv(3) False, of pos] by blast
    have "span_inv C T s (pos + m) 0 r"
      unfolding span_inv_def
    proof (intro conjI allI impI)
      fix i j
      assume i: "i < pos + m - 0" "spans_to C T s i" "element_at C T s i j"
      have "i \<le> pos" using spans_to_gap [OF i(2), of pos "pos + m"] goes r(4) i(1) by fastforce
      with goes [OF i(2) _ i(3)] r(7) show "j \<le> pos + m \<or> j \<in> pending (pos + m) r" by auto
    qed (use inv r in auto)
    with r(1,2) False isEmpty_spec [OF inv(3)] show ?thesis by (simp add: round_ok_def pop_round_def)
  qed
qed

lemma end_round_spec:
  assumes "units_ok s" "tried_inv C T s pos n q" "plain_ok C S"
  shows "round_ok C T s pos (end_round S s (length s) pos n q)"
proof -
  have inv: "pos < length s" "spans_to C T s pos" "0 < n \<or> pos = 0 \<Longrightarrow> stops C s pos" "ol_ok q"
    "2 \<le> ol_capacity q" "\<forall>t \<in> T. length t \<le> ol_capacity q"
    "\<And>x. x \<in> pending pos q \<Longrightarrow> spans_to C T s x \<and> x < length s"
    "\<And>i j. i < pos \<Longrightarrow> spans_to C T s i \<Longrightarrow> element_at C T s i j \<Longrightarrow> j \<le> pos \<or> j \<in> pending pos q"
    "\<And>t. t \<in> T \<Longrightarrow> matches_at s pos t \<Longrightarrow> pos + length t \<in> pending pos q"
    using assms(2) by (auto simp: tried_inv_def)
  note stuck = stuck_round [OF assms(2)]
  consider "n \<noteq> 0 \<or> pos = 0" | "n = 0" "pos \<noteq> 0" "offsets q = {}" | "n = 0" "pos \<noteq> 0" "offsets q \<noteq> {}" by blast
  then show ?thesis
  proof cases
    case 1
    with stuck inv(3) show ?thesis by (simp add: end_round_def)
  next
    case 2
    then have e: "ol_isEmpty q" using isEmpty_spec [OF inv(4)] by simp
    obtain k where k: "plain_span S (drop pos s) (length s - pos) True = Some k" "pos + k \<le> length s"
      "boundary s (pos + k)" "all_in C s pos (pos + k)" "stops C s (pos + k)"
    proof -
      have "boundary s pos" "pos \<le> length s" using spans_to_boundary [OF inv(2)] by simp_all
      from plain_span_walk [OF assms(3,1) this] that show thesis by blast
    qed
    have reach: "spans_to C T s (pos + k)" using spans_to_walk [OF assms(1) inv(2) k(4,3) _ k(2)] by simp
    have r: "end_round S s (length s) pos n q =
        Some (if k = length s - pos \<or> k = 0 then Return (pos + k) else Go (pos + k, k, q))"
      using 2 e k(1) by (simp add: end_round_def)
    consider "k = 0" | "k = length s - pos" | "0 < k" "pos + k < length s" using k(2) by linarith
    then show ?thesis
    proof cases
      case 1
      with r e stuck k(5) show ?thesis by simp
    next
      case 2
      with r reach inv(1) show ?thesis by (simp add: round_ok_def last_span_all)
    next
      case 3
      have "span_inv C T s (pos + k) k q"
        using 3 reach inv k(4,5) \<open>offsets q = {}\<close> by (auto simp: span_inv_def dest: inv(8))
      moreover have "k \<noteq> length s - pos" using 3 by linarith
      ultimately show ?thesis using r 3 by (simp add: round_ok_def)
    qed
  next
    case 3
    then have e: "\<not> ol_isEmpty q" using isEmpty_spec [OF inv(4)] by simp
    obtain c j where j: "u16_next s pos (length s) = Some (c, j)"
      "spanOne (plain_contains S) (drop pos s) (length s - pos) = Some (if c \<in> C then int (j - pos) else - int (j - pos))"
      using spanOne_spec [OF assms(1) inv(1) assms(3)] .
    note b = u16_next_boundary [OF j(1)]
    show ?thesis
    proof (cases "c \<in> C")
      case False
      then have "stops C s pos" using j(1) by (simp add: stops_def)
      with stuck e False 3 j(2) show ?thesis by (simp add: end_round_def)
    next
      case True
      have reach: "spans_to C T s j" using spans_to.step [OF inv(2)] True j(1) by (auto simp: element_at_def)
      have d: "j - pos \<le> 2" "1 \<le> j - pos" "pos + (j - pos) = j"
        using j(1) b by (auto simp: u16_next_def bind_eq_Some_conv split: if_splits)
      show ?thesis
      proof (cases "j = length s")
        case True
        moreover have "nat (int (length s) - int pos) = length s - pos" by linarith
        ultimately show ?thesis using \<open>c \<in> C\<close> j(2) e 3 reach d inv(1)
          by (simp add: end_round_def round_ok_def last_span_all)
      next
        case False
        have "j \<le> x" if "x \<in> pending pos q" for x
          using u16_next_le [OF j(1)] spans_to_boundary inv(7) [OF that] ol.less_pending [OF that] by blast
        then obtain r where r: "ol_shift (j - pos) q = Some r" "ol_ok r" "ol_capacity r = ol_capacity q"
          "pending j r = pending pos q - {j}"
          using ol.move_pending [OF inv(4) d(2), of pos] d(1,3) inv(5) by (metis le_trans)
        have "span_inv C T s j 0 r"
          unfolding span_inv_def
        proof (intro conjI allI impI)
          fix i x
          assume i: "i < j - 0" "spans_to C T s i" "element_at C T s i x"
          have "i \<le> pos" using u16_next_le [OF j(1), of i] spans_to_boundary [OF i(2)] i(1) by linarith
          with inv(8) [OF _ i(2,3)] inv(9) i(3) j(1) r(4) b show "x \<le> j \<or> x \<in> pending j r"
            by (cases "i = pos") (auto simp: element_at_def)
        qed (use inv r b reach False in auto)
        moreover have "nat (int j - int pos) = j - pos" "j - pos \<noteq> length s - pos" using b False by linarith+
        then have "end_round S s (length s) pos n q = Some (Go (j, 0, r))"
          using 3 e j(2) \<open>c \<in> C\<close> d(2,3) b r(1) by (simp add: end_round_def)
        ultimately show ?thesis using b by (simp add: round_ok_def)
      qed
    qed
  qed
qed

lemma span_rounds_spec:
  assumes "units_ok s" "span_inv C T s pos n q" "vector_ok v" "lens_ok C v (sp_spanLengths p)"
    "T = {t \<in> texts v. relevant C t}" "plain_ok C (sp_spanSet p)"
  shows "\<exists>r. span_rounds p v s (length s) False pos n q = Some r \<and> last_span C T s r"
  using assms(2)
proof (induction "length s - pos" arbitrary: pos n q rule: less_induct)
  case less
  have "round_ok C T s pos (span_round p v s (length s) False pos n q)"
    using strings_tried [OF assms(1) less.prems assms(3-5)]
  proof (elim disjE exE conjE)
    fix r
    assume "try_strings s pos (length s) v (sp_spanLengths p) n 0 (nat (uv_count v)) q = Some (Go r)" "tried_inv C T s pos n r"
    with end_round_spec [OF assms(1) _ assms(6)] show ?thesis by (simp add: span_round_def)
  qed (simp add: span_round_def round_ok_def last_span_all)
  then consider k where "span_round p v s (length s) False pos n q = Some (Return k)" "last_span C T s k"
    | pos' n' q' where "span_round p v s (length s) False pos n q = Some (Go (pos', n', q'))" "pos < pos'"
      "span_inv C T s pos' n' q'"
    by (auto simp: round_ok_def)
  then show ?case
  proof cases
    case 1
    then show ?thesis by (simp add: span_rounds.simps)
  next
    case 2
    then have "pos' < length s" by (simp add: span_inv_def)
    then have "length s - pos' < length s - pos" using 2(2) by linarith
    from less.hyps [OF this 2(3)] 2(1) show ?thesis by (simp add: span_rounds.simps [of p v s "length s" False pos n q])
  qed
qed

text \<open>Strings that consist of code points of the set add nothing.\<close>

lemma relevant_enough:
  assumes "units_ok s" "\<And>t. t \<in> T \<Longrightarrow> units_ok t"
  shows "spans_to C T s i \<longleftrightarrow> spans_to C {t \<in> T. relevant C t} s i"
proof
  show "spans_to C T s i" if "spans_to C {t \<in> T. relevant C t} s i"
    using that
  proof (induction rule: spans_to.induct)
    case (step i j)
    then have "element_at C T s i j" by (auto simp: element_at_def)
    with step.IH show ?case by (rule spans_to.step)
  qed (rule spans_to.start)
  show "spans_to C {t \<in> T. relevant C t} s i" if "spans_to C T s i"
    using that
  proof (induction rule: spans_to.induct)
    case (step i j)
    show ?case
    proof (cases "element_at C {t \<in> T. relevant C t} s i j")
      case True
      with step.IH show ?thesis by (rule spans_to.step)
    next
      case False
      with step.hyps(2) obtain t where t: "t \<in> T" "\<not> relevant C t" "matches_at s i t" "j = i + length t"
        by (auto simp: element_at_def)
      have "all_in C s i j" using t relevant_iff [OF assms(2) [OF t(1)], of C] by (simp add: all_in_def matches_at_def)
      with t spans_to_walk [OF assms(1) step.IH, of j] show ?thesis by (simp add: matches_at_def)
    qed
  qed (rule spans_to.start)
qed

definition sp_ok :: "int set \<Rightarrow> ustr uvector \<Rightarrow> sspan \<Rightarrow> bool" where
  "sp_ok C v p \<longleftrightarrow> vector_ok v \<and> plain_ok C (sp_spanSet p) \<and> lens_ok C v (sp_spanLengths p) \<and>
     (\<forall>t \<in> texts v. length t \<le> sp_maxLength16 p)"

lemma sp_span_contained:
  assumes "sp_ok C v p" "units_ok s" "s \<noteq> []" "sp_maxLength16 p \<le> 16 \<or> uprv_malloc hb (int (sp_maxLength16 p))" "length st = 16"
  shows "sp_span hb st USET_SPAN_CONTAINED p v s (length s) = Some (Max {i. spans_to C (texts v) s i})"
proof -
  let ?T = "{t \<in> texts v. relevant C t}"
  have p: "vector_ok v" "plain_ok C (sp_spanSet p)" "lens_ok C v (sp_spanLengths p)" "\<And>t. t \<in> texts v \<Longrightarrow> length t \<le> sp_maxLength16 p"
    using assms(1) by (auto simp: sp_ok_def)
  obtain n where n: "plain_span (sp_spanSet p) s (length s) True = Some n" "n \<le> length s" "boundary s n"
    "all_in C s 0 n" "stops C s n"
    using plain_span_walk [OF p(2) assms(2), of 0] by auto
  have reach: "spans_to C ?T s n" using spans_to_walk [OF assms(2) spans_to.start n(4,3) _ n(2)] by simp
  have e: "spans_to C (texts v) s i \<longleftrightarrow> spans_to C ?T s i" for i
    by (rule relevant_enough [OF assms(2)]) (use p(1) in \<open>auto simp: vector_ok_def texts_def\<close>)
  show ?thesis
  proof (cases "n = length s")
    case True
    with n(1) reach last_span_Max [OF last_span_all] show ?thesis unfolding e by (simp add: sp_span_def)
  next
    case False
    obtain q where q: "setMaxLength hb (sp_maxLength16 p) (ol_new st) = Some q" "ol_ok q" "offsets q = {}"
      "ol_capacity q = max 16 (sp_maxLength16 p)"
      using setMaxLength_spec [OF assms(4,5)] by blast
    have "span_inv C ?T s n n q"
      using False n q reach p(4) by (auto simp: span_inv_def spans_to.start le_max_iff_disj)
    from span_rounds_spec [OF assms(2) this p(1,3) refl p(2)] obtain r where
      "span_rounds p v s (length s) False n n q = Some r" "last_span C ?T s r" by blast
    with last_span_Max n(1) q(1) False show ?thesis unfolding e by (simp add: sp_span_def)
  qed
qed

section \<open>The span over what is not contained\<close>

definition starts_at :: "int set \<Rightarrow> int list set \<Rightarrow> int list \<Rightarrow> nat \<Rightarrow> bool" where
  "starts_at C T s i \<longleftrightarrow> (\<exists>j. element_at C T s i j)"

definition first_element :: "int set \<Rightarrow> int list set \<Rightarrow> int list \<Rightarrow> nat \<Rightarrow> bool" where
  "first_element C T s r \<longleftrightarrow> r \<le> length s \<and> boundary s r \<and> (r = length s \<or> starts_at C T s r) \<and>
     (\<forall>i < r. boundary s i \<longrightarrow> \<not> starts_at C T s i)"

lemma first_element_unique:
  assumes "first_element C T s r" "first_element C T s r'"
  shows "r = r'"
proof -
  have le: "b \<le> a" if "first_element C T s a" "first_element C T s b" for a b
  proof (rule ccontr)
    assume "\<not> b \<le> a"
    then have "a < b" by simp
    moreover have "boundary s a" "a = length s \<or> starts_at C T s a" "b \<le> length s"
      using that by (auto simp: first_element_def)
    ultimately show False using that(2) by (auto simp: first_element_def)
  qed
  show ?thesis using le [OF assms] le [OF assms(2,1)] by simp
qed

lemma match_first:
  assumes "matches_at s i t" "u16_next s i (length s) = Some (c, j)"
  shows "c = hd (cps t)"
proof -
  have m: "t \<noteq> []" "i + length t \<le> length s" "take (length t) (drop i s) = t" "boundary s (i + length t)"
    using assms(1) by (auto simp: matches_at_def)
  then have "i < length s" by (cases t) auto
  then have "cps (drop i s) = c # cps (drop j s)" using u16_next_cps [of i "length s" s] assms(2) by auto
  moreover have "cps (drop i s) = cps t @ cps (drop (i + length t) s)" 
    using cps_segment [OF m(4) le_add1 m(2)] unfolding add_diff_cancel_left' m(3) .
  moreover have "cps t \<noteq> []" using m(1) by simp
  ultimately show ?thesis by (cases "cps t") simp_all
qed

text \<open>\<open>spanNotSet\<close> has the code points of the set and a first code point of each relevant string.\<close>

definition not_set_ok :: "int set \<Rightarrow> ustr uvector \<Rightarrow> int set \<Rightarrow> bool" where
  "not_set_ok C v D \<longleftrightarrow> C \<subseteq> D \<and> (\<forall>t \<in> texts v. relevant C t \<longrightarrow> hd (cps t) \<in> D)"

lemma hd_irrelevant: "t \<noteq> [] \<Longrightarrow> units_ok t \<Longrightarrow> \<not> relevant C t \<Longrightarrow> hd (cps t) \<in> C"
  using relevant_iff [of t C] by (cases "cps t") auto

text \<open>Of the lengths, the span over what is not contained only asks which strings are relevant.\<close>

definition marks_ok :: "int set \<Rightarrow> ustr uvector \<Rightarrow> nat list \<Rightarrow> bool" where
  "marks_ok C v lens \<longleftrightarrow> (\<forall>i < nat (uv_count v). \<forall>t. string_at v i = Some t \<longrightarrow>
     (\<exists>l. rd lens i = Some l \<and> (l = ALL_CP_CONTAINED \<longleftrightarrow> \<not> relevant C t)))"

lemma lens_marks: "lens_ok C v lens \<Longrightarrow> marks_ok C v lens"
  by (auto simp: lens_ok_def marks_ok_def makeSpanLengthByte_def ALL_CP_CONTAINED_def)

definition sp_not_ok :: "int set \<Rightarrow> int set \<Rightarrow> ustr uvector \<Rightarrow> sspan \<Rightarrow> bool" where
  "sp_not_ok C D v p \<longleftrightarrow> vector_ok v \<and> plain_ok C (sp_spanSet p) \<and> marks_ok C v (sp_spanLengths p) \<and>
     not_set_ok C v D \<and> (\<exists>N. sp_notSet p = Some N \<and> plain_ok D N)"

lemma match_some_spec:
  assumes "vector_ok v" "marks_ok C v lens" "pos \<le> length s" "i \<le> nat (uv_count v)"
  shows "match_some s pos (length s) v lens i (nat (uv_count v)) =
    Some (\<exists>j. i \<le> j \<and> j < nat (uv_count v) \<and> (\<exists>t. string_at v j = Some t \<and> relevant C t \<and> matches_at s pos t))"
  using assms(4)
proof (induction "nat (uv_count v) - i" arbitrary: i)
  case 0
  then show ?case by (simp add: match_some.simps)
next
  case (Suc m)
  let ?N = "nat (uv_count v)"
  have i: "i < ?N" "m = ?N - (i + 1)" using Suc.hyps(2) by auto
  obtain t where t: "string_at v i = Some t" "t \<noteq> []" "units_ok t" using assms(1) i by (auto simp: vector_ok_def)
  obtain l where l: "rd lens i = Some l" "l = ALL_CP_CONTAINED \<longleftrightarrow> \<not> relevant C t"
    using assms(2) i t by (auto simp: marks_ok_def)
  have j: "i \<le> j \<longleftrightarrow> j = i \<or> i + 1 \<le> j" for j by auto
  have m: "(if length t \<le> length s - pos then matches16CPB s pos (length s) t (length t) else Some False) = Some (matches_at s pos t)"
  proof (cases "length t \<le> length s - pos")
    case True
    then show ?thesis using matches16CPB_spec [OF t(2), of pos s] assms(3) by simp
  qed (use assms(3) in \<open>auto simp: matches_at_def\<close>)
  have ih: "match_some s pos (length s) v lens (i + 1) ?N =
      Some (\<exists>j. i + 1 \<le> j \<and> j < ?N \<and> (\<exists>t. string_at v j = Some t \<and> relevant C t \<and> matches_at s pos t))"
    by (rule Suc.hyps(1)) (use i in auto)
  have "match_some s pos (length s) v lens i ?N =
      (if relevant C t \<and> matches_at s pos t then Some True else match_some s pos (length s) v lens (i + 1) ?N)"
    using i(1) l t(1) m by (subst match_some.simps) (simp cong: if_cong)
  also have "\<dots> = Some (\<exists>j. i \<le> j \<and> j < ?N \<and> (\<exists>t. string_at v j = Some t \<and> relevant C t \<and> matches_at s pos t))"
    unfolding ih j conj_disj_distribR ex_disj_distrib using i(1) t(1) by auto
  finally show ?case .
qed

lemma spanNot_spec:
  assumes "units_ok s" "sp_not_ok C D v p"
    "pos < length s" "boundary s pos" "\<And>i. i < pos \<Longrightarrow> boundary s i \<Longrightarrow> \<not> starts_at C (texts v) s i"
  shows "\<exists>r. spanNot_loop p v s (length s) pos = Some r \<and> first_element C (texts v) s r"
  using assms(3-5)
proof (induction "length s - pos" arbitrary: pos rule: less_induct)
  case less
  obtain N where p: "vector_ok v" "plain_ok C (sp_spanSet p)" "marks_ok C v (sp_spanLengths p)" and
    D: "C \<subseteq> D" "\<And>t. t \<in> texts v \<Longrightarrow> relevant C t \<Longrightarrow> hd (cps t) \<in> D" and
    N: "sp_notSet p = Some N" "plain_ok D N"
    using assms(2) by (auto simp: sp_not_ok_def not_set_ok_def)
  have first: "hd (cps t) \<in> D" "\<not> relevant C t \<Longrightarrow> hd (cps t) \<in> C" if "t \<in> texts v" for t
  proof -
    have "t \<noteq> []" "units_ok t" using that p(1) by (auto simp: vector_ok_def texts_def)
    then show "\<not> relevant C t \<Longrightarrow> hd (cps t) \<in> C" by (rule hd_irrelevant)
    with D that show "hd (cps t) \<in> D" by blast
  qed
  obtain n where n: "plain_span N (drop pos s) (length s - pos) False = Some n" "pos + n \<le> length s" "boundary s (pos + n)"
    "all_in {c. c \<notin> D} s pos (pos + n)"
    using plain_span_gen [OF N(2) assms(1) less.prems(2), of False] less.prems(1) by auto
  have no: "\<not> starts_at C (texts v) s i" if i: "i < pos + n" "boundary s i" for i
  proof (cases "i < pos")
    case False
    then have l: "i < length s" "pos \<le> i" using i n(2) by auto
    obtain c j where c: "u16_next s i (length s) = Some (c, j)" using u16_next_cps [OF l(1) refl] by auto
    note b = u16_next_boundary [OF c]
    have le: "j \<le> pos + n" using u16_next_le [OF c n(3) i(1)] .
    have "all_in {c. c \<notin> D} s i (pos + n)" using all_in_part(2) [OF n(4) i(2) l(2) _ n(2)] i(1) by simp
    then have "all_in {c. c \<notin> D} s i j" using all_in_part(1) b le n(2) by (meson less_imp_le)
    then have "c \<notin> D" using b by (simp add: all_in_def)
    with c D(1) first(1) match_first [OF _ c] show ?thesis by (auto simp: starts_at_def element_at_def)
  qed (use less.prems(3) i in blast)
  show ?case
  proof (cases "pos + n = length s")
    case True
    then have "spanNot_loop p v s (length s) pos = Some (length s)"
      using n(1) N(1) by (subst spanNot_loop.simps) auto
    with True no show ?thesis by (auto simp: first_element_def)
  next
    case False
    then have l: "pos + n < length s" using n(2) by simp
    let ?pos = "pos + n"
    obtain c j where c: "u16_next s ?pos (length s) = Some (c, j)"
      "spanOne (plain_contains (sp_spanSet p)) (drop ?pos s) (length s - ?pos) = Some (if c \<in> C then int (j - ?pos) else - int (j - ?pos))"
      using spanOne_spec [OF assms(1) l p(2)] .
    note b = u16_next_boundary [OF c(1)]
    have m: "match_some s ?pos (length s) v (sp_spanLengths p) 0 (nat (uv_count v)) =
        Some (\<exists>t \<in> texts v. relevant C t \<and> matches_at s ?pos t)"
      using match_some_spec [OF p(1,3) n(2)] by (auto simp: texts_def)
    let ?next = "if j = length s then Some (length s) else spanNot_loop p v s (length s) j"
    have lt: "?pos < j" using b by blast
    then have jpos: "0 < int (j - ?pos)" "?pos + nat (int (j - ?pos)) = j" by (simp_all only: nat_int)
    have loop: "spanNot_loop p v s (length s) pos =
        (if c \<in> C then Some ?pos else if \<exists>t \<in> texts v. relevant C t \<and> matches_at s ?pos t then Some ?pos else ?next)"
    proof -
      have "n \<noteq> length s - pos" using l by linarith
      then have "spanNot_loop p v s (length s) pos = do {
            k \<leftarrow> spanOne (plain_contains (sp_spanSet p)) (drop ?pos s) (length s - ?pos);
            if k > 0 then Some ?pos
            else do {
              m \<leftarrow> match_some s ?pos (length s) v (sp_spanLengths p) 0 (nat (uv_count v));
              if m then Some ?pos
              else if ?pos + nat (- k) = length s then Some (length s)
              else spanNot_loop p v s (length s) (?pos + nat (- k)) } }"
        using n(1) N(1) by (subst spanNot_loop.simps) (simp only: bind.bind_lunit Let_def if_False)
      moreover have "\<not> 0 < - int (j - ?pos)" using jpos by linarith
      ultimately show ?thesis
        unfolding c(2) m bind.bind_lunit using jpos by (cases "c \<in> C") (simp_all only: if_True if_False minus_minus bind.bind_lunit)
    qed
    show ?thesis
    proof (cases "c \<in> C \<or> (\<exists>t \<in> texts v. relevant C t \<and> matches_at s ?pos t)")
      case True
      then have "starts_at C (texts v) s ?pos" using c(1) by (auto simp: starts_at_def element_at_def)
      with True loop no n(2,3) show ?thesis by (auto simp: first_element_def)
    next
      case stop: False
      have "\<not> starts_at C (texts v) s ?pos"
        using stop c(1) first(2) match_first [OF _ c(1)] by (auto simp: starts_at_def element_at_def)
      then have no': "\<not> starts_at C (texts v) s i" if "i < j" "boundary s i" for i
        using no [of i] that u16_next_le [OF c(1) that(2)] by (cases "i < ?pos"; cases "i = ?pos") auto
      show ?thesis
      proof (cases "j = length s")
        case True
        with loop stop no' show ?thesis by (auto simp: first_element_def)
      next
        case False
        have "length s - j < length s - pos" "j < length s" using b False l by linarith+
        with less.hyps [of j] b no' loop stop False show ?thesis by auto
      qed
    qed
  qed
qed

lemma sp_span_not:
  assumes "sp_not_ok C D v p" "units_ok s" "s \<noteq> []"
  shows "\<exists>r. sp_span hb st USET_SPAN_NOT_CONTAINED p v s (length s) = Some r \<and> first_element C (texts v) s r"
  using spanNot_spec [OF assms(2,1), of 0] assms(3) by (simp add: sp_span_def)

section \<open>When no string is relevant\<close>

lemma irrelevant_span:
  assumes "units_ok s" "\<And>t. t \<in> T \<Longrightarrow> units_ok t \<and> \<not> relevant C t"
  shows "u16_len (takeWhile (\<lambda>c. c \<in> C) (cps s)) = Max {i. spans_to C T s i}"
proof -
  define n where "n = u16_len (takeWhile (\<lambda>c. c \<in> C) (cps s))"
  have w: "n \<le> length s" "boundary s n" "all_in C s 0 n" "stops C s n"
    using walk_gen [OF assms(1) _ _, of 0 n "\<lambda>c. c \<in> C"] by (simp_all add: n_def)
  have none: "{t \<in> T. relevant C t} = {}" using assms(2) by blast
  have e: "spans_to C T s i \<longleftrightarrow> spans_to C {} s i" for i
    using relevant_enough [OF assms(1), of T C i] assms(2) none by simp
  have "i \<le> n" if "spans_to C {} s i" for i
    using that
  proof (induction rule: spans_to.induct)
    case (step i j)
    from step.hyps(2) obtain c where c: "c \<in> C" "u16_next s i (length s) = Some (c, j)"
      by (auto simp: element_at_def)
    with w(4) have "i \<noteq> n" by (auto simp: stops_def)
    with u16_next_le [OF c(2) w(2)] step.IH show ?case by simp
  qed simp
  moreover have "spans_to C {} s n" using spans_to_walk [OF assms(1) spans_to.start w(3,2) _ w(1)] by simp
  ultimately have "last_span C T s n" unfolding last_span_def e by blast
  from last_span_Max [OF this] show ?thesis by (simp add: n_def)
qed

lemma irrelevant_starts:
  assumes "\<And>t. t \<in> T \<Longrightarrow> units_ok t \<and> \<not> relevant C t" "starts_at C T s i" "u16_next s i (length s) = Some (c, j)"
  shows "c \<in> C"
proof -
  from assms(2) consider c' j' where "c' \<in> C" "u16_next s i (length s) = Some (c', j')"
    | t where "t \<in> T" "matches_at s i t" by (auto simp: starts_at_def element_at_def)
  then show ?thesis
  proof cases
    case 1
    with assms(3) show ?thesis by simp
  next
    case 2
    with match_first [OF 2(2) assms(3)] hd_irrelevant [of t C] assms(1) show ?thesis by (auto simp: matches_at_def)
  qed
qed

lemma irrelevant_first:
  assumes "units_ok s" "\<And>t. t \<in> T \<Longrightarrow> units_ok t \<and> \<not> relevant C t"
  shows "first_element C T s (u16_len (takeWhile (\<lambda>c. c \<notin> C) (cps s)))"
proof -
  define n where "n = u16_len (takeWhile (\<lambda>c. c \<notin> C) (cps s))"
  have w: "n \<le> length s" "boundary s n" "all_in {c. c \<notin> C} s 0 n" "stops {c. c \<notin> C} s n"
    using walk_gen [OF assms(1) _ _, of 0 n "\<lambda>c. c \<notin> C"] by (simp_all add: n_def)
  have "\<not> starts_at C T s i" if i: "i < n" "boundary s i" for i
  proof -
    have l: "i < length s" using i w(1) by simp
    obtain c j where c: "u16_next s i (length s) = Some (c, j)" using u16_next_cps [OF l refl] by auto
    note b = u16_next_boundary [OF c]
    have le: "j \<le> n" using u16_next_le [OF c w(2) i(1)] .
    have "all_in {c. c \<notin> C} s i n" using all_in_part(2) [OF w(3) i(2) _ _ w(1)] i(1) by simp
    then have "all_in {c. c \<notin> C} s i j" using all_in_part(1) b le w(1) by (meson less_imp_le)
    then have "c \<notin> C" using b by (simp add: all_in_def)
    with irrelevant_starts [OF assms(2) _ c] show ?thesis by blast
  qed
  moreover have "starts_at C T s n" if "n \<noteq> length s"
  proof -
    have "n < length s" using that w(1) by simp
    then obtain c j where c: "u16_next s n (length s) = Some (c, j)" using u16_next_cps by blast
    with w(4) show ?thesis by (auto simp: stops_def starts_at_def element_at_def)
  qed
  ultimately have "first_element C T s n" using w(1,2) by (auto simp: first_element_def)
  then show ?thesis by (simp add: n_def)
qed

end
