(* ===== verification/SpanSimple.thy ===== *)
theory SpanSimple
  imports SpanSpec
begin

text \<open>
  The span with the longest match, \<open>USET_SPAN_SIMPLE\<close>: it returns, what it covers is a sequence
  of set elements, and it only stops before the end where no set element starts. It does not always
  take the longest element at each position.
\<close>

section \<open>One string\<close>

lemma try_longest_spec:
  assumes "t \<noteq> []" "pos < length s" "overlap \<le> pos" "overlap + inc = length t"
  shows "\<exists>mi mo. try_longest s pos (length s) t overlap inc m0 o0 = Some (mi, mo) \<and>
    (mi = m0 \<and> mo = o0 \<or> mo \<le> overlap \<and> mo + mi = length t \<and> matches_at s (pos - mo) t) \<and>
    (m0 = 0 \<and> o0 = 0 \<and> matches_at s pos t \<longrightarrow> mi \<noteq> 0 \<or> mo \<noteq> 0)"
  using assms(3,4)
proof (induction overlap arbitrary: inc)
  case 0
  show ?case
  proof (cases "inc > length s - pos \<or> 0 < o0")
    case True
    then have "\<not> (o0 = 0 \<and> matches_at s pos t)" using 0 assms(2) by (auto simp: matches_at_def)
    with True show ?thesis by (auto simp: try_longest.simps [of s pos])
  next
    case False
    have m: "matches16CPB s pos (length s) t (length t) = Some (matches_at s pos t)"
      using False 0 assms(1,2) by (intro matches16CPB_spec) auto
    have inc: "0 < inc" using assms(1) 0 by simp
    show ?thesis
    proof (cases "inc > m0 \<and> matches_at s pos t")
      case True
      with False m inc 0 assms(1) show ?thesis by (simp add: try_longest.simps [of s pos] minus_def)
    next
      case f: False
      with False m inc 0 show ?thesis by (auto simp: try_longest.simps [of s pos] minus_def)
    qed
  qed
next
  case (Suc k)
  let ?i = "pos - Suc k"
  have i: "?i + length t = pos + inc" using Suc.prems by simp
  show ?case
  proof (cases "inc > length s - pos \<or> Suc k < o0")
    case True
    then have "\<not> (o0 = 0 \<and> matches_at s pos t)" using Suc.prems assms(2) by (auto simp: matches_at_def)
    with True show ?thesis by (auto simp: try_longest.simps [of s pos])
  next
    case False
    have m: "matches16CPB s ?i (length s) t (length t) = Some (matches_at s ?i t)"
      using False i assms(1,2) by (intro matches16CPB_spec) auto
    show ?thesis
    proof (cases "(Suc k > o0 \<or> inc > m0) \<and> matches_at s ?i t")
      case True
      with False m Suc.prems show ?thesis by (auto simp: try_longest.simps [of s pos] minus_def)
    next
      case f: False
      have "try_longest s pos (length s) t (Suc k) inc m0 o0 = try_longest s pos (length s) t k (inc + 1) m0 o0"
        using False f m Suc.prems by (subst try_longest.simps) (auto simp: minus_def)
      moreover obtain mi mo where "try_longest s pos (length s) t k (inc + 1) m0 o0 = Some (mi, mo)"
        "mi = m0 \<and> mo = o0 \<or> mo \<le> k \<and> mo + mi = length t \<and> matches_at s (pos - mo) t"
        "m0 = 0 \<and> o0 = 0 \<and> matches_at s pos t \<longrightarrow> mi \<noteq> 0 \<or> mo \<noteq> 0"
        using Suc.IH [of "inc + 1"] Suc.prems by auto
      ultimately show ?thesis by auto
    qed
  qed
qed

section \<open>All strings\<close>

lemma longest_strings_spec:
  assumes "vector_ok v" "lens_ok C v lens" "pos < length s" "n \<le> pos" "i \<le> nat (uv_count v)"
  shows "\<exists>mi mo. longest_strings s pos (length s) v lens n i (nat (uv_count v)) m0 o0 = Some (mi, mo) \<and>
    (mi = m0 \<and> mo = o0 \<or> (\<exists>t \<in> texts v. mo \<le> n \<and> mo + mi = length t \<and> matches_at s (pos - mo) t)) \<and>
    (mi = 0 \<and> mo = 0 \<longrightarrow> m0 = 0 \<and> o0 = 0 \<and>
      (\<forall>k t. i \<le> k \<longrightarrow> k < nat (uv_count v) \<longrightarrow> string_at v k = Some t \<longrightarrow> \<not> matches_at s pos t))"
  using assms(5)
proof (induction "nat (uv_count v) - i" arbitrary: i m0 o0)
  case 0
  then show ?case by (auto simp: longest_strings.simps)
next
  case (Suc d)
  let ?N = "nat (uv_count v)"
  have i: "i < ?N" "d = ?N - (i + 1)" "i + 1 \<le> ?N" using Suc.hyps(2) by auto
  obtain t where t: "string_at v i = Some t" "t \<noteq> []" "units_ok t" using assms(1) i(1) by (auto simp: vector_ok_def)
  have tx: "t \<in> texts v" using t(1) i(1) by (auto simp: texts_def)
  define l where "l = (if relevant C t then makeSpanLengthByte (contained C t) else ALL_CP_CONTAINED)"
  define o1 where "o1 = (if l \<ge> LONG_SPAN then length t else l)"
  define ov where "ov = (if o1 > n then n else o1)"
  have l: "rd lens i = Some l" using assms(2) i(1) t(1) by (auto simp: lens_ok_def l_def)
  have "o1 \<le> length t"
    by (auto simp: o1_def l_def relevant_def makeSpanLengthByte_def LONG_SPAN_def ALL_CP_CONTAINED_def)
  then have ov: "ov \<le> length t" "ov \<le> n" by (auto simp: ov_def)
  then have p: "ov \<le> pos" "ov + (length t - ov) = length t" using assms(4) by auto
  obtain m1 p1 where 1: "try_longest s pos (length s) t ov (length t - ov) m0 o0 = Some (m1, p1)"
    "m1 = m0 \<and> p1 = o0 \<or> p1 \<le> ov \<and> p1 + m1 = length t \<and> matches_at s (pos - p1) t"
    "m0 = 0 \<and> o0 = 0 \<and> matches_at s pos t \<longrightarrow> m1 \<noteq> 0 \<or> p1 \<noteq> 0"
    using try_longest_spec [OF t(2) assms(3) p, of m0 o0] by blast
  have e: "longest_strings s pos (length s) v lens n i ?N m0 o0 = longest_strings s pos (length s) v lens n (i + 1) ?N m1 p1"
  proof -
    have mi: "minus (length t) ov = Some (length t - ov)" using ov(1) by (simp add: minus_def)
    show ?thesis
      by (subst longest_strings.simps)
        (simp only: i(1) l t(1) 1(1) mi if_True bind.bind_lunit Let_def o1_def [symmetric] ov_def [symmetric] prod.case)
  qed
  obtain mi mo where 2: "longest_strings s pos (length s) v lens n (i + 1) ?N m1 p1 = Some (mi, mo)"
    "mi = m1 \<and> mo = p1 \<or> (\<exists>t \<in> texts v. mo \<le> n \<and> mo + mi = length t \<and> matches_at s (pos - mo) t)"
    "mi = 0 \<and> mo = 0 \<longrightarrow> m1 = 0 \<and> p1 = 0 \<and>
      (\<forall>k t. i + 1 \<le> k \<longrightarrow> k < ?N \<longrightarrow> string_at v k = Some t \<longrightarrow> \<not> matches_at s pos t)"
    using Suc.hyps(1) [OF i(2,3), of m1 p1] by blast
  have A: "mi = m0 \<and> mo = o0 \<or> (\<exists>t \<in> texts v. mo \<le> n \<and> mo + mi = length t \<and> matches_at s (pos - mo) t)"
    using 2(2) 1(2) tx ov(2) by (meson order.trans)
  have B: "m0 = 0 \<and> o0 = 0 \<and> (\<forall>k t. i \<le> k \<longrightarrow> k < ?N \<longrightarrow> string_at v k = Some t \<longrightarrow> \<not> matches_at s pos t)"
    if z: "mi = 0 \<and> mo = 0"
  proof -
    have z1: "m1 = 0" "p1 = 0" and r: "\<And>k t. i + 1 \<le> k \<Longrightarrow> k < ?N \<Longrightarrow> string_at v k = Some t \<Longrightarrow> \<not> matches_at s pos t"
      using 2(3) z by blast+
    then have z0: "m0 = 0" "o0 = 0" using 1(2) t(2) by auto
    have "\<not> matches_at s pos t" using 1(3) z0 z1 by blast
    then have "\<not> matches_at s pos u" if "i \<le> k" "k < ?N" "string_at v k = Some u" for k u
      using r [of k u] that t(1) by (cases "k = i") auto
    with z0 show ?thesis by blast
  qed
  from e 2(1) A B show ?case by auto
qed

section \<open>The rounds\<close>

definition simple_end :: "int set \<Rightarrow> int list set \<Rightarrow> int list \<Rightarrow> nat \<Rightarrow> bool" where
  "simple_end C T s r \<longleftrightarrow> spans_to C T s r \<and> (r = length s \<or> \<not> starts_at C T s r)"

definition simple_inv :: "int set \<Rightarrow> int list set \<Rightarrow> int list \<Rightarrow> nat \<Rightarrow> nat \<Rightarrow> bool" where
  "simple_inv C T s pos n \<longleftrightarrow> pos < length s \<and> spans_to C T s pos \<and> n \<le> pos \<and> spans_to C T s (pos - n) \<and>
     all_in C s (pos - n) pos \<and> (n \<noteq> 0 \<or> pos = 0 \<longrightarrow> stops C s pos)"

lemma not_starts:
  assumes "stops C s pos" "\<forall>t \<in> T. \<not> matches_at s pos t"
  shows "\<not> starts_at C T s pos"
  using assms by (auto simp: starts_at_def element_at_def stops_def)

lemma simple_round:
  assumes "units_ok s" "simple_inv C (texts v) s pos n" "vector_ok v" "lens_ok C v (sp_spanLengths p)"
    "plain_ok C (sp_spanSet p)" "ol_isEmpty q"
  shows "(\<exists>r. span_round p v s (length s) True pos n q = Some (Return r) \<and> simple_end C (texts v) s r) \<or>
    (\<exists>pos' n'. span_round p v s (length s) True pos n q = Some (Go (pos', n', q)) \<and> simple_inv C (texts v) s pos' n' \<and>
       (pos < pos' \<or> pos' = pos \<and> n' = 0 \<and> n \<noteq> 0))"
proof -
  have inv: "pos < length s" "spans_to C (texts v) s pos" "n \<le> pos" "spans_to C (texts v) s (pos - n)"
    "all_in C s (pos - n) pos" "n \<noteq> 0 \<or> pos = 0 \<longrightarrow> stops C s pos"
    using assms(2) by (auto simp: simple_inv_def)
  have b: "boundary s pos" using spans_to_boundary [OF inv(2)] by blast
  obtain mi mo where l: "longest_strings s pos (length s) v (sp_spanLengths p) n 0 (nat (uv_count v)) 0 0 = Some (mi, mo)"
    "mi = 0 \<and> mo = 0 \<or> (\<exists>t \<in> texts v. mo \<le> n \<and> mo + mi = length t \<and> matches_at s (pos - mo) t)"
    "mi = 0 \<and> mo = 0 \<longrightarrow> (\<forall>t \<in> texts v. \<not> matches_at s pos t)"
    using longest_strings_spec [OF assms(3,4) inv(1,3), of 0 0 0] unfolding Ball_def in_texts by auto
  show ?thesis
  proof (cases "mi = 0 \<and> mo = 0")
    case False
    then obtain t where t: "t \<in> texts v" "mo \<le> n" "mo + mi = length t" "matches_at s (pos - mo) t" using l(2) by blast
    let ?i = "pos - mo"
    have i: "boundary s ?i" "?i + length t \<le> length s" using t(4) by (auto simp: matches_at_def)
    have e: "?i + length t = pos + mi" using t(2,3) inv(3) by simp
    have "all_in C s (pos - n) ?i" using all_in_part(1) [OF inv(5) i(1)] t(2) inv(1) by simp
    then have "spans_to C (texts v) s ?i"
      using spans_to_walk [OF assms(1) inv(4) _ i(1)] t(2) inv(1) by simp
    moreover have "element_at C (texts v) s ?i (pos + mi)" using t(1,4) e by (auto simp: element_at_def)
    ultimately have reach: "spans_to C (texts v) s (pos + mi)" by (rule spans_to.step)
    have r: "span_round p v s (length s) True pos n q =
        Some (if pos + mi = length s then Return (length s) else Go (pos + mi, 0, q))"
      using False l(1) by (simp add: span_round_def)
    show ?thesis
    proof (cases "pos + mi = length s")
      case True
      with r reach show ?thesis by (simp add: simple_end_def)
    next
      case ne: False
      then have "pos + mi < length s" using i(2) e by simp
      with reach have "simple_inv C (texts v) s (pos + mi) 0" if "pos + mi \<noteq> 0"
        using that by (auto simp: simple_inv_def all_in_def)
      moreover have "pos + mi \<noteq> 0" using False t(2) inv(3) by auto
      moreover have "pos < pos + mi \<or> pos + mi = pos \<and> n \<noteq> 0" using False t(2) by auto
      ultimately show ?thesis using r ne by auto
    qed
  next
    case True
    then have none: "\<forall>t \<in> texts v. \<not> matches_at s pos t" using l(3) by blast
    have r: "span_round p v s (length s) True pos n q = end_round (sp_spanSet p) s (length s) pos n q"
      using True l(1) by (simp add: span_round_def)
    show ?thesis
    proof (cases "n \<noteq> 0 \<or> pos = 0")
      case True
      then have "stops C s pos" using inv(6) by blast
      with r True assms(6) inv(2) not_starts [OF _ none] show ?thesis by (simp add: end_round_def simple_end_def)
    next
      case False
      obtain k where k: "plain_span (sp_spanSet p) (drop pos s) (length s - pos) True = Some k" "pos + k \<le> length s"
        "boundary s (pos + k)" "all_in C s pos (pos + k)" "stops C s (pos + k)"
        using plain_span_walk [OF assms(5,1) b] inv(1) by auto
      have reach: "spans_to C (texts v) s (pos + k)" using spans_to_walk [OF assms(1) inv(2) k(4,3) _ k(2)] by simp
      have e: "end_round (sp_spanSet p) s (length s) pos n q =
          Some (if k = length s - pos \<or> k = 0 then Return (pos + k) else Go (pos + k, k, q))"
        using False assms(6) k(1) by (simp add: end_round_def)
      consider "k = length s - pos" | "k = 0" | "k \<noteq> length s - pos" "k \<noteq> 0" by blast
      then show ?thesis
      proof cases
        case 1
        with r e reach inv(1) show ?thesis by (simp add: simple_end_def)
      next
        case 2
        then have "stops C s pos" using k(5) by simp
        with r e reach 2 not_starts [OF _ none] show ?thesis by (simp add: simple_end_def)
      next
        case 3
        then have "simple_inv C (texts v) s (pos + k) k" using reach k inv(2) by (simp add: simple_inv_def)
        with 3 r e show ?thesis by auto
      qed
    qed
  qed
qed

lemma simple_rounds:
  assumes "units_ok s" "simple_inv C (texts v) s pos n" "vector_ok v" "lens_ok C v (sp_spanLengths p)"
    "plain_ok C (sp_spanSet p)" "ol_isEmpty q"
  shows "\<exists>r. span_rounds p v s (length s) True pos n q = Some r \<and> simple_end C (texts v) s r"
  using assms(2)
proof (induction "2 * (length s - pos) + (if n = 0 then 0 else 1)" arbitrary: pos n rule: less_induct)
  case less
  have l: "pos < length s" using less.prems by (simp add: simple_inv_def)
  from simple_round [OF assms(1) less.prems assms(3-6)]
  consider r where "span_round p v s (length s) True pos n q = Some (Return r)" "simple_end C (texts v) s r"
    | pos' n' where "span_round p v s (length s) True pos n q = Some (Go (pos', n', q))" "simple_inv C (texts v) s pos' n'"
      "pos < pos' \<or> pos' = pos \<and> n' = 0 \<and> n \<noteq> 0" by blast
  then show ?case
  proof cases
    case 1
    then show ?thesis by (simp add: span_rounds.simps)
  next
    case 2
    then have "pos' < length s" by (simp add: simple_inv_def)
    with 2(3) l have "2 * (length s - pos') + (if n' = 0 then 0 else 1) < 2 * (length s - pos) + (if n = 0 then 0 else (1 :: nat))"
      by auto
    from less.hyps [OF this 2(2)] 2(1) show ?thesis
      by (simp add: span_rounds.simps [of p v s "length s" True pos n q])
  qed
qed

lemma sp_span_simple:
  assumes "sp_ok C v p" "units_ok s" "s \<noteq> []"
  shows "\<exists>r. sp_span hb st USET_SPAN_SIMPLE p v s (length s) = Some r \<and> simple_end C (texts v) s r"
proof -
  have p: "vector_ok v" "plain_ok C (sp_spanSet p)" "lens_ok C v (sp_spanLengths p)"
    using assms(1) by (auto simp: sp_ok_def)
  obtain n where n: "plain_span (sp_spanSet p) s (length s) True = Some n" "n \<le> length s" "boundary s n"
    "all_in C s 0 n" "stops C s n"
    using plain_span_walk [OF p(2) assms(2), of 0] by auto
  have reach: "spans_to C (texts v) s n" using spans_to_walk [OF assms(2) spans_to.start n(4,3) _ n(2)] by simp
  show ?thesis
  proof (cases "n = length s")
    case True
    with n(1) reach show ?thesis by (simp add: sp_span_def simple_end_def)
  next
    case False
    then have "simple_inv C (texts v) s n n" using n reach by (simp add: simple_inv_def spans_to.start)
    from simple_rounds [OF assms(2) this p(1,3,2), of "ol_new st"] False n(1) show ?thesis
      by (simp add: sp_span_def ol_new_def ol_isEmpty_def)
  qed
qed

text \<open>Without relevant strings the span over the code points does the same.\<close>

lemma irrelevant_simple:
  assumes "units_ok s" "\<And>t. t \<in> T \<Longrightarrow> units_ok t \<and> \<not> relevant C t"
  shows "simple_end C T s (u16_len (takeWhile (\<lambda>c. c \<in> C) (cps s)))"
proof -
  define n where "n = u16_len (takeWhile (\<lambda>c. c \<in> C) (cps s))"
  have w: "n \<le> length s" "boundary s n" "all_in C s 0 n" "stops C s n"
    using walk_gen [OF assms(1) _ _, of 0 n "\<lambda>c. c \<in> C"] by (simp_all add: n_def)
  have "spans_to C T s n" using spans_to_walk [OF assms(1) spans_to.start w(3,2) _ w(1)] by simp
  moreover have "\<not> starts_at C T s n" if l: "n \<noteq> length s"
  proof -
    have "n < length s" using l w(1) by simp
    then obtain c j where c: "u16_next s n (length s) = Some (c, j)" using u16_next_cps by blast
    with w(4) have "c \<notin> C" by (auto simp: stops_def)
    with irrelevant_starts [OF assms(2) _ c] show ?thesis by blast
  qed
  ultimately show ?thesis unfolding n_def simple_end_def by blast
qed

end
