(* ===== verification/SpanBuild.thy ===== *)
theory SpanBuild
  imports SpanSimple USetCalls
begin

text \<open>
  What the constructor of \<open>UnicodeSetStringSpan\<close> builds and what \<open>freeze\<close> promises: with
  memory to allocate, the object of a well-formed set has the code points of the set, the lengths
  of its strings and a set of first code points, which is what the spans of \<open>SpanSpec\<close> ask for.
\<close>

section \<open>Shrinking, copying and freezing a set\<close>

lemma us_shrink_spec:
  assumes "us_ok s" "roomy h"
  shows "us_ok (us_shrink h s)" "us_codes (us_shrink h s) = us_codes s" "us_strs (us_shrink h s) = us_strs s"
    "us_strings (us_shrink h s) = us_strings s" "us_bmpSet (us_shrink h s) = us_bmpSet s"
    "us_stringSpan (us_shrink h s) = us_stringSpan s" "us_bogus (us_shrink h s) = us_bogus s"
    "us_list (us_shrink h s) \<noteq> None" "us_pat (us_shrink h s) = us_pat s"
proof -
  obtain cs v xs where s: "us_list s = Some cs" "length cs = us_capacity s" "us_len s \<le> us_capacity s"
    "xs = take (us_len s) cs" "us_used s = Some xs" "inv_list xs" "length xs = us_len s"
    "us_codes s = inv_set xs" "us_strings s = Some v" "strings_ok v" "us_strs s = {t. Some t \<in> set (uv_list v)}"
    using us_okE [OF assms(1)] .
  have n: "us_len s \<noteq> 0" by (rule us_len_pos [OF assms(1)])
  let ?s = "us_shrink h s"
  have a: "can_alloc (hl h) = (\<lambda>_. True)" using assms(2) by (simp add: roomy_def)
  obtain cs' where l: "us_list ?s = Some cs'" "length cs' = us_capacity ?s" "us_len s \<le> us_capacity ?s"
    "take (us_len s) cs' = take (us_len s) cs"
  proof (cases "us_capacity s > us_len s + GROW_EXTRA")
    case True
    have "?s = s\<lparr>us_buffer := None, us_capacity := us_len s, us_list := Some (realloc (hl h) cs (us_len s))\<rparr>"
      using True n s(1) a by (simp add: us_shrink_def us_realloc_def Let_def)
    with s(2,3) show thesis by (intro that [of "realloc (hl h) cs (us_len s)"]) (simp_all add: realloc_def)
  next
    case False
    then have "?s = s\<lparr>us_buffer := None\<rparr>" by (simp add: us_shrink_def)
    with s(1-3) show thesis by (intro that [of cs]) simp_all
  qed
  have e: "us_len ?s = us_len s" "us_buffer ?s = None" "us_strings ?s = us_strings s" "us_bmpSet ?s = us_bmpSet s"
    "us_stringSpan ?s = us_stringSpan s" "us_bogus ?s = us_bogus s" "us_pat ?s = us_pat s"
    by (simp_all add: us_shrink_def Let_def)
  show "us_strings ?s = us_strings s" "us_bmpSet ?s = us_bmpSet s" "us_stringSpan ?s = us_stringSpan s"
    "us_bogus ?s = us_bogus s" "us_list ?s \<noteq> None" "us_strs ?s = us_strs s" "us_pat ?s = us_pat s"
    using e l(1) by (simp_all add: us_strs_def)
  show "us_codes ?s = us_codes s" using l e(1) s by (simp add: us_codes_def us_used_def)
  show "us_ok ?s" using assms(1) l e s(1) by (simp add: us_ok_def)
qed

lemma us_frozen_sel [simp]:
  "us_used (s\<lparr>us_bmpSet := b\<rparr>) = us_used s" "us_used (s\<lparr>us_stringSpan := p\<rparr>) = us_used s"
  "us_codes (s\<lparr>us_bmpSet := b\<rparr>) = us_codes s" "us_codes (s\<lparr>us_stringSpan := p\<rparr>) = us_codes s"
  "us_strs (s\<lparr>us_bmpSet := b\<rparr>) = us_strs s" "us_strs (s\<lparr>us_stringSpan := p\<rparr>) = us_strs s"
  by (simp_all add: us_used_def us_codes_def us_strs_def cong: option.case_cong if_cong)

lemma us_ok_bmp:
  assumes "us_ok s" "us_used s = Some xs" "bmpset_ok b" "bs_list b = xs"
  shows "us_ok (s\<lparr>us_bmpSet := Some b\<rparr>)"
  using assms by (auto simp: us_ok_def us_used_def)

lemma plain_freeze_spec:
  assumes "plain_ok C S" "roomy h"
  shows "\<exists>S'. plain_freeze h S = Some S' \<and> plain_ok C S'"
proof (cases "isFrozen S \<or> us_bogus S")
  case True
  with assms(1) show ?thesis by (simp add: plain_freeze_def us_freeze_with_def)
next
  case False
  let ?s = "us_shrink h S"
  have ok: "us_ok S" "us_strs S = {}" "us_stringSpan S = None" "us_codes S = C" using assms(1) by (auto simp: plain_ok_def)
  note s = us_shrink_spec [OF ok(1) assms(2)]
  obtain v where v: "us_strings ?s = Some v" "uv_count v = 0" using no_strings [OF s(1)] s(3) ok(2) by auto
  obtain xs where xs: "us_used ?s = Some xs" "inv_list xs" using us_okE [OF s(1)] by metis
  obtain b where b: "bmpset_new xs = Some b" "bmpset_ok b" "bs_list b = xs" using bmpset_new_ok [OF xs(2)] by blast
  have "plain_freeze h S = Some (?s\<lparr>us_bmpSet := Some b\<rparr>)"
    using False v xs(1) b(1) s(6) not_None_eq [THEN iffD1, OF s(8)] ok(3) assms(2)
    by (auto simp: plain_freeze_def us_freeze_with_def Let_def roomy_def)
  moreover have "plain_ok C (?s\<lparr>us_bmpSet := Some b\<rparr>)"
    using us_ok_bmp [OF s(1) xs(1) b(2,3)] s(2,3,6) ok by (simp add: plain_ok_def)
  ultimately show ?thesis by blast
qed

lemma allocateStrings_roomy:
  assumes "roomy h"
  shows "\<exists>v. allocateStrings h U_ZERO_ERROR s = (True, U_ZERO_ERROR, s\<lparr>us_strings := Some v\<rparr>) \<and>
    strings_ok v \<and> uv_list v = []"
proof -
  have h: "can_alloc (hs h) = (\<lambda>_. True)" "hn h" using assms by (simp_all add: roomy_def)
  obtain v where v: "uv_new (hs h) True (Some uhash_compareUnicodeString) 1 U_ZERO_ERROR = (v, U_ZERO_ERROR)"
    "uv_ok v" "uv_list v = []" "uv_deleter v" "uv_comparer v = Some (=)"
    using h uv_new_ok [of "hs h" True "Some uhash_compareUnicodeString" 1 U_ZERO_ERROR]
    by (auto simp: uv_new_def uv_init_def uhash_compare_eq Let_def)
  have "allocateStrings h U_ZERO_ERROR s = (True, U_ZERO_ERROR, s\<lparr>us_strings := Some v\<rparr>)"
    using h v(1) by (simp add: allocateStrings_def)
  moreover have "strings_ok v" using v(2-5) by (simp add: strings_ok_def)
  ultimately show ?thesis using v(3) by blast
qed

text \<open>A thawed copy has the contents of the set and is not frozen.\<close>

lemma us_thaw_copies:
  fixes c :: "'ss uset"
  assumes "us_ok c" "roomy h" "few 0 c"
  shows "\<exists>s'. us_thaw h c = Some s' \<and> us_ok s' \<and> \<not> us_bogus s' \<and> us_bmpSet s' = None \<and> us_stringSpan s' = None \<and>
    us_codes s' = us_codes c \<and> us_strs s' = us_strs c"
proof -
  obtain xs where x: "us_used c = Some xs" "inv_list xs" "length xs = us_len c" "us_codes c = inv_set xs"
    using us_okE [OF assms(1)] by metis
  obtain w where w: "us_strings c = Some w" "strings_ok w" "us_strs c = {t. Some t \<in> set (uv_list w)}"
    using us_okE [OF assms(1)] by metis
  let ?b = "us_blank 0 (us_len c + GROW_EXTRA) :: 'ss uset"
  obtain v where v: "allocateStrings h U_ZERO_ERROR ?b = (True, U_ZERO_ERROR, ?b\<lparr>us_strings := Some v\<rparr>)"
    "strings_ok v" "uv_list v = []"
    using allocateStrings_roomy [OF assms(2)] by blast
  obtain ns where ns: "us_realloc h None (us_len c + GROW_EXTRA) = Some ns" "length ns = us_len c + GROW_EXTRA"
    using assms(2) by (auto simp: us_realloc_def roomy_def)
  have "uv_count w < 134217727" using strings_card [OF w(2)] w(3) assms(3) by (simp add: few_def)
  then obtain v' where v': "uv_assign (hs h) (cloneUnicodeString h) w v U_ZERO_ERROR = Some (v', U_ZERO_ERROR)"
    "strings_ok v'" "uv_list v' = uv_list w"
    using strings_assigned [OF v(2) w(2) assms(2)] by blast
  let ?s = "?b\<lparr>us_len := us_len c, us_list := Some (xs @ drop (us_len c) ns), us_strings := Some v'\<rparr>"
  have "us_thaw h c = Some (us_copy_pattern h c ?s)"
    using v(1) ns x(1,3) w(1) v'(1) by (simp add: us_thaw_def us_copy_list_def us_blank_def)
  moreover have "us_ok (us_copy_pattern h c ?s)" using x(2,3) ns(2) v'(2) by (simp add: us_ok_def us_blank_def)
  moreover have "us_codes (us_copy_pattern h c ?s) = us_codes c" "us_strs (us_copy_pattern h c ?s) = us_strs c"
    using x(3,4) w(3) ns(2) v'(3) by (simp_all add: us_codes_def us_used_def us_strs_def)
  ultimately show ?thesis by (simp add: us_blank_def)
qed

section \<open>The strings of a set\<close>

lemma strings_at:
  assumes "strings_ok v" "uv_list v = map Some ss"
  shows "nat (uv_count v) = length ss" "i < length ss \<Longrightarrow> string_at v i = Some (units (ss ! i))"
proof -
  have ok: "uv_ok v" using assms(1) by (simp add: strings_ok_def)
  show n: "nat (uv_count v) = length ss" using uv_okD(6) [OF ok] assms(2) by simp
  assume i: "i < length ss"
  then have "uv_elements v ! i = uv_list v ! i" "i < length (uv_elements v)"
    using n uv_okD(5) [OF ok] by (simp_all add: uv_list_def)
  then show "string_at v i = Some (units (ss ! i))" using assms(2) i by (simp add: string_at_def)
qed

lemma strings_texts:
  assumes "strings_ok v"
  shows "vector_ok v" "texts v = units ` {t. Some t \<in> set (uv_list v)}" "uv_count v = 0 \<longleftrightarrow> texts v = {}"
proof -
  obtain ss where ss: "uv_ok v" "uv_list v = map Some ss" "list_all str_ok ss" "{t. Some t \<in> set (uv_list v)} = set ss"
    using strings_okE [OF assms] by metis
  note at = strings_at [OF assms ss(2)]
  have "units t \<noteq> []" if "str_ok t" for t using that by (auto simp: str_ok_def)
  then show "vector_ok v" using at ss(3) by (auto simp: vector_ok_def list_all_length str_ok_def)
  have "texts v = {t. \<exists>i < length ss. units (ss ! i) = t}" using at by (simp add: texts_def cong: conj_cong)
  also have "\<dots> = units ` set ss" by (auto simp: set_conv_nth)
  finally have "texts v = units ` set ss" .
  then show "texts v = units ` {t. Some t \<in> set (uv_list v)}" "uv_count v = 0 \<longleftrightarrow> texts v = {}"
    using ss(1,4) at(1) by (auto simp: uv_ok_def)
qed

section \<open>The first loop\<close>

lemma plain_span_contained:
  "plain_ok C S \<Longrightarrow> units_ok t \<Longrightarrow> plain_span S t (length t) True = Some (contained C t)"
  using plain_span_spec(1) [of C S t "length t" True] by (simp add: contained_def)

lemma sp_scan_spec:
  assumes "plain_ok C S" "vector_ok v" "which_has which UTF16" "i \<le> nat (uv_count v)"
  shows "\<exists>m'. sp_scan S v which i (nat (uv_count v)) r m =
      Some (r \<or> (\<exists>k t. i \<le> k \<and> k < nat (uv_count v) \<and> string_at v k = Some t \<and> relevant C t), m') \<and>
    m \<le> m' \<and> (\<forall>k t. i \<le> k \<longrightarrow> k < nat (uv_count v) \<longrightarrow> string_at v k = Some t \<longrightarrow> length t \<le> m')"
  using assms(4)
proof (induction "nat (uv_count v) - i" arbitrary: i r m)
  case 0
  then show ?case by (auto simp: sp_scan.simps)
next
  case (Suc d)
  let ?n = "nat (uv_count v)"
  have i: "i < ?n" "d = ?n - (i + 1)" "i + 1 \<le> ?n" using Suc.hyps(2) by auto
  obtain t where t: "string_at v i = Some t" "units_ok t" using assms(2) i(1) by (auto simp: vector_ok_def)
  have sp: "plain_span S t (length t) True = Some (contained C t)" using plain_span_contained [OF assms(1) t(2)] .
  let ?m = "if length t > m then length t else m"
  have e: "sp_scan S v which i ?n r m = sp_scan S v which (i + 1) ?n (r \<or> relevant C t) ?m"
    using i(1) t(1) sp assms(3) by (subst sp_scan.simps) (simp add: relevant_def)
  obtain m' where m': "sp_scan S v which (i + 1) ?n (r \<or> relevant C t) ?m =
      Some ((r \<or> relevant C t) \<or> (\<exists>k t. i + 1 \<le> k \<and> k < ?n \<and> string_at v k = Some t \<and> relevant C t), m')"
    "?m \<le> m'" "\<forall>k t. i + 1 \<le> k \<longrightarrow> k < ?n \<longrightarrow> string_at v k = Some t \<longrightarrow> length t \<le> m'"
    using Suc.hyps(1) [OF i(2,3), of "r \<or> relevant C t" ?m] by blast
  have split: "i \<le> k \<longleftrightarrow> k = i \<or> i + 1 \<le> k" for k by auto
  have l: "length t \<le> m'" "m \<le> m'" using m'(2) by (simp_all split: if_splits)
  have a: "\<forall>k u. i \<le> k \<longrightarrow> k < ?n \<longrightarrow> string_at v k = Some u \<longrightarrow> length u \<le> m'"
    using m'(3) l(1) t(1) by (metis split option.inject)
  have b: "((r \<or> relevant C t) \<or> (\<exists>k t. i + 1 \<le> k \<and> k < ?n \<and> string_at v k = Some t \<and> relevant C t)) =
      (r \<or> (\<exists>k t. i \<le> k \<and> k < ?n \<and> string_at v k = Some t \<and> relevant C t))"
    unfolding split using t(1) i(1) by auto
  show ?case using e m'(1) l(2) a unfolding b by auto
qed

lemma sp_scan_texts:
  assumes "plain_ok C S" "vector_ok v" "which_has which UTF16"
  obtains m where "sp_scan S v which 0 (nat (uv_count v)) False 0 = Some (\<exists>t \<in> texts v. relevant C t, m)"
    "\<And>t. t \<in> texts v \<Longrightarrow> length t \<le> m"
proof -
  let ?n = "nat (uv_count v)"
  obtain m where m: "sp_scan S v which 0 ?n False 0 =
      Some (False \<or> (\<exists>k t. 0 \<le> k \<and> k < ?n \<and> string_at v k = Some t \<and> relevant C t), m)"
    "\<forall>k t. 0 \<le> k \<longrightarrow> k < ?n \<longrightarrow> string_at v k = Some t \<longrightarrow> length t \<le> m"
    using sp_scan_spec [OF assms, of 0 False 0] by blast
  have "(False \<or> (\<exists>k t. 0 \<le> k \<and> k < ?n \<and> string_at v k = Some t \<and> relevant C t)) = (\<exists>t \<in> texts v. relevant C t)"
    unfolding Bex_def in_texts by blast
  with m show thesis by (intro that [of m]) (auto simp: in_texts)
qed

section \<open>The second loop\<close>

text \<open>The values of \<open>which\<close> for UTF-16, and what each stores for a string.\<close>

definition variant :: "int \<Rightarrow> bool" where
  "variant which \<longleftrightarrow> which \<in> {SPAN_ALL, FWD + UTF16 + CONTAINED, FWD + UTF16 + NOT_CONTAINED,
     BACK + UTF16 + CONTAINED, BACK + UTF16 + NOT_CONTAINED}"

definition back_contained :: "int set \<Rightarrow> int list \<Rightarrow> nat" where
  "back_contained C t = u16_len (takeWhile (\<lambda>c. c \<in> C) (rev (cps t)))"

definition fwd_byte :: "int set \<Rightarrow> int list \<Rightarrow> nat" where
  "fwd_byte C t = (if relevant C t then makeSpanLengthByte (contained C t) else ALL_CP_CONTAINED)"

definition back_byte :: "int set \<Rightarrow> int list \<Rightarrow> nat" where
  "back_byte C t = (if relevant C t then makeSpanLengthByte (back_contained C t) else ALL_CP_CONTAINED)"

definition mark_byte :: "int set \<Rightarrow> int list \<Rightarrow> nat" where
  "mark_byte C t = (if relevant C t then 0 else ALL_CP_CONTAINED)"

definition first_byte :: "int set \<Rightarrow> int \<Rightarrow> int list \<Rightarrow> nat" where
  "first_byte C which =
     (if \<not> which_has which CONTAINED then mark_byte C else if which_has which FWD then fwd_byte C else back_byte C)"

lemma plain_spanBack_contained:
  assumes "plain_ok C S" "units_ok t"
  shows "plain_spanBack S t (length t) True = Some (length t - back_contained C t)" "back_contained C t \<le> length t"
proof -
  show "plain_spanBack S t (length t) True = Some (length t - back_contained C t)"
    using plain_span_spec(2) [OF assms refl, of True] by (simp add: back_contained_def)
  have "u16_len (takeWhile P xs) \<le> u16_len xs" for P and xs :: "int list" by (induction xs) auto
  from this [of "\<lambda>c. c \<in> C" "rev (cps t)"] show "back_contained C t \<le> length t"
    using u16_len_cps [OF assms(2)] by (simp add: back_contained_def)
qed

lemma sp_store_spec:
  assumes "plain_ok C S" "units_ok t" "variant which" "i < n" "length lens = back + n"
    "back = (if which = SPAN_ALL then n else 0)"
  shows "\<exists>lens'. sp_store S which back i t (contained C t) lens = Some lens' \<and> length lens' = length lens \<and>
    rd lens' i = Some (first_byte C which t) \<and> (which = SPAN_ALL \<longrightarrow> rd lens' (n + i) = Some (back_byte C t)) \<and>
    (\<forall>k. k \<noteq> i \<longrightarrow> k \<noteq> back + i \<longrightarrow> rd lens' k = rd lens k)"
proof -
  have b: "plain_spanBack S t (length t) True = Some (length t - back_contained C t)"
    "length t - (length t - back_contained C t) = back_contained C t"
    using plain_spanBack_contained [OF assms(1,2)] by simp_all
  have len: "contained C t < length t \<longleftrightarrow> relevant C t" by (simp add: relevant_def)
  have i: "i < length lens" "back + i < length lens" using assms(4-6) by auto
  have one: "which \<noteq> SPAN_ALL \<Longrightarrow> back = 0" using assms(6) by simp
  have upd: "rd (lens[k := x]) j = (if j = k then Some x else rd lens j)" if "k < length lens" for lens :: "nat list" and k x j
    using that by (cases "j < length lens") auto
  show ?thesis
  proof (cases "which = SPAN_ALL")
    case True
    then have n: "back = n" using assms(6) by simp
    show ?thesis
    proof (cases "relevant C t")
      case r: True
      let ?l = "lens[i := makeSpanLengthByte (contained C t), n + i := makeSpanLengthByte (back_contained C t)]"
      have "sp_store S which back i t (contained C t) lens = Some ?l"
        using r True b i n by (simp add: sp_store_def len which_has_def span_flags)
      with r True n i assms(4) show ?thesis
        by (simp add: upd first_byte_def which_has_def span_flags fwd_byte_def back_byte_def)
    next
      case r: False
      let ?l = "lens[n + i := ALL_CP_CONTAINED, i := ALL_CP_CONTAINED]"
      have "sp_store S which back i t (contained C t) lens = Some ?l"
        using r True b i n by (simp add: sp_store_def len which_has_def)
      with r True n i assms(4) show ?thesis
        by (simp add: upd first_byte_def which_has_def span_flags fwd_byte_def back_byte_def)
    qed
  next
    case False
    then have z: "back = 0" using assms(6) by simp
    have "sp_store S which back i t (contained C t) lens = Some (lens[i := first_byte C which t])"
      using assms(3) False b i z
      unfolding variant_def sp_store_def len first_byte_def which_has_def span_flags
      by (auto simp: fwd_byte_def back_byte_def mark_byte_def)
    with False i z show ?thesis by (simp add: upd)
  qed
qed

text \<open>\<open>spanNotSet\<close> stands for a set \<open>D\<close>; a set of its own can still be added to.\<close>

definition stands :: "int set \<Rightarrow> int set \<Rightarrow> span_not_set \<Rightarrow> bool" where
  "stands C D ns \<longleftrightarrow> (case ns of NullSet \<Rightarrow> False | SpanSet \<Rightarrow> D = C
     | OwnSet t \<Rightarrow> plain_ok D t \<and> \<not> isFrozen t \<and> \<not> us_bogus t)"

lemma addToSpanNotSet_spec:
  assumes "plain_ok C S" "stands C D ns" "roomy h" "0 \<le> c" "c < 1114112"
  shows "\<exists>ns'. addToSpanNotSet h c S ns = Some ns' \<and> stands C (insert c D) ns'"
proof -
  have add: "\<exists>t'. us_add_cp h c t = Some t' \<and> stands C (insert c E) (OwnSet t')"
    if t: "us_ok t" "\<not> us_bogus t" "us_bmpSet t = None" "us_stringSpan t = None" "us_codes t = E" "us_strs t = {}" for t :: "unit uset" and E
  proof -
    have "\<not> isFrozen t" using t by (simp add: isFrozen_def)
    with us_add_cp_to [OF t(1), of h c] t assms(3-5) show ?thesis
      by (auto simp: us_to_def stands_def plain_ok_def isFrozen_def pinCodePoint_def simp del: not_None_eq split: if_splits)
  qed
  have S: "us_ok S" "us_strs S = {}" "us_codes S = C" using assms(1) by (auto simp: plain_ok_def)
  have hn: "hn h" using assms(3) by (simp add: roomy_def)
  obtain t where t: "us_thaw h S = Some t" "us_ok t" "\<not> us_bogus t" "us_bmpSet t = None" "us_stringSpan t = None"
    "us_codes t = C" "us_strs t = {}"
    using us_thaw_copies [OF S(1) assms(3)] S by (auto simp: few_def)
  note con = plain_contains_spec [OF assms(1,4,5)]
  show ?thesis
  proof (cases ns)
    case NullSet
    with assms(2) show ?thesis by (simp add: stands_def)
  next
    case SpanSet
    then have D: "D = C" using assms(2) by (simp add: stands_def)
    show ?thesis
    proof (cases "c \<in> C")
      case True
      with SpanSet D con show ?thesis by (simp add: addToSpanNotSet_def stands_def insert_absorb)
    next
      case False
      with SpanSet D con hn t(1) add [OF t(2-7)] show ?thesis by (auto simp: addToSpanNotSet_def)
    qed
  next
    case (OwnSet u)
    with assms(2) have u: "us_ok u" "\<not> us_bogus u" "us_bmpSet u = None" "us_stringSpan u = None" "us_codes u = D" "us_strs u = {}"
      by (auto simp: stands_def plain_ok_def isFrozen_def)
    from add [OF u] OwnSet show ?thesis by (auto simp: addToSpanNotSet_def)
  qed
qed

definition ends :: "int \<Rightarrow> int list \<Rightarrow> int set" where
  "ends which t = (if which_has which FWD then {hd (cps t)} else {}) \<union> (if which_has which BACK then {last (cps t)} else {})"

lemma sp_ends_spec:
  assumes "plain_ok C S" "stands C D ns" "roomy h" "units_ok t" "t \<noteq> []" "which_has which NOT_CONTAINED"
  shows "\<exists>ns'. sp_ends h S which t ns = Some ns' \<and> stands C (ends which t \<union> D) ns'"
proof -
  obtain c j where n: "u16_next t 0 (length t) = Some (c, j)" "cps t = c # cps (drop j t)"
    using u16_next_cps [of 0 "length t" t] assms(5) by auto
  obtain d k where p: "u16_prev t 0 (length t) = Some (d, k)" "cps t = cps (take k t) @ [d]"
    using u16_prev_cps [of "length t" t] assms(5) by auto
  have c: "hd (cps t) = c" "0 \<le> c" "c < 1114112" using n(2) cps_range [OF assms(4), of c] by auto
  have d: "last (cps t) = d" "0 \<le> d" "d < 1114112" using p(2) cps_range [OF assms(4), of d] by auto
  let ?E = "(if which_has which FWD then {c} else {}) \<union> D"
  obtain ns1 where 1: "(if which_has which FWD
      then do { (c, j) \<leftarrow> u16_next t 0 (length t); addToSpanNotSet h c S ns } else Some ns) = Some ns1" "stands C ?E ns1"
    using addToSpanNotSet_spec [OF assms(1-3) c(2,3)] assms(2) n(1) by (cases "which_has which FWD") auto
  have 2: "\<exists>ns2. (if which_has which BACK
      then do { (c, j) \<leftarrow> u16_prev t 0 (length t); addToSpanNotSet h c S ns1 } else Some ns1) = Some ns2 \<and>
    stands C ((if which_has which BACK then {d} else {}) \<union> ?E) ns2"
    using addToSpanNotSet_spec [OF assms(1) 1(2) assms(3) d(2,3)] 1(2) p(1) by (cases "which_has which BACK") auto
  have e: "ends which t \<union> D = (if which_has which BACK then {d} else {}) \<union> ?E" by (auto simp: ends_def c d)
  have "sp_ends h S which t ns = (if which_has which BACK
      then do { (c, j) \<leftarrow> u16_prev t 0 (length t); addToSpanNotSet h c S ns1 } else Some ns1)"
    using 1(1) assms(6) by (simp add: sp_ends_def)
  with 2 show ?thesis unfolding e by simp
qed

text \<open>After the strings up to \<open>i\<close>.\<close>

definition filled :: "int set \<Rightarrow> ustr uvector \<Rightarrow> int \<Rightarrow> nat \<Rightarrow> nat list \<Rightarrow> span_not_set \<Rightarrow> bool" where
  "filled C v which i lens ns \<longleftrightarrow>
     (\<forall>k < i. \<forall>t. string_at v k = Some t \<longrightarrow> rd lens k = Some (first_byte C which t) \<and>
        (which = SPAN_ALL \<longrightarrow> rd lens (nat (uv_count v) + k) = Some (back_byte C t))) \<and>
     (if which_has which NOT_CONTAINED
      then stands C (C \<union> \<Union> (ends which ` {t. relevant C t \<and> (\<exists>k < i. string_at v k = Some t)})) ns else ns = NullSet)"

lemma sp_fill_spec:
  assumes "plain_ok C S" "vector_ok v" "roomy h" "variant which" "n = nat (uv_count v)"
    "back = (if which = SPAN_ALL then n else 0)" "i \<le> n" "length lens = back + n" "filled C v which i lens ns"
  shows "\<exists>lens' ns'. sp_fill h S v which i n back lens ns = Some (lens', ns') \<and> filled C v which n lens' ns'"
  using assms(7-9)
proof (induction "n - i" arbitrary: i lens ns)
  case 0
  then show ?case by (auto simp: sp_fill.simps)
next
  case (Suc d)
  have i: "i < n" "d = n - (i + 1)" "i + 1 \<le> n" using Suc.hyps(2) by auto
  obtain t where t: "string_at v i = Some t" "t \<noteq> []" "units_ok t" using assms(2,5) i(1) by (auto simp: vector_ok_def)
  obtain l where l: "sp_store S which back i t (contained C t) lens = Some l" "length l = length lens"
    "rd l i = Some (first_byte C which t)" "which = SPAN_ALL \<longrightarrow> rd l (n + i) = Some (back_byte C t)"
    "\<And>k. k \<noteq> i \<Longrightarrow> k \<noteq> back + i \<Longrightarrow> rd l k = rd lens k"
    using sp_store_spec [OF assms(1) t(3) assms(4) i(1) Suc.prems(2) assms(6)] by blast
  let ?R = "\<lambda>i. {t. relevant C t \<and> (\<exists>k < i. string_at v k = Some t)}"
  have R: "?R (i + 1) = (if relevant C t then insert t (?R i) else ?R i)"
    using t(1) by (auto simp: less_Suc_eq)
  have N: "\<exists>ns'. (if relevant C t then sp_ends h S which t ns else Some ns) = Some ns' \<and>
      (if which_has which NOT_CONTAINED then stands C (C \<union> \<Union> (ends which ` ?R (i + 1))) ns' else ns' = NullSet)"
  proof (cases "relevant C t \<and> which_has which NOT_CONTAINED")
    case True
    then have "stands C (C \<union> \<Union> (ends which ` ?R i)) ns" using Suc.prems(3) by (simp add: filled_def)
    from sp_ends_spec [OF assms(1) this assms(3) t(3,2)] True
    have "\<exists>ns'. sp_ends h S which t ns = Some ns' \<and> stands C (ends which t \<union> (C \<union> \<Union> (ends which ` ?R i))) ns'" by blast
    moreover have "ends which t \<union> (C \<union> \<Union> (ends which ` ?R i)) = C \<union> \<Union> (ends which ` insert t (?R i))" by auto
    ultimately show ?thesis using True unfolding R by simp
  next
    case False
    with Suc.prems(3) show ?thesis unfolding R by (auto simp: filled_def sp_ends_def)
  qed
  then obtain ns' where ns': "(if relevant C t then sp_ends h S which t ns else Some ns) = Some ns'"
    "if which_has which NOT_CONTAINED then stands C (C \<union> \<Union> (ends which ` ?R (i + 1))) ns' else ns' = NullSet" by blast
  have keep: "rd l k = rd lens k" if "k < i" for k using l(5) [of k] that by simp
  have keep2: "rd l (n + k) = rd lens (n + k)" if "k < i" "which = SPAN_ALL" for k
    using l(5) [of "n + k"] that assms(6) i(1) by simp
  have "filled C v which (i + 1) l ns'"
    using Suc.prems(3) ns'(2) l(3,4) t(1) keep keep2 assms(5) by (auto simp: filled_def less_Suc_eq)
  from Suc.hyps(1) [OF i(2,3) _ this] l(2) Suc.prems(2) obtain lens' ns'' where
    r: "sp_fill h S v which (i + 1) n back l ns' = Some (lens', ns'')" "filled C v which n lens' ns''" by auto
  have "sp_fill h S v which i n back lens ns = sp_fill h S v which (i + 1) n back l ns'"
    using i(1) t(1) plain_span_contained [OF assms(1) t(3)] l(1) ns'(1)
    by (subst sp_fill.simps) (simp add: relevant_def)
  with r show ?case by simp
qed

section \<open>The constructor\<close>

definition final_not_set :: "int set \<Rightarrow> ustr uvector \<Rightarrow> int \<Rightarrow> int set" where
  "final_not_set C v which = C \<union> \<Union> (ends which ` {t \<in> texts v. relevant C t})"

definition lens_built :: "int set \<Rightarrow> ustr uvector \<Rightarrow> int \<Rightarrow> nat list \<Rightarrow> bool" where
  "lens_built C v which lens \<longleftrightarrow> (\<forall>k < nat (uv_count v). \<forall>t. string_at v k = Some t \<longrightarrow>
     rd lens k = Some (first_byte C which t) \<and>
     (which = SPAN_ALL \<longrightarrow> rd lens (nat (uv_count v) + k) = Some (back_byte C t)))"

definition sp_built :: "int set \<Rightarrow> ustr uvector \<Rightarrow> int \<Rightarrow> sspan \<Rightarrow> bool" where
  "sp_built C v which p \<longleftrightarrow> plain_ok C (sp_spanSet p) \<and> sp_all p = (which = SPAN_ALL) \<and>
     (needsStringSpanUTF16 p \<longleftrightarrow> (\<exists>t \<in> texts v. relevant C t)) \<and>
     (needsStringSpanUTF16 p \<longrightarrow> (\<forall>t \<in> texts v. length t \<le> sp_maxLength16 p) \<and> lens_built C v which (sp_spanLengths p) \<and>
       (which_has which NOT_CONTAINED \<longrightarrow> (\<exists>N. sp_notSet p = Some N \<and> plain_ok (final_not_set C v which) N)))"

lemma stands_notSet:
  assumes "stands C D ns" "plain_ok C S" "sp_spanSet p = S" "sp_spanNotSet p = ns"
  shows "\<exists>N. sp_notSet p = Some N \<and> plain_ok D N"
  using assms by (cases ns) (auto simp: stands_def sp_notSet_def)

text \<open>\<open>spanSet(0, 0x10ffff)\<close>, then \<open>retainAll(set)\<close>\<close>

lemma span_set_made:
  fixes s :: "'ss uset"
  assumes "us_ok s" "roomy h"
  shows "\<exists>S0 S. us_new_range h 0 1114111 = Some S0 \<and> us_retainAll h s S0 = Some S \<and> plain_ok (us_codes s) S"
proof -
  obtain S0 :: "unit uset" where S0: "us_new_range h 0 1114111 = Some S0" "us_made S0 (pinned 0 1114111)"
    using us_new_range_roomy [OF assms(2)] by blast
  then have ok: "us_ok S0" "us_codes S0 = pinned 0 1114111" "us_strs S0 = {}" "\<not> isFrozen S0" by (simp_all add: us_made_def)
  have "us_codes s \<subseteq> pinned 0 1114111"
    using us_codes_range [OF assms(1)] by (force simp: pinned_def pinCodePoint_def)
  then have c: "us_codes S0 \<inter> us_codes s = us_codes s" using ok(2) by blast
  from us_retainAll_to [OF ok(1) assms(1), of h] ok(3) c assms(2)
  have "us_to True (us_retainAll h s S0) S0 (us_codes s) {}" by simp
  from us_to_made [OF this S0(2) refl] S0(1) show ?thesis by (auto simp: us_made_def plain_ok_def isFrozen_def simp del: not_None_eq)
qed

lemma sp_new_spec:
  fixes s :: "'ss uset"
  assumes "us_ok s" "vector_ok v" "roomy h" "variant which"
  shows "\<exists>p. sp_new h len8 s v which = Some p \<and> sp_built (us_codes s) v which p"
proof -
  let ?C = "us_codes s" and ?n = "nat (uv_count v)"
  obtain S0 S where S: "us_new_range h 0 1114111 = Some S0" "us_retainAll h s S0 = Some S" "plain_ok ?C S"
    using span_set_made [OF assms(1,3)] by blast
  have utf16: "which_has which UTF16"
    using assms(4) by (auto simp: variant_def which_has_def span_flags)
  obtain m where m: "sp_scan S v which 0 ?n False 0 = Some (\<exists>t \<in> texts v. relevant ?C t, m)" "\<And>t. t \<in> texts v \<Longrightarrow> length t \<le> m"
    using sp_scan_texts [OF S(3) assms(2) utf16] by blast
  let ?ns = "if which_has which NOT_CONTAINED then SpanSet else NullSet"
  show ?thesis
  proof (cases "\<exists>t \<in> texts v. relevant ?C t")
    case False
    then have "sp_new h len8 s v which = Some \<lparr>sp_spanSet = S, sp_spanNotSet = ?ns, sp_spanLengths = [],
        sp_maxLength16 = 0, sp_all = (which = SPAN_ALL)\<rparr>"
      using S(1,2) m(1) by (simp add: sp_new_def Let_def)
    with S(3) False show ?thesis by (simp add: sp_built_def needsStringSpanUTF16_def)
  next
    case True
    then obtain t where t: "t \<in> texts v" "contained ?C t < length t" by (auto simp: relevant_def)
    then have pos: "m \<noteq> 0" using m(2) [OF t(1)] by linarith
    let ?all = "which = SPAN_ALL"
    obtain S' where S': "(if ?all then plain_freeze h S else Some S) = Some S'" "plain_ok ?C S'"
      using plain_freeze_spec [OF S(3) assms(3)] S(3) by (cases ?all) auto
    let ?bk = "if ?all then ?n else 0"
    let ?junk = "map (\<lambda>k. nat (junk (hl h) k mod 256)) [0..<?bk + ?n]"
    have fill0: "filled ?C v which 0 ?junk ?ns" by (simp add: filled_def stands_def)
    obtain lens ns where f: "sp_fill h S' v which 0 ?n ?bk ?junk ?ns = Some (lens, ns)" "filled ?C v which ?n lens ns"
      using sp_fill_spec [OF S'(2) assms(2,3,4) refl refl _ _ fill0] by auto
    have D: "{t. relevant ?C t \<and> (\<exists>k < ?n. string_at v k = Some t)} = {t \<in> texts v. relevant ?C t}" by (auto simp: texts_def)
    have st: "if which_has which NOT_CONTAINED then stands ?C (final_not_set ?C v which) ns else ns = NullSet"
      using f(2) unfolding filled_def final_not_set_def D [symmetric] by blast
    have lb: "lens_built ?C v which lens" using f(2) by (simp add: filled_def lens_built_def)
    define e where "e = (case ns of OwnSet t \<Rightarrow> if ?all then do { t \<leftarrow> plain_freeze h t; Some (OwnSet t) } else Some ns | _ \<Rightarrow> Some ns)"
    have "\<exists>ns'. e = Some ns' \<and> (which_has which NOT_CONTAINED \<longrightarrow>
        (\<forall>p. sp_spanSet p = S' \<longrightarrow> sp_spanNotSet p = ns' \<longrightarrow> (\<exists>N. sp_notSet p = Some N \<and> plain_ok (final_not_set ?C v which) N)))"
    proof (cases "\<exists>t. ns = OwnSet t \<and> ?all")
      case True
      then obtain t where t: "ns = OwnSet t" ?all by blast
      then have has: "which_has which NOT_CONTAINED" by (simp add: which_has_def span_flags)
      with st t(1) have "plain_ok (final_not_set ?C v which) t" by (simp add: stands_def)
      from plain_freeze_spec [OF this assms(3)] t show ?thesis by (auto simp: e_def sp_notSet_def)
    next
      case False
      then have "e = Some ns" by (auto simp: e_def split: span_not_set.split)
      with st stands_notSet [OF _ S'(2)] show ?thesis by auto
    qed
    then obtain ns' where ns': "e = Some ns'" "\<And>p. which_has which NOT_CONTAINED \<Longrightarrow> sp_spanSet p = S' \<Longrightarrow>
        sp_spanNotSet p = ns' \<Longrightarrow> \<exists>N. sp_notSet p = Some N \<and> plain_ok (final_not_set ?C v which) N" by blast
    let ?p = "\<lparr>sp_spanSet = S', sp_spanNotSet = ns', sp_spanLengths = lens, sp_maxLength16 = m, sp_all = ?all\<rparr>"
    have malloc: "uprv_malloc (hl h) k" for k using assms(3) by (simp add: roomy_def)
    have "sp_new h len8 s v which = Some ?p"
      using S(1,2) m(1) True S'(1) f(1) ns'(1) malloc by (simp add: sp_new_def Let_def e_def)
    moreover have "sp_built ?C v which ?p"
      using S'(2) True pos m(2) lb ns'(2) by (simp add: sp_built_def needsStringSpanUTF16_def)
    ultimately show ?thesis by blast
  qed
qed

end
