(* ===== verification/USetSpans.thy ===== *)
theory USetSpans
  imports SpanBuild
begin

text \<open>
  \<open>freeze\<close> and \<open>span\<close> of \<open>UnicodeSet\<close> with the spans over its strings: the functions of
  \<open>StringSpan\<close> with the operations of \<open>UnicodeSetStringSpan\<close> in place of their arguments. A set
  is \<open>ready\<close> when what \<open>freeze\<close> left in it fits its contents; then \<open>span\<close> depends only on the code
  points and strings the set stands for, frozen or not.
\<close>

section \<open>The operations\<close>

definition us_freeze :: "uheap \<Rightarrow> nat \<Rightarrow> sspan uset \<Rightarrow> sspan uset option" where
  "us_freeze h len8 s =
     us_freeze_with h (\<lambda>s v. if hn h then do { p \<leftarrow> sp_new h len8 s v SPAN_ALL; Some (Some p) } else Some None)
       needsStringSpanUTF16 s"

text \<open>\<open>hb\<close> and \<open>st\<close> are the heap and the stack that the list of offsets uses.\<close>

definition us_span :: "uheap \<Rightarrow> bool heap \<Rightarrow> bool list \<Rightarrow> sspan uset \<Rightarrow> int list \<Rightarrow> int \<Rightarrow> USetSpanCondition \<Rightarrow> nat option" where
  "us_span h hb st s str len cond =
     us_span_with sp_contains
       (\<lambda>s v. sp_new h 0 s v (if cond = USET_SPAN_NOT_CONTAINED then FWD + UTF16 + NOT_CONTAINED
                              else FWD + UTF16 + CONTAINED))
       needsStringSpanUTF16 (\<lambda>p v str n. sp_span hb st cond p v str n) s str len (cond \<noteq> USET_SPAN_NOT_CONTAINED)"

section \<open>Frozen sets\<close>

definition ready :: "sspan uset \<Rightarrow> bool" where
  "ready s \<longleftrightarrow> us_ok s \<and>
     (\<forall>p v. us_stringSpan s = Some p \<longrightarrow> us_strings s = Some v \<longrightarrow>
        us_bmpSet s = None \<and> needsStringSpanUTF16 p \<and> sp_built (us_codes s) v SPAN_ALL p) \<and>
     (us_bmpSet s \<noteq> None \<longrightarrow> (\<forall>t \<in> us_strs s. \<not> relevant (us_codes s) (units t)))"

lemma thawed_ready: "us_ok s \<Longrightarrow> \<not> isFrozen s \<Longrightarrow> ready s"
  by (simp add: ready_def isFrozen_def)

lemma us_ok_span: "us_ok (s\<lparr>us_stringSpan := p\<rparr>) \<longleftrightarrow> us_ok s"
  by (simp add: us_ok_def)

lemma variant_all [simp]: "variant SPAN_ALL"
  by (simp add: variant_def)

lemma us_freeze_made:
  assumes "us_ok s" "\<not> isFrozen s" "\<not> us_bogus s" "roomy h"
  shows "\<exists>s'. us_freeze h len8 s = Some s' \<and> ready s' \<and> isFrozen s' \<and> us_bogus s' = us_bogus s \<and>
    us_codes s' = us_codes s \<and> us_strs s' = us_strs s \<and> us_pat s' = us_pat s"
proof -
  let ?s = "us_shrink h s"
  note sh = us_shrink_spec [OF assms(1,4)]
  have hn: "hn h" using assms(4) by (simp add: roomy_def)
  have thawed: "us_bmpSet ?s = None" "us_stringSpan ?s = None" using assms(2) sh(5,6) by (simp_all add: isFrozen_def)
  obtain v where v: "us_strings ?s = Some v" "strings_ok v" "us_strs ?s = {t. Some t \<in> set (uv_list v)}"
    using us_okE [OF sh(1)] by metis
  note tx = strings_texts [OF v(2), folded v(3)]
  obtain xs where xs: "us_used ?s = Some xs" "inv_list xs" using us_okE [OF sh(1)] by metis
  obtain b where b: "bmpset_new xs = Some b" "bmpset_ok b" "bs_list b = xs" using bmpset_new_ok [OF xs(2)] by blast
  obtain p where p: "sp_new h len8 ?s v SPAN_ALL = Some p" "sp_built (us_codes ?s) v SPAN_ALL p"
    using sp_new_spec [OF sh(1) tx(1) assms(4) variant_all] by blast
  have needs: "needsStringSpanUTF16 p \<longleftrightarrow> (\<exists>t \<in> us_strs ?s. relevant (us_codes ?s) (units t))"
    using p(2) tx(2) by (auto simp: sp_built_def)
  have list: "\<exists>l. us_list ?s = Some l" using sh(8) by auto
  have e: "us_freeze h len8 s = Some (if needsStringSpanUTF16 p then ?s\<lparr>us_stringSpan := Some p\<rparr> else ?s\<lparr>us_bmpSet := Some b\<rparr>)"
  proof (cases "uv_count v = 0")
    case True
    then have "\<not> needsStringSpanUTF16 p" using tx(3) p(2) by (auto simp: sp_built_def)
    with True list assms(2,3) v(1) thawed xs(1) b(1) hn show ?thesis
      by (auto simp: us_freeze_def us_freeze_with_def Let_def)
  next
    case False
    with list assms(2,3) v(1) thawed xs(1) b(1) hn p(1) show ?thesis
      by (auto simp: us_freeze_def us_freeze_with_def Let_def)
  qed
  show ?thesis
  proof (cases "needsStringSpanUTF16 p")
    case True
    have "ready (?s\<lparr>us_stringSpan := Some p\<rparr>)"
      using True p(2) sh(1) v(1) thawed by (simp add: ready_def us_ok_span)
    with e True sh show ?thesis by (simp add: isFrozen_def)
  next
    case False
    have "ready (?s\<lparr>us_bmpSet := Some b\<rparr>)"
      using False needs us_ok_bmp [OF sh(1) xs(1) b(2,3)] thawed by (simp add: ready_def)
    with e False sh show ?thesis by (simp add: isFrozen_def)
  qed
qed

section \<open>Spans\<close>

interpretation full: code_point_set ready "us_contains sp_contains" us_codes
proof
  fix s :: "sspan uset" and c :: int
  assume s: "ready s" and c: "0 \<le> c" "c < 1114112"
  then have ok: "us_ok s" by (simp add: ready_def)
  have "sp_contains p c = Some (c \<in> us_codes s)" if p: "us_stringSpan s = Some p" for p
  proof -
    obtain v where "us_strings s = Some v" using ok by (auto simp: us_ok_def)
    with s p have "plain_ok (us_codes s) (sp_spanSet p)" by (auto simp: ready_def sp_built_def)
    from plain_contains_spec [OF this c] show ?thesis by (simp add: sp_contains_def)
  qed
  then show "us_contains sp_contains s c = Some (c \<in> us_codes s)"
    using us_contains_iff [OF ok, of c sp_contains] c by simp
qed

lemma sp_built_ok:
  assumes "sp_built C v which p" "needsStringSpanUTF16 p" "vector_ok v"
    "which = SPAN_ALL \<or> which = FWD + UTF16 + CONTAINED"
  shows "sp_ok C v p"
proof -
  have "first_byte C which = fwd_byte C" using assms(4) by (auto simp: first_byte_def which_has_def span_flags)
  then show ?thesis
    using assms(1-3) by (auto simp: sp_ok_def sp_built_def lens_built_def lens_ok_def fwd_byte_def)
qed

lemma sp_built_not_ok:
  assumes "sp_built C v which p" "needsStringSpanUTF16 p" "vector_ok v"
    "which = SPAN_ALL \<or> which = FWD + UTF16 + NOT_CONTAINED"
  shows "sp_not_ok C (final_not_set C v which) v p"
proof -
  have b: "first_byte C which t = ALL_CP_CONTAINED \<longleftrightarrow> \<not> relevant C t" for t
    by (simp add: first_byte_def mark_byte_def fwd_byte_def back_byte_def makeSpanLengthByte_def ALL_CP_CONTAINED_def)
  have w: "which_has which NOT_CONTAINED" "which_has which FWD"
    using assms(4) by (auto simp: which_has_def span_flags)
  have m: "marks_ok C v (sp_spanLengths p)"
    using assms(1,2) b by (auto simp: sp_built_def lens_built_def marks_ok_def)
  have n: "not_set_ok C v (final_not_set C v which)"
    using w(2) by (auto simp: not_set_ok_def final_not_set_def ends_def)
  show ?thesis using assms(1-3) w(1) m n by (simp add: sp_not_ok_def sp_built_def)
qed

text \<open>Which object a span uses: none, when no string is relevant.\<close>

lemma us_span_cases:
  fixes s :: "sspan uset"
  assumes "ready s" "units_ok str" "str \<noteq> []" "roomy h"
    "which = (if cond = USET_SPAN_NOT_CONTAINED then FWD + UTF16 + NOT_CONTAINED else FWD + UTF16 + CONTAINED)"
  obtains
    "us_span h hb st s str (int (length str)) cond =
       Some (u16_len (takeWhile (\<lambda>c. (c \<in> us_codes s) = (cond \<noteq> USET_SPAN_NOT_CONTAINED)) (cps str)))"
      "\<And>t. t \<in> units ` us_strs s \<Longrightarrow> units_ok t \<and> \<not> relevant (us_codes s) t"
  | p v w where "us_span h hb st s str (int (length str)) cond = sp_span hb st cond p v str (length str)"
      "needsStringSpanUTF16 p" "vector_ok v" "texts v = units ` us_strs s" "sp_built (us_codes s) v w p"
      "w = SPAN_ALL \<or> w = which"
proof -
  let ?C = "us_codes s" and ?cond = "cond \<noteq> USET_SPAN_NOT_CONTAINED"
  have ok: "us_ok s" using assms(1) by (simp add: ready_def)
  obtain v where v: "us_strings s = Some v" "strings_ok v" "us_strs s = {t. Some t \<in> set (uv_list v)}"
    using us_okE [OF ok] by metis
  note tx = strings_texts [OF v(2), folded v(3)]
  have u: "units_ok t" if "t \<in> units ` us_strs s" for t
    using tx(1) that unfolding tx(2) [symmetric] by (fastforce simp: vector_ok_def texts_def)
  have l: "0 < int (length str)" "length str \<noteq> 0" using assms(3) by simp_all
  have var: "variant which" using assms(5) by (auto simp: variant_def)
  have loop: "span_loop (us_contains sp_contains s) str 0 (length str) ?cond =
      Some (u16_len (takeWhile (\<lambda>c. (c \<in> ?C) = ?cond) (cps str)))"
    using full.span [OF assms(1-3)] .
  show thesis
  proof (cases "us_bmpSet s")
    case (Some b)
    have "bmpset_ok b" "inv_set (bs_list b) = ?C" using ok Some by (auto simp: us_ok_def us_codes_def us_used_def)
    with Some bmp_span_spec [OF _ assms(2,3), of b ?cond]
    have "us_span h hb st s str (int (length str)) cond = Some (u16_len (takeWhile (\<lambda>c. (c \<in> ?C) = ?cond) (cps str)))"
      using l by (simp add: us_span_def us_span_with_def)
    moreover have "\<not> relevant ?C t" if "t \<in> units ` us_strs s" for t using assms(1) Some that by (auto simp: ready_def)
    ultimately show thesis using u by (intro that(1)) auto
  next
    case bm: None
    show thesis
    proof (cases "us_stringSpan s")
      case (Some p)
      with assms(1) v(1) have "needsStringSpanUTF16 p" "sp_built ?C v SPAN_ALL p" by (auto simp: ready_def)
      moreover have "us_span h hb st s str (int (length str)) cond = sp_span hb st cond p v str (length str)"
        using bm Some v(1) l by (simp add: us_span_def us_span_with_def)
      ultimately show thesis using tx(1,2) by (intro that(2)) auto
    next
      case None
      obtain p where p: "sp_new h 0 s v which = Some p" "sp_built ?C v which p"
        using sp_new_spec [OF ok tx(1) assms(4) var] by blast
      have e: "us_span h hb st s str (int (length str)) cond =
          (if uv_count v \<noteq> 0 \<and> needsStringSpanUTF16 p then sp_span hb st cond p v str (length str)
           else span_loop (us_contains sp_contains s) str 0 (length str) ?cond)"
        using bm None v(1) l p(1) assms(5) by (simp add: us_span_def us_span_with_def)
      have needs: "needsStringSpanUTF16 p \<longleftrightarrow> (\<exists>t \<in> texts v. relevant ?C t)" using p(2) by (simp add: sp_built_def)
      show thesis
      proof (cases "needsStringSpanUTF16 p")
        case True
        then have "uv_count v \<noteq> 0" using needs tx(3) by auto
        with True e p(2) tx(1,2) show thesis by (intro that(2)) auto
      next
        case False
        then have "us_span h hb st s str (int (length str)) cond = Some (u16_len (takeWhile (\<lambda>c. (c \<in> ?C) = ?cond) (cps str)))"
          using e loop by simp
        moreover have "\<not> relevant ?C t" if "t \<in> units ` us_strs s" for t using False needs tx(2) that by auto
        ultimately show thesis using u by (intro that(1)) auto
      qed
    qed
  qed
qed

lemma us_span_contained_ready:
  assumes "ready s" "units_ok str" "roomy h" "can_alloc hb = (\<lambda>_. True)" "length st = 16"
  shows "us_span h hb st s str (int (length str)) USET_SPAN_CONTAINED =
    Some (Max {i. spans_to (us_codes s) (units ` us_strs s) str i})"
proof (cases "str = []")
  case True
  have "last_span (us_codes s) (units ` us_strs s) str (length str)"
    using last_span_all [of "us_codes s" "units ` us_strs s" str] spans_to.start True by auto
  from last_span_Max [OF this] True show ?thesis
    by (simp add: us_span_def us_span_with_def)
next
  case False
  have malloc: "uprv_malloc hb k" for k using assms(4) by simp
  show ?thesis
  proof (rule us_span_cases [OF assms(1,2) False assms(3) refl, where cond = USET_SPAN_CONTAINED and hb = hb and st = st])
    assume "us_span h hb st s str (int (length str)) USET_SPAN_CONTAINED =
        Some (u16_len (takeWhile (\<lambda>c. (c \<in> us_codes s) = (USET_SPAN_CONTAINED \<noteq> USET_SPAN_NOT_CONTAINED)) (cps str)))"
      and t: "\<And>t. t \<in> units ` us_strs s \<Longrightarrow> units_ok t \<and> \<not> relevant (us_codes s) t"
    with irrelevant_span [OF assms(2) t] show ?thesis by simp
  next
    fix p v w
    assume a: "us_span h hb st s str (int (length str)) USET_SPAN_CONTAINED = sp_span hb st USET_SPAN_CONTAINED p v str (length str)"
      "needsStringSpanUTF16 p" "vector_ok v" "texts v = units ` us_strs s" "sp_built (us_codes s) v w p"
      "w = SPAN_ALL \<or> w = (if USET_SPAN_CONTAINED = USET_SPAN_NOT_CONTAINED then FWD + UTF16 + NOT_CONTAINED else FWD + UTF16 + CONTAINED)"
    have "sp_ok (us_codes s) v p" by (rule sp_built_ok [OF a(5,2,3)]) (use a(6) in simp)
    from sp_span_contained [OF this assms(2) False _ assms(5)] malloc a(1,4) show ?thesis by simp
  qed
qed

lemma us_span_not_ready:
  assumes "ready s" "units_ok str" "roomy h"
  shows "\<exists>r. us_span h hb st s str (int (length str)) USET_SPAN_NOT_CONTAINED = Some r \<and>
    first_element (us_codes s) (units ` us_strs s) str r"
proof (cases "str = []")
  case True
  then show ?thesis by (simp add: us_span_def us_span_with_def first_element_def boundary_def)
next
  case False
  show ?thesis
  proof (rule us_span_cases [OF assms(1,2) False assms(3) refl, where cond = USET_SPAN_NOT_CONTAINED and hb = hb and st = st])
    assume "us_span h hb st s str (int (length str)) USET_SPAN_NOT_CONTAINED =
        Some (u16_len (takeWhile (\<lambda>c. (c \<in> us_codes s) = (USET_SPAN_NOT_CONTAINED \<noteq> USET_SPAN_NOT_CONTAINED)) (cps str)))"
      and t: "\<And>t. t \<in> units ` us_strs s \<Longrightarrow> units_ok t \<and> \<not> relevant (us_codes s) t"
    with irrelevant_first [OF assms(2) t] show ?thesis by simp
  next
    fix p v w
    assume a: "us_span h hb st s str (int (length str)) USET_SPAN_NOT_CONTAINED = sp_span hb st USET_SPAN_NOT_CONTAINED p v str (length str)"
      "needsStringSpanUTF16 p" "vector_ok v" "texts v = units ` us_strs s" "sp_built (us_codes s) v w p"
      "w = SPAN_ALL \<or> w = (if USET_SPAN_NOT_CONTAINED = USET_SPAN_NOT_CONTAINED then FWD + UTF16 + NOT_CONTAINED else FWD + UTF16 + CONTAINED)"
    have "sp_not_ok (us_codes s) (final_not_set (us_codes s) v w) v p"
      by (rule sp_built_not_ok [OF a(5,2,3)]) (use a(6) in simp)
    from sp_span_not [OF this assms(2) False, of hb st] a(1,4) show ?thesis by simp
  qed
qed

lemma us_span_simple_ready:
  assumes "ready s" "units_ok str" "roomy h"
  shows "\<exists>r. us_span h hb st s str (int (length str)) USET_SPAN_SIMPLE = Some r \<and>
    simple_end (us_codes s) (units ` us_strs s) str r"
proof (cases "str = []")
  case True
  then show ?thesis by (simp add: us_span_def us_span_with_def simple_end_def spans_to.start)
next
  case False
  show ?thesis
  proof (rule us_span_cases [OF assms(1,2) False assms(3) refl, where cond = USET_SPAN_SIMPLE and hb = hb and st = st])
    assume "us_span h hb st s str (int (length str)) USET_SPAN_SIMPLE =
        Some (u16_len (takeWhile (\<lambda>c. (c \<in> us_codes s) = (USET_SPAN_SIMPLE \<noteq> USET_SPAN_NOT_CONTAINED)) (cps str)))"
      and t: "\<And>t. t \<in> units ` us_strs s \<Longrightarrow> units_ok t \<and> \<not> relevant (us_codes s) t"
    with irrelevant_simple [OF assms(2) t] show ?thesis by simp
  next
    fix p v w
    assume a: "us_span h hb st s str (int (length str)) USET_SPAN_SIMPLE = sp_span hb st USET_SPAN_SIMPLE p v str (length str)"
      "needsStringSpanUTF16 p" "vector_ok v" "texts v = units ` us_strs s" "sp_built (us_codes s) v w p"
      "w = SPAN_ALL \<or> w = (if USET_SPAN_SIMPLE = USET_SPAN_NOT_CONTAINED then FWD + UTF16 + NOT_CONTAINED else FWD + UTF16 + CONTAINED)"
    have "sp_ok (us_codes s) v p" by (rule sp_built_ok [OF a(5,2,3)]) (use a(6) in simp)
    from sp_span_simple [OF this assms(2) False, of hb st] a(1,4) show ?thesis by simp
  qed
qed

section \<open>The properties\<close>

text \<open>A set with given contents, used to instantiate the theorems.\<close>

definition text_set :: "int list \<Rightarrow> ustr list \<Rightarrow> sspan uset" where
  "text_set xs ss = (let s = set_of xs ss in
     \<lparr>us_len = us_len s, us_capacity = us_capacity s, us_list = us_list s, us_bmpSet = None, us_buffer = None,
      us_bufferCapacity = 0, us_pat = None, us_strings = us_strings s, us_stringSpan = None, us_bogus = False\<rparr>)"

lemma text_set_ok:
  assumes "inv_list xs" "ssorted ss" "list_all str_ok ss" "length ss < 134217727"
  shows "us_ok (text_set xs ss)" "us_codes (text_set xs ss) = inv_set xs" "us_strs (text_set xs ss) = set ss"
    "\<not> isFrozen (text_set xs ss)" "\<not> us_bogus (text_set xs ss)"
proof -
  note s = set_of_ok [OF assms]
  show "us_ok (text_set xs ss)"
    using s(1) by (simp add: text_set_def us_ok_def Let_def) (simp add: set_of_def)
  have "us_used (text_set xs ss) = us_used (set_of xs ss)"
    by (simp add: text_set_def us_used_def Let_def cong: option.case_cong if_cong)
  then show "us_codes (text_set xs ss) = inv_set xs" using s(2) by (simp add: us_codes_def)
  show "us_strs (text_set xs ss) = set ss" using s(3) by (simp add: text_set_def us_strs_def Let_def)
  show "\<not> isFrozen (text_set xs ss)" "\<not> us_bogus (text_set xs ss)" by (simp_all add: text_set_def isFrozen_def Let_def)
qed

definition roomy_bytes :: "bool heap" where
  "roomy_bytes = \<lparr>can_alloc = \<lambda>_. True, junk = \<lambda>_. False\<rparr>"

definition bytes16 :: "bool list" where
  "bytes16 = replicate 16 False"

text \<open>The sets of the examples: the strings \<open>ax\<close>, \<open>xy\<close>, \<open>xya\<close>; \<open>a\<close>, \<open>b\<close> and the strings \<open>ab\<close>, \<open>bad\<close>.\<close>

definition set_xy :: "sspan uset" where
  "set_xy = text_set [1114112] [UStr [97, 120], UStr [120, 121], UStr [120, 121, 97]]"

definition set_ab :: "sspan uset" where
  "set_ab = text_set [97, 99, 1114112] [UStr [97, 98], UStr [98, 97, 100]]"

lemma set_xy_ok: "us_ok set_xy" "us_codes set_xy = {}" "us_strs set_xy = {UStr [97, 120], UStr [120, 121], UStr [120, 121, 97]}"
  "\<not> isFrozen set_xy" "\<not> us_bogus set_xy"
  using text_set_ok [of "[1114112]" "[UStr [97, 120], UStr [120, 121], UStr [120, 121, 97]]"]
  by (simp_all add: set_xy_def inv_list_def inv_tail_def str_ok_def units_ok_def less_ustr_def u16_is_lead_def)

lemma roomy_bytes_ok [simp]: "can_alloc roomy_bytes = (\<lambda>_. True)" "length bytes16 = 16"
  by (simp_all add: roomy_bytes_def bytes16_def)

text \<open>C5: \<open>freeze\<close> of a set that is neither frozen nor bogus gives, with enough memory, a frozen set
  with the same code points, strings and pattern, whose \<open>bmpSet\<close> or \<open>stringSpan\<close> fits its contents.\<close>

theorem unicodeset_freeze:
  assumes "us_ok s" "\<not> isFrozen s" "\<not> us_bogus s" "roomy h"
  shows "\<exists>s'. us_freeze h len8 s = Some s' \<and> ready s' \<and> isFrozen s' \<and> us_codes s' = us_codes s \<and>
    us_strs s' = us_strs s \<and> us_pat s' = us_pat s"
  using us_freeze_made [OF assms, of len8] by blast

theorem unicodeset_freeze_witness: "\<exists>s'. us_freeze ample 0 set_xy = Some s' \<and> isFrozen s' \<and> us_codes s' = {}"
  using unicodeset_freeze [OF set_xy_ok(1,4,5) ample_roomy, of 0] set_xy_ok(2) by auto

text \<open>C2: When every request for memory succeeds, those of the list of offsets included, \<open>span(USET_SPAN_CONTAINED)\<close> of a
  set that is neither frozen nor bogus returns the end of the longest prefix of a UTF-16 text that is a concatenation of code points and
  strings of the set, and returns the same after a \<open>freeze\<close>.\<close>

theorem unicodeset_span_contained:
  assumes "us_ok s" "\<not> isFrozen s" "\<not> us_bogus s" "roomy h" "units_ok str" "can_alloc hb = (\<lambda>_. True)" "length st = 16"
    "r = Max {i. spans_to (us_codes s) (units ` us_strs s) str i}"
  shows "us_span h hb st s str (int (length str)) USET_SPAN_CONTAINED = Some r \<and>
    (\<exists>s'. us_freeze h len8 s = Some s' \<and> us_span h hb st s' str (int (length str)) USET_SPAN_CONTAINED = Some r)"
proof -
  obtain s' where s': "us_freeze h len8 s = Some s'" "ready s'" "us_codes s' = us_codes s" "us_strs s' = us_strs s"
    using us_freeze_made [OF assms(1-4), of len8] by blast
  from us_span_contained_ready [OF thawed_ready [OF assms(1,2)] assms(5,4,6,7)]
    us_span_contained_ready [OF s'(2) assms(5,4,6,7)] s'(1,3,4) show ?thesis by (simp add: assms(8))
qed

theorem unicodeset_span_contained_witness:
  "us_span ample roomy_bytes bytes16 set_xy [120, 121, 97, 120] 4 USET_SPAN_CONTAINED =
     Some (Max {i. spans_to {} {[97, 120], [120, 121], [120, 121, 97]} [120, 121, 97, 120] i})"
  using unicodeset_span_contained [OF set_xy_ok(1,4,5) ample_roomy _ roomy_bytes_ok refl, of "[120, 121, 97, 120]"]
    set_xy_ok(2,3) by simp

text \<open>C3: When every request of the set for memory succeeds, \<open>span(USET_SPAN_NOT_CONTAINED)\<close> of a set that is neither
  frozen nor bogus returns the first position of a UTF-16 text at which a code point or a string of the set starts, or the end of the text, and
  returns the same after a \<open>freeze\<close>.\<close>

theorem unicodeset_span_not_contained:
  assumes "us_ok s" "\<not> isFrozen s" "\<not> us_bogus s" "roomy h" "units_ok str"
  shows "\<exists>r s'. us_span h hb st s str (int (length str)) USET_SPAN_NOT_CONTAINED = Some r \<and>
    us_freeze h len8 s = Some s' \<and> us_span h hb st s' str (int (length str)) USET_SPAN_NOT_CONTAINED = Some r \<and>
    first_element (us_codes s) (units ` us_strs s) str r"
proof -
  obtain s' where s': "us_freeze h len8 s = Some s'" "ready s'" "us_codes s' = us_codes s" "us_strs s' = us_strs s"
    using us_freeze_made [OF assms(1-4), of len8] by blast
  obtain r where r: "us_span h hb st s str (int (length str)) USET_SPAN_NOT_CONTAINED = Some r"
    "first_element (us_codes s) (units ` us_strs s) str r"
    using us_span_not_ready [OF thawed_ready [OF assms(1,2)] assms(5,4)] by blast
  obtain r' where r': "us_span h hb st s' str (int (length str)) USET_SPAN_NOT_CONTAINED = Some r'"
    "first_element (us_codes s) (units ` us_strs s) str r'"
    using us_span_not_ready [OF s'(2) assms(5,4)] s'(3,4) by metis
  have "r = r'" using r(2) r'(2) by (rule first_element_unique)
  with r r' s'(1) show ?thesis by blast
qed

theorem unicodeset_span_not_contained_witness:
  "\<exists>r. us_span ample roomy_bytes bytes16 set_xy [122, 97, 120] 3 USET_SPAN_NOT_CONTAINED = Some r \<and>
     first_element {} {[97, 120], [120, 121], [120, 121, 97]} [122, 97, 120] r"
  using unicodeset_span_not_contained [OF set_xy_ok(1,4,5) ample_roomy, of "[122, 97, 120]" roomy_bytes bytes16 0]
    set_xy_ok(2,3) by auto

text \<open>C4: When every request for memory succeeds, those of the list of offsets included, \<open>span(USET_SPAN_SIMPLE)\<close> of a
  set that is not frozen, or that \<open>freeze\<close> built with enough memory, returns for every UTF-16 text; what it
  covers is a concatenation of set elements, so it is never longer than \<open>span(USET_SPAN_CONTAINED)\<close>, and it stops before
  the end of the text only where no set element starts.\<close>

theorem unicodeset_span_simple:
  assumes "ready s" "units_ok str" "roomy h" "can_alloc hb = (\<lambda>_. True)" "length st = 16"
  shows "\<exists>r m. us_span h hb st s str (int (length str)) USET_SPAN_SIMPLE = Some r \<and>
    us_span h hb st s str (int (length str)) USET_SPAN_CONTAINED = Some m \<and> r \<le> m \<and>
    spans_to (us_codes s) (units ` us_strs s) str r \<and> (r = length str \<or> \<not> starts_at (us_codes s) (units ` us_strs s) str r)"
proof -
  obtain r where r: "us_span h hb st s str (int (length str)) USET_SPAN_SIMPLE = Some r"
    "simple_end (us_codes s) (units ` us_strs s) str r"
    using us_span_simple_ready [OF assms(1-3)] by blast
  then have "r \<le> Max {i. spans_to (us_codes s) (units ` us_strs s) str i}"
    by (intro Max_ge finite_spans_to) (simp add: simple_end_def)
  with r us_span_contained_ready [OF assms] show ?thesis by (simp add: simple_end_def)
qed

theorem unicodeset_span_simple_witness:
  "\<exists>r m. us_span ample roomy_bytes bytes16 set_xy [120, 121, 97, 120] 4 USET_SPAN_SIMPLE = Some r \<and>
     us_span ample roomy_bytes bytes16 set_xy [120, 121, 97, 120] 4 USET_SPAN_CONTAINED = Some m \<and> r \<le> m"
  using unicodeset_span_simple [OF thawed_ready [OF set_xy_ok(1,4)] _ ample_roomy roomy_bytes_ok, of "[120, 121, 97, 120]"]
  by auto

section \<open>The longest element at each position\<close>

text \<open>The algorithm that the comments give for \<open>USET_SPAN_SIMPLE\<close>: go on from the farthest end of an element that
  starts at the position.\<close>

definition element_ends :: "(int \<Rightarrow> bool) \<Rightarrow> int list list \<Rightarrow> int list \<Rightarrow> nat \<Rightarrow> nat list" where
  "element_ends C ts s i =
     (case u16_next s i (length s) of Some (c, j) \<Rightarrow> if C c then [j] else [] | None \<Rightarrow> []) @
     map (\<lambda>t. i + length t) (filter (\<lambda>t. t \<noteq> [] \<and> take (length t) (drop i s) = t) ts)"

function greedy :: "(int \<Rightarrow> bool) \<Rightarrow> int list list \<Rightarrow> int list \<Rightarrow> nat \<Rightarrow> nat" where
  "greedy C ts s i =
     (let m = fold max (element_ends C ts s i) i
      in if i < m \<and> m \<le> length s then greedy C ts s m else i)"
  by pat_completeness auto
termination
  by (relation "measure (\<lambda>(C, ts, s, i). length s - i)") auto

text \<open>With the code points \<open>a\<close>, \<open>b\<close> and the strings \<open>ab\<close>, \<open>bad\<close>, \<open>span(USET_SPAN_SIMPLE)\<close> covers all
  of the text \<open>abad\<close>, although the longest elements at its positions are \<open>ab\<close>, \<open>a\<close> and then none. On the example
  of the header, \<open>xyax\<close>, the code gives the documented 3 and 4.\<close>

lemma span_simple_not_longest:
  "us_span ample roomy_bytes bytes16 set_ab [97, 98, 97, 100] 4 USET_SPAN_SIMPLE = Some 4 \<and>
   greedy (\<lambda>c. c \<in> {97, 98}) [[97, 98], [98, 97, 100]] [97, 98, 97, 100] 0 = 3 \<and>
   us_span ample roomy_bytes bytes16 set_xy [120, 121, 97, 120] 4 USET_SPAN_SIMPLE = Some 3 \<and>
   us_span ample roomy_bytes bytes16 set_xy [120, 121, 97, 120] 4 USET_SPAN_CONTAINED = Some 4"
proof (intro conjI)
  show "us_span ample roomy_bytes bytes16 set_ab [97, 98, 97, 100] 4 USET_SPAN_SIMPLE = Some 4" by code_simp
  show "greedy (\<lambda>c. c \<in> {97, 98}) [[97, 98], [98, 97, 100]] [97, 98, 97, 100] 0 = 3" by code_simp
  show "us_span ample roomy_bytes bytes16 set_xy [120, 121, 97, 120] 4 USET_SPAN_SIMPLE = Some 3" by code_simp
  show "us_span ample roomy_bytes bytes16 set_xy [120, 121, 97, 120] 4 USET_SPAN_CONTAINED = Some 4" by code_simp
qed

end
