(* ===== verification/PrimeTable.thy ===== *)
theory PrimeTable
  imports Prelude
begin

text \<open>
  The lengths of the hash tables of \<open>uhash.c\<close> and that they are prime: small numbers by trial
  division, the others by Pocklington's criterion, whose numbers are checked by evaluation. The search
  of a table relies on this: its increment is less than the length, so it is prime to it.
\<close>

definition PRIMES :: "int list" where
  "PRIMES = [13, 31, 61, 127, 251, 509, 1021, 2039, 4093, 8191, 16381, 32749, 65521, 131071, 262139, 524287,
     1048573, 2097143, 4194301, 8388593, 16777213, 33554393, 67108859, 134217689, 268435399, 536870909,
     1073741789, 2147483647]"

definition is_prime :: "int \<Rightarrow> bool" where
  "is_prime p \<longleftrightarrow> 1 < p \<and> (\<forall>d. 1 < d \<longrightarrow> d dvd p \<longrightarrow> d = p)"

section \<open>Primes\<close>

lemma prime_gcd: "is_prime p \<Longrightarrow> \<not> p dvd a \<Longrightarrow> gcd p a = 1"
proof -
  assume p: "is_prime p" "\<not> p dvd a"
  have "gcd p a \<noteq> 0" using p(1) by (simp add: is_prime_def)
  moreover have "gcd p a \<noteq> p" using p(2) by (metis gcd_dvd2)
  ultimately show "gcd p a = 1" using p(1) gcd_dvd1 [of p a] gcd_ge_0_int [of p a]
    unfolding is_prime_def by (metis less_le zless_imp_add1_zle add_0)
qed

lemma prime_dvd_mult: "is_prime p \<Longrightarrow> p dvd a * b \<Longrightarrow> p dvd a \<or> p dvd b"
  using prime_gcd [of p a] by (metis coprime_dvd_mult_right_iff coprime_iff_gcd_eq_1)

lemma prime_divisor: "1 < n \<Longrightarrow> \<exists>p. is_prime p \<and> p dvd n"
proof (induction "nat n" arbitrary: n rule: less_induct)
  case less
  show ?case
  proof (cases "is_prime n")
    case False
    then obtain d where d: "1 < d" "d dvd n" "d \<noteq> n" using less.prems by (auto simp: is_prime_def)
    then have "nat d < nat n" using zdvd_imp_le [OF d(2)] less.prems by simp
    from less.hyps [OF this d(1)] d(2) show ?thesis by (meson dvd_trans)
  qed (use dvd_refl in blast)
qed

text \<open>A number is prime when it has no prime divisor up to its square root.\<close>

lemma prime_by_root:
  assumes "1 < n" "\<And>p. is_prime p \<Longrightarrow> p dvd n \<Longrightarrow> n < p * p"
  shows "is_prime n"
proof -
  obtain p where p: "is_prime p" "p dvd n" using prime_divisor [OF assms(1)] by blast
  then obtain k where k: "n = p * k" by (auto elim: dvdE)
  have "0 < p" "0 < p * k" using p(1) k assms(1) by (simp_all add: is_prime_def)
  then have pos: "0 < p" "0 < k" by (simp_all add: zero_less_mult_iff)
  have "k = 1"
  proof (rule ccontr)
    assume "k \<noteq> 1"
    then have "1 < k" using pos(2) by simp
    then obtain q where q: "is_prime q" "q dvd k" using prime_divisor by blast
    then have "q \<le> k" using zdvd_imp_le pos(2) by blast
    have n: "n < p * p" "n < q * q" using assms(2) p q k by auto
    have "k < p" using n(1) k pos by simp
    then have "q * q \<le> k * p" using \<open>q \<le> k\<close> q(1) by (intro mult_mono) (auto simp: is_prime_def)
    with n(2) k show False by (simp add: mult.commute)
  qed
  with k p(1) show ?thesis by simp
qed

fun trial :: "int \<Rightarrow> int \<Rightarrow> nat \<Rightarrow> bool" where
  "trial p d 0 = (p < d * d)"
| "trial p d (Suc n) = (p < d * d \<or> p mod d \<noteq> 0 \<and> trial p (d + 1) n)"

lemma trial_prime:
  assumes "trial p 2 n" "1 < p"
  shows "is_prime p"
proof -
  have "p < q * q" if "trial p d n" "is_prime q" "q dvd p" "d \<le> q" "0 < d" for d q n
    using that
  proof (induction p d n rule: trial.induct)
    case (1 p d)
    then have "d * d \<le> q * q" by (intro mult_mono) auto
    with 1 show ?case by simp
  next
    case (2 p d n)
    show ?case
    proof (cases "p < d * d")
      case True
      have "d * d \<le> q * q" using 2 by (intro mult_mono) auto
      with True show ?thesis by simp
    next
      case False
      with 2 have "p mod d \<noteq> 0" "trial p (d + 1) n" by auto
      then have "q \<noteq> d" using 2 by (auto simp: dvd_eq_mod_eq_0)
      with 2 \<open>trial p (d + 1) n\<close> \<open>p mod d \<noteq> 0\<close> show ?thesis by simp
    qed
  qed
  moreover have "2 \<le> q" if "is_prime q" for q using that by (simp add: is_prime_def)
  ultimately show ?thesis using assms by (intro prime_by_root) auto
qed

section \<open>Fermat's little theorem\<close>

lemma prime_choose:
  assumes "is_prime (int p)" "0 < k" "k < p"
  shows "int p dvd int (p choose k)"
proof -
  obtain j where k: "k = Suc j" using assms(2) by (cases k) auto
  have "k * (p choose k) = p * ((p - 1) choose j)" using binomial_absorption [of j p] k by simp
  then have "int k * int (p choose k) = int p * int ((p - 1) choose j)" by (metis of_nat_mult)
  then have "int p dvd int k * int (p choose k)" by simp
  moreover have "\<not> int p dvd int k" using assms(2,3) zdvd_imp_le by fastforce
  ultimately show ?thesis using prime_dvd_mult [OF assms(1)] by blast
qed

lemma fermat_step:
  assumes "is_prime (int p)"
  shows "int p dvd (a + 1) ^ p - (a ^ p + 1 :: int)"
proof -
  have p: "0 < p" using assms by (simp add: is_prime_def)
  let ?f = "\<lambda>k. of_nat (p choose k) * a ^ k * 1 ^ (p - k) :: int"
  have "(a + 1) ^ p = (\<Sum>k\<le>p. ?f k)" by (rule binomial_ring)
  also have "{..p} = insert 0 (insert p {0<..<p})" using p by auto
  also have "sum ?f \<dots> = ?f 0 + (?f p + sum ?f {0<..<p})" using p by (simp add: sum.insert)
  finally have e: "(a + 1) ^ p - (a ^ p + 1) = sum ?f {0<..<p}" by simp
  have "int p dvd sum ?f {0<..<p}"
    by (rule dvd_sum) (use prime_choose [OF assms] in \<open>auto intro: dvd_mult2\<close>)
  with e show ?thesis by simp
qed

lemma fermat_nat: "is_prime (int p) \<Longrightarrow> int p dvd int a ^ p - int a"
proof (induction a)
  case 0
  then show ?case by (simp add: is_prime_def power_0_left)
next
  case (Suc a)
  have "int p dvd (int a + 1) ^ p - (int a ^ p + 1) + (int a ^ p - int a)"
    using fermat_step [OF Suc.prems, of "int a"] Suc.IH [OF Suc.prems] by (rule dvd_add)
  then show ?case by (simp add: algebra_simps)
qed

lemma fermat:
  assumes "is_prime p" "\<not> p dvd a" "0 \<le> a"
  shows "p dvd a ^ nat (p - 1) - 1"
proof -
  have p: "1 < p" using assms(1) by (simp add: is_prime_def)
  then have s: "nat p = Suc (nat (p - 1))" by simp
  have "p dvd a ^ nat p - a" using fermat_nat [of "nat p" "nat a"] assms p by simp
  also have "a ^ nat p - a = a * (a ^ nat (p - 1) - 1)" unfolding s by (simp add: algebra_simps)
  finally show ?thesis using prime_dvd_mult [OF assms(1)] assms(2) by blast
qed

section \<open>Pocklington's criterion\<close>

lemma power_minus_one: "(m :: int) dvd b - 1 \<Longrightarrow> m dvd b ^ j - 1"
proof (induction j)
  case (Suc j)
  then have "m dvd b * (b ^ j - 1) + (b - 1)" by (intro dvd_add dvd_mult) auto
  then show ?case by (simp add: algebra_simps)
qed simp

lemma prime_power_not_dvd: "is_prime p \<Longrightarrow> \<not> p dvd a \<Longrightarrow> \<not> p dvd a ^ k"
proof (induction k)
  case 0
  then show ?case using zdvd_imp_le [of p 1] by (auto simp: is_prime_def)
qed (use prime_dvd_mult in fastforce)

lemma order_divides:
  assumes "is_prime p" "\<not> p dvd a" "p dvd a ^ P - 1" "p dvd a ^ N - 1" "P \<noteq> 0"
  shows "p dvd a ^ gcd P N - 1"
proof -
  obtain x y where xy: "P * x = N * y + gcd P N" using bezout_nat [OF assms(5)] by blast
  have 1: "p dvd a ^ (N * y) - 1" using power_minus_one [OF assms(4), of y] by (simp add: power_mult)
  have "p dvd a ^ (P * x) - 1" using power_minus_one [OF assms(3), of x] by (simp add: power_mult)
  then have "p dvd (a ^ (N * y + gcd P N) - 1) - (a ^ (N * y) - 1)" using 1 unfolding xy by (rule dvd_diff)
  then have "p dvd a ^ (N * y) * (a ^ gcd P N - 1)" by (simp add: algebra_simps power_add)
  with prime_dvd_mult [OF assms(1)] prime_power_not_dvd [OF assms(1,2)] show ?thesis by blast
qed

lemma pocklington_step:
  assumes "is_prime q" "q dvd n - 1" "is_prime p" "p dvd n" "1 < n" "0 \<le> a"
    "n dvd a ^ nat (n - 1) - 1" "gcd (a ^ nat ((n - 1) div q) - 1) n = 1"
  shows "q dvd p - 1"
proof (rule ccontr)
  assume no: "\<not> q dvd p - 1"
  let ?P = "nat (p - 1)" and ?N = "nat (n - 1)" and ?R = "nat ((n - 1) div q)"
  have pos: "1 < p" "1 < q" using assms(1,3) by (simp_all add: is_prime_def)
  have N: "?N = nat q * ?R" using assms(2) pos by (metis dvd_mult_div_cancel nat_mult_distrib less_imp_le zero_le_one order.trans)
  have dN: "p dvd a ^ ?N - 1" using assms(4,7) by (rule dvd_trans)
  have pa: "\<not> p dvd a"
  proof
    assume "p dvd a"
    then have "p dvd a ^ ?N" using dvd_trans [OF _ dvd_power, of p a ?N] assms(5) by simp
    then have "p dvd a ^ ?N - (a ^ ?N - 1)" using dN by (rule dvd_diff)
    then show False using pos(1) zdvd_imp_le [of p 1] by simp
  qed
  have "p dvd a ^ gcd ?P ?N - 1"
    using order_divides [OF assms(3) pa fermat [OF assms(3) pa assms(6)] dN] pos(1) by simp
  moreover have "gcd ?P ?N dvd ?R"
  proof -
    have "gcd (int (nat q)) (int ?P) = 1" using prime_gcd [OF assms(1) no] pos by simp
    then have "int (gcd (nat q) ?P) = 1" by (simp only: gcd_int_int_eq)
    then have "coprime (nat q) ?P" by (simp add: coprime_iff_gcd_eq_1)
    then have "coprime (gcd ?P ?N) (nat q)" by (meson coprime_commute coprime_divisors dvd_refl gcd_dvd1)
    moreover have "gcd ?P ?N dvd nat q * ?R" using N by (metis gcd_dvd2)
    ultimately show ?thesis by (simp add: coprime_dvd_mult_right_iff)
  qed
  then obtain k where "?R = gcd ?P ?N * k" by (elim dvdE)
  ultimately have "p dvd a ^ ?R - 1" using power_minus_one by (metis power_mult)
  then have "p dvd gcd (a ^ ?R - 1) n" using assms(4) by simp
  with assms(8) pos(1) zdvd_imp_le [of p 1] show False by simp
qed

lemma primes_product:
  assumes "distinct qs" "\<forall>q \<in> set qs. is_prime q \<and> q dvd m"
  shows "prod_list qs dvd m"
  using assms
proof (induction qs)
  case (Cons q qs)
  have cop: "gcd q (prod_list rs) = 1" if "set rs \<subseteq> set qs" for rs
    using that
  proof (induction rs)
    case (Cons r rs)
    have "is_prime r" "r \<noteq> q" "is_prime q" using Cons.prems \<open>distinct (q # qs)\<close> \<open>\<forall>q \<in> set (q # qs). is_prime q \<and> q dvd m\<close> by auto
    then have "\<not> q dvd r" by (auto simp: is_prime_def)
    then have "gcd q r = 1" using prime_gcd \<open>is_prime q\<close> by blast
    with Cons show ?case by (simp add: coprime_iff_gcd_eq_1 [symmetric])
  qed simp
  have "coprime q (prod_list qs)" using cop [of qs] by (simp add: coprime_iff_gcd_eq_1)
  with Cons show ?case by (simp add: divides_mult)
qed simp

text \<open>The powers modulo \<open>n\<close>, by squaring.\<close>

function powmod :: "int \<Rightarrow> int \<Rightarrow> int \<Rightarrow> int" where
  "powmod b e n =
     (if e \<le> 0 then 1 mod n
      else if e mod 2 = 0 then powmod (b * b mod n) (e div 2) n
      else b * powmod (b * b mod n) (e div 2) n mod n)"
  by pat_completeness auto
termination
  by (relation "measure (\<lambda>(b, e, n). nat e)") auto

declare powmod.simps [simp del]

lemma powmod_eq: "powmod b e n = b ^ nat e mod n"
proof (induction b e n rule: powmod.induct)
  case (1 b e n)
  show ?case
  proof (cases "e \<le> 0")
    case True
    then show ?thesis by (simp add: powmod.simps)
  next
    case False
    have sq: "(b * b mod n) ^ k mod n = (b * b) ^ k mod n" for k by (simp add: power_mod)
    show ?thesis
    proof (cases "e mod 2 = 0")
      case True
      then have "e = e div 2 + e div 2" by presburger
      then have "nat e = nat (e div 2) + nat (e div 2)" using False by linarith
      then have "b ^ nat e = (b * b) ^ nat (e div 2)" by (simp add: power_add power_mult_distrib)
      with 1(1) [OF False True] False True sq show ?thesis by (simp add: powmod.simps [of b e n])
    next
      case odd: False
      then have "e = e div 2 + e div 2 + 1" by presburger
      then have "nat e = Suc (nat (e div 2) + nat (e div 2))" using False by linarith
      then have "b ^ nat e = b * (b * b) ^ nat (e div 2)" by (simp add: power_add power_mult_distrib)
      moreover have "b * (b * b mod n) ^ k mod n = b * (b * b) ^ k mod n" for k
        by (metis mod_mult_right_eq power_mod)
      ultimately show ?thesis using 1(2) [OF False odd] False odd
        by (simp add: powmod.simps [of b e n] mod_mult_right_eq)
    qed
  qed
qed

definition certificate :: "int \<Rightarrow> (int \<times> int) list \<Rightarrow> bool" where
  "certificate n cs \<longleftrightarrow> 1 < n \<and> distinct (map fst cs) \<and> n \<le> prod_list (map fst cs) * prod_list (map fst cs) \<and>
     list_all (\<lambda>(q, a). 1 < q \<and> 0 \<le> a \<and> (n - 1) mod q = 0 \<and> powmod a (n - 1) n = 1 \<and>
       gcd (powmod a ((n - 1) div q) n - 1) n = 1) cs"

lemma certified_prime:
  assumes "certificate n cs" "list_all is_prime (map fst cs)"
  shows "is_prime n"
proof (rule prime_by_root)
  show n: "1 < n" using assms(1) by (simp add: certificate_def)
  fix p assume p: "is_prime p" "p dvd n"
  have "is_prime q \<and> q dvd p - 1" if "(q, a) \<in> set cs" for q a
  proof -
    have q: "is_prime q" "1 < q" "0 \<le> a" "(n - 1) mod q = 0" "powmod a (n - 1) n = 1" "gcd (powmod a ((n - 1) div q) n - 1) n = 1"
      using assms that by (auto simp: certificate_def list_all_iff)
    have "n dvd a ^ nat (n - 1) - 1" using q(5) n by (simp add: powmod_eq mod_eq_dvd_iff [symmetric])
    moreover have "gcd (x mod n - 1) n = gcd (x - 1) n" for x
      unfolding gcd_red_int [of "x mod n - 1"] gcd_red_int [of "x - 1"] by (simp add: mod_diff_left_eq)
    then have "gcd (a ^ nat ((n - 1) div q) - 1) n = 1" using q(6) unfolding powmod_eq by simp
    ultimately show ?thesis
      using pocklington_step [OF q(1) _ p n q(3)] q(1,4) by (simp add: dvd_eq_mod_eq_0)
  qed
  then have d: "prod_list (map fst cs) dvd p - 1" using assms(1)
    by (intro primes_product) (auto simp: certificate_def)
  have p1: "0 < p - 1" using p(1) by (simp add: is_prime_def)
  have le: "prod_list (map fst cs) \<le> p - 1" using zdvd_imp_le [OF d p1] .
  have "0 < q" if "q \<in> set (map fst cs)" for q using assms(1) that by (auto simp: certificate_def list_all_iff)
  then have "0 < prod_list (map fst cs)" by (induction cs) (auto intro!: mult_pos_pos)
  then have "0 \<le> prod_list (map fst cs)" by simp
  then have "prod_list (map fst cs) * prod_list (map fst cs) \<le> (p - 1) * (p - 1)" using le by (intro mult_mono) auto
  also have "\<dots> < p * p" using p1 by (intro mult_strict_mono) auto
  finally show "n < p * p" using assms(1) by (simp add: certificate_def)
qed

section \<open>The table\<close>

lemma small_primes:
  "list_all is_prime [11, 13, 17, 19, 31, 41, 47, 61, 73, 89, 97, 127, 151, 251, 257, 331, 467, 509, 683, 1019, 1021, 2039,
     2341, 2371, 2473, 2729, 4093, 5, 6917, 7, 8191, 15101, 16381, 32749, 65521, 262657]"
proof -
  have "list_all (\<lambda>p. 1 < p \<and> trial p 2 512) [11, 13, 17, 19, 31, 41, 47, 61, 73, 89, 97, 127, 151, 251, 257, 331, 467,
     509, 683, 1019, 1021, 2039, 2341, 2371, 2473, 2729, 4093, 5, 6917, 7, 8191, 15101, 16381, 32749, 65521, 262657]"
    by code_simp
  then show ?thesis using trial_prime unfolding list_all_iff by blast
qed

lemma middle_primes: "list_all is_prime [131071, 262139, 524287, 1048571, 581029, 70051]"
proof -
  have "certificate 131071 [(257, 3), (17, 2)]" "certificate 262139 [(2473, 2)]" "certificate 524287 [(73, 3), (19, 2)]"
    "certificate 1048571 [(97, 2), (47, 2)]" "certificate 581029 [(6917, 2)]" "certificate 70051 [(467, 2)]"
    by code_simp+
  note c = this [THEN certified_prime]
  show ?thesis using c small_primes by simp
qed

text \<open>Every length a table can have is prime.\<close>

lemma PRIMES_prime: "list_all is_prime PRIMES"
proof -
  have "certificate 1048573 [(73, 2), (19, 2)]" "certificate 2097143 [(1048571, 2)]"
    "certificate 4194301 [(41, 2), (31, 2), (11, 5)]" "certificate 8388593 [(524287, 2)]"
    "certificate 16777213 [(683, 2), (89, 2)]" "certificate 33554393 [(2371, 2), (61, 2)]"
    "certificate 67108859 [(70051, 2)]" "certificate 134217689 [(15101, 2)]" "certificate 268435399 [(581029, 2)]"
    "certificate 536870909 [(262657, 2)]" "certificate 1073741789 [(16381, 2), (2341, 2)]"
    "certificate 2147483647 [(331, 3), (151, 3)]"
    by code_simp+
  note c = this [THEN certified_prime]
  show ?thesis using c small_primes middle_primes by (simp add: PRIMES_def)
qed

end
