(* ===== verification/UHash.thy ===== *)
theory UHash
  imports PrimeTable
begin

text \<open>
  \<open>UHashtable\<close> (uhash.c, uhash.h): an open addressing hash table with double hashing. Keys and values
  are tokens, values of a type with a zero: a token is a pointer or an integer, zero is the null pointer or the
  integer 0 that empty slots hold. Two keys are the same token when they are the same pointer or integer; whether
  they are the same key is what \<open>uh_keyComparator\<close> says. The ghost fields list the tokens handed to the
  deleters. \<open>sizeof(UHashElement)\<close> is 24 and \<open>sizeof(UHashtable)\<close> is 80 with 64-bit pointers.

  A slot outside the array, a null element, an index beyond 32 bits and a search that does not end have
  no result.
\<close>

unbundle bit_operations_syntax

section \<open>Tokens\<close>

instantiation option :: (type) zero
begin

definition zero_option :: "'a option" where "zero_option = None"

instance ..

end

record ('k, 'v) uhelement =
  he_hashcode :: int
  he_value :: 'v
  he_key :: 'k

record ('k, 'v) uhashtable =
  uh_elements :: "('k, 'v) uhelement list option"
  uh_keyHasher :: "'k \<Rightarrow> int"
  uh_keyComparator :: "'k \<Rightarrow> 'k \<Rightarrow> bool"
  uh_valueComparator :: "('v \<Rightarrow> 'v \<Rightarrow> bool) option"
  uh_keyDeleter :: bool
  uh_valueDeleter :: bool
  uh_count :: int
  uh_length :: int
  uh_highWaterMark :: int
  uh_lowWaterMark :: int
  uh_highWaterRatio :: int
  uh_lowWaterRatio :: int
  uh_primeIndex :: int
  uh_allocated :: bool
  uh_deletedKeys :: "'k list"
  uh_deletedValues :: "'v list"

datatype UHashResizePolicy = U_GROW | U_GROW_AND_SHRINK | U_FIXED

definition HASH_DELETED :: int where "HASH_DELETED = - 2147483648"
definition HASH_EMPTY :: int where "HASH_EMPTY = - 2147483647"

definition vacant :: "('k, 'v) uhelement \<Rightarrow> bool" where
  "vacant e \<longleftrightarrow> he_hashcode e < 0"

definition positive :: "int \<Rightarrow> int" where
  "positive hashcode = hashcode AND 2147483647"

section \<open>Water marks\<close>

text \<open>
  \<open>(int32_t)(length * ratio)\<close> in single precision: a ratio counts in units of \<open>2 ^ -27\<close>, which represents
  0, \<open>0.1F\<close>, \<open>0.5F\<close> and 1 exactly; \<open>round24\<close> rounds to 24 significant bits, to even at a tie.
\<close>

fun bits :: "nat \<Rightarrow> int \<Rightarrow> nat" where
  "bits 0 n = 0"
| "bits (Suc k) n = (if n \<le> 0 then 0 else Suc (bits k (n div 2)))"

definition round24 :: "int \<Rightarrow> int" where
  "round24 n =
     (if n < 16777216 then n
      else let u = 2 ^ (bits 64 n - 24); q = n div u; r = n mod u
           in (if 2 * r > u \<or> 2 * r = u \<and> odd q then q + 1 else q) * u)"

definition water_mark :: "int \<Rightarrow> int \<Rightarrow> int" where
  "water_mark len ratio = round24 (round24 len * ratio) div 134217728"

definition uh_setRatios :: "UHashResizePolicy \<Rightarrow> ('k, 'v) uhashtable \<Rightarrow> ('k, 'v) uhashtable" where
  "uh_setRatios policy h =
     (case policy of
        U_GROW \<Rightarrow> h\<lparr>uh_lowWaterRatio := 0, uh_highWaterRatio := 67108864\<rparr>
      | U_GROW_AND_SHRINK \<Rightarrow> h\<lparr>uh_lowWaterRatio := 13421773, uh_highWaterRatio := 67108864\<rparr>
      | U_FIXED \<Rightarrow> h\<lparr>uh_lowWaterRatio := 0, uh_highWaterRatio := 134217728\<rparr>)"

definition uh_setMarks :: "('k, 'v) uhashtable \<Rightarrow> ('k, 'v) uhashtable" where
  "uh_setMarks h = h\<lparr>uh_lowWaterMark := water_mark (uh_length h) (uh_lowWaterRatio h),
     uh_highWaterMark := water_mark (uh_length h) (uh_highWaterRatio h)\<rparr>"

section \<open>Elements\<close>

definition uh_deleteKey :: "'k::zero \<Rightarrow> ('k, 'v) uhashtable \<Rightarrow> ('k, 'v) uhashtable" where
  "uh_deleteKey k h = (if uh_keyDeleter h \<and> k \<noteq> 0 then h\<lparr>uh_deletedKeys := uh_deletedKeys h @ [k]\<rparr> else h)"

definition uh_deleteValue :: "'v::zero \<Rightarrow> ('k, 'v) uhashtable \<Rightarrow> ('k, 'v) uhashtable" where
  "uh_deleteValue v h = (if uh_valueDeleter h \<and> v \<noteq> 0 then h\<lparr>uh_deletedValues := uh_deletedValues h @ [v]\<rparr> else h)"

definition empty_element :: "('k::zero, 'v::zero) uhelement" where
  "empty_element = \<lparr>he_hashcode = HASH_EMPTY, he_value = 0, he_key = 0\<rparr>"

definition uh_setElement ::
  "nat \<Rightarrow> int \<Rightarrow> 'k::zero \<Rightarrow> 'v::zero \<Rightarrow> ('k, 'v) uhashtable \<Rightarrow> (('k, 'v) uhashtable \<times> 'v) option" where
  "uh_setElement i hashcode key value h =
     do { els \<leftarrow> uh_elements h; e \<leftarrow> rd els i;
          let h = (if he_key e \<noteq> key then uh_deleteKey (he_key e) h else h);
          let oldValue = (if uh_valueDeleter h then 0 else he_value e);
          let h = (if he_value e \<noteq> value then uh_deleteValue (he_value e) h else h);
          els \<leftarrow> wr els i \<lparr>he_hashcode = hashcode, he_value = value, he_key = key\<rparr>;
          Some (h\<lparr>uh_elements := Some els\<rparr>, oldValue) }"

definition uh_internalRemoveElement :: "nat \<Rightarrow> ('k::zero, 'v::zero) uhashtable \<Rightarrow> (('k, 'v) uhashtable \<times> 'v) option" where
  "uh_internalRemoveElement i h = uh_setElement i HASH_DELETED 0 0 (h\<lparr>uh_count := uh_count h - 1\<rparr>)"

definition uh_allocate ::
  "'x heap \<Rightarrow> int \<Rightarrow> ('k::zero, 'v::zero) uhashtable \<Rightarrow> UErrorCode \<Rightarrow> (('k, 'v) uhashtable \<times> UErrorCode) option" where
  "uh_allocate hp primeIndex h status =
     (if U_FAILURE status then Some (h, status)
      else do {
        n \<leftarrow> rd PRIMES (nat primeIndex);
        let h = h\<lparr>uh_primeIndex := primeIndex, uh_length := n\<rparr>;
        if \<not> uprv_malloc hp (24 * n) then Some (h\<lparr>uh_elements := None\<rparr>, U_MEMORY_ALLOCATION_ERROR)
        else Some (uh_setMarks (h\<lparr>uh_elements := Some (replicate (nat n) empty_element), uh_count := 0\<rparr>), status) })"

section \<open>The search\<close>

text \<open>
  The result is the index of a slot, or none for a null pointer. \<open>jump\<close> is computed once and for
  all; the code does so when it first needs it.
\<close>

partial_function (option) uh_probe ::
  "('k, 'v) uhelement list \<Rightarrow> ('k \<Rightarrow> 'k \<Rightarrow> bool) \<Rightarrow> 'k \<Rightarrow> int \<Rightarrow> int \<Rightarrow> int \<Rightarrow> int \<Rightarrow> int \<Rightarrow> nat option \<Rightarrow> nat option option" where
  "uh_probe els cmp key hashcode len jump startIndex theIndex firstDeleted =
     do { e \<leftarrow> rd els (nat theIndex);
          if he_hashcode e = hashcode \<and> cmp key (he_key e) then Some (Some (nat theIndex))
          else if he_hashcode e = HASH_EMPTY
          then Some (case firstDeleted of None \<Rightarrow> Some (nat theIndex) | Some d \<Rightarrow> Some d)
          else do {
            let firstDeleted = (if vacant e \<and> firstDeleted = None then Some (nat theIndex) else firstDeleted);
            if theIndex + jump > INT32_MAX then None
            else let i = (theIndex + jump) mod len
                 in if i \<noteq> startIndex then uh_probe els cmp key hashcode len jump startIndex i firstDeleted
                    else Some firstDeleted } }"

declare uh_probe.simps [code]

definition uh_find :: "'k \<Rightarrow> int \<Rightarrow> ('k, 'v) uhashtable \<Rightarrow> nat option option" where
  "uh_find key hashcode h =
     do { els \<leftarrow> uh_elements h;
          let hashcode = positive hashcode;
          let startIndex = (hashcode XOR 67108864) mod uh_length h;
          let jump = hashcode mod (uh_length h - 1) + 1;
          uh_probe els (uh_keyComparator h) key hashcode (uh_length h) jump startIndex startIndex None }"

section \<open>Rehashing\<close>

text \<open>The loop over the old slots, from the last one down.\<close>

fun uh_refill :: "('k, 'v) uhelement list \<Rightarrow> nat \<Rightarrow> ('k, 'v) uhashtable \<Rightarrow> ('k, 'v) uhashtable option" where
  "uh_refill old 0 h = Some h"
| "uh_refill old (Suc i) h =
     do { e \<leftarrow> rd old i;
          h \<leftarrow> (if vacant e then Some h
                else do { p \<leftarrow> uh_find (he_key e) (he_hashcode e) h; j \<leftarrow> p;
                          els \<leftarrow> uh_elements h; els \<leftarrow> wr els j e;
                          Some (h\<lparr>uh_elements := Some els, uh_count := uh_count h + 1\<rparr>) });
          uh_refill old i h }"

definition uh_rehash ::
  "'x heap \<Rightarrow> ('k::zero, 'v::zero) uhashtable \<Rightarrow> UErrorCode \<Rightarrow> (('k, 'v) uhashtable \<times> UErrorCode) option" where
  "uh_rehash hp h status =
     (let old = uh_elements h; oldLength = uh_length h;
          newPrimeIndex = (if uh_count h > uh_highWaterMark h then uh_primeIndex h + 1 else uh_primeIndex h - 1)
      in if \<not> (uh_count h > uh_highWaterMark h \<or> uh_count h < uh_lowWaterMark h) then Some (h, status)
         else if newPrimeIndex \<ge> int (length PRIMES) \<or> newPrimeIndex < 0 then Some (h, status)
         else do {
           (h, status) \<leftarrow> uh_allocate hp newPrimeIndex h status;
           if U_FAILURE status then Some (h\<lparr>uh_elements := old, uh_length := oldLength\<rparr>, status)
           else do { els \<leftarrow> old; h \<leftarrow> uh_refill els (nat oldLength) h; Some (h, status) } })"

section \<open>Removing and putting\<close>

definition uh_remove :: "'x heap \<Rightarrow> 'k::zero \<Rightarrow> ('k, 'v::zero) uhashtable \<Rightarrow> (('k, 'v) uhashtable \<times> 'v) option" where
  "uh_remove hp key h =
     do { p \<leftarrow> uh_find key (uh_keyHasher h key) h; i \<leftarrow> p; els \<leftarrow> uh_elements h; e \<leftarrow> rd els i;
          if vacant e then Some (h, 0)
          else do {
            (h, result) \<leftarrow> uh_internalRemoveElement i h;
            if uh_count h < uh_lowWaterMark h
            then do { (h, status) \<leftarrow> uh_rehash hp h U_ZERO_ERROR; Some (h, result) }
            else Some (h, result) } }"

text \<open>\<open>ptr\<close> is the hint that the value is a pointer; \<open>uh_putError\<close> is what is at the label \<open>err\<close>.\<close>

definition uh_putError ::
  "'k::zero \<Rightarrow> 'v::zero \<Rightarrow> ('k, 'v) uhashtable \<Rightarrow> UErrorCode \<Rightarrow> ('k, 'v) uhashtable \<times> 'v \<times> UErrorCode" where
  "uh_putError key value h status = (uh_deleteValue value (uh_deleteKey key h), 0, status)"

definition uh_put ::
  "'x heap \<Rightarrow> bool \<Rightarrow> 'k::zero \<Rightarrow> 'v::zero \<Rightarrow> ('k, 'v) uhashtable \<Rightarrow> UErrorCode \<Rightarrow>
   (('k, 'v) uhashtable \<times> 'v \<times> UErrorCode) option" where
  "uh_put hp ptr key value h status =
     (if U_FAILURE status then Some (uh_putError key value h status)
      else if ptr \<and> value = 0 then do { (h, old) \<leftarrow> uh_remove hp key h; Some (h, old, status) }
      else do {
        (h, status) \<leftarrow> (if uh_count h > uh_highWaterMark h then uh_rehash hp h status else Some (h, status));
        if U_FAILURE status then Some (uh_putError key value h status)
        else do {
          let hashcode = uh_keyHasher h key;
          p \<leftarrow> uh_find key hashcode h; i \<leftarrow> p; els \<leftarrow> uh_elements h; e \<leftarrow> rd els i;
          if vacant e \<and> uh_count h + 1 = uh_length h
          then Some (uh_putError key value h U_MEMORY_ALLOCATION_ERROR)
          else do {
            let h = (if vacant e then h\<lparr>uh_count := uh_count h + 1\<rparr> else h);
            (h, old) \<leftarrow> uh_setElement i (positive hashcode) key value h;
            Some (h, old, status) } } })"

section \<open>The public functions\<close>

definition uh_init ::
  "'x heap \<Rightarrow> ('k::zero \<Rightarrow> int) \<Rightarrow> ('k \<Rightarrow> 'k \<Rightarrow> bool) \<Rightarrow> ('v::zero \<Rightarrow> 'v \<Rightarrow> bool) option \<Rightarrow> int \<Rightarrow> UErrorCode \<Rightarrow>
   (('k, 'v) uhashtable option \<times> UErrorCode) option" where
  "uh_init hp keyHash keyComp valueComp primeIndex status =
     (if U_FAILURE status then Some (None, status)
      else do {
        let h = uh_setRatios U_GROW
          \<lparr>uh_elements = None, uh_keyHasher = keyHash, uh_keyComparator = keyComp, uh_valueComparator = valueComp,
           uh_keyDeleter = False, uh_valueDeleter = False, uh_count = 0, uh_length = 0, uh_highWaterMark = 0,
           uh_lowWaterMark = 0, uh_highWaterRatio = 0, uh_lowWaterRatio = 0, uh_primeIndex = 0, uh_allocated = False,
           uh_deletedKeys = [], uh_deletedValues = []\<rparr>;
        (h, status) \<leftarrow> uh_allocate hp primeIndex h status;
        Some (if U_FAILURE status then None else Some h, status) })"

definition uh_create ::
  "'x heap \<Rightarrow> ('k::zero \<Rightarrow> int) \<Rightarrow> ('k \<Rightarrow> 'k \<Rightarrow> bool) \<Rightarrow> ('v::zero \<Rightarrow> 'v \<Rightarrow> bool) option \<Rightarrow> int \<Rightarrow> UErrorCode \<Rightarrow>
   (('k, 'v) uhashtable option \<times> UErrorCode) option" where
  "uh_create hp keyHash keyComp valueComp primeIndex status =
     (if U_FAILURE status then Some (None, status)
      else if \<not> uprv_malloc hp 80 then Some (None, U_MEMORY_ALLOCATION_ERROR)
      else do {
        (h, status) \<leftarrow> uh_init hp keyHash keyComp valueComp primeIndex status;
        Some (if U_FAILURE status then None else map_option (\<lambda>h. h\<lparr>uh_allocated := True\<rparr>) h, status) })"

definition DEFAULT_PRIME_INDEX :: int where "DEFAULT_PRIME_INDEX = 3"

definition uhash_open ::
  "'x heap \<Rightarrow> ('k::zero \<Rightarrow> int) \<Rightarrow> ('k \<Rightarrow> 'k \<Rightarrow> bool) \<Rightarrow> ('v::zero \<Rightarrow> 'v \<Rightarrow> bool) option \<Rightarrow> UErrorCode \<Rightarrow>
   (('k, 'v) uhashtable option \<times> UErrorCode) option" where
  "uhash_open hp keyHash keyComp valueComp status = uh_create hp keyHash keyComp valueComp DEFAULT_PRIME_INDEX status"

definition uhash_init ::
  "'x heap \<Rightarrow> ('k::zero \<Rightarrow> int) \<Rightarrow> ('k \<Rightarrow> 'k \<Rightarrow> bool) \<Rightarrow> ('v::zero \<Rightarrow> 'v \<Rightarrow> bool) option \<Rightarrow> UErrorCode \<Rightarrow>
   (('k, 'v) uhashtable option \<times> UErrorCode) option" where
  "uhash_init hp keyHash keyComp valueComp status = uh_init hp keyHash keyComp valueComp DEFAULT_PRIME_INDEX status"

fun smallest_prime :: "int list \<Rightarrow> int \<Rightarrow> nat" where
  "smallest_prime (p # q # ps) wanted = (if p < wanted then Suc (smallest_prime (q # ps) wanted) else 0)"
| "smallest_prime _ wanted = 0"

definition uhash_openSize ::
  "'x heap \<Rightarrow> ('k::zero \<Rightarrow> int) \<Rightarrow> ('k \<Rightarrow> 'k \<Rightarrow> bool) \<Rightarrow> ('v::zero \<Rightarrow> 'v \<Rightarrow> bool) option \<Rightarrow> int \<Rightarrow> UErrorCode \<Rightarrow>
   (('k, 'v) uhashtable option \<times> UErrorCode) option" where
  "uhash_openSize hp keyHash keyComp valueComp wanted status =
     uh_create hp keyHash keyComp valueComp (int (smallest_prime PRIMES wanted)) status"

definition uhash_setResizePolicy ::
  "'x heap \<Rightarrow> UHashResizePolicy \<Rightarrow> ('k::zero, 'v::zero) uhashtable \<Rightarrow> ('k, 'v) uhashtable option" where
  "uhash_setResizePolicy hp policy h =
     do { (h, status) \<leftarrow> uh_rehash hp (uh_setMarks (uh_setRatios policy h)) U_ZERO_ERROR; Some h }"

definition uhash_setKeyDeleter :: "bool \<Rightarrow> ('k, 'v) uhashtable \<Rightarrow> ('k, 'v) uhashtable \<times> bool" where
  "uhash_setKeyDeleter fn h = (h\<lparr>uh_keyDeleter := fn\<rparr>, uh_keyDeleter h)"

definition uhash_setValueDeleter :: "bool \<Rightarrow> ('k, 'v) uhashtable \<Rightarrow> ('k, 'v) uhashtable \<times> bool" where
  "uhash_setValueDeleter fn h = (h\<lparr>uh_valueDeleter := fn\<rparr>, uh_valueDeleter h)"

definition uhash_setKeyHasher :: "('k \<Rightarrow> int) \<Rightarrow> ('k, 'v) uhashtable \<Rightarrow> ('k, 'v) uhashtable \<times> ('k \<Rightarrow> int)" where
  "uhash_setKeyHasher fn h = (h\<lparr>uh_keyHasher := fn\<rparr>, uh_keyHasher h)"

definition uhash_setKeyComparator ::
  "('k \<Rightarrow> 'k \<Rightarrow> bool) \<Rightarrow> ('k, 'v) uhashtable \<Rightarrow> ('k, 'v) uhashtable \<times> ('k \<Rightarrow> 'k \<Rightarrow> bool)" where
  "uhash_setKeyComparator fn h = (h\<lparr>uh_keyComparator := fn\<rparr>, uh_keyComparator h)"

definition uhash_setValueComparator ::
  "('v \<Rightarrow> 'v \<Rightarrow> bool) option \<Rightarrow> ('k, 'v) uhashtable \<Rightarrow> ('k, 'v) uhashtable \<times> ('v \<Rightarrow> 'v \<Rightarrow> bool) option" where
  "uhash_setValueComparator fn h = (h\<lparr>uh_valueComparator := fn\<rparr>, uh_valueComparator h)"

text \<open>\<open>uhash_put\<close> and \<open>uhash_iput\<close> put pointers, \<open>uhash_puti\<close> and \<open>uhash_iputi\<close> integers.\<close>

definition uhash_put ::
  "'x heap \<Rightarrow> 'k::zero \<Rightarrow> 'v::zero \<Rightarrow> ('k, 'v) uhashtable \<Rightarrow> UErrorCode \<Rightarrow> (('k, 'v) uhashtable \<times> 'v \<times> UErrorCode) option" where
  "uhash_put hp key value h status = uh_put hp True key value h status"

definition uhash_puti ::
  "'x heap \<Rightarrow> 'k::zero \<Rightarrow> 'v::zero \<Rightarrow> ('k, 'v) uhashtable \<Rightarrow> UErrorCode \<Rightarrow> (('k, 'v) uhashtable \<times> 'v \<times> UErrorCode) option" where
  "uhash_puti hp key value h status = uh_put hp False key value h status"

definition uhash_remove :: "'x heap \<Rightarrow> 'k::zero \<Rightarrow> ('k, 'v::zero) uhashtable \<Rightarrow> (('k, 'v) uhashtable \<times> 'v) option" where
  "uhash_remove hp key h = uh_remove hp key h"

definition uhash_count :: "('k, 'v) uhashtable \<Rightarrow> int" where
  "uhash_count h = uh_count h"

definition uhash_get :: "'k \<Rightarrow> ('k, 'v) uhashtable \<Rightarrow> 'v option" where
  "uhash_get key h =
     do { p \<leftarrow> uh_find key (uh_keyHasher h key) h; i \<leftarrow> p; els \<leftarrow> uh_elements h; e \<leftarrow> rd els i; Some (he_value e) }"

definition uhash_find :: "'k \<Rightarrow> ('k, 'v) uhashtable \<Rightarrow> nat option option" where
  "uhash_find key h =
     do { p \<leftarrow> uh_find key (uh_keyHasher h key) h; i \<leftarrow> p; els \<leftarrow> uh_elements h; e \<leftarrow> rd els i;
          Some (if vacant e then None else Some i) }"

text \<open>The walk through the slots: from \<open>i = *pos + 1\<close> on, the next one in use.\<close>

function next_element :: "('k, 'v) uhelement list \<Rightarrow> nat \<Rightarrow> nat \<Rightarrow> nat option option" where
  "next_element els i n =
     (if i < n
      then (case rd els i of None \<Rightarrow> None
            | Some e \<Rightarrow> if vacant e then next_element els (i + 1) n else Some (Some i))
      else Some None)"
  by pat_completeness auto
termination
  by (relation "measure (\<lambda>(els, i, n). n - i)") auto

declare next_element.simps [simp del]

definition uhash_nextElement :: "int \<Rightarrow> ('k, 'v) uhashtable \<Rightarrow> nat option option" where
  "uhash_nextElement pos h = do { els \<leftarrow> uh_elements h; next_element els (nat (pos + 1)) (nat (uh_length h)) }"

definition uhash_removeElement :: "nat \<Rightarrow> ('k::zero, 'v::zero) uhashtable \<Rightarrow> (('k, 'v) uhashtable \<times> 'v) option" where
  "uhash_removeElement i h =
     do { els \<leftarrow> uh_elements h; e \<leftarrow> rd els i;
          if vacant e then Some (h, 0) else uh_internalRemoveElement i h }"

partial_function (option) remove_all_loop :: "int \<Rightarrow> ('k::zero, 'v::zero) uhashtable \<Rightarrow> ('k, 'v) uhashtable option" where
  "remove_all_loop pos h =
     do { p \<leftarrow> uhash_nextElement pos h;
          case p of None \<Rightarrow> Some h
          | Some i \<Rightarrow> do { r \<leftarrow> uhash_removeElement i h; remove_all_loop (int i) (fst r) } }"

declare remove_all_loop.simps [code]

definition uhash_removeAll :: "('k::zero, 'v::zero) uhashtable \<Rightarrow> ('k, 'v) uhashtable option" where
  "uhash_removeAll h = (if uh_count h \<noteq> 0 then remove_all_loop (- 1) h else Some h)"

fun equals_loop :: "nat \<Rightarrow> int \<Rightarrow> ('v \<Rightarrow> 'v \<Rightarrow> bool) \<Rightarrow> ('k, 'v) uhashtable \<Rightarrow> ('k, 'v) uhashtable \<Rightarrow> bool option" where
  "equals_loop 0 pos valueComp h1 h2 = Some True"
| "equals_loop (Suc n) pos valueComp h1 h2 =
     do { p \<leftarrow> uhash_nextElement pos h1; i \<leftarrow> p; els1 \<leftarrow> uh_elements h1; e1 \<leftarrow> rd els1 i;
          q \<leftarrow> uh_find (he_key e1) (uh_keyHasher h2 (he_key e1)) h2; j \<leftarrow> q; els2 \<leftarrow> uh_elements h2; e2 \<leftarrow> rd els2 j;
          if \<not> valueComp (he_value e1) (he_value e2) then Some False
          else equals_loop n (int i) valueComp h1 h2 }"

text \<open>Two different tables; \<open>sameComps\<close> says whether their comparator pointers are the same.\<close>

definition uhash_equals :: "bool \<Rightarrow> ('k, 'v) uhashtable \<Rightarrow> ('k, 'v) uhashtable \<Rightarrow> bool option" where
  "uhash_equals sameComps h1 h2 =
     (case uh_valueComparator h1 of
        None \<Rightarrow> Some False
      | Some valueComp \<Rightarrow>
          if \<not> sameComps then Some False
          else if uh_count h1 \<noteq> uh_count h2 then Some False
          else equals_loop (nat (uh_count h1)) (- 1) valueComp h1 h2)"

text \<open>Destruction: the tokens of the elements in use go to the deleters, key before value.\<close>

fun close_loop :: "('k::zero, 'v::zero) uhelement list \<Rightarrow> ('k, 'v) uhashtable \<Rightarrow> ('k, 'v) uhashtable" where
  "close_loop [] h = h"
| "close_loop (e # es) h =
     close_loop es (if vacant e then h else uh_deleteValue (he_value e) (uh_deleteKey (he_key e) h))"

definition uhash_close :: "('k::zero, 'v::zero) uhashtable \<Rightarrow> ('k, 'v) uhashtable option" where
  "uhash_close h =
     (case uh_elements h of None \<Rightarrow> Some h
      | Some els \<Rightarrow>
          do { h \<leftarrow> (if uh_keyDeleter h \<or> uh_valueDeleter h
                     then if length els = nat (uh_length h) then Some (close_loop els h) else None
                     else Some h);
               Some (h\<lparr>uh_elements := None\<rparr>) })"

end
