(* ===== verification/UHashFind.thy ===== *)
theory UHashFind
  imports UHash
begin

text \<open>
  The search of a hash table. The slots a hash code is looked up in are listed in \<open>order\<close>: since the
  length is prime, every slot comes exactly once, and the search is a walk along this list (\<open>scan\<close>). What a
  search finds is stated once for any list of slots.
\<close>

unbundle bit_operations_syntax

section \<open>The order of the slots\<close>

definition slot :: "int \<Rightarrow> int \<Rightarrow> nat \<Rightarrow> int" where
  "slot len hashcode n = ((hashcode XOR 67108864) mod len + int n * (hashcode mod (len - 1) + 1)) mod len"

definition order :: "int \<Rightarrow> int \<Rightarrow> nat list" where
  "order len hashcode = map (\<lambda>n. nat (slot len hashcode n)) [0..<nat len]"

lemma slot_range: "1 < len \<Longrightarrow> 0 \<le> slot len hc n \<and> slot len hc n < len"
  by (simp add: slot_def)

lemma slot_next: "slot len hc (Suc n) = (slot len hc n + (hc mod (len - 1) + 1)) mod len"
proof -
  have "int (Suc n) * j = int n * j + j" for j by (simp add: algebra_simps)
  then show ?thesis by (simp only: slot_def mod_add_left_eq add.assoc)
qed

lemma jump_range: "1 < len \<Longrightarrow> 0 < hc mod (len - 1) + 1 \<and> hc mod (len - 1) + 1 < (len :: int)"
proof -
  assume "1 < len"
  then have "0 \<le> hc mod (len - 1)" "hc mod (len - 1) < len - 1" by (intro pos_mod_sign pos_mod_bound; simp)+
  then show ?thesis by linarith
qed

lemma slot_zero: "1 < len \<Longrightarrow> slot len hc 0 = (hc XOR 67108864) mod len"
  by (simp add: slot_def)

lemma slot_len: "1 < len \<Longrightarrow> slot len hc (nat len) = slot len hc 0"
  by (simp add: slot_def)

lemma slot_inj:
  assumes "is_prime len" "m < nat len" "n < nat len" "slot len hc m = slot len hc n"
  shows "m = n"
proof -
  let ?j = "hc mod (len - 1) + 1"
  have len: "1 < len" using assms(1) by (simp add: is_prime_def)
  have j: "0 < ?j" "?j < len" using jump_range [OF len, of hc] by blast+
  have "len dvd (int m - int n) * ?j"
    using assms(4) by (simp add: slot_def mod_eq_dvd_iff algebra_simps)
  moreover have "\<not> len dvd ?j" using j zdvd_imp_le by fastforce
  ultimately have d: "len dvd int m - int n" using prime_dvd_mult [OF assms(1)] by blast
  have "\<bar>int m - int n\<bar> < len" using assms(2,3) by linarith
  then have "int m - int n = 0" using d by (metis dvd_imp_le_int not_less zdvd_not_zless abs_of_nonneg zero_less_abs_iff abs_dvd_iff dvd_abs_iff)
  then show ?thesis by simp
qed

lemma order_slots:
  assumes "is_prime len"
  shows "distinct (order len hc)" "set (order len hc) = {..<nat len}" "length (order len hc) = nat len"
proof -
  have len: "1 < len" using assms by (simp add: is_prime_def)
  have inj: "inj_on (\<lambda>n. nat (slot len hc n)) {..<nat len}"
  proof (rule inj_onI)
    fix m n assume "m \<in> {..<nat len}" "n \<in> {..<nat len}" "nat (slot len hc m) = nat (slot len hc n)"
    then show "m = n" using slot_inj [OF assms] slot_range [OF len] by (metis lessThan_iff nat_eq_iff2 int_nat_eq)
  qed
  then show "distinct (order len hc)" by (simp add: order_def distinct_map atLeast0LessThan)
  have "(\<lambda>n. nat (slot len hc n)) ` {..<nat len} \<subseteq> {..<nat len}" using slot_range [OF len] by auto
  then have "(\<lambda>n. nat (slot len hc n)) ` {..<nat len} = {..<nat len}" using inj by (simp add: endo_inj_surj)
  then show "set (order len hc) = {..<nat len}" by (simp add: order_def atLeast0LessThan)
  show "length (order len hc) = nat len" by (simp add: order_def)
qed

section \<open>The search as a walk\<close>

fun scan :: "('k, 'v) uhelement list \<Rightarrow> ('k \<Rightarrow> 'k \<Rightarrow> bool) \<Rightarrow> 'k \<Rightarrow> int \<Rightarrow> nat option \<Rightarrow> nat list \<Rightarrow> nat option" where
  "scan els cmp key hc d [] = d"
| "scan els cmp key hc d (i # is) =
     (if he_hashcode (els ! i) = hc \<and> cmp key (he_key (els ! i)) then Some i
      else if he_hashcode (els ! i) = HASH_EMPTY then Some (case d of None \<Rightarrow> i | Some k \<Rightarrow> k)
      else scan els cmp key hc (if vacant (els ! i) \<and> d = None then Some i else d) is)"

lemma uh_probe_scan:
  assumes "is_prime len" "len \<le> 1073741824" "length els = nat len" "n < nat len"
  shows "uh_probe els cmp key hc len (hc mod (len - 1) + 1) (slot len hc 0) (slot len hc n) d =
    Some (scan els cmp key hc d (map (\<lambda>n. nat (slot len hc n)) [n..<nat len]))"
  using assms(4)
proof (induction "nat len - n" arbitrary: n d rule: less_induct)
  case less
  have len: "1 < len" using assms(1) by (simp add: is_prime_def)
  let ?j = "hc mod (len - 1) + 1" and ?i = "nat (slot len hc n)"
  have j: "?j < len" using jump_range [OF len, of hc] by blast
  note r = slot_range [OF len, of hc n]
  have i: "?i < length els" using r assms(3) by simp
  have fits: "\<not> slot len hc n + ?j > INT32_MAX" using r j assms(2) by linarith
  have list: "map (\<lambda>n. nat (slot len hc n)) [n..<nat len] = ?i # map (\<lambda>n. nat (slot len hc n)) [Suc n..<nat len]"
    using less.prems by (simp add: upt_conv_Cons)
  let ?d = "if vacant (els ! ?i) \<and> d = None then Some ?i else d"
  have more: "(if slot len hc (Suc n) \<noteq> slot len hc 0
      then uh_probe els cmp key hc len ?j (slot len hc 0) (slot len hc (Suc n)) ?d else Some ?d) =
    Some (scan els cmp key hc ?d (map (\<lambda>n. nat (slot len hc n)) [Suc n..<nat len]))"
  proof (cases "Suc n < nat len")
    case True
    then have "slot len hc (Suc n) \<noteq> slot len hc 0" using slot_inj [OF assms(1) True, of 0 hc] len by auto
    with less.hyps [of "Suc n" ?d] True show ?thesis by simp
  next
    case False
    then have "Suc n = nat len" using less.prems by simp
    then show ?thesis using slot_len [OF len, of hc] by simp
  qed
  show ?case
  proof (cases "he_hashcode (els ! ?i) = hc \<and> cmp key (he_key (els ! ?i))")
    case True
    with i show ?thesis unfolding list by (simp add: uh_probe.simps [of els])
  next
    case no: False
    show ?thesis
    proof (cases "he_hashcode (els ! ?i) = HASH_EMPTY")
      case True
      with no i show ?thesis unfolding list by (auto simp: uh_probe.simps [of els] split: option.split)
    next
      case False
      have "uh_probe els cmp key hc len ?j (slot len hc 0) (slot len hc n) d =
        (if slot len hc (Suc n) \<noteq> slot len hc 0
         then uh_probe els cmp key hc len ?j (slot len hc 0) (slot len hc (Suc n)) ?d else Some ?d)"
        using no False i fits slot_next [of len hc n]
        by (subst uh_probe.simps) (simp only: rd_in bind.bind_lunit if_False Let_def)
      moreover have "scan els cmp key hc d (?i # js) = scan els cmp key hc ?d js" for js
        by (simp only: scan.simps if_not_P [OF no] if_not_P [OF False])
      ultimately show ?thesis using more unfolding list by (simp only:)
    qed
  qed
qed

text \<open>Of the table, the search needs the array and its length.\<close>

lemma uh_find_scan:
  assumes "uh_elements h = Some els" "is_prime (uh_length h)" "uh_length h \<le> 1073741824" "length els = nat (uh_length h)"
  shows "uh_find key hashcode h =
    Some (scan els (uh_keyComparator h) key (positive hashcode) None (order (uh_length h) (positive hashcode)))"
proof -
  have len: "1 < uh_length h" using assms(2) by (simp add: is_prime_def)
  then show ?thesis
    using uh_probe_scan [OF assms(2-4), of 0] assms(1)
    by (simp add: uh_find_def order_def slot_zero [OF len, symmetric] Let_def)
qed

section \<open>What a walk finds\<close>

definition before :: "nat \<Rightarrow> nat list \<Rightarrow> nat list" where
  "before i is = takeWhile (\<lambda>j. j \<noteq> i) is"

lemma before_simps [simp]: "before i [] = []" "before i (j # is) = (if j = i then [] else j # before i is)"
  by (simp_all add: before_def)

definition matches_key :: "('k, 'v) uhelement list \<Rightarrow> ('k \<Rightarrow> 'k \<Rightarrow> bool) \<Rightarrow> 'k \<Rightarrow> int \<Rightarrow> nat \<Rightarrow> bool" where
  "matches_key els cmp key hc i \<longleftrightarrow> he_hashcode (els ! i) = hc \<and> cmp key (he_key (els ! i))"

lemma scan_present:
  assumes "i \<in> set is" "matches_key els cmp key hc i"
    "\<And>j. j \<in> set (before i is) \<Longrightarrow> he_hashcode (els ! j) \<noteq> HASH_EMPTY \<and> \<not> matches_key els cmp key hc j"
  shows "scan els cmp key hc d is = Some i"
  using assms
proof (induction "is" arbitrary: d)
  case (Cons j js)
  then show ?case by (cases "j = i") (auto simp: matches_key_def)
qed simp

lemma scan_absent:
  assumes "\<And>j. j \<in> set is \<Longrightarrow> \<not> matches_key els cmp key hc j"
  shows "d = Some k \<Longrightarrow> scan els cmp key hc d is = Some k"
    "d = None \<Longrightarrow> \<exists>j \<in> set is. vacant (els ! j) \<Longrightarrow>
      \<exists>k \<in> set is. scan els cmp key hc d is = Some k \<and> vacant (els ! k) \<and>
        (\<forall>j \<in> set (before k is). he_hashcode (els ! j) \<noteq> HASH_EMPTY)"
proof -
  have some: "scan els cmp key hc (Some k) js = Some k" if "\<And>j. j \<in> set js \<Longrightarrow> \<not> matches_key els cmp key hc j" for js k
    using that by (induction js) (auto simp: matches_key_def)
  show "d = Some k \<Longrightarrow> scan els cmp key hc d is = Some k" using some [of "is" k] assms by simp
  show "\<exists>k \<in> set is. scan els cmp key hc d is = Some k \<and> vacant (els ! k) \<and>
        (\<forall>j \<in> set (before k is). he_hashcode (els ! j) \<noteq> HASH_EMPTY)"
    if "d = None" "\<exists>j \<in> set is. vacant (els ! j)"
    using assms that
  proof (induction "is")
    case (Cons i js)
    have no: "\<not> (he_hashcode (els ! i) = hc \<and> cmp key (he_key (els ! i)))"
      using Cons.prems(1) [of i] by (simp add: matches_key_def)
    show ?case
    proof (cases "vacant (els ! i)")
      case True
      with no some [of js i] Cons.prems(1,2) show ?thesis by auto
    next
      case False
      then have "he_hashcode (els ! i) \<noteq> HASH_EMPTY" by (auto simp: vacant_def HASH_EMPTY_def)
      with Cons no False show ?thesis by auto
    qed
  qed simp
qed

end
