(* ===== verification/UHashSpec.thy ===== *)
theory UHashSpec
  imports UHashFind
begin

text \<open>
  The table as a map. \<open>key_contract\<close> is what the code relies on of its two functions: the
  comparator is an equivalence, and equal keys have equal hash codes. \<open>els_ok\<close> is the invariant of the
  slots: each element can be reached from the start of its search without passing an empty slot, and no two elements
  have equal keys. Under the contract a search finds the element of a key or the slot to put it, and the changes of one
  slot are changes of the map \<open>uh_lookup\<close> from keys to elements.
\<close>

unbundle bit_operations_syntax

locale key_contract =
  fixes hasher :: "'k::zero \<Rightarrow> int" and cmp :: "'k \<Rightarrow> 'k \<Rightarrow> bool"
  assumes cmp_refl: "cmp k k"
    and cmp_sym: "cmp k l \<Longrightarrow> cmp l k"
    and cmp_trans: "cmp k l \<Longrightarrow> cmp l m \<Longrightarrow> cmp k m"
    and cmp_hash: "cmp k l \<Longrightarrow> positive (hasher k) = positive (hasher l)"

section \<open>The slots\<close>

definition uh_lookup :: "('k \<Rightarrow> 'k \<Rightarrow> bool) \<Rightarrow> ('k, 'v) uhelement list \<Rightarrow> 'k \<Rightarrow> ('k, 'v) uhelement option" where
  "uh_lookup cmp els k = List.find (\<lambda>e. \<not> vacant e \<and> cmp k (he_key e)) els"

definition used :: "('k, 'v) uhelement list \<Rightarrow> nat" where
  "used els = length (filter (\<lambda>e. \<not> vacant e) els)"

definition open_path :: "('k, 'v) uhelement list \<Rightarrow> int \<Rightarrow> int \<Rightarrow> nat \<Rightarrow> bool" where
  "open_path els len hc i \<longleftrightarrow> (\<forall>j \<in> set (before i (order len hc)). he_hashcode (els ! j) \<noteq> HASH_EMPTY)"

definition els_ok :: "('k::zero \<Rightarrow> int) \<Rightarrow> ('k \<Rightarrow> 'k \<Rightarrow> bool) \<Rightarrow> int \<Rightarrow> ('k, 'v::zero) uhelement list \<Rightarrow> bool" where
  "els_ok hasher cmp len els \<longleftrightarrow> length els = nat len \<and>
     (\<forall>i < length els. vacant (els ! i) \<longrightarrow> he_value (els ! i) = 0 \<and> he_key (els ! i) = 0) \<and>
     (\<forall>i < length els. \<not> vacant (els ! i) \<longrightarrow> he_hashcode (els ! i) = positive (hasher (he_key (els ! i))) \<and>
        open_path els len (he_hashcode (els ! i)) i) \<and>
     (\<forall>i < length els. \<forall>j < length els. \<not> vacant (els ! i) \<longrightarrow> \<not> vacant (els ! j) \<longrightarrow>
        cmp (he_key (els ! i)) (he_key (els ! j)) \<longrightarrow> i = j)"

lemma positive_range: "0 \<le> positive hc" "positive (positive hc) = positive hc"
  by (simp_all add: positive_def and.assoc)

lemma used_update:
  assumes "i < length els"
  shows "used (els[i := e]) + (if vacant (els ! i) then 0 else 1) = used els + (if vacant e then 0 else 1)"
  using assms
proof (induction els arbitrary: i)
  case (Cons x xs)
  show ?case
  proof (cases i)
    case (Suc n)
    with Cons.IH [of n] Cons.prems show ?thesis by (cases "vacant x") (auto simp: used_def)
  qed (simp add: used_def)
qed simp

lemma used_less: "used els < length els \<longleftrightarrow> (\<exists>i < length els. vacant (els ! i))"
proof -
  have "used els < length els \<longleftrightarrow> \<not> (\<forall>e \<in> set els. \<not> vacant e)"
    unfolding used_def by (metis filter_True length_filter_less linorder_neq_iff)
  then show ?thesis by (auto simp: all_set_conv_all_nth)
qed

lemma used_empty [simp]: "used (replicate n empty_element) = 0"
  by (simp add: used_def vacant_def empty_element_def HASH_EMPTY_def)

lemma lookup_empty [simp]: "uh_lookup cmp (replicate n empty_element) k = None"
  by (induction n) (simp_all add: uh_lookup_def vacant_def empty_element_def HASH_EMPTY_def)

lemma els_ok_empty: "n = nat len \<Longrightarrow> els_ok hasher cmp len (replicate n empty_element)"
  by (simp add: els_ok_def vacant_def empty_element_def HASH_EMPTY_def)

lemma before_distinct: "distinct is \<Longrightarrow> i \<in> set is \<Longrightarrow> i \<notin> set (before i is)"
  by (induction "is") auto

lemma before_subset: "set (before i is) \<subseteq> set is"
  by (auto simp: before_def dest: set_takeWhileD)

lemma lookup_Some:
  assumes "els_ok hasher cmp len els" "i < length els" "\<not> vacant (els ! i)" "cmp k (he_key (els ! i))"
    "\<And>j. j < length els \<Longrightarrow> \<not> vacant (els ! j) \<Longrightarrow> cmp k (he_key (els ! j)) \<Longrightarrow> j = i"
  shows "uh_lookup cmp els k = Some (els ! i)"
proof -
  let ?P = "\<lambda>e. \<not> vacant e \<and> cmp k (he_key e)"
  have "List.find ?P els = Some (els ! i)"
    unfolding find_Some_iff
  proof (intro exI conjI allI impI)
    show "\<not> ?P (els ! j)" if "j < i" for j using that assms(2) assms(5) [of j] by auto
  qed (use assms(2-4) in auto)
  then show ?thesis by (simp add: uh_lookup_def)
qed

lemma lookup_None: "uh_lookup cmp els k = None \<longleftrightarrow> (\<forall>i < length els. \<not> vacant (els ! i) \<longrightarrow> \<not> cmp k (he_key (els ! i)))"
  by (auto simp: uh_lookup_def find_None_iff all_set_conv_all_nth in_set_conv_nth)

section \<open>Under the contract\<close>

context key_contract
begin

lemma same_keys:
  assumes "els_ok hasher cmp len els" "i < length els" "j < length els" "\<not> vacant (els ! i)" "\<not> vacant (els ! j)"
    "cmp k (he_key (els ! i))" "cmp k (he_key (els ! j))"
  shows "i = j"
proof -
  have "cmp (he_key (els ! i)) (he_key (els ! j))" using cmp_trans [OF cmp_sym [OF assms(6)] assms(7)] .
  with assms(1-5) show ?thesis by (auto simp: els_ok_def)
qed

lemma lookup_here:
  assumes "els_ok hasher cmp len els" "i < length els" "\<not> vacant (els ! i)" "cmp k (he_key (els ! i))"
  shows "uh_lookup cmp els k = Some (els ! i)"
  using lookup_Some [OF assms] same_keys [OF assms(1) _ assms(2) _ assms(3) _ assms(4)] by blast

lemma find_spec:
  assumes "uh_elements h = Some els" "uh_keyHasher h = hasher" "uh_keyComparator h = cmp" "is_prime (uh_length h)"
    "uh_length h \<le> 1073741824" "els_ok hasher cmp (uh_length h) els" "used els < length els"
    "positive hc = positive (hasher key)"
  obtains (present) i where "uh_find key hc h = Some (Some i)" "i < length els" "\<not> vacant (els ! i)" "cmp key (he_key (els ! i))"
  | (absent) i where "uh_find key hc h = Some (Some i)" "i < length els" "vacant (els ! i)"
      "open_path els (uh_length h) (positive (hasher key)) i" "uh_lookup cmp els key = None"
proof -
  let ?hc = "positive (hasher key)" and ?len = "uh_length h"
  let ?is = "order ?len ?hc"
  have len: "length els = nat ?len" using assms(6) by (simp add: els_ok_def)
  note slots = order_slots [OF assms(4), of ?hc]
  have f: "uh_find key hc h = Some (scan els cmp key ?hc None ?is)"
    using uh_find_scan [OF assms(1,4,5) len] assms(3,8) by simp
  have mk: "matches_key els cmp key ?hc i \<Longrightarrow> \<not> vacant (els ! i) \<and> cmp key (he_key (els ! i))" for i
    using positive_range(1) [of "hasher key"] by (simp add: matches_key_def vacant_def)
  show thesis
  proof (cases "\<exists>i < length els. \<not> vacant (els ! i) \<and> cmp key (he_key (els ! i))")
    case True
    then obtain i where i: "i < length els" "\<not> vacant (els ! i)" "cmp key (he_key (els ! i))" by blast
    have ok: "he_hashcode (els ! i) = positive (hasher (he_key (els ! i)))" "open_path els ?len (he_hashcode (els ! i)) i"
      using assms(6) i(1,2) by (auto simp: els_ok_def)
    then have hc: "he_hashcode (els ! i) = ?hc" using cmp_hash [OF i(3)] by simp
    have mem: "i \<in> set ?is" using i(1) len slots(2) by simp
    have "scan els cmp key ?hc None ?is = Some i"
    proof (rule scan_present [OF mem])
      show "matches_key els cmp key ?hc i" using hc i(3) by (simp add: matches_key_def)
      fix j assume j: "j \<in> set (before i ?is)"
      then have "j \<noteq> i" "j \<in> set ?is" using before_distinct [OF slots(1) mem] before_subset by auto
      then have "j < length els" using slots(2) len by simp
      then have "\<not> matches_key els cmp key ?hc j"
        using mk [of j] same_keys [OF assms(6) _ i(1) _ i(2) _ i(3)] \<open>j \<noteq> i\<close> by blast
      moreover have "he_hashcode (els ! j) \<noteq> HASH_EMPTY" using ok(2) j hc by (simp add: open_path_def)
      ultimately show "he_hashcode (els ! j) \<noteq> HASH_EMPTY \<and> \<not> matches_key els cmp key ?hc j" by blast
    qed
    with f i show thesis by (intro present) auto
  next
    case False
    then have none: "uh_lookup cmp els key = None" unfolding lookup_None by blast
    have "\<not> matches_key els cmp key ?hc j" if "j \<in> set ?is" for j using mk [of j] False that slots(2) len by auto
    moreover have "\<exists>j \<in> set ?is. vacant (els ! j)" using assms(7) unfolding used_less slots(2) by (simp add: len Bex_def)
    ultimately obtain k where "k \<in> set ?is" "scan els cmp key ?hc None ?is = Some k" "vacant (els ! k)"
      "\<forall>j \<in> set (before k ?is). he_hashcode (els ! j) \<noteq> HASH_EMPTY"
      using scan_absent(2) [of ?is els cmp key ?hc None] by blast
    with f none slots(2) len show thesis by (intro absent [of k]) (auto simp: open_path_def)
  qed
qed

text \<open>A slot gets an element with a key that no other slot has.\<close>

lemma set_slot:
  assumes "els_ok hasher cmp len els" "i < length els" "\<not> vacant e" "he_hashcode e = positive (hasher (he_key e))"
    "open_path els len (he_hashcode e) i"
    "\<And>j. j < length els \<Longrightarrow> \<not> vacant (els ! j) \<Longrightarrow> cmp (he_key e) (he_key (els ! j)) \<Longrightarrow> j = i"
    "vacant (els ! i) \<or> cmp (he_key e) (he_key (els ! i))"
  shows "els_ok hasher cmp len (els[i := e])"
    "uh_lookup cmp (els[i := e]) k = (if cmp k (he_key e) then Some e else uh_lookup cmp els k)"
proof -
  let ?els = "els[i := e]"
  have ne: "he_hashcode e \<noteq> HASH_EMPTY" using assms(3) by (auto simp: vacant_def HASH_EMPTY_def)
  have path: "open_path ?els len hc j" if "open_path els len hc j" for hc j
    using that ne assms(2) unfolding open_path_def by (metis nth_list_update)
  have other: "cmp (he_key (els ! j)) (he_key e) \<Longrightarrow> j < length els \<Longrightarrow> \<not> vacant (els ! j) \<Longrightarrow> j = i" for j
    using assms(6) cmp_sym by blast
  have at: "?els ! j = (if j = i then e else els ! j)" if "j < length els" for j using that assms(2) by simp
  show ok: "els_ok hasher cmp len ?els"
    unfolding els_ok_def length_list_update
  proof (intro conjI allI impI)
    show "length els = nat len" using assms(1) by (simp add: els_ok_def)
    fix j assume j: "j < length els"
    show "he_value (?els ! j) = 0" "he_key (?els ! j) = 0" if "vacant (?els ! j)"
      using that j assms(1,3) at [OF j] by (auto simp: els_ok_def split: if_splits)
    show "he_hashcode (?els ! j) = positive (hasher (he_key (?els ! j)))" if "\<not> vacant (?els ! j)"
      using that j assms(1,4) at [OF j] by (auto simp: els_ok_def split: if_splits)
    show "open_path ?els len (he_hashcode (?els ! j)) j" if "\<not> vacant (?els ! j)"
      using that j assms(1,5) at [OF j] path by (auto simp: els_ok_def split: if_splits)
    fix l assume l: "l < length els" "\<not> vacant (?els ! j)" "\<not> vacant (?els ! l)" "cmp (he_key (?els ! j)) (he_key (?els ! l))"
    show "j = l"
    proof (cases "j = i")
      case True
      with l at [OF j] at [OF l(1)] assms(6) show ?thesis by (cases "l = i") auto
    next
      case False
      with j l at [OF j] at [OF l(1)] other assms(1) show ?thesis by (cases "l = i") (auto simp: els_ok_def)
    qed
  qed
  show "uh_lookup cmp ?els k = (if cmp k (he_key e) then Some e else uh_lookup cmp els k)"
  proof (cases "cmp k (he_key e)")
    case True
    then show ?thesis using lookup_here [OF ok, of i k] assms(2,3) at [OF assms(2)] by simp
  next
    case False
    show ?thesis
    proof (cases "uh_lookup cmp els k")
      case None
      then have "uh_lookup cmp ?els k = None" unfolding lookup_None using False by (auto simp: nth_list_update assms(2) split: if_splits)
      with False None show ?thesis by simp
    next
      case (Some v)
      then have "uh_lookup cmp els k \<noteq> None" by simp
      then obtain j where j: "j < length els" "\<not> vacant (els ! j)" "cmp k (he_key (els ! j))" unfolding lookup_None by blast
      have "j \<noteq> i"
      proof
        assume "j = i"
        with j(2) assms(7) have "cmp (he_key e) (he_key (els ! j))" by simp
        from cmp_trans [OF j(3) cmp_sym [OF this]] False show False by simp
      qed
      with j at [OF j(1)] have "uh_lookup cmp ?els k = Some (els ! j)"
        using lookup_here [OF ok, of j k] by simp
      with lookup_here [OF assms(1) j] False show ?thesis by simp
    qed
  qed
qed

text \<open>A slot becomes deleted.\<close>

lemma delete_slot:
  assumes "els_ok hasher cmp len els" "i < length els" "\<not> vacant (els ! i)" "he_hashcode e = HASH_DELETED" "he_value e = 0" "he_key e = 0"
  shows "els_ok hasher cmp len (els[i := e])"
    "uh_lookup cmp (els[i := e]) k = (if cmp k (he_key (els ! i)) then None else uh_lookup cmp els k)"
proof -
  let ?els = "els[i := e]"
  have v: "vacant e" "he_hashcode e \<noteq> HASH_EMPTY" using assms(4) by (simp_all add: vacant_def HASH_DELETED_def HASH_EMPTY_def)
  have path: "open_path ?els len hc j" if "open_path els len hc j" for hc j
    using that v(2) assms(2) unfolding open_path_def by (metis nth_list_update)
  have at: "?els ! j = (if j = i then e else els ! j)" if "j < length els" for j using that assms(2) by simp
  show ok: "els_ok hasher cmp len ?els"
    unfolding els_ok_def length_list_update
  proof (intro conjI allI impI)
    show "length els = nat len" using assms(1) by (simp add: els_ok_def)
    fix j assume j: "j < length els"
    show "he_value (?els ! j) = 0" "he_key (?els ! j) = 0" if "vacant (?els ! j)"
      using that j assms(1,5,6) at [OF j] by (auto simp: els_ok_def split: if_splits)
    show "he_hashcode (?els ! j) = positive (hasher (he_key (?els ! j)))" if "\<not> vacant (?els ! j)"
      using that j assms(1) v(1) at [OF j] by (auto simp: els_ok_def split: if_splits)
    show "open_path ?els len (he_hashcode (?els ! j)) j" if "\<not> vacant (?els ! j)"
      using that j assms(1) v(1) at [OF j] path by (auto simp: els_ok_def split: if_splits)
    fix l assume l: "l < length els" "\<not> vacant (?els ! j)" "\<not> vacant (?els ! l)" "cmp (he_key (?els ! j)) (he_key (?els ! l))"
    then show "j = l" using j at [OF j] at [OF l(1)] assms(1) v(1) by (auto simp: els_ok_def split: if_splits)
  qed
  show "uh_lookup cmp ?els k = (if cmp k (he_key (els ! i)) then None else uh_lookup cmp els k)"
  proof (cases "cmp k (he_key (els ! i))")
    case True
    then have "uh_lookup cmp ?els k = None"
      unfolding lookup_None using v(1) same_keys [OF assms(1) _ assms(2) _ assms(3) _ True] by (auto simp: nth_list_update assms(2) split: if_splits)
    with True show ?thesis by simp
  next
    case False
    show ?thesis
    proof (cases "uh_lookup cmp els k")
      case None
      then have "uh_lookup cmp ?els k = None" unfolding lookup_None using v(1) by (auto simp: nth_list_update assms(2) split: if_splits)
      with False None show ?thesis by simp
    next
      case (Some u)
      then have "uh_lookup cmp els k \<noteq> None" by simp
      then obtain j where j: "j < length els" "\<not> vacant (els ! j)" "cmp k (he_key (els ! j))" unfolding lookup_None by blast
      with False have "j \<noteq> i" by auto
      with j at [OF j(1)] have "uh_lookup cmp ?els k = Some (els ! j)"
        using lookup_here [OF ok, of j k] by simp
      with lookup_here [OF assms(1) j] False show ?thesis by simp
    qed
  qed
qed

end

end
