(* ===== verification/UHashMap.thy ===== *)
theory UHashMap
  imports UHashSpec
begin

text \<open>
  The invariant of a table and what its operations do to the map it stands for, \<open>uh_contents\<close>. A table
  has one of the first 27 lengths, and the prime index is that of its length or, after growing has failed, larger.
  \<open>uh_memory\<close> is what the operations rely on: there is no memory for the 28th length, for which the
  search would overflow, and a table that may shrink can have the array of the next smaller prime index, since a failure
  there would leave the prime index behind. A table that grows may fail to, at any time.
\<close>

definition uh_ok :: "('k::zero, 'v::zero) uhashtable \<Rightarrow> bool" where
  "uh_ok h \<longleftrightarrow>
     (case uh_elements h of None \<Rightarrow> False
      | Some els \<Rightarrow> els_ok (uh_keyHasher h) (uh_keyComparator h) (uh_length h) els \<and>
          uh_count h = int (used els) \<and> used els < length els) \<and>
     0 \<le> uh_primeIndex h \<and> uh_primeIndex h \<le> 27 \<and> uh_length h \<in> set (take (nat (uh_primeIndex h) + 1) (take 27 PRIMES)) \<and>
     (uh_lowWaterRatio h = 0 \<or> uh_lowWaterRatio h = 13421773) \<and>
     uh_lowWaterMark h = water_mark (uh_length h) (uh_lowWaterRatio h)"

definition uh_entry :: "('k, 'v) uhashtable \<Rightarrow> 'k \<Rightarrow> ('k, 'v) uhelement option" where
  "uh_entry h k = (case uh_elements h of None \<Rightarrow> None | Some els \<Rightarrow> uh_lookup (uh_keyComparator h) els k)"

definition uh_contents :: "('k, 'v) uhashtable \<Rightarrow> 'k \<Rightarrow> 'v option" where
  "uh_contents h k = map_option he_value (uh_entry h k)"

definition uh_memory :: "'x heap \<Rightarrow> ('k, 'v) uhashtable \<Rightarrow> bool" where
  "uh_memory hp h \<longleftrightarrow> \<not> uprv_malloc hp 51539607528 \<and>
     (uh_lowWaterRatio h = 0 \<or> uh_primeIndex h = 0 \<or> uprv_malloc hp (24 * PRIMES ! nat (uh_primeIndex h - 1)))"

text \<open>What an operation on the elements leaves as it is.\<close>

definition uh_setup where
  "uh_setup h = (uh_keyHasher h, uh_keyComparator h, uh_valueComparator h, uh_keyDeleter h, uh_valueDeleter h,
     uh_lowWaterRatio h, uh_highWaterRatio h, uh_allocated h)"

section \<open>Lengths\<close>

lemma PRIMES_len [simp]: "length PRIMES = 28"
  by (simp add: PRIMES_def)

lemma PRIMES_facts:
  "list_all (\<lambda>n. 13 \<le> n \<and> n \<le> 1073741789) (take 27 PRIMES)" "sorted_wrt (<) PRIMES" "PRIMES ! 27 = 2147483647"
  by (simp_all add: PRIMES_def)

lemma PRIMES_small: "i < 27 \<Longrightarrow> 13 \<le> PRIMES ! i \<and> PRIMES ! i \<le> 1073741789 \<and> is_prime (PRIMES ! i)"
  using PRIMES_facts(1) PRIMES_prime by (simp add: list_all_length)

lemma PRIMES_mono: "i < j \<Longrightarrow> j < 28 \<Longrightarrow> PRIMES ! i < PRIMES ! j"
  using PRIMES_facts(2) by (simp add: sorted_wrt_iff_nth_less)

lemma shrink_room: "list_all2 (\<lambda>n m. water_mark n 13421773 \<le> m) (tl PRIMES) (butlast PRIMES)"
  by code_simp

lemma low_mark_small: "0 < i \<Longrightarrow> i < 28 \<Longrightarrow> water_mark (PRIMES ! i) 13421773 \<le> PRIMES ! (i - 1)"
  using shrink_room by (auto simp: list_all2_conv_all_nth nth_tl nth_butlast dest: spec [of _ "i - 1"])

lemma uh_length_cases:
  assumes "uh_ok h"
  obtains k where "k < 27" "int k \<le> uh_primeIndex h" "uh_length h = PRIMES ! k"
proof -
  have "uh_length h \<in> set (take (nat (uh_primeIndex h) + 1) (take 27 PRIMES))" using assms by (simp add: uh_ok_def)
  then obtain k where k: "k < min (nat (uh_primeIndex h) + 1) 27" "uh_length h = PRIMES ! k"
    unfolding in_set_conv_nth by (metis PRIMES_len length_take min.assoc min_less_iff_conj nth_take)
  show thesis
  proof (rule that [of k])
    have "k < nat (uh_primeIndex h) + 1" using k(1) by (simp only: min_less_iff_conj)
    moreover have "0 \<le> uh_primeIndex h" using assms by (simp add: uh_ok_def)
    ultimately show "int k \<le> uh_primeIndex h" by linarith
  qed (use k in simp_all)
qed

lemma uh_okE:
  assumes "uh_ok h"
  obtains els where "uh_elements h = Some els" "els_ok (uh_keyHasher h) (uh_keyComparator h) (uh_length h) els"
    "uh_count h = int (used els)" "used els < length els" "is_prime (uh_length h)" "uh_length h \<le> 1073741824"
    "length els = nat (uh_length h)"
proof -
  obtain k where k: "k < 27" "uh_length h = PRIMES ! k" using uh_length_cases [OF assms] .
  obtain els where els: "uh_elements h = Some els" "els_ok (uh_keyHasher h) (uh_keyComparator h) (uh_length h) els"
    "uh_count h = int (used els)" "used els < length els"
    using assms by (auto simp: uh_ok_def split: option.splits)
  with that [OF els] PRIMES_small [OF k(1)] k(2) show thesis by (simp add: els_ok_def)
qed

section \<open>Rehashing\<close>

lemma lookup_Cons: "uh_lookup cmp (e # es) k = (if \<not> vacant e \<and> cmp k (he_key e) then Some e else uh_lookup cmp es k)"
  by (simp add: uh_lookup_def)

lemma used_Cons: "used (e # es) = (if vacant e then used es else Suc (used es))"
  by (simp add: used_def)

lemma lookup_later:
  assumes "els_ok hasher cmp len old" "i < length old" "\<not> vacant (old ! i)"
  shows "uh_lookup cmp (drop (Suc i) old) (he_key (old ! i)) = None"
  unfolding lookup_None
proof (intro allI impI notI)
  fix j assume j: "j < length (drop (Suc i) old)" "\<not> vacant (drop (Suc i) old ! j)"
    "cmp (he_key (old ! i)) (he_key (drop (Suc i) old ! j))"
  then have "i = Suc i + j" using assms by (auto simp: els_ok_def)
  then show False by simp
qed

context key_contract
begin

lemma find_absent:
  assumes "uh_elements h = Some els" "uh_keyHasher h = hasher" "uh_keyComparator h = cmp" "is_prime (uh_length h)"
    "uh_length h \<le> 1073741824" "els_ok hasher cmp (uh_length h) els" "used els < length els"
    "positive hc = positive (hasher key)" "uh_lookup cmp els key = None"
  shows "\<exists>i. uh_find key hc h = Some (Some i) \<and> i < length els \<and> vacant (els ! i) \<and>
    open_path els (uh_length h) (positive (hasher key)) i"
proof (rule find_spec [OF assms(1-8)])
  fix i assume "i < length els" "\<not> vacant (els ! i)" "cmp key (he_key (els ! i))"
  with lookup_here [OF assms(6)] assms(9) show ?thesis by simp
qed blast

lemma refill_spec:
  assumes "els_ok hasher cmp oldlen old" "i \<le> length old" "uh_keyHasher h = hasher" "uh_keyComparator h = cmp"
    "is_prime (uh_length h)" "uh_length h \<le> 1073741824"
    "uh_elements h = Some els" "els_ok hasher cmp (uh_length h) els" "uh_count h = int (used els)"
    "used els = used (drop i old)" "\<And>k. uh_lookup cmp els k = uh_lookup cmp (drop i old) k"
    "used old < length els"
  shows "\<exists>els'. uh_refill old i h = Some (h\<lparr>uh_elements := Some els', uh_count := int (used els')\<rparr>) \<and>
    els_ok hasher cmp (uh_length h) els' \<and> used els' = used old \<and> (\<forall>k. uh_lookup cmp els' k = uh_lookup cmp old k)"
  using assms(2-)
proof (induction i arbitrary: h els)
  case 0
  then show ?case by (intro exI [of _ els]) simp
next
  case (Suc i)
  let ?e = "old ! i"
  have i: "i < length old" using Suc.prems(1) by simp
  have drop: "drop i old = ?e # drop (Suc i) old" using i by (simp add: Cons_nth_drop_Suc)
  show ?case
  proof (cases "vacant ?e")
    case True
    then have "used (drop i old) = used (drop (Suc i) old)" "uh_lookup cmp (drop i old) k = uh_lookup cmp (drop (Suc i) old) k" for k
      unfolding drop by (simp_all add: used_Cons lookup_Cons)
    with Suc.IH [of h els] Suc.prems True i show ?thesis by simp
  next
    case False
    have hc: "he_hashcode ?e = positive (hasher (he_key ?e))" using assms(1) i False by (auto simp: els_ok_def)
    have room: "used els < length els"
      using Suc.prems(9,11) unfolding used_def by (metis append_take_drop_id filter_append le_add2 le_less_trans length_append)
    have none: "uh_lookup cmp els (he_key ?e) = None"
      using lookup_later [OF assms(1) i False] Suc.prems(10) by simp
    have pos: "positive (he_hashcode ?e) = positive (hasher (he_key ?e))" using hc positive_range(2) by simp
    obtain j where j: "uh_find (he_key ?e) (he_hashcode ?e) h = Some (Some j)" "j < length els" "vacant (els ! j)"
      "open_path els (uh_length h) (he_hashcode ?e) j"
      using find_absent [OF Suc.prems(6,2,3,4,5,7) room pos none] hc by metis
    have other: "\<And>j. j < length els \<Longrightarrow> \<not> vacant (els ! j) \<Longrightarrow> \<not> cmp (he_key ?e) (he_key (els ! j))"
      using none unfolding lookup_None by blast
    let ?els = "els[j := ?e]"
    let ?h = "h\<lparr>uh_elements := Some ?els, uh_count := uh_count h + 1\<rparr>"
    have set: "els_ok hasher cmp (uh_length h) ?els"
      "uh_lookup cmp ?els k = (if cmp k (he_key ?e) then Some ?e else uh_lookup cmp els k)" for k
      using set_slot [OF Suc.prems(7) j(2) False hc j(4)] other j(3) by blast+
    have used: "used ?els = Suc (used els)" using used_update [OF j(2), of ?e] j(3) False by simp
    have step: "uh_refill old (Suc i) h = uh_refill old i ?h"
      using i False j(1,2) Suc.prems(6) by simp
    have "\<exists>els'. uh_refill old i ?h = Some (?h\<lparr>uh_elements := Some els', uh_count := int (used els')\<rparr>) \<and>
      els_ok hasher cmp (uh_length ?h) els' \<and> used els' = used old \<and> (\<forall>k. uh_lookup cmp els' k = uh_lookup cmp old k)"
    proof (rule Suc.IH)
      show "used ?els = used (drop i old)" using used Suc.prems(9) False unfolding drop by (simp add: used_Cons)
      show "uh_lookup cmp ?els k = uh_lookup cmp (drop i old) k" for k
        using set(2) Suc.prems(10) False unfolding drop by (simp add: lookup_Cons)
    qed (use Suc.prems set(1) used i in simp_all)
    then show ?thesis unfolding step by simp
  qed
qed

end

section \<open>The invariant of the whole table\<close>

lemma uh_okI:
  assumes "uh_elements h = Some els" "els_ok (uh_keyHasher h) (uh_keyComparator h) (uh_length h) els"
    "uh_count h = int (used els)" "used els < length els" "k < 27" "int k \<le> uh_primeIndex h" "uh_primeIndex h \<le> 27"
    "uh_length h = PRIMES ! k" "uh_lowWaterRatio h = 0 \<or> uh_lowWaterRatio h = 13421773"
    "uh_lowWaterMark h = water_mark (uh_length h) (uh_lowWaterRatio h)"
  shows "uh_ok h"
proof -
  have "take 27 PRIMES ! k \<in> set (take (nat (uh_primeIndex h) + 1) (take 27 PRIMES))"
    unfolding in_set_conv_nth using assms(5,6) by (intro exI [of _ k]) auto
  then have "uh_length h \<in> set (take (nat (uh_primeIndex h) + 1) (take 27 PRIMES))" using assms(5,8) by simp
  then show ?thesis using assms by (simp add: uh_ok_def)
qed

definition uh_same :: "('k, 'v) uhashtable \<Rightarrow> ('k, 'v) uhashtable \<Rightarrow> bool" where
  "uh_same h h' \<longleftrightarrow> uh_setup h' = uh_setup h \<and> uh_deletedKeys h' = uh_deletedKeys h \<and>
     uh_deletedValues h' = uh_deletedValues h \<and> uh_count h' = uh_count h \<and> uh_entry h' = uh_entry h"

lemma uh_same_refl [simp]: "uh_same h h"
  by (simp add: uh_same_def)

lemma water_mark_0 [simp]: "water_mark n 0 = 0"
  by (simp add: water_mark_def round24_def)

lemma shrink_only:
  assumes "uh_ok h" "uh_count h < uh_lowWaterMark h"
  shows "uh_lowWaterRatio h = 13421773"
proof -
  have "0 \<le> uh_count h" using uh_okE [OF assms(1)] by (metis of_nat_0_le_iff)
  with assms show ?thesis by (auto simp: uh_ok_def)
qed

text \<open>The new length has room for the elements, and when it can be had it is one of the first 27.\<close>

lemma new_length:
  assumes "uh_ok h" "uh_memory hp h" "0 \<le> p" "p < 28" "uh_count h > uh_highWaterMark h \<or> uh_count h < uh_lowWaterMark h"
    "p = (if uh_count h > uh_highWaterMark h then uh_primeIndex h + 1 else uh_primeIndex h - 1)"
  shows "uh_count h < PRIMES ! nat p" "uprv_malloc hp (24 * PRIMES ! nat p) \<Longrightarrow> p < 27"
    "\<not> uprv_malloc hp (24 * PRIMES ! nat p) \<Longrightarrow> uh_primeIndex h \<le> p"
proof -
  obtain k where k: "k < 27" "int k \<le> uh_primeIndex h" "uh_length h = PRIMES ! k" using uh_length_cases [OF assms(1)] .
  have p: "uh_primeIndex h \<le> 27" using assms(1) by (simp add: uh_ok_def)
  obtain els where els: "uh_elements h = Some els" "els_ok (uh_keyHasher h) (uh_keyComparator h) (uh_length h) els"
    "uh_count h = int (used els)" "used els < length els" "is_prime (uh_length h)" "uh_length h \<le> 1073741824"
    "length els = nat (uh_length h)"
    using uh_okE [OF assms(1)] .
  have len: "uh_count h < PRIMES ! k" using els PRIMES_small [OF k(1)] k(3) by linarith
  have mono: "i \<le> nat p \<Longrightarrow> PRIMES ! i \<le> PRIMES ! nat p" for i
  proof -
    have "nat p < 28" using assms(3,4) by linarith
    then show "i \<le> nat p \<Longrightarrow> PRIMES ! i \<le> PRIMES ! nat p" using PRIMES_mono [of i "nat p"] by (cases "i = nat p") simp_all
  qed
  show "uh_count h < PRIMES ! nat p"
  proof (cases "uh_count h > uh_highWaterMark h")
    case True
    then have "k \<le> nat p" using assms(6) k(2) by simp
    with mono len show ?thesis by fastforce
  next
    case False
    then have low: "uh_count h < uh_lowWaterMark h" using assms(5) by simp
    have "uh_lowWaterMark h = water_mark (PRIMES ! k) 13421773"
      using assms(1) shrink_only [OF assms(1) low] k(3) by (simp add: uh_ok_def)
    with low low_mark_small [of k] k(1) have c: "0 < k \<Longrightarrow> uh_count h < PRIMES ! (k - 1)" by simp
    have "k - 1 \<le> nat p" using assms(6) False k(2) by simp
    then show ?thesis using c len mono [of "k - 1"] by (cases "k = 0") fastforce+
  qed
  show "p < 27" if "uprv_malloc hp (24 * PRIMES ! nat p)"
  proof (rule ccontr)
    assume "\<not> p < 27"
    then have "nat p = 27" using assms(4) by simp
    with that assms(2) PRIMES_facts(3) show False by (simp add: uh_memory_def)
  qed
  show "uh_primeIndex h \<le> p" if "\<not> uprv_malloc hp (24 * PRIMES ! nat p)"
  proof (cases "uh_count h > uh_highWaterMark h")
    case False
    then have low: "uh_count h < uh_lowWaterMark h" using assms(5) by simp
    have "uprv_malloc hp (24 * PRIMES ! nat p)"
      using assms(2,3,6) False shrink_only [OF assms(1) low] by (simp add: uh_memory_def)
    with that show ?thesis ..
  qed (use assms(6) in simp)
qed

lemma allocate_spec:
  assumes "\<not> U_FAILURE status" "0 \<le> p" "p < 28"
  shows "uh_allocate hp p h status =
    Some (if uprv_malloc hp (24 * PRIMES ! nat p)
      then (uh_setMarks (h\<lparr>uh_primeIndex := p, uh_length := PRIMES ! nat p,
              uh_elements := Some (replicate (nat (PRIMES ! nat p)) empty_element), uh_count := 0\<rparr>), status)
      else (h\<lparr>uh_primeIndex := p, uh_length := PRIMES ! nat p, uh_elements := None\<rparr>, U_MEMORY_ALLOCATION_ERROR))"
  using assms by (simp add: uh_allocate_def Let_def nat_less_iff)

context key_contract
begin

lemma rehash_spec:
  assumes "uh_ok h" "uh_keyHasher h = hasher" "uh_keyComparator h = cmp" "uh_memory hp h" "\<not> U_FAILURE status"
  shows "\<exists>h' status'. uh_rehash hp h status = Some (h', status') \<and> uh_ok h' \<and> uh_same h h' \<and>
    (status' = status \<or> status' = U_MEMORY_ALLOCATION_ERROR)"
proof -
  let ?out = "uh_count h > uh_highWaterMark h \<or> uh_count h < uh_lowWaterMark h"
  define p where "p = (if uh_count h > uh_highWaterMark h then uh_primeIndex h + 1 else uh_primeIndex h - 1)"
  let ?n = "PRIMES ! nat p"
  obtain els where els: "uh_elements h = Some els" "els_ok (uh_keyHasher h) (uh_keyComparator h) (uh_length h) els"
    "uh_count h = int (used els)" "used els < length els" "length els = nat (uh_length h)"
    using uh_okE [OF assms(1)] by metis
  obtain k where k: "k < 27" "int k \<le> uh_primeIndex h" "uh_length h = PRIMES ! k" using uh_length_cases [OF assms(1)] .
  show ?thesis
  proof (cases "?out \<and> 0 \<le> p \<and> p < 28")
    case False
    then have "uh_rehash hp h status = Some (h, status)" by (auto simp: uh_rehash_def Let_def p_def)
    with assms(1) show ?thesis by simp
  next
    case True
    then have range: "?out" "0 \<le> p" "p < 28" by blast+
    note new = new_length [OF assms(1,4) range(2,3,1) p_def]
    have unfold: "uh_rehash hp h status = do { (h', status') \<leftarrow> uh_allocate hp p h status;
      if U_FAILURE status' then Some (h'\<lparr>uh_elements := Some els, uh_length := uh_length h\<rparr>, status')
      else do { h' \<leftarrow> uh_refill els (nat (uh_length h)) h'; Some (h', status') } }"
      using range els(1) by (auto simp: uh_rehash_def Let_def p_def cong: if_cong)
    show ?thesis
    proof (cases "uprv_malloc hp (24 * ?n)")
      case False
      let ?h = "h\<lparr>uh_primeIndex := p, uh_elements := Some els\<rparr>"
      have "uh_rehash hp h status = Some (?h, U_MEMORY_ALLOCATION_ERROR)"
        unfolding unfold allocate_spec [OF assms(5) range(2,3)] using False by simp
      moreover have "uh_ok ?h"
        by (rule uh_okI [of _ els k]) (use els k new(3) [OF False] range(3) assms(1) in \<open>auto simp: uh_ok_def\<close>)
      moreover have "uh_same h ?h" using els(1) by (simp add: uh_same_def uh_setup_def uh_entry_def fun_eq_iff)
      ultimately show ?thesis by blast
    next
      case ok: True
      have p: "nat p < 27" using new(2) [OF ok] range(2) by simp
      let ?e = "replicate (nat ?n) empty_element"
      define h1 where "h1 = uh_setMarks (h\<lparr>uh_primeIndex := p, uh_length := ?n, uh_elements := Some ?e, uh_count := 0\<rparr>)"
      have h1: "uh_length h1 = ?n" "uh_elements h1 = Some ?e" "uh_count h1 = 0" "uh_keyHasher h1 = hasher"
        "uh_keyComparator h1 = cmp" "uh_primeIndex h1 = p" "uh_lowWaterRatio h1 = uh_lowWaterRatio h"
        "uh_lowWaterMark h1 = water_mark ?n (uh_lowWaterRatio h)" "uh_setup h1 = uh_setup h"
        "uh_deletedKeys h1 = uh_deletedKeys h" "uh_deletedValues h1 = uh_deletedValues h"
        using assms(2,3) by (simp_all add: h1_def uh_setMarks_def uh_setup_def)
      have "\<exists>els'. uh_refill els (length els) h1 = Some (h1\<lparr>uh_elements := Some els', uh_count := int (used els')\<rparr>) \<and>
        els_ok hasher cmp (uh_length h1) els' \<and> used els' = used els \<and> (\<forall>k. uh_lookup cmp els' k = uh_lookup cmp els k)"
      proof (rule refill_spec [of "uh_length h" els "length els" h1 ?e])
        show "els_ok hasher cmp (uh_length h) els" using els(2) assms(2,3) by simp
        show "is_prime (uh_length h1)" "uh_length h1 \<le> 1073741824" using PRIMES_small [OF p] h1(1) by simp_all
        show "els_ok hasher cmp (uh_length h1) ?e" using h1(1) by (simp add: els_ok_empty)
        show "used els < length ?e" using new(1) els(3) by simp
        show "used ?e = used (drop (length els) els)" "uh_lookup cmp ?e k = uh_lookup cmp (drop (length els) els) k" for k
          by (simp_all add: used_def [of "[]"] uh_lookup_def [of cmp "[]"])
      qed (use h1 in simp_all)
      then obtain els' where els': "uh_refill els (length els) h1 = Some (h1\<lparr>uh_elements := Some els', uh_count := int (used els')\<rparr>)"
        "els_ok hasher cmp ?n els'" "used els' = used els" "\<And>k. uh_lookup cmp els' k = uh_lookup cmp els k"
        using h1(1) by metis
      let ?h = "h1\<lparr>uh_elements := Some els', uh_count := int (used els')\<rparr>"
      have "uh_rehash hp h status = Some (?h, status)"
        unfolding unfold allocate_spec [OF assms(5) range(2,3)] using ok els'(1) els(5) assms(5) by (simp add: h1_def)
      moreover have "uh_ok ?h"
      proof (rule uh_okI [of _ els' "nat p"])
        show "used els' < length els'" using els'(2,3) new(1) els(3) by (simp add: els_ok_def)
        show "uh_lowWaterRatio ?h = 0 \<or> uh_lowWaterRatio ?h = 13421773" using h1(7) assms(1) by (simp add: uh_ok_def)
      qed (use els'(2) h1 p range(2) in simp_all)
      moreover have "uh_same h ?h"
        using els'(3,4) els(1,3) h1 assms(3) by (auto simp: uh_same_def uh_setup_def uh_entry_def)
      ultimately show ?thesis by blast
    qed
  qed
qed

end

end
