(* ===== verification/UHashOps.thy ===== *)
theory UHashOps
  imports UHashMap
begin

text \<open>
  What the operations of a table do to its contents and which tokens they hand to the deleters, under the contract
  of its two functions.
\<close>

section \<open>Changing one slot\<close>

definition if_owned :: "bool \<Rightarrow> 'a::zero \<Rightarrow> 'a list" where
  "if_owned deleter x = (if deleter \<and> x \<noteq> 0 then [x] else [])"

definition displaced :: "bool \<Rightarrow> 'a::zero \<Rightarrow> 'a \<Rightarrow> 'a list" where
  "displaced deleter old new = (if old \<noteq> new then if_owned deleter old else [])"

lemma displaced_simps [simp]: "displaced d 0 x = []" "displaced d x x = []" "displaced False x y = []" "if_owned d 0 = []"
  "if_owned False x = []"
  by (simp_all add: displaced_def if_owned_def)

lemma displaced_zero: "displaced d x 0 = if_owned d x"
  by (simp add: displaced_def if_owned_def)

lemma deleteKey_eq: "uh_deleteKey k h = h\<lparr>uh_deletedKeys := uh_deletedKeys h @ if_owned (uh_keyDeleter h) k\<rparr>"
  by (simp add: uh_deleteKey_def if_owned_def)

lemma deleteValue_eq: "uh_deleteValue v h = h\<lparr>uh_deletedValues := uh_deletedValues h @ if_owned (uh_valueDeleter h) v\<rparr>"
  by (simp add: uh_deleteValue_def if_owned_def)

lemma setElement_eq:
  assumes "uh_elements h = Some els" "i < length els"
  shows "uh_setElement i hc key value h =
    Some (h\<lparr>uh_elements := Some (els[i := \<lparr>he_hashcode = hc, he_value = value, he_key = key\<rparr>]),
        uh_deletedKeys := uh_deletedKeys h @ displaced (uh_keyDeleter h) (he_key (els ! i)) key,
        uh_deletedValues := uh_deletedValues h @ displaced (uh_valueDeleter h) (he_value (els ! i)) value\<rparr>,
      if uh_valueDeleter h then 0 else he_value (els ! i))"
  using assms by (simp add: uh_setElement_def Let_def deleteKey_eq deleteValue_eq displaced_def)

lemma putError_eq:
  "uh_putError key value h status =
    (h\<lparr>uh_deletedKeys := uh_deletedKeys h @ if_owned (uh_keyDeleter h) key,
       uh_deletedValues := uh_deletedValues h @ if_owned (uh_valueDeleter h) value\<rparr>, 0, status)"
  by (simp add: uh_putError_def deleteKey_eq deleteValue_eq)

text \<open>A change of the elements that keeps the length keeps the invariant when it keeps that of the slots.\<close>

lemma uh_ok_update:
  assumes "uh_ok h" "els_ok (uh_keyHasher h) (uh_keyComparator h) (uh_length h) els" "used els < length els"
    "uh_elements h' = Some els" "uh_count h' = int (used els)" "uh_length h' = uh_length h"
    "uh_primeIndex h' = uh_primeIndex h" "uh_lowWaterMark h' = uh_lowWaterMark h" "uh_setup h' = uh_setup h"
  shows "uh_ok h'"
  using assms by (simp add: uh_ok_def uh_setup_def)

definition stored_key :: "('k, 'v) uhashtable \<Rightarrow> 'k::zero \<Rightarrow> 'k" where
  "stored_key h k = (case uh_entry h k of None \<Rightarrow> 0 | Some e \<Rightarrow> he_key e)"

definition stored_value :: "('k, 'v::zero) uhashtable \<Rightarrow> 'k \<Rightarrow> 'v" where
  "stored_value h k = (case uh_entry h k of None \<Rightarrow> 0 | Some e \<Rightarrow> he_value e)"

context key_contract
begin

lemma search:
  assumes "uh_ok h" "uh_keyHasher h = hasher" "uh_keyComparator h = cmp"
  obtains (present) els i where "uh_elements h = Some els" "els_ok hasher cmp (uh_length h) els" "uh_count h = int (used els)"
      "used els < length els" "uh_find key (hasher key) h = Some (Some i)" "i < length els" "\<not> vacant (els ! i)"
      "cmp key (he_key (els ! i))" "uh_entry h key = Some (els ! i)"
  | (absent) els i where "uh_elements h = Some els" "els_ok hasher cmp (uh_length h) els" "uh_count h = int (used els)"
      "used els < length els" "uh_find key (hasher key) h = Some (Some i)" "i < length els" "vacant (els ! i)"
      "open_path els (uh_length h) (positive (hasher key)) i" "uh_entry h key = None" "he_key (els ! i) = 0" "he_value (els ! i) = 0"
proof -
  obtain els where els: "uh_elements h = Some els" "els_ok (uh_keyHasher h) (uh_keyComparator h) (uh_length h) els"
    "uh_count h = int (used els)" "used els < length els" "is_prime (uh_length h)" "uh_length h \<le> 1073741824"
    "length els = nat (uh_length h)"
    using uh_okE [OF assms(1)] .
  have ok: "els_ok hasher cmp (uh_length h) els" using els(2) assms(2,3) by simp
  have entry: "uh_entry h key = uh_lookup cmp els key" using els(1) assms(3) by (simp add: uh_entry_def)
  show thesis
  proof (rule find_spec [OF els(1) assms(2,3) els(5,6) ok els(4) refl, of key])
    fix i assume i: "uh_find key (hasher key) h = Some (Some i)" "i < length els" "\<not> vacant (els ! i)" "cmp key (he_key (els ! i))"
    show thesis
      by (rule present [OF els(1) ok els(3,4) i]) (use entry lookup_here [OF ok i(2,3,4)] in simp)
  next
    fix i assume i: "uh_find key (hasher key) h = Some (Some i)" "i < length els" "vacant (els ! i)"
      "open_path els (uh_length h) (positive (hasher key)) i" "uh_lookup cmp els key = None"
    show thesis
      by (rule absent [OF els(1) ok els(3,4) i(1-4)]) (use entry i ok in \<open>auto simp: els_ok_def\<close>)
  qed
qed

lemma get_spec:
  assumes "uh_ok h" "uh_keyHasher h = hasher" "uh_keyComparator h = cmp"
  shows "uhash_get key h = Some (stored_value h key)"
    "uhash_find key h = Some None \<and> uh_entry h key = None \<or>
     (\<exists>i els. uhash_find key h = Some (Some i) \<and> uh_elements h = Some els \<and> i < length els \<and> uh_entry h key = Some (els ! i))"
proof -
  show "uhash_get key h = Some (stored_value h key)"
    by (rule search [OF assms, of key]) (simp_all add: uhash_get_def assms(2) stored_value_def)
  show "uhash_find key h = Some None \<and> uh_entry h key = None \<or>
     (\<exists>i els. uhash_find key h = Some (Some i) \<and> uh_elements h = Some els \<and> i < length els \<and> uh_entry h key = Some (els ! i))"
    by (rule search [OF assms, of key]) (simp_all add: uhash_find_def assms(2))
qed

end

section \<open>Put and remove\<close>

definition uh_removed :: "('k::zero, 'v::zero) uhashtable \<Rightarrow> 'k \<Rightarrow> ('k, 'v) uhashtable \<Rightarrow> bool" where
  "uh_removed h key h' \<longleftrightarrow> uh_ok h' \<and> uh_setup h' = uh_setup h \<and>
     uh_count h' = uh_count h - (if uh_entry h key = None then 0 else 1) \<and>
     uh_entry h' = (\<lambda>k. if uh_keyComparator h k key then None else uh_entry h k) \<and>
     uh_deletedKeys h' = uh_deletedKeys h @ if_owned (uh_keyDeleter h) (stored_key h key) \<and>
     uh_deletedValues h' = uh_deletedValues h @ if_owned (uh_valueDeleter h) (stored_value h key)"

definition uh_stored :: "('k::zero, 'v::zero) uhashtable \<Rightarrow> 'k \<Rightarrow> 'v \<Rightarrow> ('k, 'v) uhashtable \<Rightarrow> bool" where
  "uh_stored h key value h' \<longleftrightarrow> uh_ok h' \<and> uh_setup h' = uh_setup h \<and>
     uh_count h' = uh_count h + (if uh_entry h key = None then 1 else 0) \<and>
     uh_entry h' = (\<lambda>k. if uh_keyComparator h k key
       then Some \<lparr>he_hashcode = positive (uh_keyHasher h key), he_value = value, he_key = key\<rparr> else uh_entry h k) \<and>
     uh_deletedKeys h' = uh_deletedKeys h @ displaced (uh_keyDeleter h) (stored_key h key) key \<and>
     uh_deletedValues h' = uh_deletedValues h @ displaced (uh_valueDeleter h) (stored_value h key) value"

definition uh_rejected :: "('k::zero, 'v::zero) uhashtable \<Rightarrow> 'k \<Rightarrow> 'v \<Rightarrow> ('k, 'v) uhashtable \<Rightarrow> bool" where
  "uh_rejected h key value h' \<longleftrightarrow> uh_ok h' \<and> uh_setup h' = uh_setup h \<and> uh_count h' = uh_count h \<and> uh_entry h' = uh_entry h \<and>
     uh_deletedKeys h' = uh_deletedKeys h @ if_owned (uh_keyDeleter h) key \<and>
     uh_deletedValues h' = uh_deletedValues h @ if_owned (uh_valueDeleter h) value"

lemma uh_setupD:
  assumes "uh_setup h' = uh_setup h"
  shows "uh_keyHasher h' = uh_keyHasher h" "uh_keyComparator h' = uh_keyComparator h" "uh_keyDeleter h' = uh_keyDeleter h"
    "uh_valueDeleter h' = uh_valueDeleter h" "uh_lowWaterRatio h' = uh_lowWaterRatio h" "uh_valueComparator h' = uh_valueComparator h"
  using assms by (simp_all add: uh_setup_def)

lemma uh_sameD: "uh_same h h' \<Longrightarrow> uh_setup h' = uh_setup h" "uh_same h h' \<Longrightarrow> uh_entry h' = uh_entry h"
  by (simp_all add: uh_same_def)

lemma same_then:
  assumes "uh_same h h1"
  shows "uh_stored h1 key value h' \<Longrightarrow> uh_stored h key value h'" "uh_rejected h1 key value h' \<Longrightarrow> uh_rejected h key value h'"
    "uh_removed h0 key h \<Longrightarrow> uh_ok h1 \<Longrightarrow> uh_removed h0 key h1"
  using assms uh_setupD [OF uh_sameD(1) [OF assms]]
  by (simp_all add: uh_stored_def uh_rejected_def uh_removed_def uh_same_def stored_key_def stored_value_def cong: if_cong)

lemma putError_spec:
  assumes "uh_ok h"
  shows "uh_putError key value h status = (fst (uh_putError key value h status), 0, status) \<and>
    uh_rejected h key value (fst (uh_putError key value h status))"
  unfolding putError_eq uh_rejected_def using assms
  by (cases "uh_elements h") (simp_all add: uh_ok_def uh_setup_def uh_entry_def fun_eq_iff)

context key_contract
begin

lemma entry_cong: "uh_keyComparator h = cmp \<Longrightarrow> cmp k l \<Longrightarrow> uh_entry h k = uh_entry h l"
proof -
  assume h: "uh_keyComparator h = cmp" and kl: "cmp k l"
  have "cmp k m \<longleftrightarrow> cmp l m" for m using cmp_trans [OF kl] cmp_trans [OF cmp_sym [OF kl]] by blast
  then show ?thesis by (cases "uh_elements h") (simp_all add: uh_entry_def uh_lookup_def h)
qed

lemma internal_remove:
  assumes "uh_ok h" "uh_keyHasher h = hasher" "uh_keyComparator h = cmp" "uh_elements h = Some els" "i < length els"
    "\<not> vacant (els ! i)" "cmp key (he_key (els ! i))" "uh_entry h key = Some (els ! i)"
  shows "\<exists>h'. uh_internalRemoveElement i h = Some (h', if uh_valueDeleter h then 0 else he_value (els ! i)) \<and> uh_removed h key h' \<and>
    uh_elements h' = Some (els[i := \<lparr>he_hashcode = HASH_DELETED, he_value = 0, he_key = 0\<rparr>]) \<and> uh_length h' = uh_length h \<and>
    uh_primeIndex h' = uh_primeIndex h"
proof -
  let ?e = "\<lparr>he_hashcode = HASH_DELETED, he_value = 0, he_key = 0\<rparr>"
  let ?els = "els[i := ?e]"
  let ?h = "h\<lparr>uh_count := uh_count h - 1, uh_elements := Some ?els,
    uh_deletedKeys := uh_deletedKeys h @ if_owned (uh_keyDeleter h) (he_key (els ! i)),
    uh_deletedValues := uh_deletedValues h @ if_owned (uh_valueDeleter h) (he_value (els ! i))\<rparr>"
  have els: "els_ok hasher cmp (uh_length h) els" "uh_count h = int (used els)" "used els < length els"
    using assms(1-4) by (simp_all add: uh_ok_def)
  have run: "uh_internalRemoveElement i h = Some (?h, if uh_valueDeleter h then 0 else he_value (els ! i))"
    unfolding uh_internalRemoveElement_def by (subst setElement_eq [of _ els]) (simp_all add: assms(4,5) displaced_zero)
  have del: "els_ok hasher cmp (uh_length h) ?els" "uh_lookup cmp ?els k = (if cmp k (he_key (els ! i)) then None else uh_lookup cmp els k)" for k
    using delete_slot [OF els(1) assms(5,6), of ?e] by simp_all
  have used: "Suc (used ?els) = used els"
    using used_update [OF assms(5), of ?e] assms(6) by (simp add: vacant_def HASH_DELETED_def)
  have "uh_ok ?h"
    by (rule uh_ok_update [OF assms(1), of ?els]) (use del(1) used els(2,3) assms(2,3) in \<open>simp_all add: uh_setup_def\<close>)
  moreover have "cmp k (he_key (els ! i)) \<longleftrightarrow> cmp k key" for k
    using cmp_trans [OF _ cmp_sym [OF assms(7)]] cmp_trans [OF _ assms(7)] by blast
  then have "uh_entry ?h = (\<lambda>k. if cmp k key then None else uh_entry h k)"
    by (intro ext) (simp add: uh_entry_def assms(3,4) del(2))
  ultimately have "uh_removed h key ?h"
    using assms(3,8) by (simp add: uh_removed_def uh_setup_def stored_key_def stored_value_def)
  with run show ?thesis by (intro exI [of _ ?h]) simp
qed

lemma remove_spec:
  assumes "uh_ok h" "uh_keyHasher h = hasher" "uh_keyComparator h = cmp" "uh_memory hp h"
  shows "\<exists>h'. uh_remove hp key h = Some (h', if uh_valueDeleter h then 0 else stored_value h key) \<and> uh_removed h key h'"
proof (cases rule: search [OF assms(1-3), of key, case_names present absent])
  case (present els i)
  obtain h1 where h1: "uh_internalRemoveElement i h = Some (h1, if uh_valueDeleter h then 0 else he_value (els ! i))"
    "uh_removed h key h1" "uh_primeIndex h1 = uh_primeIndex h"
    using internal_remove [OF assms(1-3) present(1,6-9)] by blast
  have ok: "uh_ok h1" and su: "uh_setup h1 = uh_setup h" using h1(2) by (simp_all add: uh_removed_def)
  note su = uh_setupD [OF su]
  have run: "uh_remove hp key h = (if uh_count h1 < uh_lowWaterMark h1
      then do { (h', status) \<leftarrow> uh_rehash hp h1 U_ZERO_ERROR; Some (h', if uh_valueDeleter h then 0 else stored_value h key) }
      else Some (h1, if uh_valueDeleter h then 0 else stored_value h key))"
    using present assms(2) h1(1) by (simp add: uh_remove_def stored_value_def)
  show ?thesis
  proof (cases "uh_count h1 < uh_lowWaterMark h1")
    case True
    have "uh_memory hp h1" using assms(4) su h1(3) by (simp add: uh_memory_def)
    with rehash_spec [OF ok, of hp U_ZERO_ERROR] su assms(2,3)
    obtain h2 st where h2: "uh_rehash hp h1 U_ZERO_ERROR = Some (h2, st)" "uh_ok h2" "uh_same h1 h2" by auto
    from same_then(3) [OF h2(3) h1(2) h2(2)] True h2(1) show ?thesis unfolding run by simp
  next
    case False
    with h1(2) show ?thesis unfolding run by simp
  qed
next
  case (absent els i)
  have "uh_remove hp key h = Some (h, 0)" using absent assms(2) by (simp add: uh_remove_def)
  moreover have "uh_removed h key h"
    using assms(1,3) absent(9) entry_cong [OF assms(3)]
    by (auto simp: uh_removed_def stored_key_def stored_value_def fun_eq_iff)
  ultimately show ?thesis using absent(9) by (simp add: stored_value_def)
qed

end

section \<open>Put\<close>

text \<open>The part of \<open>_uhash_put\<close> after the table may have grown.\<close>

definition put_tail :: "'k::zero \<Rightarrow> 'v::zero \<Rightarrow> ('k, 'v) uhashtable \<Rightarrow> UErrorCode \<Rightarrow> (('k, 'v) uhashtable \<times> 'v \<times> UErrorCode) option" where
  "put_tail key value h status =
    do { let hashcode = uh_keyHasher h key;
          p \<leftarrow> uh_find key hashcode h; i \<leftarrow> p; els \<leftarrow> uh_elements h; e \<leftarrow> rd els i;
          if vacant e \<and> uh_count h + 1 = uh_length h
          then Some (uh_putError key value h U_MEMORY_ALLOCATION_ERROR)
          else do {
            let h = (if vacant e then h\<lparr>uh_count := uh_count h + 1\<rparr> else h);
            (h, old) \<leftarrow> uh_setElement i (positive hashcode) key value h;
            Some (h, old, status) } }"

context key_contract
begin

lemma store_element:
  assumes "uh_ok h" "uh_keyHasher h = hasher" "uh_keyComparator h = cmp" "uh_elements h = Some els" "i < length els"
    "uh_count h' = int (used (els[i := e]))" "used (els[i := e]) < length els"
    "e = \<lparr>he_hashcode = positive (hasher key), he_value = value, he_key = key\<rparr>"
    "vacant (els ! i) \<Longrightarrow> open_path els (uh_length h) (positive (hasher key)) i"
    "vacant (els ! i) \<and> uh_entry h key = None \<or> \<not> vacant (els ! i) \<and> cmp key (he_key (els ! i))"
    "uh_elements h' = Some (els[i := e])" "uh_length h' = uh_length h" "uh_primeIndex h' = uh_primeIndex h"
    "uh_lowWaterMark h' = uh_lowWaterMark h" "uh_setup h' = uh_setup h"
  shows "uh_ok h'" "uh_entry h' = (\<lambda>k. if cmp k key then Some e else uh_entry h k)"
proof -
  have els: "els_ok hasher cmp (uh_length h) els" "used els < length els"
    using assms(1-4) by (simp_all add: uh_ok_def)
  have v: "\<not> vacant e" using positive_range(1) [of "hasher key"] assms(8) by (simp add: vacant_def)
  have path: "open_path els (uh_length h) (he_hashcode e) i"
  proof (cases "vacant (els ! i)")
    case False
    then have "he_hashcode (els ! i) = positive (hasher (he_key (els ! i)))" "open_path els (uh_length h) (he_hashcode (els ! i)) i"
      using els(1) assms(5) by (auto simp: els_ok_def)
    then show ?thesis using cmp_hash [of key "he_key (els ! i)"] assms(8,10) False by simp
  qed (use assms(8,9) in simp)
  have others: "j = i" if "j < length els" "\<not> vacant (els ! j)" "cmp (he_key e) (he_key (els ! j))" for j
  proof (cases "vacant (els ! i)")
    case True
    then have "uh_lookup cmp els key = None" using assms(3,4,10) by (simp add: uh_entry_def)
    with that assms(8) show ?thesis unfolding lookup_None by simp
  next
    case False
    with that assms(8,10) same_keys [OF els(1) that(1) assms(5) that(2) False] show ?thesis by simp
  qed
  have "vacant (els ! i) \<or> cmp (he_key e) (he_key (els ! i))" using assms(8,10) by auto
  note set = set_slot [OF els(1) assms(5) v _ path others this]
  have set1: "els_ok hasher cmp (uh_length h) (els[i := e])" using set(1) assms(8) by simp
  have set2: "uh_lookup cmp (els[i := e]) k = (if cmp k key then Some e else uh_lookup cmp els k)" for k
    using set(2) [of k] assms(8) by simp
  show "uh_ok h'"
    by (rule uh_ok_update [OF assms(1), of "els[i := e]"]) (use set1 assms in simp_all)
  show "uh_entry h' = (\<lambda>k. if cmp k key then Some e else uh_entry h k)"
    using uh_setupD(2) [OF assms(15)] assms(3,4,11) set2 by (intro ext) (simp add: uh_entry_def)
qed

lemma put_tail_spec:
  assumes "uh_ok h" "uh_keyHasher h = hasher" "uh_keyComparator h = cmp"
  shows "\<exists>h'. put_tail key value h status = Some (h', if uh_valueDeleter h then 0 else stored_value h key, status) \<and> uh_stored h key value h' \<or>
    put_tail key value h status = Some (h', 0, U_MEMORY_ALLOCATION_ERROR) \<and> uh_rejected h key value h' \<and> uh_count h + 1 = uh_length h"
proof -
  let ?e = "\<lparr>he_hashcode = positive (hasher key), he_value = value, he_key = key\<rparr>"
  have pos: "\<not> vacant ?e" using positive_range(1) [of "hasher key"] by (simp add: vacant_def)
  show ?thesis
  proof (cases rule: search [OF assms, of key, case_names present absent])
    case (present els i)
    let ?h = "h\<lparr>uh_elements := Some (els[i := ?e]),
      uh_deletedKeys := uh_deletedKeys h @ displaced (uh_keyDeleter h) (he_key (els ! i)) key,
      uh_deletedValues := uh_deletedValues h @ displaced (uh_valueDeleter h) (he_value (els ! i)) value\<rparr>"
    have run: "put_tail key value h status = Some (?h, if uh_valueDeleter h then 0 else he_value (els ! i), status)"
      using present assms(2) by (simp add: put_tail_def Let_def setElement_eq [OF present(1,6)])
    have used: "used (els[i := ?e]) = used els" using used_update [OF present(6), of ?e] present(7) pos by simp
    have "uh_ok ?h" "uh_entry ?h = (\<lambda>k. if cmp k key then Some ?e else uh_entry h k)"
      by (rule store_element [OF assms present(1,6), of ?h ?e]; use used present in \<open>simp add: uh_setup_def\<close>)+
    then have "uh_stored h key value ?h"
      using present(9) assms by (simp add: uh_stored_def uh_setup_def stored_key_def stored_value_def cong: if_cong)
    with run present(9) show ?thesis by (intro exI [of _ ?h] disjI1) (simp add: stored_value_def)
  next
    case (absent els i)
    have len: "length els = nat (uh_length h)" "used els < length els" using absent(2,4) by (simp_all add: els_ok_def)
    show ?thesis
    proof (cases "uh_count h + 1 = uh_length h")
      case True
      have "put_tail key value h status = Some (uh_putError key value h U_MEMORY_ALLOCATION_ERROR)"
        using absent assms(2) True by (simp add: put_tail_def)
      with putError_spec [OF assms(1)] True show ?thesis by metis
    next
      case False
      let ?h = "h\<lparr>uh_count := uh_count h + 1, uh_elements := Some (els[i := ?e])\<rparr>"
      let ?g = "h\<lparr>uh_count := uh_count h + 1\<rparr>"
      have g: "uh_elements ?g = Some els" using absent(1) by simp
      have run: "put_tail key value h status = Some (?h, 0, status)"
        using absent(1,5-7,10,11) assms(2) False by (simp add: put_tail_def Let_def setElement_eq [OF g absent(6)])
      have used: "used (els[i := ?e]) = Suc (used els)" using used_update [OF absent(6), of ?e] absent(7) pos by simp
      have room: "Suc (used els) < length els" using False absent(3) len by linarith
      have "uh_ok ?h" "uh_entry ?h = (\<lambda>k. if cmp k key then Some ?e else uh_entry h k)"
        by (rule store_element [OF assms absent(1,6), of ?h ?e]; use used room absent in \<open>simp add: uh_setup_def\<close>)+
      then have "uh_stored h key value ?h"
        using absent(9) assms by (simp add: uh_stored_def uh_setup_def stored_key_def stored_value_def cong: if_cong)
      with run absent(9) show ?thesis by (auto simp: stored_value_def)
    qed
  qed
qed

end

lemma uh_put_tail:
  "uh_put hp ptr key value h status =
    (if U_FAILURE status then Some (uh_putError key value h status)
     else if ptr \<and> value = 0 then do { (h, old) \<leftarrow> uh_remove hp key h; Some (h, old, status) }
     else do {
       (h, status) \<leftarrow> (if uh_count h > uh_highWaterMark h then uh_rehash hp h status else Some (h, status));
       if U_FAILURE status then Some (uh_putError key value h status) else put_tail key value h status })"
  unfolding uh_put_def put_tail_def ..

context key_contract
begin

lemma put_spec:
  assumes "uh_ok h" "uh_keyHasher h = hasher" "uh_keyComparator h = cmp" "uh_memory hp h" "\<not> U_FAILURE status" "\<not> (ptr \<and> value = 0)"
  shows "\<exists>h'. uh_put hp ptr key value h status = Some (h', if uh_valueDeleter h then 0 else stored_value h key, status) \<and> uh_stored h key value h' \<or>
    uh_put hp ptr key value h status = Some (h', 0, U_MEMORY_ALLOCATION_ERROR) \<and> uh_rejected h key value h' \<and>
      (uh_highWaterMark h < uh_count h \<or> uh_count h + 1 = uh_length h)"
proof (cases "uh_count h > uh_highWaterMark h")
  case True
  obtain h1 st where h1: "uh_rehash hp h status = Some (h1, st)" "uh_ok h1" "uh_same h h1" "st = status \<or> st = U_MEMORY_ALLOCATION_ERROR"
    using rehash_spec [OF assms(1-5)] by blast
  note su = uh_setupD [OF uh_sameD(1) [OF h1(3)]]
  have run: "uh_put hp ptr key value h status =
    (if U_FAILURE st then Some (uh_putError key value h1 st) else put_tail key value h1 st)"
    unfolding uh_put_tail using assms(5,6) True h1(1) by auto
  show ?thesis
  proof (cases "U_FAILURE st")
    case bad: True
    then have st: "st = U_MEMORY_ALLOCATION_ERROR" using h1(4) assms(5) by blast
    obtain h' where "uh_putError key value h1 st = (h', 0, st)" "uh_rejected h1 key value h'"
      using putError_spec [OF h1(2)] by blast
    with same_then(2) [OF h1(3)] bad True show ?thesis unfolding run st by auto
  next
    case False
    then have st: "st = status" using h1(4) by auto
    have eqs: "uh_valueDeleter h1 = uh_valueDeleter h" "stored_value h1 key = stored_value h key"
      using su h1(3) by (simp_all add: stored_value_def uh_same_def)
    have fns: "uh_keyHasher h1 = hasher" "uh_keyComparator h1 = cmp" using su assms(2,3) by simp_all
    obtain h' where
      "put_tail key value h1 status = Some (h', if uh_valueDeleter h then 0 else stored_value h key, status) \<and> uh_stored h1 key value h' \<or>
       put_tail key value h1 status = Some (h', 0, U_MEMORY_ALLOCATION_ERROR) \<and> uh_rejected h1 key value h'"
      using put_tail_spec [OF h1(2) fns, of key "value" status] unfolding eqs by blast
    with same_then(1,2) [OF h1(3)] True False show ?thesis unfolding run st by auto
  qed
next
  case False
  then have "uh_put hp ptr key value h status = put_tail key value h status"
    unfolding uh_put_tail using assms(5,6) by auto
  with put_tail_spec [OF assms(1-3), of key "value" status] show ?thesis by metis
qed

end

end
