(* ===== verification/UHashWalk.thy ===== *)
theory UHashWalk
  imports UHashOps
begin

text \<open>
  The operations that walk through the slots of a table: the next element in use, removing all elements, closing
  and comparing two tables.
\<close>

definition in_use :: "('k, 'v) uhelement list \<Rightarrow> ('k, 'v) uhelement list" where
  "in_use els = filter (\<lambda>e. \<not> vacant e) els"

definition owned_keys :: "bool \<Rightarrow> ('k::zero, 'v) uhelement list \<Rightarrow> 'k list" where
  "owned_keys d els = concat (map (\<lambda>e. if_owned d (he_key e)) (in_use els))"

definition owned_values :: "bool \<Rightarrow> ('k, 'v::zero) uhelement list \<Rightarrow> 'v list" where
  "owned_values d els = concat (map (\<lambda>e. if_owned d (he_value e)) (in_use els))"

lemma in_use_simps [simp]: "in_use [] = []" "in_use (e # es) = (if vacant e then in_use es else e # in_use es)"
  by (simp_all add: in_use_def)

lemma owned_simps [simp]:
  "owned_keys d [] = []" "owned_keys d (e # es) = (if vacant e then owned_keys d es else if_owned d (he_key e) @ owned_keys d es)"
  "owned_values d [] = []" "owned_values d (e # es) = (if vacant e then owned_values d es else if_owned d (he_value e) @ owned_values d es)"
  by (simp_all add: owned_keys_def owned_values_def)

lemma owned_in_use: "in_use els = in_use els' \<Longrightarrow> owned_keys d els = owned_keys d els' \<and> owned_values d els = owned_values d els'"
  by (simp add: owned_keys_def owned_values_def)

lemma used_in_use: "used els = length (in_use els)"
  by (simp add: used_def in_use_def)

text \<open>The walk stops at the first slot in use, or nothing is left.\<close>

lemma next_element_spec:
  assumes "n = length els"
  shows "next_element els i n = Some None \<and> in_use (drop i els) = [] \<or>
    (\<exists>j. next_element els i n = Some (Some j) \<and> i \<le> j \<and> j < n \<and> \<not> vacant (els ! j) \<and>
      in_use (drop i els) = els ! j # in_use (drop (Suc j) els) \<and> (\<forall>k. i \<le> k \<longrightarrow> k < j \<longrightarrow> vacant (els ! k)))"
  using assms
proof (induction els i n rule: next_element.induct)
  case (1 els i n)
  show ?case
  proof (cases "i < n")
    case True
    have drop: "drop i els = els ! i # drop (Suc i) els" using True 1(2) by (simp add: Cons_nth_drop_Suc)
    have r: "rd els i = Some (els ! i)" using True 1(2) by simp
    show ?thesis
    proof (cases "vacant (els ! i)")
      case v: True
      have step: "next_element els i n = next_element els (i + 1) n" using True r v by (subst next_element.simps) simp
      have IH: "next_element els (i + 1) n = Some None \<and> in_use (drop (i + 1) els) = [] \<or>
        (\<exists>j. next_element els (i + 1) n = Some (Some j) \<and> i + 1 \<le> j \<and> j < n \<and> \<not> vacant (els ! j) \<and>
          in_use (drop (i + 1) els) = els ! j # in_use (drop (Suc j) els) \<and> (\<forall>k. i + 1 \<le> k \<longrightarrow> k < j \<longrightarrow> vacant (els ! k)))"
        using 1(1) [OF True r v 1(2)] .
      have skip: "in_use (drop i els) = in_use (drop (i + 1) els)" unfolding drop using v by simp
      from IH show ?thesis unfolding step skip
        using v by (metis Suc_eq_plus1 Suc_leI Suc_leD le_neq_implies_less)
    next
      case False
      then have "next_element els i n = Some (Some i)" using True r by (subst next_element.simps) simp
      then show ?thesis unfolding drop using False True by auto
    qed
  next
    case False
    then show ?thesis using 1(2) by (subst next_element.simps) (simp add: next_element.simps)
  qed
qed

lemma nextElement_spec:
  assumes "uh_ok h" "uh_elements h = Some els" "i = nat (pos + 1)"
  shows "uhash_nextElement pos h = Some None \<and> in_use (drop i els) = [] \<or>
    (\<exists>j. uhash_nextElement pos h = Some (Some j) \<and> i \<le> j \<and> j < length els \<and> \<not> vacant (els ! j) \<and>
      in_use (drop i els) = els ! j # in_use (drop (Suc j) els) \<and> (\<forall>k. i \<le> k \<longrightarrow> k < j \<longrightarrow> vacant (els ! k)))"
proof -
  have "nat (uh_length h) = length els" using assms(1,2) by (simp add: uh_ok_def els_ok_def)
  then show ?thesis using next_element_spec [OF refl, of els i] assms(2,3) by (simp add: uhash_nextElement_def)
qed

section \<open>Removing all elements\<close>

lemma close_loop_owned:
  "close_loop es h = h\<lparr>uh_deletedKeys := uh_deletedKeys h @ owned_keys (uh_keyDeleter h) es,
     uh_deletedValues := uh_deletedValues h @ owned_values (uh_valueDeleter h) es\<rparr>"
  by (induction es arbitrary: h) (simp_all add: deleteKey_eq deleteValue_eq)

context key_contract
begin

lemma element_of_slot:
  assumes "uh_ok h" "uh_keyHasher h = hasher" "uh_keyComparator h = cmp" "uh_elements h = Some els" "i < length els" "\<not> vacant (els ! i)"
  shows "uh_entry h (he_key (els ! i)) = Some (els ! i)"
  using lookup_here [of "uh_length h" els i "he_key (els ! i)"] assms cmp_refl by (simp add: uh_ok_def uh_entry_def)

lemma removeElement_spec:
  assumes "uh_ok h" "uh_keyHasher h = hasher" "uh_keyComparator h = cmp" "uh_elements h = Some els" "i < length els" "\<not> vacant (els ! i)"
  shows "\<exists>h'. uhash_removeElement i h = Some (h', if uh_valueDeleter h then 0 else he_value (els ! i)) \<and>
    uh_removed h (he_key (els ! i)) h' \<and> uh_elements h' = Some (els[i := \<lparr>he_hashcode = HASH_DELETED, he_value = 0, he_key = 0\<rparr>])"
proof -
  have "uhash_removeElement i h = uh_internalRemoveElement i h" using assms(4-6) by (simp add: uhash_removeElement_def)
  with internal_remove [OF assms cmp_refl element_of_slot [OF assms]] show ?thesis by auto
qed

lemma remove_all_spec:
  assumes "uh_ok h" "uh_keyHasher h = hasher" "uh_keyComparator h = cmp" "uh_elements h = Some els" "- 1 \<le> pos"
  shows "\<exists>h'. remove_all_loop pos h = Some h' \<and> uh_ok h' \<and> uh_setup h' = uh_setup h \<and>
    uh_count h' = uh_count h - int (length (in_use (drop (nat (pos + 1)) els))) \<and>
    uh_deletedKeys h' = uh_deletedKeys h @ owned_keys (uh_keyDeleter h) (drop (nat (pos + 1)) els) \<and>
    uh_deletedValues h' = uh_deletedValues h @ owned_values (uh_valueDeleter h) (drop (nat (pos + 1)) els)"
  using assms
proof (induction "length els - nat (pos + 1)" arbitrary: h els pos rule: less_induct)
  case less
  let ?i = "nat (pos + 1)"
  from nextElement_spec [OF less.prems(1,4) refl, of pos]
  consider (none) "uhash_nextElement pos h = Some None" "in_use (drop ?i els) = []"
    | (some) j where "uhash_nextElement pos h = Some (Some j)" "?i \<le> j" "j < length els" "\<not> vacant (els ! j)"
      "in_use (drop ?i els) = els ! j # in_use (drop (Suc j) els)" by blast
  then show ?case
  proof cases
    case none
    then have "remove_all_loop pos h = Some h" by (subst remove_all_loop.simps) simp
    with less.prems(1) none(2) show ?thesis by (simp add: owned_keys_def owned_values_def)
  next
    case (some j)
    let ?els = "els[j := \<lparr>he_hashcode = HASH_DELETED, he_value = 0, he_key = 0\<rparr>]"
    obtain h1 x where h1: "uhash_removeElement j h = Some (h1, x)" "uh_removed h (he_key (els ! j)) h1" "uh_elements h1 = Some ?els"
      using removeElement_spec [OF less.prems(1-4) some(3,4)] by blast
    have step: "remove_all_loop pos h = remove_all_loop (int j) h1"
      using some(1) h1(1) by (subst remove_all_loop.simps) simp
    have ok: "uh_ok h1" and su: "uh_setup h1 = uh_setup h" using h1(2) by (simp_all add: uh_removed_def)
    note eqs = uh_setupD [OF su]
    have drop: "drop (Suc j) ?els = drop (Suc j) els" by simp
    note e = element_of_slot [OF less.prems(1-4) some(3,4)]
    have "length ?els - nat (int j + 1) < length els - ?i" using some(2,3) by simp
    then obtain h' where h': "remove_all_loop (int j) h1 = Some h'" "uh_ok h'" "uh_setup h' = uh_setup h1"
      "uh_count h' = uh_count h1 - int (length (in_use (drop (nat (int j + 1)) ?els)))"
      "uh_deletedKeys h' = uh_deletedKeys h1 @ owned_keys (uh_keyDeleter h1) (drop (nat (int j + 1)) ?els)"
      "uh_deletedValues h' = uh_deletedValues h1 @ owned_values (uh_valueDeleter h1) (drop (nat (int j + 1)) ?els)"
      using less.hyps [of ?els "int j" h1] ok eqs(1,2) less.prems(2,3) h1(3) by auto
    have nat: "nat (int j + 1) = Suc j" by simp
    have ghosts: "uh_count h1 = uh_count h - 1" "uh_deletedKeys h1 = uh_deletedKeys h @ if_owned (uh_keyDeleter h) (he_key (els ! j))"
      "uh_deletedValues h1 = uh_deletedValues h @ if_owned (uh_valueDeleter h) (he_value (els ! j))"
      using h1(2) e by (simp_all add: uh_removed_def stored_key_def stored_value_def)
    have "owned_keys d (drop ?i els) = if_owned d (he_key (els ! j)) @ owned_keys d (drop (Suc j) els)"
      "owned_values d (drop ?i els) = if_owned d (he_value (els ! j)) @ owned_values d (drop (Suc j) els)" for d
      using some(5) by (simp_all add: owned_keys_def owned_values_def)
    with h' ghosts eqs su some(5) show ?thesis unfolding step nat drop by (intro exI [of _ h']) simp
  qed
qed

lemma removeAll_spec:
  assumes "uh_ok h" "uh_keyHasher h = hasher" "uh_keyComparator h = cmp" "uh_elements h = Some els"
  shows "\<exists>h'. uhash_removeAll h = Some h' \<and> uh_ok h' \<and> uh_setup h' = uh_setup h \<and> uh_count h' = 0 \<and>
    uh_deletedKeys h' = uh_deletedKeys h @ owned_keys (uh_keyDeleter h) els \<and>
    uh_deletedValues h' = uh_deletedValues h @ owned_values (uh_valueDeleter h) els"
proof (cases "uh_count h = 0")
  case True
  then have "in_use els = []" using assms(1,4) by (simp add: uh_ok_def used_in_use)
  with assms(1) True show ?thesis by (simp add: uhash_removeAll_def owned_keys_def owned_values_def)
next
  case False
  have "uh_count h = int (length (in_use els))" using assms(1,4) by (simp add: uh_ok_def used_in_use)
  with remove_all_spec [OF assms, of "- 1"] False show ?thesis by (simp add: uhash_removeAll_def)
qed

end

lemma no_elements:
  assumes "uh_ok h" "uh_count h = 0"
  shows "uh_entry h k = None"
proof -
  obtain els where els: "uh_elements h = Some els" "used els = 0" using assms by (auto simp: uh_ok_def split: option.splits)
  then have "\<forall>e \<in> set els. vacant e" by (simp add: used_def filter_empty_conv)
  with els(1) show ?thesis by (simp add: uh_entry_def lookup_None)
qed

section \<open>Comparing two tables\<close>

lemma distinct_filter_nth:
  assumes "\<And>i j. i < length xs \<Longrightarrow> j < length xs \<Longrightarrow> p (xs ! i) \<Longrightarrow> xs ! i = xs ! j \<Longrightarrow> i = j"
  shows "distinct (filter p xs)"
  using assms
proof (induction xs)
  case (Cons x xs)
  have "distinct (filter p xs)"
  proof (rule Cons.IH)
    fix i j assume "i < length xs" "j < length xs" "p (xs ! i)" "xs ! i = xs ! j"
    then show "i = j" using Cons.prems [of "Suc i" "Suc j"] by simp
  qed
  moreover have "x \<notin> set xs" if "p x"
  proof
    assume "x \<in> set xs"
    then obtain j where "j < length xs" "xs ! j = x" by (auto simp: in_set_conv_nth)
    with Cons.prems [of 0 "Suc j"] that show False by simp
  qed
  ultimately show ?case by simp
qed simp

context key_contract
begin

lemma entry_iff:
  assumes "uh_ok h" "uh_keyHasher h = hasher" "uh_keyComparator h = cmp" "uh_elements h = Some els"
  shows "uh_entry h k = Some e \<longleftrightarrow> e \<in> set (in_use els) \<and> cmp k (he_key e)"
proof
  assume "uh_entry h k = Some e"
  then have "List.find (\<lambda>e. \<not> vacant e \<and> cmp k (he_key e)) els = Some e"
    using assms(3,4) by (simp add: uh_entry_def uh_lookup_def)
  then show "e \<in> set (in_use els) \<and> cmp k (he_key e)" unfolding find_Some_iff by (auto simp: in_use_def)
next
  assume e: "e \<in> set (in_use els) \<and> cmp k (he_key e)"
  then obtain i where i: "i < length els" "els ! i = e" "\<not> vacant e" by (auto simp: in_use_def in_set_conv_nth)
  have "els_ok hasher cmp (uh_length h) els" using assms by (simp add: uh_ok_def)
  from lookup_here [OF this i(1)] i e assms(3,4) show "uh_entry h k = Some e" by (simp add: uh_entry_def)
qed

lemma in_use_card:
  assumes "uh_ok h" "uh_keyHasher h = hasher" "uh_keyComparator h = cmp" "uh_elements h = Some els"
  shows "uh_count h = int (card (set (in_use els)))"
proof -
  have "distinct (in_use els)" unfolding in_use_def
  proof (rule distinct_filter_nth)
    fix i j assume "i < length els" "j < length els" "\<not> vacant (els ! i)" "els ! i = els ! j"
    then show "i = j"
      using assms same_keys [of "uh_length h" els i j "he_key (els ! i)"] cmp_refl by (simp add: uh_ok_def)
  qed
  then show ?thesis using assms(1,4) by (simp add: uh_ok_def used_in_use distinct_card)
qed

lemma equals_loop_spec:
  assumes "uh_ok h1" "uh_elements h1 = Some els1" "uh_ok h2" "uh_keyHasher h2 = hasher" "uh_keyComparator h2 = cmp" "- 1 \<le> pos"
    "n = length (in_use (drop (nat (pos + 1)) els1))"
  shows "equals_loop n pos vc h1 h2 =
    Some (\<forall>e \<in> set (in_use (drop (nat (pos + 1)) els1)). vc (he_value e) (stored_value h2 (he_key e)))"
  using assms(6,7)
proof (induction n arbitrary: pos)
  case (Suc n)
  from nextElement_spec [OF assms(1,2) refl, of pos] Suc.prems(2) obtain j where
    j: "uhash_nextElement pos h1 = Some (Some j)" "j < length els1"
      "in_use (drop (nat (pos + 1)) els1) = els1 ! j # in_use (drop (Suc j) els1)" by fastforce
  let ?k = "he_key (els1 ! j)"
  have "\<exists>i els2. uh_find ?k (hasher ?k) h2 = Some (Some i) \<and> uh_elements h2 = Some els2 \<and> i < length els2 \<and>
    he_value (els2 ! i) = stored_value h2 ?k"
    by (rule search [OF assms(3-5), of ?k]) (simp_all add: stored_value_def)
  then obtain i els2 where i: "uh_find ?k (hasher ?k) h2 = Some (Some i)" "uh_elements h2 = Some els2" "i < length els2"
    "he_value (els2 ! i) = stored_value h2 ?k" by blast
  have rest: "equals_loop n (int j) vc h1 h2 =
    Some (\<forall>e \<in> set (in_use (drop (Suc j) els1)). vc (he_value e) (stored_value h2 (he_key e)))"
    using Suc.IH [of "int j"] Suc.prems(2) j(3) by (simp add: nat_add_distrib)
  show ?case unfolding j(3) using j(1,2) i rest assms(2,4) by simp
qed simp

lemma equals_spec:
  assumes "uh_ok h1" "uh_elements h1 = Some els1" "uh_ok h2" "uh_keyHasher h2 = hasher" "uh_keyComparator h2 = cmp"
    "uh_valueComparator h1 = Some vc"
  shows "uhash_equals True h1 h2 =
    Some (uh_count h1 = uh_count h2 \<and> (\<forall>e \<in> set (in_use els1). vc (he_value e) (stored_value h2 (he_key e))))"
proof -
  have "nat (uh_count h1) = length (in_use els1)" using assms(1,2) by (simp add: uh_ok_def used_in_use)
  with equals_loop_spec [OF assms(1-5), of "- 1" "length (in_use els1)" vc] assms(6) show ?thesis
    by (cases "uh_count h1 = uh_count h2") (simp_all add: uhash_equals_def)
qed

lemma equals_stored:
  assumes "uh_ok h1" "uh_keyHasher h1 = hasher" "uh_keyComparator h1 = cmp"
    "uh_ok h2" "uh_keyHasher h2 = hasher" "uh_keyComparator h2 = cmp" "uh_valueComparator h1 = Some vc"
  shows "uhash_equals True h1 h2 = Some (uh_count h1 = uh_count h2 \<and>
    (\<forall>k v. uh_contents h1 k = Some v \<longrightarrow> vc v (case uh_contents h2 k of None \<Rightarrow> 0 | Some w \<Rightarrow> w)))"
proof -
  obtain els where els: "uh_elements h1 = Some els" using assms(1) by (auto simp: uh_ok_def split: option.splits)
  note iff = entry_iff [OF assms(1-3) els]
  have read: "(case uh_contents h2 k of None \<Rightarrow> 0 | Some w \<Rightarrow> w) = stored_value h2 k" for k
    by (simp add: uh_contents_def stored_value_def split: option.split)
  have same: "stored_value h2 k = stored_value h2 (he_key e)" if "cmp k (he_key e)" for k e
    using entry_cong [OF assms(6) that] by (simp add: stored_value_def)
  have "(\<forall>e \<in> set (in_use els). vc (he_value e) (stored_value h2 (he_key e))) \<longleftrightarrow>
    (\<forall>k v. uh_contents h1 k = Some v \<longrightarrow> vc v (stored_value h2 k))"
  proof (intro iffI ballI allI impI)
    fix k v assume all: "\<forall>e \<in> set (in_use els). vc (he_value e) (stored_value h2 (he_key e))" and v: "uh_contents h1 k = Some v"
    then obtain e where e: "uh_entry h1 k = Some e" "v = he_value e" by (auto simp: uh_contents_def)
    then have "e \<in> set (in_use els)" "cmp k (he_key e)" using iff by blast+
    with all same [of k e] e(2) show "vc v (stored_value h2 k)" by simp
  next
    fix e assume all: "\<forall>k v. uh_contents h1 k = Some v \<longrightarrow> vc v (stored_value h2 k)" and e: "e \<in> set (in_use els)"
    then have "uh_entry h1 (he_key e) = Some e" using iff cmp_refl by blast
    with all show "vc (he_value e) (stored_value h2 (he_key e))" by (simp add: uh_contents_def)
  qed
  then show ?thesis using equals_spec [OF assms(1) els assms(4-7)] by (simp add: read)
qed

text \<open>Keys go to equal keys; when every key of the first table has one, as many elements are as many keys.\<close>

lemma same_size:
  fixes h1 h2 :: "('k, 'v::zero) uhashtable"
  assumes "uh_ok h1" "uh_keyHasher h1 = hasher" "uh_keyComparator h1 = cmp" "uh_elements h1 = Some els1"
    "uh_ok h2" "uh_keyHasher h2 = hasher" "uh_keyComparator h2 = cmp" "uh_elements h2 = Some els2"
    "\<And>e. e \<in> set (in_use els1) \<Longrightarrow> uh_entry h2 (he_key e) \<noteq> None"
  shows "uh_count h1 = uh_count h2 \<longleftrightarrow> (\<forall>e \<in> set (in_use els2). uh_entry h1 (he_key e) \<noteq> None)"
proof -
  let ?A = "set (in_use els1)" and ?B = "set (in_use els2)"
  note iff1 = entry_iff [OF assms(1-4)] and iff2 = entry_iff [OF assms(5-8)]
  define g :: "('k, 'v) uhelement \<Rightarrow> ('k, 'v) uhelement" where "g e = the (uh_entry h2 (he_key e))" for e
  have g: "uh_entry h2 (he_key e) = Some (g e)" "g e \<in> ?B" "cmp (he_key e) (he_key (g e))" if "e \<in> ?A" for e
  proof -
    show s: "uh_entry h2 (he_key e) = Some (g e)" using assms(9) [OF that] by (auto simp: g_def)
    show "g e \<in> ?B" "cmp (he_key e) (he_key (g e))" using s unfolding iff2 by blast+
  qed
  have same: "e = e'" if "e \<in> ?A" "e' \<in> ?A" "cmp (he_key e) (he_key e')" for e e'
  proof -
    have "uh_entry h1 (he_key e) = Some e" "uh_entry h1 (he_key e) = Some e'" unfolding iff1 using that cmp_refl by blast+
    then show ?thesis by simp
  qed
  have inj: "inj_on g ?A"
  proof (rule inj_onI)
    fix e e' assume "e \<in> ?A" "e' \<in> ?A" "g e = g e'"
    moreover from this have "cmp (he_key e) (he_key e')" using g(3) cmp_sym cmp_trans by metis
    ultimately show "e = e'" using same by blast
  qed
  have counts: "uh_count h1 = uh_count h2 \<longleftrightarrow> card (g ` ?A) = card ?B"
    using in_use_card [OF assms(1-4)] in_use_card [OF assms(5-8)] card_image [OF inj] by simp
  have sub: "g ` ?A \<subseteq> ?B" using g(2) by blast
  have "card (g ` ?A) = card ?B \<longleftrightarrow> g ` ?A = ?B" using card_subset_eq [OF _ sub] by auto
  also have "\<dots> \<longleftrightarrow> (\<forall>b \<in> ?B. uh_entry h1 (he_key b) \<noteq> None)"
  proof
    assume eq: "g ` ?A = ?B"
    show "\<forall>b \<in> ?B. uh_entry h1 (he_key b) \<noteq> None"
    proof
      fix b assume "b \<in> ?B"
      then obtain e where "e \<in> ?A" "b = g e" using eq by blast
      then have "uh_entry h1 (he_key b) = Some e" unfolding iff1 using g(3) cmp_sym by blast
      then show "uh_entry h1 (he_key b) \<noteq> None" by simp
    qed
  next
    assume all: "\<forall>b \<in> ?B. uh_entry h1 (he_key b) \<noteq> None"
    have "b \<in> g ` ?A" if b: "b \<in> ?B" for b
    proof -
      obtain e where e: "uh_entry h1 (he_key b) = Some e" using all b by blast
      then have "e \<in> ?A" "cmp (he_key b) (he_key e)" unfolding iff1 by blast+
      then have "uh_entry h2 (he_key e) = Some b" unfolding iff2 using b cmp_sym by blast
      with g(1) [OF \<open>e \<in> ?A\<close>] \<open>e \<in> ?A\<close> show ?thesis by auto
    qed
    with sub show "g ` ?A = ?B" by blast
  qed
  finally show ?thesis unfolding counts .
qed

lemma equals_contents:
  assumes "uh_ok h1" "uh_keyHasher h1 = hasher" "uh_keyComparator h1 = cmp"
    "uh_ok h2" "uh_keyHasher h2 = hasher" "uh_keyComparator h2 = cmp" "uh_valueComparator h1 = Some vc"
    "\<And>k v. uh_contents h1 k = Some v \<Longrightarrow> \<not> vc v 0"
  shows "uhash_equals True h1 h2 = Some (\<forall>k. rel_option vc (uh_contents h1 k) (uh_contents h2 k))"
proof -
  obtain els1 els2 where els: "uh_elements h1 = Some els1" "uh_elements h2 = Some els2"
    using assms(1,4) by (auto simp: uh_ok_def split: option.splits)
  let ?A = "set (in_use els1)" and ?B = "set (in_use els2)"
  let ?all = "\<forall>e \<in> ?A. vc (he_value e) (stored_value h2 (he_key e))"
  let ?R = "\<forall>k. rel_option vc (uh_contents h1 k) (uh_contents h2 k)"
  note iff1 = entry_iff [OF assms(1-3) els(1)] and iff2 = entry_iff [OF assms(4-6) els(2)]
  have own1: "uh_entry h1 (he_key e) = Some e" if "e \<in> ?A" for e unfolding iff1 using that cmp_refl by blast
  have own2: "uh_entry h2 (he_key e) = Some e" if "e \<in> ?B" for e unfolding iff2 using that cmp_refl by blast
  have null: "\<not> vc (he_value e) 0" if "e \<in> ?A" for e
    using assms(8) [of "he_key e" "he_value e"] own1 [OF that] by (simp add: uh_contents_def)
  have vc: "vc (he_value e) (stored_value h2 k) \<longleftrightarrow> rel_option vc (Some (he_value e)) (uh_contents h2 k)" if "e \<in> ?A" for e k
    using null [OF that] by (simp add: stored_value_def uh_contents_def split: option.split)
  have "uh_count h1 = uh_count h2 \<and> ?all \<longleftrightarrow> ?R"
  proof
    assume l: "uh_count h1 = uh_count h2 \<and> ?all"
    have "uh_entry h2 (he_key e) \<noteq> None" if "e \<in> ?A" for e
    proof -
      have "vc (he_value e) (stored_value h2 (he_key e))" using l that by blast
      then show ?thesis using null [OF that] by (cases "uh_entry h2 (he_key e)") (simp_all add: stored_value_def)
    qed
    with same_size [OF assms(1-3) els(1) assms(4-6) els(2)] l have there: "\<forall>b \<in> ?B. uh_entry h1 (he_key b) \<noteq> None" by blast
    show ?R
    proof
      fix k
      show "rel_option vc (uh_contents h1 k) (uh_contents h2 k)"
      proof (cases "uh_entry h1 k")
        case None
        have "uh_entry h2 k = None"
        proof (rule ccontr)
          assume "uh_entry h2 k \<noteq> None"
          then obtain b where b: "b \<in> ?B" "cmp k (he_key b)" using iff2 by blast
          then have "uh_entry h1 (he_key b) \<noteq> None" using there by blast
          with entry_cong [OF assms(3) b(2)] None show False by simp
        qed
        with None show ?thesis by (simp add: uh_contents_def)
      next
        case (Some e)
        then have e: "e \<in> ?A" "cmp k (he_key e)" unfolding iff1 by blast+
        with l have "vc (he_value e) (stored_value h2 (he_key e))" by blast
        with vc [OF e(1)] entry_cong [OF assms(6) e(2)] Some show ?thesis by (simp add: uh_contents_def)
      qed
    qed
  next
    assume R: ?R
    have none: "uh_entry h1 k = None \<longleftrightarrow> uh_entry h2 k = None" for k
      using spec [OF R, of k] by (cases "uh_entry h1 k"; cases "uh_entry h2 k") (simp_all add: uh_contents_def)
    have there: "uh_entry h2 (he_key e) \<noteq> None" if "e \<in> ?A" for e using own1 [OF that] none [of "he_key e"] by simp
    have "uh_entry h1 (he_key e) \<noteq> None" if "e \<in> ?B" for e using own2 [OF that] none [of "he_key e"] by simp
    with same_size [OF assms(1-3) els(1) assms(4-6) els(2)] there have "uh_count h1 = uh_count h2" by blast
    moreover have ?all
    proof
      fix e assume e: "e \<in> ?A"
      from own1 [OF e] spec [OF R, of "he_key e"] show "vc (he_value e) (stored_value h2 (he_key e))" unfolding vc [OF e]
        by (simp add: uh_contents_def)
    qed
    ultimately show "uh_count h1 = uh_count h2 \<and> ?all" ..
  qed
  then show ?thesis using equals_spec [OF assms(1) els(1) assms(4-7)] by simp
qed

end

section \<open>Opening\<close>

lemma create_spec:
  assumes "\<not> U_FAILURE status" "0 \<le> p" "p < 27"
  shows "\<exists>r st. uh_create hp keyHash keyComp valueComp p status = Some (r, st) \<and>
    (case r of None \<Rightarrow> st = U_MEMORY_ALLOCATION_ERROR
     | Some h \<Rightarrow> st = status \<and> uh_ok h \<and> uh_count h = 0 \<and> uh_entry h = (\<lambda>k. None) \<and> uh_keyHasher h = keyHash \<and>
         uh_keyComparator h = keyComp \<and> uh_valueComparator h = valueComp \<and> uh_lowWaterRatio h = 0 \<and>
         uh_length h = PRIMES ! nat p)"
proof -
  have p: "nat p < 27" using assms(2,3) by simp
  note create = uh_create_def uh_init_def uh_setRatios_def uh_setMarks_def
  show ?thesis
  proof (cases "uprv_malloc hp 80 \<and> uprv_malloc hp (24 * PRIMES ! nat p)")
    case True
    let ?e = "replicate (nat (PRIMES ! nat p)) empty_element"
    define h where "h = \<lparr>uh_elements = Some ?e, uh_keyHasher = keyHash, uh_keyComparator = keyComp, uh_valueComparator = valueComp,
           uh_keyDeleter = False, uh_valueDeleter = False, uh_count = 0, uh_length = PRIMES ! nat p,
           uh_highWaterMark = water_mark (PRIMES ! nat p) 67108864,
           uh_lowWaterMark = 0, uh_highWaterRatio = 67108864, uh_lowWaterRatio = 0, uh_primeIndex = p, uh_allocated = True,
           uh_deletedKeys = [], uh_deletedValues = []\<rparr>"
    have run: "uh_create hp keyHash keyComp valueComp p status = Some (Some h, status)"
      using True assms by (simp add: create allocate_spec h_def)
    have "uh_ok h"
      by (rule uh_okI [of _ ?e "nat p"]) (use PRIMES_small [OF p] p assms(2,3) in \<open>simp_all add: h_def els_ok_empty\<close>)
    moreover have "uh_entry h = (\<lambda>k. None)" by (rule ext) (simp add: uh_entry_def h_def)
    ultimately show ?thesis using run by (simp add: h_def)
  next
    case False
    then have "uh_create hp keyHash keyComp valueComp p status = Some (None, U_MEMORY_ALLOCATION_ERROR)"
      using assms by (auto simp: create allocate_spec)
    then show ?thesis by simp
  qed
qed

end
