(* ===== verification/UHashKeys.thy ===== *)
theory UHashKeys
  imports UHashWalk
begin

text \<open>
  The hash functions and comparators of the code (uhash.c, ustring.cpp, unistr.cpp) and that each pair
  satisfies the contract of the table. A key is an integer or a pointer, none for a null pointer; \<open>mem\<close> says
  which string a pointer points to, which is the same as long as the table is used.
\<close>

section \<open>Hashing\<close>

text \<open>
  \<open>STRING_HASH\<close>: the loop visits the positions \<open>0, inc, 2 * inc, ...\<close> where \<open>inc\<close> is one more than
  \<open>step = (len - 32) / 32\<close>. The division truncates: up to 63 units \<open>step\<close> is 0, and for an empty string,
  where it would be -1, the loop does not run.
\<close>

definition to_int32 :: "int \<Rightarrow> int" where
  "to_int32 x = (if x < 2147483648 then x else x - 4294967296)"

function hash_loop :: "int list \<Rightarrow> nat \<Rightarrow> nat \<Rightarrow> int \<Rightarrow> int" where
  "hash_loop s step p hash =
     (if p < length s then hash_loop s step (p + step + 1) ((hash * 37 + s ! p) mod 4294967296) else hash)"
  by pat_completeness auto
termination
  by (relation "measure (\<lambda>(s, step, p, hash). length s - p)") auto

declare hash_loop.simps [simp del]

definition string_hash :: "int list \<Rightarrow> int" where
  "string_hash s = to_int32 (hash_loop s ((length s - 32) div 32) 0 0)"

definition doHashCode :: "int list \<Rightarrow> int" where
  "doHashCode s = (let hashCode = string_hash s in if hashCode = 0 then 1 else hashCode)"

section \<open>Zero terminated strings\<close>

text \<open>The unit at an index: zero from the terminator on.\<close>

definition unit_at :: "int list \<Rightarrow> nat \<Rightarrow> int" where
  "unit_at s i = (if i < length s then s ! i else 0)"

function c_strlen :: "int list \<Rightarrow> nat \<Rightarrow> nat" where
  "c_strlen s i = (if unit_at s i \<noteq> 0 then c_strlen s (i + 1) else i)"
  by pat_completeness auto
termination
  by (relation "measure (\<lambda>(s, i). length s - i)") (auto simp: unit_at_def split: if_splits)

declare c_strlen.simps [simp del]

function compare_loop :: "(int \<Rightarrow> int) \<Rightarrow> int list \<Rightarrow> int list \<Rightarrow> nat \<Rightarrow> bool" where
  "compare_loop f p1 p2 i =
     (if unit_at p1 i \<noteq> 0 \<and> f (unit_at p1 i) = f (unit_at p2 i) then compare_loop f p1 p2 (i + 1)
      else unit_at p1 i = unit_at p2 i)"
  by pat_completeness auto
termination
  by (relation "measure (\<lambda>(f, p1, p2, i). length p1 - i)") (auto simp: unit_at_def split: if_splits)

declare compare_loop.simps [simp del]

definition uprv_tolower :: "int \<Rightarrow> int" where
  "uprv_tolower c = (if 65 \<le> c \<and> c \<le> 90 then c + 32 else c)"

section \<open>Key functions\<close>

definition same_pointer :: "('p \<Rightarrow> 'p \<Rightarrow> bool) \<Rightarrow> 'p option \<Rightarrow> 'p option \<Rightarrow> bool" where
  "same_pointer content k l =
     (if k = l then True else case k of None \<Rightarrow> False | Some p \<Rightarrow> (case l of None \<Rightarrow> False | Some q \<Rightarrow> content p q))"

definition uhash_hashLong :: "int \<Rightarrow> int" where "uhash_hashLong key = key"
definition uhash_compareLong :: "int \<Rightarrow> int \<Rightarrow> bool" where "uhash_compareLong key1 key2 = (key1 = key2)"

definition uhash_hashUnicodeString :: "('p \<Rightarrow> int list) \<Rightarrow> 'p option \<Rightarrow> int" where
  "uhash_hashUnicodeString mem key = (case key of None \<Rightarrow> 0 | Some p \<Rightarrow> doHashCode (mem p))"

definition uhash_compareUnicodeStringKey :: "('p \<Rightarrow> int list) \<Rightarrow> 'p option \<Rightarrow> 'p option \<Rightarrow> bool" where
  "uhash_compareUnicodeStringKey mem = same_pointer (\<lambda>p q. mem p = mem q)"

text \<open>\<open>uhash_hashUChars\<close> and \<open>uhash_hashChars\<close> differ in the width of the unit only.\<close>

definition uhash_hashUChars :: "('p \<Rightarrow> int list) \<Rightarrow> 'p option \<Rightarrow> int" where
  "uhash_hashUChars mem key = (case key of None \<Rightarrow> 0 | Some p \<Rightarrow> string_hash (take (c_strlen (mem p) 0) (mem p)))"

definition uhash_hashIChars :: "('p \<Rightarrow> int list) \<Rightarrow> 'p option \<Rightarrow> int" where
  "uhash_hashIChars mem key =
     (case key of None \<Rightarrow> 0 | Some p \<Rightarrow> string_hash (map uprv_tolower (take (c_strlen (mem p) 0) (mem p))))"

definition uhash_compareUChars :: "('p \<Rightarrow> int list) \<Rightarrow> 'p option \<Rightarrow> 'p option \<Rightarrow> bool" where
  "uhash_compareUChars mem = same_pointer (\<lambda>p q. compare_loop (\<lambda>c. c) (mem p) (mem q) 0)"

definition uhash_compareIChars :: "('p \<Rightarrow> int list) \<Rightarrow> 'p option \<Rightarrow> 'p option \<Rightarrow> bool" where
  "uhash_compareIChars mem = same_pointer (\<lambda>p q. compare_loop uprv_tolower (mem p) (mem q) 0)"

section \<open>The comparison loop compares strings\<close>

definition c_string :: "int list \<Rightarrow> int list" where
  "c_string s = takeWhile (\<lambda>c. c \<noteq> 0) s"

lemma c_strlen_spec: "i \<le> length s \<Longrightarrow> c_strlen s i = i + length (c_string (drop i s))"
proof (induction s i rule: c_strlen.induct)
  case (1 s i)
  show ?case
  proof (cases "unit_at s i = 0")
    case True
    then have "c_string (drop i s) = []" by (cases "drop i s") (auto simp: c_string_def unit_at_def drop_eq_Nil hd_drop_conv_nth dest: hd_drop_conv_nth split: if_splits)
    with True show ?thesis by (subst c_strlen.simps) simp
  next
    case False
    then have i: "i < length s" "s ! i \<noteq> 0" by (auto simp: unit_at_def split: if_splits)
    then have "c_string (drop i s) = s ! i # c_string (drop (i + 1) s)"
      unfolding Cons_nth_drop_Suc [OF i(1), symmetric] by (simp add: c_string_def)
    with 1(1) [OF False] i False show ?thesis by (subst c_strlen.simps) simp
  qed
qed

lemma take_c_strlen: "take (c_strlen s 0) s = c_string s"
  using c_strlen_spec [of 0 s] by (simp add: c_string_def takeWhile_eq_take [symmetric])

lemma unit_drop: "unit_at s i = (case drop i s of [] \<Rightarrow> 0 | c # _ \<Rightarrow> c)"
  by (cases "i < length s") (simp_all add: unit_at_def Cons_nth_drop_Suc [symmetric])

lemma c_string_drop:
  "c_string (drop i s) = (if unit_at s i = 0 then [] else unit_at s i # c_string (drop (i + 1) s))"
  by (cases "i < length s") (simp_all add: unit_at_def c_string_def Cons_nth_drop_Suc [symmetric])

lemma compare_loop_spec:
  assumes "\<And>c. f c = f 0 \<longleftrightarrow> c = 0"
  shows "compare_loop f p1 p2 i \<longleftrightarrow> map f (c_string (drop i p1)) = map f (c_string (drop i p2))"
  using assms
proof (induction f p1 p2 i rule: compare_loop.induct)
  case (1 f p1 p2 i)
  note c = c_string_drop [of i p1] c_string_drop [of i p2]
  show ?case
  proof (cases "unit_at p1 i \<noteq> 0 \<and> f (unit_at p1 i) = f (unit_at p2 i)")
    case True
    then have "unit_at p2 i \<noteq> 0" using 1(2) [of "unit_at p1 i"] by auto
    with 1 True show ?thesis unfolding c by (subst compare_loop.simps) simp
  next
    case False
    then have "compare_loop f p1 p2 i \<longleftrightarrow> unit_at p1 i = unit_at p2 i" by (subst compare_loop.simps) auto
    with False show ?thesis unfolding c by auto
  qed
qed

lemma tolower_zero: "uprv_tolower c = uprv_tolower 0 \<longleftrightarrow> c = 0"
  by (simp add: uprv_tolower_def)

section \<open>The contract holds\<close>

lemma pointer_contract:
  assumes "\<And>p q. content p q \<longleftrightarrow> key p = key q" "hasher None = 0" "\<And>p. hasher (Some p) = hash (key p)"
  shows "key_contract hasher (same_pointer content)"
proof
  show "same_pointer content k k" for k by (simp add: same_pointer_def)
  show "same_pointer content k l \<Longrightarrow> same_pointer content l k" for k l
    by (auto simp: same_pointer_def assms(1) split: if_splits option.splits)
  show "same_pointer content k l \<Longrightarrow> same_pointer content l m \<Longrightarrow> same_pointer content k m" for k l m
    by (auto simp: same_pointer_def assms(1) split: if_splits option.splits)
  show "same_pointer content k l \<Longrightarrow> positive (hasher k) = positive (hasher l)" for k l
    by (auto simp: same_pointer_def assms split: if_splits option.splits)
qed

interpretation long: key_contract uhash_hashLong uhash_compareLong
  by unfold_locales (simp_all add: uhash_compareLong_def)

interpretation us: key_contract "uhash_hashUnicodeString mem" "uhash_compareUnicodeStringKey mem" for mem
  unfolding uhash_compareUnicodeStringKey_def
  by (rule pointer_contract [of _ mem _ doHashCode]) (simp_all add: uhash_hashUnicodeString_def)

interpretation uchars: key_contract "uhash_hashUChars mem" "uhash_compareUChars mem" for mem
  unfolding uhash_compareUChars_def
  by (rule pointer_contract [of _ "\<lambda>p. c_string (mem p)" _ string_hash])
    (simp_all add: uhash_hashUChars_def take_c_strlen compare_loop_spec)

interpretation ichars: key_contract "uhash_hashIChars mem" "uhash_compareIChars mem" for mem
  unfolding uhash_compareIChars_def
  by (rule pointer_contract [of _ "\<lambda>p. map uprv_tolower (c_string (mem p))" _ string_hash])
    (simp_all add: uhash_hashIChars_def take_c_strlen compare_loop_spec [OF tolower_zero])

end
