(* ===== verification/UHashProps.thy ===== *)
theory UHashProps
  imports UHashKeys
begin

text \<open>
  The tables that come about by the operations, what holds of them, and the class \<open>Hashtable\<close> of hash.h,
  whose keys are strings.
\<close>

section \<open>Reachable tables\<close>

text \<open>Every step has an allocator of its own; a deleter and a policy can be set at any time.\<close>

inductive uh_step :: "('k::zero, 'v::zero) uhashtable \<Rightarrow> ('k, 'v) uhashtable \<Rightarrow> bool" where
  put: "uh_put hp ptr key value h status = Some (h', old, status') \<Longrightarrow> uh_memory (hp :: unit heap) h \<Longrightarrow> uh_step h h'"
| remove: "uh_remove hp key h = Some (h', old) \<Longrightarrow> uh_memory (hp :: unit heap) h \<Longrightarrow> uh_step h h'"
| removeAll: "uhash_removeAll h = Some h' \<Longrightarrow> uh_step h h'"
| policy: "uhash_setResizePolicy hp policy h = Some h' \<Longrightarrow> uh_memory (hp :: unit heap) (uh_setRatios policy h) \<Longrightarrow> uh_step h h'"
| keyDeleter: "uhash_setKeyDeleter fn h = (h', was) \<Longrightarrow> uh_step h h'"
| valueDeleter: "uhash_setValueDeleter fn h = (h', was) \<Longrightarrow> uh_step h h'"

inductive uh_reach :: "('k::zero \<Rightarrow> int) \<Rightarrow> ('k \<Rightarrow> 'k \<Rightarrow> bool) \<Rightarrow> ('k, 'v::zero) uhashtable \<Rightarrow> bool" for hasher cmp where
  opened: "uhash_openSize (hp :: unit heap) hasher cmp valueComp wanted status = Some (Some h, status') \<Longrightarrow>
    wanted \<le> 1073741789 \<Longrightarrow> uh_reach hasher cmp h"
| step: "uh_reach hasher cmp h \<Longrightarrow> uh_step h h' \<Longrightarrow> uh_reach hasher cmp h'"

lemma smallest_prime_spec:
  "ps \<noteq> [] \<Longrightarrow> smallest_prime ps w < length ps \<and> (\<forall>j < smallest_prime ps w. ps ! j < w) \<and>
    (w \<le> ps ! smallest_prime ps w \<or> Suc (smallest_prime ps w) = length ps)"
proof (induction ps w rule: smallest_prime.induct)
  case (1 p q ps w)
  then show ?case by (auto simp: less_Suc_eq_0_disj)
qed simp_all

lemma openSize_index: "w \<le> 1073741789 \<Longrightarrow> smallest_prime PRIMES w < 27"
proof (rule ccontr)
  assume w: "w \<le> 1073741789" "\<not> smallest_prime PRIMES w < 27"
  have "PRIMES \<noteq> []" by (simp add: PRIMES_def)
  from smallest_prime_spec [OF this, of w] w(2) have "PRIMES ! 26 < w" by simp
  with w(1) show False by (simp add: PRIMES_def)
qed

lemma setRatios_ok:
  assumes "uh_ok h"
  shows "uh_ok (uh_setMarks (uh_setRatios policy h))" "uh_entry (uh_setMarks (uh_setRatios policy h)) = uh_entry h"
    "uh_keyHasher (uh_setMarks (uh_setRatios policy h)) = uh_keyHasher h"
    "uh_keyComparator (uh_setMarks (uh_setRatios policy h)) = uh_keyComparator h"
    "uh_memory hp (uh_setRatios policy h) \<Longrightarrow> uh_memory hp (uh_setMarks (uh_setRatios policy h))"
  using assms by (cases policy; cases "uh_elements h"; simp add: uh_ok_def uh_setMarks_def uh_setRatios_def uh_memory_def uh_entry_def fun_eq_iff)+

context key_contract
begin

lemma resize_spec:
  assumes "uh_ok h" "uh_keyHasher h = hasher" "uh_keyComparator h = cmp" "uh_memory hp (uh_setRatios policy h)"
  shows "\<exists>h'. uhash_setResizePolicy hp policy h = Some h' \<and> uh_ok h' \<and> uh_entry h' = uh_entry h \<and>
    uh_keyHasher h' = hasher \<and> uh_keyComparator h' = cmp"
proof -
  let ?h = "uh_setMarks (uh_setRatios policy h)"
  note ok = setRatios_ok [OF assms(1), where policy = policy]
  have fns: "uh_keyHasher ?h = hasher" "uh_keyComparator ?h = cmp" using ok(3,4) assms(2,3) by simp_all
  obtain h' st where h': "uh_rehash hp ?h U_ZERO_ERROR = Some (h', st)" "uh_ok h'" "uh_same ?h h'"
    using rehash_spec [OF ok(1) fns ok(5) [OF assms(4)], of U_ZERO_ERROR] by auto
  have "uh_entry h' = uh_entry h" using uh_sameD(2) [OF h'(3)] ok(2) by simp
  with h' fns uh_setupD(1,2) [OF uh_sameD(1) [OF h'(3)]] show ?thesis by (simp add: uhash_setResizePolicy_def)
qed

lemma step_ok:
  assumes "uh_step h h'" "uh_ok h" "uh_keyHasher h = hasher" "uh_keyComparator h = cmp"
  shows "uh_ok h' \<and> uh_keyHasher h' = hasher \<and> uh_keyComparator h' = cmp"
proof -
  have removed: "uh_removed h key g \<Longrightarrow> uh_ok g \<and> uh_keyHasher g = hasher \<and> uh_keyComparator g = cmp" for key g
    using assms(3,4) by (auto simp: uh_removed_def dest: uh_setupD)
  have stored: "uh_stored h key v g \<or> uh_rejected h key v g \<Longrightarrow> uh_ok g \<and> uh_keyHasher g = hasher \<and> uh_keyComparator g = cmp" for key v g
    using assms(3,4) by (auto simp: uh_stored_def uh_rejected_def dest: uh_setupD)
  from assms(1) show ?thesis
  proof cases
    case (put hp ptr key v status old status')
    show ?thesis
    proof (cases "U_FAILURE status")
      case True
      then have "h' = fst (uh_putError key v h status)" using put(1) by (simp add: uh_put_def)
      then show ?thesis using putError_spec [OF assms(2)] stored by metis
    next
      case False
      show ?thesis
      proof (cases "ptr \<and> v = 0")
        case True
        with False put(1) remove_spec [OF assms(2-4) put(2), of key] removed show ?thesis by (auto simp: uh_put_def)
      next
        case no: False
        from put_spec [OF assms(2-4) put(2) False no, of key] put(1) have "uh_stored h key v h' \<or> uh_rejected h key v h'" by auto
        with stored show ?thesis by blast
      qed
    qed
  next
    case (remove hp key old)
    with remove_spec [OF assms(2-4) remove(2), of key] removed show ?thesis by auto
  next
    case removeAll
    obtain els where "uh_elements h = Some els" using assms(2) by (auto simp: uh_ok_def split: option.splits)
    from removeAll_spec [OF assms(2-4) this] removeAll assms(3,4) show ?thesis by (auto dest: uh_setupD)
  next
    case (policy hp p)
    with resize_spec [OF assms(2-4) policy(2)] show ?thesis by auto
  next
    case (keyDeleter fn was)
    then show ?thesis using assms(2-4) by (cases "uh_elements h") (auto simp: uhash_setKeyDeleter_def uh_ok_def)
  next
    case (valueDeleter fn was)
    then show ?thesis using assms(2-4) by (cases "uh_elements h") (auto simp: uhash_setValueDeleter_def uh_ok_def)
  qed
qed

lemma reach_ok:
  assumes "uh_reach hasher cmp h"
  shows "uh_ok h \<and> uh_keyHasher h = hasher \<and> uh_keyComparator h = cmp"
  using assms
proof (induction rule: uh_reach.induct)
  case (opened hp valueComp wanted status h status')
  then have ok: "\<not> U_FAILURE status" by (auto simp: uhash_openSize_def uh_create_def)
  from create_spec [OF this, of "int (smallest_prime PRIMES wanted)" hp hasher cmp valueComp] openSize_index [OF opened(2)] opened(1)
  show ?case by (auto simp: uhash_openSize_def)
next
  case (step h h')
  then show ?case using step_ok [of h h'] by blast
qed

end

section \<open>Resizing settles\<close>

lemma refill_frame:
  "uh_refill old i h = Some h' \<Longrightarrow> uh_length h' = uh_length h \<and> uh_highWaterMark h' = uh_highWaterMark h \<and>
    uh_lowWaterMark h' = uh_lowWaterMark h \<and> uh_primeIndex h' = uh_primeIndex h"
proof (induction old i h rule: uh_refill.induct)
  case (2 old i h)
  show ?case
  proof (cases "rd old i")
    case (Some e)
    show ?thesis
    proof (cases "vacant e")
      case True
      with Some 2(2) have r: "uh_refill old i h = Some h'" by simp
      show ?thesis by (rule 2(1) [OF Some]) (use True r in auto)
    next
      case False
      with Some 2(2) obtain j els els' where s: "uh_find (he_key e) (he_hashcode e) h = Some (Some j)" "uh_elements h = Some els" "wr els j e = Some els'"
        "uh_refill old i (h\<lparr>uh_elements := Some els', uh_count := uh_count h + 1\<rparr>) = Some h'"
        by (auto simp: bind_eq_Some_conv)
      have "uh_length h' = uh_length (h\<lparr>uh_elements := Some els', uh_count := uh_count h + 1\<rparr>) \<and>
        uh_highWaterMark h' = uh_highWaterMark (h\<lparr>uh_elements := Some els', uh_count := uh_count h + 1\<rparr>) \<and>
        uh_lowWaterMark h' = uh_lowWaterMark (h\<lparr>uh_elements := Some els', uh_count := uh_count h + 1\<rparr>) \<and>
        uh_primeIndex h' = uh_primeIndex (h\<lparr>uh_elements := Some els', uh_count := uh_count h + 1\<rparr>)"
        by (rule 2(1) [OF Some]) (use False s in simp_all)
      then show ?thesis by simp
    qed
  qed (use 2(2) in simp)
qed simp

lemma rehash_success:
  assumes "uh_rehash hp h status = Some (h', status')" "\<not> U_FAILURE status'" "\<not> U_FAILURE status" "uh_elements h \<noteq> None"
    "p = (if uh_count h > uh_highWaterMark h then uh_primeIndex h + 1 else uh_primeIndex h - 1)"
    "uh_count h > uh_highWaterMark h \<or> uh_count h < uh_lowWaterMark h" "0 \<le> p" "p < 28"
  shows "uh_length h' = PRIMES ! nat p" "uh_highWaterMark h' = water_mark (PRIMES ! nat p) (uh_highWaterRatio h)"
    "uh_lowWaterMark h' = water_mark (PRIMES ! nat p) (uh_lowWaterRatio h)"
proof -
  obtain els where els: "uh_elements h = Some els" using assms(4) by blast
  have run: "uh_rehash hp h status = do { (h', status') \<leftarrow> uh_allocate hp p h status;
      if U_FAILURE status' then Some (h'\<lparr>uh_elements := Some els, uh_length := uh_length h\<rparr>, status')
      else do { h' \<leftarrow> uh_refill els (nat (uh_length h)) h'; Some (h', status') } }"
    using assms(5-8) els by (auto simp: uh_rehash_def Let_def cong: if_cong)
  let ?h = "uh_setMarks (h\<lparr>uh_primeIndex := p, uh_length := PRIMES ! nat p,
              uh_elements := Some (replicate (nat (PRIMES ! nat p)) empty_element), uh_count := 0\<rparr>)"
  have ok: "uprv_malloc hp (24 * PRIMES ! nat p)"
    using assms(1,2) unfolding run allocate_spec [OF assms(3,7,8)] by (auto split: if_splits)
  then have "uh_refill els (nat (uh_length h)) ?h = Some h'"
    using assms(1-3) unfolding run allocate_spec [OF assms(3,7,8)] by (auto simp: bind_eq_Some_conv)
  from refill_frame [OF this]
  show "uh_length h' = PRIMES ! nat p" "uh_highWaterMark h' = water_mark (PRIMES ! nat p) (uh_highWaterRatio h)"
    "uh_lowWaterMark h' = water_mark (PRIMES ! nat p) (uh_lowWaterRatio h)" by (simp_all add: uh_setMarks_def)
qed

lemma marks_between:
  "list_all2 (\<lambda>m n. water_mark m 13421773 \<le> water_mark n 67108864 + 1 \<and> water_mark n 67108864 + 1 \<le> water_mark m 67108864 \<and>
     water_mark n 13421773 \<le> water_mark m 13421773 - 1 \<and> water_mark m 13421773 - 1 \<le> water_mark n 67108864)
   (tl PRIMES) (butlast PRIMES)"
  by code_simp

lemma marks_next:
  assumes "Suc i < 28"
  shows "water_mark (PRIMES ! Suc i) 13421773 \<le> water_mark (PRIMES ! i) 67108864 + 1"
    "water_mark (PRIMES ! i) 67108864 + 1 \<le> water_mark (PRIMES ! Suc i) 67108864"
    "water_mark (PRIMES ! i) 13421773 \<le> water_mark (PRIMES ! Suc i) 13421773 - 1"
    "water_mark (PRIMES ! Suc i) 13421773 - 1 \<le> water_mark (PRIMES ! i) 67108864"
  using marks_between assms by (auto simp: list_all2_conv_all_nth nth_tl nth_butlast)

section \<open>Too small an array\<close>

text \<open>A search that ends in a slot found a vacant one or the key.\<close>

lemma probe_result:
  assumes "uh_probe els cmp key hc len jump start idx fd = Some r" "\<And>d. fd = Some d \<Longrightarrow> d < length els \<and> vacant (els ! d)"
  shows "\<forall>j. r = Some j \<longrightarrow> j < length els \<and> (vacant (els ! j) \<or> cmp key (he_key (els ! j)))"
proof -
  have "(\<forall>d. fd = Some d \<longrightarrow> d < length els \<and> vacant (els ! d)) \<longrightarrow>
    (\<forall>j. r = Some j \<longrightarrow> j < length els \<and> (vacant (els ! j) \<or> cmp key (he_key (els ! j))))"
  proof (rule uh_probe.raw_induct [where P = "\<lambda>els cmp key hc len jump start idx fd r.
      (\<forall>d. fd = Some d \<longrightarrow> d < length els \<and> vacant (els ! d)) \<longrightarrow>
      (\<forall>j. r = Some j \<longrightarrow> j < length els \<and> (vacant (els ! j) \<or> cmp key (he_key (els ! j))))", OF _ assms(1)], intro impI)
    fix probe and els :: "('k, 'v) uhelement list" and cmp :: "'k \<Rightarrow> 'k \<Rightarrow> bool" and key :: 'k and hc len jump start idx :: int
      and fd r :: "nat option"
    assume ih: "\<And>els cmp key hc len jump start idx fd r. probe els cmp key hc len jump start idx fd = Some r \<Longrightarrow>
        (\<forall>d. fd = Some d \<longrightarrow> d < length els \<and> vacant (els ! d)) \<longrightarrow>
        (\<forall>j. r = Some j \<longrightarrow> j < length els \<and> (vacant (els ! j) \<or> cmp key (he_key (els ! j))))"
      and run: "do { e \<leftarrow> rd els (nat idx);
          if he_hashcode e = hc \<and> cmp key (he_key e) then Some (Some (nat idx))
          else if he_hashcode e = HASH_EMPTY
          then Some (case fd of None \<Rightarrow> Some (nat idx) | Some d \<Rightarrow> Some d)
          else do {
            let firstDeleted = (if vacant e \<and> fd = None then Some (nat idx) else fd);
            if idx + jump > INT32_MAX then None
            else let i = (idx + jump) mod len
                 in if i \<noteq> start then probe els cmp key hc len jump start i firstDeleted
                    else Some firstDeleted } } = Some r"
      and fd: "\<forall>d. fd = Some d \<longrightarrow> d < length els \<and> vacant (els ! d)"
    obtain e where e: "rd els (nat idx) = Some e" using run by (auto simp: bind_eq_Some_conv)
    then have at: "nat idx < length els" "els ! nat idx = e" by (simp_all add: rd_eq_Some_iff)
    let ?fd = "if vacant e \<and> fd = None then Some (nat idx) else fd"
    have ok: "\<forall>d. ?fd = Some d \<longrightarrow> d < length els \<and> vacant (els ! d)" using fd at by simp
    consider (found) "he_hashcode e = hc \<and> cmp key (he_key e)"
      | (empty) "\<not> (he_hashcode e = hc \<and> cmp key (he_key e))" "he_hashcode e = HASH_EMPTY"
      | (on) "\<not> (he_hashcode e = hc \<and> cmp key (he_key e))" "he_hashcode e \<noteq> HASH_EMPTY" by blast
    then show "\<forall>j. r = Some j \<longrightarrow> j < length els \<and> (vacant (els ! j) \<or> cmp key (he_key (els ! j)))"
    proof cases
      case found
      with run e at show ?thesis by auto
    next
      case empty
      then have "vacant e" by (simp add: vacant_def HASH_EMPTY_def)
      with run fd e at empty show ?thesis by (cases fd) auto
    next
      case on
      then have "(idx + jump) mod len = start \<and> r = ?fd \<or> probe els cmp key hc len jump start ((idx + jump) mod len) ?fd = Some r"
        using run e by (auto simp: Let_def split: if_splits)
      then show ?thesis
      proof
        assume "probe els cmp key hc len jump start ((idx + jump) mod len) ?fd = Some r"
        from ih [OF this] ok show ?thesis by simp
      qed (use ok in simp)
    qed
  qed
  then show ?thesis using assms(2) by simp
qed

lemma find_result:
  assumes "uh_find key hc h = Some (Some j)" "uh_elements h = Some els"
  shows "j < length els" "vacant (els ! j) \<or> uh_keyComparator h key (he_key (els ! j))"
proof -
  obtain start jump where "uh_probe els (uh_keyComparator h) key (positive hc) (uh_length h) jump start start None = Some (Some j)"
    using assms by (auto simp: uh_find_def Let_def)
  from probe_result [OF this] show "j < length els" "vacant (els ! j) \<or> uh_keyComparator h key (he_key (els ! j))" by simp_all
qed

text \<open>What a loop over the old elements that returns has done.\<close>

lemma refill_result:
  assumes "els_ok hasher cmp oldlen old" "i \<le> length old" "uh_refill old i h = Some h'" "uh_elements h = Some els"
    "uh_keyComparator h = cmp"
    "\<And>j. j < length els \<Longrightarrow> \<not> vacant (els ! j) \<Longrightarrow> \<exists>l. i \<le> l \<and> l < length old \<and> \<not> vacant (old ! l) \<and> he_key (els ! j) = he_key (old ! l)"
  shows "used els + used (take i old) \<le> length els"
  using assms(2-)
proof (induction i arbitrary: h els)
  case 0
  then show ?case by (simp add: used_def)
next
  case (Suc i)
  let ?e = "old ! i"
  have i: "i < length old" using Suc.prems(1) by simp
  have used_take: "used (take (Suc i) old) = used (take i old) + (if vacant ?e then 0 else 1)"
    using i by (simp add: take_Suc_conv_app_nth used_def)
  show ?case
  proof (cases "vacant ?e")
    case True
    have "used els + used (take i old) \<le> length els"
    proof (rule Suc.IH)
      show "uh_refill old i h = Some h'" using Suc.prems(2) True i by simp
      show "\<exists>l. i \<le> l \<and> l < length old \<and> \<not> vacant (old ! l) \<and> he_key (els ! j) = he_key (old ! l)"
        if "j < length els" "\<not> vacant (els ! j)" for j using Suc.prems(5) [OF that] by (auto dest: Suc_leD)
    qed (use Suc.prems i in simp_all)
    with True used_take show ?thesis by simp
  next
    case False
    obtain j where j: "uh_find (he_key ?e) (he_hashcode ?e) h = Some (Some j)"
      using Suc.prems(2,3) False i by (auto simp: bind_eq_Some_conv)
    note f = find_result [OF j Suc.prems(3)]
    have vac: "vacant (els ! j)"
    proof (rule ccontr)
      assume nv: "\<not> vacant (els ! j)"
      then obtain l where l: "Suc i \<le> l" "l < length old" "\<not> vacant (old ! l)" "he_key (els ! j) = he_key (old ! l)"
        using Suc.prems(5) [OF f(1)] by blast
      have "cmp (he_key ?e) (he_key (old ! l))" using f(2) nv l(4) Suc.prems(4) by simp
      then have "i = l" using assms(1) i l(2,3) False by (simp add: els_ok_def)
      with l(1) show False by simp
    qed
    let ?els = "els[j := ?e]"
    have "used ?els + used (take i old) \<le> length ?els"
    proof (rule Suc.IH)
      show "uh_refill old i (h\<lparr>uh_elements := Some ?els, uh_count := uh_count h + 1\<rparr>) = Some h'"
        using Suc.prems(2,3) False i j f(1) by simp
      show "\<exists>l. i \<le> l \<and> l < length old \<and> \<not> vacant (old ! l) \<and> he_key (?els ! m) = he_key (old ! l)"
        if m: "m < length ?els" "\<not> vacant (?els ! m)" for m
      proof (cases "m = j")
        case True
        then show ?thesis using f(1) i False by auto
      next
        case no: False
        then show ?thesis using Suc.prems(5) [of m] m by (auto dest: Suc_leD)
      qed
    qed (use Suc.prems i in simp_all)
    moreover have "used ?els = Suc (used els)" using used_update [OF f(1), of ?e] vac False by simp
    ultimately show ?thesis using used_take False by simp
  qed
qed

text \<open>A rehash without memory, and one into an array that is shorter than the number of elements.\<close>

lemma rehash_fails:
  assumes "uh_elements h \<noteq> None" "\<not> U_FAILURE status"
    "p = (if uh_count h > uh_highWaterMark h then uh_primeIndex h + 1 else uh_primeIndex h - 1)"
    "uh_count h > uh_highWaterMark h \<or> uh_count h < uh_lowWaterMark h" "0 \<le> p" "p < 28" "\<not> uprv_malloc hp (24 * PRIMES ! nat p)"
  shows "uh_rehash hp h status = Some (h\<lparr>uh_primeIndex := p\<rparr>, U_MEMORY_ALLOCATION_ERROR)"
proof -
  obtain els where els: "uh_elements h = Some els" using assms(1) by blast
  have run: "uh_rehash hp h status = do { (h', status') \<leftarrow> uh_allocate hp p h status;
      if U_FAILURE status' then Some (h'\<lparr>uh_elements := Some els, uh_length := uh_length h\<rparr>, status')
      else do { h' \<leftarrow> uh_refill els (nat (uh_length h)) h'; Some (h', status') } }"
    using assms(3-6) els by (auto simp: uh_rehash_def Let_def cong: if_cong)
  show ?thesis unfolding run allocate_spec [OF assms(2,5,6)] using assms(7) els by simp
qed

lemma rehash_too_small:
  assumes "els_ok (uh_keyHasher h) (uh_keyComparator h) (uh_length h) els" "uh_elements h = Some els" "uh_count h = int (used els)" "\<not> U_FAILURE status"
    "p = (if uh_count h > uh_highWaterMark h then uh_primeIndex h + 1 else uh_primeIndex h - 1)"
    "uh_count h > uh_highWaterMark h \<or> uh_count h < uh_lowWaterMark h" "0 \<le> p" "p < 28" "uprv_malloc hp (24 * PRIMES ! nat p)"
    "PRIMES ! nat p < uh_count h"
  shows "uh_rehash hp h status = None"
proof (rule ccontr)
  let ?n = "nat (PRIMES ! nat p)"
  let ?h = "uh_setMarks (h\<lparr>uh_primeIndex := p, uh_length := PRIMES ! nat p, uh_elements := Some (replicate ?n empty_element), uh_count := 0\<rparr>)"
  have run: "uh_rehash hp h status = do { (h', status') \<leftarrow> uh_allocate hp p h status;
      if U_FAILURE status' then Some (h'\<lparr>uh_elements := Some els, uh_length := uh_length h\<rparr>, status')
      else do { h' \<leftarrow> uh_refill els (nat (uh_length h)) h'; Some (h', status') } }"
    using assms(2,5-8) by (auto simp: uh_rehash_def Let_def cong: if_cong)
  have len: "nat (uh_length h) = length els" using assms(1) by (simp add: els_ok_def)
  assume "uh_rehash hp h status \<noteq> None"
  then obtain h' where "uh_refill els (length els) ?h = Some h'"
    unfolding run allocate_spec [OF assms(4,7,8)] using assms(4,9) len by (auto simp: bind_eq_Some_conv)
  from refill_result [OF assms(1) le_refl this, of "replicate ?n empty_element"]
  have "used els \<le> ?n" by (simp add: uh_setMarks_def vacant_def empty_element_def HASH_EMPTY_def)
  moreover have "0 < PRIMES ! nat p"
  proof -
    have "list_all (\<lambda>n. 0 < n) PRIMES" by (simp add: PRIMES_def)
    moreover have "nat p < length PRIMES" using assms(7,8) by simp
    ultimately show ?thesis by (simp only: list_all_length)
  qed
  ultimately show False using assms(3,10) by linarith
qed

end
