(* ===== verification/HashProps.thy ===== *)
theory HashProps
  imports UHashProps
begin

text \<open>
  The class \<open>Hashtable\<close> of hash.h and the properties of the hash tables. A \<open>Hashtable\<close> is a table whose
  keys are pointers to strings, none when its constructor failed; a method that uses the null pointer has no result.
  \<open>put\<close> copies its key: \<open>newKey\<close> is the pointer that operator new gives for the copy, none when it fails.
\<close>

section \<open>Hashtable\<close>

type_synonym ('p, 'v) hashtable = "('p option, 'v) uhashtable option"

definition Hashtable_init ::
  "'x heap \<Rightarrow> ('p option \<Rightarrow> int) \<Rightarrow> ('p option \<Rightarrow> 'p option \<Rightarrow> bool) \<Rightarrow> ('v::zero \<Rightarrow> 'v \<Rightarrow> bool) option \<Rightarrow> UErrorCode \<Rightarrow>
   (('p, 'v) hashtable \<times> UErrorCode) option" where
  "Hashtable_init hp keyHash keyComp valueComp status =
     (if U_FAILURE status then Some (None, status)
      else do { (h, status) \<leftarrow> uhash_init hp keyHash keyComp valueComp status;
                if U_FAILURE status then Some (None, status)
                else Some (map_option (\<lambda>h. fst (uhash_setKeyDeleter True h)) h, status) })"

definition Hashtable_comparing ::
  "'x heap \<Rightarrow> ('p \<Rightarrow> int list) \<Rightarrow> ('p option \<Rightarrow> 'p option \<Rightarrow> bool) \<Rightarrow> ('v::zero \<Rightarrow> 'v \<Rightarrow> bool) option \<Rightarrow> UErrorCode \<Rightarrow>
   (('p, 'v) hashtable \<times> UErrorCode) option" where
  "Hashtable_comparing hp mem keyComp valueComp status = Hashtable_init hp (uhash_hashUnicodeString mem) keyComp valueComp status"

definition Hashtable_new :: "'x heap \<Rightarrow> ('p \<Rightarrow> int list) \<Rightarrow> UErrorCode \<Rightarrow> (('p, 'v::zero) hashtable \<times> UErrorCode) option" where
  "Hashtable_new hp mem status =
     Hashtable_init hp (uhash_hashUnicodeString mem) (uhash_compareUnicodeStringKey mem) None status"

definition Hashtable_close :: "('p, 'v::zero) hashtable \<Rightarrow> ('p, 'v) hashtable option" where
  "Hashtable_close t = (case t of None \<Rightarrow> Some None | Some h \<Rightarrow> do { h \<leftarrow> uhash_close h; Some (Some h) })"

definition Hashtable_setValueDeleter :: "bool \<Rightarrow> ('p, 'v) hashtable \<Rightarrow> (('p, 'v) hashtable \<times> bool) option" where
  "Hashtable_setValueDeleter fn t = do { h \<leftarrow> t; let r = uhash_setValueDeleter fn h; Some (Some (fst r), snd r) }"

definition Hashtable_count :: "('p, 'v) hashtable \<Rightarrow> int option" where
  "Hashtable_count t = do { h \<leftarrow> t; Some (uhash_count h) }"

definition Hashtable_put ::
  "'x heap \<Rightarrow> 'p option \<Rightarrow> 'v::zero \<Rightarrow> ('p, 'v) hashtable \<Rightarrow> UErrorCode \<Rightarrow> (('p, 'v) hashtable \<times> 'v \<times> UErrorCode) option" where
  "Hashtable_put hp newKey value t status =
     do { h \<leftarrow> t; (h, old, status) \<leftarrow> uhash_put hp newKey value h status; Some (Some h, old, status) }"

definition Hashtable_puti ::
  "'x heap \<Rightarrow> 'p option \<Rightarrow> 'v::zero \<Rightarrow> ('p, 'v) hashtable \<Rightarrow> UErrorCode \<Rightarrow> (('p, 'v) hashtable \<times> 'v \<times> UErrorCode) option" where
  "Hashtable_puti hp newKey value t status =
     do { h \<leftarrow> t; (h, old, status) \<leftarrow> uhash_puti hp newKey value h status; Some (Some h, old, status) }"

definition Hashtable_get :: "'p \<Rightarrow> ('p, 'v) hashtable \<Rightarrow> 'v option" where
  "Hashtable_get key t = do { h \<leftarrow> t; uhash_get (Some key) h }"

definition Hashtable_remove :: "'x heap \<Rightarrow> 'p \<Rightarrow> ('p, 'v::zero) hashtable \<Rightarrow> (('p, 'v) hashtable \<times> 'v) option" where
  "Hashtable_remove hp key t = do { h \<leftarrow> t; (h, old) \<leftarrow> uhash_remove hp (Some key) h; Some (Some h, old) }"

definition Hashtable_find :: "'p \<Rightarrow> ('p, 'v) hashtable \<Rightarrow> nat option option" where
  "Hashtable_find key t = do { h \<leftarrow> t; uhash_find (Some key) h }"

definition Hashtable_nextElement :: "int \<Rightarrow> ('p, 'v) hashtable \<Rightarrow> nat option option" where
  "Hashtable_nextElement pos t = do { h \<leftarrow> t; uhash_nextElement pos h }"

definition Hashtable_removeAll :: "('p, 'v::zero) hashtable \<Rightarrow> ('p, 'v) hashtable option" where
  "Hashtable_removeAll t = do { h \<leftarrow> t; h \<leftarrow> uhash_removeAll h; Some (Some h) }"

definition Hashtable_equals :: "bool \<Rightarrow> ('p, 'v) hashtable \<Rightarrow> ('p, 'v) hashtable \<Rightarrow> bool option" where
  "Hashtable_equals sameComps t1 t2 =
     (case t1 of None \<Rightarrow> Some (t2 = None)
      | Some h1 \<Rightarrow> (case t2 of None \<Rightarrow> Some False | Some h2 \<Rightarrow> uhash_equals sameComps h1 h2))"

section \<open>Properties\<close>

text \<open>A small table: 5 stands for 50 and 7 for 70, in the slots \<open>i\<close> and \<open>j\<close>.\<close>

definition two_els :: "nat \<Rightarrow> nat \<Rightarrow> nat \<Rightarrow> (int, int) uhelement list" where
  "two_els n i j = (replicate n empty_element)
     [i := \<lparr>he_hashcode = 5, he_value = 50, he_key = 5\<rparr>, j := \<lparr>he_hashcode = 7, he_value = 70, he_key = 7\<rparr>]"

definition hash_ex :: "(int, int) uhashtable" where
  "hash_ex = \<lparr>uh_elements = Some (two_els 13 9 11),
     uh_keyHasher = uhash_hashLong, uh_keyComparator = uhash_compareLong, uh_valueComparator = Some (=),
     uh_keyDeleter = False, uh_valueDeleter = True, uh_count = 2, uh_length = 13, uh_highWaterMark = 6, uh_lowWaterMark = 0,
     uh_highWaterRatio = 67108864, uh_lowWaterRatio = 0, uh_primeIndex = 0, uh_allocated = True,
     uh_deletedKeys = [], uh_deletedValues = []\<rparr>"

text \<open>The same elements in a table that is about to shrink.\<close>

definition hash_low :: "(int, int) uhashtable" where
  "hash_low = hash_ex\<lparr>uh_elements := Some (two_els 31 7 9), uh_length := 31, uh_highWaterMark := 15, uh_lowWaterMark := 3,
     uh_lowWaterRatio := 13421773, uh_primeIndex := 1\<rparr>"

definition heap_ex :: "unit heap" where
  "heap_ex = \<lparr>can_alloc = (\<lambda>n. n \<le> 25769802936), junk = (\<lambda>_. ())\<rparr>"

lemma home_path: "0 < len \<Longrightarrow> nat (slot len hc 0) = i \<Longrightarrow> open_path els len hc i"
  by (simp add: open_path_def order_def upt_conv_Cons)

lemma two_els_ok:
  assumes "i < n" "j < n" "i \<noteq> j" "nat (slot (int n) 5 0) = i" "nat (slot (int n) 7 0) = j"
  shows "els_ok uhash_hashLong uhash_compareLong (int n) (two_els n i j)" "used (two_els n i j) = 2"
proof -
  let ?a = "\<lparr>he_hashcode = 5, he_value = 50, he_key = 5\<rparr> :: (int, int) uhelement"
  let ?b = "\<lparr>he_hashcode = 7, he_value = 70, he_key = 7\<rparr> :: (int, int) uhelement"
  have at: "two_els n i j ! l = (if l = j then ?b else if l = i then ?a else empty_element)" if "l < n" for l
    using that by (simp add: two_els_def nth_list_update)
  have len: "length (two_els n i j) = n" by (simp add: two_els_def)
  have path: "open_path (two_els n i j) (int n) 5 i" "open_path (two_els n i j) (int n) 7 j"
    using assms by (auto intro: home_path)
  have vac: "he_hashcode (empty_element :: (int, int) uhelement) < 0" "he_value (empty_element :: (int, int) uhelement) = 0"
    "he_key (empty_element :: (int, int) uhelement) = 0" by (simp_all add: empty_element_def HASH_EMPTY_def)
  show "els_ok uhash_hashLong uhash_compareLong (int n) (two_els n i j)"
    unfolding els_ok_def len using path vac assms(3)
    by (auto simp: at uhash_hashLong_def uhash_compareLong_def positive_def vacant_def split: if_splits)
  let ?e = "replicate n empty_element :: (int, int) uhelement list"
  show "used (two_els n i j) = 2"
    using used_update [of i ?e ?a] used_update [of j "?e[i := ?a]" ?b] assms(1-3) vac
    by (simp add: two_els_def vacant_def)
qed

lemma hash_ex_ok: "uh_ok hash_ex"
  using two_els_ok [of 9 13 11] by (simp add: uh_ok_def hash_ex_def PRIMES_def slot_def two_els_def)

lemma hash_low_ok: "uh_ok hash_low"
proof -
  have "water_mark 31 13421773 = 3" by code_simp
  then show ?thesis using two_els_ok [of 7 31 9] by (simp add: uh_ok_def hash_low_def hash_ex_def PRIMES_def slot_def two_els_def)
qed

lemma hash_ex_fns [simp]:
  "uh_keyHasher hash_ex = uhash_hashLong" "uh_keyComparator hash_ex = uhash_compareLong" "uh_lowWaterRatio hash_ex = 0"
  "uh_valueComparator hash_ex = Some (=)"
  by (simp_all add: hash_ex_def)

lemma heap_ex_memory: "uh_ok h \<Longrightarrow> uh_memory heap_ex h"
proof -
  assume "uh_ok h"
  then have "uh_primeIndex h = 0 \<or> nat (uh_primeIndex h - 1) < 27" by (auto simp: uh_ok_def)
  with PRIMES_small [of "nat (uh_primeIndex h - 1)"] show ?thesis
    by (auto simp: uh_memory_def heap_ex_def uprv_malloc_def)
qed

lemma open_ex: "\<exists>h. uhash_openSize heap_ex uhash_hashLong uhash_compareLong (None :: (int \<Rightarrow> int \<Rightarrow> bool) option) 1 U_ZERO_ERROR = Some (Some h, U_ZERO_ERROR)"
proof -
  have "uprv_malloc heap_ex 80" "uprv_malloc heap_ex (24 * PRIMES ! nat 0)" by (simp_all add: uprv_malloc_def heap_ex_def PRIMES_def)
  then show ?thesis
    by (simp add: uhash_openSize_def uh_create_def uh_init_def uh_setRatios_def uh_setMarks_def allocate_spec PRIMES_def)
qed

text \<open>C8: a table that uhash_openSize opened with a size of at most 1073741789 and a comparator that is an equivalence and agrees
  with the hash function, and on which any sequence of put, remove,
  removeAll, setResizePolicy and set-deleter calls was made, is well-formed: a slot stays free, the count is right, every
  stored hash code is 31 bits wide and that of its key, no two keys are equal, and each key can be reached by the search,
  which returns for every key. Requests for memory may fail when the table grows, but two conditions hold for each call:
  the request for the array of the largest length, of 51539607528 bytes, fails, and a table with the policy
  U_GROW_AND_SHRINK can have the array of the next smaller prime index.\<close>

theorem hash_reachable_ok:
  assumes "key_contract hasher cmp" "uh_reach hasher cmp h"
  shows "uh_ok h \<and> 0 \<le> uhash_count h \<and> uhash_count h < uh_length h \<and>
    (\<forall>key. uhash_get key h \<noteq> None \<and> uhash_find key h \<noteq> None)"
proof -
  have ok: "uh_ok h" "uh_keyHasher h = hasher" "uh_keyComparator h = cmp"
    using key_contract.reach_ok [OF assms] by blast+
  have "uhash_get key h \<noteq> None \<and> uhash_find key h \<noteq> None" for key
    using key_contract.get_spec [OF assms(1) ok, of key] by auto
  moreover obtain els where "uh_elements h = Some els" "els_ok (uh_keyHasher h) (uh_keyComparator h) (uh_length h) els"
    "uh_count h = int (used els)" "used els < length els" "is_prime (uh_length h)" "uh_length h \<le> 1073741824"
    "length els = nat (uh_length h)"
    using uh_okE [OF ok(1)] .
  ultimately show ?thesis using ok(1) by (simp add: uhash_count_def)
qed

lemma hash_reachable_ok_witness:
  "\<exists>h :: (int, int) uhashtable. uh_reach uhash_hashLong uhash_compareLong h \<and> uh_ok h \<and> uhash_get 5 h \<noteq> None"
proof -
  obtain h where "uhash_openSize heap_ex uhash_hashLong uhash_compareLong (None :: (int \<Rightarrow> int \<Rightarrow> bool) option) 1 U_ZERO_ERROR = Some (Some h, U_ZERO_ERROR)"
    using open_ex by blast
  then have "uh_reach uhash_hashLong uhash_compareLong h" by (rule uh_reach.opened) simp
  with hash_reachable_ok [OF long.key_contract_axioms this] show ?thesis by blast
qed



text \<open>C39: on a well-formed table whose comparator is an equivalence that agrees with its hash function, get returns the value
  of the key, and the null token when it has none; find returns the slot of its element, or a null pointer.\<close>

theorem hash_get:
  assumes "key_contract (uh_keyHasher h) (uh_keyComparator h)" "uh_ok h"
  shows "uhash_get key h = Some (case uh_contents h key of None \<Rightarrow> 0 | Some v \<Rightarrow> v) \<and>
    (\<exists>r. uhash_find key h = Some r \<and> (r = None \<longleftrightarrow> uh_contents h key = None) \<and>
      (\<forall>i els. r = Some i \<longrightarrow> uh_elements h = Some els \<longrightarrow> i < length els \<and> uh_entry h key = Some (els ! i)))"
proof -
  note s = key_contract.get_spec [OF assms(1,2) refl refl, of key]
  have "stored_value h key = (case uh_contents h key of None \<Rightarrow> 0 | Some v \<Rightarrow> v)"
    by (simp add: stored_value_def uh_contents_def split: option.split)
  with s(1) s(2) show ?thesis by (auto simp: uh_contents_def)
qed

lemma hash_get_witness: "uhash_get 5 hash_ex = Some 50 \<and> uhash_get 6 hash_ex = Some 0"
proof -
  have c: "key_contract (uh_keyHasher hash_ex) (uh_keyComparator hash_ex)" using long.key_contract_axioms by simp
  have "uh_contents hash_ex 5 = Some 50" "uh_contents hash_ex 6 = None" by code_simp+
  with hash_get [OF c hash_ex_ok, of 5] hash_get [OF c hash_ex_ok, of 6] show ?thesis by simp
qed

text \<open>C12: remove on a well-formed table unbinds the key and every equal key, hands its stored key and value to the
  deleters and returns the value when there is no value deleter; a key that is not there changes nothing. A table that
  shrinks on the way keeps its other elements, provided that it finds memory for the array of the next smaller prime index;
  the request for the array of the largest length, 51539607528 bytes, is taken to fail.\<close>

theorem hash_remove:
  assumes "key_contract (uh_keyHasher h) (uh_keyComparator h)" "uh_ok h" "uh_memory hp h"
  shows "\<exists>h'. uhash_remove hp key h = Some (h', if uh_valueDeleter h then 0 else stored_value h key) \<and>
    uh_removed h key h' \<and> uh_contents h' = (\<lambda>k. if uh_keyComparator h k key then None else uh_contents h k)"
proof -
  have "uh_removed h key h' \<Longrightarrow> uh_contents h' = (\<lambda>k. if uh_keyComparator h k key then None else uh_contents h k)" for h'
    by (auto simp: uh_removed_def uh_contents_def fun_eq_iff)
  with key_contract.remove_spec [OF assms(1,2) refl refl assms(3), of key] show ?thesis unfolding uhash_remove_def by metis
qed

lemma hash_remove_witness: "\<exists>h'. uhash_remove heap_ex 5 hash_ex = Some (h', 0) \<and> uh_contents h' 5 = None \<and> uh_deletedValues h' = [50]"
proof -
  have c: "key_contract (uh_keyHasher hash_ex) (uh_keyComparator hash_ex)" using long.key_contract_axioms by simp
  have e: "stored_value hash_ex 5 = 50" by code_simp
  obtain h' where "uhash_remove heap_ex 5 hash_ex = Some (h', if uh_valueDeleter hash_ex then 0 else stored_value hash_ex 5)"
    "uh_removed hash_ex 5 h'" "uh_contents h' = (\<lambda>k. if uh_keyComparator hash_ex k 5 then None else uh_contents hash_ex k)"
    using hash_remove [OF c hash_ex_ok heap_ex_memory [OF hash_ex_ok], of 5] by blast
  then show ?thesis using e by (auto simp: uh_removed_def hash_ex_def uhash_compareLong_def if_owned_def)
qed

text \<open>C10: rehashing a well-formed table keeps every element, the count and the settings, and leaves a well-formed table,
  whether it has nothing to do, grows, cannot grow for lack of memory, or shrinks. A table that may shrink must find
  memory for the array of the next smaller prime index, and the request for the array of the largest length, 51539607528
  bytes, is taken to fail.\<close>

theorem hash_rehash:
  assumes "key_contract (uh_keyHasher h) (uh_keyComparator h)" "uh_ok h" "uh_memory hp h" "\<not> U_FAILURE status"
  shows "\<exists>h' status'. uh_rehash hp h status = Some (h', status') \<and> uh_ok h' \<and> uh_entry h' = uh_entry h \<and>
    uh_count h' = uh_count h \<and> uh_setup h' = uh_setup h \<and> (status' = status \<or> status' = U_MEMORY_ALLOCATION_ERROR)"
  using key_contract.rehash_spec [OF assms(1,2) refl refl assms(3,4)] by (auto simp: uh_same_def)

lemma hash_rehash_witness:
  "\<exists>h' status'. uh_rehash heap_ex (hash_ex\<lparr>uh_highWaterMark := 1\<rparr>) U_ZERO_ERROR = Some (h', status') \<and> uh_count h' = 2"
proof -
  let ?h = "hash_ex\<lparr>uh_highWaterMark := 1\<rparr>"
  have "key_contract (uh_keyHasher ?h) (uh_keyComparator ?h)" using long.key_contract_axioms by simp
  moreover have "uh_ok ?h" using hash_ex_ok by (simp add: uh_ok_def cong: option.case_cong)
  moreover have "uh_count ?h = 2" by (simp add: hash_ex_def)
  ultimately show ?thesis using hash_rehash [OF _ _ heap_ex_memory, of ?h U_ZERO_ERROR] by auto
qed

text \<open>C11: removing all elements leaves no key and hands each stored key and value that is not null to its deleter, once
  each; closing does the same and frees the array.\<close>

theorem hash_release:
  assumes "key_contract (uh_keyHasher h) (uh_keyComparator h)" "uh_ok h" "uh_elements h = Some els"
  shows "(\<exists>h'. uhash_removeAll h = Some h' \<and> uh_ok h' \<and> uh_count h' = 0 \<and> uh_contents h' = (\<lambda>k. None) \<and>
      uh_deletedKeys h' = uh_deletedKeys h @ owned_keys (uh_keyDeleter h) els \<and>
      uh_deletedValues h' = uh_deletedValues h @ owned_values (uh_valueDeleter h) els) \<and>
    (\<exists>h'. uhash_close h = Some h' \<and> uh_elements h' = None \<and>
      uh_deletedKeys h' = uh_deletedKeys h @ owned_keys (uh_keyDeleter h) els \<and>
      uh_deletedValues h' = uh_deletedValues h @ owned_values (uh_valueDeleter h) els)"
proof
  show "\<exists>h'. uhash_removeAll h = Some h' \<and> uh_ok h' \<and> uh_count h' = 0 \<and> uh_contents h' = (\<lambda>k. None) \<and>
      uh_deletedKeys h' = uh_deletedKeys h @ owned_keys (uh_keyDeleter h) els \<and>
      uh_deletedValues h' = uh_deletedValues h @ owned_values (uh_valueDeleter h) els"
    using key_contract.removeAll_spec [OF assms(1,2) refl refl assms(3)] no_elements
    by (auto simp: uh_contents_def fun_eq_iff)
  have len: "length els = nat (uh_length h)" using assms(2,3) by (simp add: uh_ok_def els_ok_def)
  have "owned_keys False els = []" "owned_values False els = []" by (simp_all add: owned_keys_def owned_values_def)
  then show "\<exists>h'. uhash_close h = Some h' \<and> uh_elements h' = None \<and>
      uh_deletedKeys h' = uh_deletedKeys h @ owned_keys (uh_keyDeleter h) els \<and>
      uh_deletedValues h' = uh_deletedValues h @ owned_values (uh_valueDeleter h) els"
    using assms(3) len by (auto simp: uhash_close_def close_loop_owned)
qed

lemma hash_release_witness: "\<exists>h'. uhash_removeAll hash_ex = Some h' \<and> uh_count h' = 0 \<and> uh_deletedValues h' = [50, 70]"
proof -
  have c: "key_contract (uh_keyHasher hash_ex) (uh_keyComparator hash_ex)" using long.key_contract_axioms by simp
  obtain els where els: "uh_elements hash_ex = Some els" by (simp add: hash_ex_def)
  have "owned_values (uh_valueDeleter hash_ex) (the (uh_elements hash_ex)) = [50, 70] \<and> uh_deletedValues hash_ex = []" by code_simp
  with hash_release [OF c hash_ex_ok els] els show ?thesis by auto
qed

text \<open>C9: equals compares two tables with the same comparators as finite maps: they are equal exactly if they have the
  same keys, up to key equality, with values that compare equal. This needs that no value of the first table compares equal
  to the null token.\<close>

theorem hash_equals:
  assumes "key_contract (uh_keyHasher h1) (uh_keyComparator h1)" "uh_ok h1" "uh_ok h2" "uh_keyHasher h2 = uh_keyHasher h1"
    "uh_keyComparator h2 = uh_keyComparator h1" "uh_valueComparator h1 = Some vc"
    "\<And>k v. uh_contents h1 k = Some v \<Longrightarrow> \<not> vc v 0"
  shows "uhash_equals True h1 h2 = Some (\<forall>k. rel_option vc (uh_contents h1 k) (uh_contents h2 k))"
  using key_contract.equals_contents [OF assms(1,2) refl refl assms(3-6)] assms(7) by blast

lemma hash_equals_witness: "uhash_equals True hash_ex hash_ex = Some True"
proof -
  have c: "key_contract (uh_keyHasher hash_ex) (uh_keyComparator hash_ex)" using long.key_contract_axioms by simp
  have "\<forall>e \<in> set (in_use (the (uh_elements hash_ex))). he_value e \<noteq> 0" by code_simp
  then have "v \<noteq> 0" if "uh_contents hash_ex k = Some v" for k v
    using that long.entry_iff [OF hash_ex_ok hash_ex_fns(1,2), of _ k] by (auto simp: uh_contents_def hash_ex_def)
  then show ?thesis using hash_equals [OF c hash_ex_ok hash_ex_ok refl refl hash_ex_fns(4)] by (simp add: option.rel_eq)
qed

text \<open>C16: for any two well-formed tables with the same hash function and the same comparators, equals tells whether the counts
  are equal and each value of the first table compares equal to what the second has for its key, where a key that the second
  table does not have counts as bound to the null token 0. So with integer values a table that binds 1 to 0 equals one that
  binds 2 to 0.\<close>

theorem hash_equals_missing_key:
  assumes "key_contract (uh_keyHasher h1) (uh_keyComparator h1)" "uh_ok h1" "uh_ok h2" "uh_keyHasher h2 = uh_keyHasher h1"
    "uh_keyComparator h2 = uh_keyComparator h1" "uh_valueComparator h1 = Some vc"
  shows "uhash_equals True h1 h2 = Some (uh_count h1 = uh_count h2 \<and>
    (\<forall>k v. uh_contents h1 k = Some v \<longrightarrow> vc v (case uh_contents h2 k of None \<Rightarrow> 0 | Some w \<Rightarrow> w)))"
  by (rule key_contract.equals_stored [OF assms(1,2) refl refl assms(3-6)])

definition zero_table :: "nat \<Rightarrow> int \<Rightarrow> (int, int) uhashtable" where
  "zero_table i key = hash_ex\<lparr>uh_count := 1,
     uh_elements := Some ((replicate 13 empty_element)[i := \<lparr>he_hashcode = key, he_value = 0, he_key = key\<rparr>])\<rparr>"

lemma zero_table_ok:
  assumes "i < 13" "0 \<le> key" "positive key = key" "nat (slot 13 key 0) = i"
  shows "uh_ok (zero_table i key)" "uh_contents (zero_table i key) k = (if k = key then Some 0 else None)"
proof -
  let ?e = "\<lparr>he_hashcode = key, he_value = 0, he_key = key\<rparr> :: (int, int) uhelement"
  let ?r = "replicate 13 empty_element :: (int, int) uhelement list"
  have v: "\<not> vacant ?e" using assms(2) by (simp add: vacant_def)
  have path: "open_path ?r 13 (he_hashcode ?e) i" using assms(4) by (simp add: home_path)
  have r: "els_ok uhash_hashLong uhash_compareLong 13 ?r" "i < length ?r" "vacant (?r ! j)" if "j < 13" for j
    using assms(1) that els_ok_empty [of 13 13 uhash_hashLong uhash_compareLong]
    by (simp, simp, simp add: vacant_def empty_element_def HASH_EMPTY_def)
  have hc: "he_hashcode ?e = positive (uhash_hashLong (he_key ?e))" using assms(3) by (simp add: uhash_hashLong_def)
  have others: "j = i" if "j < length ?r" "\<not> vacant (?r ! j)" "uhash_compareLong (he_key ?e) (he_key (?r ! j))" for j
    using that r(3) [of j] by simp
  note slot = long.set_slot [OF r(1,2) [OF assms(1)] v hc path others disjI1 [OF r(3) [OF assms(1)]]]
  have "els_ok uhash_hashLong uhash_compareLong 13 (?r[i := ?e])" by (rule slot(1))
  moreover have l: "uh_lookup uhash_compareLong (?r[i := ?e]) k = (if k = key then Some ?e else None)"
    using slot(2) [of k] by (simp add: uhash_compareLong_def)
  moreover have "used (?r[i := ?e]) = 1"
    using used_update [of i ?r ?e] v assms(1) by (simp add: vacant_def empty_element_def HASH_EMPTY_def used_def)
  ultimately show "uh_ok (zero_table i key)" by (simp add: uh_ok_def zero_table_def hash_ex_def PRIMES_def)
  show "uh_contents (zero_table i key) k = (if k = key then Some 0 else None)"
    using l by (simp add: uh_contents_def uh_entry_def zero_table_def)
qed

lemma hash_equals_missing_key_witness:
  "uhash_equals True (zero_table 5 1) (zero_table 6 2) = Some True \<and>
    uh_contents (zero_table 5 1) 1 = Some 0 \<and> uh_contents (zero_table 6 2) 1 = None"
proof -
  have ok: "uh_ok (zero_table 5 1)" "uh_ok (zero_table 6 2)" "\<And>k. uh_contents (zero_table 5 1) k = (if k = 1 then Some 0 else None)"
    "\<And>k. uh_contents (zero_table 6 2) k = (if k = 2 then Some 0 else None)"
    by (rule zero_table_ok; simp add: slot_def positive_def)+
  have c: "key_contract (uh_keyHasher (zero_table 5 1)) (uh_keyComparator (zero_table 5 1))"
    using long.key_contract_axioms by (simp add: zero_table_def)
  have f: "uh_keyHasher (zero_table 6 2) = uh_keyHasher (zero_table 5 1)" "uh_keyComparator (zero_table 6 2) = uh_keyComparator (zero_table 5 1)"
    "uh_valueComparator (zero_table 5 1) = Some (=)" "uh_count (zero_table 5 1) = uh_count (zero_table 6 2)"
    by (simp_all add: zero_table_def)
  show ?thesis using hash_equals_missing_key [OF c ok(1,2) f(1-3)] f(4) ok(3,4) by simp
qed








text \<open>C14: resizing settles. Take a well-formed table with the default high ratio of one half, whose marks and prime index are
  those of its length, and whose count is one over the high water mark or one below the low one. When a rehash of it reports
  no error, the count lies between the marks of the table that it leaves, unless the table had to shrink and is already the
  smallest one; in both cases a second rehash does nothing. The heap refuses the array of the largest length, 51539607528
  bytes, and, when the table may shrink, has room for the array of the next smaller prime index.\<close>

theorem hash_settles:
  assumes "key_contract (uh_keyHasher h) (uh_keyComparator h)" "uh_ok h" "uh_memory hp h" "\<not> U_FAILURE status"
    "uh_highWaterRatio h = 67108864" "uh_highWaterMark h = water_mark (uh_length h) 67108864"
    "uh_length h = PRIMES ! nat (uh_primeIndex h)"
    "uh_count h = uh_highWaterMark h + 1 \<or> uh_count h = uh_lowWaterMark h - 1 \<and> uh_count h \<le> uh_highWaterMark h"
    "uh_rehash hp h status = Some (h', status')" "\<not> U_FAILURE status'"
  shows "uh_rehash hp h' status' = Some (h', status') \<and>
    (uh_lowWaterMark h' \<le> uh_count h' \<and> uh_count h' \<le> uh_highWaterMark h' \<or>
     uh_count h < uh_lowWaterMark h \<and> uh_primeIndex h = 0 \<and> h' = h)"
proof -
  define p where "p = (if uh_count h > uh_highWaterMark h then uh_primeIndex h + 1 else uh_primeIndex h - 1)"
  have out: "uh_count h > uh_highWaterMark h \<or> uh_count h < uh_lowWaterMark h" using assms(8) by auto
  have ok: "uh_primeIndex h \<le> 27" "0 \<le> uh_primeIndex h" "uh_lowWaterRatio h = 0 \<or> uh_lowWaterRatio h = 13421773"
    "uh_lowWaterMark h = water_mark (uh_length h) (uh_lowWaterRatio h)" using assms(2) by (simp_all add: uh_ok_def)
  have count: "uh_count h' = uh_count h"
    using key_contract.rehash_spec [OF assms(1,2) refl refl assms(3,4)] assms(9) by (auto simp: uh_same_def)
  have pos: "0 \<le> uh_count h" "uh_elements h \<noteq> None" using assms(2) by (auto simp: uh_ok_def split: option.splits)
  show ?thesis
  proof (cases "0 \<le> p \<and> p < 28")
    case False
    then have "uh_rehash hp h status = Some (h, status)" by (auto simp: uh_rehash_def Let_def p_def)
    moreover have "uh_primeIndex h \<noteq> 27"
    proof
      assume last: "uh_primeIndex h = 27"
      obtain k where "k < 27" "uh_length h = PRIMES ! k" using uh_length_cases [OF assms(2)] by metis
      with PRIMES_mono [of k 27] assms(7) last show False by simp
    qed
    then have "uh_count h \<le> uh_highWaterMark h \<and> uh_primeIndex h = 0" using False ok(1,2) by (auto simp: p_def split: if_splits)
    ultimately show ?thesis using assms(9) out by simp
  next
    case True
    then have range: "0 \<le> p" "p < 28" by blast+
    note new = rehash_success [OF assms(9,10,4) pos(2) p_def out range]
    have "\<not> (uh_count h > uh_highWaterMark h' \<or> uh_count h < uh_lowWaterMark h')"
    proof (cases "uh_count h > uh_highWaterMark h")
      case grow: True
      then have i: "nat p = Suc (nat (uh_primeIndex h))" "Suc (nat (uh_primeIndex h)) < 28" using ok(2) range by (simp_all add: p_def)
      have "uh_count h = uh_highWaterMark h + 1" using assms(8) grow by auto
      with marks_next [OF i(2)] new i(1) ok(3) pos(1) assms(5-7) show ?thesis by auto
    next
      case shrink: False
      then have i: "nat (uh_primeIndex h) = Suc (nat p)" "Suc (nat p) < 28" using ok(1) range by (simp_all add: p_def)
      have c: "uh_count h = uh_lowWaterMark h - 1" using assms(8) shrink by auto
      have r: "uh_lowWaterRatio h = 13421773" using shrink_only [OF assms(2)] c by simp
      from marks_next [OF i(2)] new i(1) ok(4) r c assms(5-7) show ?thesis by simp
    qed
    then show ?thesis using count by (simp add: uh_rehash_def not_less)
  qed
qed

lemma hash_settles_witness:
  "\<exists>h' status'. uh_rehash heap_ex hash_low U_ZERO_ERROR = Some (h', status') \<and> uh_length h' = 13 \<and>
    uh_rehash heap_ex h' status' = Some (h', status')"
proof -
  have c: "key_contract (uh_keyHasher hash_low) (uh_keyComparator hash_low)" using long.key_contract_axioms by (simp add: hash_low_def)
  have w: "water_mark 31 67108864 = 15" by code_simp
  have "map_option (\<lambda>r. (uh_length (fst r), snd r)) (uh_rehash heap_ex hash_low U_ZERO_ERROR) = Some (13, U_ZERO_ERROR)" by code_simp
  then obtain h' where r: "uh_rehash heap_ex hash_low U_ZERO_ERROR = Some (h', U_ZERO_ERROR)" "uh_length h' = 13" by auto
  have "uh_rehash heap_ex h' U_ZERO_ERROR = Some (h', U_ZERO_ERROR) \<and>
    (uh_lowWaterMark h' \<le> uh_count h' \<and> uh_count h' \<le> uh_highWaterMark h' \<or>
     uh_count hash_low < uh_lowWaterMark hash_low \<and> uh_primeIndex hash_low = 0 \<and> h' = hash_low)"
    by (rule hash_settles [OF c hash_low_ok heap_ex_memory [OF hash_low_ok] _ _ _ _ _ r(1)]) (simp_all add: hash_low_def hash_ex_def w PRIMES_def)
  with r show ?thesis by blast
qed

text \<open>C13: in a \<open>Hashtable\<close> the keys are compared as strings: after a put, without an error, of a value that is not null with
  a copy of a key, get with any pointer to an equal string returns the value, and get with another string what it returned
  before. The heap refuses the array of the largest length, 51539607528 bytes, and, when the table may shrink, has room for
  the array of the next smaller prime index.\<close>

theorem hashtable_put_get:
  assumes "uh_ok h" "uh_keyHasher h = uhash_hashUnicodeString mem" "uh_keyComparator h = uhash_compareUnicodeStringKey mem"
    "uh_memory hp h" "\<not> U_FAILURE status" "value \<noteq> 0"
    "Hashtable_put hp (Some p) value (Some h) status = Some (t, old, status')" "\<not> U_FAILURE status'"
  shows "Hashtable_get q t = (if mem q = mem p then Some value else Hashtable_get q (Some h))"
proof -
  obtain h' where put: "uh_put hp True (Some p) value h status = Some (h', old, status')" "t = Some h'"
    using assms(7) by (auto simp: Hashtable_put_def uhash_put_def bind_eq_Some_conv)
  have nz: "\<not> (True \<and> value = 0)" using assms(6) by simp
  have st: "uh_stored h (Some p) value h'"
    using us.put_spec [OF assms(1-5) nz, of "Some p"] put(1) assms(8) by auto
  then have fns: "uh_ok h'" "uh_keyHasher h' = uhash_hashUnicodeString mem" "uh_keyComparator h' = uhash_compareUnicodeStringKey mem"
    using assms(2,3) by (auto simp: uh_stored_def dest: uh_setupD)
  have same: "uhash_compareUnicodeStringKey mem (Some q) (Some p) \<longleftrightarrow> mem q = mem p"
    by (simp add: uhash_compareUnicodeStringKey_def same_pointer_def)
  have "stored_value h' (Some q) = (if mem q = mem p then value else stored_value h (Some q))"
    using st assms(3) same by (simp add: uh_stored_def stored_value_def)
  then show ?thesis
    using us.get_spec(1) [OF fns, of "Some q"] us.get_spec(1) [OF assms(1-3), of "Some q"] put(2) by (simp add: Hashtable_get_def)
qed

definition hashtable_ex :: "(nat option, int) uhashtable" where
  "hashtable_ex = \<lparr>uh_elements = Some (replicate 13 empty_element),
     uh_keyHasher = uhash_hashUnicodeString (\<lambda>p. [97, int p div 2]), uh_keyComparator = uhash_compareUnicodeStringKey (\<lambda>p. [97, int p div 2]),
     uh_valueComparator = None,
     uh_keyDeleter = True, uh_valueDeleter = False, uh_count = 0, uh_length = 13, uh_highWaterMark = 6, uh_lowWaterMark = 0,
     uh_highWaterRatio = 67108864, uh_lowWaterRatio = 0, uh_primeIndex = 0, uh_allocated = True,
     uh_deletedKeys = [], uh_deletedValues = []\<rparr>"

lemma hashtable_put_get_witness:
  "\<exists>t. Hashtable_put heap_ex (Some 6) 42 (Some hashtable_ex) U_ZERO_ERROR = Some (t, 0, U_ZERO_ERROR) \<and> Hashtable_get 7 t = Some 42"
proof -
  let ?mem = "\<lambda>p :: nat. [97, int p div 2]"
  have fns: "uh_keyHasher hashtable_ex = uhash_hashUnicodeString ?mem" "uh_keyComparator hashtable_ex = uhash_compareUnicodeStringKey ?mem"
    by (simp_all add: hashtable_ex_def)
  have ok: "uh_ok hashtable_ex"
    by (rule uh_okI [of _ "replicate 13 empty_element" 0]) (simp_all add: hashtable_ex_def els_ok_empty PRIMES_def)
  have "map_option snd (Hashtable_put heap_ex (Some 6) 42 (Some hashtable_ex) U_ZERO_ERROR) = Some (0, U_ZERO_ERROR)" by code_simp
  then obtain t where t: "Hashtable_put heap_ex (Some 6) 42 (Some hashtable_ex) U_ZERO_ERROR = Some (t, 0, U_ZERO_ERROR)" by auto
  have "Hashtable_get 7 t = (if ?mem 7 = ?mem 6 then Some 42 else Hashtable_get 7 (Some hashtable_ex))"
    by (rule hashtable_put_get [OF ok fns heap_ex_memory [OF ok] _ _ t]) simp_all
  with t show ?thesis by simp
qed

end
