(* ===== verification/USetIter.thy ===== *)
theory USetIter
  imports USetQuery
begin

text \<open>
  \<open>UnicodeSetIterator\<close> (usetiter.cpp, unicode/usetiter.h): the code points of a set in ascending order, one by
  one or range by range, and then its strings. \<open>codepoint\<close> and \<open>codepointEnd\<close> have arbitrary values until the
  first step. \<open>getString\<close> keeps one string for the code points (\<open>cpString\<close>); \<open>string\<close> may point at it, and it is
  only set again when \<open>string\<close> is NULL, so the field holds the string itself. Its at most two units fit in the
  buffer inside the string object.
\<close>

record 'ss setiter =
  it_set :: "'ss uset option"
  it_codepoint :: int
  it_codepointEnd :: int
  it_string :: "ustr option"
  it_endRange :: int
  it_range :: int
  it_endElement :: int
  it_nextElement :: int
  it_nextString :: int
  it_stringCount :: int
  it_cpString :: "ustr option"

definition it_loadRange :: "int \<Rightarrow> 'ss setiter \<Rightarrow> 'ss setiter option" where
  "it_loadRange iRange it =
     do { s \<leftarrow> it_set it; a \<leftarrow> us_getRangeStart s (nat iRange); b \<leftarrow> us_getRangeEnd s (nat iRange);
          Some (it\<lparr>it_nextElement := a, it_endElement := b\<rparr>) }"

definition it_reset :: "'ss setiter \<Rightarrow> 'ss setiter option" where
  "it_reset it =
     do { (endRange, stringCount) \<leftarrow> (case it_set it of None \<Rightarrow> Some (- 1, 0)
            | Some s \<Rightarrow> do { n \<leftarrow> us_getStringCount s; Some (int (us_getRangeCount s) - 1, n) });
          let it = it\<lparr>it_endRange := endRange, it_stringCount := stringCount, it_range := 0, it_endElement := - 1, it_nextElement := 0\<rparr>;
          it \<leftarrow> (if endRange \<ge> 0 then it_loadRange 0 it else Some it);
          Some (it\<lparr>it_nextString := 0, it_string := None\<rparr>) }"

definition it_resetTo :: "'ss uset \<Rightarrow> 'ss setiter \<Rightarrow> 'ss setiter option" where
  "it_resetTo s it = it_reset (it\<lparr>it_set := Some s\<rparr>)"

text \<open>The constructors, over the memory \<open>raw\<close> of the object.\<close>

definition it_new :: "'ss setiter \<Rightarrow> 'ss setiter option" where
  "it_new raw = it_reset (raw\<lparr>it_set := None, it_cpString := None\<rparr>)"

definition it_newOn :: "'ss uset \<Rightarrow> 'ss setiter \<Rightarrow> 'ss setiter option" where
  "it_newOn s raw = it_resetTo s (raw\<lparr>it_cpString := None\<rparr>)"

definition IS_STRING :: int where "IS_STRING = - 1"

definition it_isString :: "'ss setiter \<Rightarrow> bool" where
  "it_isString it \<longleftrightarrow> it_codepoint it = IS_STRING"

definition it_takeString :: "'ss setiter \<Rightarrow> (bool \<times> 'ss setiter) option" where
  "it_takeString it =
     (if it_nextString it \<ge> it_stringCount it then Some (False, it)
      else do { s \<leftarrow> it_set it; v \<leftarrow> us_strings s; t \<leftarrow> uv_elementAt v (it_nextString it);
                Some (True, it\<lparr>it_codepoint := IS_STRING, it_string := t, it_nextString := it_nextString it + 1\<rparr>) })"

definition it_takeElement :: "'ss setiter \<Rightarrow> 'ss setiter" where
  "it_takeElement it = it\<lparr>it_codepoint := it_nextElement it, it_codepointEnd := it_nextElement it,
     it_nextElement := it_nextElement it + 1, it_string := None\<rparr>"

definition it_next :: "'ss setiter \<Rightarrow> (bool \<times> 'ss setiter) option" where
  "it_next it =
     (if it_nextElement it \<le> it_endElement it then Some (True, it_takeElement it)
      else if it_range it < it_endRange it
      then do { it \<leftarrow> it_loadRange (it_range it + 1) (it\<lparr>it_range := it_range it + 1\<rparr>); Some (True, it_takeElement it) }
      else it_takeString it)"

definition it_takeRange :: "'ss setiter \<Rightarrow> 'ss setiter" where
  "it_takeRange it = it\<lparr>it_codepointEnd := it_endElement it, it_codepoint := it_nextElement it, it_nextElement := it_endElement it + 1\<rparr>"

definition it_nextRange :: "'ss setiter \<Rightarrow> (bool \<times> 'ss setiter) option" where
  "it_nextRange it0 =
     (let it = it0\<lparr>it_string := None\<rparr> in
      if it_nextElement it \<le> it_endElement it then Some (True, it_takeRange it)
      else if it_range it < it_endRange it
      then do { it \<leftarrow> it_loadRange (it_range it + 1) (it\<lparr>it_range := it_range it + 1\<rparr>); Some (True, it_takeRange it) }
      else it_takeString it)"

text \<open>\<open>U16_APPEND\<close> into a buffer of two units (None: \<open>isError\<close>) and \<open>UnicodeString::setTo(UChar32)\<close>.\<close>

definition u16_append :: "int \<Rightarrow> int list option" where
  "u16_append c =
     (if 0 \<le> c \<and> c \<le> 65535 then Some [c]
      else if 0 \<le> c \<and> c \<le> 1114111 then Some [c div 1024 + 55232, c mod 1024 + 56320]
      else None)"

definition ustr_setToCp :: "int \<Rightarrow> ustr" where
  "ustr_setToCp c = UStr (case u16_append c of Some us \<Rightarrow> us | None \<Rightarrow> [])"

definition it_getString :: "bool \<Rightarrow> 'ss setiter \<Rightarrow> (ustr \<times> 'ss setiter) option" where
  "it_getString can_new it =
     (let it = (if it_string it = None \<and> it_codepoint it \<noteq> IS_STRING
                then let cp = (if it_cpString it = None \<and> can_new then Some (UStr []) else it_cpString it);
                         cp = map_option (\<lambda>_. ustr_setToCp (it_codepoint it)) cp
                     in it\<lparr>it_cpString := cp, it_string := cp\<rparr>
                else it)
      in do { t \<leftarrow> it_string it; Some (t, it) })"

section \<open>A client that takes all\<close>

partial_function (option) it_collect ::
  "('ss setiter \<Rightarrow> (bool \<times> 'ss setiter) option) \<Rightarrow> 'ss setiter \<Rightarrow> (int \<times> int \<times> ustr option) list option" where
  "it_collect step it =
     do { r \<leftarrow> step it;
          if fst r
          then do { rest \<leftarrow> it_collect step (snd r);
                    Some ((if it_isString (snd r) then (IS_STRING, IS_STRING, it_string (snd r))
                           else (it_codepoint (snd r), it_codepointEnd (snd r), it_string (snd r))) # rest) }
          else Some [] }"

declare it_collect.simps [code]

text \<open>A client that asks for the string of every element.\<close>

partial_function (option) it_strings :: "bool \<Rightarrow> 'ss setiter \<Rightarrow> ustr list option" where
  "it_strings can_new it =
     do { r \<leftarrow> it_next it;
          if fst r
          then do { g \<leftarrow> it_getString can_new (snd r); rest \<leftarrow> it_strings can_new (snd g); Some (fst g # rest) }
          else Some [] }"

declare it_strings.simps [code]

section \<open>What is left\<close>

definition codes_of :: "int \<times> int \<Rightarrow> int list" where
  "codes_of p = [fst p..snd p - 1]"

definition left_codes :: "(int \<times> int) list \<Rightarrow> 'ss setiter \<Rightarrow> int list" where
  "left_codes ps it = [it_nextElement it..it_endElement it] @ concat (map codes_of (drop (nat (it_range it + 1)) ps))"

definition left_ranges :: "(int \<times> int) list \<Rightarrow> 'ss setiter \<Rightarrow> (int \<times> int) list" where
  "left_ranges ps it = (if it_nextElement it \<le> it_endElement it then [(it_nextElement it, it_endElement it)] else []) @
     map (\<lambda>(a, b). (a, b - 1)) (drop (nat (it_range it + 1)) ps)"

definition left_strings :: "ustr list \<Rightarrow> 'ss setiter \<Rightarrow> ustr list" where
  "left_strings ss it = drop (nat (it_nextString it)) ss"

definition it_ok :: "'ss uset \<Rightarrow> (int \<times> int) list \<Rightarrow> ustr list \<Rightarrow> 'ss setiter \<Rightarrow> bool" where
  "it_ok s ps ss it \<longleftrightarrow> it_set it = Some s \<and> it_endRange it = int (length ps) - 1 \<and> 0 \<le> it_range it \<and>
     it_stringCount it = int (length ss) \<and> 0 \<le> it_nextString it \<and> 0 \<le> it_nextElement it"

definition shape :: "'ss uset \<Rightarrow> (int \<times> int) list \<Rightarrow> ustr list \<Rightarrow> bool" where
  "shape s ps ss \<longleftrightarrow> us_getRangeCount s = length ps \<and>
     (\<forall>i < length ps. us_getRangeStart s i = Some (fst (ps ! i)) \<and> us_getRangeEnd s i = Some (snd (ps ! i) - 1) \<and>
        0 \<le> fst (ps ! i) \<and> fst (ps ! i) < snd (ps ! i)) \<and>
     (\<exists>v. us_strings s = Some v \<and> uv_count v = int (length ss) \<and> (\<forall>i < length ss. uv_elementAt v (int i) = Some (Some (ss ! i))))"

lemma load_range:
  assumes "shape s ps ss" "it_set it = Some s" "0 \<le> r" "r < int (length ps)"
  shows "it_loadRange r it = Some (it\<lparr>it_nextElement := fst (ps ! nat r), it_endElement := snd (ps ! nat r) - 1\<rparr>)"
proof -
  have "nat r < length ps" using assms(3,4) by simp
  then show ?thesis using assms(1,2) by (simp add: it_loadRange_def shape_def)
qed

lemma take_string_spec:
  assumes "shape s ps ss" "it_ok s ps ss it"
  shows "left_strings ss it = [] \<Longrightarrow> it_takeString it = Some (False, it)"
    "left_strings ss it = t # ts \<Longrightarrow> \<exists>it'. it_takeString it = Some (True, it') \<and> it_ok s ps ss it' \<and> it_isString it' \<and>
      it_string it' = Some t \<and> left_strings ss it' = ts \<and> left_codes ps it' = left_codes ps it \<and> left_ranges ps it' = left_ranges ps it"
proof -
  show "left_strings ss it = [] \<Longrightarrow> it_takeString it = Some (False, it)"
    using assms(2) by (auto simp: left_strings_def it_takeString_def it_ok_def)
  assume l: "left_strings ss it = t # ts"
  let ?i = "nat (it_nextString it)"
  have i: "?i < length ss" using l unfolding left_strings_def by (metis drop_all leI list.distinct(1))
  then have t: "ss ! ?i = t" "drop (Suc ?i) ss = ts"
    using l Cons_nth_drop_Suc [OF i] unfolding left_strings_def by simp_all
  have n: "0 \<le> it_nextString it" "it_nextString it < it_stringCount it" "nat (it_nextString it + 1) = Suc ?i"
    using assms(2) i by (auto simp: it_ok_def)
  obtain v where v: "us_strings s = Some v" "\<forall>i < length ss. uv_elementAt v (int i) = Some (Some (ss ! i))"
    using assms(1) by (auto simp: shape_def)
  then have "uv_elementAt v (it_nextString it) = Some (Some t)" using i t(1) n(1) by (metis int_nat_eq)
  with v(1) n t(2) assms(2) show "\<exists>it'. it_takeString it = Some (True, it') \<and> it_ok s ps ss it' \<and> it_isString it' \<and>
      it_string it' = Some t \<and> left_strings ss it' = ts \<and> left_codes ps it' = left_codes ps it \<and> left_ranges ps it' = left_ranges ps it"
    by (simp add: it_takeString_def it_ok_def it_isString_def left_strings_def left_codes_def left_ranges_def)
qed

section \<open>One step\<close>

lemma ranges_left:
  assumes "shape s ps ss" "it_ok s ps ss it"
  shows "it_range it < it_endRange it \<Longrightarrow> drop (nat (it_range it + 1)) ps =
      ps ! nat (it_range it + 1) # drop (nat (it_range it + 1 + 1)) ps \<and> nat (it_range it + 1) < length ps \<and>
      0 \<le> fst (ps ! nat (it_range it + 1)) \<and> fst (ps ! nat (it_range it + 1)) < snd (ps ! nat (it_range it + 1))"
    "\<not> it_range it < it_endRange it \<Longrightarrow> drop (nat (it_range it + 1)) ps = []"
proof -
  let ?r = "nat (it_range it + 1)"
  have "0 \<le> it_range it" using assms(2) by (simp add: it_ok_def)
  then have r: "nat (it_range it + 1 + 1) = Suc ?r" by (simp add: nat_add_distrib)
  show "drop ?r ps = ps ! ?r # drop (nat (it_range it + 1 + 1)) ps \<and> ?r < length ps \<and> 0 \<le> fst (ps ! ?r) \<and> fst (ps ! ?r) < snd (ps ! ?r)"
    if "it_range it < it_endRange it"
  proof -
    have l: "?r < length ps" using that assms(2) by (auto simp: it_ok_def)
    then show ?thesis using Cons_nth_drop_Suc [OF l] assms(1) unfolding r by (auto simp: shape_def)
  qed
  show "drop ?r ps = []" if "\<not> it_range it < it_endRange it"
    using that assms(2) by (auto simp: it_ok_def)
qed

lemma next_spec:
  assumes "shape s ps ss" "it_ok s ps ss it"
  shows "left_codes ps it = c # cs \<Longrightarrow> \<exists>it'. it_next it = Some (True, it') \<and> it_ok s ps ss it' \<and> \<not> it_isString it' \<and>
      it_codepoint it' = c \<and> it_codepointEnd it' = c \<and> it_string it' = None \<and> left_codes ps it' = cs \<and> left_strings ss it' = left_strings ss it"
    "left_codes ps it = [] \<Longrightarrow> it_next it = it_takeString it"
proof -
  note r = ranges_left [OF assms]
  let ?n = "it_nextElement it" and ?e = "it_endElement it"
  have pos: "0 \<le> ?n" using assms(2) by (simp add: it_ok_def)
  show "\<exists>it'. it_next it = Some (True, it') \<and> it_ok s ps ss it' \<and> \<not> it_isString it' \<and>
      it_codepoint it' = c \<and> it_codepointEnd it' = c \<and> it_string it' = None \<and> left_codes ps it' = cs \<and> left_strings ss it' = left_strings ss it"
    if l: "left_codes ps it = c # cs"
  proof (cases "?n \<le> ?e")
    case True
    then have u: "[?n..?e] = ?n # [?n + 1..?e]" by (simp add: upto_rec1)
    have "?n # [?n + 1..?e] @ concat (map codes_of (drop (nat (it_range it + 1)) ps)) = c # cs"
      using l unfolding left_codes_def u append_Cons .
    then have c: "?n = c" and cs: "cs = [?n + 1..?e] @ concat (map codes_of (drop (nat (it_range it + 1)) ps))"
      unfolding list.inject by blast+
    show ?thesis unfolding cs c [symmetric] using True pos assms(2)
      by (simp add: it_next_def it_takeElement_def it_ok_def it_isString_def IS_STRING_def left_codes_def left_strings_def)
  next
    case False
    then have e: "[?n..?e] = []" by simp
    have more: "it_range it < it_endRange it"
    proof (rule ccontr)
      assume "\<not> it_range it < it_endRange it"
      from r(2) [OF this] l e show False by (simp add: left_codes_def)
    qed
    let ?p = "ps ! nat (it_range it + 1)"
    note d = r(1) [OF more]
    let ?it = "it\<lparr>it_range := it_range it + 1\<rparr>"
    have load: "it_loadRange (it_range it + 1) ?it = Some (?it\<lparr>it_nextElement := fst ?p, it_endElement := snd ?p - 1\<rparr>)"
      by (rule load_range [OF assms(1)]) (use assms(2) more in \<open>auto simp: it_ok_def\<close>)
    have u: "codes_of ?p = fst ?p # [fst ?p + 1..snd ?p - 1]" using d by (simp add: codes_of_def upto_rec1)
    have "fst ?p # [fst ?p + 1..snd ?p - 1] @ concat (map codes_of (drop (nat (it_range it + 1 + 1)) ps)) = c # cs"
      using l unfolding left_codes_def e conjunct1 [OF d] list.map concat.simps u append_Cons append_Nil .
    then have cs: "c = fst ?p" "cs = [fst ?p + 1..snd ?p - 1] @ concat (map codes_of (drop (nat (it_range it + 1 + 1)) ps))"
      unfolding list.inject by blast+
    show ?thesis using False more load d assms(2)
      by (simp add: it_next_def it_takeElement_def it_ok_def it_isString_def IS_STRING_def left_codes_def left_strings_def cs)
  qed
  show "it_next it = it_takeString it" if l: "left_codes ps it = []"
  proof -
    have n: "\<not> ?n \<le> ?e" using l by (auto simp: left_codes_def)
    have "\<not> it_range it < it_endRange it"
    proof
      assume m: "it_range it < it_endRange it"
      then have "codes_of (ps ! nat (it_range it + 1)) \<noteq> []" using r(1) by (simp add: codes_of_def)
      with l r(1) [OF m] show False by (auto simp: left_codes_def)
    qed
    with n show ?thesis by (simp add: it_next_def)
  qed
qed

lemma nextRange_spec:
  assumes "shape s ps ss" "it_ok s ps ss it"
  shows "left_ranges ps it = p # rs \<Longrightarrow> \<exists>it'. it_nextRange it = Some (True, it') \<and> it_ok s ps ss it' \<and> \<not> it_isString it' \<and>
      (it_codepoint it', it_codepointEnd it') = p \<and> it_string it' = None \<and> left_ranges ps it' = rs \<and> left_strings ss it' = left_strings ss it"
    "left_ranges ps it = [] \<Longrightarrow> it_nextRange it = it_takeString (it\<lparr>it_string := None\<rparr>)"
proof -
  note r = ranges_left [OF assms]
  let ?n = "it_nextElement it" and ?e = "it_endElement it"
  have pos: "0 \<le> ?n" using assms(2) by (simp add: it_ok_def)
  show "\<exists>it'. it_nextRange it = Some (True, it') \<and> it_ok s ps ss it' \<and> \<not> it_isString it' \<and>
      (it_codepoint it', it_codepointEnd it') = p \<and> it_string it' = None \<and> left_ranges ps it' = rs \<and> left_strings ss it' = left_strings ss it"
    if l: "left_ranges ps it = p # rs"
  proof (cases "?n \<le> ?e")
    case True
    with l pos assms(2) show ?thesis
      by (simp add: it_nextRange_def it_takeRange_def it_ok_def it_isString_def IS_STRING_def left_ranges_def left_strings_def Let_def)
  next
    case False
    have more: "it_range it < it_endRange it"
    proof (rule ccontr)
      assume "\<not> it_range it < it_endRange it"
      with r(2) False l show False by (simp add: left_ranges_def)
    qed
    let ?p = "ps ! nat (it_range it + 1)"
    note d = r(1) [OF more]
    let ?it = "it\<lparr>it_string := None, it_range := it_range it + 1\<rparr>"
    have load: "it_loadRange (it_range it + 1) ?it = Some (?it\<lparr>it_nextElement := fst ?p, it_endElement := snd ?p - 1\<rparr>)"
      by (rule load_range [OF assms(1)]) (use assms(2) more in \<open>auto simp: it_ok_def\<close>)
    have "p = (fst ?p, snd ?p - 1)" "rs = map (\<lambda>(a, b). (a, b - 1)) (drop (nat (it_range it + 1 + 1)) ps)"
      using l d False by (simp_all add: left_ranges_def case_prod_beta)
    then show ?thesis using False more load d assms(2)
      by (simp add: it_nextRange_def it_takeRange_def it_ok_def it_isString_def IS_STRING_def left_ranges_def left_strings_def Let_def)
  qed
  show "it_nextRange it = it_takeString (it\<lparr>it_string := None\<rparr>)" if l: "left_ranges ps it = []"
  proof -
    have n: "\<not> ?n \<le> ?e" using l by (auto simp: left_ranges_def split: if_splits)
    have "\<not> it_range it < it_endRange it"
    proof
      assume "it_range it < it_endRange it"
      from r(1) [OF this] l show False by (simp add: left_ranges_def)
    qed
    with n show ?thesis by (simp add: it_nextRange_def Let_def)
  qed
qed

section \<open>All steps\<close>

lemma collect_strings:
  assumes "shape s ps ss" "it_ok s ps ss it"
    "\<And>it. it_ok s ps ss it \<Longrightarrow> P it \<Longrightarrow> step it = it_takeString (it\<lparr>it_string := None\<rparr>) \<or> step it = it_takeString it"
    "\<And>it it'. P it \<Longrightarrow> left_codes ps it' = left_codes ps it \<Longrightarrow> left_ranges ps it' = left_ranges ps it \<Longrightarrow> P it'" "P it"
  shows "it_collect step it = Some (map (\<lambda>t. (IS_STRING, IS_STRING, Some t)) (left_strings ss it))"
  using assms(2,5)
proof (induction "left_strings ss it" arbitrary: it)
  case Nil
  let ?it = "it\<lparr>it_string := None\<rparr>"
  have "it_ok s ps ss ?it" "left_strings ss ?it = []" using Nil by (simp_all add: it_ok_def left_strings_def)
  then have "it_takeString ?it = Some (False, ?it)" "it_takeString it = Some (False, it)"
    using take_string_spec(1) [OF assms(1)] Nil by auto
  with assms(3) [OF Nil(2,3)] have "\<exists>x. step it = Some (False, x)" by auto
  then show ?case using Nil(1) by (subst it_collect.simps) auto
next
  case (Cons t ts)
  let ?it = "it\<lparr>it_string := None\<rparr>"
  have same: "left_strings ss ?it = left_strings ss it" "left_codes ps ?it = left_codes ps it" "left_ranges ps ?it = left_ranges ps it"
    "it_ok s ps ss ?it"
    using Cons.prems(1) by (simp_all add: it_ok_def left_strings_def left_codes_def left_ranges_def)
  have "\<exists>it'. step it = Some (True, it') \<and> it_ok s ps ss it' \<and> it_isString it' \<and>
      it_string it' = Some t \<and> left_strings ss it' = ts \<and> left_codes ps it' = left_codes ps it \<and> left_ranges ps it' = left_ranges ps it"
    using assms(3) [OF Cons.prems]
  proof
    assume "step it = it_takeString ?it"
    with take_string_spec(2) [OF assms(1) same(4), of t ts] Cons.hyps(2) same(1-3) show ?thesis by simp
  next
    assume "step it = it_takeString it"
    with take_string_spec(2) [OF assms(1) Cons.prems(1), of t ts] Cons.hyps(2) show ?thesis by simp
  qed
  then obtain it' where it': "step it = Some (True, it')" "it_ok s ps ss it'" "it_isString it'"
      "it_string it' = Some t" "left_strings ss it' = ts" "left_codes ps it' = left_codes ps it" "left_ranges ps it' = left_ranges ps it" by blast
  have "it_collect step it' = Some (map (\<lambda>t. (IS_STRING, IS_STRING, Some t)) ts)"
    using Cons.hyps(1) [of it'] it'(2,5) assms(4) [OF Cons.prems(2) it'(6,7)] by simp
  then show ?case using it' Cons.hyps(2) [symmetric] by (subst it_collect.simps) simp
qed

lemma collect_next:
  assumes "shape s ps ss" "it_ok s ps ss it"
  shows "it_collect it_next it = Some (map (\<lambda>c. (c, c, None)) (left_codes ps it) @
    map (\<lambda>t. (IS_STRING, IS_STRING, Some t)) (left_strings ss it))"
  using assms(2)
proof (induction "left_codes ps it" arbitrary: it)
  case Nil
  then have "left_codes ps it = []" by simp
  moreover have "it_collect it_next it = Some (map (\<lambda>t. (IS_STRING, IS_STRING, Some t)) (left_strings ss it))"
    by (rule collect_strings [OF assms(1) Nil(2), of "\<lambda>it. left_codes ps it = []"]) (use next_spec(2) [OF assms(1)] calculation in auto)
  ultimately show ?case by simp
next
  case (Cons c cs)
  obtain it' where it': "it_next it = Some (True, it')" "it_ok s ps ss it'" "\<not> it_isString it'" "it_codepoint it' = c" "it_codepointEnd it' = c"
    "it_string it' = None" "left_codes ps it' = cs" "left_strings ss it' = left_strings ss it"
    using next_spec(1) [OF assms(1) Cons.prems Cons.hyps(2) [symmetric]] by blast
  have "it_collect it_next it' = Some (map (\<lambda>c. (c, c, None)) cs @ map (\<lambda>t. (IS_STRING, IS_STRING, Some t)) (left_strings ss it))"
    using Cons.hyps(1) [of it'] it'(2,7,8) by simp
  then show ?case using it' Cons.hyps(2) [symmetric] by (subst it_collect.simps) simp
qed

lemma collect_ranges:
  assumes "shape s ps ss" "it_ok s ps ss it"
  shows "it_collect it_nextRange it = Some (map (\<lambda>(a, b). (a, b, None)) (left_ranges ps it) @
    map (\<lambda>t. (IS_STRING, IS_STRING, Some t)) (left_strings ss it))"
  using assms(2)
proof (induction "left_ranges ps it" arbitrary: it)
  case Nil
  then have "left_ranges ps it = []" by simp
  moreover have "it_collect it_nextRange it = Some (map (\<lambda>t. (IS_STRING, IS_STRING, Some t)) (left_strings ss it))"
    by (rule collect_strings [OF assms(1) Nil(2), of "\<lambda>it. left_ranges ps it = []"]) (use nextRange_spec(2) [OF assms(1)] calculation in auto)
  ultimately show ?case by simp
next
  case (Cons p rs)
  obtain it' where it': "it_nextRange it = Some (True, it')" "it_ok s ps ss it'" "\<not> it_isString it'" "(it_codepoint it', it_codepointEnd it') = p"
    "it_string it' = None" "left_ranges ps it' = rs" "left_strings ss it' = left_strings ss it"
    using nextRange_spec(1) [OF assms(1) Cons.prems Cons.hyps(2) [symmetric]] by blast
  have "it_collect it_nextRange it' = Some (map (\<lambda>(a, b). (a, b, None)) rs @ map (\<lambda>t. (IS_STRING, IS_STRING, Some t)) (left_strings ss it))"
    using Cons.hyps(1) [of it'] it'(2,6,7) by simp
  then show ?case using it' Cons.hyps(2) [symmetric] by (subst it_collect.simps) auto
qed

section \<open>The strings of the elements\<close>

lemma u16_append_cps: "0 \<le> c \<Longrightarrow> c < UNICODESET_HIGH \<Longrightarrow> \<exists>us. u16_append c = Some us \<and> cps us = [c] \<and> units_ok us"
  by (auto simp: u16_append_def u16_is_lead_def u16_is_trail_def u16_supplementary_def)

lemma getString_spec:
  shows "it_string it = Some t \<Longrightarrow> it_getString can_new it = Some (t, it)"
    "\<not> it_isString it \<Longrightarrow> it_string it = None \<Longrightarrow> can_new \<Longrightarrow> \<exists>it'. it_getString can_new it = Some (ustr_setToCp (it_codepoint it), it') \<and>
       it_ok s ps ss it' = it_ok s ps ss it \<and> left_codes ps it' = left_codes ps it \<and> left_strings ss it' = left_strings ss it"
  by (auto simp: it_getString_def it_isString_def it_ok_def left_codes_def left_strings_def Let_def)

lemma strings_taken:
  assumes "shape s ps ss" "it_ok s ps ss it"
  shows "it_strings True it = Some (map ustr_setToCp (left_codes ps it) @ left_strings ss it)"
proof -
  have "length (left_codes ps it) + length (left_strings ss it) = n \<Longrightarrow> ?thesis" for n
    using assms(2)
  proof (induction n arbitrary: it)
    case 0
    then have "it_next it = Some (False, it)"
      using next_spec(2) [OF assms(1) 0(2)] take_string_spec(1) [OF assms(1) 0(2)] by simp
    with 0 show ?case by (subst it_strings.simps) simp
  next
    case (Suc n)
    show ?case
    proof (cases "left_codes ps it")
      case (Cons c cs)
      obtain it' where it': "it_next it = Some (True, it')" "it_ok s ps ss it'" "\<not> it_isString it'" "it_codepoint it' = c"
        "it_string it' = None" "left_codes ps it' = cs" "left_strings ss it' = left_strings ss it"
        using next_spec(1) [OF assms(1) Suc.prems(2) Cons] by blast
      obtain it2 where it2: "it_getString True it' = Some (ustr_setToCp c, it2)" "it_ok s ps ss it2"
        "left_codes ps it2 = cs" "left_strings ss it2 = left_strings ss it"
        using getString_spec(2) [OF it'(3,5), of True s ps ss] it'(2,4,6,7) by auto
      have "it_strings True it2 = Some (map ustr_setToCp cs @ left_strings ss it)"
        using Suc.IH [OF _ it2(2)] it2(3,4) Suc.prems(1) Cons by simp
      then show ?thesis using it'(1) it2(1) Cons by (subst it_strings.simps) simp
    next
      case Nil
      show ?thesis
      proof (cases "left_strings ss it")
        case (Cons t ts)
        obtain it' where it': "it_next it = Some (True, it')" "it_ok s ps ss it'" "it_string it' = Some t"
          "left_codes ps it' = []" "left_strings ss it' = ts"
          using take_string_spec(2) [OF assms(1) Suc.prems(2) Cons] next_spec(2) [OF assms(1) Suc.prems(2) Nil] Nil by auto
        have "it_strings True it' = Some ts"
          using Suc.IH [OF _ it'(2)] it'(4,5) Suc.prems(1) Nil Cons by simp
        then show ?thesis using it'(1) getString_spec(1) [OF it'(3), of True] Nil Cons by (subst it_strings.simps) simp
      qed (use Suc.prems(1) Nil in simp)
    qed
  qed
  then show ?thesis by blast
qed

section \<open>A new iterator\<close>

lemma pairs_codes:
  "ssorted xs \<Longrightarrow> ssorted (concat (map codes_of (pairs xs))) \<and> set (concat (map codes_of (pairs xs))) = ranges xs"
proof (induction xs rule: pairs.induct)
  case (1 a b r)
  let ?A = "[a..b - 1]" and ?B = "concat (map codes_of (pairs r))"
  have B: "ssorted ?B" "set ?B = ranges r" using 1 by auto
  have A: "ssorted ?A" "set ?A = {a..<b}" by (rule sorted_wrt_upto) (auto simp del: upto.simps)
  have gt: "b < y" if "y \<in> ranges r" for y using that ranges_gt [of _ r b] 1(2) by fastforce
  have "\<forall>x \<in> set ?A. \<forall>y \<in> set ?B. x < y"
  proof (intro ballI)
    fix x y assume "x \<in> set ?A" "y \<in> set ?B"
    then show "x < y" using gt [of y] unfolding A(2) B(2) by simp
  qed
  with A B show ?case
    unfolding pairs.simps list.map concat.simps codes_of_def fst_conv snd_conv sorted_wrt_append set_append ranges.simps by blast
qed auto

lemma set_shape:
  assumes "us_ok s"
  obtains xs ss where "shape s (pairs xs) ss" "us_used s = Some xs"
    "concat (map codes_of (pairs xs)) = sorted_list_of_set (us_codes s)" "ss = sorted_list_of_set (us_strs s)"
proof -
  obtain xs where xs: "us_used s = Some xs" "inv_list xs" "ssorted xs" "us_codes s = ranges xs" "us_getRangeCount s = length (pairs xs)"
    "\<And>i. i < length (pairs xs) \<Longrightarrow> us_getRangeStart s i = Some (fst (pairs xs ! i))"
    "\<And>i. i < length (pairs xs) \<Longrightarrow> us_getRangeEnd s i = Some (snd (pairs xs ! i) - 1)"
    using us_ranges [OF assms] by metis
  obtain v where v: "us_strings s = Some v" "strings_ok v" "us_strs s = {t. Some t \<in> set (uv_list v)}"
    using us_okE [OF assms] by metis
  obtain ss where ss: "uv_ok v" "uv_list v = map Some ss" "ssorted ss" "{t. Some t \<in> set (uv_list v)} = set ss"
    using strings_okE [OF v(2)] by metis
  have p: "0 \<le> fst (pairs xs ! i) \<and> fst (pairs xs ! i) < snd (pairs xs ! i)" if "i < length (pairs xs)" for i
    using pairs_less [OF xs(3), of "fst (pairs xs ! i)" "snd (pairs xs ! i)"] inv_listD(5) [OF xs(2)] nth_mem [OF that] by simp
  have e: "uv_count v = int (length ss) \<and> (\<forall>i < length ss. uv_elementAt v (int i) = Some (Some (ss ! i)))"
  proof -
    note u = uv_okD [OF ss(1)]
    have t: "take (nat (uv_count v)) (uv_elements v) = map Some ss" using ss(2) by (simp add: uv_list_def)
    have "length (take (nat (uv_count v)) (uv_elements v)) = nat (uv_count v)" using u by simp
    then have l: "nat (uv_count v) = length ss" unfolding t by simp
    then have c: "uv_count v = int (length ss)" using u(1) by simp
    have "uv_elements v ! i = Some (ss ! i) \<and> i < length (uv_elements v)" if "i < length ss" for i
    proof -
      have "map Some ss ! i = uv_elements v ! i" unfolding t [symmetric] using that l by simp
      then show ?thesis using that l u by simp
    qed
    then show ?thesis using c by (simp add: uv_elementAt_def rd_def)
  qed
  show thesis
  proof (rule that)
    show "shape s (pairs xs) ss" using xs(5-7) p v(1) e by (auto simp: shape_def)
    show "us_used s = Some xs" by (rule xs(1))
    show "concat (map codes_of (pairs xs)) = sorted_list_of_set (us_codes s)"
      using pairs_codes [OF xs(3)] xs(4)
      by (metis sorted_list_of_set.idem_if_sorted_distinct ssorted_distinct strict_sorted_imp_sorted)
    show "ss = sorted_list_of_set (us_strs s)"
      using ss(3,4) v(3) by (metis sorted_list_of_set.idem_if_sorted_distinct ssorted_distinct strict_sorted_imp_sorted)
  qed
qed

lemma newOn_spec:
  assumes "shape s ps ss" "us_strings s = Some v" "uv_count v = int (length ss)"
  shows "\<exists>it. it_newOn s raw = Some it \<and> it_ok s ps ss it \<and> left_codes ps it = concat (map codes_of ps) \<and>
    left_ranges ps it = map (\<lambda>(a, b). (a, b - 1)) ps \<and> left_strings ss it = ss"
proof (cases ps)
  case Nil
  then show ?thesis using assms
    by (simp add: it_newOn_def it_resetTo_def it_reset_def us_getStringCount_def it_ok_def left_codes_def left_ranges_def left_strings_def shape_def)
next
  case (Cons p qs)
  have p: "us_getRangeCount s = length ps" "us_getRangeStart s 0 = Some (fst p)" "us_getRangeEnd s 0 = Some (snd p - 1)" "0 \<le> fst p" "fst p < snd p"
    using assms(1) Cons by (auto simp: shape_def)
  with Cons assms show ?thesis
    by (simp add: it_newOn_def it_resetTo_def it_reset_def it_loadRange_def us_getStringCount_def it_ok_def left_codes_def left_ranges_def
        left_strings_def codes_of_def case_prod_beta)
qed

lemma iterator_start:
  assumes "us_ok s"
  obtains xs ss v where "shape s (pairs xs) ss" "concat (map codes_of (pairs xs)) = sorted_list_of_set (us_codes s)"
    "ss = sorted_list_of_set (us_strs s)" "us_strings s = Some v" "uv_count v = int (length ss)" "us_codes s = inv_set xs" "ssorted xs" "inv_list xs"
proof -
  obtain xs ss where a: "shape s (pairs xs) ss" "us_used s = Some xs"
    "concat (map codes_of (pairs xs)) = sorted_list_of_set (us_codes s)" "ss = sorted_list_of_set (us_strs s)"
    by (rule set_shape [OF assms])
  obtain ys where y: "us_used s = Some ys" "inv_list ys" "us_codes s = inv_set ys" using us_okE [OF assms] by metis
  obtain v where "us_strings s = Some v" "uv_count v = int (length ss)" using a(1) by (auto simp: shape_def)
  with a y show thesis using that inv_listD(2) [OF y(2)] by simp
qed

lemma setToCp_cps: "0 \<le> c \<Longrightarrow> c < UNICODESET_HIGH \<Longrightarrow> cps (units (ustr_setToCp c)) = [c]"
  using u16_append_cps [of c] by (auto simp: ustr_setToCp_def)

text \<open>Without memory for \<open>cpString\<close> the string of a code point is a dereference of NULL.\<close>

lemma next_cpString: "it_next it = Some (b, it') \<Longrightarrow> it_cpString it' = it_cpString it"
  by (auto simp: it_next_def it_takeElement_def it_takeString_def it_loadRange_def bind_eq_Some_conv split: if_splits)

lemma newOn_cpString: "it_newOn s raw = Some it \<Longrightarrow> it_cpString it = None"
  by (auto simp: it_newOn_def it_resetTo_def it_reset_def it_loadRange_def us_getStringCount_def bind_eq_Some_conv Let_def split: if_splits)

lemma strings_no_memory:
  assumes "shape s ps ss" "it_ok s ps ss it" "it_cpString it = None" "left_codes ps it \<noteq> []"
  shows "it_strings False it = None"
proof -
  obtain c cs where "left_codes ps it = c # cs" using assms(4) by (cases "left_codes ps it") auto
  then obtain it' where it': "it_next it = Some (True, it')" "\<not> it_isString it'" "it_string it' = None"
    using next_spec(1) [OF assms(1,2)] by blast
  then have "it_getString False it' = None"
    using next_cpString [OF it'(1)] assms(3) by (simp add: it_getString_def it_isString_def Let_def)
  then show ?thesis using it'(1) by (subst it_strings.simps) simp
qed

lemma iterated_members:
  assumes "us_ok s"
  shows "set (sorted_list_of_set (us_codes s)) = us_codes s"
proof -
  obtain xs where "ssorted xs" "us_codes s = ranges xs" using us_ranges [OF assms] by metis
  then show ?thesis using ranges_card [of xs] by simp
qed

lemma pairs_apart:
  "ssorted xs \<Longrightarrow> list_all (\<lambda>(a, b). a \<le> b) (map (\<lambda>(a, b). (a, b - 1)) (pairs xs)) \<and>
     sorted_wrt (\<lambda>p q. snd p + 1 < fst q) (map (\<lambda>(a, b). (a, b - 1 :: int)) (pairs xs))"
proof (induction xs rule: pairs.induct)
  case (1 a b r)
  have "b < x" if "(x, y) \<in> set (pairs r)" for x y using pairs_less [of r x y] that 1(2) by auto
  with 1 show ?case by fastforce
qed auto

section \<open>The properties\<close>

text \<open>C20: An iterator over a well-formed set terminates and yields exactly the set: a client that calls \<open>next\<close>
  until it answers false gets every code point once in ascending order, each with \<open>codepointEnd\<close> equal to
  \<open>codepoint\<close> and a NULL string, and then every string once in ascending order; one that asks for \<open>getString\<close>
  after each step gets for every code point a string of which it is the only code point, and then the
  strings. When the allocation of that string fails, \<open>getString\<close> on a code point dereferences NULL.\<close>

theorem unicodeset_iterates:
  assumes "us_ok s"
  shows "\<exists>it. it_newOn s raw = Some it \<and>
    it_collect it_next it = Some (map (\<lambda>c. (c, c, None)) (sorted_list_of_set (us_codes s)) @
      map (\<lambda>t. (IS_STRING, IS_STRING, Some t)) (sorted_list_of_set (us_strs s))) \<and>
    (\<exists>ts. it_strings True it = Some (ts @ sorted_list_of_set (us_strs s)) \<and>
      map (\<lambda>t. cps (units t)) ts = map (\<lambda>c. [c]) (sorted_list_of_set (us_codes s))) \<and>
    (us_codes s = {} \<or> it_strings False it = None)"
proof -
  obtain xs ss v where x: "shape s (pairs xs) ss" "concat (map codes_of (pairs xs)) = sorted_list_of_set (us_codes s)"
    "ss = sorted_list_of_set (us_strs s)" "us_strings s = Some v" "uv_count v = int (length ss)" "us_codes s = inv_set xs" "ssorted xs" "inv_list xs"
    by (rule iterator_start [OF assms])
  obtain it where it: "it_newOn s raw = Some it" "it_ok s (pairs xs) ss it" "left_codes (pairs xs) it = sorted_list_of_set (us_codes s)"
    "left_strings ss it = ss"
    using newOn_spec [OF x(1,4,5), of raw] x(2) by auto
  have "cps (units (ustr_setToCp c)) = [c]" if "c \<in> us_codes s" for c
    by (rule setToCp_cps) (use that inv_set_bounds [OF x(8)] x(6) in auto)
  then have "map (\<lambda>t. cps (units t)) (map ustr_setToCp (sorted_list_of_set (us_codes s))) = map (\<lambda>c. [c]) (sorted_list_of_set (us_codes s))"
    using iterated_members [OF assms] by simp
  moreover have "us_codes s = {} \<or> it_strings False it = None"
    using strings_no_memory [OF x(1) it(2) newOn_cpString [OF it(1)]] it(3) iterated_members [OF assms] by force
  ultimately show ?thesis using collect_next [OF x(1) it(2)] strings_taken [OF x(1) it(2)] it x(3) by auto
qed

theorem unicodeset_iterates_witness:
  "\<exists>it. it_newOn (set_of [65, 91, 1114112] [UStr [99, 104]]) undefined = Some it \<and>
    it_collect it_next it = Some (map (\<lambda>c. (c, c, None)) (sorted_list_of_set {65..90}) @
      map (\<lambda>t. (IS_STRING, IS_STRING, Some t)) [UStr [99, 104]])"
  using unicodeset_iterates [of "set_of [65, 91, 1114112] [UStr [99, 104]]" undefined] by auto

text \<open>C35: A client that calls \<open>nextRange\<close> until it answers false gets the code points as non-empty ranges that
  are ascending, disjoint and never adjacent, so each is as long as it can be, with a NULL string, and then every
  string once in ascending order.\<close>

theorem unicodeset_iterates_ranges:
  assumes "us_ok s"
  shows "\<exists>it rs. it_newOn s raw = Some it \<and>
    it_collect it_nextRange it = Some (map (\<lambda>(a, b). (a, b, None)) rs @
      map (\<lambda>t. (IS_STRING, IS_STRING, Some t)) (sorted_list_of_set (us_strs s))) \<and>
    concat (map (\<lambda>(a, b). [a..b]) rs) = sorted_list_of_set (us_codes s) \<and>
    list_all (\<lambda>(a, b). a \<le> b) rs \<and> sorted_wrt (\<lambda>p q. snd p + 1 < fst q) rs"
proof -
  obtain xs ss v where x: "shape s (pairs xs) ss" "concat (map codes_of (pairs xs)) = sorted_list_of_set (us_codes s)"
    "ss = sorted_list_of_set (us_strs s)" "us_strings s = Some v" "uv_count v = int (length ss)" "us_codes s = inv_set xs" "ssorted xs" "inv_list xs"
    by (rule iterator_start [OF assms])
  let ?rs = "map (\<lambda>(a, b). (a, b - 1)) (pairs xs)"
  obtain it where it: "it_newOn s raw = Some it" "it_ok s (pairs xs) ss it" "left_ranges (pairs xs) it = ?rs" "left_strings ss it = ss"
    using newOn_spec [OF x(1,4,5), of raw] by auto
  have "map (\<lambda>(a, b). [a..b]) ?rs = map codes_of (pairs xs)" by (simp add: codes_of_def case_prod_beta)
  then have c: "concat (map (\<lambda>(a, b). [a..b]) ?rs) = sorted_list_of_set (us_codes s)" using x(2) by metis
  have "it_collect it_nextRange it = Some (map (\<lambda>(a, b). (a, b, None)) ?rs @
      map (\<lambda>t. (IS_STRING, IS_STRING, Some t)) (sorted_list_of_set (us_strs s)))"
    using collect_ranges [OF x(1) it(2)] it(3,4) x(3) by metis
  with it(1) c pairs_apart [OF x(7)] show ?thesis by blast
qed

theorem unicodeset_iterates_ranges_witness:
  "\<exists>it rs. it_newOn (set_of [65, 91, 1114112] [UStr [99, 104]]) undefined = Some it \<and>
    it_collect it_nextRange it = Some (map (\<lambda>(a, b). (a, b, None)) rs @
      map (\<lambda>t. (IS_STRING, IS_STRING, Some t)) [UStr [99, 104]]) \<and>
    concat (map (\<lambda>(a, b). [a..b]) rs) = sorted_list_of_set {65..90}"
  using unicodeset_iterates_ranges [of "set_of [65, 91, 1114112] [UStr [99, 104]]" undefined] by auto

end
