(* ===== verification/USort.thy ===== *)
theory USort
  imports Prelude
begin

text \<open>
  The sort of uarrsort.c: insertion sort with a binary search for short arrays or when it has to be stable, else
  a quicksort that leaves short pieces to the insertion sort. The array is the list of its items; a read outside
  it, a loop that does not end, and a sum of two indexes or a byte offset \<open>i*itemSize\<close> beyond 32 bits have no result.
  \<open>cmp\<close> is the comparator with its context.
\<close>

definition MIN_QSORT :: nat where "MIN_QSORT = 9"
definition STACK_ITEM_SIZE :: int where "STACK_ITEM_SIZE = 200"

definition add32 :: "nat \<Rightarrow> nat \<Rightarrow> nat option" where
  "add32 a b = (if int a + int b > INT32_MAX then None else Some (a + b))"

text \<open>The item at \<open>array+i*itemSize\<close>.\<close>

definition item_at :: "int \<Rightarrow> 'a list \<Rightarrow> nat \<Rightarrow> 'a option" where
  "item_at itemSize xs i = do { offset \<leftarrow> chk (int i * itemSize); rd xs i }"

section \<open>Insertion sort\<close>

text \<open>The two loops of \<open>uprv_stableBinarySearch\<close>; the result of the first is \<open>start\<close>, \<open>limit\<close> and \<open>found\<close>.\<close>

partial_function (option) bisect ::
  "'a list \<Rightarrow> int \<Rightarrow> ('a \<Rightarrow> 'a \<Rightarrow> int) \<Rightarrow> 'a \<Rightarrow> nat \<Rightarrow> nat \<Rightarrow> bool \<Rightarrow> (nat \<times> nat \<times> bool) option" where
  "bisect xs itemSize cmp item start limit found =
     (if limit \<ge> start + MIN_QSORT
      then do { s \<leftarrow> add32 start limit; let i = s div 2; e \<leftarrow> item_at itemSize xs i; let diff = cmp item e;
                if diff = 0 then bisect xs itemSize cmp item (i + 1) limit True
                else if diff < 0 then bisect xs itemSize cmp item start i found
                else bisect xs itemSize cmp item i limit found }
      else Some (start, limit, found))"

declare bisect.simps [code]

function linear :: "'a list \<Rightarrow> int \<Rightarrow> ('a \<Rightarrow> 'a \<Rightarrow> int) \<Rightarrow> 'a \<Rightarrow> nat \<Rightarrow> nat \<Rightarrow> bool \<Rightarrow> (nat \<times> bool) option" where
  "linear xs itemSize cmp item start limit found =
     (if start < limit
      then (case item_at itemSize xs start of None \<Rightarrow> None
            | Some e \<Rightarrow> let diff = cmp item e
                        in if diff = 0 then linear xs itemSize cmp item (start + 1) limit True
                           else if diff < 0 then Some (start, found)
                           else linear xs itemSize cmp item (start + 1) limit found)
      else Some (start, found))"
  by pat_completeness auto
termination
  by (relation "measure (\<lambda>(xs, itemSize, cmp, item, start, limit, found). limit - start)") auto

declare linear.simps [simp del]

definition uprv_stableBinarySearch :: "'a list \<Rightarrow> nat \<Rightarrow> 'a \<Rightarrow> int \<Rightarrow> ('a \<Rightarrow> 'a \<Rightarrow> int) \<Rightarrow> int option" where
  "uprv_stableBinarySearch xs limit item itemSize cmp =
     do { (start, limit, found) \<leftarrow> bisect xs itemSize cmp item 0 limit False;
          (start, found) \<leftarrow> linear xs itemSize cmp item start limit found;
          Some (if found then int start - 1 else - int start - 1) }"

text \<open>The item \<open>j\<close> goes to \<open>p\<close>: the offset of \<open>dest\<close>, the size of the block that moves, and the array after it.\<close>

definition moved :: "'a list \<Rightarrow> nat \<Rightarrow> nat \<Rightarrow> 'a list" where
  "moved xs p j = take p xs @ xs ! j # take (j - p) (drop p xs) @ drop (j + 1) xs"

definition move_down :: "'a list \<Rightarrow> int \<Rightarrow> nat \<Rightarrow> nat \<Rightarrow> 'a list option" where
  "move_down xs itemSize p j =
     do { dest \<leftarrow> chk (int p * itemSize); size \<leftarrow> chk ((int j - int p) * itemSize);
          if j < length xs then Some (moved xs p j) else None }"

text \<open>The loop of \<open>doInsertionSort\<close> over \<open>j\<close>.\<close>

function insertion_loop :: "'a list \<Rightarrow> int \<Rightarrow> ('a \<Rightarrow> 'a \<Rightarrow> int) \<Rightarrow> nat \<Rightarrow> nat \<Rightarrow> 'a list option" where
  "insertion_loop xs itemSize cmp n j =
     (if j < n
      then (case item_at itemSize xs j of None \<Rightarrow> None
            | Some item \<Rightarrow>
                (case uprv_stableBinarySearch xs j item itemSize cmp of None \<Rightarrow> None
                 | Some insertionPoint \<Rightarrow>
                     let p = nat (if insertionPoint < 0 then - insertionPoint - 1 else insertionPoint + 1)
                     in (case (if p < j then move_down xs itemSize p j else Some xs) of None \<Rightarrow> None
                         | Some xs \<Rightarrow> insertion_loop xs itemSize cmp n (j + 1))))
      else Some xs)"
  by pat_completeness auto
termination
  by (relation "measure (\<lambda>(xs, itemSize, cmp, n, j). n - j)") auto

declare insertion_loop.simps [simp del]

definition doInsertionSort :: "'a list \<Rightarrow> nat \<Rightarrow> int \<Rightarrow> ('a \<Rightarrow> 'a \<Rightarrow> int) \<Rightarrow> 'a list option" where
  "doInsertionSort xs n itemSize cmp = insertion_loop xs itemSize cmp n 1"

definition insertionSort ::
  "'x heap \<Rightarrow> 'a list \<Rightarrow> nat \<Rightarrow> int \<Rightarrow> ('a \<Rightarrow> 'a \<Rightarrow> int) \<Rightarrow> UErrorCode \<Rightarrow> ('a list \<times> UErrorCode) option" where
  "insertionSort hp xs n itemSize cmp status =
     (if \<not> itemSize \<le> STACK_ITEM_SIZE \<and> \<not> uprv_malloc hp itemSize then Some (xs, U_MEMORY_ALLOCATION_ERROR)
      else do { xs \<leftarrow> doInsertionSort xs n itemSize cmp; Some (xs, status) })"

section \<open>Quicksort\<close>

function scan_left :: "'a list \<Rightarrow> int \<Rightarrow> ('a \<Rightarrow> 'a \<Rightarrow> int) \<Rightarrow> 'a \<Rightarrow> nat \<Rightarrow> nat option" where
  "scan_left xs itemSize cmp x left =
     (case item_at itemSize xs left of None \<Rightarrow> None
      | Some e \<Rightarrow> if cmp e x < 0 then scan_left xs itemSize cmp x (left + 1) else Some left)"
  by pat_completeness auto
termination
  by (relation "measure (\<lambda>(xs, itemSize, cmp, x, left). length xs - left)")
    (auto simp: item_at_def rd_eq_Some_iff bind_eq_Some_conv)

declare scan_left.simps [simp del]

fun scan_right :: "'a list \<Rightarrow> int \<Rightarrow> ('a \<Rightarrow> 'a \<Rightarrow> int) \<Rightarrow> 'a \<Rightarrow> nat \<Rightarrow> nat option" where
  "scan_right xs itemSize cmp x 0 = None"
| "scan_right xs itemSize cmp x (Suc r) =
     (case item_at itemSize xs r of None \<Rightarrow> None
      | Some e \<Rightarrow> if cmp x e < 0 then scan_right xs itemSize cmp x r else Some (Suc r))"

definition swap_items :: "'a list \<Rightarrow> int \<Rightarrow> nat \<Rightarrow> nat \<Rightarrow> 'a list option" where
  "swap_items xs itemSize i j =
     do { w \<leftarrow> item_at itemSize xs i; e \<leftarrow> item_at itemSize xs j; xs \<leftarrow> wr xs i e; wr xs j w }"

partial_function (option) partition_loop ::
  "'a list \<Rightarrow> int \<Rightarrow> ('a \<Rightarrow> 'a \<Rightarrow> int) \<Rightarrow> 'a \<Rightarrow> nat \<Rightarrow> nat \<Rightarrow> ('a list \<times> nat \<times> nat) option" where
  "partition_loop xs itemSize cmp x left right =
     do { left \<leftarrow> scan_left xs itemSize cmp x left; right \<leftarrow> scan_right xs itemSize cmp x right;
          if left < right
          then do { xs \<leftarrow> (if left < right - 1 then swap_items xs itemSize left (right - 1) else Some xs);
                    if left + 1 < right - 1 then partition_loop xs itemSize cmp x (left + 1) (right - 1)
                    else Some (xs, left + 1, right - 1) }
          else Some (xs, left, right) }"

declare partition_loop.simps [code]

definition sort_piece :: "'a list \<Rightarrow> nat \<Rightarrow> nat \<Rightarrow> int \<Rightarrow> ('a \<Rightarrow> 'a \<Rightarrow> int) \<Rightarrow> 'a list option" where
  "sort_piece xs start limit itemSize cmp =
     do { offset \<leftarrow> chk (int start * itemSize);
          ys \<leftarrow> doInsertionSort (drop start xs) (limit - start) itemSize cmp; Some (take start xs @ ys) }"

partial_function (option) subQuickSort :: "'a list \<Rightarrow> nat \<Rightarrow> nat \<Rightarrow> int \<Rightarrow> ('a \<Rightarrow> 'a \<Rightarrow> int) \<Rightarrow> 'a list option" where
  "subQuickSort xs start limit itemSize cmp =
     do { b \<leftarrow> add32 start MIN_QSORT;
      if b \<ge> limit then sort_piece xs start limit itemSize cmp
      else do {
        s \<leftarrow> add32 start limit; x \<leftarrow> item_at itemSize xs (s div 2);
        (xs, left, right) \<leftarrow> partition_loop xs itemSize cmp x start limit;
        if int right - int start < int limit - int left
        then do { xs \<leftarrow> (if start + 1 < right then subQuickSort xs start right itemSize cmp else Some xs);
                  if left + 1 < limit then subQuickSort xs left limit itemSize cmp else Some xs }
        else do { xs \<leftarrow> (if left + 1 < limit then subQuickSort xs left limit itemSize cmp else Some xs);
                  if start + 1 < right then subQuickSort xs start right itemSize cmp else Some xs } } }"

declare subQuickSort.simps [code]

definition quickSort ::
  "'x heap \<Rightarrow> 'a list \<Rightarrow> nat \<Rightarrow> int \<Rightarrow> ('a \<Rightarrow> 'a \<Rightarrow> int) \<Rightarrow> UErrorCode \<Rightarrow> ('a list \<times> UErrorCode) option" where
  "quickSort hp xs n itemSize cmp status =
     do { room \<leftarrow> (if itemSize \<le> STACK_ITEM_SIZE then Some True
                   else do { size \<leftarrow> chk (2 * itemSize); Some (uprv_malloc hp size) });
          if \<not> room then Some (xs, U_MEMORY_ALLOCATION_ERROR)
          else do { xs \<leftarrow> subQuickSort xs 0 n itemSize cmp; Some (xs, status) } }"

text \<open>An array and a comparator that are null pointers are none.\<close>

definition uprv_sortArray ::
  "'x heap \<Rightarrow> 'a list option \<Rightarrow> int \<Rightarrow> int \<Rightarrow> ('a \<Rightarrow> 'a \<Rightarrow> int) option \<Rightarrow> bool \<Rightarrow> UErrorCode \<Rightarrow>
   ('a list option \<times> UErrorCode) option" where
  "uprv_sortArray hp array len itemSize comparator sortStable status =
     (if U_FAILURE status then Some (array, status)
      else if len > 0 \<and> array = None \<or> len < 0 \<or> itemSize \<le> 0 \<or> comparator = None
      then Some (array, U_ILLEGAL_ARGUMENT_ERROR)
      else if len \<le> 1 then Some (array, status)
      else do { xs \<leftarrow> array; cmp \<leftarrow> comparator;
                r \<leftarrow> (if len < int MIN_QSORT \<or> sortStable then insertionSort hp xs (nat len) itemSize cmp status
                     else quickSort hp xs (nat len) itemSize cmp status);
                Some (Some (fst r), snd r) })"

section \<open>Comparators of the code\<close>

definition uprv_uint16Comparator :: "int \<Rightarrow> int \<Rightarrow> int" where "uprv_uint16Comparator left right = left - right"

text \<open>The difference of two 32-bit integers may leave the type, and then the comparator has no result.\<close>

definition uprv_int32Comparator :: "int \<Rightarrow> int \<Rightarrow> int option" where
  "uprv_int32Comparator left right = chk (left - right)"

definition uprv_uint32Comparator :: "int \<Rightarrow> int \<Rightarrow> int" where
  "uprv_uint32Comparator l r = (if l < r then -1 else if l = r then 0 else 1)"

end
