(* ===== verification/USortSpec.thy ===== *)
theory USortSpec
  imports USort "HOL-Library.Multiset"
begin

text \<open>
  What the sort relies on of its comparator (locale \<open>sort_order\<close>) and that it sorts: insertion sort stably,
  quicksort up to the order of equal items. The binary search keeps the items before \<open>start\<close> at most, and those from
  \<open>limit\<close> on greater than, the item it looks for.
\<close>

definition ascending :: "('a \<Rightarrow> 'a \<Rightarrow> int) \<Rightarrow> 'a list \<Rightarrow> bool" where
  "ascending cmp xs \<longleftrightarrow> sorted_wrt (\<lambda>x y. cmp x y \<le> 0) xs"

text \<open>The byte offsets of \<open>n\<close> items and the sums of two of their indexes fit in 32 bits.\<close>

definition fits :: "nat \<Rightarrow> int \<Rightarrow> bool" where
  "fits n itemSize \<longleftrightarrow> 0 < itemSize \<and> int n * itemSize \<le> INT32_MAX \<and> int n \<le> 1073741823"

lemma fits_offset: "fits n sz \<Longrightarrow> i \<le> n \<Longrightarrow> chk (int i * sz) = Some (int i * sz)"
proof -
  assume f: "fits n sz" and i: "i \<le> n"
  have "int i * sz \<le> int n * sz" using f i by (intro mult_right_mono) (simp_all add: fits_def)
  moreover have "0 \<le> int i * sz" using f by (simp add: fits_def)
  ultimately have "- 2147483648 \<le> int i * sz" "int i * sz \<le> INT32_MAX" using f unfolding fits_def by linarith+
  then show ?thesis by (rule chk_in)
qed

lemma fits_mono: "fits n sz \<Longrightarrow> m \<le> n \<Longrightarrow> fits m sz"
  using fits_offset [of n sz m] by (auto simp: fits_def chk_eq_Some_iff)

lemma fits_add: "fits n sz \<Longrightarrow> i \<le> n \<Longrightarrow> j \<le> n \<Longrightarrow> add32 i j = Some (i + j)"
  by (simp add: fits_def add32_def)

lemma item_at_in: "fits n sz \<Longrightarrow> i < n \<Longrightarrow> n \<le> length xs \<Longrightarrow> item_at sz xs i = Some (xs ! i)"
  using fits_offset [of n sz i] by (simp add: item_at_def)

lemma move_down_in:
  assumes "fits n sz" "p \<le> j" "j < n" "n \<le> length xs"
  shows "move_down xs sz p j = Some (moved xs p j)"
proof -
  have p: "chk (int p * sz) = Some (int p * sz)" "chk ((int j - int p) * sz) = Some ((int j - int p) * sz)"
    using fits_offset [OF assms(1), of p] fits_offset [OF assms(1), of "j - p"] assms(2,3) by (simp_all add: of_nat_diff)
  have "j < length xs" using assms(3,4) by simp
  then show ?thesis unfolding move_down_def p by simp
qed

definition searched :: "('a \<Rightarrow> 'a \<Rightarrow> int) \<Rightarrow> 'a list \<Rightarrow> 'a \<Rightarrow> nat \<Rightarrow> nat \<Rightarrow> nat \<Rightarrow> bool \<Rightarrow> bool" where
  "searched cmp xs item n start limit found \<longleftrightarrow> start \<le> limit \<and> limit \<le> n \<and>
     (\<forall>i < start. cmp (xs ! i) item \<le> 0) \<and> (\<forall>i < n. limit \<le> i \<longrightarrow> cmp item (xs ! i) < 0) \<and>
     (if found then 0 < start \<and> cmp item (xs ! (start - 1)) = 0 else \<forall>i < start. cmp item (xs ! i) \<noteq> 0)"

locale sort_order =
  fixes cmp :: "'a \<Rightarrow> 'a \<Rightarrow> int"
  assumes cmp_swap: "cmp x y < 0 \<longleftrightarrow> 0 < cmp y x"
    and cmp_le_trans: "cmp x y \<le> 0 \<Longrightarrow> cmp y z \<le> 0 \<Longrightarrow> cmp x z \<le> 0"
begin

lemma cmp_refl: "cmp x x = 0"
  using cmp_swap [of x x] by linarith

lemma cmp_eq_swap: "cmp x y = 0 \<longleftrightarrow> cmp y x = 0"
  using cmp_swap [of x y] cmp_swap [of y x] by linarith

lemma cmp_ge: "0 \<le> cmp x y \<longleftrightarrow> cmp y x \<le> 0"
  using cmp_swap [of x y] by linarith

lemma cmp_less_le: "cmp x y < 0 \<Longrightarrow> cmp y z \<le> 0 \<Longrightarrow> cmp x z < 0"
  using cmp_le_trans [of y z x] cmp_swap [of x y] cmp_swap [of x z] cmp_ge [of x z] by linarith

lemma cmp_le_less: "cmp x y \<le> 0 \<Longrightarrow> cmp y z < 0 \<Longrightarrow> cmp x z < 0"
  using cmp_le_trans [of z x y] cmp_swap [of y z] cmp_ge [of x z] by linarith

lemma cmp_zero: "cmp x y = 0 \<longleftrightarrow> cmp x y \<le> 0 \<and> cmp y x \<le> 0"
  using cmp_ge [of x y] by linarith

lemma cmp_eq_trans: "cmp x y = 0 \<Longrightarrow> cmp x z = 0 \<longleftrightarrow> cmp y z = 0"
  unfolding cmp_zero using cmp_le_trans by blast

lemma ascending_nth: "ascending cmp xs \<Longrightarrow> i < j \<Longrightarrow> j < length xs \<Longrightarrow> cmp (xs ! i) (xs ! j) \<le> 0"
  by (simp add: ascending_def sorted_wrt_iff_nth_less)

section \<open>The binary search\<close>

lemma searched_equal:
  assumes "searched cmp xs item n start limit found" "start \<le> i" "i < limit" "ascending cmp (take n xs)" "n \<le> length xs" "cmp item (xs ! i) = 0"
  shows "searched cmp xs item n (i + 1) limit True"
proof -
  have "cmp (xs ! k) item \<le> 0" if "k < i + 1" for k
  proof (cases "k = i")
    case True
    then show ?thesis using assms(6) cmp_zero [of item "xs ! i"] by simp
  next
    case False
    then have "cmp (xs ! k) (xs ! i) \<le> 0" using ascending_nth [OF assms(4), of k i] that assms by (simp add: searched_def)
    then show ?thesis using cmp_le_trans [of "xs ! k" "xs ! i" item] assms(6) cmp_eq_swap [of item "xs ! i"] by simp
  qed
  with assms show ?thesis by (simp add: searched_def)
qed

lemma searched_less:
  assumes "searched cmp xs item n start limit found" "start \<le> i" "i < limit" "ascending cmp (take n xs)" "n \<le> length xs" "cmp item (xs ! i) < 0"
  shows "searched cmp xs item n start i found"
proof -
  have "cmp item (xs ! k) < 0" if "k < n" "i \<le> k" for k
  proof (cases "k = i")
    case False
    then have "cmp (xs ! i) (xs ! k) \<le> 0" using ascending_nth [OF assms(4), of i k] that assms(5) by simp
    then show ?thesis using cmp_less_le [OF assms(6)] by blast
  qed (use assms(6) in simp)
  with assms show ?thesis by (auto simp: searched_def split: if_splits)
qed

lemma searched_greater:
  assumes "searched cmp xs item n start limit found" "start \<le> i" "i < limit" "ascending cmp (take n xs)" "n \<le> length xs" "0 < cmp item (xs ! i)"
    "k = i \<or> k = i + 1"
  shows "searched cmp xs item n k limit found"
proof -
  have below: "cmp (xs ! l) item < 0" if "l \<le> i" for l
  proof -
    have "cmp (xs ! l) (xs ! i) \<le> 0"
      using ascending_nth [OF assms(4), of l i] that assms(1,3,5) cmp_refl by (cases "l = i") (simp_all add: searched_def)
    moreover have "cmp (xs ! i) item < 0" using assms(6) cmp_swap by blast
    ultimately show ?thesis using cmp_le_less by blast
  qed
  have "\<not> found"
  proof
    assume f: found
    then have "cmp item (xs ! (start - 1)) = 0" "start - 1 \<le> i" using assms(1,2) by (auto simp: searched_def)
    then show False using below [of "start - 1"] cmp_eq_swap [of item] by simp
  qed
  moreover have "cmp item (xs ! l) \<noteq> 0" "cmp (xs ! l) item \<le> 0" if "l < k" for l
    using below [of l] that assms(7) cmp_eq_swap [of item "xs ! l"] by auto
  ultimately show ?thesis using assms(1,2,3,7) by (auto simp: searched_def)
qed

lemma bisect_spec:
  assumes "ascending cmp (take n xs)" "n \<le> length xs" "fits n sz" "searched cmp xs item n start limit found"
  shows "\<exists>s l f. bisect xs sz cmp item start limit found = Some (s, l, f) \<and> searched cmp xs item n s l f"
  using assms(4)
proof (induction "limit - start" arbitrary: start limit found rule: less_induct)
  case less
  show ?case
  proof (cases "limit \<ge> start + MIN_QSORT")
    case False
    then show ?thesis using less.prems by (subst bisect.simps) simp
  next
    case True
    let ?i = "(start + limit) div 2"
    have i: "start < ?i" "?i < limit" "limit \<le> n" using True less.prems by (auto simp: MIN_QSORT_def searched_def)
    have "add32 start limit = Some (start + limit)" using i fits_add [OF assms(3)] by simp
    moreover have "item_at sz xs ?i = Some (xs ! ?i)" using i item_at_in [OF assms(3) _ assms(2)] by simp
    ultimately have step: "bisect xs sz cmp item start limit found =
      (if cmp item (xs ! ?i) = 0 then bisect xs sz cmp item (?i + 1) limit True
       else if cmp item (xs ! ?i) < 0 then bisect xs sz cmp item start ?i found else bisect xs sz cmp item ?i limit found)"
      using True by (subst bisect.simps) (simp add: Let_def)
    have le: "start \<le> ?i" using i by simp
    consider "cmp item (xs ! ?i) = 0" | "cmp item (xs ! ?i) < 0" | "0 < cmp item (xs ! ?i)" by linarith
    then show ?thesis
    proof cases
      case 1
      then have "searched cmp xs item n (?i + 1) limit True" using searched_equal [OF less.prems le i(2) assms(1,2)] by blast
      with less.hyps [of limit "?i + 1" True] i 1 show ?thesis unfolding step by simp
    next
      case 2
      then have "searched cmp xs item n start ?i found" using searched_less [OF less.prems le i(2) assms(1,2)] by blast
      with less.hyps [of ?i start found] i 2 show ?thesis unfolding step by simp
    next
      case 3
      then have "searched cmp xs item n ?i limit found" using searched_greater [OF less.prems le i(2) assms(1,2)] by blast
      with less.hyps [of limit ?i found] i 3 show ?thesis unfolding step by simp
    qed
  qed
qed

lemma linear_spec:
  assumes "ascending cmp (take n xs)" "n \<le> length xs" "fits n sz" "searched cmp xs item n start limit found"
  shows "\<exists>s f. linear xs sz cmp item start limit found = Some (s, f) \<and> searched cmp xs item n s s f"
  using assms(4)
proof (induction "limit - start" arbitrary: start found rule: less_induct)
  case less
  show ?case
  proof (cases "start < limit")
    case False
    then have "start = limit" using less.prems by (simp add: searched_def)
    then show ?thesis using less.prems by (subst linear.simps) simp
  next
    case True
    then have "item_at sz xs start = Some (xs ! start)" using less.prems item_at_in [OF assms(3) _ assms(2)] by (simp add: searched_def)
    then have step: "linear xs sz cmp item start limit found =
      (if cmp item (xs ! start) = 0 then linear xs sz cmp item (start + 1) limit True
       else if cmp item (xs ! start) < 0 then Some (start, found) else linear xs sz cmp item (start + 1) limit found)"
      using True by (subst linear.simps) (simp add: Let_def)
    consider "cmp item (xs ! start) = 0" | "cmp item (xs ! start) < 0" | "0 < cmp item (xs ! start)" by linarith
    then show ?thesis
    proof cases
      case 1
      then have "searched cmp xs item n (start + 1) limit True" using searched_equal [OF less.prems le_refl True assms(1,2)] by blast
      with less.hyps [of "start + 1" True] True 1 show ?thesis unfolding step by simp
    next
      case 2
      with searched_less [OF less.prems le_refl True assms(1,2)] show ?thesis unfolding step by simp
    next
      case 3
      then have "searched cmp xs item n (start + 1) limit found" using searched_greater [OF less.prems le_refl True assms(1,2)] by blast
      with less.hyps [of "start + 1" found] True 3 show ?thesis unfolding step by simp
    qed
  qed
qed

lemma search_spec:
  assumes "ascending cmp (take n xs)" "n \<le> length xs" "fits n sz"
  shows "\<exists>s f. uprv_stableBinarySearch xs n item sz cmp = Some (if f then int s - 1 else - int s - 1) \<and> searched cmp xs item n s s f"
proof -
  have "searched cmp xs item n 0 n False" by (simp add: searched_def)
  from bisect_spec [OF assms this] obtain s l f where b: "bisect xs sz cmp item 0 n False = Some (s, l, f)" "searched cmp xs item n s l f" by blast
  from linear_spec [OF assms b(2)] obtain t g where l: "linear xs sz cmp item s l f = Some (t, g)" "searched cmp xs item n t t g" by blast
  have "uprv_stableBinarySearch xs n item sz cmp = Some (if g then int t - 1 else - int t - 1)"
    using b(1) l(1) by (simp add: uprv_stableBinarySearch_def)
  with l(2) show ?thesis by blast
qed

section \<open>Insertion sort\<close>

lemma moved_mset:
  assumes "p \<le> j" "j < length xs"
  shows "mset (moved xs p j) = mset xs" "length (moved xs p j) = length xs" "drop (j + 1) (moved xs p j) = drop (j + 1) xs"
    "take (j + 1) (moved xs p j) = take p xs @ xs ! j # take (j - p) (drop p xs)"
proof -
  have split: "xs = take p xs @ take (j - p) (drop p xs) @ xs ! j # drop (j + 1) xs"
    using assms by (metis Cons_nth_drop_Suc Suc_eq_plus1 append_assoc append_take_drop_id le_add_diff_inverse take_add)
  show "mset (moved xs p j) = mset xs"
    using arg_cong [OF split, of mset] unfolding moved_def mset_append mset.simps by simp
  let ?a = "take p xs @ xs ! j # take (j - p) (drop p xs)"
  have a: "length ?a = j + 1" using assms by (simp add: min_absorb2)
  have m: "moved xs p j = ?a @ drop (j + 1) xs" by (simp add: moved_def)
  show "length (moved xs p j) = length xs" unfolding m length_append a using assms by simp
  show "drop (j + 1) (moved xs p j) = drop (j + 1) xs" "take (j + 1) (moved xs p j) = ?a"
    unfolding m using a by (metis append_eq_conv_conj)+
qed

text \<open>One item goes behind the items that are at most it.\<close>

lemma insert_item:
  assumes "ascending cmp (take j xs)" "j < length xs" "searched cmp xs (xs ! j) j s s f"
  shows "ascending cmp (take (j + 1) (moved xs s j))"
    "filter (\<lambda>y. cmp z y = 0) (take (j + 1) (moved xs s j)) = filter (\<lambda>y. cmp z y = 0) (take (j + 1) xs)"
proof -
  let ?x = "xs ! j" and ?L = "take s xs" and ?R = "take (j - s) (drop s xs)"
  have s: "s \<le> j" using assms(3) by (simp add: searched_def)
  have L: "\<forall>y \<in> set ?L. cmp y ?x \<le> 0"
    using assms(3) s assms(2) by (auto simp: searched_def in_set_conv_nth)
  have R: "\<forall>y \<in> set ?R. cmp ?x y < 0"
    using assms(3) s assms(2) by (auto simp: searched_def in_set_conv_nth)
  have take: "take j xs = ?L @ ?R" using s by (metis le_add_diff_inverse take_add)
  have new: "take (j + 1) (moved xs s j) = ?L @ ?x # ?R" using moved_mset(4) [OF s assms(2)] .
  have "ascending cmp (?L @ ?R)" using assms(1) unfolding take .
  then have LR: "sorted_wrt (\<lambda>x y. cmp x y \<le> 0) ?L" "sorted_wrt (\<lambda>x y. cmp x y \<le> 0) ?R" "\<forall>x \<in> set ?L. \<forall>y \<in> set ?R. cmp x y \<le> 0"
    unfolding ascending_def sorted_wrt_append by blast+
  have "sorted_wrt (\<lambda>x y. cmp x y \<le> 0) (?L @ ?x # ?R)"
    unfolding sorted_wrt_append sorted_wrt.simps set_simps ball_simps insert_iff
    using L LR R by (auto intro: order_less_imp_le)
  then show "ascending cmp (take (j + 1) (moved xs s j))" unfolding new ascending_def .
  have "filter (\<lambda>y. cmp z y = 0) (?L @ ?x # ?R) = filter (\<lambda>y. cmp z y = 0) (?L @ ?R @ [?x])"
  proof (cases "cmp z ?x = 0")
    case True
    have "filter (\<lambda>y. cmp z y = 0) ?R = []"
      unfolding filter_empty_conv using R cmp_eq_trans [OF True] by (metis less_irrefl)
    then show ?thesis by simp
  qed simp
  moreover have "take (j + 1) xs = ?L @ ?R @ [?x]" using assms(2) take by (simp add: take_Suc_conv_app_nth)
  ultimately show "filter (\<lambda>y. cmp z y = 0) (take (j + 1) (moved xs s j)) = filter (\<lambda>y. cmp z y = 0) (take (j + 1) xs)"
    unfolding new by simp
qed

lemma moved_same: "j < length xs \<Longrightarrow> moved xs j j = xs"
  by (simp add: moved_def id_take_nth_drop [symmetric])

lemma insertion_loop_spec:
  assumes "n \<le> length xs" "fits n sz" "j \<le> n" "ascending cmp (take j xs)"
  shows "\<exists>ys. insertion_loop xs sz cmp n j = Some ys \<and> ascending cmp (take n ys) \<and> mset ys = mset xs \<and> drop n ys = drop n xs \<and>
    (\<forall>z. filter (\<lambda>y. cmp z y = 0) (take n ys) = filter (\<lambda>y. cmp z y = 0) (take n xs))"
  using assms
proof (induction "n - j" arbitrary: xs j rule: less_induct)
  case less
  show ?case
  proof (cases "j < n")
    case False
    then have "j = n" using less.prems by simp
    then show ?thesis using less.prems by (subst insertion_loop.simps) simp
  next
    case True
    then have j: "j < length xs" "fits j sz" using less.prems fits_mono [OF less.prems(2), of j] by simp_all
    have item: "item_at sz xs j = Some (xs ! j)" by (rule item_at_in [OF less.prems(2) True less.prems(1)])
    obtain s f where s: "uprv_stableBinarySearch xs j (xs ! j) sz cmp = Some (if f then int s - 1 else - int s - 1)"
      "searched cmp xs (xs ! j) j s s f"
      using search_spec [OF less.prems(4) _ j(2), of "xs ! j"] j(1) by auto
    let ?xs = "moved xs s j"
    have p: "nat (if (if f then int s - 1 else - int s - 1) < 0 then - (if f then int s - 1 else - int s - 1) - 1
      else (if f then int s - 1 else - int s - 1) + 1) = s" using s(2) by (auto simp: searched_def)
    have sj: "s \<le> j" using s(2) by (simp add: searched_def)
    have "(if s < j then move_down xs sz s j else Some xs) = Some ?xs"
      using sj moved_same [OF j(1)] move_down_in [OF less.prems(2) sj True less.prems(1)] by (cases "s = j") auto
    then have step: "insertion_loop xs sz cmp n j = insertion_loop ?xs sz cmp n (j + 1)"
      using True j(1) s(1) p by (subst insertion_loop.simps) (simp only: item option.case Let_def if_True)
    note m = moved_mset [OF sj j(1)]
    note ins = insert_item [OF less.prems(4) j(1) s(2)]
    have "n - (j + 1) < n - j" using True by simp
    then obtain ys where ys: "insertion_loop ?xs sz cmp n (j + 1) = Some ys" "ascending cmp (take n ys)" "mset ys = mset ?xs" "drop n ys = drop n ?xs"
      "\<forall>z. filter (\<lambda>y. cmp z y = 0) (take n ys) = filter (\<lambda>y. cmp z y = 0) (take n ?xs)"
      using less.hyps [of "j + 1" ?xs] less.prems True m(2) ins(1) by auto
    have tail: "drop (j + 1) (take n ?xs) = drop (j + 1) (take n xs)" "drop n ?xs = drop n xs"
      using m(3) True by (metis drop_take, metis Suc_eq_plus1 Suc_leI drop_drop le_add_diff_inverse2)
    have "filter (\<lambda>y. cmp z y = 0) (take n ?xs) = filter (\<lambda>y. cmp z y = 0) (take n xs)" for z
    proof -
      have "take n zs = take (j + 1) zs @ drop (j + 1) (take n zs)" for zs :: "'a list"
        using True by (metis Suc_eq_plus1 Suc_leI append_take_drop_id min.absorb1 take_take)
      then show ?thesis using ins(2) [of z] tail(1) by (metis filter_append)
    qed
    with ys m(1) tail(2) show ?thesis unfolding step by simp
  qed
qed

lemma insertion_spec:
  assumes "n \<le> length xs" "fits n sz"
  shows "\<exists>ys. doInsertionSort xs n sz cmp = Some ys \<and> ascending cmp (take n ys) \<and> mset ys = mset xs \<and> drop n ys = drop n xs \<and>
    (\<forall>z. filter (\<lambda>y. cmp z y = 0) (take n ys) = filter (\<lambda>y. cmp z y = 0) (take n xs))"
proof (cases "n = 0")
  case True
  then show ?thesis by (simp add: doInsertionSort_def insertion_loop.simps ascending_def)
next
  case False
  then have "take 1 xs = [xs ! 0]" using assms(1) by (cases xs) auto
  then have "ascending cmp (take 1 xs)" by (simp add: ascending_def)
  with insertion_loop_spec [OF assms, of 1] False show ?thesis by (simp add: doInsertionSort_def)
qed

end

end
