(* ===== verification/USortQuick.thy ===== *)
theory USortQuick
  imports USortSpec
begin

text \<open>
  Quicksort. After a partition around \<open>x\<close> the piece before \<open>left\<close> is at most \<open>x\<close> and the piece from
  \<open>right\<close> on is at least \<open>x\<close>, where \<open>right \<le> left\<close>; both pieces are shorter than the whole, since the
  item \<open>x\<close> stops each of the first two scans.
\<close>

section \<open>Pieces\<close>

definition piece :: "'a list \<Rightarrow> nat \<Rightarrow> nat \<Rightarrow> 'a list" where
  "piece xs a b = take (b - a) (drop a xs)"

definition reorders :: "'a list \<Rightarrow> 'a list \<Rightarrow> nat \<Rightarrow> nat \<Rightarrow> bool" where
  "reorders xs ys a b \<longleftrightarrow> length ys = length xs \<and> mset ys = mset xs \<and> take a ys = take a xs \<and> drop b ys = drop b xs"

lemma piece_map: "b \<le> length xs \<Longrightarrow> piece xs a b = map (\<lambda>i. xs ! i) [a..<b]"
  by (rule nth_equalityI) (simp_all add: piece_def)

lemma set_piece: "b \<le> length xs \<Longrightarrow> set (piece xs a b) = (\<lambda>i. xs ! i) ` {a..<b}"
  by (simp add: piece_map)

lemma piece_append: "a \<le> b \<Longrightarrow> b \<le> c \<Longrightarrow> piece xs a c = piece xs a b @ piece xs b c"
proof -
  assume ab: "a \<le> b" "b \<le> c"
  have "take (c - a) (drop a xs) = take (b - a) (drop a xs) @ take (c - a - (b - a)) (drop (b - a) (drop a xs))"
    using ab by (metis diff_le_mono le_add_diff_inverse take_add)
  with ab show ?thesis by (simp add: piece_def)
qed

lemma split_pieces: "a \<le> b \<Longrightarrow> b \<le> length xs \<Longrightarrow> xs = take a xs @ piece xs a b @ drop b xs"
  by (metis append_take_drop_id drop_drop le_add_diff_inverse2 piece_def)

lemma reorders_refl [simp]: "reorders xs xs a b"
  by (simp add: reorders_def)

lemma reorders_trans: "reorders xs ys a b \<Longrightarrow> reorders ys zs a b \<Longrightarrow> reorders xs zs a b"
  by (simp add: reorders_def)

lemma reorders_mono:
  assumes "reorders xs ys c d" "a \<le> c" "d \<le> b"
  shows "reorders xs ys a b"
proof -
  have "take a ys = take a xs" using assms by (metis min.absorb1 reorders_def take_take)
  moreover have "drop b ys = drop b xs" using assms by (metis le_add_diff_inverse2 drop_drop reorders_def)
  ultimately show ?thesis using assms(1) by (simp add: reorders_def)
qed

lemma reorders_piece:
  assumes "reorders xs ys a b" "a \<le> b" "b \<le> length xs"
  shows "mset (piece ys a b) = mset (piece xs a b)"
proof -
  have parts: "mset zs = mset (take a zs) + (mset (piece zs a b) + mset (drop b zs))" if "b \<le> length zs" for zs :: "'a list"
    using split_pieces [OF assms(2) that] by (metis mset_append)
  have r: "mset ys = mset xs" "take a ys = take a xs" "drop b ys = drop b xs" "b \<le> length ys"
    using assms by (simp_all add: reorders_def)
  have "mset (take a xs) + (mset (piece ys a b) + mset (drop b xs)) = mset (take a xs) + (mset (piece xs a b) + mset (drop b xs))"
    using parts [OF assms(3)] parts [OF r(4)] unfolding r(1-3) by metis
  then show ?thesis by simp
qed

lemma reorders_outside:
  assumes "reorders xs ys a b"
  shows "d \<le> a \<Longrightarrow> piece ys c d = piece xs c d" "b \<le> c \<Longrightarrow> piece ys c d = piece xs c d"
proof -
  have *: "piece zs c d = drop c (take d zs)" for zs :: "'a list" by (simp add: piece_def drop_take)
  show "d \<le> a \<Longrightarrow> piece ys c d = piece xs c d"
    unfolding * using assms by (metis min.absorb1 reorders_def take_take)
  show "b \<le> c \<Longrightarrow> piece ys c d = piece xs c d"
    unfolding piece_def using assms by (metis le_add_diff_inverse2 drop_drop reorders_def)
qed

lemma swap_items_spec:
  assumes "i < j" "j < b" "a \<le> i" "fits b sz" "b \<le> length xs"
  shows "swap_items xs sz i j = Some (xs[i := xs ! j, j := xs ! i])" "reorders xs (xs[i := xs ! j, j := xs ! i]) a b"
proof -
  have "item_at sz xs i = Some (xs ! i)" "item_at sz xs j = Some (xs ! j)"
    using item_at_in [OF assms(4) _ assms(5)] assms(1,2) by simp_all
  then show "swap_items xs sz i j = Some (xs[i := xs ! j, j := xs ! i])" using assms by (simp add: swap_items_def)
  have "mset (xs[i := xs ! j, j := xs ! i]) = mset xs" using assms mset_swap [of i xs j] by (simp add: list_update_swap)
  with assms show "reorders xs (xs[i := xs ! j, j := xs ! i]) a b" by (simp add: reorders_def)
qed

section \<open>Partition\<close>

lemma scan_left_spec:
  assumes "left \<le> k" "k < n" "\<not> cmp (xs ! k) x < 0" "fits n sz" "n \<le> length xs"
  shows "\<exists>l. scan_left xs sz cmp x left = Some l \<and> left \<le> l \<and> l \<le> k \<and> (\<forall>i. left \<le> i \<longrightarrow> i < l \<longrightarrow> cmp (xs ! i) x < 0) \<and> \<not> cmp (xs ! l) x < 0"
  using assms(1)
proof (induction "k - left" arbitrary: left rule: less_induct)
  case less
  have r: "item_at sz xs left = Some (xs ! left)" using less.prems assms(2) item_at_in [OF assms(4) _ assms(5)] by simp
  show ?case
  proof (cases "cmp (xs ! left) x < 0")
    case True
    then have "left \<noteq> k" using assms(3) by auto
    then have "left + 1 \<le> k" using less.prems by simp
    moreover from this have "k - (left + 1) < k - left" by simp
    ultimately obtain l where l: "scan_left xs sz cmp x (left + 1) = Some l" "left + 1 \<le> l" "l \<le> k"
      "\<forall>i. left + 1 \<le> i \<longrightarrow> i < l \<longrightarrow> cmp (xs ! i) x < 0" "\<not> cmp (xs ! l) x < 0" using less.hyps by blast
    have "scan_left xs sz cmp x left = Some l" using r True l(1) by (subst scan_left.simps) simp
    moreover have "cmp (xs ! i) x < 0" if "left \<le> i" "i < l" for i using l(4) that True by (cases "i = left") auto
    ultimately show ?thesis using l by auto
  next
    case False
    then have "scan_left xs sz cmp x left = Some left" using r by (subst scan_left.simps) simp
    with False less.prems show ?thesis by auto
  qed
qed

lemma scan_right_spec:
  assumes "k < right" "right \<le> n" "\<not> cmp x (xs ! k) < 0" "fits n sz" "n \<le> length xs"
  shows "\<exists>r. scan_right xs sz cmp x right = Some r \<and> k < r \<and> r \<le> right \<and> (\<forall>i. r \<le> i \<longrightarrow> i < right \<longrightarrow> cmp x (xs ! i) < 0) \<and> \<not> cmp x (xs ! (r - 1)) < 0"
  using assms(1-3)
proof (induction right)
  case (Suc right)
  have at: "item_at sz xs right = Some (xs ! right)" using Suc.prems(2) item_at_in [OF assms(4) _ assms(5)] by simp
  show ?case
  proof (cases "cmp x (xs ! right) < 0")
    case True
    then have "k < right" using Suc.prems by (metis less_antisym)
    with Suc.IH Suc.prems obtain r where r: "scan_right xs sz cmp x right = Some r" "k < r" "r \<le> right"
      "\<forall>i. r \<le> i \<longrightarrow> i < right \<longrightarrow> cmp x (xs ! i) < 0" "\<not> cmp x (xs ! (r - 1)) < 0" by auto
    have "cmp x (xs ! i) < 0" if "r \<le> i" "i < Suc right" for i using r(4) that True by (cases "i = right") auto
    with r True at show ?thesis by auto
  next
    case False
    with Suc.prems at show ?thesis by auto
  qed
qed simp

context sort_order
begin

definition partitioned :: "'a list \<Rightarrow> 'a \<Rightarrow> nat \<Rightarrow> nat \<Rightarrow> nat \<Rightarrow> nat \<Rightarrow> bool" where
  "partitioned xs x start limit left right \<longleftrightarrow>
     (\<forall>i. start \<le> i \<longrightarrow> i < left \<longrightarrow> cmp (xs ! i) x \<le> 0) \<and> (\<forall>i. right \<le> i \<longrightarrow> i < limit \<longrightarrow> 0 \<le> cmp (xs ! i) x)"

text \<open>Where the two scans stop.\<close>

lemma scans:
  assumes "partitioned xs x start limit left right" "start \<le> left" "left < right" "right \<le> limit" "limit \<le> length xs"
    "left \<le> kl" "kl < limit" "0 \<le> cmp (xs ! kl) x" "start \<le> kr" "kr < right" "cmp (xs ! kr) x \<le> 0" "fits limit sz"
  shows "\<exists>l r. scan_left xs sz cmp x left = Some l \<and> scan_right xs sz cmp x right = Some r \<and> left \<le> l \<and> l \<le> kl \<and> kr < r \<and> r \<le> right \<and> l \<le> r \<and>
    partitioned xs x start limit l r \<and> 0 \<le> cmp (xs ! l) x \<and> cmp (xs ! (r - 1)) x \<le> 0"
proof -
  obtain l where l: "scan_left xs sz cmp x left = Some l" "left \<le> l" "l \<le> kl" "\<forall>i. left \<le> i \<longrightarrow> i < l \<longrightarrow> cmp (xs ! i) x < 0" "\<not> cmp (xs ! l) x < 0"
    using scan_left_spec [OF assms(6,7) _ assms(12,5), of cmp x] assms(8) by auto
  have "\<not> cmp x (xs ! kr) < 0" using assms(11) cmp_swap [of x "xs ! kr"] by simp
  then obtain r where r: "scan_right xs sz cmp x right = Some r" "kr < r" "r \<le> right" "\<forall>i. r \<le> i \<longrightarrow> i < right \<longrightarrow> cmp x (xs ! i) < 0"
    "\<not> cmp x (xs ! (r - 1)) < 0"
    using scan_right_spec [OF assms(10,4) _ assms(12,5), of cmp x] by auto
  have low: "cmp (xs ! i) x \<le> 0" if "start \<le> i" "i < l" for i
  proof (cases "i < left")
    case False
    then have "cmp (xs ! i) x < 0" using l(4) that by simp
    then show ?thesis by simp
  qed (use assms(1) that in \<open>simp add: partitioned_def\<close>)
  have high: "0 < cmp (xs ! i) x" if "r \<le> i" "i < right" for i using r(4) that cmp_swap by blast
  have high2: "0 \<le> cmp (xs ! i) x" if "r \<le> i" "i < limit" for i
    using high [of i] that assms(1) by (cases "i < right") (auto simp: partitioned_def)
  have "l \<le> r"
  proof (rule ccontr)
    assume "\<not> l \<le> r"
    then have lr: "r < l" by simp
    show False
    proof (cases "r < right")
      case True
      have "start \<le> r" using assms(9) r(2) by simp
      then show False using low [OF _ lr] high [of r] True by simp
    next
      case False
      then have "r = right" using r(3) by simp
      then have "cmp (xs ! r) x < 0" "r < limit" using l(3,4) lr assms(3,7) by auto
      with high2 [of r] show False by simp
    qed
  qed
  moreover have "cmp (xs ! (r - 1)) x \<le> 0" using r(5) cmp_swap by (metis not_less)
  ultimately show ?thesis using l r low high2 by (auto simp: partitioned_def not_less)
qed

lemma swap_partitioned:
  assumes "partitioned xs x start limit l r" "start \<le> l" "l < r" "r \<le> limit" "limit \<le> length xs"
    "0 \<le> cmp (xs ! l) x" "cmp (xs ! (r - 1)) x \<le> 0" "fits limit sz"
  shows "\<exists>ys. (if l < r - 1 then swap_items xs sz l (r - 1) else Some xs) = Some ys \<and> reorders xs ys start limit \<and>
    partitioned ys x start limit (l + 1) (r - 1) \<and> cmp (ys ! l) x \<le> 0 \<and> 0 \<le> cmp (ys ! (r - 1)) x"
proof (cases "l < r - 1")
  case True
  let ?ys = "xs[l := xs ! (r - 1), r - 1 := xs ! l]"
  note s = swap_items_spec [of l "r - 1" limit start sz xs]
  have at: "?ys ! i = (if i = r - 1 then xs ! l else if i = l then xs ! (r - 1) else xs ! i)" if "i < limit" for i
    using that assms True by (simp add: nth_list_update)
  have "cmp (?ys ! i) x \<le> 0" if "start \<le> i" "i < l + 1" for i
    using at [of i] that True assms by (auto simp: partitioned_def)
  moreover have "0 \<le> cmp (?ys ! i) x" if "r - 1 \<le> i" "i < limit" for i
    using at [of i] that True assms by (auto simp: partitioned_def)
  ultimately show ?thesis using s True assms by (auto simp: partitioned_def)
next
  case False
  then have e: "l = r - 1" using assms(3) by simp
  have "cmp (xs ! i) x \<le> 0" if "start \<le> i" "i < l + 1" for i
    using that assms(1,7) e by (cases "i = l") (auto simp: partitioned_def)
  moreover have "0 \<le> cmp (xs ! i) x" if "r - 1 \<le> i" "i < limit" for i
    using that assms(1,6) e by (cases "i = l") (auto simp: partitioned_def)
  ultimately show ?thesis using False assms(2,3,6,7) e by (auto simp: partitioned_def)
qed

end

text \<open>The result of the partition of a piece that has an item equal to \<open>x\<close>, or both of whose scans meet an item that
  stops them.\<close>

definition split_off :: "('a \<Rightarrow> 'a \<Rightarrow> int) \<Rightarrow> 'a list \<Rightarrow> 'a \<Rightarrow> 'a list \<Rightarrow> nat \<Rightarrow> nat \<Rightarrow> nat \<Rightarrow> nat \<Rightarrow> bool" where
  "split_off cmp xs x ys start limit left right \<longleftrightarrow> reorders xs ys start limit \<and> start \<le> right \<and> right \<le> left \<and> left \<le> limit \<and>
     (\<forall>i. start \<le> i \<longrightarrow> i < left \<longrightarrow> cmp (ys ! i) x \<le> 0) \<and> (\<forall>i. right \<le> i \<longrightarrow> i < limit \<longrightarrow> 0 \<le> cmp (ys ! i) x)"

context sort_order
begin

lemma partition_loop_spec:
  assumes "partitioned xs x start limit left right" "start \<le> left" "left < right" "right \<le> limit" "limit \<le> length xs"
    "left \<le> kl" "kl < limit" "0 \<le> cmp (xs ! kl) x" "start \<le> kr" "kr < right" "cmp (xs ! kr) x \<le> 0"
    "kl = kr \<or> start < left \<and> right < limit" "fits limit sz"
  shows "\<exists>ys l r. partition_loop xs sz cmp x left right = Some (ys, l, r) \<and> split_off cmp xs x ys start limit l r \<and> start < l \<and> r < limit"
  using assms
proof (induction "right - left" arbitrary: xs left right kl kr rule: less_induct)
  case less
  obtain l r where s: "scan_left xs sz cmp x left = Some l" "scan_right xs sz cmp x right = Some r" "left \<le> l" "l \<le> kl" "kr < r" "r \<le> right" "l \<le> r"
    "partitioned xs x start limit l r" "0 \<le> cmp (xs ! l) x" "cmp (xs ! (r - 1)) x \<le> 0"
    using scans [OF less.prems(1-11,13)] by blast
  show ?case
  proof (cases "l < r")
    case False
    then have lr: "l = r" using s(7) by simp
    have "partition_loop xs sz cmp x left right = Some (xs, l, r)"
      using s(1,2) False by (subst partition_loop.simps) simp
    moreover have "split_off cmp xs x xs start limit l r"
      using s lr less.prems(2,4) by (simp add: split_off_def partitioned_def)
    moreover have "start < l \<and> r < limit" using less.prems(12) s(3-6) lr by auto
    ultimately show ?thesis by blast
  next
    case True
    have bounds: "start \<le> l" "r \<le> limit" using s(3,6) less.prems(2,4) by simp_all
    obtain ys where ys: "(if l < r - 1 then swap_items xs sz l (r - 1) else Some xs) = Some ys" "reorders xs ys start limit"
      "partitioned ys x start limit (l + 1) (r - 1)" "cmp (ys ! l) x \<le> 0" "0 \<le> cmp (ys ! (r - 1)) x"
      using swap_partitioned [OF s(8) bounds(1) True bounds(2) less.prems(5) s(9,10) less.prems(13)] by blast
    have len: "limit \<le> length ys" using ys(2) less.prems(5) by (simp add: reorders_def)
    have step: "partition_loop xs sz cmp x left right =
      (if l + 1 < r - 1 then partition_loop ys sz cmp x (l + 1) (r - 1) else Some (ys, l + 1, r - 1))"
      using s(1,2) True ys(1) by (subst partition_loop.simps) (simp only: bind.bind_lunit if_True)
    have narrow: "start < l + 1" "r - 1 < limit" using bounds True by simp_all
    show ?thesis
    proof (cases "l + 1 < r - 1")
      case more: True
      have "(r - 1) - (l + 1) < right - left" using more s(3,6) by simp
      moreover have "start \<le> l + 1" "r - 1 \<le> limit" "l + 1 \<le> r - 1" "l < r - 1" using narrow more by simp_all
      ultimately obtain zs l' r' where z: "partition_loop ys sz cmp x (l + 1) (r - 1) = Some (zs, l', r')" "split_off cmp ys x zs start limit l' r'"
        "start < l'" "r' < limit"
        using less.hyps [of "r - 1" "l + 1" ys "r - 1" l] ys(3-5) more len narrow bounds less.prems(13) by blast
      have "split_off cmp xs x zs start limit l' r'"
        using z(2) reorders_trans [OF ys(2)] by (simp add: split_off_def)
      with z more show ?thesis unfolding step by auto
    next
      case False
      have "split_off cmp xs x ys start limit (l + 1) (r - 1)"
        using ys(2,3) False True bounds narrow by (auto simp: split_off_def partitioned_def)
      with False narrow show ?thesis unfolding step by auto
    qed
  qed
qed

lemma ascending_pieces:
  assumes "split_off cmp xs x ys start limit l r" "limit \<le> length xs" "reorders ys zs start limit"
    "mset (piece zs start r) = mset (piece ys start r)" "piece zs r l = piece ys r l" "mset (piece zs l limit) = mset (piece ys l limit)"
    "ascending cmp (piece zs start r)" "ascending cmp (piece zs l limit)"
  shows "ascending cmp (piece zs start limit)"
proof -
  have b: "start \<le> r" "r \<le> l" "l \<le> limit" "limit \<le> length ys" using assms(1,2) by (simp_all add: split_off_def reorders_def)
  have low: "cmp e x \<le> 0" if "e \<in> set (piece ys start r) \<union> set (piece ys r l)" for e
    using that b assms(1) by (auto simp: set_piece split_off_def)
  have high: "cmp x e \<le> 0" if "e \<in> set (piece ys r l) \<union> set (piece ys l limit)" for e
    using that b assms(1) cmp_ge by (auto simp: set_piece split_off_def)
  have sets: "set (piece zs start r) = set (piece ys start r)" "set (piece zs l limit) = set (piece ys l limit)"
    using assms(4,6) by (metis set_mset_mset)+
  have mid: "sorted_wrt (\<lambda>x y. cmp x y \<le> 0) (piece ys r l)"
    unfolding sorted_wrt_iff_nth_less
  proof (intro allI impI)
    fix i j assume ij: "i < j" "j < length (piece ys r l)"
    then have "cmp (piece ys r l ! i) x \<le> 0" "cmp x (piece ys r l ! j) \<le> 0" using low high by auto
    then show "cmp (piece ys r l ! i) (piece ys r l ! j) \<le> 0" using cmp_le_trans by blast
  qed
  have pieces: "piece zs start limit = piece zs start r @ piece ys r l @ piece zs l limit"
    using piece_append [of start r limit zs] piece_append [of r l limit zs] b assms(5) by simp
  show ?thesis unfolding ascending_def pieces sorted_wrt_append
    using assms(7,8) mid low high cmp_le_trans unfolding ascending_def set_append sets by blast
qed

lemma sort_piece_spec:
  assumes "start \<le> limit" "limit \<le> length xs" "fits limit sz"
  shows "\<exists>ys. sort_piece xs start limit sz cmp = Some ys \<and> reorders xs ys start limit \<and> ascending cmp (piece ys start limit)"
proof -
  let ?n = "limit - start"
  have "?n \<le> length (drop start xs)" "fits ?n sz" using assms fits_mono [OF assms(3), of ?n] by simp_all
  from insertion_spec [OF this] obtain ys where ys: "doInsertionSort (drop start xs) ?n sz cmp = Some ys" "ascending cmp (take ?n ys)"
    "mset ys = mset (drop start xs)" "drop ?n ys = drop ?n (drop start xs)" by blast
  have len: "length ys = length xs - start" using ys(3) by (metis length_drop size_mset)
  have s: "start \<le> length xs" using assms by simp
  have "mset (take start xs @ ys) = mset xs" using ys(3) by (metis append_take_drop_id mset_append)
  moreover have "drop limit (take start xs @ ys) = drop limit xs"
    using ys(4) s assms(1) by (simp add: min_absorb2)
  ultimately have "reorders xs (take start xs @ ys) start limit"
    using len s by (simp add: reorders_def min_absorb2)
  moreover have "piece (take start xs @ ys) start limit = take ?n ys" using s by (simp add: piece_def min_absorb2)
  ultimately show ?thesis using ys(1,2) fits_offset [OF assms(3,1)] by (simp add: sort_piece_def)
qed

text \<open>The conditional calls: a piece of at most one item is sorted.\<close>

lemma maybe_sorted:
  assumes "a \<le> b" "a + 1 < b \<Longrightarrow> \<exists>ys. subQuickSort xs a b sz cmp = Some ys \<and> reorders xs ys a b \<and> ascending cmp (piece ys a b)"
  shows "\<exists>ys. (if a + 1 < b then subQuickSort xs a b sz cmp else Some xs) = Some ys \<and> reorders xs ys a b \<and> ascending cmp (piece ys a b)"
proof (cases "a + 1 < b")
  case False
  then have "b - a \<le> 1" by simp
  then have "length (piece xs a b) \<le> 1" by (simp add: piece_def)
  then have "ascending cmp (piece xs a b)" by (cases "piece xs a b") (auto simp: ascending_def)
  with False show ?thesis by simp
qed (use assms(2) in simp)

lemma subQuickSort_spec:
  assumes "start \<le> limit" "limit \<le> length xs" "fits limit sz"
  shows "\<exists>ys. subQuickSort xs start limit sz cmp = Some ys \<and> reorders xs ys start limit \<and> ascending cmp (piece ys start limit)"
  using assms
proof (induction "limit - start" arbitrary: xs start limit rule: less_induct)
  case less
  have b9: "add32 start MIN_QSORT = Some (start + MIN_QSORT)"
    using less.prems(1,3) by (simp add: add32_def fits_def MIN_QSORT_def)
  show ?case
  proof (cases "start + MIN_QSORT \<ge> limit")
    case True
    then show ?thesis using sort_piece_spec [OF less.prems] b9 by (subst subQuickSort.simps) simp
  next
    case False
    let ?m = "(start + limit) div 2"
    have m: "start \<le> ?m" "?m < limit" "start < limit" using False by (simp_all add: MIN_QSORT_def)
    have "partitioned xs (xs ! ?m) start limit start limit" by (simp add: partitioned_def)
    from partition_loop_spec [OF this le_refl m(3) le_refl less.prems(2) m(1,2) _ m(1,2) _ _ less.prems(3)] cmp_refl
    obtain ys l r where p: "partition_loop xs sz cmp (xs ! ?m) start limit = Some (ys, l, r)" "split_off cmp xs (xs ! ?m) ys start limit l r"
      "start < l" "r < limit" by fastforce
    have b: "start \<le> r" "r \<le> l" "l \<le> limit" "length ys = length xs" "reorders xs ys start limit"
      using p(2) by (simp_all add: split_off_def reorders_def)
    have first: "subQuickSort xs start limit sz cmp =
      (if int r - int start < int limit - int l
        then do { xs \<leftarrow> (if start + 1 < r then subQuickSort ys start r sz cmp else Some ys);
                  if l + 1 < limit then subQuickSort xs l limit sz cmp else Some xs }
        else do { xs \<leftarrow> (if l + 1 < limit then subQuickSort ys l limit sz cmp else Some ys);
                  if start + 1 < r then subQuickSort xs start r sz cmp else Some xs })"
    proof -
      have "add32 start limit = Some (start + limit)" using less.prems by (simp add: fits_add)
      moreover have "item_at sz xs ?m = Some (xs ! ?m)" by (rule item_at_in [OF less.prems(3) m(2) less.prems(2)])
      ultimately show ?thesis using False p(1) b9
        by (subst subQuickSort.simps) (simp only: bind.bind_lunit if_False prod.case)
    qed
    have IH: "\<exists>vs. (if a + 1 < c then subQuickSort us a c sz cmp else Some us) = Some vs \<and> reorders us vs a c \<and> ascending cmp (piece vs a c)"
      if "c - a < limit - start" "a \<le> c" "c \<le> limit" "length us = length xs" for us a c
      by (rule maybe_sorted [OF that(2)]) (use less.hyps [of c a us] that less.prems fits_mono [OF less.prems(3), of c] in simp)
    have sizes: "r - start < limit - start" "limit - l < limit - start" using p(3,4) b m(3) by linarith+
    show ?thesis
    proof (cases "int r - int start < int limit - int l")
      case True
      obtain us where u: "(if start + 1 < r then subQuickSort ys start r sz cmp else Some ys) = Some us" "reorders ys us start r" "ascending cmp (piece us start r)"
        using IH [OF sizes(1) b(1) _ b(4)] b p(4) by auto
      have "length us = length xs" using u(2) b(4) by (simp add: reorders_def)
      from IH [OF sizes(2) b(3) le_refl this] obtain zs where z: "(if l + 1 < limit then subQuickSort us l limit sz cmp else Some us) = Some zs"
        "reorders us zs l limit" "ascending cmp (piece zs l limit)" by blast
      have run: "subQuickSort xs start limit sz cmp = Some zs" unfolding first using True u(1) z(1) by simp
      have re: "reorders ys zs start limit"
        using reorders_trans [OF reorders_mono [OF u(2)] reorders_mono [OF z(2)], of start limit] b p(3,4) by simp
      have "piece zs start r = piece us start r" "piece zs r l = piece us r l" using reorders_outside(1) [OF z(2)] b by simp_all
      moreover have "piece us r l = piece ys r l" "piece us l limit = piece ys l limit" using reorders_outside(2) [OF u(2)] b by simp_all
      moreover have "mset (piece us start r) = mset (piece ys start r)" using reorders_piece [OF u(2)] b p(4) less.prems by simp
      moreover have "mset (piece zs l limit) = mset (piece us l limit)"
        using reorders_piece [OF z(2)] b less.prems u(2) by (simp add: reorders_def)
      ultimately have "ascending cmp (piece zs start limit)"
        using ascending_pieces [OF p(2) less.prems(2) re] u(3) z(3) by simp
      with run reorders_trans [OF b(5) re] show ?thesis by blast
    next
      case False
      obtain us where u: "(if l + 1 < limit then subQuickSort ys l limit sz cmp else Some ys) = Some us" "reorders ys us l limit" "ascending cmp (piece us l limit)"
        using IH [OF sizes(2) b(3) le_refl b(4)] by auto
      have "length us = length xs" using u(2) b(4) by (simp add: reorders_def)
      from IH [OF sizes(1) b(1) _ this] obtain zs where z: "(if start + 1 < r then subQuickSort us start r sz cmp else Some us) = Some zs"
        "reorders us zs start r" "ascending cmp (piece zs start r)" using p(4) by auto
      have run: "subQuickSort xs start limit sz cmp = Some zs" unfolding first using False u(1) z(1) by simp
      have re: "reorders ys zs start limit"
        using reorders_trans [OF reorders_mono [OF u(2)] reorders_mono [OF z(2)], of start limit] b p(3,4) by simp
      have "piece zs l limit = piece us l limit" "piece zs r l = piece us r l" using reorders_outside(2) [OF z(2)] b by simp_all
      moreover have "piece us r l = piece ys r l" "piece us start r = piece ys start r" using reorders_outside(1) [OF u(2)] b by simp_all
      moreover have "mset (piece us l limit) = mset (piece ys l limit)" using reorders_piece [OF u(2)] b less.prems by simp
      moreover have "mset (piece zs start r) = mset (piece us start r)"
        using reorders_piece [OF z(2)] b p(4) less.prems u(2) by (simp add: reorders_def)
      ultimately have "ascending cmp (piece zs start limit)"
        using ascending_pieces [OF p(2) less.prems(2) re] u(3) z(3) by simp
      with run reorders_trans [OF b(5) re] show ?thesis by blast
    qed
  qed
qed

end

end
