(* ===== verification/USorting.thy ===== *)
theory USorting
  imports USortQuick UVec
begin

text \<open>
  The properties of the sort, the comparators of the code as orders, and the sorts of \<open>UVector\<close>
  (uvector.cpp), which call it with 8-byte items and the comparator of the client.
\<close>

definition uv_sort ::
  "'p option heap \<Rightarrow> ('p option \<Rightarrow> 'p option \<Rightarrow> int) \<Rightarrow> 'p uvector \<Rightarrow> UErrorCode \<Rightarrow> ('p uvector \<times> UErrorCode) option" where
  "uv_sort h compare v ec =
     (if U_FAILURE ec then Some (v, ec)
      else do { (xs, ec) \<leftarrow> uprv_sortArray h (Some (uv_elements v)) (uv_count v) 8 (Some compare) False ec;
                xs \<leftarrow> xs; Some (v\<lparr>uv_elements := xs\<rparr>, ec) })"

definition uv_sortWithUComparator ::
  "'p option heap \<Rightarrow> ('p option \<Rightarrow> 'p option \<Rightarrow> int) \<Rightarrow> 'p uvector \<Rightarrow> UErrorCode \<Rightarrow> ('p uvector \<times> UErrorCode) option" where
  "uv_sortWithUComparator h compare v ec =
     (if U_FAILURE ec then Some (v, ec)
      else do { (xs, ec) \<leftarrow> uprv_sortArray h (Some (uv_elements v)) (uv_count v) 8 (Some compare) True ec;
                xs \<leftarrow> xs; Some (v\<lparr>uv_elements := xs\<rparr>, ec) })"

text \<open>\<open>sortiComparator\<close> compares the integers of two elements.\<close>

definition sortiComparator :: "int \<Rightarrow> int \<Rightarrow> int" where
  "sortiComparator e1 e2 = (if e1 < e2 then -1 else if e1 = e2 then 0 else 1)"

interpretation u16c: sort_order uprv_uint16Comparator
  by unfold_locales (simp_all add: uprv_uint16Comparator_def)

interpretation u32c: sort_order uprv_uint32Comparator
  by unfold_locales (auto simp: uprv_uint32Comparator_def split: if_splits)

interpretation sortic: sort_order sortiComparator
  by unfold_locales (auto simp: sortiComparator_def split: if_splits)

definition stably :: "('a \<Rightarrow> 'a \<Rightarrow> int) \<Rightarrow> 'a list \<Rightarrow> 'a list \<Rightarrow> bool" where
  "stably cmp xs ys \<longleftrightarrow> (\<forall>z. filter (\<lambda>y. cmp z y = 0) ys = filter (\<lambda>y. cmp z y = 0) xs)"

context sort_order
begin

lemma sortArray_spec:
  assumes "0 \<le> len" "len \<le> int (length xs)" "len \<le> 1073741823" "0 < itemSize" "len * itemSize \<le> INT32_MAX" "\<not> U_FAILURE status"
  shows "\<exists>ys status'. uprv_sortArray hp (Some xs) len itemSize (Some cmp) sortStable status = Some (Some ys, status') \<and>
    (status' = U_MEMORY_ALLOCATION_ERROR \<and> ys = xs \<and> 200 < itemSize \<or>
     status' = status \<and> mset ys = mset xs \<and> drop (nat len) ys = drop (nat len) xs \<and> ascending cmp (take (nat len) ys) \<and>
     (sortStable \<or> len < 9 \<longrightarrow> stably cmp (take (nat len) xs) (take (nat len) ys)))"
proof -
  let ?n = "nat len"
  have n: "?n \<le> length xs" "fits ?n itemSize" using assms(1-5) by (simp_all add: fits_def)
  consider (short) "len \<le> 1" | (ins) "1 < len" "len < 9 \<or> sortStable" | (quick) "1 < len" "\<not> (len < 9 \<or> sortStable)" by linarith
  then show ?thesis
  proof cases
    case short
    then have "length (take ?n xs) \<le> 1" by simp
    then have "ascending cmp (take ?n xs)" by (cases "take ?n xs") (auto simp: ascending_def)
    with short assms show ?thesis by (simp add: uprv_sortArray_def stably_def)
  next
    case ins
    obtain ys where ys: "doInsertionSort xs ?n itemSize cmp = Some ys" "ascending cmp (take ?n ys)" "mset ys = mset xs" "drop ?n ys = drop ?n xs"
      "\<forall>z. filter (\<lambda>y. cmp z y = 0) (take ?n ys) = filter (\<lambda>y. cmp z y = 0) (take ?n xs)"
      using insertion_spec [OF n] by blast
    have "uprv_sortArray hp (Some xs) len itemSize (Some cmp) sortStable status =
      do { r \<leftarrow> insertionSort hp xs ?n itemSize cmp status; Some (Some (fst r), snd r) }"
      using assms ins by (auto simp: uprv_sortArray_def MIN_QSORT_def)
    then show ?thesis using ys by (simp add: insertionSort_def STACK_ITEM_SIZE_def stably_def)
  next
    case quick
    obtain ys where ys: "subQuickSort xs 0 ?n itemSize cmp = Some ys" "reorders xs ys 0 ?n" "ascending cmp (piece ys 0 ?n)"
      using subQuickSort_spec [OF le0 n] by blast
    have "uprv_sortArray hp (Some xs) len itemSize (Some cmp) sortStable status =
      do { r \<leftarrow> quickSort hp xs ?n itemSize cmp status; Some (Some (fst r), snd r) }"
      using assms quick by (auto simp: uprv_sortArray_def MIN_QSORT_def)
    moreover have "chk (2 * itemSize) = Some (2 * itemSize)"
    proof -
      have "2 * itemSize \<le> len * itemSize" using quick(1) assms(4) by (intro mult_right_mono) simp_all
      then show ?thesis by (intro chk_in) (use assms(4,5) in linarith)+
    qed
    ultimately show ?thesis using ys quick(2) by (simp add: quickSort_def STACK_ITEM_SIZE_def reorders_def piece_def)
  qed
qed

end

section \<open>Properties\<close>

text \<open>C21: Called without an error, uprv_sortArray returns for every array of at most 1073741823 items to sort whose size in bytes, the number of
  those items times the item size, fits in 32 bits, and every comparator that is a total preorder. The first len items are
  then in ascending order and a rearrangement of what they were, and the others are as before; equal items keep their
  order when the sort is stable or the array short. The one error is that there is no memory for an item of more than 200
  bytes, and then the array is unchanged.\<close>

theorem sortArray_sorts:
  assumes "sort_order cmp" "0 \<le> len" "len \<le> int (length xs)" "len \<le> 1073741823" "0 < itemSize" "len * itemSize \<le> INT32_MAX" "\<not> U_FAILURE status"
  shows "\<exists>ys status'. uprv_sortArray hp (Some xs) len itemSize (Some cmp) sortStable status = Some (Some ys, status') \<and>
    (status' = U_MEMORY_ALLOCATION_ERROR \<and> ys = xs \<and> 200 < itemSize \<or>
     status' = status \<and> mset ys = mset xs \<and> drop (nat len) ys = drop (nat len) xs \<and> ascending cmp (take (nat len) ys) \<and>
     (sortStable \<or> len < 9 \<longrightarrow> stably cmp (take (nat len) xs) (take (nat len) ys)))"
  by (rule sort_order.sortArray_spec [OF assms])

lemma sortArray_sorts_witness:
  "\<exists>ys status'. uprv_sortArray \<lparr>can_alloc = (\<lambda>n. True), junk = (\<lambda>i. ())\<rparr> (Some [5, 3, 9, 1, 3, 7, 2, 8, 0, 4, 6]) 11 4 (Some uprv_uint32Comparator) False U_ZERO_ERROR =
    Some (Some ys, status') \<and> ascending uprv_uint32Comparator ys"
proof -
  let ?xs = "[5, 3, 9, 1, 3, 7, 2, 8, 0, 4, 6] :: int list"
  obtain ys st where "uprv_sortArray \<lparr>can_alloc = (\<lambda>n. True), junk = (\<lambda>i. ())\<rparr> (Some ?xs) 11 4 (Some uprv_uint32Comparator) False U_ZERO_ERROR = Some (Some ys, st)"
    "mset ys = mset ?xs" "ascending uprv_uint32Comparator (take (nat 11) ys)"
    using sortArray_sorts [OF u32c.sort_order_axioms, of 11 ?xs 4 U_ZERO_ERROR "\<lparr>can_alloc = (\<lambda>n. True), junk = (\<lambda>i. ())\<rparr>" False] by auto
  moreover from this(2) have "length ys = 11" using mset_eq_length by fastforce
  ultimately show ?thesis by auto
qed

text \<open>the binary search of the stable sort finds the last of the items equal to the given one, and otherwise the
  complement of the place to insert it, which is never negative; the offsets of the items searched fit in 32 bits.\<close>

theorem stableBinarySearch_finds:
  assumes "sort_order cmp" "ascending cmp (take n xs)" "n \<le> length xs" "fits n itemSize"
  shows "\<exists>r. uprv_stableBinarySearch xs n item itemSize cmp = Some r \<and>
    (if 0 \<le> r then nat r < n \<and> cmp item (xs ! nat r) = 0 \<and> (\<forall>i < n. nat r < i \<longrightarrow> cmp item (xs ! i) < 0)
     else let p = nat (- r - 1) in p \<le> n \<and> (\<forall>i < p. cmp (xs ! i) item < 0) \<and> (\<forall>i < n. p \<le> i \<longrightarrow> cmp item (xs ! i) < 0))"
proof -
  obtain s f where s: "uprv_stableBinarySearch xs n item itemSize cmp = Some (if f then int s - 1 else - int s - 1)" "searched cmp xs item n s s f"
    using sort_order.search_spec [OF assms] by blast
  show ?thesis
  proof (cases f)
    case True
    then have "0 < s" using s(2) by (simp add: searched_def)
    then obtain t where "s = Suc t" by (cases s) auto
    with s True show ?thesis by (auto simp: searched_def)
  next
    case False
    have "cmp (xs ! i) item < 0" if "i < s" for i
      using s(2) that False sort_order.cmp_eq_swap [OF assms(1), of item "xs ! i"] by (auto simp: searched_def le_less)
    with s False show ?thesis by (auto simp: searched_def)
  qed
qed

lemma stableBinarySearch_finds_witness:
  "\<exists>r. uprv_stableBinarySearch [1, 3, 3, 7] 4 3 4 uprv_uint32Comparator = Some r \<and> (0 \<le> r \<longrightarrow> nat r < 4)"
proof -
  have "ascending uprv_uint32Comparator (take 4 [1, 3, 3, 7 :: int])" by (simp add: ascending_def uprv_uint32Comparator_def)
  from stableBinarySearch_finds [OF u32c.sort_order_axioms this, of 4 3] show ?thesis by (auto simp: fits_def)
qed

text \<open>C36: sort and sortWithUComparator of a vector keep its elements and its other fields and put the elements in ascending
  order, the latter stably; with items of 8 bytes they cannot fail.\<close>

theorem uvector_sorts:
  assumes "sort_order compare" "uv_ok v" "\<not> U_FAILURE ec"
  shows "(\<exists>v'. uv_sort h compare v ec = Some (v', ec) \<and> uv_ok v' \<and> mset (uv_list v') = mset (uv_list v) \<and>
      ascending compare (uv_list v') \<and> v' = v\<lparr>uv_elements := uv_elements v'\<rparr>) \<and>
    (\<exists>v'. uv_sortWithUComparator h compare v ec = Some (v', ec) \<and> uv_ok v' \<and> mset (uv_list v') = mset (uv_list v) \<and>
      ascending compare (uv_list v') \<and> stably compare (uv_list v) (uv_list v') \<and> v' = v\<lparr>uv_elements := uv_elements v'\<rparr>)"
proof -
  let ?n = "nat (uv_count v)" and ?es = "uv_elements v"
  have b: "0 \<le> uv_count v" "uv_count v \<le> int (length ?es)" "uv_count v \<le> 1073741823" "0 < (8 :: int)" "uv_count v * 8 \<le> INT32_MAX"
    using assms(2) by (auto simp: uv_ok_def)
  note sorted = sort_order.sortArray_spec [OF assms(1) b assms(3), of h, simplified]
  have tails: "mset (take ?n ys) = mset (take ?n ?es)" if "mset ys = mset ?es" "drop ?n ys = drop ?n ?es" for ys
    using that by (metis add_right_cancel append_take_drop_id mset_append)
  have keep: "uv_ok (v\<lparr>uv_elements := ys\<rparr>)" if "mset ys = mset ?es" for ys
    using assms(2) mset_eq_length [OF that] by (simp add: uv_ok_def)
  obtain ys where "uprv_sortArray h (Some ?es) (uv_count v) 8 (Some compare) False ec = Some (Some ys, ec)" "mset ys = mset ?es"
    "drop ?n ys = drop ?n ?es" "ascending compare (take ?n ys)" using sorted [of False] by auto
  note a = this
  obtain zs where "uprv_sortArray h (Some ?es) (uv_count v) 8 (Some compare) True ec = Some (Some zs, ec)" "mset zs = mset ?es"
    "drop ?n zs = drop ?n ?es" "ascending compare (take ?n zs)" "stably compare (take ?n ?es) (take ?n zs)" using sorted [of True] by auto
  note b = this
  have "uv_sort h compare v ec = Some (v\<lparr>uv_elements := ys\<rparr>, ec)" using a(1) assms(3) by (simp add: uv_sort_def)
  moreover have "uv_sortWithUComparator h compare v ec = Some (v\<lparr>uv_elements := zs\<rparr>, ec)"
    using b(1) assms(3) by (simp add: uv_sortWithUComparator_def)
  ultimately show ?thesis
    using a(4) b(4,5) keep [OF a(2)] keep [OF b(2)] tails [OF a(2,3)] tails [OF b(2,3)] by (simp add: uv_list_def)
qed

definition sort_vector_ex :: "nat uvector" where
  "sort_vector_ex = \<lparr>uv_count = 3, uv_capacity = 4, uv_elements = [Some 5, Some 2, Some 9, None], uv_deleter = False,
     uv_comparer = None, uv_deleted = []\<rparr>"

definition ptr_compare :: "nat option \<Rightarrow> nat option \<Rightarrow> int" where
  "ptr_compare e f = (case e of None \<Rightarrow> -1 | Some m \<Rightarrow> int m) - (case f of None \<Rightarrow> -1 | Some n \<Rightarrow> int n)"

lemma uvector_sorts_witness:
  "\<exists>v'. uv_sort \<lparr>can_alloc = (\<lambda>n. True), junk = (\<lambda>i. None)\<rparr> ptr_compare sort_vector_ex U_ZERO_ERROR = Some (v', U_ZERO_ERROR) \<and> ascending ptr_compare (uv_list v')"
proof -
  have "sort_order ptr_compare" by unfold_locales (simp_all add: ptr_compare_def)
  moreover have "uv_ok sort_vector_ex" by (simp add: uv_ok_def sort_vector_ex_def)
  ultimately show ?thesis using uvector_sorts [of ptr_compare sort_vector_ex U_ZERO_ERROR "\<lparr>can_alloc = (\<lambda>n. True), junk = (\<lambda>i. None)\<rparr>"] by auto
qed

text \<open>Where the difference of two integers fits in 32 bits, \<open>uprv_int32Comparator\<close> compares them; elsewhere, as for
  2147483647 and -2, it has no result.\<close>

lemma int32Comparator_partial:
  "- 2147483648 \<le> l - r \<Longrightarrow> l - r \<le> INT32_MAX \<Longrightarrow> \<exists>d. uprv_int32Comparator l r = Some d \<and> (d < 0 \<longleftrightarrow> l < r) \<and> (d = 0 \<longleftrightarrow> l = r)"
  "uprv_int32Comparator 2147483647 (- 2) = None"
  by (simp_all add: uprv_int32Comparator_def chk_def)

end
