(* ===== verification/Puny.thy ===== *)
theory Puny
  imports UStr "HOL-Library.Signed_Division"
begin

text \<open>
  Punycode (punycode.cpp): \<open>u_strToPunycode\<close> and \<open>u_strFromPunycode\<close>. A string is the list of its units;
  \<open>dest\<close> is the array of destCapacity cells or NULL, and \<open>caseFlags\<close> an array or NULL. A sum or product of
  \<open>int32_t\<close> that can leave its width goes through \<open>chk\<close>, which has no result then, as a signed overflow
  has none. The result of a function is the returned length, the arrays as they were left, and the error code.
\<close>

section \<open>Parameters\<close>

abbreviation (input) BASE :: int where "BASE \<equiv> 36"
abbreviation (input) TMIN :: int where "TMIN \<equiv> 1"
abbreviation (input) TMAX :: int where "TMAX \<equiv> 26"
abbreviation (input) SKEW :: int where "SKEW \<equiv> 38"
abbreviation (input) DAMP :: int where "DAMP \<equiv> 700"
abbreviation (input) INITIAL_BIAS :: int where "INITIAL_BIAS \<equiv> 72"
abbreviation (input) INITIAL_N :: int where "INITIAL_N \<equiv> 128"
abbreviation (input) DELIMITER :: int where "DELIMITER \<equiv> 45"
abbreviation (input) MAX_CP_COUNT :: nat where "MAX_CP_COUNT \<equiv> 200"

section \<open>Digits\<close>

definition IS_BASIC :: "int \<Rightarrow> bool" where "IS_BASIC c \<longleftrightarrow> c < 128"

definition IS_BASIC_UPPERCASE :: "int \<Rightarrow> bool" where
  "IS_BASIC_UPPERCASE c \<longleftrightarrow> 65 \<le> c \<and> c \<le> 90"

definition digitToBasic :: "int \<Rightarrow> bool \<Rightarrow> int" where
  "digitToBasic digit uppercase =
     (if digit < 26 then (if uppercase then 65 + digit else 97 + digit) else 48 - 26 + digit)"

definition basicToDigit :: "int list" where
  "basicToDigit = replicate 48 (- 1) @ [26, 27, 28, 29, 30, 31, 32, 33, 34, 35] @ replicate 7 (- 1) @
     [0, 1, 2, 3, 4, 5, 6, 7, 8, 9, 10, 11, 12, 13, 14, 15, 16, 17, 18, 19, 20, 21, 22, 23, 24, 25] @ replicate 6 (- 1) @
     [0, 1, 2, 3, 4, 5, 6, 7, 8, 9, 10, 11, 12, 13, 14, 15, 16, 17, 18, 19, 20, 21, 22, 23, 24, 25] @ replicate 133 (- 1)"

definition asciiCaseMap :: "int \<Rightarrow> bool \<Rightarrow> int" where
  "asciiCaseMap b uppercase =
     (if uppercase then (if 97 \<le> b \<and> b \<le> 122 then b - 32 else b)
      else (if 65 \<le> b \<and> b \<le> 90 then b + 32 else b))"

section \<open>The bias\<close>

text \<open>The loop of \<open>adaptBias\<close>; its \<open>delta\<close> is not negative, so the divisions round down.\<close>

function adapt_loop :: "int \<Rightarrow> int \<Rightarrow> int \<times> int" where
  "adapt_loop delta count =
     (if delta > ((BASE - TMIN) * TMAX) div 2 then adapt_loop (delta div (BASE - TMIN)) (count + BASE) else (delta, count))"
  by pat_completeness auto
termination
  by (relation "measure (\<lambda>(delta, count). nat delta)") auto

declare adapt_loop.simps [simp del]

definition adaptBias :: "int \<Rightarrow> int \<Rightarrow> bool \<Rightarrow> int" where
  "adaptBias delta n firstTime =
     (let delta = (if firstTime then delta div DAMP else delta div 2);
          delta = delta + delta div n;
          (delta, count) = adapt_loop delta 0
      in count + ((BASE - TMIN + 1) * delta) div (delta + SKEW))"

text \<open>The threshold \<open>t\<close> of the digit loops.\<close>

definition threshold :: "int \<Rightarrow> int \<Rightarrow> int" where
  "threshold k bias = (let t = k - bias in if t < TMIN then TMIN else if k \<ge> bias + TMAX then TMAX else t)"

lemma threshold_range: "TMIN \<le> threshold k bias \<and> threshold k bias \<le> TMAX"
  by (simp add: threshold_def Let_def)

section \<open>Arrays\<close>

text \<open>\<open>if(destLength<destCapacity) dest[destLength]=c;\<close>\<close>

definition store :: "int list option \<Rightarrow> int \<Rightarrow> int \<Rightarrow> int \<Rightarrow> int list option option" where
  "store dest cap len c =
     (if len < cap then do { d \<leftarrow> dest; d \<leftarrow> wr d (nat len) c; Some (Some d) } else Some dest)"

definition u_terminateUChars ::
  "int list option \<Rightarrow> int \<Rightarrow> int \<Rightarrow> UErrorCode \<Rightarrow> (int \<times> int list option \<times> UErrorCode) option" where
  "u_terminateUChars dest cap len ec =
     (if U_FAILURE ec \<or> len < 0 then Some (len, dest, ec)
      else if len < cap
      then do { d \<leftarrow> dest; d \<leftarrow> wr d (nat len) 0;
                Some (len, Some d, if ec = U_STRING_NOT_TERMINATED_WARNING then U_ZERO_ERROR else ec) }
      else if len = cap then Some (len, dest, U_STRING_NOT_TERMINATED_WARNING)
      else Some (len, dest, U_BUFFER_OVERFLOW_ERROR))"

section \<open>The encoder\<close>

definition U_IS_SURROGATE :: "int \<Rightarrow> bool" where "U_IS_SURROGATE c \<longleftrightarrow> 55296 \<le> c \<and> c < 57344"

text \<open>
  The first loop, for NUL-terminated input (\<open>lim\<close> is none) and for input with a length. It collects the code
  points in \<open>cells\<close> (\<open>cpBuffer\<close>) with the case flag in the sign bit and copies the basic ones.
\<close>

definition input_ends :: "int list \<Rightarrow> nat option \<Rightarrow> nat \<Rightarrow> bool option" where
  "input_ends src lim j = (case lim of None \<Rightarrow> do { c \<leftarrow> rd src j; Some (c = 0) } | Some n \<Rightarrow> Some (\<not> j < n))"

definition case_flag :: "bool list option \<Rightarrow> nat \<Rightarrow> bool option" where
  "case_flag flags j = (case flags of None \<Rightarrow> Some False | Some fs \<Rightarrow> rd fs j)"

definition store_basic :: "bool list option \<Rightarrow> nat \<Rightarrow> int list option \<Rightarrow> int \<Rightarrow> int \<Rightarrow> int \<Rightarrow> int list option option" where
  "store_basic flags j dest cap len c =
     (if len < cap
      then (case flags of None \<Rightarrow> store dest cap len c
            | Some fs \<Rightarrow> do { f \<leftarrow> rd fs j; store dest cap len (asciiCaseMap c f) })
      else Some dest)"

function collect ::
  "int list \<Rightarrow> nat option \<Rightarrow> bool list option \<Rightarrow> int \<Rightarrow> nat \<Rightarrow> int list \<Rightarrow> int list option \<Rightarrow> int \<Rightarrow>
   (UErrorCode \<times> int list \<times> int list option \<times> int) option" where
  "collect src lim flags cap j cells dest len =
     do { e \<leftarrow> input_ends src lim j;
          if e then Some (U_ZERO_ERROR, cells, dest, len)
          else if length cells = MAX_CP_COUNT then Some (U_INDEX_OUTOFBOUNDS_ERROR, cells, dest, len)
          else do {
            c \<leftarrow> rd src j;
            if IS_BASIC c
            then do { dest \<leftarrow> store_basic flags j dest cap len c;
                      collect src lim flags cap (j + 1) (cells @ [0]) dest (len + 1) }
            else do {
              f \<leftarrow> case_flag flags j;
              let n = (if f then - 2147483648 else 0);
              if \<not> U_IS_SURROGATE c then collect src lim flags cap (j + 1) (cells @ [n + c]) dest len
              else if u16_is_lead c \<and> (case lim of None \<Rightarrow> True | Some n \<Rightarrow> j + 1 < n)
              then do { c2 \<leftarrow> rd src (j + 1);
                        if u16_is_trail c2
                        then collect src lim flags cap (j + 2) (cells @ [n + u16_supplementary c c2]) dest len
                        else Some (U_INVALID_CHAR_FOUND, cells, dest, len) }
              else Some (U_INVALID_CHAR_FOUND, cells, dest, len) } } }"
  by pat_completeness auto
termination
  by (relation "measure (\<lambda>(src, lim, flags, cap, j, cells, dest, len). length src - j)") (auto simp: rd_eq_Some_iff)

declare collect.simps [simp del]

lemma digit_step:
  assumes "threshold k bias \<le> q"
  shows "0 \<le> (q - threshold k bias) div (BASE - threshold k bias)" "(q - threshold k bias) div (BASE - threshold k bias) < q" "0 < q"
  using threshold_range [of k bias] assms pos_imp_zdiv_nonneg_iff [of "BASE - threshold k bias" "q - threshold k bias"]
    zdiv_mono2 [of "q - threshold k bias" 1 "BASE - threshold k bias"] by simp_all

text \<open>A generalized variable-length integer: all its digits but the last, which is the \<open>q\<close> that is left.\<close>

function encode_digits ::
  "int list option \<Rightarrow> int \<Rightarrow> int \<Rightarrow> int \<Rightarrow> int \<Rightarrow> int \<Rightarrow> (int list option \<times> int \<times> int) option" where
  "encode_digits dest cap len bias q k =
     (let t = threshold k bias
      in if q < t then Some (dest, len, q)
         else do { dest \<leftarrow> store dest cap len (digitToBasic (t + (q - t) mod (BASE - t)) False);
                   encode_digits dest cap (len + 1) bias ((q - t) div (BASE - t)) (k + BASE) })"
  by pat_completeness auto

termination
  by (relation "measure (\<lambda>(dest, cap, len, bias, q, k). nat q)") (auto simp: not_less nat_less_iff digit_step)

declare encode_digits.simps [simp del]

record encoder =
  en_dest :: "int list option"
  en_len :: int
  en_delta :: int
  en_bias :: int
  en_handled :: int

definition cp_of :: "int \<Rightarrow> int" where "cp_of cell = (if cell < 0 then cell + 2147483648 else cell)"

text \<open>The smallest code point from \<open>n\<close> on.\<close>

fun next_cp :: "int list \<Rightarrow> int \<Rightarrow> int \<Rightarrow> int" where
  "next_cp [] n m = m"
| "next_cp (cell # cells) n m = (let q = cp_of cell in next_cp cells n (if n \<le> q \<and> q < m then q else m))"

text \<open>One pass over the cells for the code point \<open>n\<close>.\<close>

fun encode_pass :: "int list \<Rightarrow> int \<Rightarrow> int \<Rightarrow> int \<Rightarrow> encoder \<Rightarrow> encoder option" where
  "encode_pass [] n cap basicLength st = Some st"
| "encode_pass (cell # cells) n cap basicLength st =
     (let q = cp_of cell
      in if q < n then do { d \<leftarrow> chk (en_delta st + 1); encode_pass cells n cap basicLength (st\<lparr>en_delta := d\<rparr>) }
         else if q = n
         then do { (dest, len, q) \<leftarrow> encode_digits (en_dest st) cap (en_len st) (en_bias st) (en_delta st) BASE;
                   dest \<leftarrow> store dest cap len (digitToBasic q (cell < 0));
                   encode_pass cells n cap basicLength
                     (st\<lparr>en_dest := dest, en_len := len + 1,
                         en_bias := adaptBias (en_delta st) (en_handled st + 1) (en_handled st = basicLength),
                         en_delta := 0, en_handled := en_handled st + 1\<rparr>) }
         else encode_pass cells n cap basicLength st)"

partial_function (option) encode_main ::
  "int list \<Rightarrow> int \<Rightarrow> int \<Rightarrow> int \<Rightarrow> encoder \<Rightarrow> (UErrorCode \<times> encoder) option" where
  "encode_main cells n cap basicLength st =
     (if en_handled st < int (length cells)
      then (let m = next_cp cells n INT32_MAX
            in if m - n > (INT32_MAX - int MAX_CP_COUNT - en_delta st) sdiv (en_handled st + 1)
               then Some (U_INTERNAL_PROGRAM_ERROR, st)
               else do { d \<leftarrow> chk (en_delta st + (m - n) * (en_handled st + 1));
                         st \<leftarrow> encode_pass cells m cap basicLength (st\<lparr>en_delta := d\<rparr>);
                         d \<leftarrow> chk (en_delta st + 1);
                         encode_main cells (m + 1) cap basicLength (st\<lparr>en_delta := d\<rparr>) })
      else Some (U_ZERO_ERROR, st))"

declare encode_main.simps [code]

definition u_strToPunycode ::
  "int list option \<Rightarrow> int \<Rightarrow> int list option \<Rightarrow> int \<Rightarrow> bool list option \<Rightarrow> UErrorCode \<Rightarrow>
   (int \<times> int list option \<times> UErrorCode) option" where
  "u_strToPunycode src srcLength dest cap flags ec =
     (if U_FAILURE ec then Some (0, dest, ec)
      else if src = None \<or> srcLength < - 1 \<or> dest = None \<and> cap \<noteq> 0 then Some (0, dest, U_ILLEGAL_ARGUMENT_ERROR)
      else do {
        src \<leftarrow> src;
        (err, cells, dest, basicLength) \<leftarrow>
          collect src (if srcLength = - 1 then None else Some (nat srcLength)) flags cap 0 [] dest 0;
        if U_FAILURE err then Some (0, dest, err)
        else do {
          (dest, len) \<leftarrow> (if basicLength > 0
             then do { dest \<leftarrow> store dest cap basicLength DELIMITER; Some (dest, basicLength + 1) }
             else Some (dest, basicLength));
          (err, st) \<leftarrow> encode_main cells INITIAL_N cap basicLength
             \<lparr>en_dest = dest, en_len = len, en_delta = 0, en_bias = INITIAL_BIAS, en_handled = basicLength\<rparr>;
          if U_FAILURE err then Some (0, en_dest st, err)
          else u_terminateUChars (en_dest st) cap (en_len st) ec } })"

section \<open>The decoder\<close>

fun last_delimiter :: "int list \<Rightarrow> nat \<Rightarrow> nat option" where
  "last_delimiter src 0 = Some 0"
| "last_delimiter src (Suc j) = do { c \<leftarrow> rd src j; if c = DELIMITER then Some j else last_delimiter src j }"

definition set_flag :: "bool list option \<Rightarrow> nat \<Rightarrow> bool \<Rightarrow> bool list option option" where
  "set_flag flags j b = (case flags of None \<Rightarrow> Some None | Some fs \<Rightarrow> do { fs \<leftarrow> wr fs j b; Some (Some fs) })"

fun copy_basic ::
  "int list \<Rightarrow> nat \<Rightarrow> int list option \<Rightarrow> int \<Rightarrow> bool list option \<Rightarrow>
   (UErrorCode \<times> int list option \<times> bool list option) option" where
  "copy_basic src 0 dest cap flags = Some (U_ZERO_ERROR, dest, flags)"
| "copy_basic src (Suc j) dest cap flags =
     do { b \<leftarrow> rd src j;
          if \<not> IS_BASIC b then Some (U_INVALID_CHAR_FOUND, dest, flags)
          else if int j < cap
          then do { d \<leftarrow> dest; d \<leftarrow> wr d j b; flags \<leftarrow> set_flag flags j (IS_BASIC_UPPERCASE b);
                    copy_basic src j (Some d) cap flags }
          else copy_basic src j dest cap flags }"

text \<open>The inner loop: the error, the index after the last digit read, and \<open>i\<close>. The table is asked with the
  low byte of the unit.\<close>

function decode_int ::
  "int list \<Rightarrow> nat \<Rightarrow> int \<Rightarrow> nat \<Rightarrow> int \<Rightarrow> int \<Rightarrow> int \<Rightarrow> (UErrorCode \<times> nat \<times> int) option" where
  "decode_int src lim bias inp i w k =
     (if \<not> inp < lim then Some (U_ILLEGAL_CHAR_FOUND, inp, i)
      else do {
        c \<leftarrow> rd src inp; digit \<leftarrow> rd basicToDigit (nat (c mod 256));
        if digit < 0 then Some (U_INVALID_CHAR_FOUND, inp + 1, i)
        else if digit > (INT32_MAX - i) sdiv w then Some (U_ILLEGAL_CHAR_FOUND, inp + 1, i)
        else do {
          p \<leftarrow> chk (digit * w); i \<leftarrow> chk (i + p);
          let t = threshold k bias;
          if digit < t then Some (U_ZERO_ERROR, inp + 1, i)
          else if w > INT32_MAX sdiv (BASE - t) then Some (U_ILLEGAL_CHAR_FOUND, inp + 1, i)
          else do { w \<leftarrow> chk (w * (BASE - t)); decode_int src lim bias (inp + 1) i w (k + BASE) } } })"
  by pat_completeness auto
termination
  by (relation "measure (\<lambda>(src, lim, bias, inp, i, w, k). lim - inp)") auto

declare decode_int.simps [simp del]

text \<open>\<open>U16_FWD_1\<close> and \<open>U16_FWD_N\<close>, with a length that is not negative.\<close>

definition u16_fwd_1 :: "int list \<Rightarrow> nat \<Rightarrow> nat \<Rightarrow> nat option" where
  "u16_fwd_1 s i len =
     do { c \<leftarrow> rd s i;
          if u16_is_lead c \<and> i + 1 \<noteq> len
          then do { c2 \<leftarrow> rd s (i + 1); Some (if u16_is_trail c2 then i + 2 else i + 1) }
          else Some (i + 1) }"

fun u16_fwd_n :: "int list \<Rightarrow> nat \<Rightarrow> nat \<Rightarrow> nat \<Rightarrow> nat option" where
  "u16_fwd_n s i len 0 = Some i"
| "u16_fwd_n s i len (Suc n) = (if i < len then do { i \<leftarrow> u16_fwd_1 s i len; u16_fwd_n s i len n } else Some i)"

definition u16_lead :: "int \<Rightarrow> int" where "u16_lead c = (c div 1024 + 55232) mod 65536"
definition u16_trail :: "int \<Rightarrow> int" where "u16_trail c = c mod 1024 + 56320"

text \<open>\<open>uprv_memmove(a+index+by, a+index, len-index)\<close>.\<close>

definition move_units :: "'a list \<Rightarrow> nat \<Rightarrow> nat \<Rightarrow> nat \<Rightarrow> 'a list option" where
  "move_units xs index len by' =
     (if len + by' \<le> length xs
      then Some (take (index + by') xs @ take (len - index) (drop index xs) @ drop (len + by') xs) else None)"

record decoder =
  de_dest :: "int list option"
  de_flags :: "bool list option"
  de_len :: nat
  de_count :: int
  de_fsi :: int
  de_i :: int
  de_n :: int
  de_bias :: int

text \<open>The unit index of the code point index \<open>i\<close>, and the new index of the first supplementary code point.\<close>

definition unit_index :: "int list \<Rightarrow> nat \<Rightarrow> int \<Rightarrow> int \<Rightarrow> nat \<Rightarrow> (nat \<times> int) option" where
  "unit_index d len i fsi cpLength =
     (if i \<le> fsi
      then (if cpLength > 1 then Some (nat i, i) else do { f \<leftarrow> chk (fsi + 1); Some (nat i, f) })
      else do { u \<leftarrow> u16_fwd_n d (nat fsi) len (nat (i - fsi)); Some (u, fsi) })"

definition insert_cp :: "int \<Rightarrow> int \<Rightarrow> bool \<Rightarrow> int \<Rightarrow> decoder \<Rightarrow> decoder option" where
  "insert_cp n i upper cap st =
     (let cpLength = u16_length n; len = de_len st in
      if de_dest st \<noteq> None \<and> int (len + cpLength) \<le> cap
      then do {
        d \<leftarrow> de_dest st;
        (u, fsi) \<leftarrow> unit_index d len i (de_fsi st) cpLength;
        d \<leftarrow> (if u < len then move_units d u len cpLength else Some d);
        flags \<leftarrow> (case de_flags st of None \<Rightarrow> Some None
          | Some fs \<Rightarrow> do { fs \<leftarrow> (if u < len then move_units fs u len cpLength else Some fs); Some (Some fs) });
        d \<leftarrow> (if cpLength = 1 then wr d u n else do { d \<leftarrow> wr d u (u16_lead n); wr d (u + 1) (u16_trail n) });
        flags \<leftarrow> set_flag flags u upper;
        flags \<leftarrow> (if cpLength = 2 then set_flag flags (u + 1) False else Some flags);
        Some (st\<lparr>de_dest := Some d, de_flags := flags, de_fsi := fsi\<rparr>) }
      else Some st)"

partial_function (option) decode_main ::
  "int list \<Rightarrow> nat \<Rightarrow> int \<Rightarrow> nat \<Rightarrow> decoder \<Rightarrow> (UErrorCode \<times> decoder) option" where
  "decode_main src lim cap inp st =
     (if inp < lim
      then do {
        r \<leftarrow> decode_int src lim (de_bias st) inp (de_i st) 1 BASE;
        if U_FAILURE (fst r) then Some (fst r, st)
        else do {
          let inp = fst (snd r); let i = snd (snd r);
          count \<leftarrow> chk (de_count st + 1);
          let bias = adaptBias (i - de_i st) count (de_i st = 0);
          if i div count > INT32_MAX - de_n st then Some (U_ILLEGAL_CHAR_FOUND, st)
          else do {
            n \<leftarrow> chk (de_n st + i div count);
            let i = i mod count;
            if n > 1114111 \<or> U_IS_SURROGATE n then Some (U_ILLEGAL_CHAR_FOUND, st)
            else do {
              c \<leftarrow> rd src (inp - 1);
              len \<leftarrow> chk (int (de_len st + u16_length n));
              st \<leftarrow> insert_cp n i (IS_BASIC_UPPERCASE c) cap st;
              decode_main src lim cap inp
                (st\<lparr>de_len := nat len, de_count := count, de_i := i + 1, de_n := n, de_bias := bias\<rparr>) } } } }
      else Some (U_ZERO_ERROR, st))"

declare decode_main.simps [code]

definition u_strFromPunycode ::
  "int list option \<Rightarrow> int \<Rightarrow> int list option \<Rightarrow> int \<Rightarrow> bool list option \<Rightarrow> UErrorCode \<Rightarrow>
   (int \<times> int list option \<times> bool list option \<times> UErrorCode) option" where
  "u_strFromPunycode src srcLength dest cap flags ec =
     (if U_FAILURE ec then Some (0, dest, flags, ec)
      else if src = None \<or> srcLength < - 1 \<or> dest = None \<and> cap \<noteq> 0 then Some (0, dest, flags, U_ILLEGAL_ARGUMENT_ERROR)
      else do {
        src \<leftarrow> src;
        lim \<leftarrow> (if srcLength = - 1 then u_strlen src else Some (nat srcLength));
        basicLength \<leftarrow> last_delimiter src lim;
        (err, dest, flags) \<leftarrow> copy_basic src basicLength dest cap flags;
        if U_FAILURE err then Some (0, dest, flags, err)
        else do {
          (err, st) \<leftarrow> decode_main src lim cap (if basicLength > 0 then basicLength + 1 else 0)
            \<lparr>de_dest = dest, de_flags = flags, de_len = basicLength, de_count = int basicLength, de_fsi = 1000000000,
              de_i = 0, de_n = INITIAL_N, de_bias = INITIAL_BIAS\<rparr>;
          if U_FAILURE err then Some (0, de_dest st, de_flags st, err)
          else do { (len, dest, ec) \<leftarrow> u_terminateUChars (de_dest st) cap (int (de_len st)) ec;
                    Some (len, dest, de_flags st, ec) } } })"

end
