(* ===== verification/PunyInt.thy ===== *)
theory PunyInt
  imports Puny
begin

text \<open>
  The digits of Punycode: the bias stays small, an integer is written as the digits \<open>digs\<close>, and the loop of the
  decoder reads them back without leaving 32 bits. \<open>holds\<close> is what the output array has of the output.
\<close>

section \<open>The bias\<close>

lemma adapt_loop_spec:
  assumes "0 \<le> delta" "delta \<le> 455 * 35 ^ e" "adapt_loop delta count = (d, c)"
  shows "0 \<le> d \<and> count \<le> c \<and> c \<le> count + 36 * int e"
  using assms
proof (induction e arbitrary: delta count)
  case 0
  then show ?case by (simp add: adapt_loop.simps [of delta])
next
  case (Suc e)
  show ?case
  proof (cases "delta > 455")
    case True
    have "0 \<le> delta div 35" using Suc.prems(1) by simp
    moreover have "delta div 35 \<le> 455 * 35 ^ e" using Suc.prems(2) by simp
    moreover have "adapt_loop (delta div 35) (count + 36) = (d, c)" using Suc.prems(3) True by (simp add: adapt_loop.simps [of delta])
    ultimately have "0 \<le> d \<and> count + 36 \<le> c \<and> c \<le> count + 36 + 36 * int e" by (rule Suc.IH)
    then show ?thesis by simp
  next
    case False
    then show ?thesis using Suc.prems by (simp add: adapt_loop.simps [of delta])
  qed
qed

lemma ratio_le:
  fixes d :: int
  assumes "0 \<le> d"
  shows "0 \<le> (36 * d) div (d + 38) \<and> (36 * d) div (d + 38) \<le> 36"
proof -
  have "(36 * d) div (d + 38) \<le> (36 * (d + 38)) div (d + 38)" by (rule zdiv_mono1) (use assms in simp_all)
  also have "\<dots> = 36" by (rule nonzero_mult_div_cancel_right) (use assms in simp)
  finally show ?thesis using assms by (simp add: pos_imp_zdiv_nonneg_iff)
qed

lemma adaptBias_range:
  assumes "0 \<le> delta" "delta \<le> INT32_MAX" "0 < n"
  shows "0 \<le> adaptBias delta n first \<and> adaptBias delta n first \<le> 226"
proof -
  let ?a = "if first then delta div 700 else delta div 2"
  let ?d = "?a + ?a div n"
  obtain d c where l: "adapt_loop ?d 0 = (d, c)" by fastforce
  have a: "0 \<le> ?a" "?a \<le> 1073741823" using assms(1,2) by auto
  have "0 \<le> ?a div n" using a(1) assms(3) by (simp only: pos_imp_zdiv_nonneg_iff)
  moreover have "?a div n \<le> ?a" using a(1) assms(3) zdiv_mono2 [of ?a 1 n] by (simp only: div_by_1)
  ultimately have d: "0 \<le> ?d" "?d \<le> 455 * 35 ^ 5" using a by simp_all
  have "0 \<le> d \<and> 0 \<le> c \<and> c \<le> 0 + 36 * int 5" by (rule adapt_loop_spec [OF d l])
  moreover have "adaptBias delta n first = c + (36 * d) div (d + 38)"
    using l unfolding adaptBias_def Let_def by simp
  ultimately show ?thesis using ratio_le [of d] by simp
qed

section \<open>Digits\<close>

lemma digit_table: "\<forall>d \<in> set [0..35]. \<forall>u \<in> {True, False}. rd basicToDigit (nat (digitToBasic d u mod 256)) = Some d \<and>
    digitToBasic d u < 128 \<and> digitToBasic d u \<noteq> 45 \<and> 0 < digitToBasic d u"
  by code_simp

lemma digit_back:
  assumes "0 \<le> d" "d < 36"
  shows "rd basicToDigit (nat (digitToBasic d u mod 256)) = Some d" "digitToBasic d u < 128" "digitToBasic d u \<noteq> 45" "0 < digitToBasic d u"
proof -
  have "d \<in> set [0..35]" "u \<in> {True, False}" using assms by auto
  with digit_table show "rd basicToDigit (nat (digitToBasic d u mod 256)) = Some d" "digitToBasic d u < 128" "digitToBasic d u \<noteq> 45" "0 < digitToBasic d u"
    by blast+
qed

function digs :: "int \<Rightarrow> int \<Rightarrow> int \<Rightarrow> int list" where
  "digs bias q k =
     (let t = threshold k bias
      in if q < t then [q] else (t + (q - t) mod (BASE - t)) # digs bias ((q - t) div (BASE - t)) (k + BASE))"
  by pat_completeness auto
termination
  by (relation "measure (\<lambda>(bias, q, k). nat q)") (auto simp: not_less nat_less_iff digit_step)

declare digs.simps [simp del]

lemma digs_Cons:
  "q < threshold k bias \<Longrightarrow> digs bias q k = [q]"
  "\<not> q < threshold k bias \<Longrightarrow> digs bias q k =
     (threshold k bias + (q - threshold k bias) mod (BASE - threshold k bias)) #
     digs bias ((q - threshold k bias) div (BASE - threshold k bias)) (k + BASE)"
  by (simp_all add: digs.simps [of bias q k] Let_def)

lemma digs_nonempty [simp]: "digs bias q k \<noteq> []"
  by (cases "q < threshold k bias") (simp_all add: digs_Cons)

lemma digit_value:
  assumes "threshold k bias \<le> q"
  defines "t \<equiv> threshold k bias"
  defines "d \<equiv> t + (q - t) mod (BASE - t)"
  shows "t \<le> d" "d < 36" "d \<le> q" "d + (BASE - t) * ((q - t) div (BASE - t)) = q"
proof -
  have t: "1 \<le> t" "t \<le> 26" using threshold_range [of k bias] by (simp_all add: t_def)
  then have m: "0 \<le> (q - t) mod (BASE - t)" "(q - t) mod (BASE - t) < BASE - t" by simp_all
  have q: "t \<le> q" using assms(1) by (simp add: t_def)
  show "t \<le> d" "d < 36" using m by (simp_all add: d_def)
  show "d \<le> q" using q t zmod_le_nonneg_dividend [of "q - t" "BASE - t"] by (simp add: d_def)
  show "d + (BASE - t) * ((q - t) div (BASE - t)) = q"
    using mult_div_mod_eq [of "BASE - t" "q - t"] by (simp add: d_def)
qed

lemma digs_range: "0 \<le> q \<Longrightarrow> x \<in> set (digs bias q k) \<Longrightarrow> 0 \<le> x \<and> x < 36"
proof (induction bias q k rule: digs.induct)
  case (1 bias q k)
  show ?case
  proof (cases "q < threshold k bias")
    case True
    with 1(2,3) threshold_range [of k bias] show ?thesis by (simp add: digs_Cons)
  next
    case False
    then have q: "threshold k bias \<le> q" by simp
    show ?thesis
      using 1(1) [OF refl False digit_step(1) [OF q]] 1(3) digit_value(1,2) [OF q] threshold_range [of k bias] False
      by (auto simp: digs_Cons)
  qed
qed


section \<open>Reading them back\<close>

lemma sdiv_pos: "0 \<le> a \<Longrightarrow> 0 < b \<Longrightarrow> a sdiv b = a div b" for a b :: int
  by (simp add: signed_divide_int_def sgn_if pos_imp_zdiv_nonneg_iff)

text \<open>The weight of a digit fits where its threshold allows a further one.\<close>

lemma weight_fits:
  assumes "k = 36 * (int e + 1)" "w \<le> 35 ^ e" "0 < w" "bias \<le> 226" "threshold k bias \<le> q" "q * w \<le> INT32_MAX"
  shows "w * (36 - threshold k bias) \<le> INT32_MAX"
proof (cases "e \<le> 5")
  case True
  have "w * (36 - threshold k bias) \<le> w * 35" using threshold_range [of k bias] assms(3) by simp
  also have "\<dots> \<le> 35 ^ e * 35" using assms(2) by simp
  also have "\<dots> \<le> 35 ^ 5 * (35 :: int)" using power_increasing [OF True, of "35 :: int"] by simp
  finally show ?thesis by simp
next
  case False
  then have t: "threshold k bias = 26" using assms(1,4) by (simp add: threshold_def Let_def)
  have "w * (36 - threshold k bias) \<le> w * 26" using t assms(3) by simp
  also have "\<dots> \<le> q * w" using t assms(3,5) by (simp add: mult.commute [of w] mult_right_mono)
  finally show ?thesis using assms(6) by simp
qed

lemma decode_int_digs:
  assumes "0 \<le> bias" "bias \<le> 226" "0 \<le> q" "0 \<le> i" "i + q * w \<le> INT32_MAX" "0 < w" "w \<le> 35 ^ e" "k = 36 * (int e + 1)"
    "inp + length (digs bias q k) \<le> lim" "lim \<le> length src"
    "\<And>j. j < length (digs bias q k) \<Longrightarrow> rd basicToDigit (nat (src ! (inp + j) mod 256)) = Some (digs bias q k ! j)"
  shows "decode_int src lim bias inp i w k = Some (U_ZERO_ERROR, inp + length (digs bias q k), i + q * w)"
  using assms
proof (induction "length (digs bias q k)" arbitrary: q inp i w e k)
  case 0
  then show ?case by simp
next
  case (Suc n)
  let ?t = "threshold k bias"
  have t: "1 \<le> ?t" "?t \<le> 26" using threshold_range [of k bias] by simp_all
  have pos: "0 < length (digs bias q k)" by simp
  then have inp: "inp < lim" "inp < length src" using Suc.prems(9,10) by linarith+
  have hd: "rd basicToDigit (nat (src ! inp mod 256)) = Some (digs bias q k ! 0)" using Suc.prems(11) [OF pos] by simp
  have "0 \<le> q * w" using Suc.prems(3,6) by simp
  then have max: "INT32_MAX - i \<ge> 0" "q * w \<le> INT32_MAX - i" using Suc.prems(5) by linarith+
  have fit: "\<not> d > (INT32_MAX - i) sdiv w" "chk (d * w) = Some (d * w)" "chk (i + d * w) = Some (i + d * w)" if "0 \<le> d" "d \<le> q" for d
  proof -
    have "d * w \<le> q * w" using that Suc.prems(6) by (simp add: mult_right_mono)
    moreover have "0 \<le> d * w" using that Suc.prems(6) by simp
    ultimately have m: "d * w \<le> INT32_MAX - i" "0 \<le> d * w" using max(2) by linarith+
    then have "d \<le> (INT32_MAX - i) div w" using Suc.prems(6) zdiv_mono1 [OF m(1) Suc.prems(6)] by simp
    then show "\<not> d > (INT32_MAX - i) sdiv w" using max(1) Suc.prems(6) by (simp add: sdiv_pos)
    show "chk (d * w) = Some (d * w)" "chk (i + d * w) = Some (i + d * w)" using m Suc.prems(4) unfolding chk_def by simp_all
  qed
  show ?case
  proof (cases "q < ?t")
    case True
    then have ds: "digs bias q k = [q]" by (rule digs_Cons)
    then show ?thesis using inp hd True fit [of q] Suc.prems(3)
      by (subst decode_int.simps) (simp add: Let_def)
  next
    case False
    let ?d = "?t + (q - ?t) mod (36 - ?t)" and ?q = "(q - ?t) div (36 - ?t)"
    note v = digit_value [of k bias q, unfolded not_less [symmetric], OF False]
    have ds: "digs bias q k = ?d # digs bias ?q (k + 36)" by (rule digs_Cons(2) [OF False])
    have q: "0 \<le> ?q" using digit_step(1) [of k bias q] False by simp
    have w: "w * (36 - ?t) \<le> INT32_MAX"
    proof (rule weight_fits [OF Suc.prems(8,7,6,2)])
      show "?t \<le> q" using False by simp
      show "q * w \<le> INT32_MAX" using max(2) Suc.prems(4) by linarith
    qed
    have sum: "i + ?d * w + ?q * (w * (36 - ?t)) = i + q * w"
    proof -
      have "?d * w + ?q * (w * (36 - ?t)) = (?d + (36 - ?t) * ?q) * w" by (simp add: algebra_simps)
      then show ?thesis using v(4) by simp
    qed
    have IH: "decode_int src lim bias (inp + 1) (i + ?d * w) (w * (36 - ?t)) (k + 36) =
        Some (U_ZERO_ERROR, inp + 1 + length (digs bias ?q (k + 36)), i + ?d * w + ?q * (w * (36 - ?t)))"
    proof (rule Suc.hyps(1) [of ?q "k + 36", where e = "Suc e"])
      show "n = length (digs bias ?q (k + 36))" using Suc.hyps(2) ds by simp
      show "0 \<le> bias" "bias \<le> 226" "lim \<le> length src" "0 \<le> ?q" using Suc.prems q by simp_all
      show "0 \<le> i + ?d * w" using Suc.prems(4,6) v(1) t by simp
      show "i + ?d * w + ?q * (w * (36 - ?t)) \<le> INT32_MAX" using sum Suc.prems(5) by simp
      show "0 < w * (36 - ?t)" using Suc.prems(6) t by simp
      show "w * (36 - ?t) \<le> 35 ^ Suc e" using mult_mono [OF Suc.prems(7), of "36 - ?t" 35] t by (simp add: mult.commute)
      show "k + 36 = 36 * (int (Suc e) + 1)" using Suc.prems(8) by simp
      show "inp + 1 + length (digs bias ?q (k + 36)) \<le> lim" using Suc.prems(9) ds by simp
      show "rd basicToDigit (nat (src ! (inp + 1 + j) mod 256)) = Some (digs bias ?q (k + 36) ! j)" if "j < length (digs bias ?q (k + 36))" for j
        using Suc.prems(11) [of "Suc j"] that ds by simp
    qed
    have "w * (36 - ?t) div (36 - ?t) \<le> INT32_MAX div (36 - ?t)" using w t by (intro zdiv_mono1) simp_all
    then have g: "\<not> w > INT32_MAX sdiv (36 - ?t)" using t by (simp add: sdiv_pos)
    have "0 \<le> w * (36 - ?t)" using Suc.prems(6) t by simp
    then have "chk (w * (36 - ?t)) = Some (w * (36 - ?t))" using w unfolding chk_def by simp
    then show ?thesis using inp hd ds fit [of ?d] v(1,3) t g IH sum
      by (subst decode_int.simps) (simp add: Let_def)
  qed
qed

section \<open>The output array\<close>

definition holds :: "int list option \<Rightarrow> int \<Rightarrow> int list \<Rightarrow> bool" where
  "holds dest cap out \<longleftrightarrow> (case dest of None \<Rightarrow> cap \<le> 0
     | Some d \<Rightarrow> cap \<le> int (length d) \<and> (\<forall>i < length out. int i < cap \<longrightarrow> d ! i = out ! i))"

lemma store_holds:
  assumes "holds dest cap out"
  shows "\<exists>dest'. store dest cap (int (length out)) c = Some dest' \<and> holds dest' cap (out @ [c])"
  using assms by (cases dest) (auto simp: store_def holds_def nth_append nth_list_update less_Suc_eq)

lemma encode_digits_spec:
  assumes "holds dest cap out"
  shows "\<exists>dest'. encode_digits dest cap (int (length out)) bias q k =
      Some (dest', int (length (out @ map (\<lambda>d. digitToBasic d False) (butlast (digs bias q k)))), last (digs bias q k)) \<and>
    holds dest' cap (out @ map (\<lambda>d. digitToBasic d False) (butlast (digs bias q k)))"
  using assms
proof (induction bias q k arbitrary: dest out rule: digs.induct)
  case (1 bias q k)
  let ?t = "threshold k bias"
  show ?case
  proof (cases "q < ?t")
    case True
    then show ?thesis using 1(2) by (simp add: digs_Cons encode_digits.simps [of dest])
  next
    case False
    let ?c = "digitToBasic (?t + (q - ?t) mod (36 - ?t)) False"
    obtain d1 where d1: "store dest cap (int (length out)) ?c = Some d1" "holds d1 cap (out @ [?c])"
      using store_holds [OF 1(2)] by blast
    then show ?thesis using 1(1) [OF refl False d1(2)] False
      by (subst encode_digits.simps) (simp add: digs_Cons(2) [OF False] Let_def algebra_simps)
  qed
qed

lemma terminate_holds:
  assumes "holds dest cap out" "\<not> U_FAILURE ec"
  shows "\<exists>dest' ec'. u_terminateUChars dest cap (int (length out)) ec = Some (int (length out), dest', ec') \<and> holds dest' cap out \<and>
    U_FAILURE ec' = (cap < int (length out)) \<and> (cap < int (length out) \<longrightarrow> ec' = U_BUFFER_OVERFLOW_ERROR)"
  using assms by (cases dest) (auto simp: u_terminateUChars_def holds_def nth_list_update)

end
