(* ===== verification/PunyText.thy ===== *)
theory PunyText
  imports PunyInt
begin

text \<open>
  What Punycode stands for: a list of code points with their case flags, built by insertions. \<open>ins\<close> is one
  insertion of the decoder's state machine, \<open>text16\<close> and \<open>flags16\<close> are the units and the flags of the
  list, and \<open>insert_cp\<close> of the code inserts into them.
\<close>

section \<open>Text\<close>

type_synonym mark = "int \<times> bool"

definition units16 :: "int \<Rightarrow> int list" where
  "units16 c = (if c \<le> 65535 then [c] else [u16_lead c, u16_trail c])"

definition text16 :: "mark list \<Rightarrow> int list" where
  "text16 out = concat (map (\<lambda>m. units16 (fst m)) out)"

definition flags16 :: "mark list \<Rightarrow> bool list" where
  "flags16 out = concat (map (\<lambda>m. if fst m \<le> 65535 then [snd m] else [snd m, False]) out)"

definition scalar :: "int \<Rightarrow> bool" where
  "scalar c \<longleftrightarrow> 0 \<le> c \<and> c \<le> 1114111 \<and> \<not> U_IS_SURROGATE c"

lemma text16_simps [simp]:
  "text16 [] = []" "text16 (m # out) = units16 (fst m) @ text16 out" "text16 (out @ out') = text16 out @ text16 out'"
  "flags16 [] = []" "flags16 (m # out) = (if fst m \<le> 65535 then [snd m] else [snd m, False]) @ flags16 out"
  "flags16 (out @ out') = flags16 out @ flags16 out'"
  by (simp_all add: text16_def flags16_def)

lemma length_units16: "scalar c \<Longrightarrow> length (units16 c) = u16_length c"
  by (simp add: units16_def u16_length_def scalar_def)

lemma length_flags16 [simp]: "length (flags16 out) = length (text16 out)"
  by (induction out) (simp_all add: units16_def)

lemma supplementary_units:
  assumes "65535 < c" "c \<le> 1114111"
  shows "u16_is_lead (u16_lead c)" "u16_is_trail (u16_trail c)" "u16_supplementary (u16_lead c) (u16_trail c) = c"
  using assms by (auto simp: u16_is_lead_def u16_is_trail_def u16_lead_def u16_trail_def u16_supplementary_def)

lemma text_split:
  assumes "p < length out"
  shows "text16 out = text16 (take p out) @ units16 (fst (out ! p)) @ text16 (drop (Suc p) out)"
proof -
  have "text16 out = text16 (take p out @ out ! p # drop (Suc p) out)" using id_take_nth_drop [OF assms] by simp
  then show ?thesis by simp
qed

lemma take_text: "p \<le> length out \<Longrightarrow> take (length (text16 (take p out))) (text16 out) = text16 (take p out)"
  "p \<le> length out \<Longrightarrow> drop (length (text16 (take p out))) (text16 out) = text16 (drop p out)"
  "p \<le> length out \<Longrightarrow> take (length (text16 (take p out))) (flags16 out) = flags16 (take p out)"
  "p \<le> length out \<Longrightarrow> drop (length (text16 (take p out))) (flags16 out) = flags16 (drop p out)"
proof -
  have t: "text16 out = text16 (take p out) @ text16 (drop p out)"
    by (metis append_take_drop_id text16_simps(3))
  have f: "flags16 out = flags16 (take p out) @ flags16 (drop p out)"
    by (metis append_take_drop_id text16_simps(6))
  show "take (length (text16 (take p out))) (text16 out) = text16 (take p out)"
    "drop (length (text16 (take p out))) (text16 out) = text16 (drop p out)" by (simp_all add: t)
  show "take (length (text16 (take p out))) (flags16 out) = flags16 (take p out)"
    "drop (length (text16 (take p out))) (flags16 out) = flags16 (drop p out)" by (simp_all add: f)
qed

lemma text_length_le: "length (text16 (take p out)) \<le> length (text16 out)"
  by (metis append_take_drop_id length_append le_add1 text16_simps(3))

section \<open>Going forward\<close>

lemma fwd_n_text:
  assumes "take (length (text16 out)) d = text16 out" "length (text16 out) \<le> length d" "list_all (\<lambda>m. scalar (fst m)) out"
    "f + m \<le> length out"
  shows "u16_fwd_n d (length (text16 (take f out))) (length (text16 out)) m = Some (length (text16 (take (f + m) out)))"
  using assms(4)
proof (induction m arbitrary: f)
  case (Suc m)
  let ?i = "length (text16 (take f out))" and ?len = "length (text16 out)" and ?c = "fst (out ! f)"
  have f: "f < length out" using Suc.prems by simp
  have s: "text16 out = text16 (take f out) @ units16 ?c @ text16 (drop (Suc f) out)" by (rule text_split [OF f])
  have sc: "scalar ?c" using assms(3) f by (simp add: list_all_length)
  have n: "length (text16 (take (Suc f) out)) = ?i + length (units16 ?c)" using f by (simp add: take_Suc_conv_app_nth)
  have u: "0 < length (units16 ?c)" by (simp add: units16_def)
  have le: "?i + length (units16 ?c) \<le> ?len" by (subst s) simp
  have at: "d ! (?i + j) = units16 ?c ! j" if "j < length (units16 ?c)" for j
  proof -
    have "?i + j < ?len" using le that by linarith
    then have "d ! (?i + j) = take ?len d ! (?i + j)" by simp
    also have "\<dots> = units16 ?c ! j" unfolding assms(1) by (subst s) (use that in \<open>simp add: nth_append\<close>)
    finally show ?thesis .
  qed
  have "u16_fwd_1 d ?i ?len = Some (length (text16 (take (Suc f) out)))"
  proof (cases "?c \<le> 65535")
    case True
    then have "d ! ?i = ?c" "length (units16 ?c) = 1" using at [of 0] by (simp_all add: units16_def)
    moreover have "\<not> u16_is_lead ?c" using sc by (auto simp: scalar_def U_IS_SURROGATE_def u16_is_lead_def)
    ultimately show ?thesis using le assms(2) n by (simp add: u16_fwd_1_def)
  next
    case False
    then have "d ! ?i = u16_lead ?c" "d ! (?i + 1) = u16_trail ?c" "length (units16 ?c) = 2"
      using at [of 0] at [of 1] by (simp_all add: units16_def)
    moreover have "u16_is_lead (u16_lead ?c)" "u16_is_trail (u16_trail ?c)"
      using supplementary_units [of ?c] False sc by (simp_all add: scalar_def)
    ultimately show ?thesis using le assms(2) n by (simp add: u16_fwd_1_def)
  qed
  moreover have "?i < ?len" using le u by linarith
  ultimately show ?case using Suc.IH [of "Suc f"] Suc.prems by simp
qed simp

section \<open>Inserting units\<close>

lemma make_room:
  assumes "u \<le> len" "len + k \<le> length d"
  shows "\<exists>B R. (if u < len then move_units d u len k else Some d) = Some (take u d @ B @ take (len - u) (drop u d) @ R) \<and>
    length B = k \<and> length (take u d @ B @ take (len - u) (drop u d) @ R) = length d"
proof (cases "u < len")
  case True
  have "take (u + k) d = take u d @ take k (drop u d)" by (simp add: take_add)
  with True assms show ?thesis
    by (intro exI [of _ "take k (drop u d)"] exI [of _ "drop (len + k) d"]) (simp add: move_units_def)
next
  case False
  then have u: "u = len" using assms(1) by simp
  have "d = take u d @ take k (drop u d) @ drop k (drop u d)" by (metis append_take_drop_id)
  with u assms(2) show ?thesis
    by (intro exI [of _ "take k (drop u d)"] exI [of _ "drop k (drop u d)"]) simp
qed

lemma write_one:
  assumes "length B = 1"
  shows "wr (A @ B @ C) (length A) x = Some (A @ [x] @ C)"
  using assms by (cases B) auto

lemma write_two:
  assumes "length B = 2"
  shows "\<exists>d1. wr (A @ B @ C) (length A) x = Some d1 \<and> wr d1 (length A + 1) y = Some (A @ [x, y] @ C)"
proof -
  obtain b c where "B = [b, c]" using assms by (auto simp: length_Suc_conv numeral_2_eq_2)
  then show ?thesis by (simp add: list_update_append)
qed

text \<open>The two writes of an insertion, of one cell or of two.\<close>

definition put_cells :: "'a list \<Rightarrow> nat \<Rightarrow> 'a list \<Rightarrow> 'a list option" where
  "put_cells d u xs = (case xs of [x] \<Rightarrow> wr d u x | [x, y] \<Rightarrow> do { d \<leftarrow> wr d u x; wr d (u + 1) y } | _ \<Rightarrow> None)"

lemma insert_cells:
  assumes "u \<le> len" "len + length xs \<le> length d" "length xs = 1 \<or> length xs = 2" "take len d = t"
  shows "\<exists>d1 d2. (if u < len then move_units d u len (length xs) else Some d) = Some d1 \<and> put_cells d1 u xs = Some d2 \<and>
    length d1 = length d \<and> length d2 = length d \<and> take (len + length xs) d2 = take u t @ xs @ drop u t"
proof -
  obtain B R where d: "(if u < len then move_units d u len (length xs) else Some d) = Some (take u d @ B @ take (len - u) (drop u d) @ R)"
    "length B = length xs" "length (take u d @ B @ take (len - u) (drop u d) @ R) = length d"
    using make_room [OF assms(1,2)] by blast
  let ?A = "take u d" and ?M = "take (len - u) (drop u d)"
  have A: "length ?A = u" using assms(1,2) by simp
  have M: "length ?M = len - u" using assms(2) by simp
  have "put_cells (?A @ B @ ?M @ R) u xs = Some (?A @ xs @ ?M @ R)"
    using assms(3)
  proof
    assume l: "length xs = 1"
    then obtain x where x: "xs = [x]" by (auto simp: length_Suc_conv)
    have "length B = 1" using d(2) l by simp
    from write_one [OF this, of ?A "?M @ R" x] show ?thesis unfolding A x by (simp add: put_cells_def)
  next
    assume l: "length xs = 2"
    then obtain x y where x: "xs = [x, y]" by (auto simp: length_Suc_conv numeral_2_eq_2)
    have "length B = 2" using d(2) l by simp
    from write_two [OF this, of ?A "?M @ R" x y] show ?thesis unfolding A x by (auto simp: put_cells_def)
  qed
  moreover have "take (len + length xs) (?A @ xs @ ?M @ R) = take u t @ xs @ drop u t"
  proof -
    have "?A = take u t" "?M = drop u t" using assms(1,4) by (auto simp: min_def drop_take)
    moreover have "len + length xs = length (?A @ xs @ ?M)" using A M assms(1) by simp
    ultimately show ?thesis by (metis append.assoc append_eq_conv_conj)
  qed
  ultimately show ?thesis using d by auto
qed


section \<open>Inserting a code point\<close>

definition stored :: "int \<Rightarrow> decoder \<Rightarrow> mark list \<Rightarrow> bool" where
  "stored cap st out \<longleftrightarrow>
     de_len st = length (text16 out) \<and> 0 \<le> de_fsi st \<and> de_fsi st \<le> 1000000000 + int (length out) \<and>
     (\<forall>d. de_dest st = Some d \<longrightarrow> cap \<le> int (length d)) \<and> (\<forall>fs. de_flags st = Some fs \<longrightarrow> cap \<le> int (length fs)) \<and>
     (\<forall>d. de_dest st = Some d \<longrightarrow> int (de_len st) \<le> cap \<longrightarrow>
        take (de_len st) d = text16 out \<and> list_all (\<lambda>m. fst m \<le> 65535) (take (nat (de_fsi st)) out) \<and>
        (\<forall>fs. de_flags st = Some fs \<longrightarrow> take (de_len st) fs = flags16 out))"

lemma text16_le: "length (text16 out) \<le> 2 * length out"
  by (induction out) (auto simp: units16_def)

lemma text_bmp: "list_all (\<lambda>m. fst m \<le> 65535) out \<Longrightarrow> length (text16 out) = length out"
  by (induction out) (simp_all add: units16_def)

lemma unit_index_spec:
  assumes "take (length (text16 out)) d = text16 out" "length (text16 out) \<le> length d" "list_all (\<lambda>m. scalar (fst m)) out"
    "p \<le> length out" "0 \<le> fsi" "fsi < INT32_MAX" "list_all (\<lambda>m. fst m \<le> 65535) (take (nat fsi) out)" "scalar n"
  shows "\<exists>fsi'. unit_index d (length (text16 out)) (int p) fsi (u16_length n) = Some (length (text16 (take p out)), fsi') \<and>
    0 \<le> fsi' \<and> fsi' \<le> fsi + 1 \<and> list_all (\<lambda>m. fst m \<le> 65535) (take (nat fsi') (take p out @ (n, u) # drop p out))"
proof (cases "int p \<le> fsi")
  case True
  then have p: "p \<le> nat fsi" by simp
  have b: "list_all (\<lambda>m. fst m \<le> 65535) (take p out)"
    using assms(7) set_take_subset_set_take [OF p, of out] by (auto simp: list_all_iff)
  then have l: "length (text16 (take p out)) = p" using text_bmp assms(4) by (simp add: text_bmp)
  show ?thesis
  proof (cases "n \<le> 65535")
    case n: True
    have "nat (fsi + 1) = Suc (nat fsi)" using assms(5) by simp
    moreover have "list_all (\<lambda>m. fst m \<le> 65535) (take (nat fsi - p) (drop p out))"
    proof -
      have "take (nat fsi - p) (drop p out) = drop p (take (nat fsi) out)" by (simp add: drop_take)
      with assms(7) show ?thesis by (auto simp: list_all_iff dest: in_set_dropD)
    qed
    ultimately have "list_all (\<lambda>m. fst m \<le> 65535) (take (nat (fsi + 1)) (take p out @ (n, u) # drop p out))"
      using b n assms(4) p by (simp add: take_append Suc_diff_le)
    moreover have "u16_length n = 1" using n assms(8) by (simp add: u16_length_def scalar_def)
    ultimately show ?thesis using True l assms(5,6) by (simp add: unit_index_def)
  next
    case n: False
    then have "u16_length n = 2" by (simp add: u16_length_def)
    then show ?thesis using True l b assms(4) by (simp add: unit_index_def)
  qed
next
  case False
  then have f: "nat fsi \<le> p" "nat (int p - fsi) = p - nat fsi" using assms(5) by simp_all
  have "length (text16 (take (nat fsi) out)) = nat fsi" using text_bmp [OF assms(7)] f(1) assms(4) by simp
  then have "u16_fwd_n d (nat fsi) (length (text16 out)) (p - nat fsi) = Some (length (text16 (take p out)))"
    using fwd_n_text [OF assms(1-3), of "nat fsi" "p - nat fsi"] f(1) assms(4) by simp
  moreover have "take (nat fsi) (take p out @ (n, u) # drop p out) = take (nat fsi) out"
    using f(1) assms(4) by (simp add: min_absorb1)
  ultimately show ?thesis using False f(2) assms(5,7) by (simp add: unit_index_def)
qed

lemma insert_cp_spec:
  assumes "stored cap st out" "list_all (\<lambda>m. scalar (fst m)) out" "p \<le> length out" "scalar n" "length out < 1000000000"
  shows "\<exists>st'. insert_cp n (int p) u cap st = Some st' \<and>
    stored cap (st'\<lparr>de_len := de_len st + u16_length n\<rparr>) (take p out @ (n, u) # drop p out) \<and>
    de_len st' = de_len st \<and> de_count st' = de_count st \<and> (de_dest st' = None \<longleftrightarrow> de_dest st = None) \<and>
    (de_flags st' = None \<longleftrightarrow> de_flags st = None)"
proof -
  let ?out = "take p out @ (n, u) # drop p out" and ?k = "u16_length n" and ?len = "length (text16 out)"
  have l: "de_len st = ?len" using assms(1) by (simp add: stored_def)
  have "text16 ?out = text16 (take p out) @ units16 n @ text16 (drop p out)" by simp
  moreover have "text16 out = text16 (take p out) @ text16 (drop p out)" by (metis append_take_drop_id text16_simps(3))
  ultimately have L: "length (text16 ?out) = ?len + ?k" using length_units16 [OF assms(4)] by simp
  show ?thesis
  proof (cases "de_dest st \<noteq> None \<and> int (?len + ?k) \<le> cap")
    case False
    then have "insert_cp n (int p) u cap st = Some st" using l by (auto simp: insert_cp_def Let_def)
    moreover have "stored cap (st\<lparr>de_len := de_len st + ?k\<rparr>) ?out" using assms(1,3) False l L by (auto simp: stored_def)
    ultimately show ?thesis by blast
  next
    case True
    then obtain d where d: "de_dest st = Some d" by auto
    let ?u = "length (text16 (take p out))"
    have le: "?len \<le> length d" "?len + ?k \<le> length d" "take ?len d = text16 out"
      "list_all (\<lambda>m. fst m \<le> 65535) (take (nat (de_fsi st)) out)" "0 \<le> de_fsi st" "de_fsi st < INT32_MAX"
      using assms(1,5) True d l by (auto simp: stored_def)
    obtain fsi where f: "unit_index d ?len (int p) (de_fsi st) ?k = Some (?u, fsi)"
      "0 \<le> fsi" "fsi \<le> de_fsi st + 1" "list_all (\<lambda>m. fst m \<le> 65535) (take (nat fsi) ?out)"
      using unit_index_spec [OF le(3,1) assms(2,3) le(5,6,4) assms(4), of u] by blast
    have k: "length (units16 n) = ?k" "?k = 1 \<or> ?k = 2" by (rule length_units16 [OF assms(4)]) (simp add: u16_length_def)
    obtain d1 d2 where d2: "(if ?u < ?len then move_units d ?u ?len ?k else Some d) = Some d1" "put_cells d1 ?u (units16 n) = Some d2"
      "length d2 = length d" "take (?len + ?k) d2 = take ?u (text16 out) @ units16 n @ drop ?u (text16 out)"
      using insert_cells [OF text_length_le [of p out], of "units16 n" d "text16 out", unfolded k(1), OF le(2) k(2) le(3)] by blast
    have t2: "take (?len + ?k) d2 = text16 ?out" using d2(4) take_text(1,2) [OF assms(3)] by simp
    have w: "put_cells d1 ?u (units16 n) = (if ?k = 1 then wr d1 ?u n else do { d \<leftarrow> wr d1 ?u (u16_lead n); wr d (?u + 1) (u16_trail n) })"
      using assms(4) by (simp add: put_cells_def units16_def u16_length_def scalar_def)
    show ?thesis
    proof (cases "de_flags st")
      case None
      have "insert_cp n (int p) u cap st = Some (st\<lparr>de_dest := Some d2, de_flags := None, de_fsi := fsi\<rparr>)"
        using k(2) True d l f(1) d2(1) d2(2) [unfolded w] None unfolding insert_cp_def Let_def l
        by (elim disjE) (auto simp: set_flag_def bind_eq_Some_conv)
      moreover have "stored cap (st\<lparr>de_dest := Some d2, de_flags := None, de_fsi := fsi, de_len := de_len st + ?k\<rparr>) ?out"
        using assms(1,3) d d2(3) t2 f l L by (auto simp: stored_def)
      ultimately show ?thesis using d None by auto
    next
      case (Some fs)
      let ?fl = "if ?k = 1 then [u] else [u, False]"
      have fl: "?len + ?k \<le> length fs" "take ?len fs = flags16 out" using assms(1) True d l Some by (auto simp: stored_def)
      have kl: "length ?fl = ?k" using k(2) by auto
      obtain f1 f2 where f2: "(if ?u < ?len then move_units fs ?u ?len ?k else Some fs) = Some f1" "put_cells f1 ?u ?fl = Some f2"
        "length f2 = length fs" "take (?len + ?k) f2 = take ?u (flags16 out) @ ?fl @ drop ?u (flags16 out)"
        using insert_cells [OF text_length_le [of p out], of ?fl fs "flags16 out", unfolded kl, OF fl(1) k(2) fl(2)] by blast
      have "n \<le> 65535 \<longleftrightarrow> ?k = 1" using assms(4) by (simp add: u16_length_def scalar_def)
      then have t3: "take (?len + ?k) f2 = flags16 ?out" using f2(4) take_text(3,4) [OF assms(3)] by simp
      have w2: "do { fs \<leftarrow> set_flag (Some f1) ?u u; if ?k = 2 then set_flag fs (?u + 1) False else Some fs } = Some (Some f2)"
        using f2(2) k(2) by (auto simp: put_cells_def set_flag_def bind_eq_Some_conv)
      have "insert_cp n (int p) u cap st = Some (st\<lparr>de_dest := Some d2, de_flags := Some f2, de_fsi := fsi\<rparr>)"
        using k(2) True d l f(1) d2(1) d2(2) [unfolded w] f2(1) Some w2 unfolding insert_cp_def Let_def l
        by (elim disjE) (auto simp: set_flag_def bind_eq_Some_conv)
      moreover have "stored cap (st\<lparr>de_dest := Some d2, de_flags := Some f2, de_fsi := fsi, de_len := de_len st + ?k\<rparr>) ?out"
        using assms(1,3) d d2(3) f2(3) t2 t3 f l L Some by (auto simp: stored_def)
      ultimately show ?thesis using d Some by auto
    qed
  qed
qed

end
