(* ===== verification/PunyDecode.thy ===== *)
theory PunyDecode
  imports PunyText
begin

text \<open>
  The decoder as a state machine: \<open>pstate\<close> is its state without the arrays, \<open>ins\<close> the transition that a
  decoded integer makes, and the loop of \<open>u_strFromPunycode\<close> makes these transitions or stops with an error.
\<close>

section \<open>The state machine\<close>

record pstate =
  ps_i :: int
  ps_n :: int
  ps_bias :: int
  ps_out :: "mark list"

definition size_of :: "pstate \<Rightarrow> int" where "size_of s = int (length (ps_out s))"

definition next_n :: "int \<Rightarrow> pstate \<Rightarrow> int" where
  "next_n delta s = ps_n s + (ps_i s + delta) div (size_of s + 1)"

definition ins :: "int \<Rightarrow> bool \<Rightarrow> pstate \<Rightarrow> pstate" where
  "ins delta u s =
     (let p = (ps_i s + delta) mod (size_of s + 1)
      in \<lparr>ps_i = p + 1, ps_n = next_n delta s, ps_bias = adaptBias delta (size_of s + 1) (ps_i s = 0),
          ps_out = take (nat p) (ps_out s) @ (next_n delta s, u) # drop (nat p) (ps_out s)\<rparr>)"

definition ps_ok :: "pstate \<Rightarrow> bool" where
  "ps_ok s \<longleftrightarrow> 0 \<le> ps_i s \<and> ps_i s \<le> size_of s \<and> 128 \<le> ps_n s \<and> ps_n s \<le> 1114111 \<and> 0 \<le> ps_bias s \<and> ps_bias s \<le> 226 \<and>
     list_all (\<lambda>m. scalar (fst m)) (ps_out s)"

definition delta_ok :: "int \<Rightarrow> pstate \<Rightarrow> bool" where
  "delta_ok delta s \<longleftrightarrow> 0 \<le> delta \<and> ps_i s + delta \<le> INT32_MAX \<and> scalar (next_n delta s)"

lemma next_n_ge: "ps_ok s \<Longrightarrow> 0 \<le> delta \<Longrightarrow> ps_n s \<le> next_n delta s"
  by (simp add: next_n_def ps_ok_def size_of_def pos_imp_zdiv_nonneg_iff)

lemma position_range: "0 \<le> (ps_i s + delta) mod (size_of s + 1)" "(ps_i s + delta) mod (size_of s + 1) \<le> size_of s"
proof -
  have "(ps_i s + delta) mod (size_of s + 1) < size_of s + 1" by (rule pos_mod_bound) (simp add: size_of_def)
  then show "(ps_i s + delta) mod (size_of s + 1) \<le> size_of s" by simp
  show "0 \<le> (ps_i s + delta) mod (size_of s + 1)" by (rule pos_mod_sign) (simp add: size_of_def)
qed

lemma ins_size [simp]: "size_of (ins delta u s) = size_of s + 1"
proof -
  have "nat ((ps_i s + delta) mod (size_of s + 1)) \<le> length (ps_out s)"
    using position_range [of s delta] by (simp add: size_of_def nat_le_iff)
  then show ?thesis unfolding ins_def Let_def by (simp add: size_of_def)
qed

lemma ins_ok:
  assumes "ps_ok s" "delta_ok delta s"
  shows "ps_ok (ins delta u s)"
proof -
  have d: "0 \<le> delta" "delta \<le> INT32_MAX" "scalar (next_n delta s)" using assms by (auto simp: ps_ok_def delta_ok_def)
  have "0 < size_of s + 1" by (simp add: size_of_def)
  from adaptBias_range [OF d(1,2) this] have b: "0 \<le> ps_bias (ins delta u s)" "ps_bias (ins delta u s) \<le> 226"
    by (simp_all add: ins_def Let_def)
  have "list_all (\<lambda>m. scalar (fst m)) (ps_out (ins delta u s))"
    using assms(1) d(3) by (auto simp: ins_def Let_def ps_ok_def list_all_iff dest: in_set_takeD in_set_dropD)
  moreover have "0 \<le> ps_i (ins delta u s)" "ps_i (ins delta u s) \<le> size_of s + 1" "ps_n (ins delta u s) = next_n delta s"
    using position_range [of s delta] by (simp_all add: ins_def Let_def)
  ultimately show ?thesis using b next_n_ge [OF assms(1) d(1)] assms(1) d(3)
    by (simp add: ps_ok_def scalar_def)
qed

section \<open>The loop over an integer\<close>

lemma div_mult_le: "0 < w \<Longrightarrow> a div w * w \<le> a" for a w :: int
  using pos_mod_sign [of w a] minus_mod_eq_div_mult [of a w] by linarith

lemma digits_small: "\<forall>x \<in> set basicToDigit. x < 36"
  by code_simp

lemma length_basicToDigit [simp]: "length basicToDigit = 256"
  by (simp add: basicToDigit_def)

lemma decode_int_ends:
  assumes "lim \<le> length src" "0 \<le> i" "i \<le> INT32_MAX" "0 < w" "w \<le> INT32_MAX" "inp \<le> lim"
  shows "\<exists>err inp' i'. decode_int src lim bias inp i w k = Some (err, inp', i') \<and>
    (err = U_ZERO_ERROR \<and> inp < inp' \<and> inp' \<le> lim \<and> i \<le> i' \<and> i' \<le> INT32_MAX \<or>
     err = U_ILLEGAL_CHAR_FOUND \<or> err = U_INVALID_CHAR_FOUND)"
  using assms
proof (induction "lim - inp" arbitrary: inp i w k)
  case 0
  then show ?case by (subst decode_int.simps) simp
next
  case (Suc m)
  then have inp: "inp < lim" "inp < length src" by simp_all
  let ?t = "threshold k bias"
  have t: "1 \<le> ?t" "?t \<le> 26" using threshold_range [of k bias] by simp_all
  have "nat (src ! inp mod 256) < 256" by (simp add: nat_less_iff)
  then obtain d where d: "rd basicToDigit (nat (src ! inp mod 256)) = Some d" by simp
  show ?case
  proof (cases "d < 0 \<or> d > (INT32_MAX - i) sdiv w")
    case True
    then show ?thesis using inp d by (subst decode_int.simps) auto
  next
    case False
    then have f: "0 \<le> d" "\<not> d < 0" "d \<le> (INT32_MAX - i) div w" using Suc.prems(3,4) by (simp_all add: sdiv_pos)
    have "d * w \<le> (INT32_MAX - i) div w * w" using f(3) Suc.prems(4) by (simp add: mult_right_mono)
    also have "\<dots> \<le> INT32_MAX - i" by (rule div_mult_le [OF Suc.prems(4)])
    finally have p: "d * w \<le> INT32_MAX - i" .
    have p0: "0 \<le> d * w" using f(1) Suc.prems(4) by simp
    have chks: "chk (d * w) = Some (d * w)" "chk (i + d * w) = Some (i + d * w)"
      using p p0 Suc.prems(2) unfolding chk_def by simp_all
    show ?thesis
    proof (cases "d < ?t \<or> w > INT32_MAX sdiv (36 - ?t)")
      case True
      then show ?thesis using inp d False chks p p0
        by (subst decode_int.simps) (auto simp: Let_def)
    next
      case no: False
      then have "w \<le> INT32_MAX div (36 - ?t)" using t by (simp add: sdiv_pos)
      then have "w * (36 - ?t) \<le> INT32_MAX div (36 - ?t) * (36 - ?t)" using t by (simp add: mult_right_mono)
      also have "\<dots> \<le> INT32_MAX" by (rule div_mult_le) (use t in simp)
      finally have w: "w * (36 - ?t) \<le> INT32_MAX" .
      have w0: "0 < w * (36 - ?t)" using Suc.prems(4) t by simp
      then have c: "chk (w * (36 - ?t)) = Some (w * (36 - ?t))" using w unfolding chk_def by simp
      have ih: "\<exists>err inp' i'. decode_int src lim bias (inp + 1) (i + d * w) (w * (36 - ?t)) (k + 36) = Some (err, inp', i') \<and>
        (err = U_ZERO_ERROR \<and> inp + 1 < inp' \<and> inp' \<le> lim \<and> i + d * w \<le> i' \<and> i' \<le> INT32_MAX \<or>
         err = U_ILLEGAL_CHAR_FOUND \<or> err = U_INVALID_CHAR_FOUND)"
        by (rule Suc.hyps(1)) (use Suc p p0 w w0 in simp_all)
      then obtain err inp' i' where r: "decode_int src lim bias (inp + 1) (i + d * w) (w * (36 - ?t)) (k + 36) = Some (err, inp', i')"
        "err = U_ZERO_ERROR \<and> inp + 1 < inp' \<and> inp' \<le> lim \<and> i + d * w \<le> i' \<and> i' \<le> INT32_MAX \<or>
         err = U_ILLEGAL_CHAR_FOUND \<or> err = U_INVALID_CHAR_FOUND" by blast
      have "decode_int src lim bias inp i w k = Some (err, inp', i')"
        using inp d False chks no c r(1) by (subst decode_int.simps) (simp add: Let_def)
      then show ?thesis using r(2) p0 by auto
    qed
  qed
qed

section \<open>The loop over the input\<close>

definition dec_rel :: "int \<Rightarrow> decoder \<Rightarrow> pstate \<Rightarrow> bool" where
  "dec_rel cap st s \<longleftrightarrow> stored cap st (ps_out s) \<and> ps_ok s \<and> de_count st = size_of s \<and>
     de_i st = ps_i s \<and> de_n st = ps_n s \<and> de_bias st = ps_bias s"

definition arrays :: "decoder \<Rightarrow> bool \<times> bool" where
  "arrays st = (de_dest st \<noteq> None, de_flags st \<noteq> None)"

lemma stored_sel: "stored cap (st\<lparr>de_count := c, de_i := i, de_n := n, de_bias := b\<rparr>) out = stored cap st out"
  by (simp add: stored_def)

lemma decode_step:
  assumes "dec_rel cap st s" "inp < lim" "lim \<le> length src" "size_of s < 1000000000"
    "decode_int src lim (de_bias st) inp (de_i st) 1 BASE = Some (U_ZERO_ERROR, inp', i')" "inp < inp'" "inp' \<le> lim"
    "ps_i s \<le> i'" "i' \<le> INT32_MAX"
  shows "delta_ok (i' - ps_i s) s \<Longrightarrow> \<exists>st'. decode_main src lim cap inp st = decode_main src lim cap inp' st' \<and>
      dec_rel cap st' (ins (i' - ps_i s) (IS_BASIC_UPPERCASE (src ! (inp' - 1))) s) \<and> arrays st' = arrays st"
    "\<not> delta_ok (i' - ps_i s) s \<Longrightarrow> decode_main src lim cap inp st = Some (U_ILLEGAL_CHAR_FOUND, st)"
proof -
  let ?d = "i' - ps_i s" and ?u = "IS_BASIC_UPPERCASE (src ! (inp' - 1))" and ?p = "i' mod (size_of s + 1)"
  have ok: "ps_ok s" and st: "stored cap st (ps_out s)" "de_count st = size_of s" "de_i st = ps_i s" "de_n st = ps_n s" "de_bias st = ps_bias s"
    using assms(1) by (auto simp: dec_rel_def)
  have rd: "rd src (inp' - 1) = Some (src ! (inp' - 1))" using assms(3,6,7) by simp
  have n: "next_n ?d s = ps_n s + i' div (size_of s + 1)" by (simp add: next_n_def)
  have quo: "0 \<le> i' div (size_of s + 1)" using assms(8) ok by (simp add: ps_ok_def size_of_def pos_imp_zdiv_nonneg_iff)
  have len: "chk (int (de_len st + u16_length m)) = Some (int (de_len st + u16_length m))" for m
  proof -
    have "int (de_len st) \<le> 2 * size_of s" using st(1) text16_le [of "ps_out s"] by (simp add: stored_def size_of_def)
    moreover have "u16_length m \<le> 2" by (simp add: u16_length_def)
    ultimately show ?thesis using assms(4) by (intro chk_in) linarith+
  qed
  have count: "chk (size_of s + 1) = Some (size_of s + 1)" using assms(4) by (simp add: size_of_def)
  have unfold: "decode_main src lim cap inp st =
     (if i' div (size_of s + 1) > INT32_MAX - ps_n s then Some (U_ILLEGAL_CHAR_FOUND, st)
      else do { n \<leftarrow> chk (next_n ?d s);
        if n > 1114111 \<or> U_IS_SURROGATE n then Some (U_ILLEGAL_CHAR_FOUND, st)
        else do { st' \<leftarrow> insert_cp n ?p ?u cap st;
          decode_main src lim cap inp' (st'\<lparr>de_len := de_len st + u16_length n, de_count := size_of s + 1,
            de_i := ?p + 1, de_n := n, de_bias := adaptBias ?d (size_of s + 1) (ps_i s = 0)\<rparr>) } })"
    by (subst decode_main.simps) (use assms(2,5) rd st in \<open>simp add: Let_def n len count del: of_nat_add chk_in cong: if_cong\<close>)
  show "decode_main src lim cap inp st = Some (U_ILLEGAL_CHAR_FOUND, st)" if "\<not> delta_ok ?d s"
  proof (cases "i' div (size_of s + 1) > INT32_MAX - ps_n s")
    case False
    then have c: "chk (next_n ?d s) = Some (next_n ?d s)" using quo ok unfolding n chk_def by (simp add: ps_ok_def)
    have "0 \<le> next_n ?d s" using quo ok unfolding n by (simp add: ps_ok_def)
    then have "next_n ?d s > 1114111 \<or> U_IS_SURROGATE (next_n ?d s)" using that assms(8,9) by (auto simp: delta_ok_def scalar_def)
    then show ?thesis unfolding unfold using False c by simp
  qed (simp add: unfold)
  assume "delta_ok ?d s"
  then have sc: "scalar (next_n ?d s)" and dok: "delta_ok ?d s" by (simp_all add: delta_ok_def)
  then have c: "\<not> i' div (size_of s + 1) > INT32_MAX - ps_n s" "chk (next_n ?d s) = Some (next_n ?d s)"
    "\<not> (next_n ?d s > 1114111 \<or> U_IS_SURROGATE (next_n ?d s))"
    using quo ok by (auto simp: scalar_def chk_def n)
  have p: "0 \<le> ?p" "?p \<le> size_of s" using position_range [of s ?d] by simp_all
  then have np: "int (nat ?p) = ?p" "nat ?p \<le> length (ps_out s)" by (simp_all add: size_of_def nat_le_iff)
  obtain st' where st': "insert_cp (next_n ?d s) ?p ?u cap st = Some st'"
    "stored cap (st'\<lparr>de_len := de_len st + u16_length (next_n ?d s)\<rparr>) (take (nat ?p) (ps_out s) @ (next_n ?d s, ?u) # drop (nat ?p) (ps_out s))"
    "de_len st' = de_len st" "(de_dest st' = None) = (de_dest st = None)" "(de_flags st' = None) = (de_flags st = None)"
    using insert_cp_spec [OF st(1) _ np(2) sc, of ?u] ok assms(4) unfolding np(1) by (auto simp: ps_ok_def size_of_def)
  let ?st = "st'\<lparr>de_len := de_len st + u16_length (next_n ?d s), de_count := size_of s + 1,
            de_i := ?p + 1, de_n := next_n ?d s, de_bias := adaptBias ?d (size_of s + 1) (ps_i s = 0)\<rparr>"
  have "decode_main src lim cap inp st = decode_main src lim cap inp' ?st"
    unfolding unfold using c st'(1) by simp
  moreover have "dec_rel cap ?st (ins ?d ?u s)"
    using st'(2,3) ins_ok [OF ok dok, of ?u] stored_sel [where st = "st'\<lparr>de_len := de_len st + u16_length (next_n ?d s)\<rparr>"]
    by (simp add: dec_rel_def) (simp add: ins_def Let_def)
  moreover have "arrays ?st = arrays st" using st'(4,5) by (simp add: arrays_def)
  ultimately show "\<exists>st'. decode_main src lim cap inp st = decode_main src lim cap inp' st' \<and>
      dec_rel cap st' (ins ?d ?u s) \<and> arrays st' = arrays st" by blast
qed

text \<open>Every input: the loop ends, with an error or in a state of the machine.\<close>

lemma decode_main_ends:
  assumes "dec_rel cap st s" "inp \<le> lim" "lim \<le> length src" "size_of s + int (lim - inp) \<le> 1000000000"
  shows "\<exists>err st'. decode_main src lim cap inp st = Some (err, st') \<and>
    (err = U_ZERO_ERROR \<and> (\<exists>s'. dec_rel cap st' s' \<and> size_of s' \<le> size_of s + int (lim - inp)) \<and> arrays st' = arrays st \<or>
     err = U_ILLEGAL_CHAR_FOUND \<or> err = U_INVALID_CHAR_FOUND)"
  using assms
proof (induction "lim - inp" arbitrary: inp st s rule: less_induct)
  case less
  show ?case
  proof (cases "inp < lim")
    case False
    then have "decode_main src lim cap inp st = Some (U_ZERO_ERROR, st)" by (subst decode_main.simps) simp
    with less.prems(1) show ?thesis by force
  next
    case True
    have i: "0 \<le> de_i st" "de_i st \<le> INT32_MAX" "de_i st = ps_i s"
      using less.prems(1,4) by (auto simp: dec_rel_def ps_ok_def)
    obtain err inp' i' where d: "decode_int src lim (de_bias st) inp (de_i st) 1 BASE = Some (err, inp', i')"
      "err = U_ZERO_ERROR \<and> inp < inp' \<and> inp' \<le> lim \<and> de_i st \<le> i' \<and> i' \<le> INT32_MAX \<or>
       err = U_ILLEGAL_CHAR_FOUND \<or> err = U_INVALID_CHAR_FOUND"
      using decode_int_ends [OF less.prems(3) i(1,2), of 1 inp "de_bias st" BASE] less.prems(2) by auto
    show ?thesis
    proof (cases "err = U_ZERO_ERROR")
      case False
      then have "U_FAILURE err" using d(2) by auto
      then have "decode_main src lim cap inp st = Some (err, st)" using True d(1) by (subst decode_main.simps) simp
      with False d(2) show ?thesis by auto
    next
      case err: True
      with d have e: "decode_int src lim (de_bias st) inp (de_i st) 1 BASE = Some (U_ZERO_ERROR, inp', i')"
        "inp < inp'" "inp' \<le> lim" "ps_i s \<le> i'" "i' \<le> INT32_MAX" using i(3) by auto
      have sz: "size_of s < 1000000000" using less.prems(4) True by simp
      note step = decode_step [OF less.prems(1) True less.prems(3) sz e]
      show ?thesis
      proof (cases "delta_ok (i' - ps_i s) s")
        case False
        then show ?thesis using step(2) by auto
      next
        case True
        then obtain st' where st': "decode_main src lim cap inp st = decode_main src lim cap inp' st'"
          "dec_rel cap st' (ins (i' - ps_i s) (IS_BASIC_UPPERCASE (src ! (inp' - 1))) s)" "arrays st' = arrays st"
          using step(1) by blast
        have "lim - inp' < lim - inp" using e(2,3) by simp
        from less.hyps [OF this st'(2) e(3) less.prems(3)] less.prems(4) e(2,3)
        obtain err st2 where r: "decode_main src lim cap inp' st' = Some (err, st2)"
          "err = U_ZERO_ERROR \<and> (\<exists>s'. dec_rel cap st2 s' \<and> size_of s' \<le> size_of s + 1 + int (lim - inp')) \<and> arrays st2 = arrays st' \<or>
           err = U_ILLEGAL_CHAR_FOUND \<or> err = U_INVALID_CHAR_FOUND" by auto
        have "size_of s + 1 + int (lim - inp') \<le> size_of s + int (lim - inp)" using e(2,3) by simp
        with r st' show ?thesis by fastforce
      qed
    qed
  qed
qed

section \<open>Reading what was written\<close>

definition varint :: "int \<Rightarrow> int \<Rightarrow> bool \<Rightarrow> int list" where
  "varint bias delta u = (let ds = digs bias delta BASE in map (\<lambda>d. digitToBasic d False) (butlast ds) @ [digitToBasic (last ds) u])"

fun moves_text :: "(int \<times> bool) list \<Rightarrow> pstate \<Rightarrow> int list" where
  "moves_text [] s = []"
| "moves_text ((delta, u) # es) s = varint (ps_bias s) delta u @ moves_text es (ins delta u s)"

fun moves :: "(int \<times> bool) list \<Rightarrow> pstate \<Rightarrow> pstate" where
  "moves [] s = s"
| "moves ((delta, u) # es) s = moves es (ins delta u s)"

fun moves_ok :: "(int \<times> bool) list \<Rightarrow> pstate \<Rightarrow> bool" where
  "moves_ok [] s = True"
| "moves_ok ((delta, u) # es) s \<longleftrightarrow> delta_ok delta s \<and> moves_ok es (ins delta u s)"

lemma last_digs: "0 \<le> q \<Longrightarrow> 0 \<le> last (digs bias q k) \<and> last (digs bias q k) < 26"
proof (induction bias q k rule: digs.induct)
  case (1 bias q k)
  show ?case
  proof (cases "q < threshold k bias")
    case True
    with 1(2) threshold_range [of k bias] show ?thesis by (simp add: digs_Cons)
  next
    case False
    then have q: "threshold k bias \<le> q" by simp
    show ?thesis using 1(1) [OF refl False digit_step(1) [OF q]] by (simp add: digs_Cons(2) [OF False])
  qed
qed

lemma varint_digits:
  assumes "0 \<le> delta"
  shows "length (varint bias delta u) = length (digs bias delta BASE)"
    "j < length (varint bias delta u) \<Longrightarrow> rd basicToDigit (nat (varint bias delta u ! j mod 256)) = Some (digs bias delta BASE ! j)"
    "IS_BASIC_UPPERCASE (last (varint bias delta u)) = u"
    "x \<in> set (varint bias delta u) \<Longrightarrow> 0 < x \<and> x < 128 \<and> x \<noteq> 45"
proof -
  let ?ds = "digs bias delta BASE"
  have ne: "0 < length ?ds" by simp
  show l: "length (varint bias delta u) = length ?ds" using ne by (simp add: varint_def Let_def del: length_greater_0_conv)
  have r: "0 \<le> ?ds ! j \<and> ?ds ! j < 36" if "j < length ?ds" for j using digs_range [OF assms nth_mem [OF that]] .
  have at: "\<exists>v. varint bias delta u ! j = digitToBasic (?ds ! j) v" if "j < length ?ds" for j
  proof (cases "j < length ?ds - 1")
    case True
    then show ?thesis by (auto simp: varint_def Let_def nth_append nth_butlast)
  next
    case False
    then have "j = length ?ds - 1" using that by simp
    then show ?thesis by (auto simp: varint_def Let_def nth_append last_conv_nth)
  qed
  show "rd basicToDigit (nat (varint bias delta u ! j mod 256)) = Some (?ds ! j)" if "j < length (varint bias delta u)"
  proof -
    have j: "j < length ?ds" using that l by simp
    then obtain v where "varint bias delta u ! j = digitToBasic (?ds ! j) v" using at by blast
    then show ?thesis using digit_back(1) [of "?ds ! j" v] r [OF j] by simp
  qed
  show "0 < x \<and> x < 128 \<and> x \<noteq> 45" if "x \<in> set (varint bias delta u)"
  proof -
    obtain j where j: "j < length ?ds" "x = varint bias delta u ! j" using \<open>x \<in> _\<close> l by (auto simp: in_set_conv_nth)
    then obtain v where "x = digitToBasic (?ds ! j) v" using at by auto
    then show ?thesis using digit_back(2-4) [of "?ds ! j" v] r [OF j(1)] by simp
  qed
  show "IS_BASIC_UPPERCASE (last (varint bias delta u)) = u"
    using last_digs [OF assms, of bias BASE] by (auto simp: varint_def Let_def IS_BASIC_UPPERCASE_def digitToBasic_def)
qed

lemma moves_text_basic: "moves_ok es s \<Longrightarrow> x \<in> set (moves_text es s) \<Longrightarrow> 0 < x \<and> x < 128 \<and> x \<noteq> 45"
  by (induction es s rule: moves_text.induct) (auto simp: delta_ok_def dest: varint_digits(4))

lemma decode_moves:
  assumes "dec_rel cap st s" "moves_ok es s" "drop inp (take lim src) = moves_text es s" "inp \<le> lim" "lim \<le> length src"
    "size_of s + int (length es) \<le> 1000000000"
  shows "\<exists>st'. decode_main src lim cap inp st = Some (U_ZERO_ERROR, st') \<and> dec_rel cap st' (moves es s) \<and> arrays st' = arrays st"
  using assms
proof (induction es s arbitrary: inp st rule: moves_text.induct)
  case (1 s)
  then have "\<not> inp < lim" by simp
  then show ?case using 1(1) by (subst decode_main.simps) simp
next
  case (2 delta u es s)
  let ?v = "varint (ps_bias s) delta u" and ?ds = "digs (ps_bias s) delta BASE"
  have ok: "ps_ok s" "de_bias st = ps_bias s" "de_i st = ps_i s" using 2(2) by (auto simp: dec_rel_def)
  have d: "delta_ok delta s" "0 \<le> delta" "ps_i s + delta \<le> INT32_MAX" using 2(3) by (auto simp: delta_ok_def)
  have t: "drop inp (take lim src) = ?v @ moves_text es (ins delta u s)" using 2(4) by simp
  have l: "length ?v = length ?ds" by (rule varint_digits(1) [OF d(2)])
  have "length (drop inp (take lim src)) = lim - inp" using 2(5,6) by simp
  then have len: "inp + length ?ds \<le> lim" using 2(5) unfolding t by (simp add: l)
  have at: "src ! (inp + j) = ?v ! j" if "j < length ?ds" for j
  proof -
    have "drop inp (take lim src) ! j = src ! (inp + j)" using that len 2(6) by simp
    then show ?thesis unfolding t using that l by (simp add: nth_append)
  qed
  have "decode_int src lim (ps_bias s) inp (ps_i s) 1 36 = Some (U_ZERO_ERROR, inp + length ?ds, ps_i s + delta * 1)"
    by (rule decode_int_digs [where e = 0])
      (use ok d len 2(6) at varint_digits(2) [OF d(2), of _ "ps_bias s" u] l in \<open>simp_all add: ps_ok_def\<close>)
  then have e: "decode_int src lim (de_bias st) inp (de_i st) 1 36 = Some (U_ZERO_ERROR, inp + length ?ds, ps_i s + delta)"
    using ok by simp
  have pos: "0 < length ?ds" by simp
  have up: "IS_BASIC_UPPERCASE (src ! (inp + length ?ds - 1)) = u"
  proof -
    have "src ! (inp + (length ?ds - 1)) = ?v ! (length ?ds - 1)" using pos by (intro at) linarith
    also have "\<dots> = last ?v" using l pos by (metis last_conv_nth length_0_conv less_numeral_extra(3))
    finally show ?thesis using varint_digits(3) [OF d(2)] pos by simp
  qed
  have sz: "size_of s < 1000000000" using 2(7) by simp
  have "inp < lim" "inp < inp + length ?ds" "ps_i s \<le> ps_i s + delta" using len pos d(2) by linarith+
  from decode_step(1) [OF 2(2) this(1) 2(6) sz e this(2) len this(3) d(3)] d(1) up
  obtain st' where st': "decode_main src lim cap inp st = decode_main src lim cap (inp + length ?ds) st'"
    "dec_rel cap st' (ins delta u s)" "arrays st' = arrays st" by auto
  have "drop (inp + length ?ds) (take lim src) = moves_text es (ins delta u s)"
  proof -
    have "drop (length ?ds) (drop inp (take lim src)) = moves_text es (ins delta u s)" unfolding t using l by simp
    then show ?thesis by (simp add: add.commute)
  qed
  from 2(1) [OF st'(2) _ this len 2(6)] 2(3,7) st' show ?case by auto
qed

end
