(* ===== verification/PunyEncode.thy ===== *)
theory PunyEncode
  imports PunyDecode
begin

text \<open>
  The encoder writes the moves of the state machine: while it looks for the code point \<open>n\<close>, \<open>delta\<close> is the way
  of the machine from its last insertion to the place the encoder stands at, and the machine has inserted all
  smaller code points and those equal to \<open>n\<close> that the encoder has passed.
\<close>

definition cell_of :: "mark \<Rightarrow> int" where
  "cell_of x = (if fst x < 128 then 0 else if snd x then fst x - 2147483648 else fst x)"

lemma cp_of_cell: "scalar (fst x) \<Longrightarrow> cp_of (cell_of x) = (if fst x < 128 then 0 else fst x)"
  "scalar (fst x) \<Longrightarrow> 128 \<le> fst x \<Longrightarrow> (cell_of x < 0) = snd x"
  by (auto simp: cp_of_def cell_of_def scalar_def)

section \<open>The next code point\<close>

lemma next_cp_spec:
  "next_cp cells n m0 \<le> m0 \<and> (\<forall>cell \<in> set cells. n \<le> cp_of cell \<longrightarrow> next_cp cells n m0 \<le> cp_of cell) \<and>
   (next_cp cells n m0 = m0 \<or> n \<le> next_cp cells n m0 \<and> next_cp cells n m0 \<in> cp_of ` set cells)"
proof (induction cells arbitrary: m0)
  case (Cons cell cells)
  let ?m = "if n \<le> cp_of cell \<and> cp_of cell < m0 then cp_of cell else m0"
  show ?case using Cons.IH [of ?m] by (auto simp: Let_def split: if_splits)
qed simp

lemma next_cp_marks:
  assumes "list_all (\<lambda>x. scalar (fst x)) ms" "128 \<le> n" "\<exists>x \<in> set ms. n \<le> fst x"
  defines "m \<equiv> next_cp (map cell_of ms) n INT32_MAX"
  shows "n \<le> m" "m \<in> fst ` set ms" "\<forall>x \<in> set ms. fst x < n \<or> m \<le> fst x"
proof -
  note spec = next_cp_spec [of "map cell_of ms" n INT32_MAX, folded m_def]
  have cp: "cp_of (cell_of x) = (if fst x < 128 then 0 else fst x)" "scalar (fst x)" if "x \<in> set ms" for x
    using assms(1) that cp_of_cell(1) [of x] by (auto simp: list_all_iff)
  show "\<forall>x \<in> set ms. fst x < n \<or> m \<le> fst x"
  proof
    fix x assume x: "x \<in> set ms"
    show "fst x < n \<or> m \<le> fst x" using spec cp [OF x] x assms(2) by (auto split: if_splits)
  qed
  obtain x where x: "x \<in> set ms" "n \<le> fst x" using assms(3) by blast
  with \<open>\<forall>x \<in> set ms. fst x < n \<or> m \<le> fst x\<close> cp(2) [OF x(1)] have "m < INT32_MAX" by (auto simp: scalar_def)
  then have m: "n \<le> m" "m \<in> cp_of ` set (map cell_of ms)" using spec by auto
  then obtain y where y: "y \<in> set ms" "m = cp_of (cell_of y)" by auto
  show "n \<le> m" by (rule m)
  show "m \<in> fst ` set ms" using y cp [OF y(1)] m(1) assms(2) by (auto split: if_splits)
qed

section \<open>One pass\<close>

definition passed :: "int \<Rightarrow> mark list \<Rightarrow> mark list \<Rightarrow> mark list" where
  "passed m pre post = filter (\<lambda>x. fst x \<le> m) pre @ filter (\<lambda>x. fst x < m) post"

definition enc_rel :: "int \<Rightarrow> int \<Rightarrow> int \<Rightarrow> int \<Rightarrow> mark list \<Rightarrow> int list \<Rightarrow> encoder \<Rightarrow> pstate \<Rightarrow> bool" where
  "enc_rel cap bl m place out tx st s \<longleftrightarrow>
     holds (en_dest st) cap tx \<and> en_len st = int (length tx) \<and> en_bias st = ps_bias s \<and> en_handled st = size_of s \<and>
     ps_ok s \<and> ps_out s = out \<and> (ps_i s = 0 \<longleftrightarrow> size_of s = bl) \<and> bl \<le> size_of s \<and> 0 \<le> en_delta st \<and> ps_n s \<le> m \<and>
     ps_n s * (size_of s + 1) + ps_i s + en_delta st = m * (size_of s + 1) + place"

lemma enc_delta:
  assumes "enc_rel cap bl m place out tx st s" "0 \<le> place" "place \<le> size_of s" "size_of s \<le> 200" "scalar m"
  shows "delta_ok (en_delta st) s" "next_n (en_delta st) s = m" "(ps_i s + en_delta st) mod (size_of s + 1) = place"
    "0 \<le> en_delta st" "en_delta st \<le> 223937000"
proof -
  let ?h = "size_of s + 1"
  have r: "ps_ok s" "0 \<le> en_delta st" "ps_n s \<le> m" "ps_n s * ?h + ps_i s + en_delta st = m * ?h + place"
    using assms(1) by (auto simp: enc_rel_def)
  then have e: "ps_i s + en_delta st = place + (m - ps_n s) * ?h" by (simp add: algebra_simps)
  have h: "0 < ?h" "?h \<le> 201" using assms(4) by (simp_all add: size_of_def)
  have "(m - ps_n s) * ?h \<le> 1114111 * 201" using r(1,3) h assms(5) by (intro mult_mono) (auto simp: ps_ok_def scalar_def)
  then have b: "ps_i s + en_delta st \<le> 223937000" using e assms(3,4) by simp
  show n: "next_n (en_delta st) s = m" unfolding next_n_def e using h assms(2,3) by simp
  show "(ps_i s + en_delta st) mod ?h = place" unfolding e using h assms(2,3) by simp
  show "0 \<le> en_delta st" by (rule r)
  show "en_delta st \<le> 223937000" using b r(1) by (simp add: ps_ok_def)
  show "delta_ok (en_delta st) s" using b r(2) n assms(5) by (simp add: delta_ok_def)
qed

lemma filter_places: "int (length (filter (\<lambda>x. fst x \<le> m) pre)) \<le> int (length (passed m pre post))"
  by (simp add: passed_def)

lemma passed_Cons:
  "fst x < m \<Longrightarrow> passed m (pre @ [x]) post = passed m pre (x # post)"
  "m < fst x \<Longrightarrow> passed m (pre @ [x]) post = passed m pre (x # post)"
  by (simp_all add: passed_def)

lemma encode_pass_spec:
  assumes "enc_rel cap bl m (int (length (filter (\<lambda>x. fst x \<le> m) pre))) (passed m pre post) tx st s"
    "list_all (\<lambda>x. scalar (fst x)) post" "length (pre @ post) \<le> 200" "scalar m" "128 \<le> m"
  shows "\<exists>es st'. encode_pass (map cell_of post) m cap bl st = Some st' \<and> moves_ok es s \<and>
    length es = length (filter (\<lambda>x. fst x = m) post) \<and>
    enc_rel cap bl m (int (length (filter (\<lambda>x. fst x \<le> m) (pre @ post)))) (passed m (pre @ post) []) (tx @ moves_text es s) st' (moves es s)"
  using assms
proof (induction post arbitrary: pre tx st s)
  case Nil
  then show ?case by (intro exI [of _ "[]"] exI [of _ st]) simp
next
  case (Cons x post)
  let ?p = "int (length (filter (\<lambda>x. fst x \<le> m) pre))"
  have sc: "scalar (fst x)" "list_all (\<lambda>x. scalar (fst x)) post" using Cons.prems(2) by simp_all
  have len: "length ((pre @ [x]) @ post) \<le> 200" using Cons.prems(3) by simp
  have out: "ps_out s = passed m pre (x # post)" using Cons.prems(1) by (simp add: enc_rel_def)
  have "length (passed m pre (x # post)) \<le> length pre + length (x # post)"
    unfolding passed_def length_append by (rule add_mono [OF length_filter_le length_filter_le])
  then have h: "?p \<le> size_of s" "size_of s \<le> 200" "0 \<le> ?p"
    using Cons.prems(3) filter_places [of m pre "x # post"] out by (simp_all add: size_of_def)
  note d = enc_delta [OF Cons.prems(1) h(3,1,2) Cons.prems(4)]
  note IH = Cons.IH [OF _ sc(2) len Cons.prems(4,5)]
  consider (less)  "fst x < m" | (above) "m < fst x" | (same) "fst x = m" by linarith
  then show ?case
  proof cases
    case less
    let ?st = "st\<lparr>en_delta := en_delta st + 1\<rparr>"
    have "cp_of (cell_of x) < m" using less cp_of_cell(1) [OF sc(1)] Cons.prems(5) by simp
    then have e: "encode_pass (map cell_of (x # post)) m cap bl st = encode_pass (map cell_of post) m cap bl ?st"
      using d(4,5) by (simp add: Let_def)
    have "enc_rel cap bl m (int (length (filter (\<lambda>x. fst x \<le> m) (pre @ [x])))) (passed m (pre @ [x]) post) tx ?st s"
      using Cons.prems(1) less passed_Cons(1) [OF less, of pre post] by (simp add: enc_rel_def)
    from IH [OF this] show ?thesis unfolding e using less by simp
  next
    case above
    then have "\<not> cp_of (cell_of x) < m" "cp_of (cell_of x) \<noteq> m" using cp_of_cell(1) [OF sc(1)] Cons.prems(5) by simp_all
    then have e: "encode_pass (map cell_of (x # post)) m cap bl st = encode_pass (map cell_of post) m cap bl st"
      by (simp add: Let_def)
    have "enc_rel cap bl m (int (length (filter (\<lambda>x. fst x \<le> m) (pre @ [x])))) (passed m (pre @ [x]) post) tx st s"
      using Cons.prems(1) above passed_Cons(2) [OF above, of pre post] by (simp add: enc_rel_def)
    from IH [OF this] show ?thesis unfolding e using above by simp
  next
    case same
    let ?d = "en_delta st" and ?ds = "digs (ps_bias s) (en_delta st) 36" and ?s = "ins (en_delta st) (snd x) s"
    have cp: "cp_of (cell_of x) = m" "(cell_of x < 0) = snd x"
      using cp_of_cell [OF sc(1)] same Cons.prems(5) by simp_all
    have r: "holds (en_dest st) cap tx" "en_len st = int (length tx)" "en_bias st = ps_bias s" "en_handled st = size_of s"
      "ps_ok s" "ps_i s = 0 \<longleftrightarrow> size_of s = bl" "bl \<le> size_of s"
      using Cons.prems(1) by (auto simp: enc_rel_def)
    let ?t1 = "tx @ map (\<lambda>d. digitToBasic d False) (butlast ?ds)"
    obtain d1 where d1: "encode_digits (en_dest st) cap (int (length tx)) (ps_bias s) ?d 36 = Some (d1, int (length ?t1), last ?ds)"
      "holds d1 cap ?t1" using encode_digits_spec [OF r(1)] by blast
    obtain d2 where d2: "store d1 cap (int (length ?t1)) (digitToBasic (last ?ds) (snd x)) = Some d2"
      "holds d2 cap (?t1 @ [digitToBasic (last ?ds) (snd x)])" using store_holds [OF d1(2)] by blast
    have t2: "?t1 @ [digitToBasic (last ?ds) (snd x)] = tx @ varint (ps_bias s) ?d (snd x)" by (simp add: varint_def Let_def)
    have "Suc (length ?ds - Suc 0) = length ?ds" using digs_nonempty [of "ps_bias s" ?d 36] by (cases ?ds) simp_all
    then have nd: "int (length ?ds - Suc 0) + 1 = int (length ?ds)" by linarith
    let ?st = "st\<lparr>en_dest := d2, en_len := int (length ?t1) + 1,
       en_bias := adaptBias ?d (size_of s + 1) (size_of s = bl), en_delta := 0, en_handled := size_of s + 1\<rparr>"
    have e: "encode_pass (map cell_of (x # post)) m cap bl st = encode_pass (map cell_of post) m cap bl ?st"
      using cp d1(1) d2(1) r by (simp add: Let_def)
    have ins: "ps_i ?s = ?p + 1" "ps_n ?s = m" "ps_bias ?s = adaptBias ?d (size_of s + 1) (size_of s = bl)"
      "ps_out ?s = passed m (pre @ [x]) post"
    proof -
      show "ps_i ?s = ?p + 1" "ps_n ?s = m" "ps_bias ?s = adaptBias ?d (size_of s + 1) (size_of s = bl)"
        using d(2,3) r(6) by (simp_all add: ins_def Let_def)
      have "(m, snd x) = x" using same by (simp add: prod_eq_iff)
      then show "ps_out ?s = passed m (pre @ [x]) post"
        using d(2,3) out same by (simp add: ins_def Let_def passed_def)
    qed
    have "enc_rel cap bl m (int (length (filter (\<lambda>x. fst x \<le> m) (pre @ [x])))) (passed m (pre @ [x]) post)
        (tx @ varint (ps_bias s) ?d (snd x)) ?st ?s"
      using d2(2) ins r(7) ins_ok [OF r(5) d(1), of "snd x"] same nd unfolding t2 enc_rel_def
      by (simp add: varint_def Let_def)
    from IH [OF this] obtain es st' where es: "encode_pass (map cell_of post) m cap bl ?st = Some st'" "moves_ok es ?s"
      "length es = length (filter (\<lambda>x. fst x = m) post)"
      "enc_rel cap bl m (int (length (filter (\<lambda>x. fst x \<le> m) ((pre @ [x]) @ post)))) (passed m ((pre @ [x]) @ post) [])
        ((tx @ varint (ps_bias s) ?d (snd x)) @ moves_text es ?s) st' (moves es ?s)" by blast
    then show ?thesis using d(1) same unfolding e
      by (intro exI [of _ "(?d, snd x) # es"] exI [of _ st']) simp
  qed
qed

section \<open>All passes\<close>

definition main_rel :: "int \<Rightarrow> int \<Rightarrow> int \<Rightarrow> mark list \<Rightarrow> int list \<Rightarrow> encoder \<Rightarrow> pstate \<Rightarrow> bool" where
  "main_rel cap bl n ms tx st s \<longleftrightarrow> enc_rel cap bl n 0 (filter (\<lambda>x. fst x < n) ms) tx st s"

lemma size_filter: "size_of s < int (length ms) \<Longrightarrow> ps_out s = filter (\<lambda>x. fst x < n) ms \<Longrightarrow> \<exists>x \<in> set ms. n \<le> fst x"
  by (metis (mono_tags, lifting) filter_True leI nless_le of_nat_eq_iff size_of_def)

lemma guard_ok:
  assumes "0 \<le> d" "d \<le> INT32_MAX - 200" "0 < h" "d + e * h \<le> INT32_MAX - 200"
  shows "\<not> e > (INT32_MAX - 200 - d) sdiv h"
proof -
  have "e * h div h \<le> (INT32_MAX - 200 - d) div h" by (rule zdiv_mono1) (use assms in simp_all)
  then have "e \<le> (INT32_MAX - 200 - d) div h" using assms(3) by simp
  then show ?thesis using assms(2,3) by (simp add: sdiv_pos)
qed


lemma moves_append:
  "moves (es @ fs) s = moves fs (moves es s)" "moves_text (es @ fs) s = moves_text es s @ moves_text fs (moves es s)"
  "moves_ok (es @ fs) s \<longleftrightarrow> moves_ok es s \<and> moves_ok fs (moves es s)"
  by (induction es s rule: moves_text.induct) auto

lemma moves_size: "size_of (moves es s) = size_of s + int (length es)"
  by (induction es s rule: moves_text.induct) auto

lemma encode_main_spec:
  assumes "main_rel cap bl n ms tx st s" "list_all (\<lambda>x. scalar (fst x)) ms" "length ms \<le> 200" "128 \<le> n"
  shows "\<exists>es st'. encode_main (map cell_of ms) n cap bl st = Some (U_ZERO_ERROR, st') \<and> moves_ok es s \<and> ps_out (moves es s) = ms \<and>
    holds (en_dest st') cap (tx @ moves_text es s) \<and> en_len st' = int (length (tx @ moves_text es s))"
  using assms
proof (induction "length ms - nat (size_of s)" arbitrary: n tx st s rule: less_induct)
  case less
  note rel = less.prems(1) [unfolded main_rel_def]
  have r: "holds (en_dest st) cap tx" "en_len st = int (length tx)" "en_handled st = size_of s" "ps_ok s"
    "ps_out s = filter (\<lambda>x. fst x < n) ms" "0 \<le> en_delta st" "ps_n s \<le> n"
    "ps_n s * (size_of s + 1) + ps_i s + en_delta st = n * (size_of s + 1)"
    using rel by (auto simp: enc_rel_def)
  show ?case
  proof (cases "size_of s < int (length ms)")
    case False
    then have "length ms \<le> length (filter (\<lambda>x. fst x < n) ms)" using r(5) by (simp add: size_of_def)
    then have "filter (\<lambda>x. fst x < n) ms = ms" by (metis length_filter_less linorder_not_less filter_id_conv)
    then have "ps_out s = ms" using r(5) by simp
    moreover have "encode_main (map cell_of ms) n cap bl st = Some (U_ZERO_ERROR, st)"
      using False r(3) by (subst encode_main.simps) simp
    ultimately show ?thesis using r(1,2) by (intro exI [of _ "[]"] exI [of _ st]) simp
  next
    case True
    let ?m = "next_cp (map cell_of ms) n INT32_MAX" and ?h = "size_of s + 1"
    note m = next_cp_marks [OF less.prems(2,4) size_filter [OF True r(5)]]
    have sc: "scalar ?m" using m(2) less.prems(2) by (auto simp: list_all_iff)
    have same: "filter (\<lambda>x. fst x < n) ms = filter (\<lambda>x. fst x < ?m) ms"
      by (rule filter_cong) (use m(1,3) in auto)
    have h: "0 < ?h" "?h \<le> 200" using True less.prems(3) by (simp_all add: size_of_def)
    let ?d = "en_delta st + (?m - n) * ?h"
    have lin: "ps_n s * ?h + ps_i s + ?d = ?m * ?h" using r(8) by (simp add: algebra_simps)
    have "?m * ?h \<le> 1114111 * 200" using sc h by (intro mult_mono) (auto simp: scalar_def)
    moreover have "0 \<le> ps_n s * ?h" "0 \<le> ps_i s" using r(4) h(1) by (auto simp: ps_ok_def)
    ultimately have b: "?d \<le> 222822200" using lin by linarith
    have g0: "0 \<le> (?m - n) * ?h" using m(1) h(1) by simp
    then have "en_delta st \<le> INT32_MAX - 200" "?d \<le> INT32_MAX - 200" "0 \<le> ?d" using b r(6) by linarith+
    note g = guard_ok [OF r(6) this(1) h(1) this(2)] and d0 = this(3)
    have c: "chk ?d = Some ?d" using b d0 unfolding chk_def by simp
    let ?st = "st\<lparr>en_delta := ?d\<rparr>"
    have "enc_rel cap bl ?m (int (length (filter (\<lambda>x. fst x \<le> ?m) []))) (passed ?m [] ms) tx ?st s"
      using rel same lin d0 m(1) by (simp add: enc_rel_def passed_def)
    moreover have "length ([] @ ms) \<le> 200" "128 \<le> ?m" using less.prems(3,4) m(1) by simp_all
    ultimately obtain es st' where es: "encode_pass (map cell_of ms) ?m cap bl ?st = Some st'" "moves_ok es s"
      "length es = length (filter (\<lambda>x. fst x = ?m) ms)"
      "enc_rel cap bl ?m (int (length (filter (\<lambda>x. fst x \<le> ?m) ([] @ ms)))) (passed ?m ([] @ ms) []) (tx @ moves_text es s) st' (moves es s)"
      using encode_pass_spec [OF _ less.prems(2) _ sc] by blast
    note rel' = es(4) [unfolded append_Nil]
    let ?s = "moves es s"
    have o: "passed ?m ms [] = filter (\<lambda>x. fst x < ?m + 1) ms" unfolding passed_def
      by (simp only: filter.simps append_Nil2, rule filter_cong) auto
    have sz: "int (length (filter (\<lambda>x. fst x \<le> ?m) ms)) = size_of ?s" using rel' by (simp add: enc_rel_def size_of_def passed_def)
    have "length (filter (\<lambda>x. fst x \<le> ?m) ms) \<le> length ms" by (rule length_filter_le)
    then have le: "size_of ?s \<le> 200" "0 \<le> size_of ?s" using sz less.prems(3) by linarith+
    have "\<exists>x \<in> set ms. fst x = ?m" using m(2) unfolding image_iff by metis
    then have "filter (\<lambda>x. fst x = ?m) ms \<noteq> []" by (simp add: filter_empty_conv)
    then have prog: "0 < length es" unfolding es(3) by blast
    have dd: "0 \<le> en_delta st'" "en_delta st' \<le> 223937000"
      using enc_delta(4,5) [OF rel' _ _ le(1) sc] sz le(2) by simp_all
    then have c2: "chk (en_delta st' + 1) = Some (en_delta st' + 1)" unfolding chk_def by simp
    let ?st2 = "st'\<lparr>en_delta := en_delta st' + 1\<rparr>"
    have "main_rel cap bl (?m + 1) ms (tx @ moves_text es s) ?st2 ?s"
      using rel' dd unfolding main_rel_def enc_rel_def o sz by (simp add: algebra_simps)
    moreover have "length ms - nat (size_of ?s) < length ms - nat (size_of s)"
    proof -
      have "0 \<le> size_of s" by (simp add: size_of_def)
      then show ?thesis using prog True moves_size [of es s] by linarith
    qed
    ultimately obtain fs st2 where fs: "encode_main (map cell_of ms) (?m + 1) cap bl ?st2 = Some (U_ZERO_ERROR, st2)" "moves_ok fs ?s"
      "ps_out (moves fs ?s) = ms" "holds (en_dest st2) cap ((tx @ moves_text es s) @ moves_text fs ?s)"
      "en_len st2 = int (length ((tx @ moves_text es s) @ moves_text fs ?s))"
      using less.hyps [of ?s "?m + 1" "tx @ moves_text es s" ?st2] less.prems(2-4) m(1) by auto
    have "encode_main (map cell_of ms) n cap bl st = encode_main (map cell_of ms) (?m + 1) cap bl ?st2"
      using True r(3) g c es(1) c2 by (subst encode_main.simps) (simp add: Let_def)
    then show ?thesis using fs es(2) by (intro exI [of _ "es @ fs"] exI [of _ st2]) (simp add: moves_append)
  qed
qed

end
