(* ===== verification/PunyCollect.thy ===== *)
theory PunyCollect
  imports PunyEncode
begin

text \<open>
  The two ends of Punycode: what the first loop of the encoder takes from its input, terminated or with a
  length, and what the decoder takes from the part of its input before the last delimiter.
\<close>

section \<open>The code points of the input\<close>

definition flag_of :: "bool list option \<Rightarrow> nat \<Rightarrow> bool" where
  "flag_of flags j = (case flags of None \<Rightarrow> False | Some fs \<Rightarrow> fs ! j)"

definition basic_mark :: "bool list option \<Rightarrow> nat \<Rightarrow> int \<Rightarrow> mark" where
  "basic_mark flags j u =
     (let c = (case flags of None \<Rightarrow> u | Some fs \<Rightarrow> asciiCaseMap u (fs ! j)) in (c, IS_BASIC_UPPERCASE c))"

fun marks :: "bool list option \<Rightarrow> nat \<Rightarrow> int list \<Rightarrow> mark list" where
  "marks flags j [] = []"
| "marks flags j [u] = [if u < 128 then basic_mark flags j u else (u, flag_of flags j)]"
| "marks flags j (u # t # r) =
     (if u < 128 then basic_mark flags j u # marks flags (j + 1) (t # r)
      else if u16_is_lead u \<and> u16_is_trail t then (u16_supplementary u t, flag_of flags j) # marks flags (j + 2) r
      else (u, flag_of flags j) # marks flags (j + 1) (t # r))"

lemma basic_not_lead: "u < 128 \<Longrightarrow> \<not> u16_is_lead u"
  by (simp add: u16_is_lead_def)

lemma basic_mark_range: "0 \<le> u \<Longrightarrow> u < 128 \<Longrightarrow> 0 \<le> fst (basic_mark flags j u) \<and> fst (basic_mark flags j u) < 128 \<and>
    snd (basic_mark flags j u) = IS_BASIC_UPPERCASE (fst (basic_mark flags j u))"
  by (auto simp: basic_mark_def asciiCaseMap_def Let_def split: option.split)

text \<open>The marks are the code points, but for the case of the basic ones.\<close>

definition same_but_case :: "mark \<Rightarrow> int \<Rightarrow> bool" where
  "same_but_case x c \<longleftrightarrow> (if c < 128 then 0 \<le> fst x \<and> fst x < 128 \<and> snd x = IS_BASIC_UPPERCASE (fst x) else fst x = c)"

lemma marks_cps: "units_ok us \<Longrightarrow> list_all2 same_but_case (marks flags j us) (cps us)"
proof (induction flags j us rule: marks.induct)
  case (3 flags j u t r)
  have "u16_is_lead u \<and> u16_is_trail t \<Longrightarrow> \<not> u16_supplementary u t < 128"
    using supplementary_range [of u t] by simp
  with 3 basic_mark_range [of u flags j] basic_not_lead [of u] show ?case by (auto simp: same_but_case_def)
qed (auto simp: same_but_case_def basic_mark_range)

lemma length_marks: "units_ok us \<Longrightarrow> length (marks flags j us) = length (cps us)"
  using list_all2_lengthD [OF marks_cps] .

lemma low_part: "0 \<le> x \<Longrightarrow> x < 1024 \<Longrightarrow> (x + y * 1024) mod 1024 = x" "0 \<le> x \<Longrightarrow> x < 1024 \<Longrightarrow> (x + y * 1024) div 1024 = y"
  for x y :: int
  by simp_all

lemma supplementary_pair:
  assumes "u16_is_lead u" "u16_is_trail t"
  shows "units16 (u16_supplementary u t) = [u, t]"
proof -
  have e: "u16_supplementary u t = (t - 56320) + (u - 55232) * 1024" by (simp add: u16_supplementary_def)
  have r: "0 \<le> t - 56320" "t - 56320 < 1024" "55296 \<le> u" "u < 56320" using assms by (auto simp: u16_is_lead_def u16_is_trail_def)
  then have "u16_trail (u16_supplementary u t) = t" "u16_lead (u16_supplementary u t) = u"
    unfolding u16_trail_def u16_lead_def e low_part [OF r(1,2)] using r(3,4) by simp_all
  moreover have "\<not> u16_supplementary u t \<le> 65535" using supplementary_range [OF assms] by simp
  ultimately show ?thesis by (simp add: units16_def)
qed

lemma marks_plain: "units_ok us \<Longrightarrow> \<forall>c \<in> set (cps us). \<not> U_IS_SURROGATE c \<Longrightarrow> text16 (marks None j us) = us"
proof (induction "None :: bool list option" j us rule: marks.induct)
  case (3 j u t r)
  note s = supplementary_pair [of u t]
  show ?case
  proof (cases "u < 128")
    case True
    with 3 basic_not_lead [OF True] show ?thesis by (simp add: basic_mark_def units16_def)
  next
    case False
    with 3 s show ?thesis by (auto simp: units16_def)
  qed
qed (auto simp: units16_def basic_mark_def)

section \<open>The first loop of the encoder\<close>

definition src_is :: "int list \<Rightarrow> nat option \<Rightarrow> int list \<Rightarrow> bool" where
  "src_is src lim us \<longleftrightarrow>
     (case lim of Some n \<Rightarrow> n = length us \<and> take n src = us | None \<Rightarrow> 0 \<notin> set us \<and> (\<exists>r. src = us @ 0 # r))"

lemma src_is_rd:
  assumes "src_is src lim us"
  shows "j \<le> length us \<Longrightarrow> input_ends src lim j = Some (\<not> j < length us)"
    "j < length us \<Longrightarrow> rd src j = Some (us ! j)"
    "lim = None \<Longrightarrow> rd src (length us) = Some 0" "lim = Some n \<Longrightarrow> n = length us"
proof -
  show rd: "rd src j = Some (us ! j)" if "j < length us" for j
  proof (cases lim)
    case None
    then show ?thesis using assms that by (auto simp: src_is_def nth_append)
  next
    case (Some n)
    then have "take (length us) src = us" using assms by (auto simp: src_is_def)
    then have "j < length (take (length us) src)" "take (length us) src ! j = us ! j" using that by simp_all
    then show ?thesis using that by simp
  qed
  show e: "rd src (length us) = Some 0" if "lim = None"
    using assms that unfolding src_is_def by auto
  show "n = length us" if "lim = Some n" using assms that by (simp add: src_is_def)
  show "input_ends src lim j = Some (\<not> j < length us)" if "j \<le> length us"
  proof (cases "lim")
    case (Some n)
    then show ?thesis using assms by (simp add: src_is_def input_ends_def)
  next
    case None
    show ?thesis
    proof (cases "j < length us")
      case True
      have "0 \<notin> set us" using assms None by (auto simp: src_is_def)
      with nth_mem [OF True] have "us ! j \<noteq> 0" by metis
      then show ?thesis using rd [OF True] None True by (simp add: input_ends_def)
    next
      case False
      then have "j = length us" using that by simp
      then show ?thesis using e [OF None] None by (simp add: input_ends_def)
    qed
  qed
qed

definition flags_ok :: "bool list option \<Rightarrow> nat \<Rightarrow> bool" where
  "flags_ok flags n \<longleftrightarrow> (case flags of None \<Rightarrow> True | Some fs \<Rightarrow> n \<le> length fs)"

lemma store_basic_holds:
  assumes "holds dest cap tx" "flags_ok flags n" "j < n"
  shows "\<exists>dest'. store_basic flags j dest cap (int (length tx)) u = Some dest' \<and> holds dest' cap (tx @ [fst (basic_mark flags j u)])"
proof (cases "int (length tx) < cap")
  case True
  then show ?thesis using store_holds [OF assms(1)] assms(2,3)
    by (auto simp: store_basic_def basic_mark_def flags_ok_def Let_def split: option.splits)
next
  case False
  then show ?thesis using assms(1) by (auto simp: store_basic_def holds_def nth_append split: option.splits)
qed

lemma case_flag_in: "flags_ok flags n \<Longrightarrow> j < n \<Longrightarrow> case_flag flags j = Some (flag_of flags j)"
  by (auto simp: case_flag_def flag_of_def flags_ok_def split: option.splits)

definition bad_at :: "nat \<Rightarrow> mark list \<Rightarrow> UErrorCode" where
  "bad_at k ms = (if \<exists>x \<in> set (take k ms). U_IS_SURROGATE (fst x) then U_INVALID_CHAR_FOUND
     else if length ms > k then U_INDEX_OUTOFBOUNDS_ERROR else U_ZERO_ERROR)"

definition basics :: "mark list \<Rightarrow> int list" where "basics ms = map fst (filter (\<lambda>x. fst x < 128) ms)"

lemma bad_at_simps:
  "bad_at 0 (x # ms) = U_INDEX_OUTOFBOUNDS_ERROR"
  "0 < k \<Longrightarrow> U_IS_SURROGATE (fst x) \<Longrightarrow> bad_at k (x # ms) = U_INVALID_CHAR_FOUND"
  "0 < k \<Longrightarrow> \<not> U_IS_SURROGATE (fst x) \<Longrightarrow> bad_at k (x # ms) = bad_at (k - 1) ms"
  by (auto simp: bad_at_def take_Cons' split: if_splits)

lemma not_surrogate: "c < 128 \<Longrightarrow> \<not> U_IS_SURROGATE c" "65536 \<le> c \<Longrightarrow> \<not> U_IS_SURROGATE c"
  "0 \<le> c \<Longrightarrow> U_IS_SURROGATE c \<longleftrightarrow> u16_is_lead c \<or> u16_is_trail c"
  by (auto simp: U_IS_SURROGATE_def u16_is_lead_def u16_is_trail_def)


lemma marks_Cons:
  "u < 128 \<Longrightarrow> marks flags j (u # r) = basic_mark flags j u # marks flags (j + 1) r"
  "\<not> u < 128 \<Longrightarrow> \<not> (u16_is_lead u \<and> r \<noteq> [] \<and> u16_is_trail (hd r)) \<Longrightarrow> marks flags j (u # r) = (u, flag_of flags j) # marks flags (j + 1) r"
  "u16_is_lead u \<Longrightarrow> u16_is_trail t \<Longrightarrow> marks flags j (u # t # r) = (u16_supplementary u t, flag_of flags j) # marks flags (j + 2) r"
  using basic_not_lead [of u] by (cases r; auto)+

lemma basics_Cons: "basics (x # ms) = (if fst x < 128 then fst x # basics ms else basics ms)"
  by (simp add: basics_def)

definition collected :: "(UErrorCode \<times> int list \<times> int list option \<times> int) option \<Rightarrow> int \<Rightarrow> int list \<Rightarrow> int list \<Rightarrow> mark list \<Rightarrow> bool" where
  "collected r cap acc tx ms \<longleftrightarrow>
     (\<exists>cells dest len. r = Some (bad_at (200 - length acc) ms, cells, dest, len) \<and>
        (bad_at (200 - length acc) ms = U_ZERO_ERROR \<longrightarrow>
           cells = acc @ map cell_of ms \<and> len = int (length (tx @ basics ms)) \<and> holds dest cap (tx @ basics ms)))"

lemma collected_next:
  assumes "collected r cap (acc @ [cell_of x]) (tx @ basics [x]) ms" "length acc < 200" "\<not> U_IS_SURROGATE (fst x)"
  shows "collected r cap acc tx (x # ms)"
proof -
  have "bad_at (200 - length acc) (x # ms) = bad_at (200 - length (acc @ [cell_of x])) ms"
    using bad_at_simps(3) [of "200 - length acc" x ms] assms(2,3) by simp
  then show ?thesis using assms(1) unfolding collected_def by (auto simp: basics_Cons basics_def)
qed

lemma collect_spec:
  assumes "src_is src lim us" "units_ok us" "flags_ok flags (length us)" "j \<le> length us" "length acc \<le> 200" "holds dest cap tx"
  shows "collected (collect src lim flags cap j acc dest (int (length tx))) cap acc tx (marks flags j (drop j us))"
  using assms(4-6)
proof (induction "length us - j" arbitrary: j acc dest tx rule: less_induct)
  case less
  note sr = src_is_rd [OF assms(1)]
  let ?C = "collect src lim flags cap j acc dest (int (length tx))"
  show ?case
  proof (cases "j < length us")
    case False
    then show ?thesis using less.prems sr(1) [of j] by (subst collect.simps) (simp add: collected_def bad_at_def basics_def)
  next
    case True
    let ?u = "us ! j"
    have dr: "drop j us = ?u # drop (j + 1) us" using Cons_nth_drop_Suc [OF True] by simp
    have u: "0 \<le> ?u" "?u < 65536" using units_ok_nth [OF assms(2) True] by simp_all
    have ends: "input_ends src lim j = Some False" "rd src j = Some ?u" using sr(1,2) True by simp_all
    show ?thesis
    proof (cases "length acc = 200")
      case full: True
      have "marks flags j (drop j us) \<noteq> []"
        by (cases "drop (j + 1) us") (simp_all add: dr)
      then obtain x ms where "marks flags j (drop j us) = x # ms" by (cases "marks flags j (drop j us)") auto
      then show ?thesis using full ends by (subst collect.simps) (simp add: collected_def bad_at_simps)
    next
      case room: False
      then have acc: "length acc < 200" using less.prems(2) by simp
      show ?thesis
      proof (cases "?u < 128")
        case basic: True
        let ?x = "basic_mark flags j ?u"
        have x: "fst ?x < 128" using basic_mark_range [OF u(1) basic] by simp
        obtain d1 where d1: "store_basic flags j dest cap (int (length tx)) ?u = Some d1" "holds d1 cap (tx @ [fst ?x])"
          using store_basic_holds [OF less.prems(3) assms(3) True] by blast
        have "?C = collect src lim flags cap (j + 1) (acc @ [0]) d1 (int (length (tx @ [fst ?x])))"
          using ends acc basic d1(1) by (subst collect.simps) (simp add: IS_BASIC_def algebra_simps)
        moreover have "collected (collect src lim flags cap (j + 1) (acc @ [0]) d1 (int (length (tx @ [fst ?x])))) cap (acc @ [0]) (tx @ [fst ?x])
            (marks flags (j + 1) (drop (j + 1) us))"
          by (rule less.hyps) (use True acc d1(2) in simp_all)
        ultimately have "collected ?C cap (acc @ [cell_of ?x]) (tx @ basics [?x]) (marks flags (j + 1) (drop (j + 1) us))"
          using x by (simp add: cell_of_def basics_def)
        from collected_next [OF this acc not_surrogate(1) [OF x]] show ?thesis unfolding dr marks_Cons(1) [OF basic] .
      next
        case nb: False
        have fl: "case_flag flags j = Some (flag_of flags j)" by (rule case_flag_in [OF assms(3) True])
        let ?n = "if flag_of flags j then - 2147483648 else (0 :: int)"
        have cell: "cell_of (c, flag_of flags j) = ?n + c" "basics [(c, flag_of flags j)] = []" if "128 \<le> c" for c
          using that by (simp_all add: cell_of_def basics_def)
        have go: "collected (collect src lim flags cap (j + k) (acc @ [?n + c]) dest (int (length tx))) cap (acc @ [cell_of (c, flag_of flags j)])
            (tx @ basics [(c, flag_of flags j)]) (marks flags (j + k) (drop (j + k) us))" if "128 \<le> c" "0 < k" "j + k \<le> length us" for c k
          unfolding cell [OF that(1)] append_Nil2 by (rule less.hyps) (use True acc that less.prems(3) in simp_all)
        show ?thesis
        proof (cases "U_IS_SURROGATE ?u")
          case single: False
          then have np: "\<not> (u16_is_lead ?u \<and> drop (j + 1) us \<noteq> [] \<and> u16_is_trail (hd (drop (j + 1) us)))"
            using not_surrogate(3) [OF u(1)] by simp
          have "?C = collect src lim flags cap (j + 1) (acc @ [?n + ?u]) dest (int (length tx))"
            using ends acc nb fl single by (subst collect.simps) (simp add: IS_BASIC_def Let_def)
          then show ?thesis using collected_next [OF go [of ?u 1] acc] nb single True unfolding dr marks_Cons(2) [OF nb np] by simp
        next
          case sur: True
          show ?thesis
          proof (cases "u16_is_lead ?u \<and> j + 1 < length us \<and> u16_is_trail (us ! (j + 1))")
            case pair: True
            then have j1: "j + 1 < length us" and pr: "u16_is_lead ?u" "u16_is_trail (us ! (j + 1))" by simp_all
            let ?c = "u16_supplementary ?u (us ! (j + 1))"
            have dr2: "drop j us = ?u # us ! (j + 1) # drop (j + 2) us" using dr Cons_nth_drop_Suc [OF j1] by simp
            have c: "65536 \<le> ?c" using supplementary_range [OF pr] by simp
            have "case lim of None \<Rightarrow> True | Some n \<Rightarrow> j + 1 < n" using sr(4) j1 by (auto split: option.split)
            then have "?C = collect src lim flags cap (j + 2) (acc @ [?n + ?c]) dest (int (length tx))"
              using ends acc nb fl sur pr sr(2) [OF j1] by (subst collect.simps) (simp add: IS_BASIC_def Let_def)
            then show ?thesis using collected_next [OF go [of ?c 2] acc] c not_surrogate(2) [OF c] j1
              unfolding dr2 marks_Cons(3) [OF pr] by simp
          next
            case np: False
            then have np': "\<not> (u16_is_lead ?u \<and> drop (j + 1) us \<noteq> [] \<and> u16_is_trail (hd (drop (j + 1) us)))"
              by (auto simp: hd_drop_conv_nth)
            have b: "bad_at (200 - length acc) (marks flags j (drop j us)) = U_INVALID_CHAR_FOUND"
              unfolding dr marks_Cons(2) [OF nb np'] using bad_at_simps(2) [of "200 - length acc" "(?u, flag_of flags j)"] acc sur by simp
            have "?C = Some (U_INVALID_CHAR_FOUND, acc, dest, int (length tx))"
            proof (cases "u16_is_lead ?u \<and> (case lim of None \<Rightarrow> True | Some n \<Rightarrow> j + 1 < n)")
              case False
              then show ?thesis using ends acc nb fl sur by (subst collect.simps) (simp add: IS_BASIC_def Let_def, blast)
            next
              case ld: True
              have "\<exists>c2. rd src (j + 1) = Some c2 \<and> \<not> u16_is_trail c2"
              proof (cases "j + 1 < length us")
                case True
                then show ?thesis using sr(2) [OF True] np ld by auto
              next
                case False
                then have "j + 1 = length us" "lim = None" using True ld sr(4) by (auto split: option.splits)
                then show ?thesis using sr(3) by (auto simp: u16_is_trail_def)
              qed
              then show ?thesis using ends acc nb fl sur ld by (subst collect.simps) (auto simp: IS_BASIC_def Let_def)
            qed
            then show ?thesis unfolding collected_def b by simp
          qed
        qed
      qed
    qed
  qed
qed

end
