(* ===== verification/PunyProps.thy ===== *)
theory PunyProps
  imports PunyCollect
begin

text \<open>
  The properties of \<open>u_strToPunycode\<close> and \<open>u_strFromPunycode\<close> (punycode.cpp): they return for every input, the
  errors are those of the input, and decoding gives back what was encoded.
\<close>

section \<open>The start of the decoder\<close>

lemma last_delimiter_spec:
  "n \<le> length src \<Longrightarrow> \<exists>j. last_delimiter src n = Some j \<and> (j = 0 \<or> j < n \<and> src ! j = 45) \<and> j \<le> n \<and>
     (\<forall>i. j < i \<longrightarrow> i < n \<longrightarrow> src ! i \<noteq> 45)"
proof (induction n)
  case (Suc n)
  show ?case
  proof (cases "src ! n = 45")
    case True
    then show ?thesis using Suc.prems by (intro exI [of _ n]) simp
  next
    case False
    then obtain j where "last_delimiter src n = Some j" "j = 0 \<or> j < n \<and> src ! j = 45" "j \<le> n" "\<forall>i. j < i \<longrightarrow> i < n \<longrightarrow> src ! i \<noteq> 45"
      using Suc by auto
    then show ?thesis using Suc.prems False by (intro exI [of _ j]) (auto simp: less_Suc_eq)
  qed
qed simp

definition dest_ok :: "int list option \<Rightarrow> int \<Rightarrow> bool" where
  "dest_ok dest cap \<longleftrightarrow> (case dest of None \<Rightarrow> cap = 0 | Some d \<Rightarrow> cap \<le> int (length d))"

definition out_flags_ok :: "bool list option \<Rightarrow> int \<Rightarrow> bool" where
  "out_flags_ok flags cap \<longleftrightarrow> (case flags of None \<Rightarrow> True | Some fs \<Rightarrow> cap \<le> int (length fs))"

lemma dest_ok_holds: "dest_ok dest cap \<Longrightarrow> holds dest cap []"
  by (auto simp: dest_ok_def holds_def split: option.splits)

text \<open>What \<open>copy_basic\<close> leaves in an array: the first \<open>j\<close> cells below the capacity are written.\<close>

definition written :: "'a list \<Rightarrow> nat \<Rightarrow> int \<Rightarrow> (nat \<Rightarrow> 'a) \<Rightarrow> 'a list \<Rightarrow> bool" where
  "written a j cap f a' \<longleftrightarrow> length a' = length a \<and> (\<forall>i < length a. a' ! i = (if i < j \<and> int i < cap then f i else a ! i))"

lemma written_0: "written a 0 cap f a"
  by (simp add: written_def)

lemma written_Suc: "written (a[j := f j]) j cap f a' \<Longrightarrow> int j < cap \<Longrightarrow> j < length a \<Longrightarrow> written a (Suc j) cap f a'"
  by (auto simp: written_def nth_list_update less_Suc_eq)

lemma written_skip: "written a j cap f a' \<Longrightarrow> \<not> int j < cap \<Longrightarrow> written a (Suc j) cap f a'"
  by (auto simp: written_def less_Suc_eq)

lemma written_take: "written a j cap f a' \<Longrightarrow> int j \<le> cap \<Longrightarrow> cap \<le> int (length a) \<Longrightarrow> take j a' = map f [0..<j]"
  by (rule nth_equalityI) (auto simp: written_def)

lemma copy_basic_spec:
  assumes "j \<le> length src" "\<forall>i < j. src ! i < 128" "cap \<le> int (length d)"
  shows "copy_basic src j None 0 flags = Some (U_ZERO_ERROR, None, flags)"
    "\<exists>d'. copy_basic src j (Some d) cap None = Some (U_ZERO_ERROR, Some d', None) \<and> written d j cap ((!) src) d'"
    "cap \<le> int (length fs) \<Longrightarrow> \<exists>d' fs'. copy_basic src j (Some d) cap (Some fs) = Some (U_ZERO_ERROR, Some d', Some fs') \<and>
       written d j cap ((!) src) d' \<and> written fs j cap (\<lambda>i. IS_BASIC_UPPERCASE (src ! i)) fs'"
proof -
  show "copy_basic src j None 0 flags = Some (U_ZERO_ERROR, None, flags)"
    using assms(1,2) by (induction j) (simp_all add: IS_BASIC_def)
  show "\<exists>d'. copy_basic src j (Some d) cap None = Some (U_ZERO_ERROR, Some d', None) \<and> written d j cap ((!) src) d'"
    using assms
  proof (induction j arbitrary: d)
    case (Suc j)
    show ?case
    proof (cases "int j < cap")
      case True
      have "\<exists>d'. copy_basic src j (Some (d[j := src ! j])) cap None = Some (U_ZERO_ERROR, Some d', None) \<and> written (d[j := src ! j]) j cap ((!) src) d'"
        by (rule Suc.IH) (use Suc.prems in auto)
      then show ?thesis using True Suc.prems written_Suc [of d j "(!) src" cap] by (auto simp: IS_BASIC_def set_flag_def)
    next
      case False
      then show ?thesis using Suc.IH [of d] Suc.prems written_skip [of d j cap "(!) src"] by (auto simp: IS_BASIC_def)
    qed
  qed (simp add: written_0)
  show "\<exists>d' fs'. copy_basic src j (Some d) cap (Some fs) = Some (U_ZERO_ERROR, Some d', Some fs') \<and>
       written d j cap ((!) src) d' \<and> written fs j cap (\<lambda>i. IS_BASIC_UPPERCASE (src ! i)) fs'" if "cap \<le> int (length fs)"
    using assms that
  proof (induction j arbitrary: d fs)
    case (Suc j)
    let ?f = "\<lambda>i. IS_BASIC_UPPERCASE (src ! i)"
    show ?case
    proof (cases "int j < cap")
      case True
      have "\<exists>d' fs'. copy_basic src j (Some (d[j := src ! j])) cap (Some (fs[j := ?f j])) = Some (U_ZERO_ERROR, Some d', Some fs') \<and>
          written (d[j := src ! j]) j cap ((!) src) d' \<and> written (fs[j := ?f j]) j cap ?f fs'"
        by (rule Suc.IH) (use Suc.prems in auto)
      then show ?thesis using True Suc.prems written_Suc [of d j "(!) src" cap] written_Suc [of fs j ?f cap]
        by (auto simp: IS_BASIC_def set_flag_def)
    next
      case False
      then show ?thesis using Suc.IH [of d fs] Suc.prems written_skip [of d j cap "(!) src"] written_skip [of fs j cap ?f]
        by (auto simp: IS_BASIC_def)
    qed
  qed (simp add: written_0)
qed


lemma terminate_spec:
  assumes "dest_ok dest cap" "\<not> U_FAILURE ec"
  shows "\<exists>dest' ec'. u_terminateUChars dest cap (int n) ec = Some (int n, dest', ec') \<and>
    (if cap < int n then ec' = U_BUFFER_OVERFLOW_ERROR else \<not> U_FAILURE ec') \<and>
    (dest' = None \<longleftrightarrow> dest = None) \<and> (\<forall>d. dest = Some d \<longrightarrow> (\<exists>d'. dest' = Some d' \<and> length d' = length d \<and> take n d' = take n d))"
  using assms by (cases dest) (auto simp: u_terminateUChars_def dest_ok_def)

definition start :: "int list \<Rightarrow> pstate" where
  "start B = \<lparr>ps_i = 0, ps_n = 128, ps_bias = 72, ps_out = map (\<lambda>c. (c, IS_BASIC_UPPERCASE c)) B\<rparr>"

lemma start_text:
  assumes "\<forall>c \<in> set B. 0 \<le> c \<and> c < 128"
  shows "text16 (ps_out (start B)) = B" "flags16 (ps_out (start B)) = map IS_BASIC_UPPERCASE B" "ps_ok (start B)"
    "list_all (\<lambda>m. fst m \<le> 65535) (ps_out (start B))" "size_of (start B) = int (length B)"
proof -
  have b: "\<forall>c \<in> set B. c \<le> 65535 \<and> scalar c" using assms by (auto simp: scalar_def U_IS_SURROGATE_def)
  show "text16 (ps_out (start B)) = B" "flags16 (ps_out (start B)) = map IS_BASIC_UPPERCASE B"
    using b by (induction B) (auto simp: start_def units16_def)
  show "list_all (\<lambda>m. fst m \<le> 65535) (ps_out (start B))" "size_of (start B) = int (length B)"
    using b by (auto simp: start_def list_all_iff size_of_def)
  show "ps_ok (start B)" using b by (auto simp: ps_ok_def start_def list_all_iff size_of_def)
qed

lemma decode_started:
  assumes "bl \<le> length src" "\<forall>c \<in> set (take bl src). 0 \<le> c \<and> c < 128" "dest_ok dest cap" "out_flags_ok flags cap"
  shows "\<exists>dest' flags'. copy_basic src bl dest cap flags = Some (U_ZERO_ERROR, dest', flags') \<and>
    (dest' = None \<longleftrightarrow> dest = None) \<and>
    dec_rel cap \<lparr>de_dest = dest', de_flags = flags', de_len = bl, de_count = int bl, de_fsi = 1000000000,
              de_i = 0, de_n = 128, de_bias = 72\<rparr> (start (take bl src))"
proof -
  let ?B = "take bl src"
  note st = start_text [OF assms(2)]
  have l: "length ?B = bl" using assms(1) by simp
  have a: "\<forall>i < bl. src ! i < 128"
  proof (intro allI impI)
    fix i assume i: "i < bl"
    then have "take bl src ! i \<in> set (take bl src)" using assms(1) by (intro nth_mem) simp
    then show "src ! i < 128" using assms(2) i by simp
  qed
  have B: "map ((!) src) [0..<bl] = ?B" "map (\<lambda>i. IS_BASIC_UPPERCASE (src ! i)) [0..<bl] = map IS_BASIC_UPPERCASE ?B"
    by (rule nth_equalityI; use assms(1) in simp)+
  have t: "list_all (\<lambda>m. fst m \<le> 65535) (take k (ps_out (start ?B)))" for k
    using st(4) by (auto simp: list_all_iff dest: in_set_takeD)
  have out: "length (ps_out (start ?B)) = bl" using l by (simp add: start_def)
  show ?thesis
  proof (cases dest)
    case None
    then have "cap = 0" using assms(3) by (simp add: dest_ok_def)
    then show ?thesis using copy_basic_spec(1) [OF assms(1) a, of 0 "[]" flags] None st l out assms(4)
      by (auto simp: dec_rel_def stored_def out_flags_ok_def start_def split: option.splits)
  next
    case (Some d)
    then have c: "cap \<le> int (length d)" using assms(3) by (simp add: dest_ok_def)
    show ?thesis
    proof (cases flags)
      case None
      obtain d' where d': "copy_basic src bl (Some d) cap None = Some (U_ZERO_ERROR, Some d', None)" "written d bl cap ((!) src) d'"
        using copy_basic_spec(2) [OF assms(1) a c] by blast
      have "int bl \<le> cap \<Longrightarrow> take bl d' = ?B" using written_take [OF d'(2) _ c] B by simp
      moreover have "length d' = length d" using d'(2) by (simp add: written_def)
      ultimately show ?thesis using d'(1) None Some c st l out t
        by (auto simp: dec_rel_def stored_def start_def)
    next
      case fs: (Some fs)
      then have cf: "cap \<le> int (length fs)" using assms(4) by (simp add: out_flags_ok_def)
      obtain d' fs' where d': "copy_basic src bl (Some d) cap (Some fs) = Some (U_ZERO_ERROR, Some d', Some fs')" "written d bl cap ((!) src) d'"
        "written fs bl cap (\<lambda>i. IS_BASIC_UPPERCASE (src ! i)) fs'"
        using copy_basic_spec(3) [OF assms(1) a c cf] by blast
      have "int bl \<le> cap \<Longrightarrow> take bl d' = ?B \<and> take bl fs' = map IS_BASIC_UPPERCASE ?B"
        using written_take [OF d'(2) _ c] written_take [OF d'(3) _ cf] B by simp
      moreover have "length d' = length d" "length fs' = length fs" using d'(2,3) by (simp_all add: written_def)
      ultimately show ?thesis using d'(1) Some fs c cf st l out t
        by (auto simp: dec_rel_def stored_def start_def)
    qed
  qed
qed

section \<open>The results\<close>

text \<open>The arrays hold the text and its flags, or the text did not fit.\<close>

definition decoded :: "int \<Rightarrow> mark list \<Rightarrow> int list option \<Rightarrow> bool list option \<Rightarrow> UErrorCode \<Rightarrow> bool" where
  "decoded cap out dest flags ec \<longleftrightarrow>
     (if cap < int (length (text16 out)) then ec = U_BUFFER_OVERFLOW_ERROR
      else \<not> U_FAILURE ec \<and> (\<forall>d. dest = Some d \<longrightarrow> take (length (text16 out)) d = text16 out \<and>
             (\<forall>fs. flags = Some fs \<longrightarrow> take (length (text16 out)) fs = flags16 out)))"

lemma decode_finish:
  assumes "dec_rel cap st s" "de_dest st = None \<Longrightarrow> cap = 0" "\<not> U_FAILURE ec"
  shows "\<exists>dest' ec'. u_terminateUChars (de_dest st) cap (int (de_len st)) ec = Some (int (length (text16 (ps_out s))), dest', ec') \<and>
    decoded cap (ps_out s) dest' (de_flags st) ec'"
proof -
  have s: "stored cap st (ps_out s)" using assms(1) by (simp add: dec_rel_def)
  then have "dest_ok (de_dest st) cap" using assms(2) by (auto simp: dest_ok_def stored_def split: option.split)
  note ended = terminate_spec [OF this assms(3), of "de_len st"]
  obtain dest' ec' where t:
    "u_terminateUChars (de_dest st) cap (int (de_len st)) ec = Some (int (de_len st), dest', ec')"
    "if cap < int (de_len st) then ec' = U_BUFFER_OVERFLOW_ERROR else \<not> U_FAILURE ec'"
    "dest' = None \<longleftrightarrow> de_dest st = None"
    "\<forall>d. de_dest st = Some d \<longrightarrow> (\<exists>d'. dest' = Some d' \<and> length d' = length d \<and> take (de_len st) d' = take (de_len st) d)"
    by (rule exE [OF ended], elim exE conjE, rule that)
  have l: "de_len st = length (text16 (ps_out s))" using s by (simp add: stored_def)
  have "decoded cap (ps_out s) dest' (de_flags st) ec'"
    using t(2-4) s l by (cases "de_dest st") (auto simp: decoded_def stored_def)
  with t(1) l show ?thesis by auto
qed

lemma u_strlen_src: "0 \<notin> set us \<Longrightarrow> u_strlen (us @ 0 # r) = Some (length us)"
  by (induction us) auto

lemma decode_unfold:
  assumes "src_is src (if srcLength = - 1 then None else Some (nat srcLength)) us" "- 1 \<le> srcLength" "dest_ok dest cap" "\<not> U_FAILURE ec"
    "last_delimiter src (length us) = Some bl"
  shows "u_strFromPunycode (Some src) srcLength dest cap flags ec =
    do { (err, dest, flags) \<leftarrow> copy_basic src bl dest cap flags;
         if U_FAILURE err then Some (0, dest, flags, err)
         else do {
           (err, st) \<leftarrow> decode_main src (length us) cap (if bl > 0 then bl + 1 else 0)
             \<lparr>de_dest = dest, de_flags = flags, de_len = bl, de_count = int bl, de_fsi = 1000000000, de_i = 0, de_n = 128, de_bias = 72\<rparr>;
           if U_FAILURE err then Some (0, de_dest st, de_flags st, err)
           else do { (len, dest, ec) \<leftarrow> u_terminateUChars (de_dest st) cap (int (de_len st)) ec; Some (len, dest, de_flags st, ec) } } }"
proof -
  have "(if srcLength = - 1 then u_strlen src else Some (nat srcLength)) = Some (length us)"
    using assms(1) u_strlen_src by (auto simp: src_is_def split: if_splits)
  moreover have "(Some src = None \<or> srcLength < - 1 \<or> dest = None \<and> cap \<noteq> 0) = False"
    using assms(2,3) by (auto simp: dest_ok_def split: option.splits)
  ultimately show ?thesis using assms(4,5) unfolding u_strFromPunycode_def by (simp only: if_False bind.bind_lunit)
qed



section \<open>Encoding and decoding\<close>

definition puny_text :: "int list \<Rightarrow> (int \<times> bool) list \<Rightarrow> int list" where
  "puny_text B es = B @ (if B = [] then [] else [45]) @ moves_text es (start B)"

lemma decode_encoded:
  assumes "moves_ok es (start B)" "\<forall>c \<in> set B. 0 \<le> c \<and> c < 128" "take (length (puny_text B es)) src = puny_text B es"
    "length B + length es \<le> 1000000000" "dest_ok dest cap" "out_flags_ok flags cap" "\<not> U_FAILURE ec"
  shows "\<exists>dest' flags' ec'. u_strFromPunycode (Some src) (int (length (puny_text B es))) dest cap flags ec =
      Some (int (length (text16 (ps_out (moves es (start B))))), dest', flags', ec') \<and> decoded cap (ps_out (moves es (start B))) dest' flags' ec'"
proof -
  let ?p = "puny_text B es" and ?T = "moves_text es (start B)" and ?bl = "length B"
  have len: "length ?p \<le> length src" using arg_cong [OF assms(3), of length] by simp
  have at: "src ! i = ?p ! i" if "i < length ?p" for i using arg_cong [OF assms(3), of "\<lambda>x. x ! i"] that by simp
  have T: "x \<noteq> 45" if "x \<in> set ?T" for x using moves_text_basic [OF assms(1) that] by simp
  let ?inp = "if ?bl > 0 then ?bl + 1 else 0"
  have dr: "drop ?inp ?p = ?T" "?inp \<le> length ?p" by (auto simp: puny_text_def)
  have tail: "src ! i \<noteq> 45" if "?inp \<le> i" "i < length ?p" for i
  proof -
    have "drop ?inp ?p ! (i - ?inp) = ?p ! (?inp + (i - ?inp))" by (rule nth_drop) (use dr(2) in simp)
    then have "src ! i = drop ?inp ?p ! (i - ?inp)" using at [OF that(2)] le_add_diff_inverse [OF that(1)] by simp
    then show ?thesis using T [of "?T ! (i - ?inp)"] that dr by (metis diff_less_mono length_drop nth_mem)
  qed
  have mid: "src ! ?bl = 45" if "B \<noteq> []" using at [of ?bl] that by (simp add: puny_text_def nth_append)
  obtain j where j: "last_delimiter src (length ?p) = Some j" "j = 0 \<or> j < length ?p \<and> src ! j = 45" "j \<le> length ?p"
    "\<forall>i. j < i \<longrightarrow> i < length ?p \<longrightarrow> src ! i \<noteq> 45" using last_delimiter_spec [OF len] by blast
  have "j = ?bl"
  proof (cases "B = []")
    case True
    then show ?thesis using j(2) tail [of j] by auto
  next
    case False
    then have "?bl < length ?p" by (simp add: puny_text_def)
    then have "\<not> j < ?bl" using j(4) mid [OF False] by blast
    moreover have "\<not> ?bl < j" using j(2) tail [of j] False by auto
    ultimately show ?thesis by simp
  qed
  note bl = j(1) [unfolded this]
  have B: "take ?bl src = B"
  proof -
    have "take ?bl (take (length ?p) src) = B" unfolding assms(3) by (simp add: puny_text_def)
    moreover have "?bl \<le> length ?p" by (simp add: puny_text_def)
    ultimately show ?thesis by (simp add: min_absorb1)
  qed
  have bs: "?bl \<le> length src" using len by (simp add: puny_text_def)
  have "src_is src (if int (length ?p) = - 1 then None else Some (nat (int (length ?p)))) ?p"
    using assms(3) by (simp add: src_is_def)
  note unfold = decode_unfold [OF this _ assms(5,7) bl]
  obtain d1 f1 where s: "copy_basic src ?bl dest cap flags = Some (U_ZERO_ERROR, d1, f1)" "d1 = None \<longleftrightarrow> dest = None"
    "dec_rel cap \<lparr>de_dest = d1, de_flags = f1, de_len = ?bl, de_count = int ?bl, de_fsi = 1000000000, de_i = 0, de_n = 128, de_bias = 72\<rparr> (start B)"
    using decode_started [OF bs _ assms(5,6)] assms(2) unfolding B by blast
  let ?st = "\<lparr>de_dest = d1, de_flags = f1, de_len = ?bl, de_count = int ?bl, de_fsi = 1000000000, de_i = 0, de_n = 128, de_bias = 72\<rparr>"
  have "drop ?inp (take (length ?p) src) = ?T" unfolding assms(3) by (rule dr)
  moreover have "size_of (start B) + int (length es) \<le> 1000000000" using assms(4) by (simp add: start_def size_of_def)
  ultimately obtain st where m: "decode_main src (length ?p) cap ?inp ?st = Some (U_ZERO_ERROR, st)" "dec_rel cap st (moves es (start B))"
    "arrays st = arrays ?st" using decode_moves [OF s(3) assms(1) _ dr(2) len] by blast
  have "de_dest st = None \<Longrightarrow> cap = 0" using m(3) s(2) assms(5) by (auto simp: arrays_def dest_ok_def split: option.splits)
  from decode_finish [OF m(2) this assms(7)] obtain d2 e2 where
    "u_terminateUChars (de_dest st) cap (int (de_len st)) ec = Some (int (length (text16 (ps_out (moves es (start B))))), d2, e2)"
    "decoded cap (ps_out (moves es (start B))) d2 (de_flags st) e2" by blast
  then show ?thesis using unfold s(1) m(1) by simp
qed

lemma marks_range: "units_ok us \<Longrightarrow> x \<in> set (marks flags j us) \<Longrightarrow> 0 \<le> fst x \<and> fst x \<le> 1114111 \<and> (fst x < 128 \<longrightarrow> snd x = IS_BASIC_UPPERCASE (fst x))"
proof (induction flags j us rule: marks.induct)
  case (3 flags j u t r)
  have s: "u16_is_lead u \<Longrightarrow> u16_is_trail t \<Longrightarrow> 65536 \<le> u16_supplementary u t \<and> u16_supplementary u t < 1114112"
    by (rule supplementary_range)
  have b: "u < 128 \<Longrightarrow> 0 \<le> fst (basic_mark flags j u) \<and> fst (basic_mark flags j u) < 128 \<and>
    snd (basic_mark flags j u) = IS_BASIC_UPPERCASE (fst (basic_mark flags j u))" using basic_mark_range [of u flags j] 3(4) by simp
  show ?case
  proof (cases "u < 128")
    case True
    then show ?thesis using 3 b by auto
  next
    case False
    then show ?thesis using 3 s by (cases "u16_is_lead u \<and> u16_is_trail t") auto
  qed
next
  case (2 flags j u)
  then show ?case using basic_mark_range [of u flags j] by (auto split: if_splits)
qed simp

lemma bad_at_zero: "bad_at k ms = U_ZERO_ERROR \<longleftrightarrow> length ms \<le> k \<and> (\<forall>x \<in> set ms. \<not> U_IS_SURROGATE (fst x))"
  by (auto simp: bad_at_def dest: in_set_takeD)

lemma bad_at_failure: "U_FAILURE (bad_at k ms) \<longleftrightarrow> bad_at k ms \<noteq> U_ZERO_ERROR"
proof -
  have "bad_at k ms = U_INVALID_CHAR_FOUND \<or> bad_at k ms = U_INDEX_OUTOFBOUNDS_ERROR \<or> bad_at k ms = U_ZERO_ERROR"
    unfolding bad_at_def by presburger
  then show ?thesis by (elim disjE) simp_all
qed

lemma basics_marks:
  fixes flags :: "bool list option"
  assumes "units_ok us"
  defines "ms \<equiv> marks flags 0 us"
  shows "\<forall>c \<in> set (basics ms). 0 \<le> c \<and> c < 128" "ps_out (start (basics ms)) = filter (\<lambda>x. fst x < 128) ms"
proof -
  have r: "0 \<le> fst x \<and> (fst x < 128 \<longrightarrow> snd x = IS_BASIC_UPPERCASE (fst x))" if "x \<in> set ms" for x
    using marks_range [OF assms(1), of x flags 0] that by (simp add: ms_def)
  then show "\<forall>c \<in> set (basics ms). 0 \<le> c \<and> c < 128" by (auto simp: basics_def)
  have "map (\<lambda>x. (fst x, IS_BASIC_UPPERCASE (fst x))) (filter (\<lambda>x. fst x < 128) ms) = map (\<lambda>x. x) (filter (\<lambda>x. fst x < 128) ms)"
    by (rule map_cong [OF refl]) (use r in \<open>auto simp: prod_eq_iff\<close>)
  then show "ps_out (start (basics ms)) = filter (\<lambda>x. fst x < 128) ms" by (simp add: start_def basics_def comp_def)
qed

definition encoded :: "int \<Rightarrow> int list \<Rightarrow> int list option \<Rightarrow> UErrorCode \<Rightarrow> bool" where
  "encoded cap p dest ec \<longleftrightarrow>
     (if cap < int (length p) then ec = U_BUFFER_OVERFLOW_ERROR
      else \<not> U_FAILURE ec \<and> (\<forall>d. dest = Some d \<longrightarrow> take (length p) d = p))"

lemma encode_finish:
  assumes "holds dest cap p" "\<not> U_FAILURE ec"
  shows "\<exists>dest' ec'. u_terminateUChars dest cap (int (length p)) ec = Some (int (length p), dest', ec') \<and> encoded cap p dest' ec'"
proof -
  from terminate_holds [OF assms] obtain dest' ec' where t: "u_terminateUChars dest cap (int (length p)) ec = Some (int (length p), dest', ec')"
    "holds dest' cap p" "U_FAILURE ec' = (cap < int (length p))" "cap < int (length p) \<longrightarrow> ec' = U_BUFFER_OVERFLOW_ERROR" by blast
  have "take (length p) d = p" if "dest' = Some d" "\<not> cap < int (length p)" for d
    by (rule nth_equalityI) (use t(2) that in \<open>auto simp: holds_def\<close>)
  then have "encoded cap p dest' ec'" using t(3,4) by (auto simp: encoded_def)
  with t(1) show ?thesis by blast
qed

lemma encode_any:
  assumes "src_is src (if srcLength = - 1 then None else Some (nat srcLength)) us" "- 1 \<le> srcLength" "units_ok us"
    "flags_ok flags (length us)" "dest_ok dest cap" "\<not> U_FAILURE ec"
  defines "ms \<equiv> marks flags 0 us"
  shows "bad_at 200 ms \<noteq> U_ZERO_ERROR \<Longrightarrow> \<exists>dest'. u_strToPunycode (Some src) srcLength dest cap flags ec = Some (0, dest', bad_at 200 ms)"
    "bad_at 200 ms = U_ZERO_ERROR \<Longrightarrow> \<exists>es dest' ec'. moves_ok es (start (basics ms)) \<and> ps_out (moves es (start (basics ms))) = ms \<and>
       u_strToPunycode (Some src) srcLength dest cap flags ec = Some (int (length (puny_text (basics ms) es)), dest', ec') \<and>
       encoded cap (puny_text (basics ms) es) dest' ec'"
proof -
  let ?lim = "if srcLength = - 1 then None else Some (nat srcLength)" and ?B = "basics ms"
  have "collected (collect src ?lim flags cap 0 [] dest (int (length ([] :: int list)))) cap [] [] (marks flags 0 (drop 0 us))"
    by (rule collect_spec [OF assms(1,3,4)]) (use dest_ok_holds [OF assms(5)] in simp_all)
  then obtain cells d len where c: "collect src ?lim flags cap 0 [] dest 0 = Some (bad_at 200 ms, cells, d, len)"
    "bad_at 200 ms = U_ZERO_ERROR \<Longrightarrow> cells = map cell_of ms \<and> len = int (length ?B) \<and> holds d cap ?B"
    unfolding collected_def by (auto simp: ms_def)
  have args: "(Some src = None \<or> srcLength < - 1 \<or> dest = None \<and> cap \<noteq> 0) = False"
    using assms(2,5) by (auto simp: dest_ok_def split: option.splits)
  show "\<exists>dest'. u_strToPunycode (Some src) srcLength dest cap flags ec = Some (0, dest', bad_at 200 ms)" if "bad_at 200 ms \<noteq> U_ZERO_ERROR"
  proof -
    have "U_FAILURE (bad_at 200 ms)" using that by (simp add: bad_at_failure)
    then show ?thesis using c(1) assms(6) args
      unfolding u_strToPunycode_def by (simp only: if_False bind.bind_lunit prod.case if_True) simp
  qed
  assume z: "bad_at 200 ms = U_ZERO_ERROR"
  note cc = c(2) [OF z]
  let ?tx = "?B @ (if ?B = [] then [] else [45])"
  obtain d1 where d1: "(if len > 0 then do { dest \<leftarrow> store d cap len DELIMITER; Some (dest, len + 1) } else Some (d, len)) =
      Some (d1, int (length ?tx))" "holds d1 cap ?tx"
  proof (cases "?B = []")
    case True
    then show thesis using that [of d] cc by simp
  next
    case False
    obtain d1 where "store d cap (int (length ?B)) 45 = Some d1" "holds d1 cap (?B @ [45])" using store_holds cc by blast
    then show thesis using that [of d1] cc False by simp
  qed
  let ?st = "\<lparr>en_dest = d1, en_len = int (length ?tx), en_delta = 0, en_bias = 72, en_handled = len\<rparr>"
  note B = basics_marks [OF assms(3), of flags, folded ms_def]
  note st = start_text [OF B(1)]
  have "main_rel cap len 128 ms ?tx ?st (start ?B)"
    using d1(2) cc st(3,5) B(2) unfolding main_rel_def enc_rel_def by (simp add: start_def)
  moreover have "list_all (\<lambda>x. scalar (fst x)) ms" "length ms \<le> 200"
    using z marks_range [OF assms(3), of _ flags 0] unfolding bad_at_zero by (auto simp: list_all_iff scalar_def ms_def)
  ultimately obtain es st' where e: "encode_main (map cell_of ms) 128 cap len ?st = Some (U_ZERO_ERROR, st')" "moves_ok es (start ?B)"
    "ps_out (moves es (start ?B)) = ms" "holds (en_dest st') cap (?tx @ moves_text es (start ?B))"
    "en_len st' = int (length (?tx @ moves_text es (start ?B)))"
    using encode_main_spec [of cap len 128 ms ?tx ?st "start ?B"] by auto
  have p: "?tx @ moves_text es (start ?B) = puny_text ?B es" by (simp add: puny_text_def)
  obtain d2 e2 where f: "u_terminateUChars (en_dest st') cap (en_len st') ec = Some (int (length (puny_text ?B es)), d2, e2)"
    "encoded cap (puny_text ?B es) d2 e2" using encode_finish [OF e(4) assms(6)] unfolding e(5) p by blast
  have "u_strToPunycode (Some src) srcLength dest cap flags ec = Some (int (length (puny_text ?B es)), d2, e2)"
    using c(1) z cc d1(1) e(1) f(1) assms(6) args
    unfolding u_strToPunycode_def by (simp only: if_False bind.bind_lunit prod.case) simp
  with e(2,3) f(2) show "\<exists>es dest' ec'. moves_ok es (start ?B) \<and> ps_out (moves es (start ?B)) = ms \<and>
       u_strToPunycode (Some src) srcLength dest cap flags ec = Some (int (length (puny_text ?B es)), dest', ec') \<and>
       encoded cap (puny_text ?B es) dest' ec'" by blast
qed

section \<open>Properties\<close>

lemma list_all2_ex: "list_all2 P xs ys \<Longrightarrow> (\<And>x y. P x y \<Longrightarrow> Q x = R y) \<Longrightarrow> (\<exists>x \<in> set xs. Q x) = (\<exists>y \<in> set ys. R y)"
  by (induction rule: list_all2_induct) auto

lemma bad_at_cps:
  assumes "units_ok us"
  shows "bad_at k (marks flags j us) = (if \<exists>c \<in> set (take k (cps us)). U_IS_SURROGATE c then U_INVALID_CHAR_FOUND
     else if length (cps us) > k then U_INDEX_OUTOFBOUNDS_ERROR else U_ZERO_ERROR)"
proof -
  have "list_all2 same_but_case (take k (marks flags j us)) (take k (cps us))" by (rule list_all2_takeI [OF marks_cps [OF assms]])
  then have "(\<exists>x \<in> set (take k (marks flags j us)). U_IS_SURROGATE (fst x)) = (\<exists>c \<in> set (take k (cps us)). U_IS_SURROGATE c)"
    by (rule list_all2_ex) (auto simp: same_but_case_def not_surrogate(1) split: if_splits)
  then show ?thesis by (simp add: bad_at_def length_marks [OF assms])
qed

lemma puny_text_basic:
  assumes "\<forall>c \<in> set B. 0 \<le> c \<and> c < 128" "moves_ok es (start B)"
  shows "list_all (\<lambda>x. 0 \<le> x \<and> x < 128) (puny_text B es)"
  using assms(1) moves_text_basic [OF assms(2)] by (fastforce simp: puny_text_def list_all_iff)

text \<open>C17: Decoding undoes encoding. For a text of at most 200 code points without unpaired surrogates, terminated or
  with a length, u_strToPunycode gives a string p, of which it returns the length whatever the capacity and which
  the destination holds when it is long enough; u_strFromPunycode of any array that starts with p returns the length
  of the text and, when it fits, writes it. Without case flags the text is the one that was encoded; with them its
  code points are the same but for the case of ASCII letters, which is the one the flags say, and the flags of the
  other code points come back.\<close>

theorem punycode_roundtrip:
  assumes "src_is src (if srcLength = - 1 then None else Some (nat srcLength)) us" "- 1 \<le> srcLength" "units_ok us"
    "\<forall>c \<in> set (cps us). \<not> U_IS_SURROGATE c" "length (cps us) \<le> 200"
    "flags_ok flags (length us)" "dest_ok dest cap" "\<not> U_FAILURE ec"
  shows "\<exists>p dest' ec'. u_strToPunycode (Some src) srcLength dest cap flags ec = Some (int (length p), dest', ec') \<and>
    encoded cap p dest' ec' \<and> (flags = None \<longrightarrow> text16 (marks flags 0 us) = us) \<and> list_all2 same_but_case (marks flags 0 us) (cps us) \<and>
    (\<forall>src2 dest2 cap2 flags2 ec2. take (length p) src2 = p \<longrightarrow> dest_ok dest2 cap2 \<longrightarrow> out_flags_ok flags2 cap2 \<longrightarrow> \<not> U_FAILURE ec2 \<longrightarrow>
       (\<exists>dest3 flags3 ec3. u_strFromPunycode (Some src2) (int (length p)) dest2 cap2 flags2 ec2 =
          Some (int (length (text16 (marks flags 0 us))), dest3, flags3, ec3) \<and> decoded cap2 (marks flags 0 us) dest3 flags3 ec3))"
proof -
  let ?ms = "marks flags 0 us" and ?B = "basics (marks flags 0 us)"
  have z: "bad_at 200 ?ms = U_ZERO_ERROR"
    using assms(4,5) unfolding bad_at_cps [OF assms(3)] by (auto dest: in_set_takeD)
  obtain es dest' ec' where e: "moves_ok es (start ?B)" "ps_out (moves es (start ?B)) = ?ms"
    "u_strToPunycode (Some src) srcLength dest cap flags ec = Some (int (length (puny_text ?B es)), dest', ec')"
    "encoded cap (puny_text ?B es) dest' ec'" using encode_any(2) [OF assms(1-3,6-8) z] by blast
  note B = basics_marks [OF assms(3), of flags]
  have "int (length es) + size_of (start ?B) = int (length ?ms)"
    using moves_size [of es "start ?B"] e(2) by (simp add: size_of_def)
  then have len: "length ?B + length es \<le> 1000000000"
    using start_text(5) [OF B(1)] length_marks [OF assms(3), of flags 0] assms(5) by simp
  show ?thesis
    using e decode_encoded [OF e(1) B(1) _ len] marks_cps [OF assms(3)] marks_plain [OF assms(3,4)]
    by (intro exI [of _ "puny_text ?B es"] exI [of _ dest'] exI [of _ ec']) simp
qed

lemma sample_text:
  "src_is [98, 252, 55357, 56832] (if 4 = (- 1 :: int) then None else Some (nat 4)) [98, 252, 55357, 56832]"
  "units_ok [98, 252, 55357, 56832]" "\<forall>c \<in> set (cps [98, 252, 55357, 56832]). \<not> U_IS_SURROGATE c"
  "length (cps [98, 252, 55357, 56832]) \<le> 200" "flags_ok None (length ([98, 252, 55357, 56832] :: int list))"
  "dest_ok (Some (replicate 30 0)) 30" "dest_ok (Some [0, 0, 0, 0]) 4" "out_flags_ok None 4"
  by (simp_all add: src_is_def flags_ok_def dest_ok_def out_flags_ok_def u16_is_lead_def u16_is_trail_def
      u16_supplementary_def U_IS_SURROGATE_def)

theorem punycode_roundtrip_witness:
  "\<exists>p dest' ec'. u_strToPunycode (Some [98, 252, 55357, 56832]) 4 (Some (replicate 30 0)) 30 None U_ZERO_ERROR = Some (int (length p), dest', ec') \<and>
    (\<exists>dest3 flags3 ec3. u_strFromPunycode (Some p) (int (length p)) (Some [0, 0, 0, 0]) 4 None U_ZERO_ERROR = Some (4, dest3, flags3, ec3) \<and>
       (\<forall>d. dest3 = Some d \<longrightarrow> take 4 d = [98, 252, 55357, 56832]))"
proof -
  let ?us = "[98, 252, 55357, 56832] :: int list"
  have c: "- 1 \<le> (4 :: int)" "\<not> U_FAILURE U_ZERO_ERROR" by simp_all
  obtain p dest' ec' where p: "u_strToPunycode (Some ?us) 4 (Some (replicate 30 0)) 30 None U_ZERO_ERROR = Some (int (length p), dest', ec')"
    "(None :: bool list option) = None \<longrightarrow> text16 (marks None 0 ?us) = ?us"
    "\<forall>src2 dest2 cap2 flags2 ec2. take (length p) src2 = p \<longrightarrow> dest_ok dest2 cap2 \<longrightarrow> out_flags_ok flags2 cap2 \<longrightarrow> \<not> U_FAILURE ec2 \<longrightarrow>
       (\<exists>dest3 flags3 ec3. u_strFromPunycode (Some src2) (int (length p)) dest2 cap2 flags2 ec2 =
          Some (int (length (text16 (marks None 0 ?us))), dest3, flags3, ec3) \<and> decoded cap2 (marks None 0 ?us) dest3 flags3 ec3)"
    by (rule exE [OF punycode_roundtrip [OF sample_text(1) c(1) sample_text(2-6) c(2)]], elim exE conjE, rule that)
  have l: "length ?us = 4" by simp
  have p2: "text16 (marks None 0 ?us) = ?us" using p(2) by blast
  obtain dest3 flags3 ec3 where "u_strFromPunycode (Some p) (int (length p)) (Some [0, 0, 0, 0]) 4 None U_ZERO_ERROR =
      Some (int (length (text16 (marks None 0 ?us))), dest3, flags3, ec3)" "decoded 4 (marks None 0 ?us) dest3 flags3 ec3"
    using p(3) [rule_format, of p "Some [0, 0, 0, 0]" 4 None U_ZERO_ERROR] sample_text(7,8) by (simp only: take_all order_refl c(2)) blast
  then have "u_strFromPunycode (Some p) (int (length p)) (Some [0, 0, 0, 0]) 4 None U_ZERO_ERROR = Some (4, dest3, flags3, ec3)"
    "\<forall>d. dest3 = Some d \<longrightarrow> take 4 d = ?us" unfolding decoded_def p2 l by simp_all
  with p(1) show ?thesis by blast
qed

text \<open>C19: u_strToPunycode returns for every text, whatever its code points, and its 32-bit sums never overflow: an unpaired
  surrogate among the first 200 code points is U_INVALID_CHAR_FOUND, more than 200 code points without one
  U_INDEX_OUTOFBOUNDS_ERROR, and every other text gives a string of ASCII characters. U_INTERNAL_PROGRAM_ERROR,
  the answer to an overflow of delta, is never given.\<close>

theorem punycode_encode:
  assumes "src_is src (if srcLength = - 1 then None else Some (nat srcLength)) us" "- 1 \<le> srcLength" "units_ok us"
    "flags_ok flags (length us)" "dest_ok dest cap" "\<not> U_FAILURE ec"
  shows "\<exists>n dest' ec'. u_strToPunycode (Some src) srcLength dest cap flags ec = Some (n, dest', ec') \<and>
    (if \<exists>c \<in> set (take 200 (cps us)). U_IS_SURROGATE c then n = 0 \<and> ec' = U_INVALID_CHAR_FOUND
     else if 200 < length (cps us) then n = 0 \<and> ec' = U_INDEX_OUTOFBOUNDS_ERROR
     else \<exists>p. n = int (length p) \<and> list_all (\<lambda>x. 0 \<le> x \<and> x < 128) p \<and> encoded cap p dest' ec')"
proof (cases "bad_at 200 (marks flags 0 us) = U_ZERO_ERROR")
  case True
  have "\<exists>es dest' ec'. moves_ok es (start (basics (marks flags 0 us))) \<and>
       u_strToPunycode (Some src) srcLength dest cap flags ec = Some (int (length (puny_text (basics (marks flags 0 us)) es)), dest', ec') \<and>
       encoded cap (puny_text (basics (marks flags 0 us)) es) dest' ec'"
    using encode_any(2) [OF assms True] by blast
  moreover have "\<not> (\<exists>c \<in> set (take 200 (cps us)). U_IS_SURROGATE c)" "\<not> 200 < length (cps us)"
    using True unfolding bad_at_cps [OF assms(3)] by (auto split: if_splits)
  ultimately show ?thesis using puny_text_basic [OF basics_marks(1) [OF assms(3), of flags]] by (simp only: if_False) blast
next
  case False
  obtain d where "u_strToPunycode (Some src) srcLength dest cap flags ec = Some (0, d, bad_at 200 (marks flags 0 us))"
    using encode_any(1) [OF assms False] by blast
  then show ?thesis using False unfolding bad_at_cps [OF assms(3)]
    by (cases "\<exists>c \<in> set (take 200 (cps us)). U_IS_SURROGATE c") (simp_all split: if_splits)
qed

theorem punycode_encode_witness:
  "\<exists>n dest' ec'. u_strToPunycode (Some [98, 252, 55357, 56832]) 4 (Some (replicate 30 0)) 30 None U_ZERO_ERROR = Some (n, dest', ec') \<and>
    ec' \<noteq> U_INTERNAL_PROGRAM_ERROR"
proof -
  have "\<not> (\<exists>c \<in> set (take 200 (cps [98, 252, 55357, 56832])). U_IS_SURROGATE c)" "\<not> 200 < length (cps [98, 252, 55357, 56832])"
    using sample_text(3,4) by (auto dest: in_set_takeD)
  with punycode_encode [OF sample_text(1) _ sample_text(2,5,6), of U_ZERO_ERROR] show ?thesis
    by (fastforce simp: encoded_def split: if_splits)
qed



section \<open>Two promises of the header\<close>

text \<open>The low byte of a unit is all that the loops of the decoder use, but for the case flags.\<close>

definition agree :: "int list \<Rightarrow> int list \<Rightarrow> bool" where
  "agree xs ys \<longleftrightarrow> length xs = length ys \<and> (\<forall>i < length xs. xs ! i mod 256 = ys ! i mod 256)"

lemma decode_int_agree:
  assumes "agree src src2"
  shows "decode_int src lim bias inp i w k = decode_int src2 lim bias inp i w k"
proof (induction "lim - inp" arbitrary: inp i w k rule: less_induct)
  case less
  show ?case
  proof (cases "inp < lim")
    case False
    then show ?thesis by (simp add: decode_int.simps)
  next
    case True
    then have "lim - Suc inp < lim - inp" by (intro diff_less_mono2) simp_all
    then have ih: "decode_int src lim bias (Suc inp) = decode_int src2 lim bias (Suc inp)"
      using less by (intro ext)
    show ?thesis
    proof (cases "inp < length src")
      case out: False
      then have "rd src inp = None" "rd src2 inp = None" using assms by (simp_all add: agree_def)
      then show ?thesis using True by (simp add: decode_int.simps [of _ lim bias inp])
    next
      case inside: True
      then have "rd src inp = Some (src ! inp)" "rd src2 inp = Some (src2 ! inp)" "src ! inp mod 256 = src2 ! inp mod 256"
        using assms by (simp_all add: agree_def)
      then show ?thesis using True by (simp add: decode_int.simps [of _ lim bias inp] ih Let_def cong: if_cong)
    qed
  qed
qed

lemma decode_int_advances:
  "decode_int src lim bias inp i w k = Some (err, inp', i') \<Longrightarrow> \<not> U_FAILURE err \<Longrightarrow> inp < inp' \<and> inp' \<le> lim"
proof (induction "lim - inp" arbitrary: inp i w k rule: less_induct)
  case less
  have inp: "inp < lim" using less.prems by (rule_tac ccontr) (auto simp: decode_int.simps [of _ lim bias inp])
  then have "lim - Suc inp < lim - inp" by (intro diff_less_mono2) simp_all
  from less.hyps [OF this] have "decode_int src lim bias (Suc inp) i w k = Some (err, inp', i') \<Longrightarrow> inp < inp' \<and> inp' \<le> lim" for i w k
    using less.prems(2) by force
  with less.prems inp show ?case
    by (subst (asm) decode_int.simps) (auto simp: bind_eq_Some_conv Let_def split: if_splits)
qed

lemma insert_cp_unmarked:
  assumes "de_flags st = None"
  shows "insert_cp n i u cap st = insert_cp n i v cap st" "insert_cp n i u cap st = Some st' \<Longrightarrow> de_flags st' = None"
  using assms by (auto simp: insert_cp_def Let_def set_flag_def bind_eq_Some_conv split: if_splits)

lemma insert_then:
  assumes "de_flags st = None" "\<And>t. de_flags t = None \<Longrightarrow> f t = g t"
  shows "do { t \<leftarrow> insert_cp n i u cap st; f t } = do { t \<leftarrow> insert_cp n i v cap st; g t }"
  using assms(2) insert_cp_unmarked [OF assms(1), of n i u cap]
  by (cases "insert_cp n i v cap st") (auto simp: insert_cp_unmarked(1) [OF assms(1), of n i u cap v])

lemma decode_main_agree:
  assumes "agree src src2" "de_flags st = None"
  shows "decode_main src lim cap inp st = decode_main src2 lim cap inp st"
  using assms(2)
proof (induction "lim - inp" arbitrary: inp st rule: less_induct)
  case less
  note int = decode_int_agree [OF assms(1), of lim "de_bias st" inp "de_i st" 1 36]
  show ?case
  proof (cases "inp < lim \<and> (\<exists>err inp' i'. decode_int src2 lim (de_bias st) inp (de_i st) 1 36 = Some (err, inp', i') \<and> \<not> U_FAILURE err)")
    case False
    then show ?thesis
      by (cases "decode_int src2 lim (de_bias st) inp (de_i st) 1 36")
        (auto simp: decode_main.simps [of _ lim cap inp st] int)
  next
    case True
    then obtain err inp' i' where d: "inp < lim" "decode_int src2 lim (de_bias st) inp (de_i st) 1 36 = Some (err, inp', i')" "\<not> U_FAILURE err"
      by blast
    from decode_int_advances [OF d(2,3)] have adv: "lim - inp' < lim - inp" using d(1) by (intro diff_less_mono2) simp_all
    have ih: "decode_main src lim cap inp' t = decode_main src2 lim cap inp' t" if "de_flags t = None" for t
      using less.hyps [OF adv that] .
    have tail: "do { c \<leftarrow> rd src (inp' - 1); len \<leftarrow> chk m; t \<leftarrow> insert_cp n p (IS_BASIC_UPPERCASE c) cap st;
        decode_main src lim cap inp' (t\<lparr>de_len := nat len, de_count := q, de_i := j, de_n := n, de_bias := b\<rparr>) } =
      do { c \<leftarrow> rd src2 (inp' - 1); len \<leftarrow> chk m; t \<leftarrow> insert_cp n p (IS_BASIC_UPPERCASE c) cap st;
        decode_main src2 lim cap inp' (t\<lparr>de_len := nat len, de_count := q, de_i := j, de_n := n, de_bias := b\<rparr>) }" for m n p q j b
    proof (cases "inp' - 1 < length src")
      case True
      then have "rd src (inp' - 1) = Some (src ! (inp' - 1))" "rd src2 (inp' - 1) = Some (src2 ! (inp' - 1))"
        using assms(1) by (simp_all add: agree_def)
      then show ?thesis using ih by (cases "chk m") (simp_all add: insert_then [OF less.prems])
    next
      case False
      then have "rd src (inp' - 1) = None" "rd src2 (inp' - 1) = None" using assms(1) by (simp_all add: agree_def)
      then show ?thesis by simp
    qed
    show ?thesis
      by (subst (1 2) decode_main.simps) (simp only: int d fst_conv snd_conv bind.bind_lunit if_True if_False tail Let_def)
  qed
qed

lemma last_delimiter_skip: "45 \<notin> set s \<Longrightarrow> j \<le> length s \<Longrightarrow> last_delimiter (b @ s) (length b + j) = last_delimiter (b @ s) (length b)"
proof (induction j)
  case (Suc j)
  then have "s ! j \<noteq> 45" by (auto simp: in_set_conv_nth)
  with Suc show ?case by (simp add: nth_append)
qed simp

lemma copy_basic_prefix: "j \<le> length b \<Longrightarrow> copy_basic (b @ s) j dest cap flags = copy_basic (b @ s2) j dest cap flags"
proof (induction j arbitrary: dest cap flags)
  case (Suc j)
  then have "copy_basic (b @ s) j = copy_basic (b @ s2) j" by (intro ext) simp
  with Suc.prems show ?case by (simp add: nth_append cong: if_cong)
qed simp

lemma copy_basic_flags: "copy_basic src j dest cap None = Some (err, d, flags) \<Longrightarrow> flags = None"
  by (induction j arbitrary: dest) (auto simp: set_flag_def bind_eq_Some_conv split: if_splits)

text \<open>C37: A unit above U+00FF after the last delimiter is no letter or digit, but the decoder takes its low byte: without case
  flags, two strings with the same units up to their last delimiter and units of equal low bytes after it decode to the same
  result, so that U+0161 decodes as the letter a does.\<close>

theorem punycode_decode_low_byte:
  assumes "b = [] \<or> last b = 45" "45 \<notin> set s" "45 \<notin> set s2" "length s2 = length s" "\<And>i. i < length s \<Longrightarrow> s2 ! i mod 256 = s ! i mod 256"
  shows "u_strFromPunycode (Some (b @ s2)) (int (length (b @ s))) dest cap None ec = u_strFromPunycode (Some (b @ s)) (int (length (b @ s))) dest cap None ec"
proof -
  let ?bl = "length b - 1"
  have last: "last_delimiter (b @ t) (length b) = Some ?bl" for t :: "int list"
  proof (cases "b = []")
    case False
    then obtain c where b: "b = c @ [45]" using assms(1) by (metis append_butlast_last_id)
    show ?thesis by (simp add: b nth_append)
  qed simp
  have delim: "last_delimiter (b @ s2) (length (b @ s)) = Some ?bl" "last_delimiter (b @ s) (length (b @ s)) = Some ?bl"
    using last_delimiter_skip [OF assms(3), of "length s" b] last_delimiter_skip [OF assms(2), of "length s" b] last assms(4) by simp_all
  have ag: "agree (b @ s2) (b @ s)" using assms(4,5) by (simp add: agree_def nth_append)
  have copy: "copy_basic (b @ s2) ?bl dest cap None = copy_basic (b @ s) ?bl dest cap None" by (rule copy_basic_prefix) simp
  have main: "decode_main (b @ s2) lim cap inp st = decode_main (b @ s) lim cap inp st" if "de_flags st = None" for lim inp st
    by (rule decode_main_agree [OF ag that])
  have n: "(if int (length (b @ s)) = - 1 then x else Some (nat (int (length (b @ s))))) = Some (length (b @ s))" for x by simp
  show ?thesis
  proof (cases "copy_basic (b @ s) ?bl dest cap None")
    case None
    then show ?thesis unfolding u_strFromPunycode_def by (simp only: n copy bind.bind_lunit bind.bind_lzero delim option.simps)
  next
    case (Some r)
    obtain err d flags where r: "r = (err, d, flags)" by (metis prod_cases3)
    with Some have "flags = None" using copy_basic_flags by metis
    then have "decode_main (b @ s2) lim cap inp \<lparr>de_dest = d, de_flags = flags, de_len = bl, de_count = q, de_fsi = f, de_i = i, de_n = m, de_bias = w\<rparr> =
      decode_main (b @ s) lim cap inp \<lparr>de_dest = d, de_flags = flags, de_len = bl, de_count = q, de_fsi = f, de_i = i, de_n = m, de_bias = w\<rparr>"
      for lim inp bl q f i m w by (intro main) simp
    with Some r show ?thesis unfolding u_strFromPunycode_def
      by (simp only: n copy bind.bind_lunit delim prod.case option.simps)
  qed
qed

theorem punycode_decode_low_byte_witness:
  "u_strFromPunycode (Some [98, 45, 353]) 3 (Some [0, 0, 0]) 3 None U_ZERO_ERROR = u_strFromPunycode (Some [98, 45, 97]) 3 (Some [0, 0, 0]) 3 None U_ZERO_ERROR"
  using punycode_decode_low_byte [of "[98, 45]" "[97]" "[353]" "Some [0, 0, 0]" 3 U_ZERO_ERROR] by simp

text \<open>The state after \<open>m\<close> copies of U+10000.\<close>

definition copies :: "nat \<Rightarrow> int \<Rightarrow> pstate" where
  "copies m b = \<lparr>ps_i = int m, ps_n = 65536, ps_bias = b, ps_out = replicate m (65536, False)\<rparr>"

lemma zero_digit: "varint b 0 False = [97]"
proof -
  have "0 < threshold 36 b" using threshold_range [of 36 b] by simp
  then have "digs b 0 36 = [0]" by (simp add: digs_Cons)
  then show ?thesis by (simp add: varint_def digitToBasic_def)
qed

lemma one_more: "ins 0 False (copies m b) = copies (Suc m) (adaptBias 0 (int m + 1) (m = 0))"
proof -
  have "int m mod (int m + 1) = int m" "int m div (int m + 1) = 0" by simp_all
  then show ?thesis by (simp add: ins_def copies_def next_n_def size_of_def Let_def replicate_append_same)
qed

lemma copies_moves:
  "m + k \<le> 1000000000 \<Longrightarrow> moves_ok (replicate k (0, False)) (copies m b) \<and> moves_text (replicate k (0, False)) (copies m b) = replicate k 97 \<and>
    ps_out (moves (replicate k (0, False)) (copies m b)) = replicate (m + k) (65536, False)"
proof (induction k arbitrary: m b)
  case 0
  then show ?case by (simp add: copies_def)
next
  case (Suc k)
  have "int m div (int m + 1) = 0" by simp
  then have "delta_ok 0 (copies m b)" using Suc.prems by (simp add: delta_ok_def copies_def next_n_def size_of_def scalar_def U_IS_SURROGATE_def)
  with Suc.IH [of "Suc m"] Suc.prems show ?case by (simp add: one_more zero_digit)
qed

lemma text16_copies: "text16 (replicate m (65536, False)) = concat (replicate m [55296, 56320])"
  by (induction m) (simp_all add: units16_def u16_lead_def u16_trail_def)

text \<open>C38: The text can be longer than the Punycode string, where the header says that it never is: 2n7c and k times the letter a, a string
  of k+4 units, decodes to k+1 times U+10000, which are 2(k+1) units, for every k below 1000000000, and they are written when
  they fit.\<close>

theorem punycode_decode_expands:
  assumes "k < 1000000000" "dest_ok dest cap" "out_flags_ok flags cap" "\<not> U_FAILURE ec"
  shows "\<exists>dest' flags' ec'. u_strFromPunycode (Some ([50, 110, 55, 99] @ replicate k 97)) (int k + 4) dest cap flags ec =
      Some (2 * (int k + 1), dest', flags', ec') \<and>
    (if cap < 2 * (int k + 1) then ec' = U_BUFFER_OVERFLOW_ERROR
     else \<not> U_FAILURE ec' \<and> (\<forall>d. dest' = Some d \<longrightarrow> take (2 * (k + 1)) d = concat (replicate (k + 1) [55296, 56320])))"
proof -
  let ?es = "(65408, False) # replicate k (0, False)"
  have first: "varint 72 65408 False = [50, 110, 55, 99]" "delta_ok 65408 (start [])" by code_simp+
  have s1: "ins 65408 False (start []) = copies 1 (adaptBias 65408 1 True)"
    by (simp add: ins_def copies_def next_n_def size_of_def start_def)
  have s0: "ps_bias (start []) = 72" by (simp add: start_def)
  have c: "moves_ok ?es (start [])" "puny_text [] ?es = [50, 110, 55, 99] @ replicate k 97"
    "ps_out (moves ?es (start [])) = replicate (k + 1) (65536, False)"
    using copies_moves [of 1 k "adaptBias 65408 1 True"] assms(1) by (simp_all add: puny_text_def first s1 s0)
  have l: "length (text16 (replicate (k + 1) (65536, False))) = 2 * (k + 1)"
    unfolding text16_copies by (induction k) simp_all
  have len: "int (length (puny_text [] ?es)) = int k + 4" unfolding c(2) by simp
  have "length ([] :: int list) + length ?es \<le> 1000000000" using assms(1) by simp
  from decode_encoded [OF c(1) _ _ this assms(2-4), of "puny_text [] ?es"] obtain dest' flags' ec' where
    d: "u_strFromPunycode (Some (puny_text [] ?es)) (int k + 4) dest cap flags ec = Some (int (2 * (k + 1)), dest', flags', ec')"
      "decoded cap (replicate (k + 1) (65536, False)) dest' flags' ec'"
    unfolding len c(3) l by auto
  have "int (2 * (k + 1)) = 2 * (int k + 1)" by simp
  with d(1) d(2) [unfolded decoded_def l, unfolded text16_copies] show ?thesis unfolding c(2) by (auto split: if_splits)
qed

theorem punycode_decode_expands_witness:
  "\<exists>ec'. u_strFromPunycode (Some [50, 110, 55, 99, 97, 97, 97, 97, 97, 97, 97]) 11 None 0 None U_ZERO_ERROR = Some (16, None, None, ec')"
proof -
  have ok: "dest_ok None 0" "out_flags_ok None 0" by (simp_all add: dest_ok_def out_flags_ok_def)
  have k: "replicate 7 (97 :: int) = [97, 97, 97, 97, 97, 97, 97]" by (simp add: numeral_eq_Suc)
  obtain dest' flags' ec' where
    "u_strFromPunycode (Some [50, 110, 55, 99, 97, 97, 97, 97, 97, 97, 97]) 11 None 0 None U_ZERO_ERROR = Some (16, dest', flags', ec')"
    using punycode_decode_expands [of 7 None 0 None U_ZERO_ERROR] ok k by auto
  moreover have "map_option (\<lambda>r. (fst (snd r), fst (snd (snd r))))
    (u_strFromPunycode (Some [50, 110, 55, 99, 97, 97, 97, 97, 97, 97, 97]) 11 None 0 None U_ZERO_ERROR) = Some (None, None)" by code_simp
  ultimately show ?thesis by simp
qed

end
