(* ===== verification/Spec2Isabelle.thy ===== *)
theory Spec2Isabelle
  imports UVec32 BMPSpan UVec USetSerial USetSpans HashProps USetIter USorting PunyProps
begin

text \<open>
  \<^bold>\<open>What this is.\<close> The repository is the Android port of a game: a Java front end, a slimmed Boost, and
  ICU 55 as the C++ that is in the tree (the game engine is a git submodule whose directory is empty
  here). This development models the part of ICU's \<open>source/common\<close> that holds sets of characters:
  \<open>UnicodeSet\<close> with the containers, the UTF-16 code and the lookup tables it stands on, and the hash tables
  that the rest of ICU keeps its objects in, an array sort, and Punycode. All paths below are relative
  to \<open>src/OpenApoc/src/main/jni/icu55/source/common\<close>.

  \<^bold>\<open>How the parts interact.\<close> A \<open>UnicodeSet\<close> keeps its code points in an inversion list, an
  ascending array of boundaries that ends with HIGH = 0x110000, and its strings in a \<open>UVector\<close> sorted by
  \<open>UnicodeString\<close> comparison. Mutators that take a range or a set merge the list with another one into a second buffer and
  swap the two. \<open>freeze()\<close> builds a \<open>BMPSet\<close> from the list or, when some string matters to spans, a
  \<open>UnicodeSetStringSpan\<close>; from then on \<open>contains\<close> and \<open>span\<close> ask these objects and mutators do
  nothing. A span over strings keeps the matches it has still to follow in an \<open>OffsetList\<close>. \<open>serialize\<close> writes the list
  as 16-bit units, and the functions on \<open>USerializedSet\<close> read them. Memory comes from \<open>uprv_malloc\<close> and
  \<open>uprv_realloc\<close>, which may fail. A \<open>UHashtable\<close> reaches its keys through a hash function and a comparator
  of its client; it grows and shrinks as elements come and go, and \<open>Hashtable\<close> is the one with strings as keys.

  \<^bold>\<open>Theories.\<close>
  \<^item> \<open>Prelude\<close>: checked reads and writes of arrays (\<open>rd\<close>, \<open>wr\<close>), the allocator
    (\<open>cmemory.c\<close>), \<open>UErrorCode\<close> (\<open>unicode/utypes.h\<close>), shifts and searches of arrays, the
    lemmas the containers share.
  \<^item> \<open>UVec32\<close>: \<open>UVector32\<close> (\<open>uvectr32.cpp\<close>, \<open>uvectr32.h\<close>), every operation on an
    array of capacity cells, with reachability over calls.
  \<^item> \<open>UVec\<close>: \<open>UVector\<close> and \<open>UStack\<close> (\<open>uvector.cpp\<close>, \<open>uvector.h\<close>,
    \<open>ustack.cpp\<close>): pointers are options, the ghost field \<open>uv_deleted\<close> records what the deleter was called on.
  \<^item> \<open>Utf16\<close>: the macros of \<open>unicode/utf16.h\<close>. \<open>UStr\<close>: the comparison and the code point
    access of \<open>UnicodeString\<close> (\<open>unistr.cpp\<close>, \<open>unicode/unistr.h\<close>).
  \<^item> \<open>InvList\<close>: \<open>findCodePoint\<close> and the three merge loops of \<open>uniset.cpp\<close> over plain
    lists, and the set an inversion list stands for (\<open>inv_set\<close>).
  \<^item> \<open>BMPSet\<close>, \<open>BMPSpan\<close>: the tables of \<open>bmpset.cpp\<close>, their construction, \<open>contains\<close>,
    \<open>span\<close> and \<open>spanBack\<close>. Table words are 32-bit words.
  \<^item> \<open>USet\<close>: the object (record \<open>uset\<close>, \<open>unicode/uset.h\<close>) and every mutator of
    \<open>uniset.cpp\<close> on code points and ranges. \<open>USetSpec\<close>: the well-formedness invariant \<open>us_ok\<close> and
    the abstraction to a set of code points (\<open>us_codes\<close>) and a set of strings (\<open>us_strs\<close>).
    \<open>USetCodes\<close>, \<open>USetOps\<close>, \<open>USetBuild\<close>: what the operations on code points, on strings and
    between two sets, and the constructors and assignment do to them. \<open>USetCalls\<close>: the calls as a data type, their
    abstract meaning (\<open>set_do\<close>) and the refinement for every sequence of calls.
  \<^item> \<open>USetQuery\<close>: the queries, \<open>matches\<close> and \<open>matchesIndexValue\<close> (\<open>uniset.cpp\<close>,
    \<open>unifilt.cpp\<close>). \<open>USetSerial\<close>: \<open>serialize\<close> and the serialized sets of \<open>uset.cpp\<close>.
  \<^item> \<open>OffsetList\<close>: the circular buffer of \<open>unisetspan.cpp\<close> as a set of offsets. \<open>StringSpan\<close>: the object
    \<open>UnicodeSetStringSpan\<close> (record \<open>sspan\<close>), its constructor and its spans, \<open>freeze\<close>, \<open>span\<close> and
    \<open>spanBack\<close> of \<open>uniset.cpp\<close> over its operations. \<open>SpanSpec\<close>: the positions a sequence of set
    elements can reach (\<open>spans_to\<close>) and that the spans find the last one, or the first element. \<open>SpanSimple\<close>: the span by
    longest matches. \<open>SpanBuild\<close>: what the constructor builds. \<open>USetSpans\<close>: \<open>freeze\<close> and \<open>span\<close> of a whole set.
  \<^item> \<open>USetIter\<close>: \<open>UnicodeSetIterator\<close> (\<open>usetiter.cpp\<close>, \<open>unicode/usetiter.h\<close>), what it has
    still to yield, and clients that take all of it.
  \<^item> \<open>USort\<close>: the sort of \<open>uarrsort.c\<close>. \<open>USortSpec\<close>: comparators that are total preorders (locale \<open>sort_order\<close>),
    the binary search and the stable insertion sort. \<open>USortQuick\<close>: the quicksort, its loops end inside the array.
    \<open>USorting\<close>: the comparators of the code as orders, the sorts of \<open>UVector\<close>.
  \<^item> \<open>Puny\<close>: \<open>punycode.cpp\<close>, both functions with their loops. \<open>PunyInt\<close>: the bias and the variable-length
    integers. \<open>PunyText\<close>: texts of code points with case flags, the insertion of one. \<open>PunyDecode\<close>: the decoder as a state
    machine (record \<open>pstate\<close>, transition \<open>ins\<close>). \<open>PunyEncode\<close>: the encoder writes the moves of that machine.
    \<open>PunyCollect\<close>: the input of the encoder. \<open>PunyProps\<close>: the properties.
  \<^item> \<open>PrimeTable\<close>: the table lengths of \<open>uhash.c\<close> and that they are prime. \<open>UHash\<close>: the table
    (record \<open>uhashtable\<close>, \<open>uhash.h\<close>) and its operations. \<open>UHashFind\<close>: the search as a walk that visits each slot once,
    since the length is prime. \<open>UHashSpec\<close>: the contract of hash function and comparator (locale \<open>key_contract\<close>) and the
    slots as a map. \<open>UHashMap\<close>: the invariant \<open>uh_ok\<close>, rehashing. \<open>UHashOps\<close>, \<open>UHashWalk\<close>: put, remove and get; the
    walk through the slots, removing all, comparing, opening. \<open>UHashKeys\<close>: the code's hash functions and comparators
    (\<open>uhash.c\<close>, \<open>ustring.cpp\<close>, \<open>unistr.cpp\<close>), each pair an interpretation of the contract.
    \<open>UHashProps\<close>: the tables reachable by calls, and the marks after a resize. \<open>HashProps\<close>: \<open>Hashtable\<close> of
    \<open>hash.h\<close> and the properties.

  \<^bold>\<open>Conventions.\<close> A read or write outside an array, a call through NULL and a loop that does not end have no
  result: the operation returns \<open>None\<close>, so a theorem that it returns \<open>Some\<close> says that none of these happens.
  Code points, UTF-16 units and 32-bit counts are integers; where an unsigned value can leave its width the wrap-around is
  written out (\<open>u32\<close>, \<open>mod 65536\<close>), a signed sum or product that can leave 32 bits goes through \<open>chk\<close> or
  \<open>add32\<close> and has no result then, and the bit tables are words. An array is the list of its allocated cells, of which the first
  \<open>count\<close> (or \<open>len\<close>) are in use; a cell that \<open>uprv_realloc\<close> adds holds an arbitrary value of the
  heap parameter. The heap parameter decides which requests succeed; statements that need a success say so, the
  others hold for every heap.

  \<^bold>\<open>What the lemmas show.\<close> The merge loops compute union, intersection, difference and symmetric difference
  and write no more cells than the buffer the code asks for; the binary searches end and count boundaries; each mutator
  keeps \<open>us_ok\<close> and refines the operation on sets, or leaves the set bogus when memory runs out; a
  frozen set is not changed; the bit tables answer as the list does; queries are those of the abstract
  set; serialized sets read back as they were; a span of a set with strings always returns, over contained elements it ends at the
  longest concatenation of set elements, and freezing a set does not change its spans. Loops are HOL functions with termination proofs; the two search loops of
  \<open>uset_serializedContains\<close>, one of which need not end, are partial functions, and it is proved
  where they return and where they do not. The rounds of a span are partial functions too, and it is
  proved that they return. A hash table under the contract is a finite map up to key equality: put, get, remove,
  rehash, equals and the walk are the operations of that map, every reachable table is well-formed, and the ghost lists of
  deleted tokens show that each displaced key and value goes to its deleter once. These hold for heaps with \<open>uh_memory\<close>: the
  largest array, whose length overflows the search, cannot be had, and a table that may shrink can have the next smaller array;
  what a table comes to that cannot have it is proved too. The loop of the search is a partial function
  that is proved to return. The sort returns for every total preorder
  and every array of at most 1073741823 items and \<open>2 ^ 31 - 1\<close> bytes, rearranges the items in ascending order, and does so stably
  where it says so; an iterator yields every code point and every string once. The decoder of Punycode
  undoes the encoder: the encoder's output is a list of integers, each the way of the decoder's state machine from one insertion to
  the next. The encoder takes at most 200 code points (MAX_CP_COUNT), which bounds delta by 223937000, and the bias never exceeds 226, so that the weight
  of a digit fits in 32 bits; inputs of the decoder have at most 1000000000 units, since the
  length of its output, which can be twice as much, is a 32-bit integer.

  \<^bold>\<open>Not modelled.\<close> The backward spans and the copy constructor of \<open>unisetspan.cpp\<close>, the UTF-8 side of
  \<open>unisetspan.cpp\<close> and \<open>bmpset.cpp\<close>, patterns (\<open>applyPattern\<close>, \<open>toPattern\<close>), case
  closure and property sets (generated tables), \<open>uvectr64.cpp\<close>. \<open>UnicodeString\<close> is its list of units: its buffer, copy-on-write and allocation are
  left out. The rest of ICU (IDNA above Punycode, converters, normalization, tries, break
  iteration, locales, the caseless keys of \<open>hash.h\<close>, \<open>i18n\<close>, \<open>layout\<close>, \<open>io\<close>, tools and tests), Boost and the Java code are not modelled.
\<close>

end
